(* ===== verification/Prelude.thy ===== *)
theory Prelude
  imports Main "HOL-Library.Word"
begin

text \<open>
  Shared vocabulary of the development: the machine integer types of the C code, C strings,
  the decimal and hexadecimal conversions of \<open>snprintf\<close>, and the generic facts on words,
  lists and strings that the component theories rest on.

  Conventions. A C string (\<open>char\<close> array up to its first NUL) is a \<open>string\<close> that
  holds no NUL; raw memory that is about to be read as a C string goes through \<open>cstr\<close>.
  A payload (\<open>uint8_t\<close> array with a length) is a list of bytes. \<open>size_t\<close> offsets
  into buffers whose capacity is fixed in the source are natural numbers; fields and counters
  that the structs declare as \<open>uint32_t\<close> or \<open>uint64_t\<close> are words of that width.
\<close>

named_theorems word_nats \<open>moving machine arithmetic to the natural numbers\<close>
named_theorems cstr_simps \<open>facts on C strings and their buffers\<close>

type_synonym u8 = "8 word"
type_synonym u16 = "16 word"
type_synonym u32 = "32 word"
type_synonym u64 = "64 word"
type_synonym bytes = "u8 list"

subsection \<open>Words\<close>

lemma unat_add_small [word_nats]:
  fixes a b :: "'a::len word"
  shows "unat a + unat b < 2 ^ LENGTH('a) \<Longrightarrow> unat (a + b) = unat a + unat b"
  by (simp add: unat_word_ariths)

lemma unat_inc_small [word_nats]:
  fixes a :: "'a::len word"
  assumes "unat a + 1 < 2 ^ LENGTH('a)"
  shows "unat (a + 1) = unat a + 1"
proof -
  have "unat (1 :: 'a word) = 1" by simp
  with assms show ?thesis by (metis unat_add_small)
qed

lemma unat_inc_less [word_nats]:
  fixes a b :: "'a::len word"
  assumes "a < b"
  shows "unat (a + 1) = unat a + 1"
proof (rule unat_inc_small)
  have "unat b < 2 ^ LENGTH('a)" by (rule unsigned_less)
  moreover have "unat a < unat b" using assms by (simp add: word_less_nat_alt)
  ultimately show "unat a + 1 < 2 ^ LENGTH('a)" by linarith
qed

lemma unat_word_of_nat_less:
  fixes n :: "'a::len word"
  assumes "i < unat n"
  shows "unat (word_of_nat i :: 'a word) = i"
proof -
  have "unat n < 2 ^ LENGTH('a)" by (rule unsigned_less)
  with assms have "i < 2 ^ LENGTH('a)" by linarith
  then show ?thesis by (simp add: unat_of_nat)
qed

lemma unat_diff_inc_less:
  fixes a b :: "'a::len word"
  assumes "a < b"
  shows "unat b - unat (a + 1) < unat b - unat a"
  using assms unat_inc_less [OF assms] by (simp add: word_less_nat_alt)

lemma unat_dec [word_nats]:
  fixes a :: "'a::len word"
  shows "a \<noteq> 0 \<Longrightarrow> unat (a - 1) = unat a - 1"
  by (metis unat_minus_one)

lemma unat_dec_less:
  fixes a :: "'a::len word"
  assumes "a \<noteq> 0"
  shows "unat (a - 1) < unat a"
proof -
  have "0 < unat a" using assms by (simp add: word_neq_0_conv word_less_nat_alt)
  then show ?thesis using unat_dec [OF assms] by simp
qed

lemma unat_sub_le [word_nats]:
  fixes a b :: "'a::len word"
  shows "b \<le> a \<Longrightarrow> unat (a - b) = unat a - unat b"
  by (simp add: unat_sub word_le_nat_alt)

lemma unat_mod_eq [word_nats]:
  fixes a b :: "'a::len word"
  shows "unat (a mod b) = unat a mod unat b"
  by (simp add: unat_mod)

lemma word_eq_unat: "(a :: 'a::len word) = b \<longleftrightarrow> unat a = unat b"
  by (simp add: word_unat_eq_iff)

lemma word_less_unat: "(a :: 'a::len word) < b \<longleftrightarrow> unat a < unat b"
  by (rule word_less_nat_alt)

lemma word_le_unat: "(a :: 'a::len word) \<le> b \<longleftrightarrow> unat a \<le> unat b"
  by (rule word_le_nat_alt)

lemmas word_to_nat = word_eq_unat word_less_unat word_le_unat

subsection \<open>Characters, bytes and C strings\<close>

definition nul :: char where
  "nul = CHR 0x00"

definition char_of_byte :: "u8 \<Rightarrow> char" where
  "char_of_byte b = char_of (unat b)"

definition byte_of_char :: "char \<Rightarrow> u8" where
  "byte_of_char c = word_of_nat (of_char c)"

lemma char_of_byte_inverse [simp]: "byte_of_char (char_of_byte b) = b"
proof -
  have "unat b < 256" using unsigned_less [of b] by simp
  then have "(of_char (char_of (unat b) :: char) :: nat) = unat b" by simp
  then show ?thesis by (simp add: byte_of_char_def char_of_byte_def)
qed

lemma byte_of_char_inverse [simp]: "char_of_byte (byte_of_char c) = c"
proof -
  have "(of_char c :: nat) < 256" by simp
  then have "unat (word_of_nat (of_char c) :: u8) = of_char c"
    by (simp add: unat_of_nat)
  then show ?thesis by (simp add: byte_of_char_def char_of_byte_def)
qed

lemma inj_char_of_byte: "char_of_byte a = char_of_byte b \<longleftrightarrow> a = b"
  by (metis char_of_byte_inverse)

text \<open>Memory read as a C string ends at its first NUL.\<close>

definition cstr :: "string \<Rightarrow> string" where
  "cstr s = takeWhile (\<lambda>c. c \<noteq> nul) s"

definition is_cstr :: "string \<Rightarrow> bool" where
  "is_cstr s \<longleftrightarrow> nul \<notin> set s"

lemma cstr_no_nul [cstr_simps]: "is_cstr (cstr s)"
  by (auto simp: is_cstr_def cstr_def dest: set_takeWhileD)

lemma cstr_id [cstr_simps]: "is_cstr s \<Longrightarrow> cstr s = s"
  by (auto simp: is_cstr_def cstr_def takeWhile_eq_all_conv)

lemma is_cstr_Nil [simp]: "is_cstr []"
  by (simp add: is_cstr_def)

lemma is_cstr_Cons [simp]: "is_cstr (c # s) \<longleftrightarrow> c \<noteq> nul \<and> is_cstr s"
  by (auto simp: is_cstr_def)

lemma is_cstr_append [simp]: "is_cstr (s @ t) \<longleftrightarrow> is_cstr s \<and> is_cstr t"
  by (auto simp: is_cstr_def)

lemma is_cstr_take [intro]: "is_cstr s \<Longrightarrow> is_cstr (take n s)"
  by (auto simp: is_cstr_def dest: in_set_takeD)

lemma is_cstr_drop [intro]: "is_cstr s \<Longrightarrow> is_cstr (drop n s)"
  by (auto simp: is_cstr_def dest: in_set_dropD)

lemma length_cstr_le: "length (cstr s) \<le> length s"
  by (simp add: cstr_def length_takeWhile_le)

text \<open>\<open>snprintf\<close> into a buffer of \<open>cap > 0\<close> bytes keeps the first \<open>cap - 1\<close>.\<close>

definition snprintf :: "nat \<Rightarrow> string \<Rightarrow> string" where
  "snprintf cap s = take (cap - 1) s"

lemma length_snprintf: "0 < cap \<Longrightarrow> length (snprintf cap s) < cap"
  by (simp add: snprintf_def)

lemma snprintf_fits [simp]: "length s < cap \<Longrightarrow> snprintf cap s = s"
  by (simp add: snprintf_def)

subsection \<open>Decimal and hexadecimal conversions\<close>

definition digit_char :: "nat \<Rightarrow> char" where
  "digit_char d = (if d < 10 then char_of (48 + d) else char_of (87 + d))"

text \<open>\<open>%u\<close>: no padding, at least one digit.\<close>

fun dec :: "nat \<Rightarrow> string" where
  "dec n = (if n < 10 then [digit_char n] else dec (n div 10) @ [digit_char (n mod 10)])"

declare dec.simps [simp del]

text \<open>\<open>%d\<close>.\<close>

definition dec_int :: "int \<Rightarrow> string" where
  "dec_int i = (if i < 0 then CHR ''-'' # dec (nat (- i)) else dec (nat i))"

text \<open>\<open>%0<w>u\<close> and \<open>%0<w>x\<close>: zero padded to a width.\<close>

definition pad0 :: "nat \<Rightarrow> string \<Rightarrow> string" where
  "pad0 w s = replicate (w - length s) (CHR ''0'') @ s"

fun hex :: "nat \<Rightarrow> string" where
  "hex n = (if n < 16 then [digit_char n] else hex (n div 16) @ [digit_char (n mod 16)])"

declare hex.simps [simp del]

definition hex2 :: "u8 \<Rightarrow> string" where
  "hex2 b = [digit_char (unat b div 16), digit_char (unat b mod 16)]"

definition is_digit :: "char \<Rightarrow> bool" where
  "is_digit c \<longleftrightarrow> 48 \<le> (of_char c :: nat) \<and> (of_char c :: nat) \<le> 57"

subsection \<open>Splitting and joining at a separator\<close>

text \<open>
  \<open>split_on\<close> keeps empty pieces (MQTT topic levels); \<open>tokens\<close> drops them, which is
  what \<open>strtok_r\<close> with a one-character delimiter set yields.
\<close>

fun split_on :: "'a \<Rightarrow> 'a list \<Rightarrow> 'a list list" where
  "split_on c [] = [[]]"
| "split_on c (x # xs) =
     (if x = c then [] # split_on c xs
      else (case split_on c xs of [] \<Rightarrow> [[x]] | w # ws \<Rightarrow> (x # w) # ws))"

fun join :: "'a \<Rightarrow> 'a list list \<Rightarrow> 'a list" where
  "join c [] = []"
| "join c [w] = w"
| "join c (w # v # ws) = w @ c # join c (v # ws)"

definition tokens :: "'a \<Rightarrow> 'a list \<Rightarrow> 'a list list" where
  "tokens c s = filter (\<lambda>w. w \<noteq> []) (split_on c s)"

lemma split_on_not_Nil [simp]: "split_on c s \<noteq> []"
  by (induction s) (auto split: list.splits)

lemma split_on_sep_free: "w \<in> set (split_on c s) \<Longrightarrow> c \<notin> set w"
  by (induction s arbitrary: w) (auto split: list.splits if_splits)

lemma set_split_on: "w \<in> set (split_on c s) \<Longrightarrow> set w \<subseteq> set s"
  by (induction s arbitrary: w) (fastforce split: list.splits if_splits)+

lemma join_split_on: "join c (split_on c s) = s"
proof (induction s)
  case (Cons x s)
  obtain w ws where ws: "split_on c s = w # ws" by (cases "split_on c s") auto
  with Cons show ?case by (cases ws) auto
qed simp

lemma split_on_free: "c \<notin> set w \<Longrightarrow> split_on c w = [w]"
  by (induction w) auto

lemma split_on_append_sep: "c \<notin> set w \<Longrightarrow> split_on c (w @ c # s) = w # split_on c s"
  by (induction w) auto

lemma split_on_join:
  "ws \<noteq> [] \<Longrightarrow> \<forall>w\<in>set ws. c \<notin> set w \<Longrightarrow> split_on c (join c ws) = ws"
  by (induction c ws rule: join.induct) (auto simp: split_on_free split_on_append_sep)

lemma split_on_snoc:
  "split_on c (s @ [x]) =
     (if x = c then split_on c s @ [[]]
      else butlast (split_on c s) @ [last (split_on c s) @ [x]])"
  by (induction s) (auto split: list.splits)

lemma length_split_on: "length (split_on c s) \<le> Suc (length s)"
  by (induction s) (auto split: list.splits)

lemma length_tokens: "length (tokens c s) \<le> Suc (length s)"
  unfolding tokens_def by (rule order_trans [OF length_filter_le length_split_on])

lemma tokens_snoc_sep: "tokens c (s @ [c]) = tokens c s"
  by (simp add: tokens_def split_on_snoc)

lemma tokens_Nil [simp]: "tokens c [] = []"
  by (simp add: tokens_def)

lemma tokens_snoc_char:
  assumes "x \<noteq> c"
  shows "tokens c (s @ [x]) =
     (if s = [] \<or> last s = c then tokens c s @ [[x]]
      else butlast (tokens c s) @ [last (tokens c s) @ [x]])"
proof -
  have ends: "last (split_on c s) = [] \<longleftrightarrow> s = [] \<or> last s = c"
    by (cases s rule: rev_cases) (auto simp: split_on_snoc)
  obtain us w where app: "split_on c s = us @ [w]"
    by (metis append_butlast_last_id split_on_not_Nil)
  show ?thesis
    using assms ends by (cases "w = []") (simp_all add: tokens_def split_on_snoc app)
qed

lemma tokens_ne: "w \<in> set (tokens c s) \<Longrightarrow> w \<noteq> []"
  by (simp add: tokens_def)

lemma tokens_sep_free: "w \<in> set (tokens c s) \<Longrightarrow> c \<notin> set w"
  by (auto simp: tokens_def dest: split_on_sep_free)

lemma set_tokens: "w \<in> set (tokens c s) \<Longrightarrow> set w \<subseteq> set s"
  by (auto simp: tokens_def dest: set_split_on)

lemma tokens_join:
  assumes "\<forall>w\<in>set ws. w \<noteq> [] \<and> c \<notin> set w"
  shows "tokens c (join c ws) = ws"
proof (cases "ws = []")
  case False
  with assms have "split_on c (join c ws) = ws" by (intro split_on_join) auto
  with assms show ?thesis by (simp add: tokens_def)
qed (simp add: tokens_def)

lemma join_snoc: "ws \<noteq> [] \<Longrightarrow> join c (ws @ [w]) = join c ws @ c # w"
  by (induction c ws rule: join.induct) auto

lemma join_snoc_extend: "ws \<noteq> [] \<Longrightarrow> join c (butlast ws @ [last ws @ [x]]) = join c ws @ [x]"
proof -
  assume ne: "ws \<noteq> []"
  obtain us w where "ws = us @ [w]" using ne by (metis append_butlast_last_id)
  then show ?thesis by (cases "us = []") (auto simp: join_snoc)
qed

lemma join_eq_Nil: "\<forall>w\<in>set ws. w \<noteq> [] \<Longrightarrow> join c ws = [] \<longleftrightarrow> ws = []"
  by (induction c ws rule: join.induct) auto

lemma last_join: "\<forall>w\<in>set ws. w \<noteq> [] \<Longrightarrow> ws \<noteq> [] \<Longrightarrow> last (join c ws) = last (last ws)"
  by (induction c ws rule: join.induct) (auto simp: join_eq_Nil)

end
