(* ===== verification/Util.thy ===== *)
theory Util
  imports Prelude
begin

text \<open>
  \<open>src/src/model/util.c\<close>: bounded string copy, local time formatting and the two payload
  previews. The clock and the time zone are the environment's: the \<open>timespec\<close> that
  \<open>clock_gettime\<close> filled is an argument of \<open>util_now_us\<close> (the callers' models take the
  resulting time stamp), \<open>localtime_r\<close> an argument of \<open>util_fmt_hhmmss\<close>.
\<close>

subsection \<open>The clock\<close>

text \<open>\<open>clock_gettime\<close>'s seconds and nanoseconds, as microseconds.\<close>

definition util_now_us :: "u64 \<Rightarrow> u64 \<Rightarrow> u64" where
  "util_now_us tv_sec tv_nsec = tv_sec * 1000000 + tv_nsec div 1000"

subsection \<open>Bounded copy\<close>

text \<open>A NULL source copies the empty string; with capacity 0 nothing is written.\<close>

definition util_str_copy :: "string \<Rightarrow> nat \<Rightarrow> string option \<Rightarrow> string" where
  "util_str_copy dst cap src =
     (if cap = 0 then dst
      else let s = (case src of None \<Rightarrow> '''' | Some s \<Rightarrow> s);
               n = length s;
               n = (if n \<ge> cap then cap - 1 else n)
           in take n s)"

lemma util_str_copy_eq [cstr_simps]:
  "0 < cap \<Longrightarrow> util_str_copy dst cap (Some s) = take (cap - 1) s"
  by (auto simp: util_str_copy_def Let_def)

lemma util_str_copy_None [cstr_simps]: "0 < cap \<Longrightarrow> util_str_copy dst cap None = ''''"
  by (simp add: util_str_copy_def)

lemma util_str_copy_fits [simp]: "length s < cap \<Longrightarrow> util_str_copy dst cap (Some s) = s"
  by (simp add: util_str_copy_def)

lemma length_util_str_copy: "0 < cap \<Longrightarrow> length (util_str_copy dst cap src) < cap"
  by (auto simp: util_str_copy_def Let_def split: option.splits)

lemma is_cstr_util_str_copy: "0 < cap \<Longrightarrow> is_cstr s \<Longrightarrow> is_cstr (util_str_copy dst cap (Some s))"
  by (simp add: util_str_copy_eq is_cstr_take)

subsection \<open>Wall-clock time of a timestamp\<close>

text \<open>
  \<open>localtime secs\<close> is the local hour, minute and second, \<open>None\<close> when
  \<open>localtime_r\<close> fails. \<open>strftime\<close> returns 0 when the eight characters and the NUL
  do not fit.
\<close>

definition util_fmt_hhmmss ::
    "(nat \<Rightarrow> (nat \<times> nat \<times> nat) option) \<Rightarrow> u64 \<Rightarrow> string \<Rightarrow> nat \<Rightarrow> string" where
  "util_fmt_hhmmss localtime ts_us out cap =
     (let secs = unat (ts_us div 1000000) in
      case localtime secs of
        None \<Rightarrow> util_str_copy out cap (Some ''--:--:--'')
      | Some (h, m, s) \<Rightarrow>
          (let text = pad0 2 (dec h) @ '':'' @ pad0 2 (dec m) @ '':'' @ pad0 2 (dec s)
           in if length text + 1 > cap then util_str_copy out cap (Some ''--:--:--'') else text))"

lemma length_util_fmt_hhmmss: "0 < cap \<Longrightarrow> length (util_fmt_hhmmss lt ts out cap) < cap"
  by (auto simp: util_fmt_hhmmss_def Let_def length_util_str_copy split: option.splits)

subsection \<open>Sanitized preview\<close>

definition sanitize_byte :: "u8 \<Rightarrow> char" where
  "sanitize_byte c = (if c < 0x20 \<or> c = 0x7f then CHR '' '' else char_of_byte c)"

text \<open>Returns the new contents of \<open>dst\<close> and the number of bytes copied.\<close>

definition util_preview_sanitize :: "string \<Rightarrow> nat \<Rightarrow> bytes \<Rightarrow> string \<times> nat" where
  "util_preview_sanitize dst cap src =
     (if cap = 0 then (dst, 0)
      else let len = length src;
               n = (if len < cap - 1 then len else cap - 1)
           in (map sanitize_byte (take n src), n))"

text \<open>No control character, in particular no NUL, survives.\<close>

definition printable :: "char \<Rightarrow> bool" where
  "printable c \<longleftrightarrow> 32 \<le> (of_char c :: nat) \<and> (of_char c :: nat) \<noteq> 127"

lemma printable_sanitize_byte [simp]: "printable (sanitize_byte b)"
proof (cases "b < 0x20 \<or> b = 0x7f")
  case True
  then show ?thesis by (auto simp: sanitize_byte_def printable_def)
next
  case False
  have "unat b < 256" using unsigned_less [of b] by simp
  moreover have "32 \<le> unat b" using False by (simp add: word_less_unat)
  moreover have "unat b \<noteq> 127" using False by (auto simp: word_eq_unat)
  ultimately show ?thesis using False
    by (simp add: sanitize_byte_def printable_def char_of_byte_def)
qed

lemma printable_space [simp]: "printable (CHR '' '')"
  by (simp add: printable_def)

lemma printable_not_nul: "printable c \<Longrightarrow> c \<noteq> nul"
  by (auto simp: printable_def nul_def)

lemma util_preview_sanitize_eq:
  "0 < cap \<Longrightarrow> util_preview_sanitize dst cap src
     = (map sanitize_byte (take (cap - 1) src), min (length src) (cap - 1))"
  by (auto simp: util_preview_sanitize_def Let_def)

lemma sanitize_printable:
  "0 < cap \<Longrightarrow> c \<in> set (fst (util_preview_sanitize dst cap src)) \<Longrightarrow> printable c"
  by (auto simp: util_preview_sanitize_eq)

lemma is_cstr_sanitize: "0 < cap \<Longrightarrow> is_cstr (fst (util_preview_sanitize dst cap src))"
  by (auto simp: is_cstr_def dest: sanitize_printable printable_not_nul)

lemma length_sanitize: "0 < cap \<Longrightarrow> length (fst (util_preview_sanitize dst cap src)) < cap"
  by (auto simp: util_preview_sanitize_eq min_def)

subsection \<open>Compact preview\<close>

text \<open>
  The in-place compaction loop: \<open>s\<close> reads, \<open>d\<close> writes, both into \<open>dst\<close>.
\<close>

function compact_loop :: "string \<Rightarrow> nat \<Rightarrow> nat \<Rightarrow> nat \<Rightarrow> string \<times> nat" where
  "compact_loop dst n s d =
     (if s < n then
        (if dst ! s = CHR '' '' then
           (if d > 0 \<and> dst ! (d - 1) \<noteq> CHR '' ''
            then compact_loop (dst[d := CHR '' '']) n (s + 1) (d + 1)
            else compact_loop dst n (s + 1) d)
         else compact_loop (dst[d := dst ! s]) n (s + 1) (d + 1))
      else (dst, d))"
  by pat_completeness auto
termination
  by (relation "measure (\<lambda>(dst, n, s, d). n - s)") auto

declare compact_loop.simps [simp del]

definition util_preview_build_compact :: "string \<Rightarrow> nat \<Rightarrow> bytes \<Rightarrow> string" where
  "util_preview_build_compact dst cap src =
     (if cap < 5 then (if cap > 0 then '''' else dst)
      else
        let len = length src;
            room = cap - 4;
            truncated = len > room;
            (dst, n) = util_preview_sanitize dst (room + 1) (take (if truncated then room else len) src);
            (dst, d) = compact_loop dst n 0 0;
            d = (if d > 0 \<and> dst ! (d - 1) = CHR '' '' then d - 1 else d)
        in if truncated then take d dst @ ''...'' else take d dst)"

text \<open>
  What the loop computes: one pass that drops leading spaces and keeps one space of each run.
\<close>

definition squeeze_step :: "string \<Rightarrow> char \<Rightarrow> string" where
  "squeeze_step acc c =
     (if c = CHR '' '' then (if acc \<noteq> [] \<and> last acc \<noteq> CHR '' '' then acc @ [c] else acc)
      else acc @ [c])"

definition squeeze :: "string \<Rightarrow> string" where
  "squeeze s = foldl squeeze_step [] s"

lemma squeeze_snoc: "squeeze (s @ [c]) = squeeze_step (squeeze s) c"
  by (simp add: squeeze_def)

lemma length_squeeze: "length (squeeze s) \<le> length s"
  by (induction s rule: rev_induct) (auto simp: squeeze_snoc squeeze_step_def squeeze_def)

lemma set_squeeze: "set (squeeze s) \<subseteq> set s"
  by (induction s rule: rev_induct) (auto simp: squeeze_snoc squeeze_step_def squeeze_def)

lemma compact_loop_squeeze:
  assumes "n \<le> length dst" "s \<le> n" "d \<le> s" "take d dst = squeeze (take s src)"
    and "drop s dst = drop s src" "length src = length dst"
  shows "case compact_loop dst n s d of (dst', d') \<Rightarrow>
           take d' dst' = squeeze (take n src) \<and> d' \<le> n \<and> length dst' = length dst
           \<and> d' = length (squeeze (take n src))"
  using assms
proof (induction dst n s d rule: compact_loop.induct)
  case (1 dst n s d)
  have len_d: "length (squeeze (take s src)) = d"
    using "1.prems" by (metis length_take min.absorb2 order.trans)
  show ?case
  proof (cases "s < n")
    case False
    then have "compact_loop dst n s d = (dst, d)" by (simp add: compact_loop.simps [of dst n s d])
    with False "1.prems" len_d show ?thesis by auto
  next
    case True
    then have s_len: "s < length dst" using "1.prems"(1) by simp
    have at_s: "dst ! s = src ! s"
      using "1.prems"(5,6) s_len by (metis nth_via_drop Cons_nth_drop_Suc)
    have snoc: "take (Suc s) src = take s src @ [src ! s]"
      using s_len "1.prems"(6) by (simp add: take_Suc_conv_app_nth)
    have drop_upd: "drop (Suc s) (dst[d := c]) = drop (Suc s) src" for c
      using "1.prems"(3,5) by (simp add: drop_update_cancel) (metis drop_Suc tl_drop)
    have drop_same: "drop (Suc s) dst = drop (Suc s) src"
      using "1.prems"(5) by (metis drop_Suc tl_drop)
    have take_upd: "take (Suc d) (dst[d := c]) = squeeze (take s src) @ [c]" for c
      using "1.prems"(3,4) s_len by (simp add: take_Suc_conv_app_nth)
    have last_acc: "d > 0 \<Longrightarrow> last (squeeze (take s src)) = dst ! (d - 1)"
      using "1.prems"(3,4) s_len len_d by (metis (no_types, lifting) Suc_diff_1 last_conv_nth
          length_greater_0_conv lessI less_or_eq_imp_le nth_take)
    have acc_ne: "squeeze (take s src) \<noteq> [] \<longleftrightarrow> d > 0" using len_d by auto
    consider (sp_keep) "dst ! s = CHR '' ''" "d > 0 \<and> dst ! (d - 1) \<noteq> CHR '' ''"
      | (sp_drop) "dst ! s = CHR '' ''" "\<not> (d > 0 \<and> dst ! (d - 1) \<noteq> CHR '' '')"
      | (ch) "dst ! s \<noteq> CHR '' ''" by blast
    then show ?thesis
    proof cases
      case sp_keep
      have sq: "squeeze (take (Suc s) src) = squeeze (take s src) @ [CHR '' '']"
        using sp_keep at_s last_acc acc_ne by (simp add: snoc squeeze_snoc squeeze_step_def)
      have "case compact_loop (dst[d := CHR '' '']) n (s + 1) (d + 1) of (dst', d') \<Rightarrow>
           take d' dst' = squeeze (take n src) \<and> d' \<le> n \<and> length dst' = length (dst[d := CHR '' ''])
           \<and> d' = length (squeeze (take n src))"
        by (rule "1.IH"(1)) (use sp_keep True "1.prems" sq take_upd drop_upd in simp_all)
      then show ?thesis using sp_keep True by (simp add: compact_loop.simps [of dst n s d])
    next
      case sp_drop
      have sq: "squeeze (take (Suc s) src) = squeeze (take s src)"
        using sp_drop at_s last_acc acc_ne by (auto simp: snoc squeeze_snoc squeeze_step_def)
      have "case compact_loop dst n (s + 1) d of (dst', d') \<Rightarrow>
           take d' dst' = squeeze (take n src) \<and> d' \<le> n \<and> length dst' = length dst
           \<and> d' = length (squeeze (take n src))"
        by (rule "1.IH"(2)) (use sp_drop True "1.prems" sq drop_same in simp_all)
      then show ?thesis using sp_drop True by (auto simp: compact_loop.simps [of dst n s d])
    next
      case ch
      have sq: "squeeze (take (Suc s) src) = squeeze (take s src) @ [dst ! s]"
        using ch at_s by (simp add: snoc squeeze_snoc squeeze_step_def)
      have "case compact_loop (dst[d := dst ! s]) n (s + 1) (d + 1) of (dst', d') \<Rightarrow>
           take d' dst' = squeeze (take n src) \<and> d' \<le> n \<and> length dst' = length (dst[d := dst ! s])
           \<and> d' = length (squeeze (take n src))"
        by (rule "1.IH"(3)) (use ch True "1.prems" sq take_upd drop_upd in simp_all)
      then show ?thesis using ch True by (simp add: compact_loop.simps [of dst n s d])
    qed
  qed
qed

lemma last_join_tokens:
  assumes "tokens (CHR '' '') s \<noteq> []"
  shows "last (join (CHR '' '') (tokens (CHR '' '') s)) \<noteq> CHR '' ''"
proof -
  let ?t = "tokens (CHR '' '') s"
  have "last ?t \<in> set ?t" using assms by simp
  then have "last ?t \<noteq> []" "CHR '' '' \<notin> set (last ?t)"
    by (auto dest: tokens_ne tokens_sep_free)
  moreover have "last (join (CHR '' '') ?t) = last (last ?t)"
    using assms by (simp add: last_join tokens_ne)
  ultimately show ?thesis by (metis last_in_set)
qed

lemma squeeze_tokens:
  "squeeze s = join (CHR '' '') (tokens (CHR '' '') s)
     @ (if s \<noteq> [] \<and> last s = CHR '' '' \<and> tokens (CHR '' '') s \<noteq> [] then '' '' else '''')"
proof (induction s rule: rev_induct)
  case (snoc c s)
  let ?t = "tokens (CHR '' '') s"
  have ne: "\<forall>w\<in>set ?t. w \<noteq> []" by (simp add: tokens_ne)
  show ?case
  proof (cases "c = CHR '' ''")
    case True
    then show ?thesis
      using snoc ne last_join_tokens [of s]
      by (auto simp: squeeze_snoc squeeze_step_def tokens_snoc_sep join_eq_Nil)
  next
    case False
    have "s \<noteq> [] \<and> last s \<noteq> CHR '' '' \<Longrightarrow> ?t \<noteq> []"
      by (cases s rule: rev_cases) (auto simp: tokens_snoc_char)
    then show ?thesis using snoc False
      by (auto simp: squeeze_snoc squeeze_step_def tokens_snoc_char join_snoc join_snoc_extend)
  qed
qed (simp add: squeeze_def)

lemma squeeze_Nil [simp]: "squeeze [] = []"
  by (simp add: squeeze_def)

lemma squeeze_trimmed:
  "(if squeeze s \<noteq> [] \<and> last (squeeze s) = CHR '' '' then butlast (squeeze s) else squeeze s)
     = join (CHR '' '') (tokens (CHR '' '') s)"
proof (cases "tokens (CHR '' '') s = []")
  case True
  then show ?thesis by (simp add: squeeze_tokens [of s])
next
  case False
  then show ?thesis using last_join_tokens [of s]
    by (auto simp: squeeze_tokens [of s])
qed

lemma length_join_tokens: "length (join (CHR '' '') (tokens (CHR '' '') s)) \<le> length s"
  using length_squeeze [of s] by (simp add: squeeze_tokens split: if_splits)

lemma last_take_nth: "0 < d \<Longrightarrow> d \<le> length xs \<Longrightarrow> last (take d xs) = xs ! (d - 1)"
  by (cases d) (simp_all add: take_Suc_conv_app_nth)

lemma trim_last_take:
  assumes "take d xs = ys" "d \<le> length xs"
  shows "take (if d > 0 \<and> xs ! (d - 1) = c then d - 1 else d) xs
     = (if ys \<noteq> [] \<and> last ys = c then butlast ys else ys)"
proof (cases "d > 0")
  case True
  then have "last ys = xs ! (d - 1)" "butlast ys = take (d - 1) xs" "ys \<noteq> []"
    using assms by (auto simp: last_take_nth butlast_conv_take min_def)
  with True show ?thesis using assms(1) by simp
qed (use assms in auto)

text \<open>
  The compact preview is the sanitized text with its words joined by single spaces, with an
  ellipsis when the source did not fit.
\<close>

lemma compact_eq_words:
  assumes "5 \<le> cap"
  shows "util_preview_build_compact dst cap src =
     join (CHR '' '') (tokens (CHR '' '') (map sanitize_byte (take (cap - 4) src)))
     @ (if cap - 4 < length src then ''...'' else '''')"
proof -
  let ?text = "map sanitize_byte (take (cap - 4) src)"
  let ?n = "length ?text"
  have san: "util_preview_sanitize dst (cap - 4 + 1)
      (take (if length src > cap - 4 then cap - 4 else length src) src) = (?text, ?n)"
    by (simp add: util_preview_sanitize_eq min_def)
  obtain dst' d where loop: "compact_loop ?text ?n 0 0 = (dst', d)" by fastforce
  have inv: "take d dst' = squeeze ?text" "d = length (squeeze ?text)" "d \<le> ?n"
      "length dst' = ?n"
    using compact_loop_squeeze [of ?n ?text 0 0 ?text] unfolding loop
    by (auto simp del: length_map length_take)
  have "take (if d > 0 \<and> dst' ! (d - 1) = CHR '' '' then d - 1 else d) dst'
      = join (CHR '' '') (tokens (CHR '' '') ?text)"
    unfolding squeeze_trimmed [symmetric]
    by (rule trim_last_take) (use inv in simp_all)
  then show ?thesis
    using assms san loop
    by (simp add: util_preview_build_compact_def Let_def squeeze_trimmed del: if_split)
qed

end
