(* ===== verification/Ring.thy ===== *)
theory Ring
  imports Prelude
begin

text \<open>
  What the three ring buffers of the program share: the window of a circular array, the machine
  arithmetic of its indices, and the interface \<open>evicting_log\<close> of the two rings that
  overwrite their oldest entry (\<open>message_buf.c\<close>, \<open>connection_log.c\<close>).
\<close>

subsection \<open>Index arithmetic on \<open>uint32_t\<close>\<close>

text \<open>
  The C expression \<open>(head + i) % capacity\<close>. A ring whose capacity is at most \<open>2 ^ 31\<close> never
  wraps around in the sum.
\<close>

abbreviation ring_idx :: "u32 \<Rightarrow> u32 \<Rightarrow> u32 \<Rightarrow> u32" where
  "ring_idx cap head i \<equiv> (head + i) mod cap"

definition ring_cap_ok :: "u32 \<Rightarrow> bool" where
  "ring_cap_ok cap \<longleftrightarrow> 0 < unat cap \<and> unat cap \<le> 2 ^ 31"

lemma ring_idx_nat [word_nats]:
  assumes "ring_cap_ok cap" "unat head < unat cap" "unat i \<le> unat cap"
  shows "unat (ring_idx cap head i) = (unat head + unat i) mod unat cap"
  using assms by (simp add: ring_cap_ok_def unat_mod_eq unat_add_small)

lemma ring_idx_less:
  assumes "ring_cap_ok cap"
  shows "unat (ring_idx cap head i) < unat cap"
  using assms by (simp add: ring_cap_ok_def unat_mod_eq)

lemma ring_cap_pos: "ring_cap_ok cap \<Longrightarrow> cap \<noteq> 0 \<and> 0 < unat cap"
  by (auto simp: ring_cap_ok_def)

subsection \<open>The window of a circular array\<close>

definition window :: "'a list \<Rightarrow> nat \<Rightarrow> nat \<Rightarrow> 'a list" where
  "window xs h n = map (\<lambda>i. xs ! ((h + i) mod length xs)) [0..<n]"

lemma length_window [simp]: "length (window xs h n) = n"
  by (simp add: window_def)

lemma nth_window: "i < n \<Longrightarrow> window xs h n ! i = xs ! ((h + i) mod length xs)"
  by (simp add: window_def)

lemma window_0 [simp]: "window xs h 0 = []"
  by (simp add: window_def)

lemma window_Suc: "window xs h (Suc n) = window xs h n @ [xs ! ((h + n) mod length xs)]"
  by (simp add: window_def)

lemma take_window: "m \<le> n \<Longrightarrow> take m (window xs h n) = window xs h m"
  by (rule nth_equalityI) (auto simp: nth_window)

lemma mod_offset_inj:
  fixes h i j c :: nat
  assumes "i < c" "j < c" "(h + i) mod c = (h + j) mod c"
  shows "i = j"
proof -
  let ?r = "h mod c"
  have r: "?r < c" using assms(1) by (intro mod_less_divisor) simp
  have small: "(h + k) mod c = (if ?r + k < c then ?r + k else ?r + k - c)" if "k < c" for k
  proof -
    have "(h + k) mod c = (?r + k) mod c" by (simp add: mod_add_left_eq)
    moreover have "(?r + k - c) mod c = ?r + k - c"
      using that r by (intro mod_less) linarith
    ultimately show ?thesis by (simp add: mod_if [of "?r + k"])
  qed
  show ?thesis
    using assms(3) r by (simp add: small [OF assms(1)] small [OF assms(2)] split: if_splits)
      (use assms(1,2) in linarith)+
qed

lemma window_update_outside:
  assumes "n \<le> j" "j < length xs"
  shows "window (xs[(h + j) mod length xs := x]) h n = window xs h n"
proof (rule nth_equalityI)
  fix i assume i: "i < length (window (xs[(h + j) mod length xs := x]) h n)"
  then have "(h + i) mod length xs \<noteq> (h + j) mod length xs"
    using mod_offset_inj [of i "length xs" j h] assms by auto
  with i show "window (xs[(h + j) mod length xs := x]) h n ! i = window xs h n ! i"
    by (simp add: nth_window)
qed simp

lemma window_update:
  assumes "j < n" "n \<le> length xs"
  shows "window (xs[(h + j) mod length xs := x]) h n = (window xs h n)[j := x]"
proof (rule nth_equalityI)
  fix i assume "i < length (window (xs[(h + j) mod length xs := x]) h n)"
  then have i: "i < n" by simp
  show "window (xs[(h + j) mod length xs := x]) h n ! i = (window xs h n)[j := x] ! i"
  proof (cases "i = j")
    case True
    then have "(h + j) mod length xs < length xs" using assms by (intro mod_less_divisor) auto
    with True i show ?thesis by (simp add: nth_window)
  next
    case False
    then have "(h + i) mod length xs \<noteq> (h + j) mod length xs"
      using mod_offset_inj [of i "length xs" j h] assms i by auto
    with False i show ?thesis by (simp add: nth_window)
  qed
qed simp

lemma window_push:
  assumes "n < length xs"
  shows "window (xs[(h + n) mod length xs := x]) h (Suc n) = window xs h n @ [x]"
proof -
  have "(h + n) mod length xs < length xs" using assms by (intro mod_less_divisor) auto
  then show ?thesis using assms window_update_outside [of n n xs h x] by (simp add: window_Suc)
qed

lemma window_rotate:
  assumes "0 < n"
  shows "window xs ((h + 1) mod length xs) (n - 1) = tl (window xs h n)"
proof (rule nth_equalityI)
  fix i assume "i < length (window xs ((h + 1) mod length xs) (n - 1))"
  then have i: "i < n - 1" by simp
  have "((h + 1) mod length xs + i) mod length xs = (h + Suc i) mod length xs"
    by (simp add: mod_add_left_eq)
  with i assms show "window xs ((h + 1) mod length xs) (n - 1) ! i = tl (window xs h n) ! i"
    by (simp add: nth_window nth_tl)
qed simp

lemma window_evict:
  assumes "0 < length xs" "h < length xs"
  shows "window (xs[(h + length xs) mod length xs := x]) ((h + 1) mod length xs) (length xs)
     = tl (window xs h (length xs)) @ [x]"
proof -
  let ?c = "length xs"
  obtain n where n: "?c = Suc n" using assms by (cases ?c) auto
  let ?h = "(h + 1) mod ?c"
  have pos: "(?h + n) mod ?c = (h + ?c) mod ?c"
    unfolding n by (simp add: mod_add_left_eq)
  have "window (xs[(?h + n) mod ?c := x]) ?h (Suc n) = window xs ?h n @ [x]"
    by (rule window_push) (simp add: n)
  moreover have "window xs ?h n = tl (window xs h ?c)"
    using window_rotate [of ?c xs h] n by simp
  ultimately show ?thesis using n pos by simp
qed

subsection \<open>The last entries of a history\<close>

definition lastn :: "nat \<Rightarrow> 'a list \<Rightarrow> 'a list" where
  "lastn n xs = drop (length xs - n) xs"

lemma length_lastn [simp]: "length (lastn n xs) = min n (length xs)"
  by (simp add: lastn_def min_def)

lemma lastn_short [simp]: "length xs \<le> n \<Longrightarrow> lastn n xs = xs"
  by (simp add: lastn_def)

lemma lastn_snoc_lastn: "lastn n (lastn n xs @ ys) = lastn n (xs @ ys)"
proof (cases "length xs \<le> n")
  case False
  then have "length (lastn n xs @ ys) - n = length ys" by (simp add: lastn_def)
  moreover have "drop (length ys) (drop (length xs - n) xs @ ys) = drop (length (xs @ ys) - n) (xs @ ys)"
    using False by simp (simp add: add.commute)
  ultimately show ?thesis by (simp add: lastn_def)
qed simp

lemma lastn_evict: "xs \<noteq> [] \<Longrightarrow> lastn (length xs) (xs @ [x]) = tl xs @ [x]"
  by (cases xs) (simp_all add: lastn_def)

text \<open>A sequence of fallible steps.\<close>

primrec option_fold :: "('i \<Rightarrow> 's \<Rightarrow> 's option) \<Rightarrow> 'i list \<Rightarrow> 's \<Rightarrow> 's option" where
  "option_fold f [] s = Some s"
| "option_fold f (x # xs) s = (case f x s of None \<Rightarrow> None | Some s' \<Rightarrow> option_fold f xs s')"

subsection \<open>The interface of an evicting log\<close>

text \<open>
  What the readers of a message buffer or a connection log rely on: a put never fails on a
  well-formed log and keeps the last \<open>cap\<close> entries ever put, reading by logical index is
  reading the list of entries, and the generation counter moves with every put.
\<close>

locale evicting_log =
  fixes wf :: "'s \<Rightarrow> bool"
    and cap :: "'s \<Rightarrow> nat"
    and items :: "'s \<Rightarrow> 'a list"
    and ok :: "'i \<Rightarrow> bool"
    and view :: "'i \<Rightarrow> 'a"
    and put :: "'i \<Rightarrow> 's \<Rightarrow> 's option"
    and gen :: "'s \<Rightarrow> u64"
  assumes put_ok: "wf s \<Longrightarrow> ok x \<Longrightarrow> \<exists>s'. put x s = Some s' \<and> wf s' \<and> cap s' = cap s
      \<and> items s' = lastn (cap s) (items s @ [view x]) \<and> gen s' = gen s + 1"
    and items_le: "wf s \<Longrightarrow> length (items s) \<le> cap s"
begin

lemma fold_items:
  "wf s \<Longrightarrow> \<forall>x\<in>set xs. ok x \<Longrightarrow> \<exists>s'. option_fold put xs s = Some s' \<and> wf s' \<and> cap s' = cap s
     \<and> items s' = lastn (cap s) (items s @ map view xs)
     \<and> gen s' = gen s + word_of_nat (length xs)"
proof (induction xs arbitrary: s)
  case Nil
  then show ?case by (simp add: items_le)
next
  case (Cons x xs)
  obtain s1 where s1: "put x s = Some s1" "wf s1" "cap s1 = cap s"
      "items s1 = lastn (cap s) (items s @ [view x])" "gen s1 = gen s + 1"
    using put_ok Cons.prems by fastforce
  obtain s2 where s2: "option_fold put xs s1 = Some s2" "wf s2" "cap s2 = cap s1"
      "items s2 = lastn (cap s1) (items s1 @ map view xs)"
      "gen s2 = gen s1 + word_of_nat (length xs)"
    using Cons.IH [OF s1(2)] Cons.prems by auto
  show ?case
    using s1 s2 by (auto simp: lastn_snoc_lastn algebra_simps)
qed

lemma gen_moves:
  assumes "wf s" "\<forall>x\<in>set xs. ok x" "option_fold put xs s = Some s'" "xs \<noteq> []" "length xs < 2 ^ 64"
  shows "gen s' \<noteq> gen s"
proof -
  have "gen s' = gen s + word_of_nat (length xs)"
    using fold_items [OF assms(1,2)] assms(3) by auto
  moreover have "(word_of_nat (length xs) :: u64) \<noteq> 0"
    using assms(4,5) by (auto simp: word_of_nat_eq_0_iff dest: dvd_imp_le)
  ultimately show ?thesis by simp
qed

end

end
