(* ===== verification/Message_Buf.thy ===== *)
theory Message_Buf
  imports Ring
begin

text \<open>
  \<open>src/src/model/message_buf.c\<close>: the ring of message records that owns its payloads. The
  heap is explicit, so that the theorems cover ownership: every payload the ring allocates is freed
  exactly once, and nothing else is touched. Undefined behaviour of the C code (a double free, an
  index out of the array, a division by a zero capacity, a copy that overruns its source) is the
  value \<open>None\<close>. The heap never hands out an address twice, which makes every use of a
  freed block visible.
\<close>

subsection \<open>Heap\<close>

type_synonym ptr = nat

record heap =
  hp_blocks :: "ptr \<Rightarrow> bytes option"
  hp_next :: ptr

definition heap_malloc :: "bytes \<Rightarrow> heap \<Rightarrow> ptr \<times> heap" where
  "heap_malloc contents h =
     (hp_next h, h\<lparr>hp_blocks := (hp_blocks h)(hp_next h \<mapsto> contents), hp_next := Suc (hp_next h)\<rparr>)"

definition heap_free :: "ptr option \<Rightarrow> heap \<Rightarrow> heap option" where
  "heap_free p h =
     (case p of
        None \<Rightarrow> Some h
      | Some a \<Rightarrow> (case hp_blocks h a of
                    None \<Rightarrow> None
                  | Some _ \<Rightarrow> Some (h\<lparr>hp_blocks := (hp_blocks h)(a := None)\<rparr>)))"

definition heap_wf :: "heap \<Rightarrow> bool" where
  "heap_wf h \<longleftrightarrow> (\<forall>a. hp_next h \<le> a \<longrightarrow> hp_blocks h a = None)"

subsection \<open>Records and the ring\<close>

text \<open>
  The record is polymorphic in its payload field: \<open>ptr option\<close> inside the ring (\<open>None\<close> is
  NULL), the caller's bytes (\<open>None\<close> is NULL) in the record that is pushed, and a list of
  bytes in the abstract view.
\<close>

record 'p message_record =
  mr_timestamp_us :: u64
  mr_topic :: string
  mr_payload :: 'p
  mr_payload_len :: u32
  mr_qos :: u8
  mr_retained :: bool
  mr_dup :: bool
  mr_broker_id :: u32
  mr_preview :: string

definition map_payload :: "('p \<Rightarrow> 'q) \<Rightarrow> 'p message_record \<Rightarrow> 'q message_record" where
  "map_payload f r =
     \<lparr>mr_timestamp_us = mr_timestamp_us r, mr_topic = mr_topic r, mr_payload = f (mr_payload r),
      mr_payload_len = mr_payload_len r, mr_qos = mr_qos r, mr_retained = mr_retained r,
      mr_dup = mr_dup r, mr_broker_id = mr_broker_id r, mr_preview = mr_preview r\<rparr>"

type_synonym slot = "ptr option message_record"

record message_buf =
  mb_entries :: "slot list"
  mb_capacity :: u32
  mb_head :: u32
  mb_count :: u32
  mb_generation :: u64

definition zero_record :: slot where
  "zero_record = \<lparr>mr_timestamp_us = 0, mr_topic = '''', mr_payload = None, mr_payload_len = 0,
     mr_qos = 0, mr_retained = False, mr_dup = False, mr_broker_id = 0, mr_preview = ''''\<rparr>"

subsection \<open>Operations\<close>

definition message_buf_init :: "u32 \<Rightarrow> message_buf" where
  "message_buf_init capacity =
     \<lparr>mb_entries = replicate (unat capacity) zero_record, mb_capacity = capacity,
      mb_head = 0, mb_count = 0, mb_generation = 0\<rparr>"

text \<open>The stored copy of a pushed record: a fresh block with the payload, or NULL.\<close>

definition store_record ::
    "bytes option message_record \<Rightarrow> heap \<Rightarrow> (slot \<times> heap) option" where
  "store_record record h =
     (case mr_payload record of
        Some src \<Rightarrow>
          (if mr_payload_len record > 0 then
             (if unat (mr_payload_len record) \<le> length src then
                (let (a, h') = heap_malloc (take (unat (mr_payload_len record)) src) h
                 in Some (map_payload (\<lambda>_. Some a) record, h'))
              else None)
           else Some ((map_payload (\<lambda>_. None) record)\<lparr>mr_payload_len := 0\<rparr>, h))
      | None \<Rightarrow> Some ((map_payload (\<lambda>_. None) record)\<lparr>mr_payload_len := 0\<rparr>, h))"

definition message_buf_push ::
    "bytes option message_record \<Rightarrow> heap \<times> message_buf \<Rightarrow> (heap \<times> message_buf) option" where
  "message_buf_push record s =
     (let (h, buf) = s in
      if mb_capacity buf = 0 then None
      else
        let idx = (mb_head buf + mb_count buf) mod mb_capacity buf in
        if length (mb_entries buf) \<le> unat idx then None
        else
          (case (if mb_count buf = mb_capacity buf
                 then (case heap_free (mr_payload (mb_entries buf ! unat idx)) h of
                         None \<Rightarrow> None
                       | Some h' \<Rightarrow> Some (h', buf\<lparr>mb_head := (mb_head buf + 1) mod mb_capacity buf\<rparr>))
                 else Some (h, buf\<lparr>mb_count := mb_count buf + 1\<rparr>)) of
             None \<Rightarrow> None
           | Some (h1, buf1) \<Rightarrow>
               (case store_record record h1 of
                  None \<Rightarrow> None
                | Some (r, h2) \<Rightarrow>
                    Some (h2, buf1\<lparr>mb_generation := mb_generation buf1 + 1,
                                   mb_entries := (mb_entries buf1)[unat idx := r]\<rparr>))))"

text \<open>The loop of \<open>message_buf_clear\<close> at index \<open>i\<close>.\<close>

function clear_loop :: "u32 \<Rightarrow> heap \<times> message_buf \<Rightarrow> (heap \<times> message_buf) option" where
  "clear_loop i s =
     (let (h, buf) = s in
      if i < mb_count buf then
        (if mb_capacity buf = 0 then None
         else
           let idx = (mb_head buf + i) mod mb_capacity buf in
           if length (mb_entries buf) \<le> unat idx then None
           else
             (case heap_free (mr_payload (mb_entries buf ! unat idx)) h of
                None \<Rightarrow> None
              | Some h' \<Rightarrow>
                  clear_loop (i + 1)
                    (h', buf\<lparr>mb_entries := (mb_entries buf)
                          [unat idx := (mb_entries buf ! unat idx)\<lparr>mr_payload := None\<rparr>]\<rparr>)))
      else Some s)"
  by pat_completeness auto
termination
  by (relation "measure (\<lambda>(i, h, buf). unat (mb_count buf) - unat i)") (auto simp: Let_def unat_diff_inc_less)

declare clear_loop.simps [simp del]

definition message_buf_clear :: "heap \<times> message_buf \<Rightarrow> (heap \<times> message_buf) option" where
  "message_buf_clear s =
     (case clear_loop 0 s of
        None \<Rightarrow> None
      | Some (h, buf) \<Rightarrow>
          Some (h, buf\<lparr>mb_generation := mb_generation buf + 1, mb_head := 0, mb_count := 0\<rparr>))"

definition message_buf_destroy :: "heap \<times> message_buf \<Rightarrow> (heap \<times> message_buf) option" where
  "message_buf_destroy s =
     (case message_buf_clear s of
        None \<Rightarrow> None
      | Some (h, buf) \<Rightarrow> Some (h, buf\<lparr>mb_entries := []\<rparr>))"

text \<open>
  The loop of \<open>message_buf_remove_topic\<close>: \<open>i\<close> reads, \<open>kept\<close> writes.
\<close>

function remove_topic_loop ::
    "string \<Rightarrow> u32 \<Rightarrow> u32 \<Rightarrow> heap \<times> message_buf \<Rightarrow> (u32 \<times> heap \<times> message_buf) option" where
  "remove_topic_loop topic i kept s =
     (let (h, buf) = s in
      if i < mb_count buf then
        (if mb_capacity buf = 0 then None
         else
           let src = (mb_head buf + i) mod mb_capacity buf in
           if length (mb_entries buf) \<le> unat src then None
           else
             let r = mb_entries buf ! unat src in
             if mr_topic r = topic then
               (case heap_free (mr_payload r) h of
                  None \<Rightarrow> None
                | Some h' \<Rightarrow>
                    remove_topic_loop topic (i + 1) kept
                      (h', buf\<lparr>mb_entries := (mb_entries buf)[unat src := r\<lparr>mr_payload := None\<rparr>]\<rparr>))
             else
               let dst = (mb_head buf + kept) mod mb_capacity buf;
                   buf' = (if dst \<noteq> src
                           then buf\<lparr>mb_entries := (mb_entries buf)[unat dst := r]\<rparr> else buf)
               in if length (mb_entries buf) \<le> unat dst then None
                  else remove_topic_loop topic (i + 1) (kept + 1) (h, buf'))
      else Some (kept, s))"
  by pat_completeness auto
termination
  by (relation "measure (\<lambda>(topic, i, kept, h, buf). unat (mb_count buf) - unat i)") (auto simp: Let_def unat_diff_inc_less)

declare remove_topic_loop.simps [simp del]

definition message_buf_remove_topic ::
    "string \<Rightarrow> heap \<times> message_buf \<Rightarrow> (u32 \<times> heap \<times> message_buf) option" where
  "message_buf_remove_topic topic s =
     (case remove_topic_loop topic 0 0 s of
        None \<Rightarrow> None
      | Some (kept, h, buf) \<Rightarrow>
          (let removed = mb_count buf - kept
           in if removed > 0
              then Some (removed, h, buf\<lparr>mb_count := kept, mb_generation := mb_generation buf + 1\<rparr>)
              else Some (removed, h, buf)))"

definition message_buf_get :: "message_buf \<Rightarrow> u32 \<Rightarrow> slot option" where
  "message_buf_get buf index =
     (if index \<ge> mb_count buf then None
      else Some (mb_entries buf ! unat ((mb_head buf + index) mod mb_capacity buf)))"

definition message_buf_generation :: "message_buf \<Rightarrow> u64" where
  "message_buf_generation buf = mb_generation buf"

definition message_buf_count :: "message_buf \<Rightarrow> u32" where
  "message_buf_count buf = mb_count buf"

subsection \<open>Ownership\<close>

text \<open>The blocks a list of slots owns, and what it means to own them.\<close>

definition owned :: "slot list \<Rightarrow> ptr list" where
  "owned rs = List.map_filter mr_payload rs"

definition slot_ok :: "heap \<Rightarrow> slot \<Rightarrow> bool" where
  "slot_ok h r \<longleftrightarrow>
     (case mr_payload r of
        None \<Rightarrow> mr_payload_len r = 0
      | Some a \<Rightarrow> mr_payload_len r \<noteq> 0 \<and>
          (case hp_blocks h a of None \<Rightarrow> False | Some bs \<Rightarrow> length bs = unat (mr_payload_len r)))"

definition owns :: "heap \<Rightarrow> slot list \<Rightarrow> bool" where
  "owns h rs \<longleftrightarrow> distinct (owned rs) \<and> (\<forall>r\<in>set rs. slot_ok h r)"

text \<open>The blocks of everybody else.\<close>

definition frame_of :: "heap \<Rightarrow> slot list \<Rightarrow> ptr \<Rightarrow> bytes option" where
  "frame_of h rs = (\<lambda>a. if a \<in> set (owned rs) then None else hp_blocks h a)"

text \<open>The record a slot stands for, with its payload read from the heap.\<close>

definition deref :: "heap \<Rightarrow> slot \<Rightarrow> bytes message_record" where
  "deref h r = map_payload (\<lambda>p. case p of None \<Rightarrow> [] | Some a \<Rightarrow> the (hp_blocks h a)) r"

definition record_ok :: "bytes option message_record \<Rightarrow> bool" where
  "record_ok x \<longleftrightarrow>
     (case mr_payload x of None \<Rightarrow> True | Some src \<Rightarrow> unat (mr_payload_len x) \<le> length src)"

text \<open>The record that a push stores: exactly \<open>payload_len\<close> bytes, none for a NULL payload.\<close>

definition stored :: "bytes option message_record \<Rightarrow> bytes message_record" where
  "stored x =
     (case mr_payload x of
        None \<Rightarrow> (map_payload (\<lambda>_. []) x)\<lparr>mr_payload_len := 0\<rparr>
      | Some src \<Rightarrow> map_payload (\<lambda>_. take (unat (mr_payload_len x)) src) x)"

lemma map_payload_simps [simp]:
  "mr_timestamp_us (map_payload f r) = mr_timestamp_us r"
  "mr_topic (map_payload f r) = mr_topic r"
  "mr_payload (map_payload f r) = f (mr_payload r)"
  "mr_payload_len (map_payload f r) = mr_payload_len r"
  "mr_retained (map_payload f r) = mr_retained r"
  "mr_broker_id (map_payload f r) = mr_broker_id r"
  "mr_preview (map_payload f r) = mr_preview r"
  "mr_qos (map_payload f r) = mr_qos r"
  "mr_dup (map_payload f r) = mr_dup r"
  by (simp_all add: map_payload_def)

lemma topic_deref [simp]: "mr_topic (deref h r) = mr_topic r"
  by (simp add: deref_def)

lemma owned_Nil [simp]: "owned [] = []"
  by (simp add: owned_def map_filter_simps)

lemma owned_Cons: "owned (r # rs) = (case mr_payload r of None \<Rightarrow> owned rs | Some a \<Rightarrow> a # owned rs)"
  by (auto simp: owned_def map_filter_simps split: option.splits)

lemma owned_append [simp]: "owned (rs @ ss) = owned rs @ owned ss"
  by (simp add: owned_def map_filter_def)

lemma mem_owned: "a \<in> set (owned rs) \<longleftrightarrow> (\<exists>r\<in>set rs. mr_payload r = Some a)"
  by (induction rs) (auto simp: owned_Cons split: option.splits)

lemma slot_ok_Some: "mr_payload r = Some a \<Longrightarrow> slot_ok h r \<longleftrightarrow>
    mr_payload_len r \<noteq> 0 \<and> (\<exists>bs. hp_blocks h a = Some bs \<and> length bs = unat (mr_payload_len r))"
  by (auto simp: slot_ok_def split: option.splits)

lemma slot_ok_None: "mr_payload r = None \<Longrightarrow> slot_ok h r \<longleftrightarrow> mr_payload_len r = 0"
  by (simp add: slot_ok_def)

lemma slot_ok_cong: "(\<And>a. mr_payload r = Some a \<Longrightarrow> hp_blocks h' a = hp_blocks h a) \<Longrightarrow>
    slot_ok h' r = slot_ok h r"
  by (auto simp: slot_ok_def split: option.splits)

lemma deref_cong: "(\<And>a. mr_payload r = Some a \<Longrightarrow> hp_blocks h' a = hp_blocks h a) \<Longrightarrow>
    deref h' r = deref h r"
  by (auto simp: deref_def map_payload_def split: option.splits)

lemma owns_transfer:
  assumes "\<And>a. a \<in> set (owned rs) \<Longrightarrow> hp_blocks h' a = hp_blocks h a" "owns h rs"
  shows "owns h' rs" "map (deref h') rs = map (deref h) rs"
proof -
  have same: "r \<in> set rs \<Longrightarrow> mr_payload r = Some a \<Longrightarrow> hp_blocks h' a = hp_blocks h a" for r a
    using assms(1) [of a] by (auto simp: mem_owned)
  have "slot_ok h' r" if "r \<in> set rs" for r
    using slot_ok_cong [of r h' h] same [OF that] that assms(2) by (simp add: owns_def)
  then show "owns h' rs" using assms(2) by (simp add: owns_def)
  show "map (deref h') rs = map (deref h) rs"
    using same by (auto intro!: deref_cong)
qed

lemma owns_remove: "owns h (ks @ r # rs) \<Longrightarrow> owns h (ks @ rs)"
  by (auto simp: owns_def owned_Cons split: option.splits)

lemma free_owned:
  assumes "heap_wf h" "owns h (ks @ r # rs)"
  shows "\<exists>h'. heap_free (mr_payload r) h = Some h' \<and> heap_wf h' \<and> owns h' (ks @ rs)
     \<and> map (deref h') (ks @ rs) = map (deref h) (ks @ rs)
     \<and> frame_of h' (ks @ rs) = frame_of h (ks @ r # rs)"
proof (cases "mr_payload r")
  case None
  then show ?thesis using assms owns_remove [OF assms(2)]
    by (auto simp: heap_free_def frame_of_def owned_Cons)
next
  case (Some a)
  let ?h' = "h\<lparr>hp_blocks := (hp_blocks h)(a := None)\<rparr>"
  have fresh: "a \<notin> set (owned (ks @ rs))"
    using assms(2) Some by (auto simp: owns_def owned_Cons)
  have free: "heap_free (mr_payload r) h = Some ?h'"
    using assms(2) Some by (auto simp: heap_free_def owns_def slot_ok_Some)
  have "owns ?h' (ks @ rs)" "map (deref ?h') (ks @ rs) = map (deref h) (ks @ rs)"
    by (rule owns_transfer [OF _ owns_remove [OF assms(2)]]; use fresh in auto)+
  moreover have "frame_of ?h' (ks @ rs) = frame_of h (ks @ r # rs)"
    using fresh Some by (auto simp: frame_of_def owned_Cons fun_eq_iff)
  moreover have "heap_wf ?h'" using assms(1) by (auto simp: heap_wf_def)
  ultimately show ?thesis using free by blast
qed

lemma store_owned:
  assumes "heap_wf h" "owns h rs" "record_ok x"
  shows "\<exists>r h'. store_record x h = Some (r, h') \<and> heap_wf h' \<and> owns h' (rs @ [r])
     \<and> map (deref h') rs = map (deref h) rs \<and> deref h' r = stored x
     \<and> frame_of h' (rs @ [r]) = frame_of h rs"
proof (cases "\<exists>src. mr_payload x = Some src \<and> mr_payload_len x > 0")
  case False
  let ?r = "(map_payload (\<lambda>_. None) x)\<lparr>mr_payload_len := 0\<rparr> :: slot"
  have len: "mr_payload x = None \<or> mr_payload_len x = 0"
    using False by (auto simp: word_less_unat word_eq_unat)
  have "store_record x h = Some (?r, h)"
    using len by (auto simp: store_record_def split: option.splits)
  moreover have "deref h ?r = stored x"
    using len by (auto simp: deref_def stored_def map_payload_def split: option.splits)
  moreover have "owns h (rs @ [?r])" "frame_of h (rs @ [?r]) = frame_of h rs"
    using assms(2) by (auto simp: owns_def owned_Cons slot_ok_def frame_of_def)
  ultimately show ?thesis using assms(1) by blast
next
  case True
  then obtain src where src: "mr_payload x = Some src" "mr_payload_len x > 0" by blast
  let ?a = "hp_next h" and ?bs = "take (unat (mr_payload_len x)) src"
  let ?h' = "h\<lparr>hp_blocks := (hp_blocks h)(?a \<mapsto> ?bs), hp_next := Suc ?a\<rparr>"
  let ?r = "map_payload (\<lambda>_. Some ?a) x :: slot"
  have ne: "hp_blocks h ?a = None" using assms(1) by (auto simp: heap_wf_def)
  have fresh: "?a \<notin> set (owned rs)"
    using assms(2) ne by (auto simp: owns_def mem_owned slot_ok_Some)
  have len: "length ?bs = unat (mr_payload_len x)" "mr_payload_len x \<noteq> 0"
    using assms(3) src by (auto simp: record_ok_def)
  have st: "store_record x h = Some (?r, ?h')"
    using src assms(3) by (auto simp: store_record_def heap_malloc_def record_ok_def)
  have old: "owns ?h' rs" "map (deref ?h') rs = map (deref h) rs"
    by (rule owns_transfer [OF _ assms(2)]; use fresh in auto)+
  have "owns ?h' (rs @ [?r])"
    using old(1) fresh len by (auto simp: owns_def owned_Cons slot_ok_def)
  moreover have "deref ?h' ?r = stored x"
    using src by (simp add: deref_def stored_def map_payload_def)
  moreover have "frame_of ?h' (rs @ [?r]) = frame_of h rs"
    using ne fresh by (auto simp: frame_of_def owned_Cons fun_eq_iff)
  moreover have "heap_wf ?h'" using assms(1) by (auto simp: heap_wf_def)
  ultimately show ?thesis using st old by blast
qed

subsection \<open>The ring\<close>

definition live :: "message_buf \<Rightarrow> slot list" where
  "live buf = window (mb_entries buf) (unat (mb_head buf)) (unat (mb_count buf))"

definition mb_ring_ok :: "message_buf \<Rightarrow> bool" where
  "mb_ring_ok buf \<longleftrightarrow> ring_cap_ok (mb_capacity buf) \<and> length (mb_entries buf) = unat (mb_capacity buf)
     \<and> unat (mb_head buf) < unat (mb_capacity buf) \<and> unat (mb_count buf) \<le> unat (mb_capacity buf)"

definition mb_wf :: "heap \<times> message_buf \<Rightarrow> bool" where
  "mb_wf s \<longleftrightarrow> (case s of (h, buf) \<Rightarrow> heap_wf h \<and> mb_ring_ok buf \<and> owns h (live buf))"

definition mb_items :: "heap \<times> message_buf \<Rightarrow> bytes message_record list" where
  "mb_items s = (case s of (h, buf) \<Rightarrow> map (deref h) (live buf))"

definition mb_frame :: "heap \<times> message_buf \<Rightarrow> ptr \<Rightarrow> bytes option" where
  "mb_frame s = (case s of (h, buf) \<Rightarrow> frame_of h (live buf))"

definition mb_cap :: "heap \<times> message_buf \<Rightarrow> nat" where
  "mb_cap s = unat (mb_capacity (snd s))"

lemma length_live [simp]: "length (live buf) = unat (mb_count buf)"
  by (simp add: live_def)

lemma length_mb_items: "length (mb_items (h, buf)) = unat (mb_count buf)"
  by (simp add: mb_items_def)

lemma ring_slot:
  assumes "mb_ring_ok buf" "unat i \<le> unat (mb_capacity buf)"
  shows "unat ((mb_head buf + i) mod mb_capacity buf)
      = (unat (mb_head buf) + unat i) mod length (mb_entries buf)"
    and "unat ((mb_head buf + i) mod mb_capacity buf) < length (mb_entries buf)"
  using assms ring_idx_nat [of "mb_capacity buf" "mb_head buf" i]
    ring_idx_less [of "mb_capacity buf" "mb_head buf" i]
  by (simp_all add: mb_ring_ok_def)

lemma nth_live:
  assumes "mb_ring_ok buf" "unat i < unat (mb_count buf)"
  shows "mb_entries buf ! unat ((mb_head buf + i) mod mb_capacity buf) = live buf ! unat i"
  using assms ring_slot [OF assms(1), of i] by (simp add: live_def nth_window mb_ring_ok_def)

lemma live_update:
  assumes "mb_ring_ok buf" "unat i < unat (mb_count buf)"
  shows "live (buf\<lparr>mb_entries := (mb_entries buf)
      [unat ((mb_head buf + i) mod mb_capacity buf) := r]\<rparr>) = (live buf)[unat i := r]"
  using assms ring_slot [OF assms(1), of i]
    window_update [of "unat i" "unat (mb_count buf)" "mb_entries buf" "unat (mb_head buf)" r]
  by (simp add: live_def mb_ring_ok_def)

lemma ring_ok_entries:
  "mb_ring_ok buf \<Longrightarrow> length es = length (mb_entries buf) \<Longrightarrow> mb_ring_ok (buf\<lparr>mb_entries := es\<rparr>)"
  by (simp add: mb_ring_ok_def)

subsection \<open>Push\<close>

lemma live_not_full:
  assumes "mb_ring_ok buf" "mb_count buf \<noteq> mb_capacity buf"
  shows "live (buf\<lparr>mb_count := mb_count buf + 1, mb_generation := g, mb_entries := (mb_entries buf)
      [unat ((mb_head buf + mb_count buf) mod mb_capacity buf) := r]\<rparr>) = live buf @ [r]"
    and "unat (mb_count buf + 1) = unat (mb_count buf) + 1"
    and "unat (mb_count buf) < unat (mb_capacity buf)"
proof -
  show less: "unat (mb_count buf) < unat (mb_capacity buf)"
    using assms by (auto simp: mb_ring_ok_def word_eq_unat)
  then show inc: "unat (mb_count buf + 1) = unat (mb_count buf) + 1"
    by (simp add: unat_inc_less [of _ "mb_capacity buf"] word_less_unat)
  show "live (buf\<lparr>mb_count := mb_count buf + 1, mb_generation := g, mb_entries := (mb_entries buf)
      [unat ((mb_head buf + mb_count buf) mod mb_capacity buf) := r]\<rparr>) = live buf @ [r]"
    using less ring_slot(1) [OF assms(1), of "mb_count buf"] assms(1)
      window_push [of "unat (mb_count buf)" "mb_entries buf" "unat (mb_head buf)" r]
    by (simp add: live_def inc mb_ring_ok_def)
qed

lemma live_full:
  assumes "mb_ring_ok buf" "mb_count buf = mb_capacity buf"
  shows "live (buf\<lparr>mb_head := (mb_head buf + 1) mod mb_capacity buf, mb_generation := g,
      mb_entries := (mb_entries buf)
        [unat ((mb_head buf + mb_count buf) mod mb_capacity buf) := r]\<rparr>) = tl (live buf) @ [r]"
    and "mb_entries buf ! unat ((mb_head buf + mb_count buf) mod mb_capacity buf) = hd (live buf)"
    and "unat ((mb_head buf + 1) mod mb_capacity buf) < unat (mb_capacity buf)"
    and "live buf \<noteq> []"
proof -
  have cap: "0 < unat (mb_capacity buf)" using assms(1) by (simp add: mb_ring_ok_def ring_cap_ok_def)
  have one: "unat ((mb_head buf + 1) mod mb_capacity buf)
      = (unat (mb_head buf) + 1) mod length (mb_entries buf)"
    using ring_slot(1) [OF assms(1), of 1] cap by simp
  show "live (buf\<lparr>mb_head := (mb_head buf + 1) mod mb_capacity buf, mb_generation := g,
      mb_entries := (mb_entries buf)
        [unat ((mb_head buf + mb_count buf) mod mb_capacity buf) := r]\<rparr>) = tl (live buf) @ [r]"
    using assms cap ring_slot(1) [OF assms(1), of "mb_count buf"] one
      window_evict [of "mb_entries buf" "unat (mb_head buf)" r]
    by (simp add: live_def mb_ring_ok_def)
  show ne: "live buf \<noteq> []"
    using assms(2) cap by (metis length_live length_greater_0_conv)
  have "hd (live buf) = live buf ! 0" using ne by (simp add: hd_conv_nth)
  then show "mb_entries buf ! unat ((mb_head buf + mb_count buf) mod mb_capacity buf) = hd (live buf)"
    using assms cap ring_slot(1) [OF assms(1), of "mb_count buf"]
    by (simp add: live_def nth_window mb_ring_ok_def)
  show "unat ((mb_head buf + 1) mod mb_capacity buf) < unat (mb_capacity buf)"
    using assms(1) by (simp add: ring_idx_less mb_ring_ok_def)
qed

text \<open>The contract of a push, which also covers the frame.\<close>

lemma push_contract:
  assumes "mb_wf s" "record_ok x"
  shows "\<exists>s'. message_buf_push x s = Some s' \<and> mb_wf s' \<and> mb_cap s' = mb_cap s
     \<and> mb_items s' = lastn (mb_cap s) (mb_items s @ [stored x])
     \<and> mb_generation (snd s') = mb_generation (snd s) + 1 \<and> mb_frame s' = mb_frame s"
proof -
  obtain h buf where s: "s = (h, buf)" by (cases s)
  have wf: "heap_wf h" "mb_ring_ok buf" "owns h (live buf)" using assms(1) by (auto simp: mb_wf_def s)
  have cap: "mb_capacity buf \<noteq> 0" using wf(2) by (auto simp: mb_ring_ok_def ring_cap_ok_def)
  let ?idx = "(mb_head buf + mb_count buf) mod mb_capacity buf"
  have idx: "unat ?idx < length (mb_entries buf)"
    using ring_slot(2) [OF wf(2)] wf(2) by (simp add: mb_ring_ok_def)
  show ?thesis
  proof (cases "mb_count buf = mb_capacity buf")
    case False
    obtain r h' where st: "store_record x h = Some (r, h')" "heap_wf h'" "owns h' (live buf @ [r])"
        "map (deref h') (live buf) = map (deref h) (live buf)" "deref h' r = stored x"
        "frame_of h' (live buf @ [r]) = frame_of h (live buf)"
      using store_owned [OF wf(1,3) assms(2)] by blast
    let ?buf = "buf\<lparr>mb_count := mb_count buf + 1, mb_generation := mb_generation buf + 1,
      mb_entries := (mb_entries buf)[unat ?idx := r]\<rparr>"
    have push: "message_buf_push x s = Some (h', ?buf)"
      using False cap idx st(1) by (simp add: message_buf_push_def s Let_def not_le)
    note nf = live_not_full [OF wf(2) False]
    have "mb_ring_ok ?buf" using wf(2) nf(2,3) by (simp add: mb_ring_ok_def)
    then show ?thesis using push st nf
      by (simp add: s mb_wf_def mb_items_def mb_frame_def mb_cap_def)
  next
    case True
    note fl = live_full [OF wf(2) True]
    obtain r0 rs where lv: "live buf = r0 # rs" using fl(4) by (cases "live buf") auto
    obtain h1 where fr: "heap_free (mr_payload r0) h = Some h1" "heap_wf h1" "owns h1 rs"
        "map (deref h1) rs = map (deref h) rs" "frame_of h1 rs = frame_of h (live buf)"
      using free_owned [of h "[]" r0 rs] wf(1,3) lv by auto
    obtain r h' where st: "store_record x h1 = Some (r, h')" "heap_wf h'" "owns h' (rs @ [r])"
        "map (deref h') rs = map (deref h1) rs" "deref h' r = stored x"
        "frame_of h' (rs @ [r]) = frame_of h1 rs"
      using store_owned [OF fr(2,3) assms(2)] by blast
    let ?buf = "buf\<lparr>mb_head := (mb_head buf + 1) mod mb_capacity buf,
      mb_generation := mb_generation buf + 1, mb_entries := (mb_entries buf)[unat ?idx := r]\<rparr>"
    have push: "message_buf_push x s = Some (h', ?buf)"
      using True cap idx st(1) fr(1) fl(2) lv by (simp add: message_buf_push_def s Let_def not_le)
    have "mb_ring_ok ?buf" using wf(2) fl(3) by (simp add: mb_ring_ok_def)
    moreover have "mb_items s = deref h r0 # map (deref h) rs" by (simp add: mb_items_def s lv)
    moreover have "length (mb_items s) = mb_cap s"
      using True by (simp add: s length_mb_items mb_cap_def)
    ultimately show ?thesis
      using push st fr fl(1) lv lastn_evict [of "mb_items s" "stored x"]
      by (simp add: s mb_wf_def mb_items_def mb_frame_def mb_cap_def)
  qed
qed

interpretation mb: evicting_log mb_wf mb_cap mb_items record_ok stored message_buf_push
    "\<lambda>s. message_buf_generation (snd s)"
proof unfold_locales
  fix s :: "heap \<times> message_buf" and x :: "bytes option message_record"
  assume "mb_wf s" "record_ok x"
  then show "\<exists>s'. message_buf_push x s = Some s' \<and> mb_wf s' \<and> mb_cap s' = mb_cap s \<and>
      mb_items s' = lastn (mb_cap s) (mb_items s @ [stored x]) \<and>
      message_buf_generation (snd s') = message_buf_generation (snd s) + 1"
    unfolding message_buf_generation_def using push_contract by blast
next
  fix s :: "heap \<times> message_buf"
  assume "mb_wf s"
  then show "length (mb_items s) \<le> mb_cap s"
    by (cases s) (simp add: mb_wf_def mb_ring_ok_def mb_cap_def length_mb_items)
qed

subsection \<open>Clear and destroy\<close>

lemma clear_loop_run:
  assumes "mb_ring_ok buf" "unat i \<le> unat (mb_count buf)" "heap_wf h"
    "owns h (drop (unat i) (live buf))"
  shows "\<exists>h' es. clear_loop i (h, buf) = Some (h', buf\<lparr>mb_entries := es\<rparr>)
     \<and> length es = length (mb_entries buf) \<and> heap_wf h'
     \<and> frame_of h' [] = frame_of h (drop (unat i) (live buf))"
  using assms
proof (induction "unat (mb_count buf) - unat i" arbitrary: i h buf)
  case 0
  then show ?case
    by (auto simp: clear_loop.simps [of i "(h, buf)"] word_less_unat intro: exI [of _ "mb_entries buf"])
next
  case (Suc n)
  let ?idx = "(mb_head buf + i) mod mb_capacity buf" and ?r = "live buf ! unat i"
  have i: "unat i < unat (mb_count buf)" using Suc.hyps(2) by linarith
  then have inc: "unat (i + 1) = unat i + 1" by (simp add: unat_inc_less [of _ "mb_count buf"] word_less_unat)
  have cap: "mb_capacity buf \<noteq> 0" "unat i \<le> unat (mb_capacity buf)"
    using Suc.prems(1) i by (auto simp: mb_ring_ok_def ring_cap_ok_def)
  have idx: "unat ?idx < length (mb_entries buf)" using ring_slot(2) [OF Suc.prems(1) cap(2)] .
  have split: "drop (unat i) (live buf) = ?r # drop (unat i + 1) (live buf)"
    using i by (simp add: Cons_nth_drop_Suc)
  obtain h1 where fr: "heap_free (mr_payload ?r) h = Some h1" "heap_wf h1"
      "owns h1 (drop (unat i + 1) (live buf))"
      "frame_of h1 (drop (unat i + 1) (live buf)) = frame_of h (drop (unat i) (live buf))"
    using free_owned [of h "[]" ?r "drop (unat i + 1) (live buf)"] Suc.prems(3,4) split by auto
  let ?b = "buf\<lparr>mb_entries := (mb_entries buf)[unat ?idx := ?r\<lparr>mr_payload := None\<rparr>]\<rparr>"
  have lv: "drop (unat (i + 1)) (live ?b) = drop (unat i + 1) (live buf)"
    using live_update [OF Suc.prems(1) i] by (simp add: inc)
  have step: "clear_loop i (h, buf) = clear_loop (i + 1) (h1, ?b)"
    using i cap idx nth_live [OF Suc.prems(1) i] fr(1)
    by (simp add: clear_loop.simps [of i "(h, buf)"] word_less_unat Let_def not_le)
  have "\<exists>h' es. clear_loop (i + 1) (h1, ?b) = Some (h', ?b\<lparr>mb_entries := es\<rparr>)
      \<and> length es = length (mb_entries ?b) \<and> heap_wf h'
      \<and> frame_of h' [] = frame_of h1 (drop (unat (i + 1)) (live ?b))"
  proof (rule Suc.hyps(1))
    show "n = unat (mb_count ?b) - unat (i + 1)" using Suc.hyps(2) inc by simp
    show "mb_ring_ok ?b" using Suc.prems(1) by (simp add: ring_ok_entries)
    show "unat (i + 1) \<le> unat (mb_count ?b)" using i inc by simp
    show "heap_wf h1" by (rule fr)
    show "owns h1 (drop (unat (i + 1)) (live ?b))" using fr(3) by (simp add: lv)
  qed
  then show ?case using step fr(4) by (auto simp: lv)
qed

lemma clear_contract:
  assumes "mb_wf s"
  shows "\<exists>s'. message_buf_clear s = Some s' \<and> mb_wf s' \<and> mb_items s' = [] \<and> mb_cap s' = mb_cap s
     \<and> mb_generation (snd s') = mb_generation (snd s) + 1 \<and> mb_frame s' = mb_frame s
     \<and> hp_blocks (fst s') = mb_frame s"
proof -
  obtain h buf where s: "s = (h, buf)" by (cases s)
  have wf: "heap_wf h" "mb_ring_ok buf" "owns h (live buf)" using assms(1) by (auto simp: mb_wf_def s)
  obtain h' es where run: "clear_loop 0 (h, buf) = Some (h', buf\<lparr>mb_entries := es\<rparr>)"
      "length es = length (mb_entries buf)" "heap_wf h'" "frame_of h' [] = frame_of h (live buf)"
    using clear_loop_run [OF wf(2), of 0 h] wf(1,3) by auto
  let ?b = "buf\<lparr>mb_entries := es, mb_generation := mb_generation buf + 1, mb_head := 0, mb_count := 0\<rparr>"
  have "message_buf_clear s = Some (h', ?b)" by (simp add: message_buf_clear_def s run)
  moreover have "mb_ring_ok ?b" using wf(2) run(2) by (simp add: mb_ring_ok_def ring_cap_ok_def)
  moreover have "live ?b = []" by (simp add: live_def)
  moreover have "hp_blocks h' = frame_of h (live buf)"
    using run(4) by (simp add: frame_of_def fun_eq_iff)
  ultimately show ?thesis using run
    by (simp add: s mb_wf_def mb_items_def mb_frame_def mb_cap_def owns_def)
qed

subsection \<open>Removing a topic\<close>

lemma live_move:
  assumes "mb_ring_ok buf" "unat i < unat (mb_count buf)" "unat k \<le> unat i"
  shows "live (if (mb_head buf + k) mod mb_capacity buf \<noteq> (mb_head buf + i) mod mb_capacity buf
      then buf\<lparr>mb_entries := (mb_entries buf)[unat ((mb_head buf + k) mod mb_capacity buf) := live buf ! unat i]\<rparr>
      else buf) = (live buf)[unat k := live buf ! unat i]"
proof (cases "(mb_head buf + k) mod mb_capacity buf = (mb_head buf + i) mod mb_capacity buf")
  case False
  then show ?thesis using live_update [OF assms(1), of k] assms by simp
next
  case True
  have le: "unat i \<le> unat (mb_capacity buf)" "unat k \<le> unat (mb_capacity buf)"
    using assms by (auto simp: mb_ring_ok_def)
  have "(unat (mb_head buf) + unat k) mod length (mb_entries buf)
      = (unat (mb_head buf) + unat i) mod length (mb_entries buf)"
    using True ring_slot(1) [OF assms(1) le(1)] ring_slot(1) [OF assms(1) le(2)] by simp
  then have "unat k = unat i"
    using mod_offset_inj [of "unat k" "length (mb_entries buf)" "unat i" "unat (mb_head buf)"] assms
    by (simp add: mb_ring_ok_def)
  with True show ?thesis by simp
qed

lemma drop_Suc_update: "k \<le> i \<Longrightarrow> drop (Suc i) (xs[k := x]) = drop (Suc i) xs"
  by simp

lemma take_Suc_update: "k < length xs \<Longrightarrow> take (Suc k) (xs[k := x]) = take k xs @ [x]"
  by (simp add: take_Suc_conv_app_nth)

text \<open>The outcome of a compaction: the slots \<open>ws\<close>, their values, and the frame.\<close>

definition compacted :: "message_buf \<Rightarrow> slot list \<Rightarrow> bytes message_record list \<Rightarrow>
    (ptr \<Rightarrow> bytes option) \<Rightarrow> (u32 \<times> heap \<times> message_buf) option \<Rightarrow> bool" where
  "compacted buf ws vals fr res \<longleftrightarrow>
     (\<exists>k h es. res = Some (k, h, buf\<lparr>mb_entries := es\<rparr>) \<and> length es = length (mb_entries buf)
        \<and> heap_wf h \<and> unat k \<le> unat (mb_count buf) \<and> window es (unat (mb_head buf)) (unat k) = ws
        \<and> owns h ws \<and> map (deref h) ws = vals \<and> frame_of h ws = fr)"

lemma compacted_entries:
  "length es = length (mb_entries buf) \<Longrightarrow>
    compacted (buf\<lparr>mb_entries := es\<rparr>) ws vals fr res = compacted buf ws vals fr res"
  by (auto simp: compacted_def)

lemma remove_topic_loop_run:
  assumes "mb_ring_ok buf" "unat k \<le> unat i" "unat i \<le> unat (mb_count buf)" "heap_wf h"
    "owns h (take (unat k) (live buf) @ drop (unat i) (live buf))"
  shows "let ws = take (unat k) (live buf) @ filter (\<lambda>r. mr_topic r \<noteq> topic) (drop (unat i) (live buf)) in
     compacted buf ws (map (deref h) ws) (frame_of h (take (unat k) (live buf) @ drop (unat i) (live buf)))
       (remove_topic_loop topic i k (h, buf))"
  using assms
proof (induction "unat (mb_count buf) - unat i" arbitrary: i k h buf)
  case 0
  then show ?case
    by (auto simp: remove_topic_loop.simps [of topic i k "(h, buf)"] word_less_unat Let_def
        compacted_def live_def take_window intro!: exI [of _ "mb_entries buf"])
next
  case (Suc n)
  let ?idx = "(mb_head buf + i) mod mb_capacity buf" and ?r = "live buf ! unat i"
  let ?K = "take (unat k) (live buf)" and ?D = "drop (unat i + 1) (live buf)"
  have i: "unat i < unat (mb_count buf)" using Suc.hyps(2) by linarith
  then have inc: "unat (i + 1) = unat i + 1" by (simp add: unat_inc_less [of _ "mb_count buf"] word_less_unat)
  have inck: "unat (k + 1) = unat k + 1"
    using i Suc.prems(2) by (simp add: unat_inc_less [of _ "mb_count buf"] word_less_unat)
  have cap: "mb_capacity buf \<noteq> 0" "unat i \<le> unat (mb_capacity buf)" "unat k \<le> unat (mb_capacity buf)"
    using Suc.prems(1,2) i by (auto simp: mb_ring_ok_def ring_cap_ok_def)
  have idx: "unat ?idx < length (mb_entries buf)" using ring_slot(2) [OF Suc.prems(1) cap(2)] .
  have dst: "unat ((mb_head buf + k) mod mb_capacity buf) < length (mb_entries buf)"
    using ring_slot(2) [OF Suc.prems(1) cap(3)] .
  have split: "drop (unat i) (live buf) = ?r # ?D" using i by (simp add: Cons_nth_drop_Suc)
  note at = nth_live [OF Suc.prems(1) i]
  show ?case
  proof (cases "mr_topic ?r = topic")
    case True
    obtain h1 where fr: "heap_free (mr_payload ?r) h = Some h1" "heap_wf h1" "owns h1 (?K @ ?D)"
        "map (deref h1) (?K @ ?D) = map (deref h) (?K @ ?D)"
        "frame_of h1 (?K @ ?D) = frame_of h (?K @ drop (unat i) (live buf))"
      using free_owned [of h ?K ?r ?D] Suc.prems(4,5) split by auto
    let ?b = "buf\<lparr>mb_entries := (mb_entries buf)[unat ?idx := ?r\<lparr>mr_payload := None\<rparr>]\<rparr>"
    have lv: "take (unat k) (live ?b) = ?K" "drop (Suc (unat i)) (live ?b) = ?D"
      using live_update [OF Suc.prems(1) i] Suc.prems(2) by (simp_all add: inc)
    have step: "remove_topic_loop topic i k (h, buf) = remove_topic_loop topic (i + 1) k (h1, ?b)"
      using i cap idx at fr(1) True
      by (simp add: remove_topic_loop.simps [of topic i k "(h, buf)"] word_less_unat Let_def not_le)
    have keep: "map (deref h1) (filter (\<lambda>r. mr_topic r \<noteq> topic) ?D)
        = map (deref h) (filter (\<lambda>r. mr_topic r \<noteq> topic) ?D)"
        "map (deref h1) ?K = map (deref h) ?K"
      using fr(4) by (auto simp: map_eq_conv)
    note IH = Suc.hyps(1) [of ?b "i + 1" k h1]
    show ?thesis
      using IH Suc.hyps(2) Suc.prems(1,2) i fr(1-3,5) step keep True
      by (simp add: lv inc ring_ok_entries compacted_entries split Let_def del: map_eq_conv)
  next
    case False
    let ?b = "if (mb_head buf + k) mod mb_capacity buf \<noteq> ?idx
      then buf\<lparr>mb_entries := (mb_entries buf)[unat ((mb_head buf + k) mod mb_capacity buf) := ?r]\<rparr> else buf"
    have b: "\<exists>es. ?b = buf\<lparr>mb_entries := es\<rparr> \<and> length es = length (mb_entries buf)"
      by (cases "(mb_head buf + k) mod mb_capacity buf \<noteq> ?idx") (auto intro: exI [of _ "mb_entries buf"])
    then obtain es where es: "?b = buf\<lparr>mb_entries := es\<rparr>" "length es = length (mb_entries buf)" by blast
    have live_b: "live (buf\<lparr>mb_entries := es\<rparr>) = (live buf)[unat k := ?r]"
      using live_move [OF Suc.prems(1) i Suc.prems(2)] es(1) by simp
    have lv: "take (Suc (unat k)) (live (buf\<lparr>mb_entries := es\<rparr>)) = ?K @ [?r]"
        "drop (Suc (unat i)) (live (buf\<lparr>mb_entries := es\<rparr>)) = ?D"
      using live_b Suc.prems(2) i by (simp_all add: inc inck take_Suc_update drop_Suc_update)
    have step: "remove_topic_loop topic i k (h, buf)
        = remove_topic_loop topic (i + 1) (k + 1) (h, buf\<lparr>mb_entries := es\<rparr>)"
      using i cap idx dst at False es(1)
      by (simp add: remove_topic_loop.simps [of topic i k "(h, buf)"] word_less_unat Let_def not_le)
    note IH = Suc.hyps(1) [of "buf\<lparr>mb_entries := es\<rparr>" "i + 1" "k + 1" h]
    show ?thesis
      using IH Suc.hyps(2) Suc.prems i step False es(2)
      by (simp add: lv inc inck ring_ok_entries compacted_entries split Let_def)
  qed
qed

lemma live_count:
  "live (buf\<lparr>mb_entries := es, mb_count := k, mb_generation := g\<rparr>) = window es (unat (mb_head buf)) (unat k)"
  by (simp add: live_def)

lemma map_deref_filter:
  "map (deref h) (filter (\<lambda>r. mr_topic r \<noteq> topic) rs)
     = filter (\<lambda>r. mr_topic r \<noteq> topic) (map (deref h) rs)"
  by (induction rs) auto

lemma remove_contract:
  assumes "mb_wf s"
  shows "\<exists>n s'. message_buf_remove_topic topic s = Some (n, s') \<and> mb_wf s' \<and> mb_cap s' = mb_cap s
     \<and> mb_items s' = filter (\<lambda>r. mr_topic r \<noteq> topic) (mb_items s)
     \<and> unat n = length (filter (\<lambda>r. mr_topic r = topic) (mb_items s))
     \<and> mb_generation (snd s') = mb_generation (snd s) + (if n = 0 then 0 else 1)
     \<and> mb_frame s' = mb_frame s"
proof -
  obtain h buf where s: "s = (h, buf)" by (cases s)
  have wf: "heap_wf h" "mb_ring_ok buf" "owns h (live buf)" using assms(1) by (auto simp: mb_wf_def s)
  let ?ws = "filter (\<lambda>r. mr_topic r \<noteq> topic) (live buf)"
  obtain k h' es where run: "remove_topic_loop topic 0 0 (h, buf) = Some (k, h', buf\<lparr>mb_entries := es\<rparr>)"
      "length es = length (mb_entries buf)" "heap_wf h'" "unat k \<le> unat (mb_count buf)"
      "window es (unat (mb_head buf)) (unat k) = ?ws" "owns h' ?ws"
      "map (deref h') ?ws = map (deref h) ?ws" "frame_of h' ?ws = frame_of h (live buf)"
    using remove_topic_loop_run [OF wf(2), of 0 0 h topic] wf(1,3)
    by (auto simp: compacted_def Let_def)
  let ?n = "mb_count buf - k"
  have k: "unat k = length ?ws" using run(5) by (metis length_window)
  have n: "unat ?n = unat (mb_count buf) - unat k" using run(4) by (simp add: unat_sub_le word_le_unat)
  have "length (live buf) = length ?ws + length (filter (\<lambda>r. mr_topic r = topic) (live buf))"
    using sum_length_filter_compl [of "\<lambda>r. mr_topic r = topic" "live buf"] by simp
  then have cnt: "unat ?n = length (filter (\<lambda>r. mr_topic r = topic) (live buf))" using n k by simp
  have cnt': "length (filter (\<lambda>r. mr_topic r = topic) (mb_items s))
      = length (filter (\<lambda>r. mr_topic r = topic) (live buf))"
    by (simp add: s mb_items_def filter_map comp_def)
  have vals: "mb_items s = map (deref h) (live buf)" by (simp add: s mb_items_def)
  show ?thesis
  proof (cases "?n = 0")
    case False
    let ?b = "buf\<lparr>mb_entries := es, mb_count := k, mb_generation := mb_generation buf + 1\<rparr>"
    have "message_buf_remove_topic topic s = Some (?n, h', ?b)"
      using run(1) False by (simp add: message_buf_remove_topic_def s Let_def word_less_unat word_eq_unat)
    moreover have "mb_ring_ok ?b" using wf(2) run(2,4) by (simp add: mb_ring_ok_def)
    moreover have "live ?b = ?ws" by (simp add: live_count run(5))
    ultimately show ?thesis
      using run(3,6-8) cnt cnt' False
      by (simp add: s mb_wf_def mb_items_def mb_frame_def mb_cap_def map_deref_filter)
  next
    case True
    then have kc: "k = mb_count buf" by simp
    let ?b = "buf\<lparr>mb_entries := es\<rparr>"
    have "message_buf_remove_topic topic s = Some (?n, h', ?b)"
      using run(1) True by (simp add: message_buf_remove_topic_def s Let_def)
    moreover have "mb_ring_ok ?b" using wf(2) run(2) by (simp add: ring_ok_entries)
    moreover have "live ?b = ?ws" using run(5) kc by (simp add: live_def)
    ultimately show ?thesis
      using run(3,6-8) cnt cnt' True
      by (simp add: s mb_wf_def mb_items_def mb_frame_def mb_cap_def map_deref_filter)
  qed
qed

subsection \<open>Reading\<close>

lemma get_contract:
  assumes "mb_wf (h, buf)"
  shows "map_option (deref h) (message_buf_get buf i)
     = (if unat i < length (mb_items (h, buf)) then Some (mb_items (h, buf) ! unat i) else None)"
proof -
  have ok: "mb_ring_ok buf" using assms by (simp add: mb_wf_def)
  then show ?thesis
    by (auto simp: message_buf_get_def mb_items_def word_le_unat nth_live not_le)
qed

lemma init_wf:
  assumes "heap_wf h" "ring_cap_ok capacity"
  shows "mb_wf (h, message_buf_init capacity)" "mb_items (h, message_buf_init capacity) = []"
  using assms ring_cap_pos [OF assms(2)]
  by (simp_all add: mb_wf_def mb_ring_ok_def message_buf_init_def owns_def live_def mb_items_def ring_cap_ok_def)

subsection \<open>Sequences of operations\<close>

datatype mb_op = Mb_Push "bytes option message_record" | Mb_Clear | Mb_Remove string

fun mb_step :: "mb_op \<Rightarrow> heap \<times> message_buf \<Rightarrow> (heap \<times> message_buf) option" where
  "mb_step (Mb_Push r) s = message_buf_push r s"
| "mb_step Mb_Clear s = message_buf_clear s"
| "mb_step (Mb_Remove t) s = map_option snd (message_buf_remove_topic t s)"

text \<open>The abstract log: a bounded list of records.\<close>

fun mb_spec :: "nat \<Rightarrow> mb_op \<Rightarrow> bytes message_record list \<Rightarrow> bytes message_record list" where
  "mb_spec n (Mb_Push r) xs = lastn n (xs @ [stored r])"
| "mb_spec n Mb_Clear xs = []"
| "mb_spec n (Mb_Remove t) xs = filter (\<lambda>r. mr_topic r \<noteq> t) xs"

fun mb_op_ok :: "mb_op \<Rightarrow> bool" where
  "mb_op_ok (Mb_Push r) = record_ok r"
| "mb_op_ok _ = True"

lemma mb_step_contract:
  assumes "mb_wf s" "mb_op_ok op"
  shows "\<exists>s'. mb_step op s = Some s' \<and> mb_wf s' \<and> mb_cap s' = mb_cap s
     \<and> mb_items s' = mb_spec (mb_cap s) op (mb_items s) \<and> mb_frame s' = mb_frame s
     \<and> (mb_generation (snd s') = mb_generation (snd s) + 1
        \<or> mb_generation (snd s') = mb_generation (snd s) \<and> mb_items s' = mb_items s)"
proof (cases op)
  case (Mb_Push r)
  then show ?thesis using push_contract [of s r] assms by auto
next
  case Mb_Clear
  then show ?thesis using clear_contract [of s] assms by auto
next
  case (Mb_Remove t)
  obtain n s' where rm: "message_buf_remove_topic t s = Some (n, s')" "mb_wf s'" "mb_cap s' = mb_cap s"
     "mb_items s' = filter (\<lambda>r. mr_topic r \<noteq> t) (mb_items s)"
     "unat n = length (filter (\<lambda>r. mr_topic r = t) (mb_items s))"
     "mb_generation (snd s') = mb_generation (snd s) + (if n = 0 then 0 else 1)"
     "mb_frame s' = mb_frame s"
    using remove_contract [OF assms(1)] by blast
  have "n = 0 \<Longrightarrow> mb_items s' = mb_items s"
    using rm(4,5) by (simp add: filter_id_conv filter_empty_conv)
  then show ?thesis using Mb_Remove rm by auto
qed

lemma mb_run:
  assumes "mb_wf s" "\<forall>op\<in>set ops. mb_op_ok op"
  shows "\<exists>s' n. option_fold mb_step ops s = Some s' \<and> mb_wf s' \<and> mb_cap s' = mb_cap s
     \<and> mb_items s' = fold (mb_spec (mb_cap s)) ops (mb_items s) \<and> mb_frame s' = mb_frame s
     \<and> mb_generation (snd s') = mb_generation (snd s) + word_of_nat n \<and> n \<le> length ops
     \<and> (n = 0 \<longrightarrow> mb_items s' = mb_items s)"
  using assms
proof (induction ops arbitrary: s)
  case Nil
  then show ?case by (auto intro!: exI [of _ 0])
next
  case (Cons op ops)
  obtain s1 where s1: "mb_step op s = Some s1" "mb_wf s1" "mb_cap s1 = mb_cap s"
     "mb_items s1 = mb_spec (mb_cap s) op (mb_items s)" "mb_frame s1 = mb_frame s"
     "mb_generation (snd s1) = mb_generation (snd s) + 1
        \<or> mb_generation (snd s1) = mb_generation (snd s) \<and> mb_items s1 = mb_items s"
    using mb_step_contract Cons.prems by fastforce
  obtain s2 n where s2: "option_fold mb_step ops s1 = Some s2" "mb_wf s2" "mb_cap s2 = mb_cap s1"
     "mb_items s2 = fold (mb_spec (mb_cap s1)) ops (mb_items s1)" "mb_frame s2 = mb_frame s1"
     "mb_generation (snd s2) = mb_generation (snd s1) + word_of_nat n" "n \<le> length ops"
     "n = 0 \<longrightarrow> mb_items s2 = mb_items s1"
    using Cons.IH [OF s1(2)] Cons.prems(2) by auto
  from s1(6) show ?case
  proof
    assume "mb_generation (snd s1) = mb_generation (snd s) + 1"
    then show ?thesis using s1 s2 by (intro exI [of _ s2] exI [of _ "Suc n"]) simp
  next
    assume "mb_generation (snd s1) = mb_generation (snd s) \<and> mb_items s1 = mb_items s"
    then show ?thesis using s1 s2 by (intro exI [of _ s2] exI [of _ n]) simp
  qed
qed

definition empty_heap :: heap where
  "empty_heap = \<lparr>hp_blocks = (\<lambda>_. None), hp_next = 0\<rparr>"

lemma empty_heap_wf [simp]: "heap_wf empty_heap"
  by (simp add: heap_wf_def empty_heap_def)

definition sample_record :: "string \<Rightarrow> bytes option \<Rightarrow> u32 \<Rightarrow> bytes option message_record" where
  "sample_record topic payload len =
     \<lparr>mr_timestamp_us = 0, mr_topic = topic, mr_payload = payload, mr_payload_len = len,
      mr_qos = 0, mr_retained = False, mr_dup = False, mr_broker_id = 1, mr_preview = ''''\<rparr>"

subsection \<open>Properties\<close>

text \<open>
  C1. The message buffer refines a bounded list: on a well-formed buffer any sequence of pushes,
  clears and topic removals runs without undefined behaviour (no double free, no index out of the
  array), keeps the buffer well-formed, leaves the heap blocks the buffer does not own untouched,
  and its contents are those of the abstract log that keeps the last \<open>capacity\<close> records.
\<close>

theorem message_buf_refines:
  assumes "mb_wf s" "\<forall>op\<in>set ops. mb_op_ok op"
  shows "\<exists>s'. option_fold mb_step ops s = Some s' \<and> mb_wf s' \<and> mb_frame s' = mb_frame s
     \<and> mb_items s' = fold (mb_spec (mb_cap s)) ops (mb_items s)"
  using mb_run [OF assms] by blast

theorem message_buf_refines_witness:
  "\<exists>s'. option_fold mb_step
      [Mb_Push (sample_record ''a'' (Some [1, 2]) 2), Mb_Push (sample_record ''b'' None 7),
       Mb_Push (sample_record ''a'' (Some [3]) 1), Mb_Remove ''a'']
      (empty_heap, message_buf_init 2) = Some s' \<and> mb_wf s'
     \<and> mb_items s' = [stored (sample_record ''b'' None 7)]"
proof -
  let ?ops = "[Mb_Push (sample_record ''a'' (Some [1, 2]) 2), Mb_Push (sample_record ''b'' None 7),
       Mb_Push (sample_record ''a'' (Some [3]) 1), Mb_Remove ''a'']"
  have wf: "mb_wf (empty_heap, message_buf_init 2)" "mb_items (empty_heap, message_buf_init 2) = []"
    by (rule init_wf; simp add: ring_cap_ok_def)+
  have ok: "\<forall>op\<in>set ?ops. mb_op_ok op" by (simp add: record_ok_def sample_record_def)
  show ?thesis
    using message_buf_refines [OF wf(1) ok]
    by (auto simp: wf(2) mb_cap_def message_buf_init_def lastn_def stored_def sample_record_def
        map_payload_def)
qed



text \<open>
  C3. A reader may cache what it derived from the buffer: if the contents differ after fewer than
  \<open>2 ^ 64\<close> operations, the generation differs too.
\<close>

theorem message_buf_generation_sound:
  assumes "mb_wf s" "\<forall>op\<in>set ops. mb_op_ok op" "length ops < 2 ^ 64"
    and "option_fold mb_step ops s = Some s'" "mb_items s' \<noteq> mb_items s"
  shows "message_buf_generation (snd s') \<noteq> message_buf_generation (snd s)"
proof -
  obtain n where n: "mb_generation (snd s') = mb_generation (snd s) + word_of_nat n" "n \<le> length ops"
      "n = 0 \<longrightarrow> mb_items s' = mb_items s"
    using mb_run [OF assms(1,2)] assms(4) by auto
  then have "(word_of_nat n :: u64) \<noteq> 0"
    using assms(3,5) by (auto simp: word_of_nat_eq_0_iff dest: dvd_imp_le)
  then show ?thesis using n by (simp add: message_buf_generation_def)
qed

theorem message_buf_generation_sound_witness:
  "\<exists>s'. option_fold mb_step [Mb_Push (sample_record ''a'' (Some [1]) 1)]
      (empty_heap, message_buf_init 2) = Some s'
     \<and> message_buf_generation (snd s') \<noteq> message_buf_generation (message_buf_init 2)"
proof -
  let ?s = "(empty_heap, message_buf_init 2)" and ?ops = "[Mb_Push (sample_record ''a'' (Some [1]) 1)]"
  have wf: "mb_wf ?s" "mb_items ?s = []" by (rule init_wf; simp add: ring_cap_ok_def)+
  have ok: "\<forall>op\<in>set ?ops. mb_op_ok op" by (simp add: record_ok_def sample_record_def)
  obtain s' where s': "option_fold mb_step ?ops ?s = Some s'"
      "mb_items s' = fold (mb_spec (mb_cap ?s)) ?ops (mb_items ?s)"
    using mb_run [OF wf(1) ok] by blast
  then have "mb_items s' \<noteq> mb_items ?s" using wf(2) by (simp add: mb_cap_def message_buf_init_def lastn_def)
  then show ?thesis using message_buf_generation_sound [OF wf(1) ok _ s'(1)] s'(1) by auto
qed

text \<open>
  What the message view reads: after any sequence of pushes onto a fresh buffer,
  \<open>message_buf_get\<close> at a logical index is the record of that rank among the last
  \<open>capacity\<close> records pushed, and NULL beyond them.
\<close>

theorem message_buf_history:
  assumes "heap_wf h" "ring_cap_ok capacity" "\<forall>x\<in>set xs. record_ok x"
  shows "\<exists>h' buf. option_fold message_buf_push xs (h, message_buf_init capacity) = Some (h', buf)
     \<and> (let recent = lastn (unat capacity) (map stored xs) in
          unat (message_buf_count buf) = length recent
        \<and> (\<forall>i. map_option (deref h') (message_buf_get buf i)
               = (if unat i < length recent then Some (recent ! unat i) else None)))"
proof -
  let ?s = "(h, message_buf_init capacity)"
  have wf: "mb_wf ?s" "mb_items ?s = []" by (rule init_wf [OF assms(1,2)])+
  obtain s' where s': "option_fold message_buf_push xs ?s = Some s'" "mb_wf s'"
      "mb_items s' = lastn (mb_cap ?s) (mb_items ?s @ map stored xs)"
    using mb.fold_items [OF wf(1) assms(3)] by blast
  obtain h' buf where hb: "s' = (h', buf)" by (cases s')
  have it: "mb_items (h', buf) = lastn (unat capacity) (map stored xs)"
    using s'(3) wf(2) by (simp add: hb mb_cap_def message_buf_init_def)
  show ?thesis
    unfolding Let_def it [symmetric]
    using s'(1,2) get_contract [of h' buf] length_mb_items [of h' buf]
    by (simp add: hb message_buf_count_def)
qed

theorem message_buf_history_witness:
  "\<exists>h' buf. option_fold message_buf_push
      [sample_record ''a'' (Some [1]) 1, sample_record ''b'' None 0, sample_record ''c'' (Some [2]) 1]
      (empty_heap, message_buf_init 2) = Some (h', buf)
     \<and> map_option (deref h') (message_buf_get buf 0) = Some (stored (sample_record ''b'' None 0))
     \<and> message_buf_get buf 2 = None"
proof -
  let ?xs = "[sample_record ''a'' (Some [1]) 1, sample_record ''b'' None 0, sample_record ''c'' (Some [2]) 1]"
  obtain h' buf where r: "option_fold message_buf_push ?xs (empty_heap, message_buf_init 2) = Some (h', buf)"
      "\<And>i. map_option (deref h') (message_buf_get buf i)
        = (if unat i < 2 then Some (lastn 2 (map stored ?xs) ! unat i) else None)"
    using message_buf_history [of empty_heap 2 ?xs]
    by (auto simp: ring_cap_ok_def record_ok_def sample_record_def Let_def)
  show ?thesis using r(1) r(2) [of 0] r(2) [of 2] by (auto simp: lastn_def)
qed

end
