(* ===== verification/Connection_Log.thy ===== *)
theory Connection_Log
  imports Ring Util
begin

text \<open>
  \<open>src/src/model/connection_log.c\<close>: the log ring shared by the UI and the I/O thread. Every
  operation runs under the log's mutex, so each is one atomic step of the state below and an
  interleaving of several threads is a sequence of such steps. The clock reading is an argument.
\<close>

datatype log_level = CONN_LOG_INFO | CONN_LOG_WARN | CONN_LOG_ERROR

record log_entry =
  le_timestamp_us :: u64
  le_level :: log_level
  le_message :: string

record connection_log =
  cl_entries :: "log_entry list"
  cl_capacity :: u32
  cl_head :: u32
  cl_count :: u32
  cl_generation :: u64

abbreviation log_message_cap :: nat where
  "log_message_cap \<equiv> 256"

definition zero_entry :: log_entry where
  "zero_entry = \<lparr>le_timestamp_us = 0, le_level = CONN_LOG_INFO, le_message = ''''\<rparr>"

subsection \<open>Operations\<close>

definition connection_log_init :: "u32 \<Rightarrow> connection_log" where
  "connection_log_init capacity =
     \<lparr>cl_entries = replicate (unat capacity) zero_entry, cl_capacity = capacity,
      cl_head = 0, cl_count = 0, cl_generation = 0\<rparr>"

definition connection_log_destroy :: "connection_log \<Rightarrow> connection_log" where
  "connection_log_destroy log = log\<lparr>cl_entries := [], cl_count := 0\<rparr>"

text \<open>\<open>None\<close> is a division by a zero capacity or a write outside the array.\<close>

definition connection_log_add ::
    "u64 \<times> log_level \<times> string option \<Rightarrow> connection_log \<Rightarrow> connection_log option" where
  "connection_log_add arg log =
     (let (now, level, message) = arg in
      if cl_capacity log = 0 then None
      else
        let idx = (cl_head log + cl_count log) mod cl_capacity log;
            log1 = (if cl_count log = cl_capacity log
                    then log\<lparr>cl_head := (cl_head log + 1) mod cl_capacity log\<rparr>
                    else log\<lparr>cl_count := cl_count log + 1\<rparr>);
            log2 = log1\<lparr>cl_generation := cl_generation log1 + 1\<rparr>
        in if length (cl_entries log2) \<le> unat idx then None
           else
             let e = cl_entries log2 ! unat idx;
                 e' = e\<lparr>le_timestamp_us := now, le_level := level,
                        le_message := util_str_copy (le_message e) log_message_cap message\<rparr>
             in Some (log2\<lparr>cl_entries := (cl_entries log2)[unat idx := e']\<rparr>))"

definition connection_log_get :: "connection_log \<Rightarrow> u32 \<Rightarrow> log_entry option" where
  "connection_log_get log index =
     (if index \<ge> cl_count log then None
      else Some (cl_entries log ! unat ((cl_head log + index) mod cl_capacity log)))"

definition connection_log_generation :: "connection_log \<Rightarrow> u64" where
  "connection_log_generation log = cl_generation log"

definition connection_log_count :: "connection_log \<Rightarrow> u32" where
  "connection_log_count log = cl_count log"

definition connection_log_clear :: "connection_log \<Rightarrow> connection_log" where
  "connection_log_clear log =
     log\<lparr>cl_generation := cl_generation log + 1, cl_head := 0, cl_count := 0\<rparr>"

subsection \<open>The ring\<close>

definition cl_wf :: "connection_log \<Rightarrow> bool" where
  "cl_wf log \<longleftrightarrow> ring_cap_ok (cl_capacity log) \<and> length (cl_entries log) = unat (cl_capacity log)
     \<and> unat (cl_head log) < unat (cl_capacity log) \<and> unat (cl_count log) \<le> unat (cl_capacity log)"

definition cl_items :: "connection_log \<Rightarrow> log_entry list" where
  "cl_items log = window (cl_entries log) (unat (cl_head log)) (unat (cl_count log))"

definition cl_cap :: "connection_log \<Rightarrow> nat" where
  "cl_cap log = unat (cl_capacity log)"

definition entry_of :: "u64 \<times> log_level \<times> string option \<Rightarrow> log_entry" where
  "entry_of arg = (case arg of (now, level, message) \<Rightarrow>
     \<lparr>le_timestamp_us = now, le_level = level, le_message = util_str_copy '''' log_message_cap message\<rparr>)"

lemma length_cl_items [simp]: "length (cl_items log) = unat (cl_count log)"
  by (simp add: cl_items_def)

lemma cl_slot:
  assumes "cl_wf log" "unat i \<le> unat (cl_capacity log)"
  shows "unat ((cl_head log + i) mod cl_capacity log)
      = (unat (cl_head log) + unat i) mod length (cl_entries log)"
    and "unat ((cl_head log + i) mod cl_capacity log) < length (cl_entries log)"
  using assms ring_idx_nat [of "cl_capacity log" "cl_head log" i]
    ring_idx_less [of "cl_capacity log" "cl_head log" i]
  by (simp_all add: cl_wf_def)

lemma str_copy_dst: "0 < cap \<Longrightarrow> util_str_copy d cap m = util_str_copy '''' cap m"
  by (simp add: util_str_copy_def)

lemma add_contract:
  assumes "cl_wf log"
  shows "\<exists>log'. connection_log_add x log = Some log' \<and> cl_wf log' \<and> cl_cap log' = cl_cap log
     \<and> cl_items log' = lastn (cl_cap log) (cl_items log @ [entry_of x])
     \<and> connection_log_generation log' = connection_log_generation log + 1"
proof -
  obtain now level message where x: "x = (now, level, message)" by (cases x)
  let ?cap = "cl_capacity log" and ?n = "cl_count log"
  let ?idx = "(cl_head log + ?n) mod ?cap"
  have cap: "?cap \<noteq> 0" "0 < unat ?cap" using assms by (auto simp: cl_wf_def ring_cap_ok_def)
  have idx: "unat ?idx < length (cl_entries log)" using cl_slot(2) [OF assms] assms by (simp add: cl_wf_def)
  note slot = cl_slot(1) [OF assms, of ?n]
  have e: "(cl_entries log ! unat ?idx)\<lparr>le_timestamp_us := now, le_level := level,
      le_message := util_str_copy (le_message (cl_entries log ! unat ?idx)) log_message_cap message\<rparr>
      = entry_of x"
    by (simp add: entry_of_def x str_copy_dst [of log_message_cap "le_message (cl_entries log ! unat ?idx)"])
  show ?thesis
  proof (cases "?n = ?cap")
    case False
    have less: "unat ?n < unat ?cap" using False assms by (auto simp: cl_wf_def word_eq_unat)
    then have inc: "unat (?n + 1) = unat ?n + 1" by (simp add: unat_inc_less [of _ ?cap] word_less_unat)
    let ?log = "log\<lparr>cl_count := ?n + 1, cl_generation := cl_generation log + 1,
      cl_entries := (cl_entries log)[unat ?idx := entry_of x]\<rparr>"
    have "connection_log_add x log = Some ?log"
      using False cap idx e by (simp add: connection_log_add_def x Let_def not_le)
    moreover have "cl_wf ?log" using assms inc less by (simp add: cl_wf_def)
    moreover have "cl_items ?log = cl_items log @ [entry_of x]"
      using less slot assms window_push [of "unat ?n" "cl_entries log" "unat (cl_head log)" "entry_of x"]
      by (simp add: cl_items_def inc cl_wf_def)
    ultimately show ?thesis
      using less by (intro exI [of _ ?log]) (simp add: cl_cap_def connection_log_generation_def)
  next
    case True
    let ?log = "log\<lparr>cl_head := (cl_head log + 1) mod ?cap, cl_generation := cl_generation log + 1,
      cl_entries := (cl_entries log)[unat ?idx := entry_of x]\<rparr>"
    have one: "unat ((cl_head log + 1) mod ?cap) = (unat (cl_head log) + 1) mod length (cl_entries log)"
      using cl_slot(1) [OF assms, of 1] cap by simp
    have "connection_log_add x log = Some ?log"
      using True cap idx e by (simp add: connection_log_add_def x Let_def not_le)
    moreover have "cl_wf ?log"
      using assms ring_idx_less [of ?cap "cl_head log" 1] by (simp add: cl_wf_def)
    moreover have "cl_items ?log = tl (cl_items log) @ [entry_of x]"
      using True slot one assms cap window_evict [of "cl_entries log" "unat (cl_head log)" "entry_of x"]
      by (simp add: cl_items_def cl_wf_def)
    moreover have "cl_items log \<noteq> []" "length (cl_items log) = cl_cap log"
      using True cap by (metis length_cl_items length_greater_0_conv, simp add: cl_cap_def)
    ultimately show ?thesis
      using lastn_evict [of "cl_items log" "entry_of x"]
      by (intro exI [of _ ?log]) (simp add: cl_cap_def connection_log_generation_def)
  qed
qed

interpretation cl: evicting_log cl_wf cl_cap cl_items "\<lambda>_. True" entry_of connection_log_add
    connection_log_generation
  by unfold_locales (use add_contract in \<open>auto simp: cl_wf_def cl_cap_def\<close>)

lemma cl_get_contract:
  assumes "cl_wf log"
  shows "connection_log_get log i = (if unat i < length (cl_items log) then Some (cl_items log ! unat i) else None)"
  using assms cl_slot(1) [OF assms, of i]
  by (auto simp: connection_log_get_def word_le_unat cl_items_def nth_window cl_wf_def)

lemma cl_init_wf:
  assumes "ring_cap_ok capacity"
  shows "cl_wf (connection_log_init capacity)" "cl_items (connection_log_init capacity) = []"
  using assms by (simp_all add: cl_wf_def connection_log_init_def ring_cap_ok_def cl_items_def)

lemma cl_clear_wf:
  assumes "cl_wf log"
  shows "cl_wf (connection_log_clear log)" "cl_items (connection_log_clear log) = []"
    and "connection_log_generation (connection_log_clear log) = connection_log_generation log + 1"
  using assms
  by (simp_all add: cl_wf_def connection_log_clear_def cl_items_def ring_cap_ok_def connection_log_generation_def)

lemma entry_message_short: "length (le_message (entry_of x)) < log_message_cap"
  by (cases x) (simp add: entry_of_def length_util_str_copy)

subsection \<open>Properties\<close>

text \<open>
  The connection log: any sequence of additions to a well-formed log succeeds, the log then
  shows exactly the last \<open>capacity\<close> entries in order, each message cut to 255 characters,
  and the generation has moved (the rows the panel cached are recognised as stale).
\<close>

theorem connection_log_history:
  assumes "cl_wf log" "xs \<noteq> []" "length xs < 2 ^ 64"
  shows "\<exists>log'. option_fold connection_log_add xs log = Some log' \<and> cl_wf log'
     \<and> connection_log_generation log' \<noteq> connection_log_generation log
     \<and> (let recent = lastn (cl_cap log) (cl_items log @ map entry_of xs) in
          unat (connection_log_count log') = length recent
        \<and> (\<forall>i. connection_log_get log' i = (if unat i < length recent then Some (recent ! unat i) else None)))"
proof -
  obtain log' where l: "option_fold connection_log_add xs log = Some log'" "cl_wf log'"
      "cl_items log' = lastn (cl_cap log) (cl_items log @ map entry_of xs)"
    using cl.fold_items [OF assms(1), of xs] by auto
  have "connection_log_generation log' \<noteq> connection_log_generation log"
    using cl.gen_moves [OF assms(1) _ l(1) assms(2,3)] by simp
  then show ?thesis
    unfolding Let_def l(3) [symmetric]
    using l(1,2) cl_get_contract [OF l(2)] by (simp add: connection_log_count_def)
qed

theorem connection_log_history_witness:
  "\<exists>log'. option_fold connection_log_add
      [(1, CONN_LOG_INFO, Some ''Connecting''), (2, CONN_LOG_ERROR, None), (3, CONN_LOG_WARN, Some ''x'')]
      (connection_log_init 2) = Some log'
     \<and> connection_log_get log' 1 = Some \<lparr>le_timestamp_us = 3, le_level = CONN_LOG_WARN, le_message = ''x''\<rparr>
     \<and> connection_log_get log' 2 = None"
proof -
  let ?xs = "[(1, CONN_LOG_INFO, Some ''Connecting''), (2, CONN_LOG_ERROR, None), (3, CONN_LOG_WARN, Some ''x'')]"
  have wf: "cl_wf (connection_log_init 2)" "cl_items (connection_log_init 2) = []"
    by (rule cl_init_wf; simp add: ring_cap_ok_def)+
  have cap: "cl_cap (connection_log_init 2) = 2" by (simp add: cl_cap_def connection_log_init_def)
  obtain log' where l: "option_fold connection_log_add ?xs (connection_log_init 2) = Some log'"
      "\<And>i. connection_log_get log' i = (if unat i < 2 then Some (lastn 2 (map entry_of ?xs) ! unat i) else None)"
    using connection_log_history [OF wf(1), of ?xs] cap
    by (auto simp: wf(2) Let_def)
  show ?thesis using l(1) l(2) [of 1] l(2) [of 2] by (auto simp: lastn_def entry_of_def)
qed
end
