(* ===== verification/Spsc_Queue.thy ===== *)
theory Spsc_Queue
  imports Ring
begin

text \<open>
  \<open>src/src/model/spsc_queue.c\<close>: the single-producer single-consumer ring between the I/O
  thread and the UI. The element type is a parameter (the C code copies \<open>elem_size\<close> bytes),
  slots that were never written, or that are in the middle of a \<open>memcpy\<close>, hold
  \<open>None\<close>. First the operations as sequential functions and their refinement of a bounded
  FIFO, then both threads as a step relation whose steps are the single loads, copies and stores.
\<close>

record 'a spsc_queue =
  sq_buffer :: "'a option list"
  sq_capacity :: u32
  sq_head :: u32
  sq_tail :: u32

subsection \<open>Operations\<close>

definition spsc_queue_init :: "u32 \<Rightarrow> 'a spsc_queue" where
  "spsc_queue_init capacity =
     \<lparr>sq_buffer = replicate (unat capacity + 1) None, sq_capacity = capacity, sq_head = 0, sq_tail = 0\<rparr>"

definition spsc_queue_destroy :: "'a spsc_queue \<Rightarrow> 'a spsc_queue" where
  "spsc_queue_destroy q = q\<lparr>sq_buffer := []\<rparr>"

text \<open>
  The outer \<open>None\<close> is undefined behaviour: the modulus \<open>capacity + 1\<close> is 0 when the
  capacity is \<open>UINT32_MAX\<close>, or the index is outside of the buffer.
\<close>

definition spsc_next :: "'a spsc_queue \<Rightarrow> u32 \<Rightarrow> u32" where
  "spsc_next q i = (i + 1) mod (sq_capacity q + 1)"

definition spsc_queue_push :: "'a \<Rightarrow> 'a spsc_queue \<Rightarrow> (bool \<times> 'a spsc_queue) option" where
  "spsc_queue_push elem q =
     (let tail = sq_tail q; head = sq_head q in
      if sq_capacity q + 1 = 0 then None
      else
        let next_tail = spsc_next q tail in
        if next_tail = head then Some (False, q)
        else if length (sq_buffer q) \<le> unat tail then None
        else Some (True, q\<lparr>sq_buffer := (sq_buffer q)[unat tail := Some elem], sq_tail := next_tail\<rparr>))"

definition spsc_queue_pop :: "'a spsc_queue \<Rightarrow> ('a option \<times> 'a spsc_queue) option" where
  "spsc_queue_pop q =
     (let head = sq_head q; tail = sq_tail q in
      if head = tail then Some (None, q)
      else if length (sq_buffer q) \<le> unat head then None
      else
        (case sq_buffer q ! unat head of
           None \<Rightarrow> None
         | Some elem \<Rightarrow>
             if sq_capacity q + 1 = 0 then None
             else Some (Some elem, q\<lparr>sq_head := spsc_next q head\<rparr>)))"

text \<open>\<open>out\<close> is the caller's buffer filled so far; its length is the C variable \<open>count\<close>.\<close>

function spsc_drain_loop ::
    "nat \<Rightarrow> 'a list \<Rightarrow> 'a spsc_queue \<Rightarrow> ('a list \<times> 'a spsc_queue) option" where
  "spsc_drain_loop max_count out q =
     (if length out < max_count then
        (case spsc_queue_pop q of
           None \<Rightarrow> None
         | Some (None, q') \<Rightarrow> Some (out, q')
         | Some (Some elem, q') \<Rightarrow> spsc_drain_loop max_count (out @ [elem]) q')
      else Some (out, q))"
  by pat_completeness auto
termination
  by (relation "measure (\<lambda>(max_count, out, q). max_count - length out)") auto

declare spsc_drain_loop.simps [simp del]

definition spsc_queue_drain :: "u32 \<Rightarrow> 'a spsc_queue \<Rightarrow> ('a list \<times> 'a spsc_queue) option" where
  "spsc_queue_drain max_count q = spsc_drain_loop (unat max_count) [] q"

definition spsc_queue_count :: "'a spsc_queue \<Rightarrow> u32" where
  "spsc_queue_count q =
     (let head = sq_head q; tail = sq_tail q in
      if tail \<ge> head then tail - head else (sq_capacity q + 1) - head + tail)"

definition spsc_queue_empty :: "'a spsc_queue \<Rightarrow> bool" where
  "spsc_queue_empty q \<longleftrightarrow> spsc_queue_count q = 0"

subsection \<open>The ring of \<open>capacity + 1\<close> slots\<close>

text \<open>One slot stays free; capacities up to \<open>2 ^ 31 - 1\<close> keep every sum below \<open>2 ^ 32\<close>.\<close>

definition spsc_cap_ok :: "u32 \<Rightarrow> bool" where
  "spsc_cap_ok c \<longleftrightarrow> unat c < 2 ^ 31"

definition slots :: "'a spsc_queue \<Rightarrow> nat" where
  "slots q = unat (sq_capacity q) + 1"

lemma slots_pos [simp]: "0 < slots q"
  by (simp add: slots_def)

lemma slots_update [simp]:
  "slots (q\<lparr>sq_buffer := b\<rparr>) = slots q" "slots (q\<lparr>sq_head := i\<rparr>) = slots q"
  "slots (q\<lparr>sq_tail := i\<rparr>) = slots q"
  by (simp_all add: slots_def)

definition spsc_used :: "'a spsc_queue \<Rightarrow> nat" where
  "spsc_used q = (unat (sq_tail q) + slots q - unat (sq_head q)) mod slots q"

definition spsc_geometry :: "'a spsc_queue \<Rightarrow> bool" where
  "spsc_geometry q \<longleftrightarrow> spsc_cap_ok (sq_capacity q) \<and> length (sq_buffer q) = slots q
     \<and> unat (sq_head q) < slots q \<and> unat (sq_tail q) < slots q"

lemma unat_capacity_inc: "spsc_cap_ok c \<Longrightarrow> unat (c + 1) = unat c + 1"
  by (rule unat_inc_small) (simp add: spsc_cap_ok_def)

lemma capacity_inc_nonzero: "spsc_cap_ok c \<Longrightarrow> c + 1 \<noteq> 0"
  using unat_capacity_inc [of c] by (metis add_gr_0 unat_0 less_numeral_extra(1) less_irrefl)

lemma spsc_next_nat:
  assumes "spsc_cap_ok (sq_capacity q)" "unat i < slots q"
  shows "unat (spsc_next q i) = (unat i + 1) mod slots q" "unat (spsc_next q i) < slots q"
proof -
  have "unat i + 1 < 2 ^ 32" using assms by (simp add: spsc_cap_ok_def slots_def)
  then have "unat (i + 1) = unat i + 1" by (intro unat_inc_small) simp
  then show "unat (spsc_next q i) = (unat i + 1) mod slots q"
    by (simp add: spsc_next_def unat_mod_eq unat_capacity_inc [OF assms(1)] slots_def)
  then show "unat (spsc_next q i) < slots q" by simp
qed

lemma tail_of_used:
  assumes "spsc_geometry q"
  shows "unat (sq_tail q) = (unat (sq_head q) + spsc_used q) mod slots q" "spsc_used q < slots q"
proof -
  let ?N = "slots q"
  have h: "unat (sq_head q) < ?N" "unat (sq_tail q) < ?N" using assms by (simp_all add: spsc_geometry_def)
  have "(unat (sq_head q) + spsc_used q) mod ?N
      = (unat (sq_head q) + (unat (sq_tail q) + ?N - unat (sq_head q))) mod ?N"
    by (simp add: spsc_used_def mod_add_right_eq)
  also have "\<dots> = (unat (sq_tail q) + ?N) mod ?N" using h by simp
  finally show "unat (sq_tail q) = (unat (sq_head q) + spsc_used q) mod ?N" using h by simp
  show "spsc_used q < ?N" by (simp add: spsc_used_def)
qed

lemma used_unique:
  assumes "unat (sq_head q) < slots q" "n < slots q"
    and "unat (sq_tail q) = (unat (sq_head q) + n) mod slots q"
  shows "spsc_used q = n"
proof (cases "unat (sq_head q) + n < slots q")
  case True
  then show ?thesis using assms by (simp add: spsc_used_def)
next
  case False
  then have "unat (sq_tail q) = unat (sq_head q) + n - slots q"
    using assms by (simp add: mod_if [of "unat (sq_head q) + n"])
  then show ?thesis using False assms by (simp add: spsc_used_def)
qed

lemma full_iff:
  assumes "spsc_geometry q"
  shows "spsc_next q (sq_tail q) = sq_head q \<longleftrightarrow> spsc_used q = unat (sq_capacity q)"
proof -
  let ?N = "slots q" and ?h = "unat (sq_head q)"
  have ok: "spsc_cap_ok (sq_capacity q)" "unat (sq_tail q) < ?N" "?h < ?N"
    using assms by (simp_all add: spsc_geometry_def)
  have nt: "unat (spsc_next q (sq_tail q)) = (?h + (spsc_used q + 1)) mod ?N"
    using spsc_next_nat(1) [OF ok(1,2)] tail_of_used(1) [OF assms] by (simp add: mod_Suc_eq)
  show ?thesis
  proof (cases "spsc_used q = unat (sq_capacity q)")
    case True
    then have "unat (spsc_next q (sq_tail q)) = (?h + ?N) mod ?N" using nt by (simp add: slots_def)
    then have "unat (spsc_next q (sq_tail q)) = ?h" using ok(3) by simp
    with True show ?thesis by (simp add: word_eq_unat)
  next
    case False
    then have less: "spsc_used q + 1 < ?N" using tail_of_used(2) [OF assms] by (simp add: slots_def)
    have "(?h + (spsc_used q + 1)) mod ?N \<noteq> (?h + 0) mod ?N"
      using mod_offset_inj [of "spsc_used q + 1" ?N 0 ?h] less by auto
    then show ?thesis using nt ok(3) False by (simp add: word_eq_unat)
  qed
qed

lemma empty_iff:
  assumes "spsc_geometry q"
  shows "sq_head q = sq_tail q \<longleftrightarrow> spsc_used q = 0"
proof
  assume "sq_head q = sq_tail q"
  then show "spsc_used q = 0" by (simp add: spsc_used_def)
next
  assume "spsc_used q = 0"
  then show "sq_head q = sq_tail q"
    using tail_of_used(1) [OF assms] assms by (simp add: word_eq_unat spsc_geometry_def)
qed

lemma used_push:
  assumes "spsc_geometry q" "spsc_used q < unat (sq_capacity q)"
  shows "spsc_used (q\<lparr>sq_buffer := b, sq_tail := spsc_next q (sq_tail q)\<rparr>) = spsc_used q + 1"
proof (rule used_unique)
  have ok: "spsc_cap_ok (sq_capacity q)" "unat (sq_tail q) < slots q"
    using assms by (simp_all add: spsc_geometry_def)
  show "unat (sq_tail (q\<lparr>sq_buffer := b, sq_tail := spsc_next q (sq_tail q)\<rparr>))
      = (unat (sq_head (q\<lparr>sq_buffer := b, sq_tail := spsc_next q (sq_tail q)\<rparr>)) + (spsc_used q + 1))
        mod slots (q\<lparr>sq_buffer := b, sq_tail := spsc_next q (sq_tail q)\<rparr>)"
    using spsc_next_nat(1) [OF ok] tail_of_used(1) [OF assms(1)] by (simp add: mod_Suc_eq)
qed (use assms in \<open>simp_all add: spsc_geometry_def slots_def\<close>)

lemma used_pop:
  assumes "spsc_geometry q" "0 < spsc_used q"
  shows "spsc_used (q\<lparr>sq_head := spsc_next q (sq_head q)\<rparr>) = spsc_used q - 1"
proof (rule used_unique)
  have ok: "spsc_cap_ok (sq_capacity q)" "unat (sq_head q) < slots q"
    using assms by (simp_all add: spsc_geometry_def)
  note n = spsc_next_nat [OF ok]
  show "unat (sq_head (q\<lparr>sq_head := spsc_next q (sq_head q)\<rparr>)) < slots (q\<lparr>sq_head := spsc_next q (sq_head q)\<rparr>)"
    using n(2) by simp
  show "spsc_used q - 1 < slots (q\<lparr>sq_head := spsc_next q (sq_head q)\<rparr>)"
    using tail_of_used(2) [OF assms(1)] by simp
  show "unat (sq_tail (q\<lparr>sq_head := spsc_next q (sq_head q)\<rparr>))
      = (unat (sq_head (q\<lparr>sq_head := spsc_next q (sq_head q)\<rparr>)) + (spsc_used q - 1))
        mod slots (q\<lparr>sq_head := spsc_next q (sq_head q)\<rparr>)"
    using n(1) tail_of_used(1) [OF assms(1)] assms(2)
    by (cases "spsc_used q") (simp_all add: mod_add_left_eq)
qed
subsection \<open>The queue as a bounded FIFO\<close>

definition sq_window :: "'a spsc_queue \<Rightarrow> 'a option list" where
  "sq_window q = window (sq_buffer q) (unat (sq_head q)) (spsc_used q)"

definition sq_wf :: "'a spsc_queue \<Rightarrow> bool" where
  "sq_wf q \<longleftrightarrow> spsc_geometry q \<and> None \<notin> set (sq_window q)"

definition sq_items :: "'a spsc_queue \<Rightarrow> 'a list" where
  "sq_items q = map the (sq_window q)"

definition sq_bound :: "'a spsc_queue \<Rightarrow> nat" where
  "sq_bound q = unat (sq_capacity q)"

lemma length_sq_window [simp]: "length (sq_window q) = spsc_used q"
  by (simp add: sq_window_def)

lemma sq_window_items:
  assumes "sq_wf q"
  shows "sq_window q = map Some (sq_items q)"
proof -
  have "Some (the x) = x" if "x \<in> set (sq_window q)" for x
    using assms that by (cases x) (auto simp: sq_wf_def)
  then have "map (Some \<circ> the) (sq_window q) = sq_window q" by (intro map_idI) simp
  then show ?thesis by (simp add: sq_items_def)
qed

lemma geometry_push:
  assumes "spsc_geometry q"
  shows "spsc_geometry (q\<lparr>sq_buffer := (sq_buffer q)[unat i := x], sq_tail := spsc_next q (sq_tail q)\<rparr>)"
  using assms spsc_next_nat(2) [of q "sq_tail q"] by (simp add: spsc_geometry_def)

lemma geometry_pop:
  assumes "spsc_geometry q"
  shows "spsc_geometry (q\<lparr>sq_head := spsc_next q (sq_head q)\<rparr>)"
  using assms spsc_next_nat(2) [of q "sq_head q"] by (simp add: spsc_geometry_def)

lemma window_after_push:
  assumes "spsc_geometry q" "spsc_used q < unat (sq_capacity q)"
  shows "sq_window (q\<lparr>sq_buffer := (sq_buffer q)[unat (sq_tail q) := x], sq_tail := spsc_next q (sq_tail q)\<rparr>)
     = sq_window q @ [x]"
proof -
  have "spsc_used q < length (sq_buffer q)" "length (sq_buffer q) = slots q"
    using assms by (simp_all add: spsc_geometry_def slots_def)
  then show ?thesis
    using used_push [OF assms] tail_of_used(1) [OF assms(1)]
      window_push [of "spsc_used q" "sq_buffer q" "unat (sq_head q)" x]
    by (simp add: sq_window_def)
qed

lemma window_after_pop:
  assumes "spsc_geometry q" "0 < spsc_used q"
  shows "sq_window (q\<lparr>sq_head := spsc_next q (sq_head q)\<rparr>) = tl (sq_window q)"
    and "sq_buffer q ! unat (sq_head q) = hd (sq_window q)"
proof -
  have len: "length (sq_buffer q) = slots q" using assms by (simp add: spsc_geometry_def)
  have ok: "spsc_cap_ok (sq_capacity q)" "unat (sq_head q) < slots q"
    using assms by (simp_all add: spsc_geometry_def)
  show "sq_window (q\<lparr>sq_head := spsc_next q (sq_head q)\<rparr>) = tl (sq_window q)"
    using used_pop [OF assms] spsc_next_nat(1) [OF ok] len
      window_rotate [OF assms(2), of "sq_buffer q" "unat (sq_head q)"]
    by (simp add: sq_window_def)
  have "hd (sq_window q) = sq_window q ! 0"
    using assms(2) by (metis hd_conv_nth length_sq_window less_irrefl list.size(3))
  then show "sq_buffer q ! unat (sq_head q) = hd (sq_window q)"
    using assms(2) ok len by (simp add: sq_window_def nth_window)
qed

lemma push_fifo:
  assumes "sq_wf q"
  shows "\<exists>b q'. spsc_queue_push x q = Some (b, q') \<and> sq_wf q' \<and> sq_bound q' = sq_bound q
     \<and> b = (length (sq_items q) < sq_bound q) \<and> sq_items q' = (if b then sq_items q @ [x] else sq_items q)"
proof -
  have g: "spsc_geometry q" "None \<notin> set (sq_window q)" using assms by (simp_all add: sq_wf_def)
  have c: "sq_capacity q + 1 \<noteq> 0" using g(1) capacity_inc_nonzero by (auto simp: spsc_geometry_def)
  have len: "length (sq_items q) = spsc_used q" by (simp add: sq_items_def)
  have le: "spsc_used q \<le> unat (sq_capacity q)" using tail_of_used(2) [OF g(1)] by (simp add: slots_def)
  show ?thesis
  proof (cases "spsc_used q = unat (sq_capacity q)")
    case True
    then have "spsc_queue_push x q = Some (False, q)"
      using full_iff [OF g(1)] c by (simp add: spsc_queue_push_def)
    then show ?thesis using assms True len by (intro exI [of _ False] exI [of _ q]) (simp add: sq_bound_def)
  next
    case False
    let ?q = "q\<lparr>sq_buffer := (sq_buffer q)[unat (sq_tail q) := Some x], sq_tail := spsc_next q (sq_tail q)\<rparr>"
    have tl: "\<not> length (sq_buffer q) \<le> unat (sq_tail q)" using g(1) by (simp add: spsc_geometry_def)
    have "spsc_queue_push x q = Some (True, ?q)"
      using False full_iff [OF g(1)] c tl by (simp add: spsc_queue_push_def Let_def)
    moreover have w: "sq_window ?q = sq_window q @ [Some x]"
      using window_after_push [OF g(1)] False le by simp
    moreover have "sq_wf ?q" using geometry_push [OF g(1)] g(2) w by (simp add: sq_wf_def)
    ultimately show ?thesis
      using False le len by (intro exI [of _ True] exI [of _ ?q]) (simp add: sq_bound_def sq_items_def)
  qed
qed

lemma pop_fifo:
  assumes "sq_wf q"
  shows "\<exists>q'. spsc_queue_pop q = Some (if sq_items q = [] then None else Some (hd (sq_items q)), q')
     \<and> sq_wf q' \<and> sq_bound q' = sq_bound q \<and> sq_items q' = tl (sq_items q)"
proof (cases "spsc_used q = 0")
  case True
  have "sq_items q = []" using True by (simp add: sq_items_def flip: length_0_conv)
  moreover have "spsc_queue_pop q = Some (None, q)"
    using True empty_iff [of q] assms by (simp add: spsc_queue_pop_def sq_wf_def)
  ultimately show ?thesis using assms by simp
next
  case False
  have g: "spsc_geometry q" "None \<notin> set (sq_window q)" using assms by (simp_all add: sq_wf_def)
  have c: "sq_capacity q + 1 \<noteq> 0" using g(1) capacity_inc_nonzero by (auto simp: spsc_geometry_def)
  let ?q = "q\<lparr>sq_head := spsc_next q (sq_head q)\<rparr>"
  obtain x ws where w: "sq_window q = x # ws" using False by (cases "sq_window q") (auto dest: arg_cong [of _ _ length])
  then obtain v where v: "x = Some v" using g(2) by (cases x) auto
  note p = window_after_pop [OF g(1)]
  have hd: "sq_buffer q ! unat (sq_head q) = Some v" using p(2) False w v by simp
  have inb: "\<not> length (sq_buffer q) \<le> unat (sq_head q)" using g(1) by (simp add: spsc_geometry_def)
  have "spsc_queue_pop q = Some (Some v, ?q)"
    using False empty_iff [OF g(1)] c hd inb by (simp add: spsc_queue_pop_def Let_def)
  moreover have w': "sq_window ?q = ws" using p(1) False w by simp
  moreover have "sq_wf ?q" using geometry_pop [OF g(1)] g(2) w w' by (simp add: sq_wf_def)
  ultimately show ?thesis using w v by (simp add: sq_items_def sq_bound_def)
qed

lemma init_fifo:
  assumes "spsc_cap_ok c"
  shows "sq_wf (spsc_queue_init c :: 'a spsc_queue)" "sq_items (spsc_queue_init c :: 'a spsc_queue) = []"
    and "sq_bound (spsc_queue_init c :: 'a spsc_queue) = unat c"
proof -
  have u: "spsc_used (spsc_queue_init c :: 'a spsc_queue) = 0"
    by (simp add: spsc_used_def spsc_queue_init_def)
  then have w: "sq_window (spsc_queue_init c :: 'a spsc_queue) = []" by (simp add: sq_window_def)
  show "sq_wf (spsc_queue_init c :: 'a spsc_queue)"
    using assms w by (simp add: sq_wf_def spsc_geometry_def spsc_queue_init_def slots_def)
  show "sq_items (spsc_queue_init c :: 'a spsc_queue) = []" using w by (simp add: sq_items_def)
  show "sq_bound (spsc_queue_init c :: 'a spsc_queue) = unat c" by (simp add: sq_bound_def spsc_queue_init_def)
qed

text \<open>The interface its clients use.\<close>

datatype 'a fifo_op = Enq 'a | Deq

fun fifo_run :: "('a \<Rightarrow> 's \<Rightarrow> (bool \<times> 's) option) \<Rightarrow> ('s \<Rightarrow> ('a option \<times> 's) option) \<Rightarrow>
    'a fifo_op list \<Rightarrow> 's \<Rightarrow> ('a list \<times> 'a list \<times> 's) option" where
  "fifo_run push pop [] s = Some ([], [], s)"
| "fifo_run push pop (Enq x # ops) s =
     (case push x s of
        None \<Rightarrow> None
      | Some (b, s') \<Rightarrow> map_option (\<lambda>(acc, del, s''). (if b then x # acc else acc, del, s''))
                        (fifo_run push pop ops s'))"
| "fifo_run push pop (Deq # ops) s =
     (case pop s of
        None \<Rightarrow> None
      | Some (r, s') \<Rightarrow> map_option (\<lambda>(acc, del, s''). (acc, (case r of None \<Rightarrow> del | Some x \<Rightarrow> x # del), s''))
                        (fifo_run push pop ops s'))"

locale bounded_fifo =
  fixes wf :: "'s \<Rightarrow> bool"
    and bound :: "'s \<Rightarrow> nat"
    and items :: "'s \<Rightarrow> 'a list"
    and push :: "'a \<Rightarrow> 's \<Rightarrow> (bool \<times> 's) option"
    and pop :: "'s \<Rightarrow> ('a option \<times> 's) option"
  assumes push_law: "wf s \<Longrightarrow> \<exists>b s'. push x s = Some (b, s') \<and> wf s' \<and> bound s' = bound s
      \<and> b = (length (items s) < bound s) \<and> items s' = (if b then items s @ [x] else items s)"
    and pop_law: "wf s \<Longrightarrow> \<exists>s'. pop s = Some (if items s = [] then None else Some (hd (items s)), s')
      \<and> wf s' \<and> bound s' = bound s \<and> items s' = tl (items s)"
begin

lemma run_order:
  "wf s \<Longrightarrow> \<exists>acc del s'. fifo_run push pop ops s = Some (acc, del, s') \<and> wf s' \<and> bound s' = bound s
     \<and> items s @ acc = del @ items s'"
proof (induction ops arbitrary: s)
  case (Cons op ops)
  show ?case
  proof (cases op)
    case (Enq x)
    obtain b s1 where s1: "push x s = Some (b, s1)" "wf s1" "bound s1 = bound s"
        "items s1 = (if b then items s @ [x] else items s)"
      using push_law [OF Cons.prems] by blast
    then show ?thesis using Cons.IH [OF s1(2)] Enq by (cases b) fastforce+
  next
    case Deq
    obtain s1 where s1: "pop s = Some (if items s = [] then None else Some (hd (items s)), s1)" "wf s1"
        "bound s1 = bound s" "items s1 = tl (items s)"
      using pop_law [OF Cons.prems] by blast
    then show ?thesis using Cons.IH [OF s1(2)] Deq by (cases "items s") fastforce+
  qed
qed simp

lemma all_fit:
  "wf s \<Longrightarrow> length (items s) + length xs \<le> bound s \<Longrightarrow>
    \<exists>s'. fifo_run push pop (map Enq xs) s = Some (xs, [], s') \<and> wf s' \<and> items s' = items s @ xs"
proof (induction xs arbitrary: s)
  case (Cons x xs)
  obtain b s1 where s1: "push x s = Some (b, s1)" "wf s1" "bound s1 = bound s"
      "b = (length (items s) < bound s)" "items s1 = (if b then items s @ [x] else items s)"
    using push_law [OF Cons.prems(1)] by blast
  then show ?case using Cons.IH [OF s1(2)] Cons.prems(2) by fastforce
qed simp

end

interpretation sq: bounded_fifo sq_wf sq_bound sq_items spsc_queue_push spsc_queue_pop
  by unfold_locales (rule push_fifo, assumption, rule pop_fifo)

subsection \<open>Drain and count\<close>

lemma drain_loop_run:
  "sq_wf q \<Longrightarrow> \<exists>q'. spsc_drain_loop n out q = Some (out @ take (n - length out) (sq_items q), q')
     \<and> sq_wf q' \<and> sq_items q' = drop (n - length out) (sq_items q) \<and> sq_bound q' = sq_bound q"
proof (induction n out q rule: spsc_drain_loop.induct)
  case (1 n out q)
  obtain q1 where q1: "spsc_queue_pop q = Some (if sq_items q = [] then None else Some (hd (sq_items q)), q1)"
      "sq_wf q1" "sq_bound q1 = sq_bound q" "sq_items q1 = tl (sq_items q)"
    using pop_fifo [OF "1.prems"] by blast
  show ?case
  proof (cases "length out < n")
    case False
    then show ?thesis using "1.prems" by (simp add: spsc_drain_loop.simps [of n out q])
  next
    case True
    show ?thesis
    proof (cases "sq_items q")
      case Nil
      then show ?thesis using True q1 by (simp add: spsc_drain_loop.simps [of n out q])
    next
      case (Cons x xs)
      have suc: "n - length out = Suc (n - Suc (length out))" using True by simp
      have "\<exists>q'. spsc_drain_loop n (out @ [x]) q1
          = Some ((out @ [x]) @ take (n - length (out @ [x])) (sq_items q1), q')
        \<and> sq_wf q' \<and> sq_items q' = drop (n - length (out @ [x])) (sq_items q1) \<and> sq_bound q' = sq_bound q1"
        by (rule "1.IH") (use True q1 Cons in simp_all)
      then show ?thesis using True q1 Cons suc
        by (simp add: spsc_drain_loop.simps [of n out q])
    qed
  qed
qed

lemma count_contract:
  assumes "sq_wf q"
  shows "unat (spsc_queue_count q) = length (sq_items q)"
proof -
  have g: "spsc_geometry q" using assms by (simp add: sq_wf_def)
  have b: "unat (sq_head q) < slots q" "unat (sq_tail q) < slots q" "spsc_cap_ok (sq_capacity q)"
    using g by (simp_all add: spsc_geometry_def)
  have len: "length (sq_items q) = spsc_used q" by (simp add: sq_items_def)
  show ?thesis
  proof (cases "sq_tail q \<ge> sq_head q")
    case True
    then have "unat (sq_tail q - sq_head q) = unat (sq_tail q) - unat (sq_head q)"
      by (rule unat_sub_le)
    moreover have "spsc_used q = unat (sq_tail q) - unat (sq_head q)"
      by (rule used_unique) (use True b in \<open>simp_all add: word_le_unat\<close>)
    ultimately show ?thesis using True len by (simp add: spsc_queue_count_def)
  next
    case False
    then have less: "unat (sq_tail q) < unat (sq_head q)" by (simp add: word_le_unat)
    have n1: "unat (sq_capacity q + 1) = slots q" using unat_capacity_inc [OF b(3)] by (simp add: slots_def)
    then have d: "unat (sq_capacity q + 1 - sq_head q) = slots q - unat (sq_head q)"
      using b(1) by (simp add: unat_sub_le word_le_unat)
    have "slots q - unat (sq_head q) + unat (sq_tail q) < 2 ^ 32"
      using b less by (simp add: slots_def spsc_cap_ok_def)
    then have "unat (sq_capacity q + 1 - sq_head q + sq_tail q) = slots q - unat (sq_head q) + unat (sq_tail q)"
      by (simp add: unat_add_small d)
    moreover have "spsc_used q = slots q - unat (sq_head q) + unat (sq_tail q)"
      using less b by (simp add: spsc_used_def)
    ultimately show ?thesis using False len by (simp add: spsc_queue_count_def)
  qed
qed

subsection \<open>The two threads\<close>

text \<open>
  One step per atomic load or store and two per \<open>memcpy\<close> (the slot is indeterminate in
  between). The producer is idle, has loaded \<open>tail\<close>, is copying into slot \<open>t\<close>, or
  has finished the copy; the consumer likewise with \<open>head\<close>. The ghost fields record what the
  pushes that returned true were given and what the pops delivered. The release stores and acquire
  loads of the two indices make this interleaving semantics the behaviour of the C11 atomics: each
  index has a single writer, and a load that returns an older value is one that was executed
  earlier.
\<close>

datatype 'a producer =
  P_Idle
| P_Loaded 'a u32
| P_Copy 'a u32 u32
| P_Publish 'a u32 u32

datatype 'a consumer =
  C_Idle
| C_Loaded u32
| C_Copy u32
| C_Publish u32 "'a option"

record 'a spsc_threads =
  th_queue :: "'a spsc_queue"
  th_producer :: "'a producer"
  th_consumer :: "'a consumer"
  th_pushed :: "'a list"
  th_popped :: "'a option list"

inductive spsc_step :: "'a spsc_threads \<Rightarrow> 'a spsc_threads \<Rightarrow> bool" where
  p_load: "th_producer s = P_Idle \<Longrightarrow>
    spsc_step s (s\<lparr>th_producer := P_Loaded x (sq_tail (th_queue s))\<rparr>)"
| p_full: "th_producer s = P_Loaded x t \<Longrightarrow> spsc_next (th_queue s) t = sq_head (th_queue s) \<Longrightarrow>
    spsc_step s (s\<lparr>th_producer := P_Idle\<rparr>)"
| p_begin: "th_producer s = P_Loaded x t \<Longrightarrow> spsc_next (th_queue s) t \<noteq> sq_head (th_queue s) \<Longrightarrow>
    spsc_step s (s\<lparr>th_producer := P_Copy x t (spsc_next (th_queue s) t),
      th_queue := (th_queue s)\<lparr>sq_buffer := (sq_buffer (th_queue s))[unat t := None]\<rparr>\<rparr>)"
| p_copied: "th_producer s = P_Copy x t n \<Longrightarrow>
    spsc_step s (s\<lparr>th_producer := P_Publish x t n,
      th_queue := (th_queue s)\<lparr>sq_buffer := (sq_buffer (th_queue s))[unat t := Some x]\<rparr>\<rparr>)"
| p_publish: "th_producer s = P_Publish x t n \<Longrightarrow>
    spsc_step s (s\<lparr>th_producer := P_Idle, th_queue := (th_queue s)\<lparr>sq_tail := n\<rparr>,
      th_pushed := th_pushed s @ [x]\<rparr>)"
| c_load: "th_consumer s = C_Idle \<Longrightarrow>
    spsc_step s (s\<lparr>th_consumer := C_Loaded (sq_head (th_queue s))\<rparr>)"
| c_empty: "th_consumer s = C_Loaded h \<Longrightarrow> h = sq_tail (th_queue s) \<Longrightarrow>
    spsc_step s (s\<lparr>th_consumer := C_Idle\<rparr>)"
| c_begin: "th_consumer s = C_Loaded h \<Longrightarrow> h \<noteq> sq_tail (th_queue s) \<Longrightarrow>
    spsc_step s (s\<lparr>th_consumer := C_Copy h\<rparr>)"
| c_copied: "th_consumer s = C_Copy h \<Longrightarrow>
    spsc_step s (s\<lparr>th_consumer := C_Publish h (sq_buffer (th_queue s) ! unat h)\<rparr>)"
| c_publish: "th_consumer s = C_Publish h v \<Longrightarrow>
    spsc_step s (s\<lparr>th_consumer := C_Idle,
      th_queue := (th_queue s)\<lparr>sq_head := spsc_next (th_queue s) h\<rparr>, th_popped := th_popped s @ [v]\<rparr>)"

inductive spsc_reach :: "u32 \<Rightarrow> 'a spsc_threads \<Rightarrow> bool" for c where
  start: "spsc_reach c \<lparr>th_queue = spsc_queue_init c, th_producer = P_Idle, th_consumer = C_Idle,
    th_pushed = [], th_popped = []\<rparr>"
| more: "spsc_reach c s \<Longrightarrow> spsc_step s s' \<Longrightarrow> spsc_reach c s'"

fun producer_ok :: "'a spsc_queue \<Rightarrow> 'a producer \<Rightarrow> bool" where
  "producer_ok q P_Idle = True"
| "producer_ok q (P_Loaded x t) = (t = sq_tail q)"
| "producer_ok q (P_Copy x t n) =
     (t = sq_tail q \<and> n = spsc_next q t \<and> spsc_used q < unat (sq_capacity q))"
| "producer_ok q (P_Publish x t n) =
     (t = sq_tail q \<and> n = spsc_next q t \<and> spsc_used q < unat (sq_capacity q)
      \<and> sq_buffer q ! unat t = Some x)"

fun consumer_ok :: "'a spsc_queue \<Rightarrow> 'a consumer \<Rightarrow> bool" where
  "consumer_ok q C_Idle = True"
| "consumer_ok q (C_Loaded h) = (h = sq_head q)"
| "consumer_ok q (C_Copy h) = (h = sq_head q \<and> 0 < spsc_used q)"
| "consumer_ok q (C_Publish h v) =
     (h = sq_head q \<and> 0 < spsc_used q \<and> v = sq_buffer q ! unat h)"

definition spsc_inv :: "u32 \<Rightarrow> 'a spsc_threads \<Rightarrow> bool" where
  "spsc_inv c s \<longleftrightarrow> sq_capacity (th_queue s) = c \<and> spsc_geometry (th_queue s)
     \<and> map Some (th_pushed s) = th_popped s @ sq_window (th_queue s)
     \<and> producer_ok (th_queue s) (th_producer s) \<and> consumer_ok (th_queue s) (th_consumer s)"

lemma used_buffer [simp]: "spsc_used (q\<lparr>sq_buffer := b\<rparr>) = spsc_used q"
  by (simp add: spsc_used_def)

lemma next_buffer [simp]: "spsc_next (q\<lparr>sq_buffer := b\<rparr>) i = spsc_next q i"
  "spsc_next (q\<lparr>sq_tail := t\<rparr>) i = spsc_next q i" "spsc_next (q\<lparr>sq_head := h\<rparr>) i = spsc_next q i"
  by (simp_all add: spsc_next_def)

lemma tail_slot_free:
  assumes "spsc_geometry q" "spsc_used q < unat (sq_capacity q)"
  shows "sq_window (q\<lparr>sq_buffer := (sq_buffer q)[unat (sq_tail q) := x]\<rparr>) = sq_window q"
    and "0 < spsc_used q \<Longrightarrow> unat (sq_tail q) \<noteq> unat (sq_head q)"
proof -
  have len: "spsc_used q < length (sq_buffer q)" "length (sq_buffer q) = slots q"
    using assms by (simp_all add: spsc_geometry_def slots_def)
  then show "sq_window (q\<lparr>sq_buffer := (sq_buffer q)[unat (sq_tail q) := x]\<rparr>) = sq_window q"
    using tail_of_used(1) [OF assms(1)]
      window_update_outside [of "spsc_used q" "spsc_used q" "sq_buffer q" "unat (sq_head q)" x]
    by (simp add: sq_window_def)
  assume "0 < spsc_used q"
  then show "unat (sq_tail q) \<noteq> unat (sq_head q)"
    using empty_iff [OF assms(1)] by (auto simp: word_eq_unat)
qed

lemma geometry_buffer:
  "spsc_geometry q \<Longrightarrow> spsc_geometry (q\<lparr>sq_buffer := (sq_buffer q)[i := x]\<rparr>)"
  by (simp add: spsc_geometry_def)

lemma consumer_buffer:
  assumes "spsc_geometry q" "spsc_used q < unat (sq_capacity q)" "consumer_ok q c"
  shows "consumer_ok (q\<lparr>sq_buffer := (sq_buffer q)[unat (sq_tail q) := x]\<rparr>) c"
  using assms tail_slot_free(2) [OF assms(1,2)] by (cases c) auto

lemma consumer_tail:
  assumes "spsc_geometry q" "spsc_used q < unat (sq_capacity q)" "consumer_ok q c"
  shows "consumer_ok (q\<lparr>sq_tail := spsc_next q (sq_tail q)\<rparr>) c"
  using assms(3) used_push [OF assms(1,2), of "sq_buffer q"] by (cases c) auto

lemma producer_head:
  assumes "spsc_geometry q" "0 < spsc_used q" "producer_ok q p"
  shows "producer_ok (q\<lparr>sq_head := spsc_next q (sq_head q)\<rparr>) p"
  using assms(3) used_pop [OF assms(1,2)] by (cases p) auto

lemma not_full:
  assumes "spsc_geometry q" "spsc_next q (sq_tail q) \<noteq> sq_head q"
  shows "spsc_used q < unat (sq_capacity q)"
  using full_iff [OF assms(1)] assms(2) tail_of_used(2) [OF assms(1)] by (simp add: slots_def)

lemma not_empty:
  assumes "spsc_geometry q" "sq_head q \<noteq> sq_tail q"
  shows "0 < spsc_used q"
  using empty_iff [OF assms(1)] assms(2) by simp

lemma publish_window:
  assumes "spsc_geometry q" "spsc_used q < unat (sq_capacity q)" "sq_buffer q ! unat (sq_tail q) = v"
  shows "sq_window (q\<lparr>sq_tail := spsc_next q (sq_tail q)\<rparr>) = sq_window q @ [v]"
    and "spsc_geometry (q\<lparr>sq_tail := spsc_next q (sq_tail q)\<rparr>)"
proof -
  have "(sq_buffer q)[unat (sq_tail q) := v] = sq_buffer q" using assms(3) by auto
  then show "sq_window (q\<lparr>sq_tail := spsc_next q (sq_tail q)\<rparr>) = sq_window q @ [v]"
    and "spsc_geometry (q\<lparr>sq_tail := spsc_next q (sq_tail q)\<rparr>)"
    using window_after_push [OF assms(1,2), of v] geometry_push [OF assms(1), of "sq_tail q" v] by simp_all
qed

lemma consume_window:
  assumes "spsc_geometry q" "0 < spsc_used q"
  shows "sq_buffer q ! unat (sq_head q) # sq_window (q\<lparr>sq_head := spsc_next q (sq_head q)\<rparr>) = sq_window q"
proof -
  have "sq_window q \<noteq> []" using assms(2) by (metis length_sq_window less_irrefl list.size(3))
  then show ?thesis using window_after_pop [OF assms] by simp
qed

lemma spsc_inv_step: "spsc_step s s' \<Longrightarrow> spsc_inv c s \<Longrightarrow> spsc_inv c s'"
proof (induction rule: spsc_step.induct)
  case (p_begin s x t)
  then show ?case
    by (auto simp: spsc_inv_def tail_slot_free geometry_buffer consumer_buffer not_full)
next
  case (p_copied s x t n)
  then show ?case
    by (auto simp: spsc_inv_def tail_slot_free geometry_buffer consumer_buffer) (simp add: spsc_geometry_def)
next
  case (p_publish s x t n)
  then show ?case
    by (auto simp: spsc_inv_def publish_window consumer_tail)
next
  case (c_begin s h)
  then show ?case by (auto simp: spsc_inv_def not_empty)
next
  case (c_publish s h v)
  then show ?case
    using consume_window [of "th_queue s"]
    by (auto simp: spsc_inv_def producer_head geometry_pop)
qed (auto simp: spsc_inv_def)

lemma spsc_inv_reach:
  assumes "spsc_cap_ok c" "spsc_reach c s"
  shows "spsc_inv c s"
  using assms(2)
proof induction
  case start
  have "sq_wf (spsc_queue_init c :: 'a spsc_queue)" by (rule init_fifo(1) [OF assms(1)])
  moreover have "sq_window (spsc_queue_init c :: 'a spsc_queue) = []"
    using init_fifo(2) [OF assms(1), where 'a = 'a] by (simp add: sq_items_def)
  ultimately show ?case by (simp add: spsc_inv_def sq_wf_def) (simp add: spsc_queue_init_def)
qed (rule spsc_inv_step)

subsection \<open>Properties\<close>

text \<open>
  C4. Sequentially the queue is a bounded FIFO: pushes are refused exactly when \<open>capacity\<close>
  elements are held, no operation reads an unwritten slot or leaves the buffer, what was accepted
  comes out in order, and \<open>spsc_queue_drain\<close> delivers the oldest \<open>max_count\<close> elements and
  leaves the rest.
\<close>

theorem spsc_queue_fifo:
  assumes "spsc_cap_ok c"
  shows "\<exists>acc del q. fifo_run spsc_queue_push spsc_queue_pop ops (spsc_queue_init c) = Some (acc, del, q)
     \<and> acc = del @ sq_items q \<and> length (sq_items q) \<le> unat c
     \<and> unat (spsc_queue_count q) = length (sq_items q)
     \<and> (\<forall>x. map_option fst (spsc_queue_push x q) = Some (length (sq_items q) < unat c))
     \<and> (\<forall>n. \<exists>q'. spsc_queue_drain n q = Some (take (unat n) (sq_items q), q')
            \<and> sq_wf q' \<and> sq_items q' = drop (unat n) (sq_items q))"
proof -
  obtain acc del q where r: "fifo_run spsc_queue_push spsc_queue_pop ops (spsc_queue_init c) = Some (acc, del, q)"
      "sq_wf q" "sq_bound q = unat c" "acc = del @ sq_items q"
    using sq.run_order [OF init_fifo(1) [OF assms], of ops] by (auto simp: init_fifo [OF assms])
  have "length (sq_items q) \<le> unat c"
    using r(2,3) tail_of_used(2) [of q] by (simp add: sq_wf_def sq_items_def sq_bound_def slots_def)
  moreover have "map_option fst (spsc_queue_push x q) = Some (length (sq_items q) < unat c)" for x
    using push_fifo [OF r(2), of x] r(3) by auto
  moreover have "\<exists>q'. spsc_queue_drain n q = Some (take (unat n) (sq_items q), q')
      \<and> sq_wf q' \<and> sq_items q' = drop (unat n) (sq_items q)" for n
    using drain_loop_run [OF r(2), of "unat n" "[]"] by (auto simp: spsc_queue_drain_def)
  ultimately show ?thesis using r count_contract [OF r(2)] by blast
qed

theorem spsc_queue_fifo_witness:
  "\<exists>acc del q. fifo_run spsc_queue_push spsc_queue_pop [Enq (7::nat), Enq 8, Enq 9, Deq, Enq 10]
      (spsc_queue_init 2) = Some (acc, del, q) \<and> acc = del @ sq_items q \<and> length (sq_items q) \<le> 2"
  using spsc_queue_fifo [of 2 "[Enq (7::nat), Enq 8, Enq 9, Deq, Enq 10]"]
  by (auto simp: spsc_cap_ok_def)

text \<open>
  C5. The two threads, interleaved in any way at the granularity of single loads, stores and the two
  halves of each copy: the consumer receives exactly a prefix of the pushed elements, in order, each
  once and never torn, and at most \<open>capacity\<close> are in flight.
\<close>

theorem spsc_threads_fifo:
  assumes "spsc_cap_ok c" "spsc_reach c s"
  shows "th_popped s = map Some (take (length (th_popped s)) (th_pushed s))
     \<and> length (th_popped s) \<le> length (th_pushed s)
     \<and> length (th_pushed s) \<le> length (th_popped s) + unat c"
proof -
  have inv: "spsc_inv c s" by (rule spsc_inv_reach [OF assms])
  then have app: "map Some (th_pushed s) = th_popped s @ sq_window (th_queue s)"
    and used: "spsc_used (th_queue s) \<le> unat c"
    using tail_of_used(2) [of "th_queue s"] by (auto simp: spsc_inv_def slots_def)
  have "length (map Some (th_pushed s)) = length (th_popped s @ sq_window (th_queue s))"
    by (simp only: app)
  moreover have "take (length (th_popped s)) (map Some (th_pushed s)) = th_popped s"
    by (simp only: app) simp
  ultimately show ?thesis using used by (simp add: take_map)
qed

lemma reach_sample:
  shows "\<exists>s. spsc_reach 2 s \<and> th_pushed s = [x] \<and> th_popped s = [Some (x :: 'a)]"
    and "\<exists>s. spsc_reach 2 s \<and> th_producer s = P_Copy x 1 2 \<and> th_consumer s = C_Copy 0"
proof -
  let ?q0 = "spsc_queue_init 2 :: 'a spsc_queue"
  let ?s = "\<lambda>q p c pu po. \<lparr>th_queue = q, th_producer = p, th_consumer = c, th_pushed = pu, th_popped = po\<rparr>"
  let ?q1 = "\<lparr>sq_buffer = [Some x, None, None], sq_capacity = 2, sq_head = 0, sq_tail = 0\<rparr> :: 'a spsc_queue"
  let ?q2 = "?q1\<lparr>sq_tail := 1\<rparr>"
  have q0: "?q0 = \<lparr>sq_buffer = [None, None, None], sq_capacity = 2, sq_head = 0, sq_tail = 0\<rparr>"
    by (simp add: spsc_queue_init_def numeral_3_eq_3)
  have r0: "spsc_reach 2 (?s ?q0 P_Idle C_Idle [] [])" by (rule spsc_reach.start)
  have r1: "spsc_reach 2 (?s ?q0 (P_Loaded x 0) C_Idle [] [])"
    using spsc_reach.more [OF r0 p_load [of _ x]] by (simp add: q0)
  have r2: "spsc_reach 2 (?s ?q0 (P_Copy x 0 1) C_Idle [] [])"
    using spsc_reach.more [OF r1 p_begin [of _ x 0]] by (simp add: q0 spsc_next_def)
  have r3: "spsc_reach 2 (?s ?q1 (P_Publish x 0 1) C_Idle [] [])"
    using spsc_reach.more [OF r2 p_copied [of _ x 0 1]] by (simp add: q0)
  have r4: "spsc_reach 2 (?s ?q2 P_Idle C_Idle [x] [])"
    using spsc_reach.more [OF r3 p_publish [of _ x 0 1]] by simp
  have r5: "spsc_reach 2 (?s ?q2 P_Idle (C_Loaded 0) [x] [])"
    using spsc_reach.more [OF r4 c_load] by simp
  have r6: "spsc_reach 2 (?s ?q2 P_Idle (C_Copy 0) [x] [])"
    using spsc_reach.more [OF r5 c_begin [of _ 0]] by simp
  have r7: "spsc_reach 2 (?s ?q2 P_Idle (C_Publish 0 (Some x)) [x] [])"
    using spsc_reach.more [OF r6 c_copied [of _ 0]] by simp
  have r8: "spsc_reach 2 (?s (?q2\<lparr>sq_head := 1\<rparr>) P_Idle C_Idle [x] [Some x])"
    using spsc_reach.more [OF r7 c_publish [of _ 0 "Some x"]] by (simp add: spsc_next_def)
  then show "\<exists>s. spsc_reach 2 s \<and> th_pushed s = [x] \<and> th_popped s = [Some x]"
    by (intro exI conjI) (assumption, simp_all)
  have t1: "spsc_reach 2 (?s ?q2 (P_Loaded x 1) (C_Copy 0) [x] [])"
    using spsc_reach.more [OF r6 p_load [of _ x]] by simp
  have t2: "spsc_reach 2 (?s ?q2 (P_Copy x 1 2) (C_Copy 0) [x] [])"
    using spsc_reach.more [OF t1 p_begin [of _ x 1]] by (simp add: spsc_next_def)
  then show "\<exists>s. spsc_reach 2 s \<and> th_producer s = P_Copy x 1 2 \<and> th_consumer s = C_Copy 0"
    by (intro exI conjI) (assumption, simp_all)
qed

theorem spsc_threads_fifo_witness:
  "\<exists>s. spsc_reach 2 s \<and> th_popped s = [Some (5::nat)]
     \<and> th_popped s = map Some (take (length (th_popped s)) (th_pushed s))"
  using spsc_threads_fifo [of 2] reach_sample(1) [of "5::nat"]
  by (auto simp: spsc_cap_ok_def)

text \<open>
  C6. No data race on the slots: whenever the producer may be writing a slot and the consumer may be
  reading one, they are different slots.
\<close>

theorem spsc_no_slot_race:
  assumes "spsc_cap_ok c" "spsc_reach c s"
    and "th_producer s = P_Copy x t n" "th_consumer s = C_Copy h"
  shows "t \<noteq> h"
proof -
  have inv: "spsc_inv c s" by (rule spsc_inv_reach [OF assms(1,2)])
  then have "t = sq_tail (th_queue s)" "h = sq_head (th_queue s)" "0 < spsc_used (th_queue s)"
    and g: "spsc_geometry (th_queue s)" using assms(3,4) by (auto simp: spsc_inv_def)
  then show ?thesis using empty_iff [OF g] by auto
qed

theorem spsc_no_slot_race_witness:
  "\<exists>s. spsc_reach 2 s \<and> th_producer s = P_Copy (5::nat) 1 2 \<and> th_consumer s = C_Copy 0 \<and> (1::u32) \<noteq> 0"
proof -
  obtain s where s: "spsc_reach 2 s" "th_producer s = P_Copy (5::nat) 1 2" "th_consumer s = C_Copy 0"
    using reach_sample(2) [of "5::nat"] by blast
  moreover have "(1::u32) \<noteq> 0"
    using spsc_no_slot_race [OF _ s] by (simp add: spsc_cap_ok_def)
  ultimately show ?thesis by blast
qed

end
