(* ===== verification/Pool_Alloc.thy ===== *)
theory Pool_Alloc
  imports Prelude
begin

text \<open>
  \<open>src/src/model/pool_alloc.c\<close>: the slab allocator under the topic tree. An address is a
  pair of a slab and an index in it; slabs are numbered in the order they are allocated, the newest
  is the one the cursor runs over. A cell is zeroed memory, an object of the client, or a freed slot
  whose first bytes hold the next pointer of the free list.
\<close>

datatype addr = Addr (ad_slab: nat) (ad_index: nat)

datatype 'a cell = Zeroed | Obj 'a | Free_Link "addr option"

record 'a pool_alloc =
  pl_elem_size :: nat
  pl_slab_capacity :: u32
  pl_used_count :: u32
  pl_free_list :: "addr option"
  pl_slabs :: nat
  pl_slab_cursor :: u32
  pl_mem :: "addr \<Rightarrow> 'a cell option"

subsection \<open>Operations\<close>

abbreviation pointer_size :: nat where
  "pointer_size \<equiv> 8"

text \<open>A new slab: \<open>slab_capacity\<close> zeroed cells at the next slab number.\<close>

definition slab_cells :: "nat \<Rightarrow> nat \<Rightarrow> (addr \<Rightarrow> 'a cell option) \<Rightarrow> addr \<Rightarrow> 'a cell option" where
  "slab_cells slab capacity m a =
     (if ad_slab a = slab then (if ad_index a < capacity then Some Zeroed else None) else m a)"

definition slab_new :: "'a pool_alloc \<Rightarrow> 'a pool_alloc" where
  "slab_new pool = pool\<lparr>pl_slabs := pl_slabs pool + 1,
     pl_mem := slab_cells (pl_slabs pool) (unat (pl_slab_capacity pool)) (pl_mem pool)\<rparr>"

definition pool_alloc_init :: "nat \<Rightarrow> u32 \<Rightarrow> 'a pool_alloc" where
  "pool_alloc_init elem_size slab_capacity =
     (let elem_size = (if elem_size < pointer_size then pointer_size else elem_size)
      in slab_new \<lparr>pl_elem_size = elem_size, pl_slab_capacity = slab_capacity, pl_used_count = 0,
           pl_free_list = None, pl_slabs = 0, pl_slab_cursor = 0, pl_mem = (\<lambda>_. None)\<rparr>)"

text \<open>All slabs are freed; the cursor keeps its value.\<close>

definition pool_alloc_destroy :: "'a pool_alloc \<Rightarrow> 'a pool_alloc" where
  "pool_alloc_destroy pool =
     pool\<lparr>pl_slabs := 0, pl_free_list := None, pl_used_count := 0, pl_mem := (\<lambda>_. None)\<rparr>"

text \<open>
  \<open>None\<close> is undefined behaviour: a pointer outside of the slabs, or a free-list head that is
  not a freed slot.
\<close>

definition pool_alloc_get :: "'a pool_alloc \<Rightarrow> (addr \<times> 'a pool_alloc) option" where
  "pool_alloc_get pool0 =
     (let pool = pool0\<lparr>pl_used_count := pl_used_count pool0 + 1\<rparr> in
      case pl_free_list pool of
        Some p \<Rightarrow>
          (case pl_mem pool p of
             Some (Free_Link nxt) \<Rightarrow>
               Some (p, pool\<lparr>pl_free_list := nxt, pl_mem := (pl_mem pool)(p \<mapsto> Zeroed)\<rparr>)
           | _ \<Rightarrow> None)
      | None \<Rightarrow>
          (let pool1 = (if pl_slab_cursor pool \<ge> pl_slab_capacity pool
                        then (slab_new pool)\<lparr>pl_slab_cursor := 0\<rparr> else pool);
               p = Addr (pl_slabs pool1 - 1) (unat (pl_slab_cursor pool1))
           in if pl_mem pool1 p = None then None
              else Some (p, pool1\<lparr>pl_slab_cursor := pl_slab_cursor pool1 + 1\<rparr>)))"

text \<open>The assertion \<open>used_count > 0\<close> and a pointer outside of the slabs are \<open>None\<close>.\<close>

definition pool_alloc_put :: "addr \<Rightarrow> 'a pool_alloc \<Rightarrow> 'a pool_alloc option" where
  "pool_alloc_put p pool =
     (if pl_used_count pool = 0 \<or> pl_mem pool p = None then None
      else Some (pool\<lparr>pl_mem := (pl_mem pool)(p \<mapsto> Free_Link (pl_free_list pool)),
                      pl_free_list := Some p, pl_used_count := pl_used_count pool - 1\<rparr>))"

definition pool_alloc_used :: "'a pool_alloc \<Rightarrow> u32" where
  "pool_alloc_used pool = pl_used_count pool"

text \<open>The client's write of a whole object.\<close>

definition pool_write :: "addr \<Rightarrow> 'a \<Rightarrow> 'a pool_alloc \<Rightarrow> 'a pool_alloc" where
  "pool_write p x pool = pool\<lparr>pl_mem := (pl_mem pool)(p \<mapsto> Obj x)\<rparr>"

subsection \<open>Invariant\<close>

text \<open>Cells below the cursor have been handed out at least once.\<close>

definition carved :: "'a pool_alloc \<Rightarrow> addr set" where
  "carved pool = {a. ad_slab a < pl_slabs pool \<and> ad_index a < unat (pl_slab_capacity pool)
     \<and> (ad_slab a = pl_slabs pool - 1 \<longrightarrow> ad_index a < unat (pl_slab_cursor pool))}"

definition is_free :: "'a cell option \<Rightarrow> bool" where
  "is_free c \<longleftrightarrow> (case c of Some (Free_Link _) \<Rightarrow> True | _ \<Rightarrow> False)"

text \<open>The cells in use.\<close>

definition pool_live :: "'a pool_alloc \<Rightarrow> addr set" where
  "pool_live pool = {p \<in> carved pool. \<not> is_free (pl_mem pool p)}"

fun free_chain :: "(addr \<Rightarrow> 'a cell option) \<Rightarrow> addr option \<Rightarrow> addr list \<Rightarrow> bool" where
  "free_chain m p [] = (p = None)"
| "free_chain m p (a # as) = (p = Some a \<and> (\<exists>q. m a = Some (Free_Link q) \<and> free_chain m q as))"

definition pool_wf :: "'a pool_alloc \<Rightarrow> bool" where
  "pool_wf pool \<longleftrightarrow> 0 < pl_slabs pool \<and> pl_slab_capacity pool \<noteq> 0
     \<and> pl_slab_cursor pool \<le> pl_slab_capacity pool
     \<and> (\<forall>a. (pl_mem pool a \<noteq> None) = (ad_slab a < pl_slabs pool \<and> ad_index a < unat (pl_slab_capacity pool)))
     \<and> (\<forall>p. p \<notin> carved pool \<and> pl_mem pool p \<noteq> None \<longrightarrow> pl_mem pool p = Some Zeroed)
     \<and> (\<exists>fl. free_chain (pl_mem pool) (pl_free_list pool) fl \<and> distinct fl
          \<and> set fl = {p. is_free (pl_mem pool p)})
     \<and> pl_used_count pool = word_of_nat (card (pool_live pool)) \<and> card (pool_live pool) < 2 ^ 32"

lemma is_free_simps [simp]: "is_free (Some (Free_Link q))" "\<not> is_free (Some Zeroed)"
  "\<not> is_free (Some (Obj x))" "\<not> is_free None"
  by (simp_all add: is_free_def)

lemma is_freeE: "is_free c \<Longrightarrow> (\<And>q. c = Some (Free_Link q) \<Longrightarrow> P) \<Longrightarrow> P"
  by (auto simp: is_free_def split: option.splits cell.splits)

lemma finite_carved: "finite (carved pool)"
proof (rule finite_subset)
  show "carved pool \<subseteq> (\<lambda>(s, i). Addr s i) ` ({..<pl_slabs pool} \<times> {..<unat (pl_slab_capacity pool)})"
  proof
    fix a assume "a \<in> carved pool"
    then show "a \<in> (\<lambda>(s, i). Addr s i) ` ({..<pl_slabs pool} \<times> {..<unat (pl_slab_capacity pool)})"
      by (cases a) (auto simp: carved_def)
  qed
qed simp

lemma finite_live [simp]: "finite (pool_live pool)"
  by (rule finite_subset [OF _ finite_carved]) (auto simp: pool_live_def)

lemma free_chain_update:
  "a \<notin> set fl \<Longrightarrow> free_chain (m(a := c)) p fl = free_chain m p fl"
  by (induction fl arbitrary: p) auto

lemma wf_zero: "pool_wf pool \<Longrightarrow> p \<notin> carved pool \<Longrightarrow> pl_mem pool p \<noteq> None \<Longrightarrow> pl_mem pool p = Some Zeroed"
  unfolding pool_wf_def by blast

lemma wf_dom: "pool_wf pool \<Longrightarrow>
    (pl_mem pool a \<noteq> None) = (ad_slab a < pl_slabs pool \<and> ad_index a < unat (pl_slab_capacity pool))"
  unfolding pool_wf_def by blast

lemma wf_chain:
  assumes "pool_wf pool"
  obtains fl where "free_chain (pl_mem pool) (pl_free_list pool) fl" "distinct fl"
    "set fl = {p. is_free (pl_mem pool p)}"
  using assms unfolding pool_wf_def by blast

lemma wf_used: "pool_wf pool \<Longrightarrow> pl_used_count pool = word_of_nat (card (pool_live pool))"
  unfolding pool_wf_def by blast

lemma free_carved: "pool_wf pool \<Longrightarrow> is_free (pl_mem pool p) \<Longrightarrow> p \<in> carved pool"
  by (rule ccontr) (auto dest: wf_zero elim!: is_freeE)

text \<open>A fresh slot: not in use before, zeroed, and nothing else changed.\<close>

definition fresh_slot :: "'a pool_alloc \<Rightarrow> addr \<Rightarrow> 'a pool_alloc \<Rightarrow> bool" where
  "fresh_slot pool p pool' \<longleftrightarrow> p \<notin> pool_live pool \<and> pool_live pool' = insert p (pool_live pool)
     \<and> pl_mem pool' p = Some Zeroed \<and> (\<forall>a\<in>pool_live pool. pl_mem pool' a = pl_mem pool a)"

lemma used_inc:
  assumes "used = (word_of_nat (card L) :: u32)" "finite L" "p \<notin> L"
  shows "used + 1 = word_of_nat (card (insert p L))"
  using assms by simp

lemma get_from_list:
  assumes wf: "pool_wf pool" and room: "card (pool_live pool) + 1 < 2 ^ 32"
    and p: "pl_free_list pool = Some p"
  shows "\<exists>pool'. pool_alloc_get pool = Some (p, pool') \<and> pool_wf pool' \<and> fresh_slot pool p pool'"
proof -
  obtain fl where fl: "free_chain (pl_mem pool) (pl_free_list pool) fl" "distinct fl"
      "set fl = {p. is_free (pl_mem pool p)}"
    using wf_chain [OF wf] .
  then obtain as where as: "fl = p # as" using p by (cases fl) auto
  then obtain q where q: "pl_mem pool p = Some (Free_Link q)" "free_chain (pl_mem pool) q as"
    using fl(1) by auto
  let ?m = "(pl_mem pool)(p \<mapsto> Zeroed)"
  let ?pool = "pool\<lparr>pl_used_count := pl_used_count pool + 1, pl_free_list := q, pl_mem := ?m\<rparr>"
  have get: "pool_alloc_get pool = Some (p, ?pool)"
    by (simp add: pool_alloc_get_def p q(1))
  have pc: "p \<in> carved pool" by (rule free_carved [OF wf]) (simp add: q)
  have carved: "carved ?pool = carved pool" by (simp add: carved_def)
  have live: "pool_live ?pool = insert p (pool_live pool)" "p \<notin> pool_live pool"
    using pc q(1) by (auto simp: pool_live_def carved)
  have "free_chain ?m q as" using q(2) fl(2) as by (simp add: free_chain_update)
  moreover have "set as = {p. is_free (?m p)}" using fl(2,3) as by auto
  ultimately have ch: "\<exists>fl. free_chain ?m q fl \<and> distinct fl \<and> set fl = {p. is_free (?m p)}"
    using fl(2) as by auto
  have dom: "(?m a \<noteq> None) = (ad_slab a < pl_slabs pool \<and> ad_index a < unat (pl_slab_capacity pool))" for a
    using wf_dom [OF wf, of a] q(1) by auto
  have zero: "a \<notin> carved pool \<and> ?m a \<noteq> None \<longrightarrow> ?m a = Some Zeroed" for a
    using wf_zero [OF wf, of a] by auto
  have used: "pl_used_count pool + 1 = word_of_nat (card (pool_live ?pool))"
    unfolding live(1) by (rule used_inc [OF wf_used [OF wf] _ live(2)]) simp
  have "pool_wf ?pool"
    using wf ch dom zero used room live unfolding pool_wf_def carved by simp
  then show ?thesis using get live q(1) by (auto simp: fresh_slot_def)
qed
lemma chain_Nil:
  assumes "free_chain m None fl"
  shows "fl = []"
  using assms by (cases fl) auto

text \<open>Carving the next cell of a slab that has room.\<close>

lemma carve:
  assumes wf: "pool_wf pool" and none: "pl_free_list pool = None"
    and cur: "pl_slab_cursor pool < pl_slab_capacity pool" and room: "card (pool_live pool) + 1 < 2 ^ 32"
    and p: "p = Addr (pl_slabs pool - 1) (unat (pl_slab_cursor pool))"
  shows "pl_mem pool p \<noteq> None"
    and "let pool' = pool\<lparr>pl_used_count := pl_used_count pool + 1, pl_slab_cursor := pl_slab_cursor pool + 1\<rparr>
         in pool_wf pool' \<and> fresh_slot pool p pool'"
proof -
  let ?pool = "pool\<lparr>pl_used_count := pl_used_count pool + 1, pl_slab_cursor := pl_slab_cursor pool + 1\<rparr>"
  have pos: "0 < pl_slabs pool" using wf by (simp add: pool_wf_def)
  have inc: "unat (pl_slab_cursor pool + 1) = unat (pl_slab_cursor pool) + 1" by (rule unat_inc_less [OF cur])
  have curn: "unat (pl_slab_cursor pool) < unat (pl_slab_capacity pool)" using cur by (simp add: word_less_unat)
  show some: "pl_mem pool p \<noteq> None" using wf_dom [OF wf] pos curn by (simp add: p)
  have notc: "p \<notin> carved pool" using pos by (simp add: carved_def p)
  have z: "pl_mem pool p = Some Zeroed" by (rule wf_zero [OF wf notc some])
  have carved: "carved ?pool = insert p (carved pool)"
  proof (rule set_eqI)
    fix a show "a \<in> carved ?pool \<longleftrightarrow> a \<in> insert p (carved pool)"
      using pos curn by (cases a) (auto simp: carved_def p inc)
  qed
  have live: "pool_live ?pool = insert p (pool_live pool)" "p \<notin> pool_live pool"
    using z notc by (auto simp: pool_live_def carved)
  have used: "pl_used_count pool + 1 = word_of_nat (card (pool_live ?pool))"
    unfolding live(1) by (rule used_inc [OF wf_used [OF wf] _ live(2)]) simp
  have "pool_wf ?pool"
    using wf used room live curn inc unfolding pool_wf_def carved by (simp add: word_le_unat)
  then show "let pool' = ?pool in pool_wf pool' \<and> fresh_slot pool p pool'"
    using live z by (auto simp: fresh_slot_def)
qed

lemma grow:
  assumes wf: "pool_wf pool" and none: "pl_free_list pool = None"
    and cur: "pl_slab_cursor pool \<ge> pl_slab_capacity pool"
  shows "pool_wf ((slab_new pool)\<lparr>pl_slab_cursor := 0\<rparr>)"
    and "pool_live ((slab_new pool)\<lparr>pl_slab_cursor := 0\<rparr>) = pool_live pool"
    and "a \<in> pool_live pool \<Longrightarrow> pl_mem (slab_new pool) a = pl_mem pool a"
proof -
  let ?pool = "(slab_new pool)\<lparr>pl_slab_cursor := 0\<rparr>"
  have full: "unat (pl_slab_cursor pool) = unat (pl_slab_capacity pool)"
    using wf cur by (simp add: pool_wf_def word_le_unat)
  have carved: "carved ?pool = carved pool"
    using full wf by (auto simp: carved_def slab_new_def slab_cells_def pool_wf_def)
  have old: "a \<in> carved pool \<Longrightarrow> pl_mem ?pool a = pl_mem pool a" for a
    by (auto simp: carved_def slab_new_def slab_cells_def)
  show live: "pool_live ?pool = pool_live pool"
    using old by (auto simp: pool_live_def carved)
  show "a \<in> pool_live pool \<Longrightarrow> pl_mem (slab_new pool) a = pl_mem pool a"
    using old [of a] by (simp add: pool_live_def slab_new_def slab_cells_def)
  have dom: "(pl_mem ?pool a \<noteq> None) = (ad_slab a < pl_slabs ?pool \<and> ad_index a < unat (pl_slab_capacity ?pool))" for a
    using wf_dom [OF wf, of a] by (auto simp: slab_new_def slab_cells_def)
  have zero: "pl_mem ?pool a = Some Zeroed" if "a \<notin> carved ?pool" "pl_mem ?pool a \<noteq> None" for a
    using that wf_zero [OF wf, of a] unfolding carved by (cases a) (auto simp: slab_new_def slab_cells_def split: if_splits)
  have nofree: "{p. is_free (pl_mem pool p)} = {}"
    using wf_chain [OF wf] chain_Nil none by (metis list.set(1))
  have "is_free (pl_mem ?pool p) = is_free (pl_mem pool p)" for p
  proof (cases "p \<in> carved pool")
    case True
    then show ?thesis using old [OF True] by simp
  next
    case False
    have "\<not> is_free (pl_mem pool p)" using nofree by blast
    moreover have "\<not> is_free (pl_mem ?pool p)"
      using zero [of p] False unfolding carved by (cases "pl_mem ?pool p = None") auto
    ultimately show ?thesis by simp
  qed
  then have "free_chain (pl_mem ?pool) (pl_free_list ?pool) []" "{p. is_free (pl_mem ?pool p)} = {}"
    using none nofree by (simp_all add: slab_new_def slab_cells_def)
  then have ch: "\<exists>fl. free_chain (pl_mem ?pool) (pl_free_list ?pool) fl \<and> distinct fl
      \<and> set fl = {p. is_free (pl_mem ?pool p)}"
    by (intro exI [of _ "[]"]) simp
  have "pl_used_count ?pool = word_of_nat (card (pool_live ?pool))"
    unfolding live using wf_used [OF wf] by (simp add: slab_new_def slab_cells_def)
  then show "pool_wf ?pool"
    using wf ch dom zero live unfolding pool_wf_def carved by (auto simp: slab_new_def slab_cells_def)
qed

lemma pool_get_contract:
  assumes wf: "pool_wf pool" and room: "card (pool_live pool) + 1 < 2 ^ 32"
  shows "\<exists>p pool'. pool_alloc_get pool = Some (p, pool') \<and> pool_wf pool' \<and> fresh_slot pool p pool'"
proof (cases "pl_free_list pool")
  case (Some p)
  then show ?thesis using get_from_list [OF wf room] by blast
next
  case None
  show ?thesis
  proof (cases "pl_slab_cursor pool \<ge> pl_slab_capacity pool")
    case False
    let ?p = "Addr (pl_slabs pool - 1) (unat (pl_slab_cursor pool))"
    note c = carve [OF wf None _ room refl] 
    have "pool_alloc_get pool = Some (?p, pool\<lparr>pl_used_count := pl_used_count pool + 1,
        pl_slab_cursor := pl_slab_cursor pool + 1\<rparr>)"
      using False None c(1) by (simp add: pool_alloc_get_def Let_def)
    then show ?thesis using c(2) False by (simp add: Let_def)
  next
    case True
    let ?g = "(slab_new pool)\<lparr>pl_slab_cursor := 0\<rparr>"
    note g = grow [OF wf None True]
    let ?p = "Addr (pl_slabs ?g - 1) (unat (pl_slab_cursor ?g))"
    have cap: "pl_slab_cursor ?g < pl_slab_capacity ?g"
      using wf by (simp add: pool_wf_def slab_new_def word_less_unat word_eq_unat)
    have fl: "pl_free_list ?g = None" using None by (simp add: slab_new_def)
    have rm: "card (pool_live ?g) + 1 < 2 ^ 32" using room by (simp add: g(2))
    note c = carve [OF g(1) fl cap rm refl]
    have "slab_new (pool\<lparr>pl_used_count := u\<rparr>) = (slab_new pool)\<lparr>pl_used_count := u\<rparr>" for u
      by (simp add: slab_new_def)
    then have "pool_alloc_get pool = Some (?p, ?g\<lparr>pl_used_count := pl_used_count ?g + 1,
        pl_slab_cursor := pl_slab_cursor ?g + 1\<rparr>)"
      using True None c(1) by (simp add: pool_alloc_get_def Let_def slab_new_def)
    then show ?thesis using c(2) g(2,3) by (auto simp: Let_def fresh_slot_def)
  qed
qed

lemma pool_put_contract:
  assumes wf: "pool_wf pool" and p: "p \<in> pool_live pool"
  shows "\<exists>pool'. pool_alloc_put p pool = Some pool' \<and> pool_wf pool' \<and> pool_live pool' = pool_live pool - {p}
     \<and> (\<forall>a\<in>pool_live pool'. pl_mem pool' a = pl_mem pool a)"
proof -
  have pc: "p \<in> carved pool" "\<not> is_free (pl_mem pool p)" using p by (auto simp: pool_live_def)
  have some: "pl_mem pool p \<noteq> None" using pc(1) wf_dom [OF wf] by (auto simp: carved_def)
  have card: "0 < card (pool_live pool)" "card (pool_live pool) < 2 ^ 32"
    using p wf by (auto simp: card_gt_0_iff pool_wf_def)
  have unat_used: "unat (pl_used_count pool) = card (pool_live pool)"
    using wf_used [OF wf] card(2) by (simp add: unat_of_nat)
  then have u: "pl_used_count pool \<noteq> 0" using card(1) by auto
  let ?m = "(pl_mem pool)(p \<mapsto> Free_Link (pl_free_list pool))"
  let ?pool = "pool\<lparr>pl_mem := ?m, pl_free_list := Some p, pl_used_count := pl_used_count pool - 1\<rparr>"
  have put: "pool_alloc_put p pool = Some ?pool" using some u by (simp add: pool_alloc_put_def)
  have carved: "carved ?pool = carved pool" by (simp add: carved_def)
  have live: "pool_live ?pool = pool_live pool - {p}" by (auto simp: pool_live_def carved)
  obtain fl where fl: "free_chain (pl_mem pool) (pl_free_list pool) fl" "distinct fl"
      "set fl = {p. is_free (pl_mem pool p)}"
    using wf_chain [OF wf] .
  have "p \<notin> set fl" using fl(3) pc(2) by simp
  then have "free_chain ?m (Some p) (p # fl)" "distinct (p # fl)" "set (p # fl) = {a. is_free (?m a)}"
    using fl by (auto simp: free_chain_update)
  then have ch: "\<exists>fl. free_chain ?m (Some p) fl \<and> distinct fl \<and> set fl = {a. is_free (?m a)}" by blast
  have dom: "(?m a \<noteq> None) = (ad_slab a < pl_slabs pool \<and> ad_index a < unat (pl_slab_capacity pool))" for a
    using wf_dom [OF wf, of a] some by auto
  have zero: "a \<notin> carved pool \<and> ?m a \<noteq> None \<longrightarrow> ?m a = Some Zeroed" for a
    using wf_zero [OF wf, of a] pc(1) by auto
  have "card (pool_live ?pool) = card (pool_live pool) - 1" unfolding live using p by simp
  moreover have "pl_used_count pool - 1 = word_of_nat (card (pool_live pool) - 1)"
    using wf_used [OF wf] card(1) by (simp add: of_nat_diff)
  ultimately have used: "pl_used_count ?pool = word_of_nat (card (pool_live ?pool))"
      "card (pool_live ?pool) < 2 ^ 32"
    using card(2) by simp_all
  have "pool_wf ?pool" using wf ch dom zero used unfolding pool_wf_def carved by simp
  then show ?thesis using put live by auto
qed

lemma pool_init_contract:
  assumes "slab_capacity \<noteq> 0"
  shows "pool_wf (pool_alloc_init n slab_capacity :: 'a pool_alloc)"
    and "pool_live (pool_alloc_init n slab_capacity :: 'a pool_alloc) = {}"
proof -
  let ?p = "pool_alloc_init n slab_capacity :: 'a pool_alloc"
  have carved: "carved ?p = {}" by (auto simp: carved_def pool_alloc_init_def slab_new_def slab_cells_def Let_def)
  then show live: "pool_live ?p = {}" unfolding pool_live_def by blast
  have nofree: "{p. is_free (pl_mem ?p p)} = {}"
    by (auto simp: pool_alloc_init_def slab_new_def slab_cells_def Let_def elim!: is_freeE split: if_splits)
  have fl: "free_chain (pl_mem ?p) (pl_free_list ?p) []"
    by (simp add: pool_alloc_init_def slab_new_def slab_cells_def Let_def)
  have ch: "\<exists>fl. free_chain (pl_mem ?p) (pl_free_list ?p) fl \<and> distinct fl
      \<and> set fl = {p. is_free (pl_mem ?p p)}"
    unfolding nofree using fl by (intro exI [of _ "[]"]) simp
  have used: "pl_used_count ?p = word_of_nat (card (pool_live ?p))"
    unfolding live by (simp add: pool_alloc_init_def slab_new_def slab_cells_def Let_def)
  have fields: "pl_slabs ?p = 1" "pl_slab_capacity ?p = slab_capacity" "pl_slab_cursor ?p = 0"
    by (simp_all add: pool_alloc_init_def slab_new_def Let_def)
  have dom: "(pl_mem ?p a \<noteq> None) = (ad_slab a < 1 \<and> ad_index a < unat slab_capacity)" for a
    by (simp add: pool_alloc_init_def slab_new_def slab_cells_def Let_def)
  have zero: "pl_mem ?p a \<noteq> None \<longrightarrow> pl_mem ?p a = Some Zeroed" for a
    by (simp add: pool_alloc_init_def slab_new_def slab_cells_def Let_def)
  have card: "card (pool_live ?p) < 2 ^ 32" by (simp add: live)
  show "pool_wf ?p"
    unfolding pool_wf_def carved
    using assms ch used dom zero card fields by simp
qed

lemma pool_write_contract:
  assumes wf: "pool_wf pool" and p: "p \<in> pool_live pool"
  shows "pool_wf (pool_write p x pool)" "pool_live (pool_write p x pool) = pool_live pool"
proof -
  let ?m = "(pl_mem pool)(p \<mapsto> Obj x)" and ?p = "pool_write p x pool"
  have pc: "p \<in> carved pool" "\<not> is_free (pl_mem pool p)" using p by (auto simp: pool_live_def)
  have carved: "carved ?p = carved pool" by (simp add: carved_def pool_write_def)
  then show live: "pool_live ?p = pool_live pool" using pc by (auto simp: pool_live_def pool_write_def)
  obtain fl where fl: "free_chain (pl_mem pool) (pl_free_list pool) fl" "distinct fl"
      "set fl = {p. is_free (pl_mem pool p)}"
    using wf_chain [OF wf] .
  have "{a. is_free (?m a)} = {a. is_free (pl_mem pool a)}" using pc(2) by auto
  then have ch: "\<exists>fl. free_chain ?m (pl_free_list pool) fl \<and> distinct fl \<and> set fl = {a. is_free (?m a)}"
    using fl pc(2) by (intro exI [of _ fl]) (auto simp: free_chain_update)
  have some: "pl_mem pool p \<noteq> None" using pc(1) wf_dom [OF wf] by (auto simp: carved_def)
  have dom: "(?m a \<noteq> None) = (ad_slab a < pl_slabs pool \<and> ad_index a < unat (pl_slab_capacity pool))" for a
    using wf_dom [OF wf, of a] some by auto
  have zero: "a \<notin> carved pool \<and> ?m a \<noteq> None \<longrightarrow> ?m a = Some Zeroed" for a
    using wf_zero [OF wf, of a] pc(1) by auto
  show "pool_wf ?p"
    using wf ch dom zero live unfolding pool_wf_def carved by (simp add: pool_write_def)
qed

subsection \<open>The allocator interface\<close>

primrec option_iter :: "nat \<Rightarrow> ('s \<Rightarrow> ('p \<times> 's) option) \<Rightarrow> 's \<Rightarrow> ('p list \<times> 's) option" where
  "option_iter 0 f s = Some ([], s)"
| "option_iter (Suc n) f s =
     (case f s of None \<Rightarrow> None
      | Some (p, s1) \<Rightarrow> map_option (\<lambda>(ps, s2). (p # ps, s2)) (option_iter n f s1))"

text \<open>
  What a client relies on: a slot it gets is new to it and zeroed, the slots it already holds keep
  their contents, a slot it returns is no longer its own, and its writes stay within a slot.
\<close>

locale slot_allocator =
  fixes wf :: "'s \<Rightarrow> bool"
    and live :: "'s \<Rightarrow> addr set"
    and read :: "'s \<Rightarrow> addr \<Rightarrow> 'a cell option"
    and get :: "'s \<Rightarrow> (addr \<times> 's) option"
    and put :: "addr \<Rightarrow> 's \<Rightarrow> 's option"
    and used :: "'s \<Rightarrow> u32"
  assumes get_law: "wf s \<Longrightarrow> card (live s) + 1 < 2 ^ 32 \<Longrightarrow>
      \<exists>p s'. get s = Some (p, s') \<and> wf s' \<and> p \<notin> live s \<and> live s' = insert p (live s)
        \<and> read s' p = Some Zeroed \<and> (\<forall>a\<in>live s. read s' a = read s a)"
    and put_law: "wf s \<Longrightarrow> p \<in> live s \<Longrightarrow>
      \<exists>s'. put p s = Some s' \<and> wf s' \<and> live s' = live s - {p} \<and> (\<forall>a\<in>live s'. read s' a = read s a)"
    and live_finite: "finite (live s)"
    and used_law: "wf s \<Longrightarrow> unat (used s) = card (live s)"
begin

text \<open>Getting \<open>n\<close> slots.\<close>

lemma gets_distinct:
  "wf s \<Longrightarrow> card (live s) + n < 2 ^ 32 \<Longrightarrow>
    \<exists>ps s'. option_iter n get s = Some (ps, s') \<and> wf s' \<and> distinct ps \<and> length ps = n
      \<and> set ps \<inter> live s = {} \<and> live s' = set ps \<union> live s \<and> (\<forall>a\<in>live s. read s' a = read s a)"
proof (induction n arbitrary: s)
  case 0
  then show ?case by simp
next
  case (Suc n)
  obtain p s1 where g: "get s = Some (p, s1)" "wf s1" "p \<notin> live s" "live s1 = insert p (live s)"
      "\<forall>a\<in>live s. read s1 a = read s a"
    using get_law [OF Suc.prems(1)] Suc.prems(2) by auto
  have "card (live s1) + n < 2 ^ 32" using g(3,4) live_finite Suc.prems(2) by simp
  then obtain ps s2 where r: "option_iter n get s1 = Some (ps, s2)" "wf s2" "distinct ps" "length ps = n"
      "set ps \<inter> live s1 = {}" "live s2 = set ps \<union> live s1" "\<forall>a\<in>live s1. read s2 a = read s1 a"
    using Suc.IH [OF g(2)] by blast
  then show ?case using g by (intro exI [of _ "p # ps"] exI [of _ s2]) auto
qed

end

interpretation pool: slot_allocator pool_wf pool_live pl_mem pool_alloc_get pool_alloc_put pool_alloc_used
proof unfold_locales
  fix s :: "'a pool_alloc" and p
  show "pool_wf s \<Longrightarrow> card (pool_live s) + 1 < 2 ^ 32 \<Longrightarrow>
      \<exists>p s'. pool_alloc_get s = Some (p, s') \<and> pool_wf s' \<and> p \<notin> pool_live s
        \<and> pool_live s' = insert p (pool_live s) \<and> pl_mem s' p = Some Zeroed
        \<and> (\<forall>a\<in>pool_live s. pl_mem s' a = pl_mem s a)"
    using pool_get_contract [of s] unfolding fresh_slot_def .
  show "pool_wf s \<Longrightarrow> p \<in> pool_live s \<Longrightarrow> \<exists>s'. pool_alloc_put p s = Some s' \<and> pool_wf s'
      \<and> pool_live s' = pool_live s - {p} \<and> (\<forall>a\<in>pool_live s'. pl_mem s' a = pl_mem s a)"
    by (rule pool_put_contract)
  show "finite (pool_live s)" by simp
  show "pool_wf s \<Longrightarrow> unat (pool_alloc_used s) = card (pool_live s)"
    by (simp add: pool_alloc_used_def pool_wf_def unat_of_nat)
qed

subsection \<open>Properties\<close>

text \<open>
  C7. The pool hands out distinct slots: on a well-formed pool with fewer than \<open>2 ^ 32\<close> slots in
  use, getting \<open>n\<close> slots never fails, the slots are pairwise different and different from every
  slot in use, the contents of those in use do not change, and \<open>pool_alloc_used\<close> counts them.
\<close>

theorem pool_gets_distinct:
  assumes "pool_wf pool" "card (pool_live pool) + n < 2 ^ 32"
  shows "\<exists>ps pool'. option_iter n pool_alloc_get pool = Some (ps, pool') \<and> pool_wf pool'
     \<and> distinct ps \<and> length ps = n \<and> set ps \<inter> pool_live pool = {}
     \<and> (\<forall>a\<in>pool_live pool. pl_mem pool' a = pl_mem pool a)
     \<and> unat (pool_alloc_used pool') = unat (pool_alloc_used pool) + n"
proof -
  obtain ps pool' where r: "option_iter n pool_alloc_get pool = Some (ps, pool')" "pool_wf pool'"
      "distinct ps" "length ps = n" "set ps \<inter> pool_live pool = {}"
      "pool_live pool' = set ps \<union> pool_live pool" "\<forall>a\<in>pool_live pool. pl_mem pool' a = pl_mem pool a"
    using pool.gets_distinct [OF assms] by blast
  have "card (pool_live pool') = n + card (pool_live pool)"
    unfolding r(6) using r(3,4,5) by (simp add: card_Un_disjoint distinct_card)
  then show ?thesis using r pool.used_law [OF r(2)] pool.used_law [OF assms(1)] by auto
qed

theorem pool_gets_distinct_witness:
  "\<exists>ps pool'. option_iter 3 pool_alloc_get (pool_alloc_init 512 2 :: nat pool_alloc) = Some (ps, pool')
     \<and> distinct ps \<and> length ps = 3"
proof -
  let ?p = "pool_alloc_init 512 2 :: nat pool_alloc"
  have wf: "pool_wf ?p" and live: "pool_live ?p = {}" by (rule pool_init_contract; simp)+
  have "card (pool_live ?p) + 3 < 2 ^ 32" by (simp add: live)
  from pool_gets_distinct [OF wf this] show ?thesis by blast
qed

text \<open>
  A slot goes back to the pool whole: \<open>pool_alloc_put\<close> of a slot in use passes its
  assertion, the next \<open>pool_alloc_get\<close> returns that same slot, zeroed, and the pool is then
  exactly as full as before, every other slot unchanged.
\<close>

theorem pool_put_get:
  assumes "pool_wf pool" "p \<in> pool_live pool"
  shows "\<exists>pool1 pool2. pool_alloc_put p pool = Some pool1 \<and> pool_alloc_get pool1 = Some (p, pool2)
     \<and> pool_wf pool2 \<and> pool_live pool2 = pool_live pool \<and> pl_mem pool2 p = Some Zeroed
     \<and> (\<forall>a\<in>pool_live pool - {p}. pl_mem pool2 a = pl_mem pool a)"
proof -
  obtain pool1 where p1: "pool_alloc_put p pool = Some pool1" "pool_wf pool1"
      "pool_live pool1 = pool_live pool - {p}" "\<forall>a\<in>pool_live pool1. pl_mem pool1 a = pl_mem pool a"
    using pool_put_contract [OF assms] by blast
  have fl: "pl_free_list pool1 = Some p"
    using p1(1) by (auto simp: pool_alloc_put_def split: if_splits)
  have "card (pool_live pool1) + 1 = card (pool_live pool)"
    unfolding p1(3) using assms(2) by (simp add: card_gt_0_iff) (metis card_gt_0_iff empty_iff finite_live gr_implies_not0 Suc_pred neq0_conv)
  then have "card (pool_live pool1) + 1 < 2 ^ 32" using assms(1) by (simp add: pool_wf_def)
  then obtain pool2 where "pool_alloc_get pool1 = Some (p, pool2)" "pool_wf pool2" "fresh_slot pool1 p pool2"
    using get_from_list [OF p1(2) _ fl] by blast
  then show ?thesis using p1 assms(2) by (auto simp: fresh_slot_def)
qed

theorem pool_put_get_witness:
  "\<exists>pool1 pool2. pool_alloc_put (Addr 0 0) \<lparr>pl_elem_size = 8, pl_slab_capacity = 1, pl_used_count = 1,
        pl_free_list = None, pl_slabs = 1, pl_slab_cursor = 1, pl_mem = [Addr 0 0 \<mapsto> Obj (5::nat)]\<rparr> = Some pool1
     \<and> pool_alloc_get pool1 = Some (Addr 0 0, pool2) \<and> pl_mem pool2 (Addr 0 0) = Some Zeroed"
proof -
  let ?p = "\<lparr>pl_elem_size = 8, pl_slab_capacity = 1, pl_used_count = 1,
        pl_free_list = None, pl_slabs = 1, pl_slab_cursor = 1, pl_mem = [Addr 0 0 \<mapsto> Obj (5::nat)]\<rparr>"
  have "a \<in> carved ?p \<longleftrightarrow> a = Addr 0 0" for a by (cases a) (auto simp: carved_def)
  then have c: "carved ?p = {Addr 0 0}" by blast
  then have l: "pool_live ?p = {Addr 0 0}" by (auto simp: pool_live_def)
  have "pool_wf ?p"
    unfolding pool_wf_def c l
    by (auto intro!: exI [of _ "[]"] addr.expand simp: is_free_def split: if_splits)
  then show ?thesis using pool_put_get [of ?p "(Addr 0 0)"] l by blast
qed

end
