(* ===== verification/Float64.thy ===== *)
theory Float64
  imports Complex_Main Prelude
begin

text \<open>
  The \<open>double\<close> of the C code: IEEE binary64 values. A finite value is the rational number it
  stands for (the two zeros are one), rounding is to nearest, ties to even. \<open>strtod\<close> is written
  out for the C locale: white space, sign, decimal or hexadecimal digits with an exponent,
  \<open>inf\<close>, \<open>infinity\<close> and \<open>nan\<close>.
\<close>

datatype dbl = Fin rat | Inf bool | Nan

definition isfinite :: "dbl \<Rightarrow> bool" where
  "isfinite x \<longleftrightarrow> (case x of Fin _ \<Rightarrow> True | _ \<Rightarrow> False)"

lemma isfinite_iff: "isfinite x \<longleftrightarrow> (\<exists>r. x = Fin r)"
  by (cases x) (simp_all add: isfinite_def)

subsection \<open>Rounding\<close>

fun nbits :: "nat \<Rightarrow> nat" where
  "nbits n = (if n = 0 then 0 else Suc (nbits (n div 2)))"

declare nbits.simps [simp del]

definition exp2 :: "int \<Rightarrow> rat" where
  "exp2 k = (if 0 \<le> k then 2 ^ nat k else 1 / 2 ^ nat (- k))"

text \<open>The exponent of the binade that holds a positive rational.\<close>

definition binade :: "rat \<Rightarrow> int" where
  "binade r =
     (let (n, d) = quotient_of r;
          k = int (nbits (nat n)) - int (nbits (nat d))
      in if exp2 k \<le> r then k else k - 1)"

definition round_even :: "rat \<Rightarrow> int" where
  "round_even q =
     (let f = \<lfloor>q\<rfloor>; t = q - of_int f in
      if t < 1 / 2 then f else if t > 1 / 2 then f + 1 else if even f then f else f + 1)"

definition round_dbl :: "rat \<Rightarrow> dbl" where
  "round_dbl r =
     (if r = 0 then Fin 0
      else
        let e = max (binade \<bar>r\<bar>) (- 1022);
            u = exp2 (e - 52);
            v = of_int (round_even (\<bar>r\<bar> / u)) * u
        in if v \<ge> exp2 1024 then Inf (r < 0) else Fin (if r < 0 then - v else v))"

definition dbl_sub :: "rat \<Rightarrow> rat \<Rightarrow> dbl" where
  "dbl_sub a b = round_dbl (a - b)"

definition dbl_fabs :: "dbl \<Rightarrow> dbl" where
  "dbl_fabs x = (case x of Fin r \<Rightarrow> Fin \<bar>r\<bar> | Inf _ \<Rightarrow> Inf False | Nan \<Rightarrow> Nan)"

definition dbl_le :: "dbl \<Rightarrow> dbl \<Rightarrow> bool" where
  "dbl_le x y =
     (case (x, y) of
        (Fin a, Fin b) \<Rightarrow> a \<le> b
      | (Inf n, Inf m) \<Rightarrow> n \<or> \<not> m
      | (Inf n, Fin _) \<Rightarrow> n
      | (Fin _, Inf m) \<Rightarrow> \<not> m
      | _ \<Rightarrow> False)"

subsection \<open>strtod\<close>

definition c_space :: "char \<Rightarrow> bool" where
  "c_space c \<longleftrightarrow> (of_char c :: nat) \<in> {9, 10, 11, 12, 13, 32}"

definition lower :: "char \<Rightarrow> char" where
  "lower c = (if 65 \<le> (of_char c :: nat) \<and> (of_char c :: nat) \<le> 90 then char_of ((of_char c :: nat) + 32) else c)"

definition hex_digit :: "char \<Rightarrow> bool" where
  "hex_digit c \<longleftrightarrow> is_digit c \<or> (97 \<le> (of_char (lower c) :: nat) \<and> (of_char (lower c) :: nat) \<le> 102)"

definition digit_val :: "char \<Rightarrow> nat" where
  "digit_val c = (if is_digit c then of_char c - 48 else of_char (lower c) - 87)"

definition digits_val :: "nat \<Rightarrow> string \<Rightarrow> nat" where
  "digits_val base ds = foldl (\<lambda>n c. base * n + digit_val c) 0 ds"

text \<open>
  A mantissa: digits, optionally a point and more digits, at least one digit in all. The result is
  the value of the digits, how many of them follow the point, and the rest.
\<close>

definition scan_mantissa :: "(char \<Rightarrow> bool) \<Rightarrow> nat \<Rightarrow> string \<Rightarrow> (nat \<times> nat \<times> string) option" where
  "scan_mantissa is_dig base s =
     (let ip = takeWhile is_dig s; r = dropWhile is_dig s;
          (fp, r') = (if r \<noteq> [] \<and> hd r = CHR ''.''
                      then (takeWhile is_dig (tl r), dropWhile is_dig (tl r)) else ([], r))
      in if ip = [] \<and> fp = [] then None else Some (digits_val base (ip @ fp), length fp, r'))"

text \<open>An exponent after its letter; without digits the letter is not part of the number.\<close>

definition scan_exponent :: "char \<Rightarrow> string \<Rightarrow> int \<times> string" where
  "scan_exponent letter s =
     (if s \<noteq> [] \<and> lower (hd s) = letter then
        (let r = tl s;
             neg = (r \<noteq> [] \<and> hd r = CHR ''-'');
             r' = (if r \<noteq> [] \<and> (hd r = CHR ''-'' \<or> hd r = CHR ''+'') then tl r else r);
             ds = takeWhile is_digit r'
         in if ds = [] then (0, s)
            else (if neg then - int (digits_val 10 ds) else int (digits_val 10 ds), dropWhile is_digit r'))
      else (0, s))"

definition scale10 :: "nat \<Rightarrow> int \<Rightarrow> rat" where
  "scale10 m k = (if 0 \<le> k then of_nat m * 10 ^ nat k else of_nat m / 10 ^ nat (- k))"

definition negate_dbl :: "bool \<Rightarrow> dbl \<Rightarrow> dbl" where
  "negate_dbl neg x = (if neg then (case x of Fin r \<Rightarrow> Fin (- r) | Inf b \<Rightarrow> Inf (\<not> b) | Nan \<Rightarrow> Nan) else x)"

definition has_prefix :: "string \<Rightarrow> string \<Rightarrow> bool" where
  "has_prefix p s \<longleftrightarrow> map lower (take (length p) s) = p"

text \<open>The unsigned number at the head of \<open>s\<close> and the rest, if there is one.\<close>

definition scan_number :: "string \<Rightarrow> (dbl \<times> string) option" where
  "scan_number s =
     (if has_prefix ''infinity'' s then Some (Inf False, drop 8 s)
      else if has_prefix ''inf'' s then Some (Inf False, drop 3 s)
      else if has_prefix ''nan'' s then Some (Nan, drop 3 s)
      else if has_prefix ''0x'' s \<and> scan_mantissa hex_digit 16 (drop 2 s) \<noteq> None then
        (case scan_mantissa hex_digit 16 (drop 2 s) of
           None \<Rightarrow> None
         | Some (m, f, r) \<Rightarrow>
             (case scan_exponent (CHR ''p'') r of
                (e, r') \<Rightarrow> Some (round_dbl (of_nat m * exp2 (e - 4 * int f)), r')))
      else
        (case scan_mantissa is_digit 10 s of
           None \<Rightarrow> None
         | Some (m, f, r) \<Rightarrow>
             (case scan_exponent (CHR ''e'') r of
                (e, r') \<Rightarrow> Some (round_dbl (scale10 m (e - int f)), r'))))"

text \<open>
  The value and the rest \<open>end\<close>; when there is no number \<open>end\<close> is the whole string, which is
  the value \<open>None\<close> here.
\<close>

definition strtod :: "string \<Rightarrow> (dbl \<times> string) option" where
  "strtod s =
     (let r = dropWhile c_space s;
          neg = (r \<noteq> [] \<and> hd r = CHR ''-'');
          r' = (if r \<noteq> [] \<and> (hd r = CHR ''-'' \<or> hd r = CHR ''+'') then tl r else r)
      in map_option (\<lambda>(v, e). (negate_dbl neg v, e)) (scan_number r'))"

text \<open>\<open>end != s && *end == 0 && isfinite(v)\<close>: the whole string is a finite number.\<close>

definition whole_number :: "string \<Rightarrow> bool" where
  "whole_number s \<longleftrightarrow> (case strtod s of None \<Rightarrow> False | Some (v, e) \<Rightarrow> e = [] \<and> isfinite v)"

end
