(* ===== verification/Topic_Tree.thy ===== *)
theory Topic_Tree
  imports "HOL-Library.Sublist" Util Pool_Alloc Float64
begin

text \<open>
  \<open>src/src/model/topic_tree.c\<close>: the tree of topic levels. Nodes live in the slots of a pool
  and refer to each other by address, exactly as the C nodes do through pointers; the payload
  snapshots live in a second pool. A child array with its count is the list of its used entries.
  The \<open>float\<close> field \<open>throughput\<close> is a value of \<open>Float64\<close>.
  Following a pointer that is not a node is \<open>None\<close>.
\<close>

abbreviation TOPIC_MAX_CHILDREN :: nat where "TOPIC_MAX_CHILDREN \<equiv> 64"
abbreviation TOPIC_PAYLOAD_CAP :: nat where "TOPIC_PAYLOAD_CAP \<equiv> 16384"
abbreviation TOPIC_NODE_PAYLOAD_SLAB_CAPACITY :: u32 where "TOPIC_NODE_PAYLOAD_SLAB_CAPACITY \<equiv> 256"

record topic_node =
  tn_parent :: "addr option"
  tn_children :: "addr list"
  tn_last_payload :: "addr option"
  tn_last_message_ts :: u64
  tn_last_subtree_message_ts :: u64
  tn_last_display_update_us :: u64
  tn_last_subtree_display_update_us :: u64
  tn_message_count :: u32
  tn_subtree_message_count :: u32
  tn_last_payload_len :: u32
  tn_last_payload_stored :: u32
  tn_throughput :: dbl
  tn_last_qos :: u8
  tn_has_retained :: bool
  tn_expanded :: bool
  tn_filter_match :: bool
  tn_segment :: string
  tn_msg_count_str :: string
  tn_subtree_count_str :: string

definition zero_node :: topic_node where
  "zero_node = \<lparr>tn_parent = None, tn_children = [], tn_last_payload = None, tn_last_message_ts = 0,
     tn_last_subtree_message_ts = 0, tn_last_display_update_us = 0, tn_last_subtree_display_update_us = 0,
     tn_message_count = 0, tn_subtree_message_count = 0, tn_last_payload_len = 0,
     tn_last_payload_stored = 0, tn_throughput = Fin 0, tn_last_qos = 0, tn_has_retained = False,
     tn_expanded = False, tn_filter_match = False, tn_segment = '''', tn_msg_count_str = '''',
     tn_subtree_count_str = ''''\<rparr>"

record topic_tree =
  tt_node_pool :: "topic_node pool_alloc"
  tt_payload_pool :: "bytes pool_alloc"
  tt_roots :: "addr list"
  tt_total_count :: u32

text \<open>Dereferencing a node pointer, and writing through it.\<close>

definition node_at :: "topic_tree \<Rightarrow> addr \<Rightarrow> topic_node option" where
  "node_at t a =
     (case pl_mem (tt_node_pool t) a of
        Some (Obj n) \<Rightarrow> Some n
      | Some Zeroed \<Rightarrow> Some zero_node
      | _ \<Rightarrow> None)"

definition set_node :: "addr \<Rightarrow> topic_node \<Rightarrow> topic_tree \<Rightarrow> topic_tree" where
  "set_node a n t = t\<lparr>tt_node_pool := pool_write a n (tt_node_pool t)\<rparr>"

subsection \<open>Operations\<close>

definition node_new :: "topic_tree \<Rightarrow> string \<Rightarrow> addr option \<Rightarrow> (addr \<times> topic_tree) option" where
  "node_new t segment parent =
     (case pool_alloc_get (tt_node_pool t) of
        None \<Rightarrow> None
      | Some (p, pool) \<Rightarrow>
          (let t1 = t\<lparr>tt_node_pool := pool\<rparr> in
           case node_at t1 p of
             None \<Rightarrow> None
           | Some n \<Rightarrow>
               (let n' = n\<lparr>tn_segment := util_str_copy (tn_segment n) 128 (Some segment),
                           tn_parent := parent, tn_children := [], tn_message_count := 0,
                           tn_subtree_message_count := 0, tn_has_retained := False,
                           tn_expanded := False, tn_last_message_ts := 0,
                           tn_last_subtree_message_ts := 0, tn_last_payload := None,
                           tn_last_payload_stored := 0, tn_last_payload_len := 0,
                           tn_subtree_count_str := '''', tn_throughput := Fin 0\<rparr>
                in Some (p, (set_node p n' t1)\<lparr>tt_total_count := tt_total_count t1 + 1\<rparr>))))"

text \<open>The result is \<open>Some None\<close> for NULL.\<close>

fun find_child :: "topic_tree \<Rightarrow> addr list \<Rightarrow> string \<Rightarrow> addr option option" where
  "find_child t [] segment = Some None"
| "find_child t (c # cs) segment =
     (case node_at t c of
        None \<Rightarrow> None
      | Some n \<Rightarrow> if tn_segment n = segment then Some (Some c) else find_child t cs segment)"

text \<open>
  The array \<open>children\<close> of the current level is the root array or that of a node; \<open>o\<close>
  (the C variable \<open>parent\<close>) says which.
\<close>

definition level :: "topic_tree \<Rightarrow> addr option \<Rightarrow> addr list option" where
  "level t o' = (case o' of None \<Rightarrow> Some (tt_roots t) | Some a \<Rightarrow> map_option tn_children (node_at t a))"

definition add_child :: "addr option \<Rightarrow> addr \<Rightarrow> topic_tree \<Rightarrow> topic_tree option" where
  "add_child o' child t =
     (case o' of
        None \<Rightarrow> Some (if length (tt_roots t) < TOPIC_MAX_CHILDREN
                      then t\<lparr>tt_roots := tt_roots t @ [child]\<rparr> else t)
      | Some a \<Rightarrow>
          (case node_at t a of
             None \<Rightarrow> None
           | Some n \<Rightarrow> Some (if length (tn_children n) < TOPIC_MAX_CHILDREN
                             then set_node a (n\<lparr>tn_children := tn_children n @ [child]\<rparr>) t else t)))"

definition topic_tree_init :: "u32 \<Rightarrow> topic_tree" where
  "topic_tree_init initial_pool_size =
     \<lparr>tt_node_pool = pool_alloc_init 752 initial_pool_size,
      tt_payload_pool = pool_alloc_init TOPIC_PAYLOAD_CAP TOPIC_NODE_PAYLOAD_SLAB_CAPACITY,
      tt_roots = [], tt_total_count = 0\<rparr>"

definition topic_tree_destroy :: "topic_tree \<Rightarrow> topic_tree" where
  "topic_tree_destroy t =
     t\<lparr>tt_node_pool := pool_alloc_destroy (tt_node_pool t),
       tt_payload_pool := pool_alloc_destroy (tt_payload_pool t), tt_roots := [], tt_total_count := 0\<rparr>"

text \<open>\<open>segs\<close> are the tokens that \<open>strtok_r\<close> has still to deliver.\<close>

fun insert_loop :: "string list \<Rightarrow> addr option \<Rightarrow> topic_tree \<Rightarrow> (addr option \<times> topic_tree) option" where
  "insert_loop [] current t = Some (current, t)"
| "insert_loop (seg # segs) parent t =
     (case level t parent of
        None \<Rightarrow> None
      | Some children \<Rightarrow>
          (case find_child t children seg of
             None \<Rightarrow> None
           | Some (Some current) \<Rightarrow> insert_loop segs (Some current) t
           | Some None \<Rightarrow>
               if length children \<ge> TOPIC_MAX_CHILDREN then Some (None, t)
               else
                 (case node_new t seg parent of
                    None \<Rightarrow> None
                  | Some (current, t1) \<Rightarrow>
                      (case add_child parent current t1 of
                         None \<Rightarrow> None
                       | Some t2 \<Rightarrow> insert_loop segs (Some current) t2))))"

definition topic_tree_insert :: "topic_tree \<Rightarrow> string \<Rightarrow> (addr option \<times> topic_tree) option" where
  "topic_tree_insert t topic = insert_loop (tokens (CHR ''/'') (util_str_copy '''' 512 (Some topic))) None t"

fun find_loop :: "string list \<Rightarrow> addr option \<Rightarrow> topic_tree \<Rightarrow> addr option option" where
  "find_loop [] current t = Some current"
| "find_loop (seg # segs) parent t =
     (case level t parent of
        None \<Rightarrow> None
      | Some children \<Rightarrow>
          (case find_child t children seg of
             None \<Rightarrow> None
           | Some None \<Rightarrow> Some None
           | Some (Some current) \<Rightarrow> find_loop segs (Some current) t))"

definition topic_tree_find :: "topic_tree \<Rightarrow> string \<Rightarrow> addr option option" where
  "topic_tree_find t topic = find_loop (tokens (CHR ''/'') (util_str_copy '''' 512 (Some topic))) None t"

text \<open>
  The loops over a node and its ancestors. They end because parent links do; on a tree with a
  cycle of parents they would not, which is the value \<open>None\<close>.
\<close>

partial_function (option) walk_up ::
    "(topic_node \<Rightarrow> topic_node) \<Rightarrow> addr option \<Rightarrow> topic_tree \<Rightarrow> topic_tree option" where
  "walk_up f p t =
     (case p of
        None \<Rightarrow> Some t
      | Some a \<Rightarrow>
          (case node_at t a of
             None \<Rightarrow> None
           | Some n \<Rightarrow> walk_up f (tn_parent (f n)) (set_node a (f n) t)))"

definition bump_subtree :: "topic_node \<Rightarrow> topic_node" where
  "bump_subtree n = n\<lparr>tn_subtree_message_count := tn_subtree_message_count n + 1\<rparr>"

definition topic_node_count_message :: "addr \<Rightarrow> topic_tree \<Rightarrow> topic_tree option" where
  "topic_node_count_message node t =
     (case node_at t node of
        None \<Rightarrow> None
      | Some n \<Rightarrow>
          walk_up bump_subtree (Some node)
            (set_node node (n\<lparr>tn_message_count := tn_message_count n + 1\<rparr>) t))"

text \<open>The badge \<open>"\xce\xa3 %u"\<close>.\<close>

definition sum_badge :: "u32 \<Rightarrow> string" where
  "sum_badge c = snprintf 16 ([char_of (0xce::nat), char_of (0xa3::nat), CHR '' ''] @ dec (unat c))"

definition uncount_subtree :: "u32 \<Rightarrow> topic_node \<Rightarrow> topic_node" where
  "uncount_subtree cleared p =
     (let c = (if tn_subtree_message_count p > cleared then tn_subtree_message_count p - cleared else 0)
      in p\<lparr>tn_subtree_message_count := c,
           tn_subtree_count_str := (if c > 0 then sum_badge c else '''')\<rparr>)"

definition payload_cleared :: "topic_node \<Rightarrow> topic_node" where
  "payload_cleared n = n\<lparr>tn_last_payload_stored := 0\<rparr>"

definition topic_node_payload_clear :: "addr \<Rightarrow> topic_tree \<Rightarrow> topic_tree option" where
  "topic_node_payload_clear node t =
     map_option (\<lambda>n. set_node node (payload_cleared n) t) (node_at t node)"

definition topic_node_clear_messages :: "addr \<Rightarrow> topic_tree \<Rightarrow> (u32 \<times> topic_tree) option" where
  "topic_node_clear_messages node t =
     (case node_at t node of
        None \<Rightarrow> None
      | Some n0 \<Rightarrow>
          (let cleared = tn_message_count n0 in
           case (if cleared > 0 then walk_up (uncount_subtree cleared) (Some node) t else Some t) of
             None \<Rightarrow> None
           | Some t1 \<Rightarrow>
               (case node_at t1 node of
                  None \<Rightarrow> None
                | Some n1 \<Rightarrow>
                    (case topic_node_payload_clear node
                            (set_node node (n1\<lparr>tn_message_count := 0, tn_msg_count_str := ''''\<rparr>) t1) of
                       None \<Rightarrow> None
                     | Some t2 \<Rightarrow>
                         map_option (\<lambda>n2. (cleared, set_node node (n2\<lparr>tn_has_retained := False\<rparr>) t2))
                           (node_at t2 node)))))"

definition topic_tree_count :: "topic_tree \<Rightarrow> u32" where
  "topic_tree_count t = tt_total_count t"

definition topic_node_payload :: "topic_node \<Rightarrow> addr option \<times> u32" where
  "topic_node_payload n =
     (tn_last_payload n, if tn_last_payload n \<noteq> None then tn_last_payload_stored n else 0)"

text \<open>A payload block: what was copied into it, zeros before.\<close>

definition block_at :: "topic_tree \<Rightarrow> addr \<Rightarrow> bytes option" where
  "block_at t p =
     (case pl_mem (tt_payload_pool t) p of
        Some (Obj bs) \<Rightarrow> Some bs
      | Some Zeroed \<Rightarrow> Some (replicate TOPIC_PAYLOAD_CAP 0)
      | _ \<Rightarrow> None)"

text \<open>\<open>src\<close> is NULL or a block of exactly \<open>len\<close> bytes.\<close>

definition topic_node_payload_set :: "addr \<Rightarrow> bytes option \<Rightarrow> topic_tree \<Rightarrow> topic_tree option" where
  "topic_node_payload_set node src t =
     (case src of
        None \<Rightarrow> topic_node_payload_clear node t
      | Some bytes \<Rightarrow>
          if length bytes = 0 then topic_node_payload_clear node t
          else
            (case node_at t node of
               None \<Rightarrow> None
             | Some n \<Rightarrow>
                 (case (case tn_last_payload n of
                          Some p \<Rightarrow> Some (p, t)
                        | None \<Rightarrow>
                            map_option (\<lambda>(p, pool). (p, (set_node node (n\<lparr>tn_last_payload := Some p\<rparr>) t)
                                                          \<lparr>tt_payload_pool := pool\<rparr>))
                              (pool_alloc_get (tt_payload_pool t))) of
                    None \<Rightarrow> None
                  | Some (p, t1) \<Rightarrow>
                      (let k = (if length bytes < TOPIC_PAYLOAD_CAP then length bytes else TOPIC_PAYLOAD_CAP) in
                       case (block_at t1 p, node_at t1 node) of
                         (Some old, Some n1) \<Rightarrow>
                           Some ((set_node node (n1\<lparr>tn_last_payload_stored := word_of_nat k\<rparr>) t1)
                                   \<lparr>tt_payload_pool := pool_write p (take k bytes @ drop k old) (tt_payload_pool t1)\<rparr>)
                       | _ \<Rightarrow> None))))"

text \<open>The stack of \<open>topic_node_full_path\<close>: the node, its parent, at most 64 of them.\<close>

fun path_stack :: "nat \<Rightarrow> addr option \<Rightarrow> topic_tree \<Rightarrow> topic_node list option" where
  "path_stack room None t = Some []"
| "path_stack 0 (Some a) t = Some []"
| "path_stack (Suc room) (Some a) t =
     (case node_at t a of
        None \<Rightarrow> None
      | Some n \<Rightarrow> map_option ((#) n) (path_stack room (tn_parent n) t))"

text \<open>The writing loop, root first; \<open>first\<close> is the C condition \<open>i = depth - 1\<close>.\<close>

fun path_write :: "nat \<Rightarrow> bool \<Rightarrow> string \<Rightarrow> topic_node list \<Rightarrow> string" where
  "path_write buf_size first buf [] = buf"
| "path_write buf_size first buf (n # ns) =
     (let seg_len = length (tn_segment n) in
      if length buf + seg_len + (if first then 0 else 1) \<ge> buf_size then buf
      else path_write buf_size False ((if first then buf else buf @ ''/'') @ tn_segment n) ns)"

definition topic_node_full_path :: "addr \<Rightarrow> string \<Rightarrow> nat \<Rightarrow> topic_tree \<Rightarrow> string option" where
  "topic_node_full_path node buf buf_size t =
     (if buf_size = 0 then Some buf
      else map_option (\<lambda>stack. path_write buf_size True '''' (rev stack)) (path_stack 64 (Some node) t))"

subsection \<open>Well-formed trees\<close>

definition nodes :: "topic_tree \<Rightarrow> addr set" where
  "nodes t = pool_live (tt_node_pool t)"

definition nd :: "topic_tree \<Rightarrow> addr \<Rightarrow> topic_node" where
  "nd t a = (case pl_mem (tt_node_pool t) a of Some (Obj n) \<Rightarrow> n | _ \<Rightarrow> zero_node)"

definition kids :: "topic_tree \<Rightarrow> addr option \<Rightarrow> addr list" where
  "kids t o' = (case o' of None \<Rightarrow> tt_roots t | Some a \<Rightarrow> tn_children (nd t a))"

definition level_ok :: "topic_tree \<Rightarrow> addr option \<Rightarrow> bool" where
  "level_ok t o' \<longleftrightarrow> (case o' of None \<Rightarrow> True | Some a \<Rightarrow> a \<in> nodes t)"

definition path_of :: "(addr \<Rightarrow> string list) \<Rightarrow> addr option \<Rightarrow> string list" where
  "path_of P o' = (case o' of None \<Rightarrow> [] | Some a \<Rightarrow> P a)"

definition seg_ok :: "string \<Rightarrow> bool" where
  "seg_ok s \<longleftrightarrow> s \<noteq> [] \<and> CHR ''/'' \<notin> set s \<and> length s < 128"

text \<open>
  \<open>P\<close> gives every node the list of segments from its root. Nodes are initialised, their parent
  links agree with \<open>P\<close>, no two nodes have the same path, and the child arrays hold exactly the
  nodes whose parent link says so.
\<close>

definition tree_ok :: "(addr \<Rightarrow> string list) \<Rightarrow> topic_tree \<Rightarrow> bool" where
  "tree_ok P t \<longleftrightarrow> pool_wf (tt_node_pool t)
     \<and> (\<forall>a\<in>nodes t. pl_mem (tt_node_pool t) a = Some (Obj (nd t a)))
     \<and> (\<forall>a\<in>nodes t. level_ok t (tn_parent (nd t a))
          \<and> P a = path_of P (tn_parent (nd t a)) @ [tn_segment (nd t a)] \<and> seg_ok (tn_segment (nd t a)))
     \<and> inj_on P (nodes t)
     \<and> (\<forall>o'. level_ok t o' \<longrightarrow> distinct (kids t o') \<and> length (kids t o') \<le> TOPIC_MAX_CHILDREN
          \<and> set (kids t o') = {c \<in> nodes t. tn_parent (nd t c) = o'})
     \<and> tt_total_count t = word_of_nat (card (nodes t))"

lemma level_ok_simps [simp]: "level_ok t None" "level_ok t (Some a) \<longleftrightarrow> a \<in> nodes t"
  by (simp_all add: level_ok_def)

lemma path_of_simps [simp]: "path_of P None = []" "path_of P (Some a) = P a"
  by (simp_all add: path_of_def)

lemma kids_simps [simp]: "kids t None = tt_roots t" "kids t (Some a) = tn_children (nd t a)"
  by (simp_all add: kids_def)

lemma tree_okD:
  assumes "tree_ok P t"
  shows "pool_wf (tt_node_pool t)"
    and "a \<in> nodes t \<Longrightarrow> pl_mem (tt_node_pool t) a = Some (Obj (nd t a))"
    and "a \<in> nodes t \<Longrightarrow> level_ok t (tn_parent (nd t a))"
    and "a \<in> nodes t \<Longrightarrow> P a = path_of P (tn_parent (nd t a)) @ [tn_segment (nd t a)]"
    and "a \<in> nodes t \<Longrightarrow> seg_ok (tn_segment (nd t a))"
    and "inj_on P (nodes t)"
    and "level_ok t o' \<Longrightarrow> distinct (kids t o')"
    and "level_ok t o' \<Longrightarrow> length (kids t o') \<le> TOPIC_MAX_CHILDREN"
    and "level_ok t o' \<Longrightarrow> set (kids t o') = {c \<in> nodes t. tn_parent (nd t c) = o'}"
    and "tt_total_count t = word_of_nat (card (nodes t))"
  using assms unfolding tree_ok_def by blast+

lemma node_at_nd: "tree_ok P t \<Longrightarrow> a \<in> nodes t \<Longrightarrow> node_at t a = Some (nd t a)"
  by (simp add: node_at_def tree_okD(2))

lemma level_kids: "tree_ok P t \<Longrightarrow> level_ok t o' \<Longrightarrow> level t o' = Some (kids t o')"
  by (cases o') (simp_all add: level_def node_at_nd)

lemma path_ne: "tree_ok P t \<Longrightarrow> a \<in> nodes t \<Longrightarrow> P a \<noteq> []"
  using tree_okD(4) [of P t a] by simp

lemma finite_nodes [simp]: "finite (nodes t)"
  by (simp add: nodes_def)

subsection \<open>Searching\<close>

lemma find_child_seg:
  assumes "tree_ok P t" "set cs \<subseteq> nodes t"
  shows "find_child t cs seg = Some (List.find (\<lambda>c. tn_segment (nd t c) = seg) cs)"
  using assms(2) by (induction cs) (simp_all add: node_at_nd [OF assms(1)])

lemma find_child_path:
  assumes "tree_ok P t" "level_ok t o'"
  shows "\<exists>r. find_child t (kids t o') seg = Some r
     \<and> (\<forall>c. r = Some c \<longleftrightarrow> c \<in> nodes t \<and> P c = path_of P o' @ [seg])"
proof -
  note ok = tree_okD [OF assms(1)]
  have set: "set (kids t o') = {c \<in> nodes t. tn_parent (nd t c) = o'}" by (rule ok(9) [OF assms(2)])
  let ?r = "List.find (\<lambda>c. tn_segment (nd t c) = seg) (kids t o')"
  have uniq: "a = b" if "a \<in> nodes t" "b \<in> nodes t" "P a = P b" for a b
    using ok(6) that by (auto dest: inj_onD)
  have parent: "tn_parent (nd t c) = o'" if c: "c \<in> nodes t" "P c = path_of P o' @ [seg]" for c
  proof -
    have "path_of P (tn_parent (nd t c)) = path_of P o'" using ok(4) [OF c(1)] c(2) by simp
    then show ?thesis
      using ok(3) [OF c(1)] assms(2) path_ne [OF assms(1)] path_ne [OF assms(1), symmetric] uniq
      by (cases "tn_parent (nd t c)"; cases o') auto
  qed
  have "?r = Some c \<longleftrightarrow> c \<in> nodes t \<and> P c = path_of P o' @ [seg]" for c
  proof
    assume "?r = Some c"
    then have "c \<in> set (kids t o')" "tn_segment (nd t c) = seg"
      by (auto simp: find_Some_iff in_set_conv_nth)
    then show "c \<in> nodes t \<and> P c = path_of P o' @ [seg]" using set ok(4) [of c] by auto
  next
    assume c: "c \<in> nodes t \<and> P c = path_of P o' @ [seg]"
    then have mem: "c \<in> set (kids t o')" "tn_segment (nd t c) = seg"
      using parent set ok(4) [of c] by auto
    then obtain d where d: "?r = Some d" by (cases ?r) (auto simp: find_None_iff)
    then have "d \<in> set (kids t o')" "tn_segment (nd t d) = seg"
      by (auto simp: find_Some_iff in_set_conv_nth)
    then have "P d = path_of P o' @ [seg]" "d \<in> nodes t" using set ok(4) [of d] by auto
    then show "?r = Some c" using uniq c d by auto
  qed
  moreover have "set (kids t o') \<subseteq> nodes t" using set by auto
  ultimately show ?thesis using find_child_seg [OF assms(1)] by blast
qed

lemma path_prefix_node:
  assumes "tree_ok P t" "a \<in> nodes t" "P a = q @ p" "q \<noteq> []"
  shows "\<exists>b\<in>nodes t. P b = q"
  using assms(2,3)
proof (induction p arbitrary: a rule: rev_induct)
  case Nil
  then show ?case by auto
next
  case (snoc s p)
  have up: "path_of P (tn_parent (nd t a)) = q @ p"
    using tree_okD(4) [OF assms(1) snoc.prems(1)] snoc.prems(2) by simp
  then obtain b where b: "tn_parent (nd t a) = Some b" using assms(4) by (cases "tn_parent (nd t a)") auto
  then have "b \<in> nodes t" using tree_okD(3) [OF assms(1) snoc.prems(1)] by simp
  then show ?case using snoc.IH up b by simp
qed

lemma find_loop_path:
  assumes "tree_ok P t" "level_ok t o'" "segs \<noteq> []"
  shows "\<exists>r. find_loop segs o' t = Some r
     \<and> (\<forall>c. r = Some c \<longleftrightarrow> c \<in> nodes t \<and> P c = path_of P o' @ segs)"
  using assms(2,3)
proof (induction segs arbitrary: o')
  case (Cons seg segs)
  obtain r where r: "find_child t (kids t o') seg = Some r"
      "\<And>c. r = Some c \<longleftrightarrow> c \<in> nodes t \<and> P c = path_of P o' @ [seg]"
    using find_child_path [OF assms(1) Cons.prems(1)] by blast
  have lv: "level t o' = Some (kids t o')" by (rule level_kids [OF assms(1) Cons.prems(1)])
  show ?case
  proof (cases r)
    case None
    have "\<not> (c \<in> nodes t \<and> P c = path_of P o' @ seg # segs)" for c
      using path_prefix_node [OF assms(1), of c "path_of P o' @ [seg]" segs] r(2) None by auto
    then show ?thesis using lv r(1) None by auto
  next
    case (Some b)
    then have b: "b \<in> nodes t" "P b = path_of P o' @ [seg]" using r(2) by auto
    show ?thesis
    proof (cases "segs = []")
      case True
      then show ?thesis using lv r Some by auto
    next
      case False
      then show ?thesis using Cons.IH [of "Some b"] b lv r(1) Some by simp
    qed
  qed
qed simp

subsection \<open>Changing nodes in place\<close>

text \<open>
  A change of the nodes that leaves the links alone. \<open>set_node\<close> and the ancestor walks are
  instances.
\<close>

definition node_map :: "(addr \<Rightarrow> topic_node \<Rightarrow> topic_node) \<Rightarrow> topic_tree \<Rightarrow> topic_tree" where
  "node_map g t = t\<lparr>tt_node_pool := (tt_node_pool t)
     \<lparr>pl_mem := \<lambda>a. map_option (map_cell (g a)) (pl_mem (tt_node_pool t) a)\<rparr>\<rparr>"

definition links_same :: "topic_node \<Rightarrow> topic_node \<Rightarrow> bool" where
  "links_same n m \<longleftrightarrow> tn_parent n = tn_parent m \<and> tn_children n = tn_children m \<and> tn_segment n = tn_segment m"

lemma map_cell_Free_Link: "map_cell f c = Free_Link q \<longleftrightarrow> c = Free_Link q"
  by (cases c) auto

lemma free_chain_map:
  "free_chain (\<lambda>a. map_option (map_cell (g a)) (m a)) p fl = free_chain m p fl"
proof (induction fl arbitrary: p)
  case (Cons a fl)
  have "(map_option (map_cell (g a)) (m a) = Some (Free_Link q)) = (m a = Some (Free_Link q))" for q
    by (cases "m a") (simp_all add: map_cell_Free_Link)
  then show ?case using Cons by simp
qed simp

lemma is_free_map [simp]: "is_free (map_option (map_cell f) c) = is_free c"
  by (auto simp: is_free_def split: option.splits cell.splits)

lemma pool_map:
  assumes "pool_wf pool"
  shows "pool_wf (pool\<lparr>pl_mem := \<lambda>a. map_option (map_cell (g a)) (pl_mem pool a)\<rparr>)"
    and "pool_live (pool\<lparr>pl_mem := \<lambda>a. map_option (map_cell (g a)) (pl_mem pool a)\<rparr>) = pool_live pool"
proof -
  let ?m = "\<lambda>a. map_option (map_cell (g a)) (pl_mem pool a)"
  let ?p = "pool\<lparr>pl_mem := ?m\<rparr>"
  have carved: "carved ?p = carved pool" by (simp add: carved_def)
  then show live: "pool_live ?p = pool_live pool" by (simp add: pool_live_def)
  have zero: "a \<notin> carved pool \<and> ?m a \<noteq> None \<longrightarrow> ?m a = Some Zeroed" for a
    using wf_zero [OF assms, of a] by auto
  show "pool_wf ?p"
    using assms zero live unfolding pool_wf_def carved by (simp add: free_chain_map)
qed

lemma node_map_simps [simp]:
  "tt_roots (node_map g t) = tt_roots t" "tt_total_count (node_map g t) = tt_total_count t"
  "tt_payload_pool (node_map g t) = tt_payload_pool t"
  by (simp_all add: node_map_def)

lemma nodes_node_map: "pool_wf (tt_node_pool t) \<Longrightarrow> nodes (node_map g t) = nodes t"
  by (simp add: nodes_def node_map_def pool_map)

lemma mem_nd: "tree_ok P t \<Longrightarrow> a \<in> nodes t \<Longrightarrow> \<exists>n. pl_mem (tt_node_pool t) a = Some (Obj n)"
  using tree_okD(2) [of P t a] by blast

lemma nd_node_map: "tree_ok P t \<Longrightarrow> a \<in> nodes t \<Longrightarrow> nd (node_map g t) a = g a (nd t a)"
  using mem_nd [of P t a] by (auto simp: nd_def node_map_def)

lemma tree_ok_node_map:
  assumes "tree_ok P t" "\<And>a n. links_same (g a n) n"
  shows "tree_ok P (node_map g t)"
proof -
  note ok = tree_okD [OF assms(1)]
  have ns: "nodes (node_map g t) = nodes t" by (rule nodes_node_map [OF ok(1)])
  have nd: "nd (node_map g t) a = g a (nd t a)" if "a \<in> nodes t" for a
    by (rule nd_node_map [OF assms(1) that])
  have same: "tn_parent (nd (node_map g t) a) = tn_parent (nd t a)"
      "tn_children (nd (node_map g t) a) = tn_children (nd t a)"
      "tn_segment (nd (node_map g t) a) = tn_segment (nd t a)" if "a \<in> nodes t" for a
    using assms(2) [of a "nd t a"] nd [OF that] by (auto simp: links_same_def)
  have lv: "level_ok (node_map g t) o' = level_ok t o'" for o' by (cases o') (simp_all add: ns)
  have ks: "kids (node_map g t) o' = kids t o'" if "level_ok t o'" for o'
    using that same by (cases o') auto
  have mem: "pl_mem (tt_node_pool (node_map g t)) a = Some (Obj (nd (node_map g t) a))" if "a \<in> nodes t" for a
    using mem_nd [OF assms(1) that] by (auto simp: nd_def node_map_def)
  have ch: "{c \<in> nodes t. tn_parent (nd (node_map g t) c) = o'} = {c \<in> nodes t. tn_parent (nd t c) = o'}" for o'
    using same by auto
  have "pool_wf (tt_node_pool (node_map g t))" using pool_map(1) [OF ok(1)] by (simp add: node_map_def)
  then show ?thesis
    using ok mem same ks ch unfolding tree_ok_def ns lv by simp
qed

lemma set_node_map:
  assumes "tree_ok P t" "a \<in> nodes t"
  shows "set_node a (f (nd t a)) t = node_map (\<lambda>d. if d = a then f else id) t"
proof -
  have "(pl_mem (tt_node_pool t))(a \<mapsto> Obj (f (nd t a)))
      = (\<lambda>d. map_option (map_cell (if d = a then f else id)) (pl_mem (tt_node_pool t) d))"
    using tree_okD(2) [OF assms] by (auto simp: fun_eq_iff option.map_id cell.map_id0)
  then show ?thesis by (simp add: set_node_def pool_write_def node_map_def)
qed

lemma node_map_comp: "node_map g (node_map h t) = node_map (\<lambda>a. g a \<circ> h a) t"
  by (simp add: node_map_def option.map_comp comp_def cell.map_comp)

lemma node_map_cong:
  assumes "\<And>a n. g a n = h a n"
  shows "node_map g t = node_map h t"
proof -
  have "g = h" using assms by (simp add: fun_eq_iff)
  then show ?thesis by simp
qed

subsection \<open>The ancestor walk\<close>

lemma walk_up_run:
  assumes "tree_ok P t" "a \<in> nodes t" "\<And>n. links_same (f n) n"
  shows "walk_up f (Some a) t = Some (node_map (\<lambda>d. if d \<in> nodes t \<and> prefix (P d) (P a) then f else id) t)"
  using assms(1,2)
proof (induction "length (P a)" arbitrary: a t rule: less_induct)
  case less
  let ?n = "nd t a"
  let ?t = "node_map (\<lambda>d. if d = a then f else id) t"
  have step: "walk_up f (Some a) t = walk_up f (tn_parent ?n) ?t"
    using node_at_nd [OF less.prems] set_node_map [OF less.prems] assms(3) [of ?n]
    by (simp add: walk_up.simps [of f "Some a"] links_same_def)
  have ok: "tree_ok P ?t" by (rule tree_ok_node_map [OF less.prems(1)]) (simp add: assms(3), simp add: links_same_def)
  have ns: "nodes ?t = nodes t" by (rule nodes_node_map [OF tree_okD(1) [OF less.prems(1)]])
  have pa: "P a = path_of P (tn_parent ?n) @ [tn_segment ?n]" by (rule tree_okD(4) [OF less.prems])
  have eqa: "P d = P a \<longleftrightarrow> d = a" if "d \<in> nodes t" for d
    using tree_okD(6) [OF less.prems(1)] less.prems(2) that by (auto dest: inj_onD)
  show ?case
  proof (cases "tn_parent ?n")
    case None
    have "prefix (P d) (P a) \<longleftrightarrow> d = a" if "d \<in> nodes t" for d
      using pa None path_ne [OF less.prems(1) that] eqa [OF that] by (auto simp: prefix_Cons)
    then have "?t = node_map (\<lambda>d. if d \<in> nodes t \<and> prefix (P d) (P a) then f else id) t"
      by (intro node_map_cong) (use less.prems(2) in auto)
    then show ?thesis using step None by (simp add: walk_up.simps [of f None])
  next
    case (Some b)
    have b: "b \<in> nodes t" using tree_okD(3) [OF less.prems] Some by simp
    have shorter: "length (P b) < length (P a)" using pa Some by simp
    have pre: "prefix (P d) (P a) \<longleftrightarrow> d = a \<or> prefix (P d) (P b)" if "d \<in> nodes t" for d
      using pa Some eqa [OF that] by auto
    have nb: "\<not> prefix (P a) (P b)" using shorter by (auto dest: prefix_length_le)
    have "walk_up f (Some b) ?t
        = Some (node_map (\<lambda>d. if d \<in> nodes ?t \<and> prefix (P d) (P b) then f else id) ?t)"
      by (rule less.hyps [OF shorter ok]) (simp add: ns b)
    also have "node_map (\<lambda>d. if d \<in> nodes ?t \<and> prefix (P d) (P b) then f else id) ?t
        = node_map (\<lambda>d. if d \<in> nodes t \<and> prefix (P d) (P a) then f else id) t"
      unfolding node_map_comp ns
      by (intro node_map_cong) (use less.prems(2) pre nb in auto)
    finally show ?thesis using step Some by simp
  qed
qed

subsection \<open>Inserting\<close>

text \<open>A node as \<open>node_new\<close> leaves it.\<close>

definition fresh_node :: "string \<Rightarrow> addr option \<Rightarrow> topic_node" where
  "fresh_node seg parent = zero_node\<lparr>tn_segment := seg, tn_parent := parent\<rparr>"

text \<open>\<open>t'\<close> is \<open>t\<close> with the new node \<open>c\<close> linked below \<open>o'\<close>.\<close>

definition linked :: "topic_tree \<Rightarrow> addr option \<Rightarrow> string \<Rightarrow> addr \<Rightarrow> topic_tree \<Rightarrow> bool" where
  "linked t o' seg c t' \<longleftrightarrow> c \<notin> nodes t \<and> nodes t' = insert c (nodes t) \<and> pool_wf (tt_node_pool t')
     \<and> (\<forall>a\<in>nodes t'. pl_mem (tt_node_pool t') a = Some (Obj (nd t' a)))
     \<and> nd t' c = fresh_node seg o'
     \<and> (\<forall>a\<in>nodes t. nd t' a = (if o' = Some a then (nd t a)\<lparr>tn_children := tn_children (nd t a) @ [c]\<rparr>
                                else nd t a))
     \<and> tt_roots t' = (if o' = None then tt_roots t @ [c] else tt_roots t)
     \<and> tt_total_count t' = tt_total_count t + 1 \<and> tt_payload_pool t' = tt_payload_pool t"

lemma nd_mem: "pl_mem (tt_node_pool t) a = Some (Obj n) \<Longrightarrow> nd t a = n"
  by (simp add: nd_def)

lemma node_new_run:
  assumes "tree_ok P t" "level_ok t o'" "seg_ok seg" "card (nodes t) + 1 < 2 ^ 32"
    and "length (kids t o') < TOPIC_MAX_CHILDREN"
  shows "\<exists>c t1 t2. node_new t seg o' = Some (c, t1) \<and> add_child o' c t1 = Some t2 \<and> linked t o' seg c t2"
proof -
  note ok = tree_okD [OF assms(1)]
  obtain c pool where g: "pool_alloc_get (tt_node_pool t) = Some (c, pool)" "pool_wf pool"
      "fresh_slot (tt_node_pool t) c pool"
    using pool_get_contract [OF ok(1)] assms(4) by (auto simp: nodes_def)
  then have fr: "c \<notin> nodes t" "pool_live pool = insert c (nodes t)" "pl_mem pool c = Some Zeroed"
      "\<And>a. a \<in> nodes t \<Longrightarrow> pl_mem pool a = pl_mem (tt_node_pool t) a"
    by (auto simp: fresh_slot_def nodes_def)
  have short: "length seg < 128" using assms(3) by (simp add: seg_ok_def)
  let ?t1 = "t\<lparr>tt_node_pool := pool_write c (fresh_node seg o') pool, tt_total_count := tt_total_count t + 1\<rparr>"
  have new: "node_new t seg o' = Some (c, ?t1)"
    using short fr(3)
    by (simp add: node_new_def g(1) node_at_def set_node_def fresh_node_def zero_node_def)
  have w1: "pool_wf (tt_node_pool ?t1)" "nodes ?t1 = insert c (nodes t)"
    using pool_write_contract [of pool c "fresh_node seg o'"] g(2) fr(2) by (simp_all add: nodes_def)
  have m1: "pl_mem (tt_node_pool ?t1) c = Some (Obj (fresh_node seg o'))"
      "\<And>a. a \<in> nodes t \<Longrightarrow> pl_mem (tt_node_pool ?t1) a = Some (Obj (nd t a))"
    using fr(1,4) ok(2) by (auto simp: pool_write_def)
  show ?thesis
  proof (cases o')
    case None
    let ?t2 = "?t1\<lparr>tt_roots := tt_roots t @ [c]\<rparr>"
    have "add_child o' c ?t1 = Some ?t2" using None assms(5) by (simp add: add_child_def)
    moreover have "linked t o' seg c ?t2"
      using None fr(1) w1 m1 unfolding linked_def by (auto simp: nodes_def nd_def)
    ultimately show ?thesis using new by blast
  next
    case (Some b)
    have b: "b \<in> nodes t" "b \<noteq> c" using assms(2) Some fr(1) by auto
    let ?n = "(nd t b)\<lparr>tn_children := tn_children (nd t b) @ [c]\<rparr>"
    let ?t2 = "set_node b ?n ?t1"
    have "node_at ?t1 b = Some (nd t b)" using m1(2) [OF b(1)] by (simp add: node_at_def)
    then have "add_child o' c ?t1 = Some ?t2" using Some assms(5) by (simp add: add_child_def)
    moreover have "linked t o' seg c ?t2"
    proof -
      have w2: "pool_wf (tt_node_pool ?t2)" "nodes ?t2 = insert c (nodes t)"
        using pool_write_contract [OF w1(1), of b ?n] w1(2) b by (simp_all add: set_node_def nodes_def)
      have m2: "pl_mem (tt_node_pool ?t2) c = Some (Obj (fresh_node seg o'))"
          "pl_mem (tt_node_pool ?t2) b = Some (Obj ?n)"
          "\<And>a. a \<in> nodes t \<Longrightarrow> a \<noteq> b \<Longrightarrow> pl_mem (tt_node_pool ?t2) a = Some (Obj (nd t a))"
        using m1 b by (auto simp: set_node_def pool_write_def)
      have n2: "nd ?t2 c = fresh_node seg o'" "nd ?t2 b = ?n"
          "\<And>a. a \<in> nodes t \<Longrightarrow> a \<noteq> b \<Longrightarrow> nd ?t2 a = nd t a"
        using m2 by (auto intro: nd_mem)
      have rest: "tt_roots ?t2 = tt_roots t" "tt_total_count ?t2 = tt_total_count t + 1"
          "tt_payload_pool ?t2 = tt_payload_pool t"
        by (simp_all add: set_node_def)
      have mem2: "pl_mem (tt_node_pool ?t2) a = Some (Obj (nd ?t2 a))" if "a \<in> nodes ?t2" for a
        using that m2 n2 unfolding w2(2) by (cases "a = b") auto
      show ?thesis
        unfolding linked_def using Some fr(1) w2 mem2 n2 rest b by auto
    qed
    ultimately show ?thesis using new by blast
  qed
qed

lemma linked_links:
  assumes "linked t o' seg c t'" "a \<in> nodes t"
  shows "tn_parent (nd t' a) = tn_parent (nd t a)" "tn_segment (nd t' a) = tn_segment (nd t a)"
    and "tn_message_count (nd t' a) = tn_message_count (nd t a)"
    and "tn_subtree_message_count (nd t' a) = tn_subtree_message_count (nd t a)"
  using assms unfolding linked_def by auto

lemma linked_ok:
  assumes "tree_ok P t" "level_ok t o'" "seg_ok seg" "linked t o' seg c t'"
    and "length (kids t o') < TOPIC_MAX_CHILDREN"
    and fresh: "\<And>a. a \<in> nodes t \<Longrightarrow> P a \<noteq> path_of P o' @ [seg]"
  shows "tree_ok (P(c := path_of P o' @ [seg])) t'"
proof -
  note ok = tree_okD [OF assms(1)]
  let ?P = "P(c := path_of P o' @ [seg])"
  have l: "c \<notin> nodes t" "nodes t' = insert c (nodes t)" "nd t' c = fresh_node seg o'"
      "tt_roots t' = (if o' = None then tt_roots t @ [c] else tt_roots t)"
    using assms(4) by (auto simp: linked_def)
  note ll = linked_links [OF assms(4)]
  have nc: "tn_parent (nd t' c) = o'" "tn_segment (nd t' c) = seg" "tn_children (nd t' c) = []"
    by (simp_all add: l(3) fresh_node_def zero_node_def)
  have lv: "level_ok t' q \<longleftrightarrow> q = Some c \<or> level_ok t q" for q by (cases q) (auto simp: l(2))
  have pP: "path_of ?P q = path_of P q" if "level_ok t q" for q using that l(1) by (cases q) auto
  have ks: "kids t' q = (if q = o' then kids t q @ [c] else kids t q)" if "level_ok t q" for q
  proof (cases q)
    case None
    then show ?thesis using l(4) by simp
  next
    case (Some a)
    then have "nd t' a = (if o' = Some a then (nd t a)\<lparr>tn_children := tn_children (nd t a) @ [c]\<rparr> else nd t a)"
      using that assms(4) by (simp add: linked_def)
    then show ?thesis using Some by auto
  qed
  have paths: "level_ok t' (tn_parent (nd t' a)) \<and>
      ?P a = path_of ?P (tn_parent (nd t' a)) @ [tn_segment (nd t' a)] \<and> seg_ok (tn_segment (nd t' a))"
    if "a \<in> nodes t'" for a
  proof (cases "a = c")
    case True
    then show ?thesis using nc assms(2,3) pP by (simp add: lv)
  next
    case False
    then have "a \<in> nodes t" using that l(2) by simp
    then show ?thesis using False ok(3,4,5) [of a] ll [of a] pP by (simp add: lv)
  qed
  have inj: "inj_on ?P (nodes t')"
    unfolding l(2) using ok(6) l(1) fresh fresh [symmetric] by (auto simp: inj_on_def)
  have children: "distinct (kids t' q) \<and> length (kids t' q) \<le> TOPIC_MAX_CHILDREN
      \<and> set (kids t' q) = {x \<in> nodes t'. tn_parent (nd t' x) = q}" if "level_ok t' q" for q
  proof (cases "q = Some c")
    case True
    have "tn_parent (nd t' x) \<noteq> Some c" if "x \<in> nodes t'" for x
    proof (cases "x = c")
      case True
      then show ?thesis using nc(1) assms(2) l(1) by (cases o') auto
    next
      case False
      then have "x \<in> nodes t" using that l(2) by simp
      then show ?thesis using ok(3) [of x] ll(1) [of x] l(1) by (cases "tn_parent (nd t x)") auto
    qed
    then show ?thesis using True nc(3) by auto
  next
    case False
    then have q: "level_ok t q" using that lv by simp
    have "set (kids t q) = {x \<in> nodes t. tn_parent (nd t x) = q}" by (rule ok(9) [OF q])
    then show ?thesis
      using ks [OF q] ok(7,8) [OF q] l(1,2) nc(1) ll(1) assms(5) by auto
  qed
  have "tt_total_count t' = word_of_nat (card (nodes t'))"
    using ok(10) l(1,2) assms(4) by (simp add: linked_def)
  then show ?thesis
    unfolding tree_ok_def using paths inj children assms(4) by (simp add: linked_def)
qed

subsection \<open>Message counts\<close>

definition below :: "(addr \<Rightarrow> string list) \<Rightarrow> topic_tree \<Rightarrow> addr \<Rightarrow> addr set" where
  "below P t a = {d \<in> nodes t. prefix (P a) (P d)}"

definition own_count :: "topic_tree \<Rightarrow> addr \<Rightarrow> nat" where
  "own_count t a = unat (tn_message_count (nd t a))"

definition counts_ok :: "(addr \<Rightarrow> string list) \<Rightarrow> topic_tree \<Rightarrow> bool" where
  "counts_ok P t \<longleftrightarrow>
     (\<forall>a\<in>nodes t. unat (tn_subtree_message_count (nd t a)) = (\<Sum>d\<in>below P t a. own_count t d))"

lemma finite_below [simp]: "finite (below P t a)"
  by (simp add: below_def)

lemma self_below: "a \<in> nodes t \<Longrightarrow> a \<in> below P t a"
  by (simp add: below_def)

lemma linked_counts:
  assumes "tree_ok P t" "level_ok t o'" "linked t o' seg c t'" "counts_ok P t"
    and fresh: "\<And>a. a \<in> nodes t \<Longrightarrow> P a \<noteq> path_of P o' @ [seg]"
  shows "counts_ok (P(c := path_of P o' @ [seg])) t'"
proof -
  let ?P = "P(c := path_of P o' @ [seg])"
  have l: "c \<notin> nodes t" "nodes t' = insert c (nodes t)" "nd t' c = fresh_node seg o'"
    using assms(3) by (auto simp: linked_def)
  note ll = linked_links [OF assms(3)]
  have own: "own_count t' c = 0" "\<And>a. a \<in> nodes t \<Longrightarrow> own_count t' a = own_count t a"
    using ll by (simp_all add: own_count_def l(3) fresh_node_def zero_node_def)
  have "\<not> prefix (path_of P o' @ [seg]) (P d)" if "d \<in> nodes t" for d
    using path_prefix_node [OF assms(1) that, of "path_of P o' @ [seg]"] fresh by (auto simp: prefix_def)
  then have bc: "below ?P t' c = {c}" using l(1,2) by (auto simp: below_def)
  have "(\<Sum>d\<in>below ?P t' a. own_count t' d) = (\<Sum>d\<in>below P t a. own_count t d)" if a: "a \<in> nodes t" for a
  proof -
    have "(\<Sum>d\<in>below ?P t' a. own_count t' d) = (\<Sum>d\<in>below P t a. own_count t' d)"
      by (rule sum.mono_neutral_right) (use a l(1,2) own(1) in \<open>auto simp: below_def\<close>)
    also have "\<dots> = (\<Sum>d\<in>below P t a. own_count t d)"
      by (rule sum.cong) (auto simp: below_def own(2))
    finally show ?thesis .
  qed
  then show ?thesis
    using assms(4) bc own(1) ll(4) l
    by (auto simp: counts_ok_def fresh_node_def zero_node_def)
qed

subsection \<open>Payload snapshots\<close>

text \<open>
  The payload blocks of different nodes are different, are exactly the slots in use, and have the
  size of a slot at most.
\<close>

definition blocks_fit :: "bytes pool_alloc \<Rightarrow> bool" where
  "blocks_fit pool \<longleftrightarrow> (\<forall>p\<in>pool_live pool. \<forall>bs. pl_mem pool p = Some (Obj bs) \<longrightarrow> length bs \<le> TOPIC_PAYLOAD_CAP)"

definition payloads_ok :: "topic_tree \<Rightarrow> bool" where
  "payloads_ok t \<longleftrightarrow> pool_wf (tt_payload_pool t) \<and> blocks_fit (tt_payload_pool t)
     \<and> pool_live (tt_payload_pool t) = {p. \<exists>a\<in>nodes t. tn_last_payload (nd t a) = Some p}
     \<and> (\<forall>a\<in>nodes t. \<forall>b\<in>nodes t. tn_last_payload (nd t a) \<noteq> None \<longrightarrow>
          tn_last_payload (nd t a) = tn_last_payload (nd t b) \<longrightarrow> a = b)"

lemma linked_payloads:
  assumes "linked t o' seg c t'" "payloads_ok t"
  shows "payloads_ok t'"
proof -
  have c: "tn_last_payload (nd t' c) = None" "nodes t' = insert c (nodes t)" "tt_payload_pool t' = tt_payload_pool t"
    using assms(1) by (auto simp: linked_def fresh_node_def zero_node_def)
  have same: "tn_last_payload (nd t' a) = tn_last_payload (nd t a)" if "a \<in> nodes t" for a
    using assms(1) that by (simp add: linked_def)
  have "{p. \<exists>a\<in>nodes t'. tn_last_payload (nd t' a) = Some p} = {p. \<exists>a\<in>nodes t. tn_last_payload (nd t a) = Some p}"
    using c(1,2) same by auto
  moreover have "a = b" if "a \<in> nodes t'" "b \<in> nodes t'" "tn_last_payload (nd t' a) \<noteq> None"
      "tn_last_payload (nd t' a) = tn_last_payload (nd t' b)" for a b
  proof -
    have "a \<in> nodes t" "b \<in> nodes t" using that c(1,2) by auto
    then show ?thesis using that(3,4) assms(2) unfolding payloads_ok_def same [OF \<open>a \<in> nodes t\<close>] same [OF \<open>b \<in> nodes t\<close>] by blast
  qed
  ultimately show ?thesis using assms(2) c(3) unfolding payloads_ok_def by auto
qed

text \<open>The bytes that a reader of \<open>topic_node_payload\<close> may read.\<close>

definition payload_bytes :: "topic_tree \<Rightarrow> addr \<Rightarrow> bytes option" where
  "payload_bytes t a =
     (case topic_node_payload (nd t a) of
        (None, len) \<Rightarrow> Some []
      | (Some p, len) \<Rightarrow> map_option (take (unat len)) (block_at t p))"

lemma block_length:
  assumes "payloads_ok t" "p \<in> pool_live (tt_payload_pool t)" "block_at t p = Some bs"
  shows "length bs \<le> TOPIC_PAYLOAD_CAP"
  using assms by (auto simp: payloads_ok_def blocks_fit_def block_at_def split: option.splits cell.splits)

lemma block_live:
  assumes "pool_wf (tt_payload_pool t)" "p \<in> pool_live (tt_payload_pool t)"
  shows "\<exists>bs. block_at t p = Some bs"
proof -
  have "p \<in> carved (tt_payload_pool t)" "\<not> is_free (pl_mem (tt_payload_pool t) p)"
    using assms(2) by (auto simp: pool_live_def)
  moreover have "pl_mem (tt_payload_pool t) p \<noteq> None"
    using calculation(1) wf_dom [OF assms(1)] by (auto simp: carved_def)
  ultimately show ?thesis
    by (auto simp: block_at_def is_free_def split: option.splits cell.splits)
qed

subsection \<open>The insertion loop\<close>

text \<open>What insertion adds: a node for every prefix of the topic that had none.\<close>

definition grown :: "(addr \<Rightarrow> string list) \<Rightarrow> topic_tree \<Rightarrow> (addr \<Rightarrow> string list) \<Rightarrow> topic_tree \<Rightarrow> bool" where
  "grown P t P' t' \<longleftrightarrow> tree_ok P' t' \<and> nodes t \<subseteq> nodes t' \<and> (\<forall>a\<in>nodes t. P' a = P a)
     \<and> (\<forall>a\<in>nodes t. own_count t' a = own_count t a) \<and> (\<forall>a\<in>nodes t' - nodes t. own_count t' a = 0)
     \<and> (counts_ok P t \<longrightarrow> counts_ok P' t') \<and> (payloads_ok t \<longrightarrow> payloads_ok t')
     \<and> tt_payload_pool t' = tt_payload_pool t"

lemma grown_refl: "tree_ok P t \<Longrightarrow> grown P t P t"
  by (simp add: grown_def)

lemma grown_trans: "grown P t P1 t1 \<Longrightarrow> grown P1 t1 P2 t2 \<Longrightarrow> grown P t P2 t2"
  unfolding grown_def by (auto 4 4)

text \<open>
  The outcome of an insertion whose path is \<open>target\<close>: the node of that path, or NULL when the
  topic has no level at all or a child array on the way is full.
\<close>

definition insert_done :: "(addr \<Rightarrow> string list) \<Rightarrow> topic_tree \<Rightarrow> string list \<Rightarrow> addr option \<Rightarrow> bool" where
  "insert_done P t target r \<longleftrightarrow>
     (case r of
        Some c \<Rightarrow> c \<in> nodes t \<and> P c = target
      | None \<Rightarrow> target = [] \<or> (\<exists>q. level_ok t q \<and> length (kids t q) = TOPIC_MAX_CHILDREN
                                  \<and> strict_prefix (path_of P q) target))"

lemma insert_loop_run:
  assumes "tree_ok P t" "level_ok t o'" "\<forall>s\<in>set segs. seg_ok s" "card (nodes t) + length segs < 2 ^ 32"
  shows "\<exists>r t' P'. insert_loop segs o' t = Some (r, t') \<and> grown P t P' t'
     \<and> P' ` nodes t' \<subseteq> P ` nodes t \<union> {q. q \<noteq> [] \<and> prefix q (path_of P o' @ segs)}
     \<and> card (nodes t') \<le> card (nodes t) + length segs
     \<and> insert_done P' t' (path_of P o' @ segs) r"
  using assms
proof (induction segs arbitrary: o' t P)
  case Nil
  then show ?case by (cases o') (auto intro!: exI [of _ P] grown_refl simp: insert_done_def)
next
  case (Cons seg segs)
  let ?T = "path_of P o' @ seg # segs"
  obtain r where r: "find_child t (kids t o') seg = Some r"
      "\<And>c. r = Some c \<longleftrightarrow> c \<in> nodes t \<and> P c = path_of P o' @ [seg]"
    using find_child_path [OF Cons.prems(1,2)] by blast
  have lv: "level t o' = Some (kids t o')" by (rule level_kids [OF Cons.prems(1,2)])
  have segs: "\<forall>s\<in>set segs. seg_ok s" and seg: "seg_ok seg" using Cons.prems(3) by simp_all
  show ?case
  proof (cases r)
    case (Some b)
    then have b: "b \<in> nodes t" "P b = path_of P o' @ [seg]" using r(2) by auto
    have lb: "level_ok t (Some b)" and room: "card (nodes t) + length segs < 2 ^ 32"
      using b(1) Cons.prems(4) by simp_all
    have T: "path_of P (Some b) @ segs = ?T" using b(2) by simp
    have "insert_loop (seg # segs) o' t = insert_loop segs (Some b) t" using lv r(1) Some by simp
    then show ?thesis using Cons.IH [OF Cons.prems(1) lb segs room] unfolding T by auto
  next
    case None
    have fresh: "P a \<noteq> path_of P o' @ [seg]" if "a \<in> nodes t" for a using r(2) None that by auto
    show ?thesis
    proof (cases "length (kids t o') \<ge> TOPIC_MAX_CHILDREN")
      case True
      then have full: "length (kids t o') = TOPIC_MAX_CHILDREN"
        using tree_okD(8) [OF Cons.prems(1,2)] by simp
      have "insert_loop (seg # segs) o' t = Some (None, t)" using lv r(1) None True by simp
      moreover have "insert_done P t ?T None"
        using full Cons.prems(2) by (auto simp: insert_done_def strict_prefix_def)
      ultimately show ?thesis
        using grown_refl [OF Cons.prems(1)] by (intro exI [of _ None] exI [of _ t] exI [of _ P]) auto
    next
      case False
      have room: "card (nodes t) + 1 < 2 ^ 32" using Cons.prems(4) by simp
      obtain c t1 t2 where n: "node_new t seg o' = Some (c, t1)" "add_child o' c t1 = Some t2"
          "linked t o' seg c t2"
        using node_new_run [OF Cons.prems(1,2) seg room] False by auto
      let ?P = "P(c := path_of P o' @ [seg])"
      have ok2: "tree_ok ?P t2"
        using linked_ok [OF Cons.prems(1,2) seg n(3)] False fresh by simp
      have ns: "nodes t2 = insert c (nodes t)" "c \<notin> nodes t" using n(3) by (auto simp: linked_def)
      have gr: "grown P t ?P t2"
        using ok2 ns n(3) linked_counts [OF Cons.prems(1,2) n(3) _ fresh] linked_links(3) [OF n(3)] linked_payloads [OF n(3)]
        by (auto simp: grown_def own_count_def linked_def fresh_node_def zero_node_def)
      have room2: "card (nodes t2) + length segs < 2 ^ 32" using ns Cons.prems(4) by simp
      have lc: "level_ok t2 (Some c)" by (simp add: ns)
      have T: "path_of ?P (Some c) @ segs = ?T" by simp
      obtain res t' P' where ih: "insert_loop segs (Some c) t2 = Some (res, t')" "grown ?P t2 P' t'"
          "P' ` nodes t' \<subseteq> ?P ` nodes t2 \<union> {q. q \<noteq> [] \<and> prefix q ?T}"
          "card (nodes t') \<le> card (nodes t2) + length segs" "insert_done P' t' ?T res"
        using Cons.IH [OF ok2 lc segs room2] unfolding T by blast
      have run: "insert_loop (seg # segs) o' t = Some (res, t')"
        using lv r(1) None False n(1,2) ih(1) by simp
      have "?P ` nodes t2 \<subseteq> P ` nodes t \<union> {q. q \<noteq> [] \<and> prefix q ?T}" using ns by auto
      then have paths: "P' ` nodes t' \<subseteq> P ` nodes t \<union> {q. q \<noteq> [] \<and> prefix q ?T}"
        using ih(3) by blast
      have "card (nodes t') \<le> card (nodes t) + length (seg # segs)" using ih(4) ns by simp
      then show ?thesis
        using run grown_trans [OF gr ih(2)] paths ih(5) by blast
    qed
  qed
qed

subsection \<open>Topics and paths\<close>

definition topic_path :: "string \<Rightarrow> string list" where
  "topic_path topic = tokens (CHR ''/'') (take 511 topic)"

text \<open>Every level fits the 128-byte segment of a node.\<close>

definition topic_ok :: "string \<Rightarrow> bool" where
  "topic_ok topic \<longleftrightarrow> (\<forall>s\<in>set (topic_path topic). length s < 128)"

lemma topic_ok_segs: "topic_ok topic \<Longrightarrow> \<forall>s\<in>set (topic_path topic). seg_ok s"
  by (auto simp: topic_ok_def seg_ok_def topic_path_def dest: tokens_ne tokens_sep_free)

lemma insert_path: "topic_tree_insert t topic = insert_loop (topic_path topic) None t"
  by (simp add: topic_tree_insert_def topic_path_def util_str_copy_eq)

lemma find_path: "topic_tree_find t topic = find_loop (topic_path topic) None t"
  by (simp add: topic_tree_find_def topic_path_def util_str_copy_eq)

lemma find_iff:
  assumes "tree_ok P t"
  shows "\<exists>r. topic_tree_find t topic = Some r \<and> (\<forall>c. r = Some c \<longleftrightarrow> c \<in> nodes t \<and> P c = topic_path topic)"
proof (cases "topic_path topic = []")
  case True
  then show ?thesis using path_ne [OF assms] by (auto simp: find_path)
next
  case False
  then show ?thesis using find_loop_path [OF assms, of None "topic_path topic"] by (simp add: find_path)
qed

lemma insert_found:
  "find_loop segs o' t = Some (Some c) \<Longrightarrow> insert_loop segs o' t = Some (Some c, t)"
  by (induction segs arbitrary: o') (auto split: option.splits)

lemma length_topic_path: "length (topic_path topic) \<le> 512"
  unfolding topic_path_def by (rule order_trans [OF length_tokens]) simp

lemma insert_contract:
  assumes "tree_ok P t" "topic_ok topic" "card (nodes t) + 512 < 2 ^ 32"
  shows "\<exists>r t' P'. topic_tree_insert t topic = Some (r, t') \<and> grown P t P' t'
     \<and> P' ` nodes t' \<subseteq> P ` nodes t \<union> {q. q \<noteq> [] \<and> prefix q (topic_path topic)}
     \<and> card (nodes t') \<le> card (nodes t) + 512 \<and> insert_done P' t' (topic_path topic) r"
proof -
  have "card (nodes t) + length (topic_path topic) < 2 ^ 32"
    using assms(3) length_topic_path [of topic] by linarith
  then obtain r t' P' where r: "insert_loop (topic_path topic) None t = Some (r, t')" "grown P t P' t'"
      "P' ` nodes t' \<subseteq> P ` nodes t \<union> {q. q \<noteq> [] \<and> prefix q (path_of P None @ topic_path topic)}"
      "card (nodes t') \<le> card (nodes t) + length (topic_path topic)"
      "insert_done P' t' (path_of P None @ topic_path topic) r"
    using insert_loop_run [OF assms(1) _ topic_ok_segs [OF assms(2)], of None] by auto
  have "card (nodes t') \<le> card (nodes t) + 512" using r(4) length_topic_path [of topic] by linarith
  then show ?thesis using r unfolding insert_path by auto
qed

subsection \<open>Counting and clearing\<close>

definition total_count :: "topic_tree \<Rightarrow> nat" where
  "total_count t = (\<Sum>a\<in>nodes t. own_count t a)"

lemma below_total: "(\<Sum>d\<in>below P t a. own_count t d) \<le> total_count t"
  unfolding total_count_def by (rule sum_mono2) (auto simp: below_def)

lemma own_total: "a \<in> nodes t \<Longrightarrow> own_count t a \<le> total_count t"
  unfolding total_count_def by (rule member_le_sum) auto

lemma count_message_run:
  assumes "tree_ok P t" "a \<in> nodes t"
  shows "topic_node_count_message a t = Some (node_map (\<lambda>d n.
      (if prefix (P d) (P a) \<and> d \<in> nodes t then bump_subtree else id)
      (if d = a then n\<lparr>tn_message_count := tn_message_count n + 1\<rparr> else n)) t)"
proof -
  let ?inc = "\<lambda>n. n\<lparr>tn_message_count := tn_message_count n + 1\<rparr> :: topic_node"
  let ?t = "node_map (\<lambda>d. if d = a then ?inc else id) t"
  have st: "set_node a (?inc (nd t a)) t = ?t" by (rule set_node_map [OF assms])
  have ok: "tree_ok P ?t" by (rule tree_ok_node_map [OF assms(1)]) (simp add: links_same_def)
  have ns: "nodes ?t = nodes t" by (rule nodes_node_map [OF tree_okD(1) [OF assms(1)]])
  have "topic_node_count_message a t = walk_up bump_subtree (Some a) ?t"
    using st by (simp add: topic_node_count_message_def node_at_nd [OF assms])
  also have "\<dots> = Some (node_map (\<lambda>d. if d \<in> nodes ?t \<and> prefix (P d) (P a) then bump_subtree else id) ?t)"
    by (rule walk_up_run [OF ok]) (simp_all add: ns assms(2) links_same_def bump_subtree_def)
  finally show ?thesis
    unfolding node_map_comp ns by (auto intro!: arg_cong [of _ _ "\<lambda>g. node_map g t"] simp: fun_eq_iff)
qed

lemma sum_bump:
  assumes "finite S"
  shows "(\<Sum>d\<in>S. f d + (if d = a then 1 else 0)) = (\<Sum>d\<in>S. f d) + (if a \<in> S then 1 else (0::nat))"
  using assms by (simp add: sum.distrib)

lemma count_message_contract:
  assumes "tree_ok P t" "counts_ok P t" "a \<in> nodes t" "total_count t + 1 < 2 ^ 32"
  shows "\<exists>t'. topic_node_count_message a t = Some t' \<and> tree_ok P t' \<and> counts_ok P t' \<and> nodes t' = nodes t
     \<and> (\<forall>d\<in>nodes t. own_count t' d = own_count t d + (if d = a then 1 else 0))"
proof -
  let ?g = "\<lambda>d n. (if prefix (P d) (P a) \<and> d \<in> nodes t then bump_subtree else id)
      (if d = a then n\<lparr>tn_message_count := tn_message_count n + 1\<rparr> else n)"
  let ?t = "node_map ?g t"
  have ok: "tree_ok P ?t"
    by (rule tree_ok_node_map [OF assms(1)]) (simp add: links_same_def bump_subtree_def)
  have ns: "nodes ?t = nodes t" by (rule nodes_node_map [OF tree_okD(1) [OF assms(1)]])
  have nd: "nd ?t d = ?g d (nd t d)" if "d \<in> nodes t" for d by (rule nd_node_map [OF assms(1) that])
  have own: "own_count ?t d = own_count t d + (if d = a then 1 else 0)" if "d \<in> nodes t" for d
  proof -
    have "unat (tn_message_count (nd t a) + 1) = own_count t a + 1"
      using own_total [OF assms(3)] assms(4) unfolding own_count_def by (intro unat_inc_small) simp
    then show ?thesis using nd [OF that] by (simp add: own_count_def bump_subtree_def)
  qed
  have below: "below P ?t d = below P t d" for d by (simp add: below_def ns)
  have "unat (tn_subtree_message_count (nd ?t d)) = (\<Sum>x\<in>below P ?t d. own_count ?t x)" if d: "d \<in> nodes t" for d
  proof -
    have s: "unat (tn_subtree_message_count (nd t d)) = (\<Sum>x\<in>below P t d. own_count t x)"
      using assms(2) d by (simp add: counts_ok_def)
    have "unat (tn_subtree_message_count (nd t d) + 1) = unat (tn_subtree_message_count (nd t d)) + 1"
      using s below_total [where P = P and t = t and a = d] assms(4) by (intro unat_inc_small) simp
    then have l: "unat (tn_subtree_message_count (nd ?t d))
        = unat (tn_subtree_message_count (nd t d)) + (if prefix (P d) (P a) then 1 else 0)"
      using nd [OF d] d by (cases "d = a") (simp_all add: bump_subtree_def)
    have "(\<Sum>x\<in>below P ?t d. own_count ?t x) = (\<Sum>x\<in>below P t d. own_count t x + (if x = a then 1 else 0))"
      unfolding below by (rule sum.cong) (auto simp: own below_def)
    also have "\<dots> = (\<Sum>x\<in>below P t d. own_count t x) + (if a \<in> below P t d then 1 else 0)"
      by (rule sum_bump) simp
    finally show ?thesis using l s assms(3) by (simp add: below_def)
  qed
  then have "counts_ok P ?t" by (simp add: counts_ok_def ns)
  then show ?thesis using count_message_run [OF assms(1,3)] ok ns own by blast
qed

text \<open>What clearing does to the nodes.\<close>

definition clear_node :: "addr \<Rightarrow> topic_node \<Rightarrow> bool \<Rightarrow> topic_node \<Rightarrow> topic_node" where
  "clear_node a n0 up n =
     (if up \<and> tn_message_count n0 > 0 then uncount_subtree (tn_message_count n0) n else n)"

lemma clear_messages_run:
  assumes "tree_ok P t" "a \<in> nodes t"
  shows "topic_node_clear_messages a t = Some (tn_message_count (nd t a), node_map (\<lambda>d n.
      (if d = a then \<lambda>n. n\<lparr>tn_message_count := 0, tn_msg_count_str := '''', tn_last_payload_stored := 0,
                           tn_has_retained := False\<rparr> else id)
      (clear_node a (nd t a) (d \<in> nodes t \<and> prefix (P d) (P a)) n)) t)"
proof -
  let ?c = "tn_message_count (nd t a)"
  let ?w = "\<lambda>d. clear_node a (nd t a) (d \<in> nodes t \<and> prefix (P d) (P a))"
  let ?t1 = "node_map ?w t"
  have walk: "(if ?c > 0 then walk_up (uncount_subtree ?c) (Some a) t else Some t) = Some ?t1"
  proof (cases "?c > 0")
    case True
    have "walk_up (uncount_subtree ?c) (Some a) t
        = Some (node_map (\<lambda>d. if d \<in> nodes t \<and> prefix (P d) (P a) then uncount_subtree ?c else id) t)"
      by (rule walk_up_run [OF assms]) (simp add: links_same_def uncount_subtree_def Let_def)
    also have "node_map (\<lambda>d. if d \<in> nodes t \<and> prefix (P d) (P a) then uncount_subtree ?c else id) t = ?t1"
      by (rule node_map_cong) (use True in \<open>simp add: clear_node_def\<close>)
    finally show ?thesis using True by simp
  next
    case False
    have "?t1 = node_map (\<lambda>d. id) t" by (rule node_map_cong) (use False in \<open>simp add: clear_node_def\<close>)
    also have "\<dots> = t" by (simp add: node_map_def cell.map_id0 option.map_id)
    finally show ?thesis using False by simp
  qed
  have ok1: "tree_ok P ?t1"
    by (rule tree_ok_node_map [OF assms(1)]) (simp add: links_same_def clear_node_def uncount_subtree_def Let_def)
  have n1: "nodes ?t1 = nodes t" by (rule nodes_node_map [OF tree_okD(1) [OF assms(1)]])
  let ?f = "\<lambda>n. n\<lparr>tn_message_count := 0, tn_msg_count_str := ''''\<rparr> :: topic_node"
  let ?t2 = "node_map (\<lambda>d. if d = a then ?f else id) ?t1"
  have a1: "a \<in> nodes ?t1" using assms(2) n1 by simp
  have s2: "set_node a (?f (nd ?t1 a)) ?t1 = ?t2" by (rule set_node_map [OF ok1 a1])
  have ok2: "tree_ok P ?t2" by (rule tree_ok_node_map [OF ok1]) (simp add: links_same_def)
  have n2: "nodes ?t2 = nodes t" using nodes_node_map [OF tree_okD(1) [OF ok1]] n1 by simp
  let ?t3 = "node_map (\<lambda>d. if d = a then payload_cleared else id) ?t2"
  have a2: "a \<in> nodes ?t2" using assms(2) n2 by simp
  have s3: "set_node a (payload_cleared (nd ?t2 a)) ?t2 = ?t3" by (rule set_node_map [OF ok2 a2])
  have ok3: "tree_ok P ?t3" by (rule tree_ok_node_map [OF ok2]) (simp add: links_same_def payload_cleared_def)
  have a3: "a \<in> nodes ?t3" using nodes_node_map [OF tree_okD(1) [OF ok2]] a2 by simp
  let ?r = "\<lambda>n. n\<lparr>tn_has_retained := False\<rparr> :: topic_node"
  have s4: "set_node a (?r (nd ?t3 a)) ?t3 = node_map (\<lambda>d. if d = a then ?r else id) ?t3"
    by (rule set_node_map [OF ok3 a3])
  have "topic_node_clear_messages a t = Some (?c, node_map (\<lambda>d. if d = a then ?r else id) ?t3)"
    unfolding topic_node_clear_messages_def
    using walk s2 s3 s4 node_at_nd [OF assms] node_at_nd [OF ok1 a1] node_at_nd [OF ok2 a2] node_at_nd [OF ok3 a3]
    by (simp add: topic_node_payload_clear_def Let_def)
  also have "node_map (\<lambda>d. if d = a then ?r else id) ?t3 = node_map (\<lambda>d n.
      (if d = a then \<lambda>n. n\<lparr>tn_message_count := 0, tn_msg_count_str := '''', tn_last_payload_stored := 0,
                           tn_has_retained := False\<rparr> else id)
      (clear_node a (nd t a) (d \<in> nodes t \<and> prefix (P d) (P a)) n)) t"
    unfolding node_map_comp by (rule node_map_cong) (simp add: payload_cleared_def)
  finally show ?thesis .
qed

lemma clear_messages_contract:
  assumes "tree_ok P t" "counts_ok P t" "a \<in> nodes t"
  shows "\<exists>t'. topic_node_clear_messages a t = Some (tn_message_count (nd t a), t') \<and> tree_ok P t'
     \<and> counts_ok P t' \<and> nodes t' = nodes t
     \<and> (\<forall>d\<in>nodes t. own_count t' d = (if d = a then 0 else own_count t d))"
proof -
  let ?u = "\<lambda>d. clear_node a (nd t a) (d \<in> nodes t \<and> prefix (P d) (P a))"
  let ?g = "\<lambda>d n. (if d = a then \<lambda>n. n\<lparr>tn_message_count := 0, tn_msg_count_str := '''',
      tn_last_payload_stored := 0, tn_has_retained := False\<rparr> else id) (?u d n)"
  let ?t = "node_map ?g t"
  have ok: "tree_ok P ?t"
    by (rule tree_ok_node_map [OF assms(1)]) (simp add: links_same_def clear_node_def uncount_subtree_def Let_def)
  have ns: "nodes ?t = nodes t" by (rule nodes_node_map [OF tree_okD(1) [OF assms(1)]])
  have nd: "nd ?t d = ?g d (nd t d)" if "d \<in> nodes t" for d by (rule nd_node_map [OF assms(1) that])
  have own: "own_count ?t d = (if d = a then 0 else own_count t d)" if "d \<in> nodes t" for d
    using nd [OF that] by (simp add: own_count_def clear_node_def uncount_subtree_def Let_def)
  have below: "below P ?t d = below P t d" for d by (simp add: below_def ns)
  let ?c = "tn_message_count (nd t a)"
  have "unat (tn_subtree_message_count (nd ?t d)) = (\<Sum>x\<in>below P ?t d. own_count ?t x)" if d: "d \<in> nodes t" for d
  proof -
    have s: "unat (tn_subtree_message_count (nd t d)) = (\<Sum>x\<in>below P t d. own_count t x)"
      using assms(2) d by (simp add: counts_ok_def)
    have sub: "unat (if x > ?c then x - ?c else 0) = unat x - unat ?c" for x :: u32
      by (auto simp: unat_sub_le word_less_unat word_le_unat not_less)
    have l: "unat (tn_subtree_message_count (nd ?t d))
        = unat (tn_subtree_message_count (nd t d)) - (if a \<in> below P t d then own_count t a else 0)"
      using nd [OF d] d assms(3) sub
      by (auto simp: clear_node_def uncount_subtree_def Let_def below_def own_count_def word_less_unat)
    have "(\<Sum>x\<in>below P ?t d. own_count ?t x) = (\<Sum>x\<in>below P t d. if x = a then 0 else own_count t x)"
      unfolding below by (rule sum.cong) (auto simp: own below_def)
    also have "\<dots> = (\<Sum>x\<in>below P t d - {a}. own_count t x)"
      by (simp add: sum.If_cases Int_commute Diff_eq Collect_neg_eq)
    also have "\<dots> = (\<Sum>x\<in>below P t d. own_count t x) - (if a \<in> below P t d then own_count t a else 0)"
      by (simp add: sum_diff1_nat)
    finally show ?thesis using l s by simp
  qed
  then have "counts_ok P ?t" by (simp add: counts_ok_def ns)
  then show ?thesis using clear_messages_run [OF assms(1,3)] ok ns own by blast
qed

subsection \<open>The full path\<close>

lemma path_stack_run:
  assumes "tree_ok P t" "a \<in> nodes t" "length (P a) \<le> room"
  shows "\<exists>ns. path_stack room (Some a) t = Some ns \<and> rev (map tn_segment ns) = P a"
  using assms(2,3)
proof (induction room arbitrary: a)
  case 0
  then show ?case using path_ne [OF assms(1)] by simp
next
  case (Suc room)
  let ?n = "nd t a"
  have pa: "P a = path_of P (tn_parent ?n) @ [tn_segment ?n]" by (rule tree_okD(4) [OF assms(1) Suc.prems(1)])
  show ?case
  proof (cases "tn_parent ?n")
    case None
    then show ?thesis using pa node_at_nd [OF assms(1) Suc.prems(1)] by simp
  next
    case (Some b)
    have "b \<in> nodes t" using tree_okD(3) [OF assms(1) Suc.prems(1)] Some by simp
    moreover have "length (P b) \<le> room" using pa Some Suc.prems(2) by simp
    ultimately obtain ns where "path_stack room (Some b) t = Some ns" "rev (map tn_segment ns) = P b"
      using Suc.IH by blast
    then show ?thesis using pa Some node_at_nd [OF assms(1) Suc.prems(1)] by simp
  qed
qed

lemma length_join: "length (join c ws) = sum_list (map length ws) + (length ws - 1)"
  by (induction c ws rule: join.induct) auto

lemma path_write_rest:
  "length buf + length (concat (map (\<lambda>n. CHR ''/'' # tn_segment n) ns)) < buf_size \<Longrightarrow>
    path_write buf_size False buf ns = buf @ concat (map (\<lambda>n. CHR ''/'' # tn_segment n) ns)"
  by (induction ns arbitrary: buf) (auto simp: Let_def)

lemma join_Cons_concat: "join c (w # ws) = w @ concat (map ((#) c) ws)"
  by (induction ws arbitrary: w) auto

lemma path_write_join:
  assumes "length (join (CHR ''/'') (map tn_segment ns)) < buf_size"
  shows "path_write buf_size True '''' ns = join (CHR ''/'') (map tn_segment ns)"
proof (cases ns)
  case (Cons n ns')
  have eq: "join (CHR ''/'') (map tn_segment ns)
      = tn_segment n @ concat (map (\<lambda>n. CHR ''/'' # tn_segment n) ns')"
    by (simp add: Cons join_Cons_concat comp_def)
  then show ?thesis using assms path_write_rest [of "tn_segment n" ns' buf_size] by (simp add: Cons Let_def)
qed (use assms in simp)

lemma full_path_join:
  assumes "tree_ok P t" "a \<in> nodes t" "length (P a) \<le> 64"
    and "length (join (CHR ''/'') (P a)) < buf_size"
  shows "topic_node_full_path a buf buf_size t = Some (join (CHR ''/'') (P a))"
proof -
  obtain ns where ns: "path_stack 64 (Some a) t = Some ns" "rev (map tn_segment ns) = P a"
    using path_stack_run [OF assms(1-3)] by blast
  then have "map tn_segment (rev ns) = P a" by (simp add: rev_map)
  then have "path_write buf_size True '''' (rev ns) = join (CHR ''/'') (P a)"
    using path_write_join [of "rev ns" buf_size] assms(4) by simp
  then show ?thesis using ns(1) assms(4) by (simp add: topic_node_full_path_def)
qed

lemma node_path_ok:
  assumes "tree_ok P t" "a \<in> nodes t" "w \<in> set (P a)"
  shows "seg_ok w"
  using assms(2,3)
proof (induction "length (P a)" arbitrary: a rule: less_induct)
  case less
  have pa: "P a = path_of P (tn_parent (nd t a)) @ [tn_segment (nd t a)]"
    by (rule tree_okD(4) [OF assms(1) less.prems(1)])
  show ?case
  proof (cases "w = tn_segment (nd t a)")
    case True
    then show ?thesis using tree_okD(5) [OF assms(1) less.prems(1)] by simp
  next
    case False
    then obtain b where b: "tn_parent (nd t a) = Some b" "w \<in> set (P b)"
      using pa less.prems(2) by (cases "tn_parent (nd t a)") auto
    then have "b \<in> nodes t" using tree_okD(3) [OF assms(1) less.prems(1)] by simp
    then show ?thesis using less.hyps [of b] b pa by simp
  qed
qed

lemma tokens_node_path:
  assumes "tree_ok P t" "a \<in> nodes t"
  shows "tokens (CHR ''/'') (join (CHR ''/'') (P a)) = P a"
  by (rule tokens_join) (use node_path_ok [OF assms] in \<open>auto simp: seg_ok_def\<close>)

subsection \<open>Initial tree\<close>

lemma init_tree:
  assumes "n \<noteq> 0"
  shows "tree_ok P (topic_tree_init n)" "counts_ok P (topic_tree_init n)" "nodes (topic_tree_init n) = {}"
    and "payloads_ok (topic_tree_init n)"
proof -
  show ns: "nodes (topic_tree_init n) = {}"
    using pool_init_contract(2) [OF assms] by (simp add: nodes_def topic_tree_init_def)
  have lv: "level_ok (topic_tree_init n) o' \<longleftrightarrow> o' = None" for o' by (cases o') (simp_all add: ns)
  show "tree_ok P (topic_tree_init n)"
    unfolding tree_ok_def ns lv using pool_init_contract(1) [OF assms] by (simp add: topic_tree_init_def)
  show "counts_ok P (topic_tree_init n)" by (simp add: counts_ok_def ns)
  show "payloads_ok (topic_tree_init n)"
    unfolding payloads_ok_def blocks_fit_def ns
    by (simp add: topic_tree_init_def pool_init_contract)
qed

subsection \<open>Properties\<close>

text \<open>
  C8. Insertion and search: on a well-formed tree, for a topic whose levels fit their fields,
  \<open>topic_tree_insert\<close> never fails an access, keeps the tree well-formed and the existing
  nodes and counts as they are; it returns NULL only for a topic without levels or when a child array
  on the way is full; a returned node is the one \<open>topic_tree_find\<close> then finds, inserting the
  topic again changes nothing; every other topic is found exactly where it was found before, and a
  topic that is no prefix of the inserted one is not found if it was not.
\<close>

theorem topic_tree_insert_find:
  assumes "tree_ok P t" "topic_ok topic" "card (nodes t) + 512 < 2 ^ 32"
  shows "\<exists>r t' P'. topic_tree_insert t topic = Some (r, t') \<and> grown P t P' t'
     \<and> insert_done P' t' (topic_path topic) r
     \<and> (\<forall>a. r = Some a \<longrightarrow> topic_tree_find t' topic = Some (Some a) \<and> topic_tree_insert t' topic = Some (Some a, t'))
     \<and> (\<forall>u a. topic_tree_find t u = Some (Some a) \<longrightarrow> topic_tree_find t' u = Some (Some a))
     \<and> (\<forall>u. topic_tree_find t u = Some None \<longrightarrow> \<not> prefix (topic_path u) (topic_path topic) \<longrightarrow>
            topic_tree_find t' u = Some None)"
proof -
  obtain r t' P' where r: "topic_tree_insert t topic = Some (r, t')" "grown P t P' t'"
      "P' ` nodes t' \<subseteq> P ` nodes t \<union> {q. q \<noteq> [] \<and> prefix q (topic_path topic)}"
      "insert_done P' t' (topic_path topic) r"
    using insert_contract [OF assms] by blast
  have ok': "tree_ok P' t'" and sub: "nodes t \<subseteq> nodes t'" and pp: "\<And>a. a \<in> nodes t \<Longrightarrow> P' a = P a"
    using r(2) by (auto simp: grown_def)
  have found: "topic_tree_find t' topic = Some (Some a)" if "r = Some a" for a
    using find_iff [OF ok', of topic] r(4) that by (auto simp: insert_done_def)
  then have again: "topic_tree_insert t' topic = Some (Some a, t')" if "r = Some a" for a
    using that insert_found [of "topic_path topic" None t' a] by (simp add: find_path insert_path)
  have keep: "topic_tree_find t' u = Some (Some a)" if "topic_tree_find t u = Some (Some a)" for u a
    using find_iff [OF assms(1), of u] find_iff [OF ok', of u] that sub pp by (metis option.inject subsetD)
  have none: "topic_tree_find t' u = Some None"
    if u: "topic_tree_find t u = Some None" "\<not> prefix (topic_path u) (topic_path topic)" for u
  proof -
    have "P c \<noteq> topic_path u" if "c \<in> nodes t" for c
      using find_iff [OF assms(1), of u] u(1) that by auto
    then have "\<not> (c \<in> nodes t' \<and> P' c = topic_path u)" for c
      using r(3) u(2) by auto
    then show ?thesis using find_iff [OF ok', of u] by (metis option.exhaust)
  qed
  show ?thesis using r(1,2,4) found again keep none by blast
qed

theorem topic_tree_insert_find_witness:
  "\<exists>r t'. topic_tree_insert (topic_tree_init 16) ''home/kitchen/temp'' = Some (r, t')
     \<and> (\<forall>a. r = Some a \<longrightarrow> topic_tree_find t' ''home/kitchen/temp'' = Some (Some a))"
proof -
  have init: "tree_ok (\<lambda>_. []) (topic_tree_init 16)" "nodes (topic_tree_init 16) = {}"
    by (rule init_tree; simp)+
  have tok: "topic_ok ''home/kitchen/temp''"
    by (simp add: topic_ok_def topic_path_def tokens_def)
  show ?thesis
    using topic_tree_insert_find [OF init(1) tok] init(2) by auto
qed

text \<open>
  C9. Counting a message: on a well-formed tree whose subtree counts are the sums of the message
  counts below, \<open>topic_node_count_message\<close> ends (its loop over the ancestors does), adds one
  to the node's own count alone, and every subtree count is again the sum of the own counts of the
  node and all its descendants.
\<close>

theorem topic_count_message_exact:
  assumes "tree_ok P t" "counts_ok P t" "a \<in> nodes t" "total_count t + 1 < 2 ^ 32"
  shows "\<exists>t'. topic_node_count_message a t = Some t' \<and> tree_ok P t' \<and> nodes t' = nodes t
     \<and> (\<forall>d\<in>nodes t. own_count t' d = own_count t d + (if d = a then 1 else 0))
     \<and> (\<forall>d\<in>nodes t. unat (tn_subtree_message_count (nd t' d)) = (\<Sum>x\<in>below P t' d. own_count t' x))"
  using count_message_contract [OF assms] unfolding counts_ok_def by fastforce

text \<open>
  Clearing a topic: \<open>topic_node_clear_messages\<close> returns the node's count, sets it to
  zero, takes exactly that many messages out of every ancestor's subtree count and leaves the counts
  of all other nodes, its descendants included, as they were.
\<close>

theorem topic_clear_messages_exact:
  assumes "tree_ok P t" "counts_ok P t" "a \<in> nodes t"
  shows "\<exists>t'. topic_node_clear_messages a t = Some (tn_message_count (nd t a), t') \<and> tree_ok P t'
     \<and> counts_ok P t' \<and> nodes t' = nodes t
     \<and> (\<forall>d\<in>nodes t. own_count t' d = (if d = a then 0 else own_count t d))
     \<and> (\<forall>d\<in>nodes t. unat (tn_subtree_message_count (nd t' d))
            = unat (tn_subtree_message_count (nd t d)) - (if prefix (P d) (P a) then own_count t a else 0))"
proof -
  obtain t' where t': "topic_node_clear_messages a t = Some (tn_message_count (nd t a), t')" "tree_ok P t'"
      "counts_ok P t'" "nodes t' = nodes t"
      "\<forall>d\<in>nodes t. own_count t' d = (if d = a then 0 else own_count t d)"
    using clear_messages_contract [OF assms] by blast
  have "unat (tn_subtree_message_count (nd t' d))
      = unat (tn_subtree_message_count (nd t d)) - (if prefix (P d) (P a) then own_count t a else 0)"
    if d: "d \<in> nodes t" for d
  proof -
    have b: "below P t' d = below P t d" by (simp add: below_def t'(4))
    have "(\<Sum>x\<in>below P t d. own_count t' x) = (\<Sum>x\<in>below P t d. if x = a then 0 else own_count t x)"
      by (rule sum.cong) (use t'(5) in \<open>auto simp: below_def\<close>)
    also have "\<dots> = (\<Sum>x\<in>below P t d - {a}. own_count t x)"
      by (simp add: sum.If_cases Int_commute Diff_eq Collect_neg_eq)
    also have "\<dots> = (\<Sum>x\<in>below P t d. own_count t x) - (if a \<in> below P t d then own_count t a else 0)"
      by (simp add: sum_diff1_nat)
    finally show ?thesis using assms(2,3) t'(3,4) d b by (simp add: counts_ok_def below_def)
  qed
  then show ?thesis using t' by blast
qed

text \<open>
  C10. The path of a node round-trips: for a node at most 64 levels deep whose path fits the
  buffer, \<open>topic_node_full_path\<close> writes its levels joined by slashes, and searching that path
  finds the node again.
\<close>

theorem topic_full_path_roundtrip:
  assumes "tree_ok P t" "a \<in> nodes t" "length (P a) \<le> 64"
    and "length (join (CHR ''/'') (P a)) < buf_size" "buf_size \<le> 512"
  shows "\<exists>path. topic_node_full_path a buf buf_size t = Some path \<and> path = join (CHR ''/'') (P a)
     \<and> topic_tree_find t path = Some (Some a)"
proof -
  let ?p = "join (CHR ''/'') (P a)"
  have "topic_path ?p = P a"
    using tokens_node_path [OF assms(1,2)] assms(4,5) by (simp add: topic_path_def)
  then have "topic_tree_find t ?p = Some (Some a)"
    using find_iff [OF assms(1), of ?p] assms(2) by auto
  then show ?thesis using full_path_join [OF assms(1-4)] by blast
qed

lemma sample_tree:
  "\<exists>t P a. tree_ok P t \<and> counts_ok P t \<and> a \<in> nodes t \<and> P a = [''home'', ''temp''] \<and> total_count t = 0
     \<and> P ` nodes t \<subseteq> {[''home''], [''home'', ''temp'']} \<and> card (nodes t) \<le> 2"
proof -
  have init: "tree_ok (\<lambda>_. []) (topic_tree_init 16)" "counts_ok (\<lambda>_. []) (topic_tree_init 16)"
      "nodes (topic_tree_init 16) = {}"
    by (rule init_tree; simp)+
  let ?T = "''home/temp''"
  have path: "topic_path ?T = [''home'', ''temp'']" by (simp add: topic_path_def tokens_def)
  then have tok: "topic_ok ?T" by (simp add: topic_ok_def)
  obtain r t P where r: "topic_tree_insert (topic_tree_init 16) ?T = Some (r, t)"
      "grown (\<lambda>_. []) (topic_tree_init 16) P t" "insert_done P t (topic_path ?T) r"
      "P ` nodes t \<subseteq> {q. q \<noteq> [] \<and> prefix q (topic_path ?T)}"
    using insert_contract [OF init(1) tok] init(3) by auto
  have ok: "tree_ok P t" and c: "counts_ok P t" and own: "\<forall>a\<in>nodes t. own_count t a = 0"
    using r(2) init(2,3) by (auto simp: grown_def)
  have "{q. q \<noteq> [] \<and> prefix q [''home'', ''temp'']} = {[''home''], [''home'', ''temp'']}"
    by (auto simp: prefix_Cons)
  then have sub: "P ` nodes t \<subseteq> {[''home''], [''home'', ''temp'']}" using r(4) path by simp
  have fin: "card (nodes t) \<le> 2"
  proof -
    have "card (P ` nodes t) \<le> card {[''home''], [''home'', ''temp'']}" by (rule card_mono [OF _ sub]) simp
    then have "card (P ` nodes t) \<le> 2" by simp
    then show ?thesis using tree_okD(6) [OF ok] by (simp add: card_image)
  qed
  have "\<not> (level_ok t q \<and> length (kids t q) = TOPIC_MAX_CHILDREN)" for q
  proof
    assume q: "level_ok t q \<and> length (kids t q) = TOPIC_MAX_CHILDREN"
    then have "card (set (kids t q)) = 64" using tree_okD(7) [OF ok, of q] by (simp add: distinct_card)
    moreover have "card (set (kids t q)) \<le> card (nodes t)"
      using tree_okD(9) [OF ok, of q] q by (intro card_mono) auto
    ultimately show False using fin by simp
  qed
  then obtain a where "a \<in> nodes t" "P a = [''home'', ''temp'']"
    using r(3) path by (auto simp: insert_done_def split: option.splits)
  moreover have "total_count t = 0" using own by (simp add: total_count_def)
  ultimately show ?thesis using ok c sub fin by blast
qed

theorem topic_count_message_exact_witness:
  "\<exists>t P a t'. P a = [''home'', ''temp''] \<and> topic_node_count_message a t = Some t' \<and> own_count t' a = 1"
proof -
  obtain t P a where s: "tree_ok P t" "counts_ok P t" "a \<in> nodes t" "P a = [''home'', ''temp'']"
      "total_count t = 0"
    using sample_tree by blast
  have "own_count t a = 0" using own_total [OF s(3)] s(5) by simp
  then show ?thesis using topic_count_message_exact [OF s(1-3)] s(3-5) by fastforce
qed

theorem topic_clear_messages_exact_witness:
  "\<exists>t P a t'. P a = [''home'', ''temp''] \<and> topic_node_clear_messages a t = Some (0, t') \<and> own_count t' a = 0"
proof -
  obtain t P a where s: "tree_ok P t" "counts_ok P t" "a \<in> nodes t" "P a = [''home'', ''temp'']"
      "total_count t = 0"
    using sample_tree by blast
  have "own_count t a = 0" using own_total [OF s(3)] s(5) by simp
  then have "tn_message_count (nd t a) = 0" by (simp add: own_count_def word_eq_unat)
  then show ?thesis using topic_clear_messages_exact [OF s(1-3)] s(3,4) by fastforce
qed

theorem topic_full_path_roundtrip_witness:
  "\<exists>t P a. P a = [''home'', ''temp''] \<and> topic_node_full_path a '''' 256 t = Some ''home/temp''
     \<and> topic_tree_find t ''home/temp'' = Some (Some a)"
proof -
  obtain t P a where s: "tree_ok P t" "a \<in> nodes t" "P a = [''home'', ''temp'']"
    using sample_tree by blast
  show ?thesis using topic_full_path_roundtrip [OF s(1,2), of 256 "''''"] s(3) by force
qed

end
