(* ===== verification/Topic_Payload.thy ===== *)
theory Topic_Payload
  imports Topic_Tree
begin

text \<open>
  Changes of the nodes in place, and the payload snapshot of a node: what
  \<open>topic_node_payload_set\<close> stores, and that it leaves the tree and the other snapshots alone.
\<close>

subsection \<open>Changes that keep the tree\<close>

definition nodes_kept :: "(addr \<Rightarrow> string list) \<Rightarrow> topic_tree \<Rightarrow> topic_tree \<Rightarrow> bool" where
  "nodes_kept P t t' \<longleftrightarrow> tree_ok P t' \<and> nodes t' = nodes t \<and> (payloads_ok t \<longrightarrow> payloads_ok t')"

lemma kept_refl: "tree_ok P t \<Longrightarrow> nodes_kept P t t"
  by (simp add: nodes_kept_def)

lemma kept_trans: "nodes_kept P t t1 \<Longrightarrow> nodes_kept P t1 t2 \<Longrightarrow> nodes_kept P t t2"
  by (simp add: nodes_kept_def)

lemma payloads_okD:
  assumes "payloads_ok t"
  shows "pool_wf (tt_payload_pool t)"
    and "a \<in> nodes t \<Longrightarrow> tn_last_payload (nd t a) = Some p \<Longrightarrow> p \<in> pool_live (tt_payload_pool t)"
    and "p \<in> pool_live (tt_payload_pool t) \<Longrightarrow> \<exists>a\<in>nodes t. tn_last_payload (nd t a) = Some p"
    and "a \<in> nodes t \<Longrightarrow> b \<in> nodes t \<Longrightarrow> tn_last_payload (nd t a) = Some p \<Longrightarrow> tn_last_payload (nd t b) = Some p \<Longrightarrow> a = b"
proof -
  show "pool_wf (tt_payload_pool t)" using assms unfolding payloads_ok_def by (rule conjunct1)
  have live: "pool_live (tt_payload_pool t) = {p. \<exists>a\<in>nodes t. tn_last_payload (nd t a) = Some p}"
    using assms unfolding payloads_ok_def by (elim conjE)
  show "a \<in> nodes t \<Longrightarrow> tn_last_payload (nd t a) = Some p \<Longrightarrow> p \<in> pool_live (tt_payload_pool t)" unfolding live by blast
  show "p \<in> pool_live (tt_payload_pool t) \<Longrightarrow> \<exists>a\<in>nodes t. tn_last_payload (nd t a) = Some p" unfolding live by blast
  show "a \<in> nodes t \<Longrightarrow> b \<in> nodes t \<Longrightarrow> tn_last_payload (nd t a) = Some p \<Longrightarrow> tn_last_payload (nd t b) = Some p \<Longrightarrow> a = b"
    using assms unfolding payloads_ok_def by (metis option.distinct(1))
qed

lemma payloads_node_map:
  assumes "tree_ok P t" "\<And>a n. tn_last_payload (g a n) = tn_last_payload n" "payloads_ok t"
  shows "payloads_ok (node_map g t)"
proof -
  have ns: "nodes (node_map g t) = nodes t" by (rule nodes_node_map [OF tree_okD(1) [OF assms(1)]])
  have lp: "tn_last_payload (nd (node_map g t) a) = tn_last_payload (nd t a)" if "a \<in> nodes t" for a
    using nd_node_map [OF assms(1) that, of g] assms(2) by simp
  have "{p. \<exists>a\<in>nodes t. tn_last_payload (nd (node_map g t) a) = Some p} = {p. \<exists>a\<in>nodes t. tn_last_payload (nd t a) = Some p}"
    using lp by auto
  moreover have "\<forall>a\<in>nodes t. \<forall>b\<in>nodes t. tn_last_payload (nd (node_map g t) a) \<noteq> None \<longrightarrow>
      tn_last_payload (nd (node_map g t) a) = tn_last_payload (nd (node_map g t) b) \<longrightarrow> a = b"
    using assms(3) lp unfolding payloads_ok_def by metis
  ultimately show ?thesis using assms(3) unfolding payloads_ok_def ns node_map_simps by simp
qed

lemma node_map_kept:
  assumes "tree_ok P t" "\<And>a n. links_same (g a n) n" "\<And>a n. tn_last_payload (g a n) = tn_last_payload n"
  shows "nodes_kept P t (node_map g t)"
  using tree_ok_node_map [OF assms(1,2)] payloads_node_map [OF assms(1,3)] nodes_node_map [OF tree_okD(1) [OF assms(1)]]
  by (simp add: nodes_kept_def)

lemma set_node_kept:
  assumes "tree_ok P t" "a \<in> nodes t" "\<And>n. links_same (f n) n" "\<And>n. tn_last_payload (f n) = tn_last_payload n"
  shows "nodes_kept P t (set_node a (f (nd t a)) t)"
  unfolding set_node_map [OF assms(1,2)]
  by (rule node_map_kept [OF assms(1)]) (simp_all add: assms(3,4), simp add: links_same_def)

lemma walk_up_kept:
  assumes "tree_ok P t" "a \<in> nodes t" "\<And>n. links_same (f n) n" "\<And>n. tn_last_payload (f n) = tn_last_payload n"
  shows "\<exists>t'. walk_up f (Some a) t = Some t' \<and> nodes_kept P t t'"
  unfolding walk_up_run [OF assms(1-3)]
  by (rule exI, rule conjI [OF refl], rule node_map_kept [OF assms(1)]) (simp_all add: assms(3,4), simp add: links_same_def)

lemma count_message_kept:
  assumes "tree_ok P t" "a \<in> nodes t"
  shows "\<exists>t'. topic_node_count_message a t = Some t' \<and> nodes_kept P t t'"
  unfolding count_message_run [OF assms]
  by (rule exI, rule conjI [OF refl], rule node_map_kept [OF assms(1)]) (simp_all add: links_same_def bump_subtree_def)

lemma clear_messages_kept:
  assumes "tree_ok P t" "a \<in> nodes t"
  shows "\<exists>n t'. topic_node_clear_messages a t = Some (n, t') \<and> nodes_kept P t t'"
  unfolding clear_messages_run [OF assms]
  by (rule exI, rule exI, rule conjI [OF refl], rule node_map_kept [OF assms(1)])
    (simp_all add: links_same_def clear_node_def uncount_subtree_def Let_def)

lemma full_path_total:
  assumes "tree_ok P t" "a \<in> nodes t"
  shows "\<exists>path. topic_node_full_path a buf k t = Some path"
proof -
  have "a \<in> nodes t \<Longrightarrow> \<exists>ns. path_stack room (Some a) t = Some ns" for room
  proof (induction room arbitrary: a)
    case (Suc room)
    have "tn_parent (nd t a) = Some b \<Longrightarrow> b \<in> nodes t" for b
      using tree_okD(3) [OF assms(1) Suc.prems] by simp
    then show ?case
      using Suc node_at_nd [OF assms(1) Suc.prems] by (cases "tn_parent (nd t a)") auto
  qed simp
  then show ?thesis using assms(2) by (auto simp: topic_node_full_path_def)
qed

subsection \<open>Storing a payload\<close>

text \<open>The node after the block \<open>p\<close> has been attached and \<open>k\<close> bytes have been stored.\<close>

definition with_payload :: "addr \<Rightarrow> nat \<Rightarrow> topic_node \<Rightarrow> topic_node" where
  "with_payload p k n = n\<lparr>tn_last_payload := Some p, tn_last_payload_stored := word_of_nat k\<rparr>"

lemma set_node_links:
  assumes "tree_ok P t" "a \<in> nodes t" "\<And>n. links_same (f n) n"
  shows "tree_ok P (set_node a (f (nd t a)) t)" "nodes (set_node a (f (nd t a)) t) = nodes t"
    and "d \<in> nodes t \<Longrightarrow> nd (set_node a (f (nd t a)) t) d = (if d = a then f (nd t a) else nd t d)"
  unfolding set_node_map [OF assms(1,2)]
  using tree_ok_node_map [OF assms(1), of "\<lambda>d. if d = a then f else id"] assms(3)
    nodes_node_map [OF tree_okD(1) [OF assms(1)]] nd_node_map [OF assms(1), of d]
  by (auto simp: links_same_def)

lemma payload_pool_simps [simp]:
  "nodes (t\<lparr>tt_payload_pool := p\<rparr>) = nodes t" "nd (t\<lparr>tt_payload_pool := p\<rparr>) = nd t"
  "tree_ok P (t\<lparr>tt_payload_pool := p\<rparr>) = tree_ok P t" "tt_payload_pool (set_node a n t) = tt_payload_pool t"
  "node_at (t\<lparr>tt_payload_pool := p\<rparr>) = node_at t"
  "set_node a n (t\<lparr>tt_payload_pool := p\<rparr>) = (set_node a n t)\<lparr>tt_payload_pool := p\<rparr>"
proof -
  have l: "level_ok (t\<lparr>tt_payload_pool := p\<rparr>) o' = level_ok t o'" "kids (t\<lparr>tt_payload_pool := p\<rparr>) o' = kids t o'" for o'
    by (cases o'; simp add: nodes_def nd_def)+
  show "nodes (t\<lparr>tt_payload_pool := p\<rparr>) = nodes t" "nd (t\<lparr>tt_payload_pool := p\<rparr>) = nd t"
    "node_at (t\<lparr>tt_payload_pool := p\<rparr>) = node_at t"
    by (simp_all add: nodes_def nd_def node_at_def fun_eq_iff)
  then show "tree_ok P (t\<lparr>tt_payload_pool := p\<rparr>) = tree_ok P t" by (simp add: tree_ok_def l)
  show "tt_payload_pool (set_node a n t) = tt_payload_pool t"
    "set_node a n (t\<lparr>tt_payload_pool := p\<rparr>) = (set_node a n t)\<lparr>tt_payload_pool := p\<rparr>"
    by (simp_all add: set_node_def)
qed

text \<open>The block that a node has or gets: a slot in use that no other node has.\<close>

lemma payload_block:
  assumes "tree_ok P t" "payloads_ok t" "a \<in> nodes t" "card (nodes t) + 1 < 2 ^ 32"
  obtains p pool where
    "(case tn_last_payload (nd t a) of Some p \<Rightarrow> Some (p, t)
      | None \<Rightarrow> map_option (\<lambda>(p, pool). (p, (set_node a ((nd t a)\<lparr>tn_last_payload := Some p\<rparr>) t)\<lparr>tt_payload_pool := pool\<rparr>))
                  (pool_alloc_get (tt_payload_pool t)))
      = Some (p, (set_node a ((nd t a)\<lparr>tn_last_payload := Some p\<rparr>) t)\<lparr>tt_payload_pool := pool\<rparr>)"
    and "pool_wf pool" "blocks_fit pool" "pool_live pool = insert p (pool_live (tt_payload_pool t))"
    and "\<And>q. q \<in> pool_live (tt_payload_pool t) \<Longrightarrow> pl_mem pool q = pl_mem (tt_payload_pool t) q"
    and "\<And>b. b \<in> nodes t \<Longrightarrow> tn_last_payload (nd t b) = Some p \<Longrightarrow> b = a"
proof (cases "tn_last_payload (nd t a)")
  case (Some p)
  have same: "set_node a ((nd t a)\<lparr>tn_last_payload := Some p\<rparr>) t = t"
  proof -
    obtain n where n: "pl_mem (tt_node_pool t) a = Some (Obj n)" using mem_nd [OF assms(1,3)] by blast
    then have "nd t a = n" by (rule nd_mem)
    moreover have "n\<lparr>tn_last_payload := Some p\<rparr> = n" using Some calculation by (cases n) simp
    ultimately show ?thesis using n by (simp add: set_node_def pool_write_def fun_upd_idem)
  qed
  have p: "p \<in> pool_live (tt_payload_pool t)" by (rule payloads_okD(2) [OF assms(2,3) Some])
  show ?thesis
  proof (rule that [of p "tt_payload_pool t"])
    show "\<And>b. b \<in> nodes t \<Longrightarrow> tn_last_payload (nd t b) = Some p \<Longrightarrow> b = a"
      by (rule payloads_okD(4) [OF assms(2)]) (use assms(3) Some in simp_all)
    show "pool_live (tt_payload_pool t) = insert p (pool_live (tt_payload_pool t))" using p by (simp add: insert_absorb)
  qed (use assms(2) in \<open>simp_all add: Some same payloads_ok_def\<close>)
next
  case None
  have "card (pool_live (tt_payload_pool t)) \<le> card (nodes t)"
  proof -
    have "pool_live (tt_payload_pool t) \<subseteq> (\<lambda>a. the (tn_last_payload (nd t a))) ` nodes t"
    proof
      fix p assume "p \<in> pool_live (tt_payload_pool t)"
      then obtain a where "a \<in> nodes t" "tn_last_payload (nd t a) = Some p" using payloads_okD(3) [OF assms(2)] by blast
      then show "p \<in> (\<lambda>a. the (tn_last_payload (nd t a))) ` nodes t" by (intro image_eqI [of _ _ a]) simp_all
    qed
    then show ?thesis using surj_card_le [OF finite_nodes] by blast
  qed
  then obtain p pool where g: "pool_alloc_get (tt_payload_pool t) = Some (p, pool)" "pool_wf pool"
      "fresh_slot (tt_payload_pool t) p pool"
    using pool_get_contract [OF payloads_okD(1) [OF assms(2)]] assms(4) by fastforce
  have fr: "p \<notin> pool_live (tt_payload_pool t)" "pool_live pool = insert p (pool_live (tt_payload_pool t))"
      "\<And>q. q \<in> pool_live (tt_payload_pool t) \<Longrightarrow> pl_mem pool q = pl_mem (tt_payload_pool t) q"
    using g(3) by (simp_all add: fresh_slot_def)
  have "blocks_fit pool" using g(3) assms(2) by (auto simp: fresh_slot_def blocks_fit_def payloads_ok_def)
  show ?thesis
  proof (rule that [of p pool])
    show "\<And>b. b \<in> nodes t \<Longrightarrow> tn_last_payload (nd t b) = Some p \<Longrightarrow> b = a"
      using fr(1) payloads_okD(2) [OF assms(2)] by blast
  qed (use g fr None \<open>blocks_fit pool\<close> in simp_all)
qed

text \<open>What a stored payload is, as its reader sees it.\<close>

definition snapshot_of :: "bytes option \<Rightarrow> bytes" where
  "snapshot_of src = (case src of None \<Rightarrow> [] | Some bs \<Rightarrow> take TOPIC_PAYLOAD_CAP bs)"

definition stores :: "(addr \<Rightarrow> string list) \<Rightarrow> addr \<Rightarrow> bytes option \<Rightarrow> topic_tree \<Rightarrow> topic_tree \<Rightarrow> bool" where
  "stores P a src t t' \<longleftrightarrow> nodes_kept P t t' \<and> payload_bytes t' a = Some (snapshot_of src)
     \<and> (\<forall>b\<in>nodes t. b \<noteq> a \<longrightarrow> payload_bytes t' b = payload_bytes t b)
     \<and> (\<forall>b\<in>nodes t. own_count t' b = own_count t b)"

lemma clear_stores:
  assumes "tree_ok P t" "payloads_ok t" "a \<in> nodes t" "snapshot_of src = []"
  shows "\<exists>t'. topic_node_payload_clear a t = Some t' \<and> stores P a src t t'"
proof -
  let ?t = "set_node a (payload_cleared (nd t a)) t"
  have k: "nodes_kept P t ?t" by (rule set_node_kept [OF assms(1,3)]) (simp_all add: payload_cleared_def links_same_def)
  have n: "nd ?t d = (if d = a then payload_cleared (nd t a) else nd t d)" if "d \<in> nodes t" for d
    by (rule set_node_links(3) [OF assms(1,3) _ that]) (simp add: payload_cleared_def links_same_def)
  have b: "block_at ?t = block_at t" by (simp add: block_at_def fun_eq_iff)
  have na: "tn_last_payload (nd ?t a) = tn_last_payload (nd t a)" "tn_last_payload_stored (nd ?t a) = 0"
    using n [OF assms(3)] by (simp_all add: payload_cleared_def)
  have "payload_bytes ?t a = Some []"
  proof (cases "tn_last_payload (nd t a)")
    case (Some p)
    have "\<exists>bs. block_at t p = Some bs"
      by (rule block_live [OF payloads_okD(1) [OF assms(2)] payloads_okD(2) [OF assms(2,3) Some]])
    then show ?thesis using na Some by (auto simp: payload_bytes_def topic_node_payload_def b)
  qed (use na in \<open>simp add: payload_bytes_def topic_node_payload_def\<close>)
  moreover have "payload_bytes ?t d = payload_bytes t d" if "d \<in> nodes t" "d \<noteq> a" for d
    using n [OF that(1)] that(2) unfolding payload_bytes_def b by simp
  moreover have "own_count ?t d = own_count t d" if "d \<in> nodes t" for d
    using n [OF that] by (simp add: own_count_def payload_cleared_def)
  ultimately show ?thesis
    using k assms(4) node_at_nd [OF assms(1,3)] by (simp add: topic_node_payload_clear_def stores_def)
qed

text \<open>The write of \<open>k\<close> bytes into the block \<open>p\<close>, now the node's.\<close>

lemma write_stores:
  assumes t: "tree_ok P t" "payloads_ok t" "a \<in> nodes t"
    and pool: "pool_wf pool" "blocks_fit pool" "length (take k bs @ old) \<le> TOPIC_PAYLOAD_CAP"
      "pool_live pool = insert p (pool_live (tt_payload_pool t))"
      "\<And>q. q \<in> pool_live (tt_payload_pool t) \<Longrightarrow> pl_mem pool q = pl_mem (tt_payload_pool t) q"
    and own: "\<And>b. b \<in> nodes t \<Longrightarrow> tn_last_payload (nd t b) = Some p \<Longrightarrow> b = a"
    and lp: "tn_last_payload (nd t a) = None \<or> tn_last_payload (nd t a) = Some p"
    and k: "k = min (length bs) TOPIC_PAYLOAD_CAP"
  shows "stores P a (Some bs) t
    ((set_node a (with_payload p k (nd t a)) t)\<lparr>tt_payload_pool := pool_write p (take k bs @ old) pool\<rparr>)"
proof -
  let ?t = "set_node a (with_payload p k (nd t a)) t"
  let ?pool = "pool_write p (take k bs @ old) pool"
  let ?t' = "?t\<lparr>tt_payload_pool := ?pool\<rparr>"
  have l: "links_same (with_payload p k n) n" for n by (simp add: with_payload_def links_same_def)
  note sn = set_node_links [OF t(1,3) l]
  have n: "nd ?t' d = (if d = a then with_payload p k (nd t a) else nd t d)" if "d \<in> nodes t" for d
    using sn(3) [OF that] by simp
  have wp: "pool_wf ?pool" "pool_live ?pool = insert p (pool_live (tt_payload_pool t))"
    using pool_write_contract [OF pool(1), of p "take k bs @ old"] pool(4) by simp_all
  have fit: "blocks_fit ?pool"
    using pool(2-4) wp(2) by (auto simp: blocks_fit_def pool_write_def)
  have last: "tn_last_payload (nd ?t' d) = (if d = a then Some p else tn_last_payload (nd t d))" if "d \<in> nodes t" for d
    using n [OF that] by (simp add: with_payload_def)
  have other: "q \<noteq> p" if "d \<in> nodes t" "d \<noteq> a" "tn_last_payload (nd t d) = Some q" for d q
    using own that by blast
  have "pool_live ?pool = {q. \<exists>d\<in>nodes t. tn_last_payload (nd ?t' d) = Some q}"
  proof (intro set_eqI iffI CollectI)
    fix q assume "q \<in> pool_live ?pool"
    then consider "q = p" | "q \<in> pool_live (tt_payload_pool t)" using wp(2) by auto
    then show "\<exists>d\<in>nodes t. tn_last_payload (nd ?t' d) = Some q"
    proof cases
      case 1
      then show ?thesis using t(3) last by (intro bexI [of _ a]) simp_all
    next
      case 2
      then obtain d where d: "d \<in> nodes t" "tn_last_payload (nd t d) = Some q" using payloads_okD(3) [OF t(2)] by blast
      then have "d = a \<Longrightarrow> q = p" using lp by auto
      then show ?thesis using d last by (intro bexI [of _ d]) auto
    qed
  next
    fix q assume "q \<in> {q. \<exists>d\<in>nodes t. tn_last_payload (nd ?t' d) = Some q}"
    then obtain d where d: "d \<in> nodes t" "tn_last_payload (nd ?t' d) = Some q" by blast
    then show "q \<in> pool_live ?pool"
      unfolding wp(2) using last [OF d(1)] payloads_okD(2) [OF t(2) d(1), of q] by (auto split: if_splits)
  qed
  moreover have "d = e" if de: "d \<in> nodes t" "e \<in> nodes t" "tn_last_payload (nd ?t' d) = Some q" "tn_last_payload (nd ?t' e) = Some q" for d e q
  proof (cases "d = a \<or> e = a")
    case True
    then show ?thesis using de last other by (metis option.inject)
  next
    case False
    then show ?thesis using de last payloads_okD(4) [OF t(2) de(1,2), of q] by simp
  qed
  ultimately have pay: "payloads_ok ?t'"
    unfolding payloads_ok_def using wp(1) fit sn(2) by (simp del: not_None_eq) (metis option.exhaust)
  have nodes_kept: "nodes_kept P t ?t'" using sn(1,2) pay by (simp add: nodes_kept_def)
  have small: "unat (word_of_nat k :: u32) = k" by (simp add: k unat_of_nat min_def)
  have kl: "k \<le> length bs" by (simp add: k)
  have "payload_bytes ?t' a = Some (take k bs)"
    using n [OF t(3)] by (simp add: payload_bytes_def topic_node_payload_def with_payload_def block_at_def pool_write_def small kl)
  moreover have "payload_bytes ?t' d = payload_bytes t d" if d: "d \<in> nodes t" "d \<noteq> a" for d
  proof (cases "tn_last_payload (nd t d)")
    case (Some q)
    have "q \<in> pool_live (tt_payload_pool t)" by (rule payloads_okD(2) [OF t(2) d(1) Some])
    then have "pl_mem ?pool q = pl_mem (tt_payload_pool t) q"
      using pool(5) other [OF d Some] by (simp add: pool_write_def)
    then show ?thesis using n [OF d(1)] d(2) Some by (simp add: payload_bytes_def topic_node_payload_def block_at_def)
  qed (use n [OF d(1)] d(2) in \<open>simp add: payload_bytes_def topic_node_payload_def\<close>)
  moreover have "own_count ?t' d = own_count t d" if "d \<in> nodes t" for d
    using n [OF that] by (simp add: own_count_def with_payload_def)
  moreover have "take k bs = snapshot_of (Some bs)" by (simp add: snapshot_of_def k min_def)
  ultimately show ?thesis using nodes_kept by (simp add: stores_def)
qed

lemma payload_set_contract:
  assumes "tree_ok P t" "payloads_ok t" "a \<in> nodes t" "card (nodes t) + 1 < 2 ^ 32"
  shows "\<exists>t'. topic_node_payload_set a src t = Some t' \<and> stores P a src t t'"
proof (cases "src = None \<or> src = Some []")
  case True
  then show ?thesis
    using clear_stores [OF assms(1-3), of src] by (auto simp: topic_node_payload_set_def snapshot_of_def)
next
  case False
  then obtain bs where bs: "src = Some bs" "bs \<noteq> []" by auto
  let ?n = "nd t a"
  let ?k = "min (length bs) TOPIC_PAYLOAD_CAP"
  obtain p pool where p: "(case tn_last_payload ?n of Some p \<Rightarrow> Some (p, t)
      | None \<Rightarrow> map_option (\<lambda>(p, pool). (p, (set_node a (?n\<lparr>tn_last_payload := Some p\<rparr>) t)\<lparr>tt_payload_pool := pool\<rparr>))
                  (pool_alloc_get (tt_payload_pool t)))
      = Some (p, (set_node a (?n\<lparr>tn_last_payload := Some p\<rparr>) t)\<lparr>tt_payload_pool := pool\<rparr>)"
    "pool_wf pool" "blocks_fit pool" "pool_live pool = insert p (pool_live (tt_payload_pool t))"
    "\<And>q. q \<in> pool_live (tt_payload_pool t) \<Longrightarrow> pl_mem pool q = pl_mem (tt_payload_pool t) q"
    "\<And>b. b \<in> nodes t \<Longrightarrow> tn_last_payload (nd t b) = Some p \<Longrightarrow> b = a"
    by (rule payload_block [OF assms]) blast
  let ?t1 = "(set_node a (?n\<lparr>tn_last_payload := Some p\<rparr>) t)\<lparr>tt_payload_pool := pool\<rparr>"
  have at1: "node_at ?t1 a = Some (?n\<lparr>tn_last_payload := Some p\<rparr>)"
    by (simp add: node_at_def set_node_def pool_write_def)
  obtain old where old: "block_at ?t1 p = Some old"
    using block_live [of ?t1 p] p(2,4) by auto
  have "length old \<le> TOPIC_PAYLOAD_CAP"
    using p(3,4) old by (auto simp: blocks_fit_def block_at_def split: option.splits cell.splits)
  then have fits: "length (take ?k bs @ drop ?k old) \<le> TOPIC_PAYLOAD_CAP" by simp
  have lp: "tn_last_payload ?n = None \<or> tn_last_payload ?n = Some p"
    using p(1) by (cases "tn_last_payload ?n") auto
  have "set_node a (with_payload p ?k ?n) t
      = set_node a (?n\<lparr>tn_last_payload := Some p, tn_last_payload_stored := word_of_nat ?k\<rparr>) (set_node a (?n\<lparr>tn_last_payload := Some p\<rparr>) t)"
    by (simp add: set_node_def pool_write_def with_payload_def)
  moreover have "(if length bs < TOPIC_PAYLOAD_CAP then length bs else TOPIC_PAYLOAD_CAP) = ?k" by (simp add: min_def)
  ultimately have "topic_node_payload_set a src t
      = Some ((set_node a (with_payload p ?k ?n) t)\<lparr>tt_payload_pool := pool_write p (take ?k bs @ drop ?k old) pool\<rparr>)"
    using bs node_at_nd [OF assms(1,3)] p(1) at1 old by (simp add: topic_node_payload_set_def Let_def)
  moreover have "stores P a src t ((set_node a (with_payload p ?k ?n) t)\<lparr>tt_payload_pool := pool_write p (take ?k bs @ drop ?k old) pool\<rparr>)"
    unfolding bs(1) by (rule write_stores [OF assms(1-3) p(2,3) fits p(4-6) lp refl])
  ultimately show ?thesis by blast
qed

end
