(* ===== verification/Subscription.thy ===== *)
theory Subscription
  imports Prelude
begin

text \<open>
  \<open>src/src/model/subscription.c\<close>: the topic filter matcher, and the wildcard rules of MQTT 3.1.1
  (section 4.7) over topic levels that it is meant to implement.
\<close>

subsection \<open>The matcher\<close>

text \<open>
  \<open>f\<close> and \<open>t\<close> are the rests of the two strings; \<open>at_start\<close> is the C test
  \<open>f == filter\<close>. After the loop: the three final tests.
\<close>

definition match_rest :: "string \<Rightarrow> string \<Rightarrow> bool" where
  "match_rest f t \<longleftrightarrow>
     (if t = [] \<and> f = ''/#'' then True
      else if f \<noteq> [] \<and> hd f = CHR ''#'' then True
      else f = [] \<and> t = [])"

function match_loop :: "bool \<Rightarrow> bool \<Rightarrow> string \<Rightarrow> string \<Rightarrow> bool" where
  "match_loop dollar at_start f t =
     (case f of
        [] \<Rightarrow> match_rest f t
      | cf # f' \<Rightarrow>
          (case t of
             [] \<Rightarrow> match_rest f t
           | ct # t' \<Rightarrow>
               if cf = CHR ''#'' then \<not> (dollar \<and> at_start)
               else if cf = CHR ''+'' then
                 (if dollar \<and> at_start then False
                  else
                    let t2 = dropWhile (\<lambda>c. c \<noteq> CHR ''/'') t in
                    if f' \<noteq> [] \<and> hd f' = CHR ''/'' \<and> t2 \<noteq> [] \<and> hd t2 = CHR ''/''
                    then match_loop dollar False (tl f') (tl t2)
                    else f' = [] \<and> t2 = [])
               else if cf \<noteq> ct then False
               else match_loop dollar False f' t'))"
  by pat_completeness auto
termination
  by (relation "measure (\<lambda>(d, s, f, t). length f)") auto

declare match_loop.simps [simp del]

definition mqtt_topic_matches :: "string option \<Rightarrow> string option \<Rightarrow> bool" where
  "mqtt_topic_matches topic_filter topic =
     (case (topic_filter, topic) of
        (Some f, Some t) \<Rightarrow> match_loop (t \<noteq> [] \<and> hd t = CHR ''$'') True f t
      | _ \<Rightarrow> False)"

subsection \<open>The wildcard rules\<close>

fun levels_match :: "string list \<Rightarrow> string list \<Rightarrow> bool" where
  "levels_match [] ls = (ls = [])"
| "levels_match (f # fs) ls =
     (if f = ''#'' \<and> fs = [] then True
      else case ls of [] \<Rightarrow> False | l # ls' \<Rightarrow> (f = ''+'' \<or> f = l) \<and> levels_match fs ls')"

abbreviation levels :: "string \<Rightarrow> string list" where
  "levels s \<equiv> split_on (CHR ''/'') s"

definition mqtt_spec :: "string \<Rightarrow> string \<Rightarrow> bool" where
  "mqtt_spec f t \<longleftrightarrow>
     \<not> (t \<noteq> [] \<and> hd t = CHR ''$'' \<and> f \<noteq> [] \<and> (hd f = CHR ''#'' \<or> hd f = CHR ''+''))
     \<and> levels_match (levels f) (levels t)"

text \<open>A wildcard fills its level, and \<open>#\<close> is the last level.\<close>

definition wild_free :: "string \<Rightarrow> bool" where
  "wild_free s \<longleftrightarrow> CHR ''#'' \<notin> set s \<and> CHR ''+'' \<notin> set s"

fun filter_levels_ok :: "string list \<Rightarrow> bool" where
  "filter_levels_ok [] = True"
| "filter_levels_ok (f # fs) \<longleftrightarrow> (f = ''#'' \<and> fs = []) \<or> ((f = ''+'' \<or> wild_free f) \<and> filter_levels_ok fs)"

definition valid_filter :: "string \<Rightarrow> bool" where
  "valid_filter f \<longleftrightarrow> f \<noteq> [] \<and> filter_levels_ok (levels f)"

subsection \<open>The matcher on levels\<close>

text \<open>What the loop computes, level by level; the two deviations from the rules show.\<close>

fun code_match :: "bool \<Rightarrow> bool \<Rightarrow> string list \<Rightarrow> string list \<Rightarrow> bool" where
  "code_match d b [] ls = False"
| "code_match d b (f # fs) [] = False"
| "code_match d b (f # fs) (l # ls) =
     (if f = ''#'' then (l = [] \<and> ls = [] \<or> \<not> (d \<and> b))
      else if f = ''+'' then
        \<not> (l = [] \<and> ls = []) \<and> \<not> (d \<and> b) \<and> (fs = [] \<and> ls = [] \<or> code_match d False fs ls)
      else f = l \<and> (ls = [] \<and> (fs = [] \<or> fs = [''#'']) \<or> code_match d False fs ls))"

abbreviation slash :: char where "slash \<equiv> CHR ''/''"

lemma loop_Nil [simp]: "match_loop d b [] t = match_rest [] t" "match_loop d b f [] = match_rest f []"
  by (auto simp: match_loop.simps split: list.splits)

lemma match_rest_iff:
  "match_rest f t \<longleftrightarrow> t = [] \<and> f = ''/#'' \<or> (f \<noteq> [] \<and> hd f = CHR ''#'') \<or> f = [] \<and> t = []"
  by (auto simp: match_rest_def)

lemma loop_slash: "match_loop d b (slash # f) (slash # t) = match_loop d False f t"
  by (simp add: match_loop.simps [of d b "slash # f"])

lemma loop_char: "c \<noteq> CHR ''#'' \<Longrightarrow> c \<noteq> CHR ''+'' \<Longrightarrow>
    match_loop d b (c # f) (e # t) = (c = e \<and> match_loop d False f t)"
  by (simp add: match_loop.simps [of d b "c # f"])

definition at_border :: "string \<Rightarrow> bool" where
  "at_border s \<longleftrightarrow> s = [] \<or> hd s = slash"

lemma border_cases: "at_border s \<Longrightarrow> (s = [] \<Longrightarrow> P) \<Longrightarrow> (\<And>r. s = slash # r \<Longrightarrow> P) \<Longrightarrow> P"
  by (cases s) (auto simp: at_border_def)

lemma loop_literal:
  assumes "wild_free w" "slash \<notin> set w" "slash \<notin> set l" "at_border f" "at_border t"
  shows "match_loop d b (w @ f) (l @ t) =
     (w = l \<and> (f = [] \<and> t = [] \<or> t = [] \<and> f = ''/#'' \<or>
               f \<noteq> [] \<and> t \<noteq> [] \<and> match_loop d False (tl f) (tl t)))"
  using assms
proof (induction w arbitrary: l b)
  case Nil
  show ?case
  proof (cases l)
    case Nil
    then show ?thesis using Nil.prems
      by (auto elim!: border_cases simp: loop_slash match_rest_iff)
  next
    case (Cons x l')
    then have "x \<noteq> slash" using Nil.prems by auto
    then show ?thesis using Cons Nil.prems
      by (auto elim!: border_cases simp: loop_char match_rest_iff)
  qed
next
  case (Cons c w)
  have c: "c \<noteq> CHR ''#''" "c \<noteq> CHR ''+''" "c \<noteq> slash" using Cons.prems by (auto simp: wild_free_def)
  show ?case
  proof (cases l)
    case Nil
    then show ?thesis using c Cons.prems(5)
      by (auto elim!: border_cases simp: loop_char match_rest_iff)
  next
    case (Cons x l')
    have "wild_free w" "slash \<notin> set w" "slash \<notin> set l'"
      using Cons.prems Cons by (auto simp: wild_free_def)
    then show ?thesis using Cons.IH [of l'] Cons Cons.prems(4,5) c by (simp add: loop_char)
  qed
qed

lemma dropWhile_level:
  "slash \<notin> set l \<Longrightarrow> at_border t \<Longrightarrow> dropWhile (\<lambda>c. c \<noteq> slash) (l @ t) = t"
  by (induction l) (auto elim!: border_cases)

lemma loop_plus:
  assumes "slash \<notin> set l" "at_border f" "at_border t" "l @ t \<noteq> []"
  shows "match_loop d b (CHR ''+'' # f) (l @ t) =
     (\<not> (d \<and> b) \<and> (f = [] \<and> t = [] \<or> f \<noteq> [] \<and> t \<noteq> [] \<and> match_loop d False (tl f) (tl t)))"
proof -
  obtain x r where x: "l @ t = x # r" using assms(4) by (cases "l @ t") auto
  then have dw: "dropWhile (\<lambda>c. c \<noteq> slash) (x # r) = t" using dropWhile_level [OF assms(1,3)] by simp
  show ?thesis
    unfolding x using assms(2,3) dw
    by (subst match_loop.simps) (auto simp: Let_def at_border_def)
qed

definition rest_of :: "string list \<Rightarrow> string" where
  "rest_of ws = (if ws = [] then [] else slash # join slash ws)"

lemma join_rest: "join slash (w # ws) = w @ rest_of ws"
  by (cases ws) (simp_all add: rest_of_def)

lemma border_rest [simp]: "at_border (rest_of ws)"
  by (simp add: at_border_def rest_of_def)

lemma rest_simps [simp]: "rest_of [] = []" "rest_of ws = [] \<longleftrightarrow> ws = []" "ws \<noteq> [] \<Longrightarrow> tl (rest_of ws) = join slash ws"
  by (simp_all add: rest_of_def)

lemma rest_hash: "(\<forall>w\<in>set ws. slash \<notin> set w) \<Longrightarrow> rest_of ws = ''/#'' \<longleftrightarrow> ws = [''#'']"
proof
  assume a: "\<forall>w\<in>set ws. slash \<notin> set w" "rest_of ws = ''/#''"
  then have ne: "ws \<noteq> []" by (auto simp: rest_of_def)
  then have "join slash ws = ''#''" using a(2) by (simp add: rest_of_def)
  then have "split_on slash (join slash ws) = [''#'']" by simp
  then show "ws = [''#'']" using split_on_join [OF ne] a(1) by simp
qed (simp add: rest_of_def)

lemma match_loop_levels:
  assumes "fs \<noteq> []" "ls \<noteq> []" "filter_levels_ok fs"
    and "\<forall>w\<in>set fs. slash \<notin> set w" "\<forall>w\<in>set ls. slash \<notin> set w"
  shows "match_loop d b (join slash fs) (join slash ls) = code_match d b fs ls"
  using assms
proof (induction fs arbitrary: ls b)
  case (Cons f fs)
  obtain l ls' where ls: "ls = l # ls'" using Cons.prems(2) by (cases ls) auto
  have rec: "match_loop d False (join slash fs) (join slash ls') = code_match d False fs ls'"
    if "fs \<noteq> []" "ls' \<noteq> []" "filter_levels_ok fs"
    using Cons.IH [OF that(1,2,3)] Cons.prems ls by simp
  have nc: "code_match d False fs ls' = False" if "fs = [] \<or> ls' = []"
    using that by (cases fs) auto
  have sl: "slash \<notin> set l" "slash \<notin> set f" using Cons.prems ls by auto
  show ?case
  proof (cases "f = ''#''")
    case True
    then have fs: "fs = []" using Cons.prems(3) by (auto simp: wild_free_def)
    show ?thesis
    proof (cases "l = [] \<and> ls' = []")
      case True
      then show ?thesis using \<open>f = ''#''\<close> fs ls by (simp add: match_rest_iff)
    next
      case False
      then obtain x r where "join slash ls = x # r"
        using ls by (cases "join slash ls") (auto simp: join_rest)
      then show ?thesis using \<open>f = ''#''\<close> fs ls False
        by (cases "l = []") (auto simp: match_loop.simps [of d b "''#''" "x # r"])
    qed
  next
    case False
    then have ok: "f = ''+'' \<or> wild_free f" "filter_levels_ok fs" using Cons.prems(3) by auto
    show ?thesis
    proof (cases "f = ''+''")
      case True
      show ?thesis
      proof (cases "l = [] \<and> ls' = []")
        case True
        then show ?thesis using \<open>f = ''+''\<close> ls by (simp add: join_rest match_rest_iff)
      next
        case False
        then have "l @ rest_of ls' \<noteq> []" by auto
        then show ?thesis
          using loop_plus [OF sl(1) border_rest border_rest, of ls' d b fs] rec nc ok(2) True False ls
          by (cases "fs = []"; cases "ls' = []") (simp_all add: join_rest)
      qed
    next
      case False
      then have w: "wild_free f" using ok(1) by simp
      have "rest_of fs = ''/#'' \<longleftrightarrow> fs = [''#'']" using rest_hash [of fs] Cons.prems(4) by simp
      then show ?thesis
        using loop_literal [OF w sl(2,1) border_rest border_rest, of d b fs ls'] rec nc ok(2) False
          \<open>f \<noteq> ''#''\<close> ls
        by (cases "fs = []"; cases "ls' = []") (auto simp: join_rest)
    qed
  qed
qed simp

lemma matches_levels:
  assumes "valid_filter f"
  shows "mqtt_topic_matches (Some f) (Some t)
     = code_match (t \<noteq> [] \<and> hd t = CHR ''$'') True (levels f) (levels t)"
proof -
  have "match_loop d True (join slash (levels f)) (join slash (levels t)) = code_match d True (levels f) (levels t)" for d
    by (rule match_loop_levels) (use assms in \<open>auto simp: valid_filter_def dest: split_on_sep_free\<close>)
  then show ?thesis by (simp add: mqtt_topic_matches_def join_split_on)
qed

subsection \<open>Against the rules\<close>

definition wild_levels_free :: "string list \<Rightarrow> bool" where
  "wild_levels_free ls \<longleftrightarrow> (\<forall>l\<in>set ls. wild_free l)"

text \<open>The two shapes on which the matcher says no and the rules say yes.\<close>

definition plain_case :: "string list \<Rightarrow> string list \<Rightarrow> bool" where
  "plain_case fs ls \<longleftrightarrow> last ls \<noteq> [] \<and> (\<forall>pre. fs \<noteq> pre @ [''+'', ''#''])"

lemma code_sound: "code_match d b fs ls \<Longrightarrow> filter_levels_ok fs \<Longrightarrow> levels_match fs ls"
  by (induction d b fs ls rule: code_match.induct) (auto simp: wild_free_def split: if_splits)

lemma code_dollar:
  "code_match True True fs ls \<Longrightarrow> ls \<noteq> [[]] \<Longrightarrow> \<not> (hd fs = ''#'' \<or> hd fs = ''+'')"
  by (cases fs; cases ls) auto

lemma code_complete:
  assumes "levels_match fs ls" "filter_levels_ok fs" "fs \<noteq> []" "ls \<noteq> []" "plain_case fs ls"
    and "\<not> (d \<and> b \<and> (hd fs = ''#'' \<or> hd fs = ''+''))"
  shows "code_match d b fs ls"
  using assms
proof (induction d b fs ls rule: code_match.induct)
  case (3 d b f fs l ls)
  have plain: "plain_case fs ls" if "ls \<noteq> []"
    using "3.prems"(5) that unfolding plain_case_def by (metis append_Cons last_ConsR)
  have nil: "levels_match fs [] \<Longrightarrow> fs = [] \<or> fs = [''#'']"
    by (cases fs) (auto split: if_splits)
  have rec: "code_match d False fs ls"
    if "levels_match fs ls" "filter_levels_ok fs" "fs \<noteq> []" "ls \<noteq> []" "f \<noteq> ''#''"
    using "3.IH"(2) "3.IH"(1) that plain "3.prems" by (cases "f = ''+''") auto
  show ?case
  proof (cases "f = ''#''")
    case True
    then show ?thesis using "3.prems"(6) by auto
  next
    case False
    then have m: "f = ''+'' \<or> f = l" "levels_match fs ls" and ok: "filter_levels_ok fs"
      using "3.prems"(1,2) by auto
    have none: "fs = [] \<Longrightarrow> ls = []" using m(2) by auto
    show ?thesis
    proof (cases "ls = []")
      case True
      then have "fs = [] \<or> fs = [''#'']" using nil m(2) by simp
      moreover have "l \<noteq> []" using "3.prems"(5) True by (simp add: plain_case_def)
      moreover have "f = ''+'' \<Longrightarrow> fs \<noteq> [''#'']"
        using "3.prems"(5) unfolding plain_case_def by (metis append_Nil)
      ultimately show ?thesis using False m(1) True "3.prems"(6) by auto
    next
      case False
      then show ?thesis using rec m ok none \<open>f \<noteq> ''#''\<close> "3.prems"(6) by auto
    qed
  qed
qed simp_all

lemma first_level:
  assumes "filter_levels_ok (levels f)" "f \<noteq> []"
  shows "(hd f = CHR ''#'' \<or> hd f = CHR ''+'') \<longleftrightarrow> (hd (levels f) = ''#'' \<or> hd (levels f) = ''+'')"
proof -
  obtain w ws where w: "levels f = w # ws" by (cases "levels f") auto
  then have f: "f = w @ rest_of ws" using join_split_on [of slash f] by (simp add: join_rest)
  have ok: "w = ''#'' \<or> w = ''+'' \<or> wild_free w" using assms(1) w by auto
  show ?thesis
  proof (cases w)
    case Nil
    then show ?thesis using f assms(2) w by (auto simp: rest_of_def split: if_splits)
  next
    case (Cons c cs)
    then show ?thesis using f ok w by (auto simp: wild_free_def)
  qed
qed

subsection \<open>Properties\<close>

text \<open>
  C11. The subscription matcher against MQTT 3.1.1, for every valid filter: whatever it accepts the
  rules accept; and it accepts all that the rules accept unless the topic ends in an empty level or
  the filter ends in \<open>+/#\<close>.
\<close>

theorem topic_matches_spec:
  assumes "valid_filter f"
  shows "(mqtt_topic_matches (Some f) (Some t) \<longrightarrow> mqtt_spec f t)
     \<and> (plain_case (levels f) (levels t) \<longrightarrow> mqtt_spec f t \<longrightarrow> mqtt_topic_matches (Some f) (Some t))"
proof -
  let ?d = "t \<noteq> [] \<and> hd t = CHR ''$''" and ?w = "hd (levels f) = ''#'' \<or> hd (levels f) = ''+''"
  have ok: "f \<noteq> []" "filter_levels_ok (levels f)" using assms by (simp_all add: valid_filter_def)
  have spec: "mqtt_spec f t \<longleftrightarrow> \<not> (?d \<and> ?w) \<and> levels_match (levels f) (levels t)"
    using first_level [OF ok(2,1)] ok(1) by (auto simp: mqtt_spec_def)
  note m = matches_levels [OF assms, of t]
  have "t \<noteq> [] \<Longrightarrow> levels t \<noteq> [[]]" using join_split_on [of slash t] by (metis join.simps(2))
  then have "\<not> (?d \<and> ?w)" if "code_match ?d True (levels f) (levels t)"
    using that code_dollar [of "levels f" "levels t"] by auto
  then show ?thesis
    using m spec code_sound [OF _ ok(2)] code_complete [of "levels f" "levels t" ?d True] ok(2) by auto
qed

theorem topic_matches_spec_witness:
  "mqtt_spec ''home/+/temp'' ''home/kitchen/temp'' \<and> \<not> mqtt_topic_matches (Some ''#'') (Some ''$SYS/uptime'')
    \<and> mqtt_topic_matches (Some ''home/#'') (Some ''home'')"
proof -
  have v: "valid_filter ''home/+/temp''" "valid_filter ''#''" "valid_filter ''home/#''"
    by (simp_all add: valid_filter_def wild_free_def)
  have "mqtt_topic_matches (Some ''home/+/temp'') (Some ''home/kitchen/temp'')"
    by (simp add: matches_levels [OF v(1)])
  moreover have "\<not> mqtt_spec ''#'' ''$SYS/uptime''" by (simp add: mqtt_spec_def)
  moreover have "plain_case (levels ''home/#'') (levels ''home'')" "mqtt_spec ''home/#'' ''home''"
    by (auto simp: plain_case_def mqtt_spec_def Cons_eq_append_conv)
  ultimately show ?thesis
    using topic_matches_spec [OF v(1), of "''home/kitchen/temp''"] topic_matches_spec [OF v(2), of "''$SYS/uptime''"]
      topic_matches_spec [OF v(3), of "''home''"] by blast
qed

text \<open>
  C12. Where the matcher departs from the rules: a filter that ends in \<open>/+\<close> does not match a
  topic whose last level is empty, and one that ends in \<open>/+/#\<close> does not match the topic that
  stops at the level of the \<open>+\<close>, although the rules accept both, for every literal first level.
\<close>

theorem topic_matches_gaps:
  assumes "wild_free w" "slash \<notin> set w" "w \<noteq> []" "hd w \<noteq> CHR ''$''" "wild_free l" "slash \<notin> set l" "l \<noteq> []"
  shows "\<not> mqtt_topic_matches (Some (w @ ''/+'')) (Some (w @ ''/''))
     \<and> mqtt_spec (w @ ''/+'') (w @ ''/'')
     \<and> \<not> mqtt_topic_matches (Some (w @ ''/+/#'')) (Some (w @ ''/'' @ l))
     \<and> mqtt_spec (w @ ''/+/#'') (w @ ''/'' @ l)"
proof -
  have s: "levels (w @ ''/+'') = [w, ''+'']" "levels (w @ ''/'') = [w, '''']"
      "levels (w @ ''/+/#'') = [w, ''+'', ''#'']" "levels (w @ ''/'' @ l) = [w, l]"
    using assms by (simp_all add: split_on_append_sep split_on_free)
  have v: "valid_filter (w @ ''/+'')" "valid_filter (w @ ''/+/#'')"
    using assms s by (simp_all add: valid_filter_def)
  have n: "w \<noteq> ''#''" "w \<noteq> ''+''" "hd w \<noteq> CHR ''#''" "hd w \<noteq> CHR ''+''"
    using assms(1) hd_in_set [OF assms(3)] unfolding wild_free_def by force+
  show ?thesis
    using assms n matches_levels [OF v(1)] matches_levels [OF v(2)] s by (simp add: mqtt_spec_def)
qed

theorem topic_matches_gaps_witness:
  "\<not> mqtt_topic_matches (Some ''a/+'') (Some ''a/'') \<and> mqtt_spec ''a/+'' ''a/''"
  using topic_matches_gaps [of "''a''" "''b''"] by (simp add: wild_free_def)

end
