(* ===== verification/Version.thy ===== *)
theory Version
  imports Util
begin

text \<open>
  \<open>src/src/model/version.c\<close>: version numbers of releases and the tag of a release reply.
  \<open>strtoul\<close> and \<open>sscanf\<close> are written out for the formats that are used.
\<close>

record version =
  v_part :: "nat list"
  v_prerelease :: bool

subsection \<open>Numbers\<close>

definition digit_value :: "char \<Rightarrow> nat" where
  "digit_value c = of_char c - 48"

definition digits_value :: "string \<Rightarrow> nat" where
  "digits_value ds = foldl (\<lambda>n c. 10 * n + digit_value c) 0 ds"

text \<open>\<open>strtoul(s, &end, 10)\<close> on a string that starts with a digit; it saturates at \<open>ULONG_MAX\<close>.\<close>

definition strtoul10 :: "string \<Rightarrow> nat \<times> string" where
  "strtoul10 s = (min (digits_value (takeWhile is_digit s)) (2 ^ 64 - 1), dropWhile is_digit s)"

lemma is_digit_char: "d < 10 \<Longrightarrow> is_digit (digit_char d)"
  by (simp add: is_digit_def digit_char_def)

lemma value_digit_char: "d < 10 \<Longrightarrow> digit_value (digit_char d) = d"
  by (simp add: digit_value_def digit_char_def)

lemma dec_digits: "c \<in> set (dec n) \<Longrightarrow> is_digit c"
proof (induction n rule: dec.induct)
  case (1 n)
  then show ?case by (subst (asm) (2) dec.simps) (auto simp: is_digit_char split: if_splits)
qed

lemma dec_not_Nil [simp]: "dec n \<noteq> []"
  by (subst dec.simps) simp

lemma digits_value_snoc: "digits_value (ds @ [c]) = 10 * digits_value ds + digit_value c"
  by (simp add: digits_value_def)

lemma digits_value_dec: "digits_value (dec n) = n"
proof (induction n rule: dec.induct)
  case (1 n)
  show ?case
  proof (cases "n < 10")
    case True
    then show ?thesis by (subst dec.simps) (simp add: digits_value_def value_digit_char)
  next
    case False
    then show ?thesis using 1 by (subst dec.simps) (simp add: digits_value_snoc value_digit_char)
  qed
qed

lemma dec_span:
  assumes "s = [] \<or> \<not> is_digit (hd s)"
  shows "takeWhile is_digit (dec n @ s) = dec n" "dropWhile is_digit (dec n @ s) = s"
proof -
  have "takeWhile is_digit s = []" "dropWhile is_digit s = s" using assms by (cases s; simp)+
  then show "takeWhile is_digit (dec n @ s) = dec n" "dropWhile is_digit (dec n @ s) = s"
    by (simp_all add: takeWhile_append dropWhile_append dec_digits)
qed

lemma strtoul_dec:
  "n < 2 ^ 64 \<Longrightarrow> s = [] \<or> \<not> is_digit (hd s) \<Longrightarrow> strtoul10 (dec n @ s) = (n, s)"
  by (simp add: strtoul10_def dec_span digits_value_dec)

subsection \<open>Parsing\<close>

text \<open>The three rounds of the loop; the result is the parts read and the rest of the string.\<close>

fun version_parts :: "nat \<Rightarrow> string \<Rightarrow> (nat list \<times> string) option" where
  "version_parts 0 s = Some ([], s)"
| "version_parts (Suc rounds) s =
     (if s = [] \<or> \<not> is_digit (hd s) then None
      else
        let (n, s) = strtoul10 s in
        if s = [] \<or> hd s \<noteq> CHR ''.'' then Some ([n], s)
        else map_option (\<lambda>(ps, r). (n # ps, r)) (version_parts rounds (tl s)))"

definition version_parse :: "string option \<Rightarrow> version option" where
  "version_parse str =
     (case str of
        None \<Rightarrow> None
      | Some s \<Rightarrow>
          (let s = (if s \<noteq> [] \<and> (hd s = CHR ''v'' \<or> hd s = CHR ''V'') then tl s else s) in
           case version_parts 3 s of
             None \<Rightarrow> None
           | Some (ps, r) \<Rightarrow>
               (let out = \<lparr>v_part = ps @ replicate (3 - length ps) 0, v_prerelease = False\<rparr> in
                if r \<noteq> [] \<and> hd r = CHR ''-'' then Some (out\<lparr>v_prerelease := True\<rparr>)
                else if r \<noteq> [] \<and> hd r \<noteq> CHR ''+'' then None
                else Some out)))"

fun parts_newer :: "nat list \<Rightarrow> nat list \<Rightarrow> bool \<Rightarrow> bool" where
  "parts_newer (a # as) (b # bs) rest = (if a \<noteq> b then a > b else parts_newer as bs rest)"
| "parts_newer _ _ rest = rest"

definition version_is_newer :: "string option \<Rightarrow> string option \<Rightarrow> bool" where
  "version_is_newer latest current =
     (case (version_parse latest, version_parse current) of
        (Some a, Some b) \<Rightarrow> parts_newer (v_part a) (v_part b) (\<not> v_prerelease a \<and> v_prerelease b)
      | _ \<Rightarrow> False)"

subsection \<open>The release tag\<close>

definition is_space :: "char \<Rightarrow> bool" where
  "is_space c \<longleftrightarrow> (of_char c :: nat) \<in> {9, 10, 11, 12, 13, 32}"

text \<open>\<open>strstr\<close>: the rest of \<open>s\<close> after the first occurrence of \<open>key\<close>.\<close>

fun after_first :: "string \<Rightarrow> string \<Rightarrow> string option" where
  "after_first key s =
     (if take (length key) s = key then Some (drop (length key) s)
      else case s of [] \<Rightarrow> None | _ # s' \<Rightarrow> after_first key s')"

declare after_first.simps [simp del]

text \<open>
  \<open>sscanf(p, " : \"%63[^\"]\"%n", tag, &consumed)\<close> with its two tests: the tag, when the
  closing quote was matched.
\<close>

definition scan_tag :: "string \<Rightarrow> string option" where
  "scan_tag p =
     (let p1 = dropWhile is_space p in
      if p1 = [] \<or> hd p1 \<noteq> CHR '':'' then None
      else
        let p2 = dropWhile is_space (tl p1) in
        if p2 = [] \<or> hd p2 \<noteq> CHR 0x22 then None
        else
          let tag = take 63 (takeWhile (\<lambda>c. c \<noteq> CHR 0x22) (tl p2));
              r = drop (length tag) (tl p2)
          in if tag = [] then None
             else if r = [] \<or> hd r \<noteq> CHR 0x22 then None
             else Some tag)"

definition tag_key :: string where
  "tag_key = [CHR 0x22] @ ''tag_name'' @ [CHR 0x22]"

definition version_extract_tag :: "string option \<Rightarrow> string \<Rightarrow> nat \<Rightarrow> string option" where
  "version_extract_tag json out cap =
     (case json of
        None \<Rightarrow> None
      | Some s \<Rightarrow>
          (case after_first tag_key s of
             None \<Rightarrow> None
           | Some p \<Rightarrow>
               (case scan_tag p of
                  None \<Rightarrow> None
                | Some tag \<Rightarrow> if length tag \<ge> cap then None else Some (util_str_copy out cap (Some tag)))))"

subsection \<open>Rendered versions\<close>

definition render_version :: "nat \<Rightarrow> nat \<Rightarrow> nat \<Rightarrow> string \<Rightarrow> string" where
  "render_version a b c suffix = ''v'' @ dec a @ ''.'' @ dec b @ ''.'' @ dec c @ suffix"

definition suffix_ok :: "string \<Rightarrow> bool" where
  "suffix_ok s \<longleftrightarrow> s = [] \<or> hd s = CHR ''-'' \<or> hd s = CHR ''+''"

lemma not_digit_punct [simp]:
  "\<not> is_digit (CHR ''.'')" "\<not> is_digit (CHR ''-'')" "\<not> is_digit (CHR ''+'')" "\<not> is_digit (CHR ''v'')"
  by (simp_all add: is_digit_def)

lemma hd_dec_digit [simp]: "is_digit (hd (dec n))"
  by (rule dec_digits [of _ n]) simp

lemma version_parts_Suc:
  assumes "n < 2 ^ 64" "s = [] \<or> \<not> is_digit (hd s)"
  shows "version_parts (Suc k) (dec n @ s) =
     (if s = [] \<or> hd s \<noteq> CHR ''.'' then Some ([n], s)
      else map_option (\<lambda>(ps, r). (n # ps, r)) (version_parts k (tl s)))"
  using strtoul_dec [OF assms] by (simp add: Let_def del: replicate.simps)

lemma parse_rendered:
  assumes "a < 2 ^ 64" "b < 2 ^ 64" "c < 2 ^ 64" "suffix_ok s"
  shows "version_parse (Some (render_version a b c s))
     = Some \<lparr>v_part = [a, b, c], v_prerelease = (s \<noteq> [] \<and> hd s = CHR ''-'')\<rparr>"
proof -
  have s: "s = [] \<or> \<not> is_digit (hd s)" "s = [] \<or> hd s \<noteq> CHR ''.''"
    using assms(4) by (auto simp: suffix_ok_def)
  have "version_parts (Suc 0) (dec c @ s) = Some ([c], s)"
    using version_parts_Suc [OF assms(3) s(1), of 0] s(2) by simp
  then have "version_parts (Suc (Suc 0)) (dec b @ ''.'' @ dec c @ s) = Some ([b, c], s)"
    using version_parts_Suc [OF assms(2), of "''.'' @ dec c @ s" "Suc 0"] by simp
  then have "version_parts 3 (dec a @ ''.'' @ dec b @ ''.'' @ dec c @ s) = Some ([a, b, c], s)"
    using version_parts_Suc [OF assms(1), of "''.'' @ dec b @ ''.'' @ dec c @ s" "Suc (Suc 0)"]
    by (simp add: numeral_3_eq_3)
  then show ?thesis using assms(4) by (auto simp: version_parse_def render_version_def suffix_ok_def Let_def)
qed

lemma parts_newer_irrefl: "parts_newer a a False = False"
  by (induction a) auto

lemma extract_rendered:
  assumes "after_first tag_key json = Some ('': '' @ [CHR 0x22] @ tag @ [CHR 0x22] @ rest)"
    and "tag \<noteq> []" "length tag \<le> 63" "length tag < cap" "CHR 0x22 \<notin> set tag"
  shows "version_extract_tag (Some json) out cap = Some tag"
proof -
  have tw: "takeWhile (\<lambda>c. c \<noteq> CHR 0x22) (tag @ CHR 0x22 # rest) = tag"
    using assms(5) by (induction tag) auto
  have "scan_tag ('': '' @ [CHR 0x22] @ tag @ [CHR 0x22] @ rest) = Some tag"
    using assms(2,3) tw by (simp add: scan_tag_def is_space_def Let_def)
  then show ?thesis using assms(1,4) by (simp add: version_extract_tag_def)
qed

subsection \<open>Property\<close>

text \<open>
  Release comparison is the order of version numbers: for rendered versions \<open>va.b.c\<close> with an
  optional pre-release or build suffix, \<open>version_is_newer\<close> holds exactly when the triple is
  lexicographically greater, or equal with only the current one a pre-release; and it never holds
  when one of the strings does not parse.
\<close>

theorem version_newer_exact:
  assumes "a < 2 ^ 64" "b < 2 ^ 64" "c < 2 ^ 64" "suffix_ok s"
    and "a' < 2 ^ 64" "b' < 2 ^ 64" "c' < 2 ^ 64" "suffix_ok s'"
  shows "(version_is_newer (Some (render_version a b c s)) (Some (render_version a' b' c' s')) \<longleftrightarrow>
     a > a' \<or> a = a' \<and> (b > b' \<or> b = b' \<and> (c > c' \<or> c = c' \<and>
       \<not> (s \<noteq> [] \<and> hd s = CHR ''-'') \<and> s' \<noteq> [] \<and> hd s' = CHR ''-'')))
     \<and> (\<forall>x y. version_parse x = None \<longrightarrow> \<not> version_is_newer x y \<and> \<not> version_is_newer y x)"
  by (auto simp: version_is_newer_def parse_rendered [OF assms(1-4)] parse_rendered [OF assms(5-8)]
      split: option.splits)

theorem version_newer_exact_witness:
  "version_is_newer (Some (render_version 1 2 10 []))  (Some (render_version 1 2 9 []))
    \<and> version_is_newer (Some (render_version 1 0 0 [])) (Some (render_version 1 0 0 ''-rc1''))
    \<and> \<not> version_is_newer (Some ''latest'') (Some (render_version 1 0 0 []))"
proof -
  have "version_parse (Some ''latest'') = None"
    by (simp add: version_parse_def Let_def numeral_3_eq_3 is_digit_def)
  then have "\<not> version_is_newer (Some ''latest'') (Some (render_version 1 0 0 []))"
    using version_newer_exact [of 0 0 0 "[]" 0 0 0 "[]"] by (simp add: suffix_ok_def)
  moreover have "version_is_newer (Some (render_version 1 2 10 []))  (Some (render_version 1 2 9 []))"
    by (subst version_newer_exact [THEN conjunct1]) (simp_all add: suffix_ok_def)
  moreover have "version_is_newer (Some (render_version 1 0 0 [])) (Some (render_version 1 0 0 ''-rc1''))"
    by (subst version_newer_exact [THEN conjunct1]) (simp_all add: suffix_ok_def)
  ultimately show ?thesis by blast
qed

end
