(* ===== verification/Csv_Export.thy ===== *)
theory Csv_Export
  imports "HOL-Library.Sublist" Message_Buf
begin

text \<open>
  \<open>src/src/model/csv_export.c\<close>, and a reader of RFC 4180 text against which it is proved. The
  stream is the text written so far and the number of bytes it still accepts, so that every write
  may fail; \<open>gm\<close> is \<open>gmtime_r\<close> (year, month, day, hour, minute, second of a number of
  seconds).
\<close>

type_synonym stream = "string \<times> nat"

text \<open>\<open>fputs\<close>, \<open>fputc\<close>, \<open>fprintf\<close>: all of the text, or as much as fits and an error.\<close>

definition put :: "string \<Rightarrow> stream \<Rightarrow> bool \<times> stream" where
  "put s f = (case f of (w, room) \<Rightarrow>
     if length s \<le> room then (True, (w @ s, room - length s)) else (False, (w @ take room s, 0)))"

text \<open>\<open>a && b\<close> with the second write only when the first succeeded.\<close>

definition and_then :: "bool \<times> stream \<Rightarrow> (stream \<Rightarrow> bool \<times> stream) \<Rightarrow> bool \<times> stream" where
  "and_then r k = (case r of (ok, f) \<Rightarrow> if ok then k f else (False, f))"

subsection \<open>Operations\<close>

definition topic_matches :: "string \<Rightarrow> string option \<Rightarrow> bool" where
  "topic_matches topic pre =
     (case pre of
        None \<Rightarrow> True
      | Some p \<Rightarrow>
          if p = [] then True
          else
            let plen = length p in
            if take plen topic \<noteq> p then False
            else drop plen topic = [] \<or> hd (drop plen topic) = CHR ''/'')"

definition dquote :: char where "dquote = CHR 0x22"
definition CR :: char where "CR = CHR 0x0d"
definition LF :: char where "LF = CHR 0x0a"

definition needs_quotes :: "string \<Rightarrow> bool" where
  "needs_quotes s \<longleftrightarrow> CHR '','' \<in> set s \<or> dquote \<in> set s \<or> LF \<in> set s \<or> CR \<in> set s"

definition blank_nul :: "char \<Rightarrow> char" where
  "blank_nul c = (if c \<noteq> nul then c else CHR '' '')"

fun write_chars :: "string \<Rightarrow> stream \<Rightarrow> bool \<times> stream" where
  "write_chars [] f = (True, f)"
| "write_chars (b # s) f =
     (let c = blank_nul b in
      and_then (if c = dquote then put [dquote] f else (True, f))
        (\<lambda>f. and_then (put [c] f) (write_chars s)))"

definition write_field :: "string \<Rightarrow> stream \<Rightarrow> bool \<times> stream" where
  "write_field s f =
     (let quoted = needs_quotes s in
      and_then (if quoted then put [dquote] f else (True, f))
        (\<lambda>f. and_then (write_chars s f) (\<lambda>f. if quoted then put [dquote] f else (True, f))))"

definition iso8601 :: "(nat \<Rightarrow> nat \<times> nat \<times> nat \<times> nat \<times> nat \<times> nat) \<Rightarrow> u64 \<Rightarrow> string" where
  "iso8601 gm ts_us =
     (case gm (unat (ts_us div 1000000)) of (y, mo, d, h, mi, s) \<Rightarrow>
        pad0 4 (dec y) @ ''-'' @ pad0 2 (dec mo) @ ''-'' @ pad0 2 (dec d) @ ''T'' @ pad0 2 (dec h) @ '':''
        @ pad0 2 (dec mi) @ '':'' @ pad0 2 (dec s) @ ''.'' @ pad0 6 (dec (unat (ts_us mod 1000000))) @ ''Z'')"

definition write_iso8601 :: "(nat \<Rightarrow> nat \<times> nat \<times> nat \<times> nat \<times> nat \<times> nat) \<Rightarrow> u64 \<Rightarrow> stream \<Rightarrow> bool \<times> stream" where
  "write_iso8601 gm ts_us f = put (iso8601 gm ts_us) f"

definition csv_header :: string where
  "csv_header = ''timestamp,topic,qos,retained,payload'' @ [CR, LF]"

definition write_row :: "(nat \<Rightarrow> nat \<times> nat \<times> nat \<times> nat \<times> nat \<times> nat) \<Rightarrow> bytes option message_record \<Rightarrow>
    stream \<Rightarrow> bool \<times> stream" where
  "write_row gm r f =
     and_then (write_iso8601 gm (mr_timestamp_us r) f) (\<lambda>f.
     and_then (put '','' f) (\<lambda>f.
     and_then (write_field (mr_topic r) f) (\<lambda>f.
     and_then (put ('','' @ dec (unat (mr_qos r)) @ '','' @ dec (if mr_retained r then 1 else 0) @ '','') f) (\<lambda>f.
     and_then (case mr_payload r of
                 None \<Rightarrow> (True, f)
               | Some p \<Rightarrow> write_field (map char_of_byte (take (unat (mr_payload_len r)) p)) f) (\<lambda>f.
     put [CR, LF] f)))))"

text \<open>The record behind a slot, with the payload block it points to (a dangling one is \<open>None\<close>).\<close>

definition load_record :: "heap \<Rightarrow> slot \<Rightarrow> bytes option message_record option" where
  "load_record h r =
     (case mr_payload r of
        None \<Rightarrow> Some (map_payload (\<lambda>_. None) r)
      | Some a \<Rightarrow> map_option (\<lambda>bs. map_payload (\<lambda>_. Some bs) r) (hp_blocks h a))"

fun csv_loop :: "(nat \<Rightarrow> nat \<times> nat \<times> nat \<times> nat \<times> nat \<times> nat) \<Rightarrow> heap \<Rightarrow> message_buf \<Rightarrow> string option \<Rightarrow>
    nat list \<Rightarrow> int \<Rightarrow> stream \<Rightarrow> (int \<times> stream) option" where
  "csv_loop gm h buf pre [] rows f = Some (rows, f)"
| "csv_loop gm h buf pre (i # is) rows f =
     (case message_buf_get buf (word_of_nat i) of
        None \<Rightarrow> csv_loop gm h buf pre is rows f
      | Some slot \<Rightarrow>
          if \<not> topic_matches (mr_topic slot) pre then csv_loop gm h buf pre is rows f
          else
            (case load_record h slot of
               None \<Rightarrow> None
             | Some r \<Rightarrow>
                 (case write_row gm r f of (ok, f') \<Rightarrow>
                    if ok then csv_loop gm h buf pre is (rows + 1) f' else Some (-1, f'))))"

definition csv_export_write :: "(nat \<Rightarrow> nat \<times> nat \<times> nat \<times> nat \<times> nat \<times> nat) \<Rightarrow> heap \<times> message_buf \<Rightarrow>
    string option \<Rightarrow> stream \<Rightarrow> (int \<times> stream) option" where
  "csv_export_write gm s pre f =
     (case put csv_header f of (ok, f') \<Rightarrow>
        if ok then csv_loop gm (fst s) (snd s) pre [0..<unat (message_buf_count (snd s))] 0 f'
        else Some (-1, f'))"

subsection \<open>Reading CSV\<close>

text \<open>The inside of a quoted field up to its closing quote.\<close>

fun unquote :: "string \<Rightarrow> (string \<times> string) option" where
  "unquote [] = None"
| "unquote (c # s) =
     (if c = dquote then
        (case s of
           [] \<Rightarrow> Some ([], [])
         | e # s' \<Rightarrow> if e = dquote then map_option (\<lambda>(v, r). (dquote # v, r)) (unquote s')
                     else Some ([], s))
      else map_option (\<lambda>(v, r). (c # v, r)) (unquote s))"

definition plain_char :: "char \<Rightarrow> bool" where
  "plain_char c \<longleftrightarrow> c \<noteq> CHR '','' \<and> c \<noteq> dquote \<and> c \<noteq> CR \<and> c \<noteq> LF"

definition csv_field :: "string \<Rightarrow> (string \<times> string) option" where
  "csv_field s =
     (if s \<noteq> [] \<and> hd s = dquote then unquote (tl s)
      else Some (takeWhile plain_char s, dropWhile plain_char s))"

text \<open>Records, each ended by CR LF; \<open>fuel\<close> bounds the number of fields read.\<close>

fun csv_read :: "nat \<Rightarrow> string list \<Rightarrow> string \<Rightarrow> string list list option" where
  "csv_read fuel acc [] = (if acc = [] then Some [] else None)"
| "csv_read 0 acc s = None"
| "csv_read (Suc fuel) acc s =
     (case csv_field s of
        None \<Rightarrow> None
      | Some (v, r) \<Rightarrow>
          if r \<noteq> [] \<and> hd r = CHR '','' then csv_read fuel (acc @ [v]) (tl r)
          else if take 2 r = [CR, LF]
          then map_option (\<lambda>rs. (acc @ [v]) # rs) (csv_read fuel [] (drop 2 r))
          else None)"

subsection \<open>Writing is one write of the whole text\<close>

lemma put_put: "and_then (put a f) (put b) = put (a @ b) f"
  by (cases f) (auto simp: put_def and_then_def)

lemma put_Nil [simp]: "put [] f = (True, f)"
  by (cases f) (simp add: put_def)

lemma put_and_then:
  assumes "\<And>f. k f = put b f"
  shows "and_then (put a f) k = put (a @ b) f"
proof -
  have "k = put b" using assms by (simp add: fun_eq_iff)
  then show ?thesis by (simp add: put_put)
qed

definition escape :: "string \<Rightarrow> string" where
  "escape s = concat (map (\<lambda>b. if blank_nul b = dquote then [dquote, dquote] else [blank_nul b]) s)"

definition field_text :: "string \<Rightarrow> string" where
  "field_text s = (if needs_quotes s then [dquote] @ escape s @ [dquote] else escape s)"

lemma write_chars_put: "write_chars s f = put (escape s) f"
proof (induction s arbitrary: f)
  case (Cons b s)
  have "and_then (put [blank_nul b] f) (write_chars s) = put (blank_nul b # escape s) f" for f
    using put_and_then [of "write_chars s" "escape s" "[blank_nul b]" f] Cons by simp
  then show ?case
    using put_and_then [of "\<lambda>f. and_then (put [blank_nul b] f) (write_chars s)" "blank_nul b # escape s" "[dquote]" f]
    by (cases "blank_nul b = dquote") (simp_all add: escape_def and_then_def [of "(True, f)"] Let_def)
qed (simp add: escape_def)

lemma write_field_put: "write_field s f = put (field_text s) f"
proof (cases "needs_quotes s")
  case True
  have "and_then (write_chars s f) (\<lambda>f. put [dquote] f) = put (escape s @ [dquote]) f" for f
    by (simp add: write_chars_put put_put)
  then show ?thesis using True put_and_then [of _ "escape s @ [dquote]" "[dquote]" f]
    by (simp add: write_field_def field_text_def Let_def)
next
  case False
  then show ?thesis
    using put_and_then [of "\<lambda>f. (True, f)" "[]" "escape s" f]
    by (simp add: write_field_def field_text_def write_chars_put and_then_def [of "(True, f)"])
qed

definition row_text :: "(nat \<Rightarrow> nat \<times> nat \<times> nat \<times> nat \<times> nat \<times> nat) \<Rightarrow> bytes option message_record \<Rightarrow> string" where
  "row_text gm r = iso8601 gm (mr_timestamp_us r) @ '','' @ field_text (mr_topic r)
     @ ('','' @ dec (unat (mr_qos r)) @ '','' @ dec (if mr_retained r then 1 else 0) @ '','')
     @ (case mr_payload r of None \<Rightarrow> [] | Some p \<Rightarrow> field_text (map char_of_byte (take (unat (mr_payload_len r)) p)))
     @ [CR, LF]"

lemma write_row_put: "write_row gm r f = put (row_text gm r) f"
proof -
  have pay: "(case mr_payload r of None \<Rightarrow> (True, f)
      | Some p \<Rightarrow> write_field (map char_of_byte (take (unat (mr_payload_len r)) p)) f)
    = put (case mr_payload r of None \<Rightarrow> [] | Some p \<Rightarrow> field_text (map char_of_byte (take (unat (mr_payload_len r)) p))) f" for f
    by (cases "mr_payload r") (simp_all add: write_field_put)
  show ?thesis
    unfolding write_row_def row_text_def pay write_iso8601_def
    unfolding write_field_put
    by (intro put_and_then put_put)
qed

lemma put_fold:
  "and_then (put a f) (\<lambda>f. put b f) = (if length (a @ b) \<le> snd f then (True, (fst f @ a @ b, snd f - length (a @ b)))
     else (False, (fst f @ take (snd f) (a @ b), 0)))"
  unfolding put_put by (cases f) (simp add: put_def)

subsection \<open>The whole export\<close>

text \<open>The records a well-formed buffer holds, as the export sees them.\<close>

definition export_view :: "heap \<Rightarrow> slot \<Rightarrow> bytes option message_record" where
  "export_view h r = map_payload (\<lambda>p. map_option (\<lambda>a. the (hp_blocks h a)) p) r"

lemma load_view: "slot_ok h r \<Longrightarrow> load_record h r = Some (export_view h r)"
  by (cases "mr_payload r") (auto simp: load_record_def export_view_def slot_ok_Some map_payload_def)

lemma topic_view [simp]: "mr_topic (export_view h r) = mr_topic r"
  by (simp add: export_view_def)

definition chosen :: "string option \<Rightarrow> slot list \<Rightarrow> slot list" where
  "chosen pre rs = filter (\<lambda>r. topic_matches (mr_topic r) pre) rs"

definition rows_text :: "(nat \<Rightarrow> nat \<times> nat \<times> nat \<times> nat \<times> nat \<times> nat) \<Rightarrow> heap \<Rightarrow> slot list \<Rightarrow> string" where
  "rows_text gm h rs = concat (map (\<lambda>r. row_text gm (export_view h r)) rs)"

definition finished :: "string \<Rightarrow> int \<Rightarrow> stream \<Rightarrow> int \<times> stream" where
  "finished text rows f = (case put text f of (ok, f') \<Rightarrow> (if ok then rows else -1, f'))"

lemma finished_append:
  "finished (a @ b) rows f = (case put a f of (ok, f') \<Rightarrow> if ok then finished b rows f' else (-1, f'))"
  using put_put [of a f b] by (auto simp: finished_def and_then_def split: prod.splits if_splits)

lemma csv_loop_run:
  assumes "\<forall>i\<in>set is. \<exists>r. message_buf_get buf (word_of_nat i) = Some r \<and> slot_ok h r"
  shows "csv_loop gm h buf pre is rows f
     = Some (let rs = chosen pre (map (\<lambda>i. the (message_buf_get buf (word_of_nat i))) is)
             in finished (rows_text gm h rs) (rows + int (length rs)) f)"
  using assms
proof (induction "is" arbitrary: rows f)
  case Nil
  then show ?case by (simp add: chosen_def rows_text_def finished_def)
next
  case (Cons i "is")
  obtain r where r: "message_buf_get buf (word_of_nat i) = Some r" "slot_ok h r" using Cons.prems by auto
  note IH = Cons.IH [unfolded Let_def]
  show ?case
  proof (cases "topic_matches (mr_topic r) pre")
    case False
    then show ?thesis using r Cons.prems IH by (simp add: chosen_def Let_def)
  next
    case True
    obtain ok f' where pf: "put (row_text gm (export_view h r)) f = (ok, f')"
      by (cases "put (row_text gm (export_view h r)) f")
    show ?thesis
      using r Cons.prems IH True pf
      by (simp add: chosen_def Let_def load_view write_row_put rows_text_def finished_append algebra_simps)
  qed
qed

definition export_text :: "(nat \<Rightarrow> nat \<times> nat \<times> nat \<times> nat \<times> nat \<times> nat) \<Rightarrow> heap \<times> message_buf \<Rightarrow> string option \<Rightarrow> string" where
  "export_text gm s pre = csv_header @ rows_text gm (fst s) (chosen pre (live (snd s)))"

lemma export_run:
  assumes "mb_wf s"
  shows "csv_export_write gm s pre f
     = Some (finished (export_text gm s pre) (int (length (chosen pre (live (snd s))))) f)"
proof -
  obtain h buf where s: "s = (h, buf)" by (cases s)
  have ok: "mb_ring_ok buf" "owns h (live buf)" using assms by (auto simp: mb_wf_def s)
  let ?n = "unat (mb_count buf)"
  have w: "unat (word_of_nat i :: u32) = i" if "i < ?n" for i
    using that by (rule unat_word_of_nat_less)
  have get: "message_buf_get buf (word_of_nat i) = Some (live buf ! i)" if "i < ?n" for i
    using that nth_live [OF ok(1), of "word_of_nat i"] w [OF that]
    by (simp add: message_buf_get_def word_le_unat not_le)
  have slots: "\<forall>i\<in>set [0..<?n]. \<exists>r. message_buf_get buf (word_of_nat i) = Some r \<and> slot_ok h r"
    using get ok(2) by (auto simp: owns_def)
  have "map (\<lambda>i. the (message_buf_get buf (word_of_nat i))) [0..<?n] = map ((!) (live buf)) [0..<length (live buf)]"
    using get by simp
  then have lv: "map (\<lambda>i. the (message_buf_get buf (word_of_nat i))) [0..<?n] = live buf"
    by (simp only: map_nth)
  show ?thesis
    using csv_loop_run [OF slots, of gm pre 0] lv
    by (simp add: csv_export_write_def s message_buf_count_def export_text_def finished_append Let_def
        split: prod.splits)
qed

subsection \<open>Reading it back\<close>

definition blanked :: "string \<Rightarrow> string" where
  "blanked s = map blank_nul s"

lemma unquote_escape:
  "r = [] \<or> hd r \<noteq> dquote \<Longrightarrow> unquote (escape s @ dquote # r) = Some (blanked s, r)"
proof (induction s)
  case Nil
  then show ?case by (cases r) (simp_all add: escape_def blanked_def)
next
  case (Cons b s)
  then show ?case by (simp add: escape_def blanked_def)
qed

lemma plain_escape: "\<not> needs_quotes s \<Longrightarrow> escape s = blanked s \<and> (\<forall>c\<in>set (blanked s). plain_char c)"
proof (induction s)
  case (Cons b s)
  have nq: "\<not> needs_quotes s" "b \<noteq> dquote" "b \<noteq> CHR '',''" "b \<noteq> CR" "b \<noteq> LF"
    using Cons.prems by (auto simp: needs_quotes_def)
  have "blank_nul b \<noteq> dquote" "plain_char (blank_nul b)"
    using nq by (auto simp: blank_nul_def plain_char_def dquote_def CR_def LF_def)
  then show ?case using Cons.IH nq(1) by (simp add: escape_def blanked_def)
qed (simp add: escape_def blanked_def)

lemma field_roundtrip:
  assumes "r \<noteq> []" "hd r = CHR '','' \<or> hd r = CR"
  shows "csv_field (field_text s @ r) = Some (blanked s, r)"
proof (cases "needs_quotes s")
  case True
  have "hd r \<noteq> dquote" using assms(2) by (auto simp: dquote_def CR_def)
  then show ?thesis using True unquote_escape [of r s] by (simp add: csv_field_def field_text_def)
next
  case False
  note p = plain_escape [OF False]
  obtain c r' where r: "r = c # r'" "\<not> plain_char c"
    using assms by (cases r) (auto simp: plain_char_def)
  have "blanked s @ r \<noteq> [] \<and> hd (blanked s @ r) = dquote \<Longrightarrow> False"
    using p r assms(2) by (cases "blanked s") (auto simp: plain_char_def dquote_def CR_def)
  moreover have "takeWhile plain_char (blanked s @ r) = blanked s" "dropWhile plain_char (blanked s @ r) = r"
    using p r by (auto simp: takeWhile_append dropWhile_append)
  ultimately show ?thesis using False p by (auto simp: csv_field_def field_text_def)
qed

lemma plain_field:
  assumes "\<forall>c\<in>set s. plain_char c \<and> c \<noteq> nul"
  shows "field_text s = s" "blanked s = s"
proof -
  have nq: "\<not> needs_quotes s" using assms by (auto simp: needs_quotes_def plain_char_def)
  show "blanked s = s" using assms by (simp add: blanked_def blank_nul_def map_idI)
  then show "field_text s = s" using nq plain_escape [OF nq] by (simp add: field_text_def)
qed

lemma read_comma:
  assumes "n \<noteq> 0"
  shows "csv_read n acc (field_text s @ CHR '','' # r) = csv_read (n - 1) (acc @ [blanked s]) r"
  using field_roundtrip [of "CHR '','' # r" s] assms
  by (cases n; cases "field_text s @ CHR '','' # r") simp_all

lemma read_crlf:
  assumes "n \<noteq> 0"
  shows "csv_read n acc (field_text s @ [CR, LF] @ r)
    = map_option (\<lambda>rs. (acc @ [blanked s]) # rs) (csv_read (n - 1) [] r)"
  using field_roundtrip [of "[CR, LF] @ r" s] assms
  by (cases n; cases "field_text s @ [CR, LF] @ r") (simp_all add: CR_def)

lemma digit_char_plain: "d < 16 \<Longrightarrow> plain_char (digit_char d) \<and> digit_char d \<noteq> nul"
proof -
  assume "d < 16"
  moreover have "\<forall>d\<in>set [0..<16]. plain_char (digit_char d) \<and> digit_char d \<noteq> nul"
    by code_simp
  ultimately show ?thesis by simp
qed

lemma dec_plain: "c \<in> set (dec n) \<Longrightarrow> plain_char c \<and> c \<noteq> nul"
proof (induction n rule: dec.induct)
  case (1 n)
  then show ?case by (subst (asm) (2) dec.simps) (auto simp: digit_char_plain split: if_splits)
qed

lemma pad0_plain: "c \<in> set (pad0 w (dec n)) \<Longrightarrow> plain_char c \<and> c \<noteq> nul"
  by (auto simp: pad0_def dest: dec_plain) (auto simp: plain_char_def dquote_def CR_def LF_def nul_def)

lemma iso_plain: "\<forall>c\<in>set (iso8601 gm ts). plain_char c \<and> c \<noteq> nul"
  by (auto simp: iso8601_def dest: pad0_plain split: prod.splits)
    (auto simp: plain_char_def dquote_def CR_def LF_def nul_def)

text \<open>The five fields of a record, as a reader should see them.\<close>

definition record_fields :: "(nat \<Rightarrow> nat \<times> nat \<times> nat \<times> nat \<times> nat \<times> nat) \<Rightarrow> bytes message_record \<Rightarrow> string list" where
  "record_fields gm r =
     [iso8601 gm (mr_timestamp_us r), blanked (mr_topic r), dec (unat (mr_qos r)),
      dec (if mr_retained r then 1 else 0), blanked (map char_of_byte (mr_payload r))]"

lemma row_read:
  assumes "slot_ok h r" "5 \<le> n"
  shows "csv_read n [] (row_text gm (export_view h r) @ rest)
     = map_option (\<lambda>rs. record_fields gm (deref h r) # rs) (csv_read (n - 5) [] rest)"
proof -
  let ?v = "export_view h r"
  let ?pay = "map char_of_byte (mr_payload (deref h r))"
  have pt: "(case mr_payload ?v of None \<Rightarrow> [] | Some p \<Rightarrow> field_text (map char_of_byte (take (unat (mr_payload_len ?v)) p)))
      = field_text ?pay"
    using assms(1)
    by (cases "mr_payload r") (auto simp: export_view_def deref_def slot_ok_Some field_text_def escape_def needs_quotes_def)
  have iso: "iso8601 gm ts = field_text (iso8601 gm ts)" "blanked (iso8601 gm ts) = iso8601 gm ts" for ts
    using plain_field [OF iso_plain] by simp_all
  have d: "dec k = field_text (dec k)" "blanked (dec k) = dec k" for k
    using plain_field [of "dec k"] dec_plain by auto
  have same: "mr_timestamp_us ?v = mr_timestamp_us (deref h r)" "mr_topic ?v = mr_topic (deref h r)"
      "mr_qos ?v = mr_qos (deref h r)" "mr_retained ?v = mr_retained (deref h r)"
    by (simp_all add: export_view_def deref_def)
  let ?t = "field_text (iso8601 gm (mr_timestamp_us (deref h r))) @ CHR '','' #
      field_text (mr_topic (deref h r)) @ CHR '','' # field_text (dec (unat (mr_qos (deref h r)))) @ CHR '','' #
      field_text (dec (if mr_retained (deref h r) then 1 else 0)) @ CHR '','' # field_text ?pay @ [CR, LF] @ rest"
  have "row_text gm ?v @ rest = ?t"
    unfolding row_text_def pt same using iso(1) d(1) by simp
  moreover have "csv_read n [] ?t = map_option (\<lambda>rs. record_fields gm (deref h r) # rs) (csv_read (n - 5) [] rest)"
    using assms(2) by (simp add: read_comma read_crlf iso(2) d(2) del: append_Cons append_Nil)
      (simp add: record_fields_def numeral_eq_Suc)
  ultimately show ?thesis by simp
qed

lemma rows_read:
  "\<forall>r\<in>set rs. slot_ok h r \<Longrightarrow> 5 * length rs \<le> n \<Longrightarrow>
    csv_read n [] (rows_text gm h rs) = Some (map (\<lambda>r. record_fields gm (deref h r)) rs)"
proof (induction rs arbitrary: n)
  case (Cons r rs)
  then show ?case using row_read [of h r n gm "rows_text gm h rs"] by (simp add: rows_text_def)
qed (simp add: rows_text_def)

definition csv_columns :: "string list" where
  "csv_columns = [''timestamp'', ''topic'', ''qos'', ''retained'', ''payload'']"

lemma header_read:
  assumes "5 \<le> n"
  shows "csv_read n [] (csv_header @ rest) = map_option (\<lambda>rs. csv_columns # rs) (csv_read (n - 5) [] rest)"
proof -
  have f: "field_text s = s \<and> blanked s = s" if "s \<in> set csv_columns" for s
    using that by (auto simp: csv_columns_def field_text_def escape_def needs_quotes_def blanked_def
        blank_nul_def nul_def dquote_def CR_def LF_def)
  have eq: "csv_header @ rest = field_text ''timestamp'' @ CHR '','' # field_text ''topic'' @ CHR '','' #
      field_text ''qos'' @ CHR '','' # field_text ''retained'' @ CHR '','' # field_text ''payload'' @ [CR, LF] @ rest"
    using f by (simp add: csv_columns_def csv_header_def)
  show ?thesis
    unfolding eq using assms f [THEN conjunct2]
    by (simp add: read_comma read_crlf csv_columns_def del: append_Cons append_Nil)
      (simp add: numeral_eq_Suc)
qed

subsection \<open>The topic filter\<close>

lemma topic_matches_levels:
  "topic_matches t (Some p) \<longleftrightarrow> p = [] \<or> prefix (split_on (CHR ''/'') p) (split_on (CHR ''/'') t)"
proof (cases "p = []")
  case False
  have split_app: "split_on c (a @ c # b) = split_on c a @ split_on c b" for c :: char and a b
  proof (induction a)
    case (Cons x a)
    obtain w ws where "split_on c a = w # ws" by (cases "split_on c a") auto
    with Cons show ?case by auto
  qed simp
  have join_app: "vs \<noteq> [] \<Longrightarrow> us \<noteq> [] \<Longrightarrow> join c (us @ vs) = join c us @ c # join c vs" for c :: char and us vs
  proof (induction c us rule: join.induct)
    case (2 c w)
    then show ?case by (cases vs) auto
  qed auto
  have "prefix (split_on (CHR ''/'') p) (split_on (CHR ''/'') t) \<longleftrightarrow> t = p \<or> (\<exists>s. t = p @ CHR ''/'' # s)"
  proof
    assume "prefix (split_on (CHR ''/'') p) (split_on (CHR ''/'') t)"
    then obtain vs where vs: "split_on (CHR ''/'') t = split_on (CHR ''/'') p @ vs" by (auto simp: prefix_def)
    then have "t = join (CHR ''/'') (split_on (CHR ''/'') p @ vs)" by (metis join_split_on)
    then show "t = p \<or> (\<exists>s. t = p @ CHR ''/'' # s)"
      using join_app [of vs "split_on (CHR ''/'') p" "CHR ''/''"] by (cases "vs = []") (auto simp: join_split_on)
  next
    assume "t = p \<or> (\<exists>s. t = p @ CHR ''/'' # s)"
    then show "prefix (split_on (CHR ''/'') p) (split_on (CHR ''/'') t)" by (auto simp: split_app)
  qed
  moreover have "topic_matches t (Some p) \<longleftrightarrow> t = p \<or> (\<exists>s. t = p @ CHR ''/'' # s)"
  proof
    assume m: "topic_matches t (Some p)"
    then have pre: "take (length p) t = p" using False by (simp add: topic_matches_def Let_def split: if_splits)
    have t: "t = p @ drop (length p) t" by (metis append_take_drop_id pre)
    have "drop (length p) t = [] \<or> hd (drop (length p) t) = CHR ''/''"
      using m False pre by (simp add: topic_matches_def Let_def split: if_splits)
    then show "t = p \<or> (\<exists>s. t = p @ CHR ''/'' # s)"
      using t by (cases "drop (length p) t") auto
  qed (use False in \<open>auto simp: topic_matches_def Let_def\<close>)
  ultimately show ?thesis using False by blast
qed (simp add: topic_matches_def)

text \<open>The records whose topic is at or below a prefix, level by level.\<close>

definition records_below :: "string \<Rightarrow> bytes message_record list \<Rightarrow> bytes message_record list" where
  "records_below p = filter (\<lambda>r. p = [] \<or>
     prefix (split_on (CHR ''/'') p) (split_on (CHR ''/'') (mr_topic r)))"

subsection \<open>Property\<close>

text \<open>
  C13. The CSV export is readable RFC 4180: whatever the stream accepts, the export writes the same
  text up to the first failing byte; it returns -1 exactly when the stream is too short and otherwise
  the number of records whose topic lies at or below the prefix (compared level by level), and reading
  the text gives the column names and then the five fields of each such record, oldest first, with
  NUL bytes as blanks, whatever commas, quotes and line breaks topics and payloads contain.
\<close>

theorem csv_export_roundtrip:
  assumes "mb_wf s" "picked = records_below p (mb_items s)"
  shows "\<exists>text. csv_export_write gm s (Some p) (w, room) =
       Some (if length text \<le> room then (int (length picked), (w @ text, room - length text))
             else (-1, (w @ take room text, 0)))
     \<and> csv_read (5 * (length picked + 1)) [] text = Some (csv_columns # map (record_fields gm) picked)"
proof -
  obtain h buf where s: "s = (h, buf)" by (cases s)
  have own: "owns h (live buf)" using assms(1) by (simp add: mb_wf_def s)
  let ?rs = "chosen (Some p) (live buf)"
  have picked: "picked = map (deref h) ?rs"
    unfolding assms(2) records_below_def mb_items_def chosen_def s
    by (simp add: filter_map comp_def topic_matches_levels)
  have ok: "\<forall>r\<in>set ?rs. slot_ok h r" using own by (auto simp: owns_def chosen_def)
  let ?text = "export_text gm s (Some p)"
  have "csv_export_write gm s (Some p) (w, room) = Some (finished ?text (int (length picked)) (w, room))"
    using export_run [OF assms(1), of gm "Some p"] by (simp add: picked s)
  moreover have "csv_read (5 * (length picked + 1)) [] ?text = Some (csv_columns # map (record_fields gm) picked)"
    using rows_read [OF ok, of "5 * length picked" gm]
    by (simp add: export_text_def header_read s picked comp_def)
  ultimately show ?thesis by (auto simp: finished_def put_def intro!: exI [of _ ?text])
qed

theorem csv_export_roundtrip_witness:
  "\<exists>text. csv_export_write (\<lambda>_. (2026, 1, 2, 3, 4, 5)) (empty_heap, message_buf_init 4) (Some ''a'') ('''', 10)
       = Some (-1, (take 10 text, 0))
     \<and> csv_read 5 [] text = Some [csv_columns]"
proof -
  have wf: "mb_wf (empty_heap, message_buf_init 4)" "mb_items (empty_heap, message_buf_init 4) = []"
    by (rule init_wf; simp add: ring_cap_ok_def)+
  have rb: "records_below ''a'' (mb_items (empty_heap, message_buf_init 4)) = []"
    by (simp add: wf(2) records_below_def)
  obtain out where t: "csv_export_write (\<lambda>_. (2026, 1, 2, 3, 4, 5)) (empty_heap, message_buf_init 4) (Some ''a'') ('''', 10)
      = Some (if length out \<le> 10 then (0, (out, 10 - length out)) else (-1, (take 10 out, 0)))"
      "csv_read 5 [] out = Some [csv_columns]"
    using csv_export_roundtrip [OF wf(1) rb [symmetric], of "\<lambda>_. (2026, 1, 2, 3, 4, 5)" "[]" 10] by (auto cong: if_cong)
  have "\<not> length out \<le> 10"
    using t(1) by (auto simp: csv_export_write_def put_def csv_header_def split: if_splits prod.splits)
  then show ?thesis using t by auto
qed

end
