(* ===== verification/Chart_Series.thy ===== *)
theory Chart_Series
  imports Float64 Ring
begin

text \<open>
  \<open>src/src/model/chart_series.c\<close>: the sample ring of one charted value. Only finite doubles are
  ever stored (the first test of a push), so the stored values are rationals; the two differences of
  the bucket test are computed in binary64.
\<close>

definition CHART_MAX_SAMPLES :: u32 where "CHART_MAX_SAMPLES = 2560"
definition CHART_MIN_SAMPLE_INTERVAL_US :: u64 where "CHART_MIN_SAMPLE_INTERVAL_US = 50000"
definition CHART_TIME_WINDOW_US :: u64 where "CHART_TIME_WINDOW_US = 120000000"

record chart_sample =
  sa_ts_us :: u64
  sa_value :: rat

record chart_series =
  cs_active :: bool
  cs_topic :: string
  cs_dot_path :: string
  cs_samples :: "chart_sample list"
  cs_head :: u32
  cs_count :: u32
  cs_y_min :: rat
  cs_y_max :: rat
  cs_y_dirty :: bool
  cs_last_sample_ts_us :: u64
  cs_bucket_ref :: rat

subsection \<open>Operations\<close>

definition chart_series_reset :: chart_series where
  "chart_series_reset =
     \<lparr>cs_active = False, cs_topic = [], cs_dot_path = [],
      cs_samples = replicate (unat CHART_MAX_SAMPLES) \<lparr>sa_ts_us = 0, sa_value = 0\<rparr>,
      cs_head = 0, cs_count = 0, cs_y_min = 0, cs_y_max = 0, cs_y_dirty = False,
      cs_last_sample_ts_us = 0, cs_bucket_ref = 0\<rparr>"

definition copy_capped :: "nat \<Rightarrow> string \<Rightarrow> string" where
  "copy_capped cap s = (let n = length s; n = (if n \<ge> cap then cap - 1 else n) in take n s)"

definition chart_series_init :: "string option \<Rightarrow> string option \<Rightarrow> chart_series" where
  "chart_series_init topic dot_path =
     (let s = chart_series_reset\<lparr>cs_active := True\<rparr>;
          s = (case topic of None \<Rightarrow> s | Some t \<Rightarrow> s\<lparr>cs_topic := copy_capped 256 t\<rparr>)
      in (case dot_path of None \<Rightarrow> s | Some p \<Rightarrow> s\<lparr>cs_dot_path := copy_capped 128 p\<rparr>))"

abbreviation sample_at :: "chart_series \<Rightarrow> u32 \<Rightarrow> chart_sample" where
  "sample_at s i \<equiv> cs_samples s ! unat (i mod CHART_MAX_SAMPLES)"

text \<open>The loop that drops samples older than the window.\<close>

function evict_loop :: "u64 \<Rightarrow> chart_series \<Rightarrow> chart_series" where
  "evict_loop ts_us s =
     (if cs_count s > 0 then
        (let oldest = cs_samples s ! unat (cs_head s) in
         if ts_us - sa_ts_us oldest \<le> CHART_TIME_WINDOW_US then s
         else
           let s1 = (if sa_value oldest = cs_y_min s \<or> sa_value oldest = cs_y_max s
                     then s\<lparr>cs_y_dirty := True\<rparr> else s)
           in evict_loop ts_us (s1\<lparr>cs_head := (cs_head s1 + 1) mod CHART_MAX_SAMPLES,
                                   cs_count := cs_count s1 - 1\<rparr>))
      else s)"
  by pat_completeness auto
termination
  by (relation "measure (\<lambda>(ts, s). unat (cs_count s))") (auto simp: Let_def intro!: unat_dec_less)

declare evict_loop.simps [simp del]

text \<open>Everything after the bucket test: eviction, the write, the running extrema.\<close>

definition append_sample :: "chart_series \<Rightarrow> u64 \<Rightarrow> rat \<Rightarrow> chart_series" where
  "append_sample s0 ts_us value =
     (let s = evict_loop ts_us s0;
          (write_idx, s) =
            (if cs_count s < CHART_MAX_SAMPLES
             then ((cs_head s + cs_count s) mod CHART_MAX_SAMPLES, s\<lparr>cs_count := cs_count s + 1\<rparr>)
             else
               let evicted = cs_samples s ! unat (cs_head s);
                   s1 = (if sa_value evicted = cs_y_min s \<or> sa_value evicted = cs_y_max s
                         then s\<lparr>cs_y_dirty := True\<rparr> else s)
               in (cs_head s1, s1\<lparr>cs_head := (cs_head s1 + 1) mod CHART_MAX_SAMPLES\<rparr>));
          s = s\<lparr>cs_samples := (cs_samples s)[unat write_idx := \<lparr>sa_ts_us = ts_us, sa_value = value\<rparr>],
                cs_last_sample_ts_us := ts_us\<rparr>
      in if cs_count s = 1
         then s\<lparr>cs_y_min := value, cs_y_max := value, cs_y_dirty := False\<rparr>
         else s\<lparr>cs_y_min := (if value < cs_y_min s then value else cs_y_min s),
                cs_y_max := (if value > cs_y_max s then value else cs_y_max s)\<rparr>)"

definition chart_series_push_sample :: "chart_series \<Rightarrow> u64 \<Rightarrow> dbl \<Rightarrow> bool \<times> chart_series" where
  "chart_series_push_sample s ts_us x =
     (if \<not> cs_active s then (False, s)
      else
        case x of
          Inf _ \<Rightarrow> (False, s)
        | Nan \<Rightarrow> (False, s)
        | Fin value \<Rightarrow>
            if cs_count s > 0 then
              (if ts_us \<le> cs_last_sample_ts_us s then (False, s)
               else
                 let i = (cs_head s + cs_count s - 1) mod CHART_MAX_SAMPLES;
                     cur = cs_samples s ! unat i in
                 if ts_us - cs_last_sample_ts_us s < CHART_MIN_SAMPLE_INTERVAL_US then
                   (if dbl_le (dbl_fabs (dbl_sub value (cs_bucket_ref s)))
                              (dbl_fabs (dbl_sub (sa_value cur) (cs_bucket_ref s))) then (False, s)
                    else
                      (True, s\<lparr>cs_y_dirty := (if sa_value cur = cs_y_min s \<or> sa_value cur = cs_y_max s
                                               then True else cs_y_dirty s),
                               cs_samples := (cs_samples s)[unat i := cur\<lparr>sa_value := value\<rparr>],
                               cs_y_min := (if value < cs_y_min s then value else cs_y_min s),
                               cs_y_max := (if value > cs_y_max s then value else cs_y_max s)\<rparr>))
                 else (True, append_sample (s\<lparr>cs_bucket_ref := sa_value cur\<rparr>) ts_us value))
            else (True, append_sample (s\<lparr>cs_bucket_ref := value\<rparr>) ts_us value))"

function minmax_loop :: "chart_series \<Rightarrow> u32 \<Rightarrow> rat \<Rightarrow> rat \<Rightarrow> rat \<times> rat" where
  "minmax_loop s i mn mx =
     (if i < cs_count s then
        (let v = sa_value (sample_at s (cs_head s + i))
         in minmax_loop s (i + 1) (if v < mn then v else mn) (if v > mx then v else mx))
      else (mn, mx))"
  by pat_completeness auto
termination
  by (relation "measure (\<lambda>(s, i, mn, mx). unat (cs_count s) - unat i)") (auto simp: unat_diff_inc_less)

declare minmax_loop.simps [simp del]

definition chart_series_recompute_minmax :: "chart_series \<Rightarrow> chart_series" where
  "chart_series_recompute_minmax s =
     (if cs_count s = 0 then s\<lparr>cs_y_min := 0, cs_y_max := 0, cs_y_dirty := False\<rparr>
      else
        let v = sa_value (cs_samples s ! unat (cs_head s));
            (mn, mx) = minmax_loop s 1 v v
        in s\<lparr>cs_y_min := mn, cs_y_max := mx, cs_y_dirty := False\<rparr>)"

definition chart_series_get :: "chart_series \<Rightarrow> u32 \<Rightarrow> chart_sample option" where
  "chart_series_get s i =
     (if i \<ge> cs_count s then None else Some (sample_at s (cs_head s + i)))"

subsection \<open>The ring\<close>

lemma max_samples [simp]: "unat CHART_MAX_SAMPLES = 2560"
  by (simp add: CHART_MAX_SAMPLES_def)

definition ring_ok :: "chart_series \<Rightarrow> bool" where
  "ring_ok s \<longleftrightarrow> length (cs_samples s) = 2560 \<and> unat (cs_head s) < 2560 \<and> unat (cs_count s) \<le> 2560"

definition kept :: "chart_series \<Rightarrow> chart_sample list" where
  "kept s = window (cs_samples s) (unat (cs_head s)) (unat (cs_count s))"

lemma length_kept [simp]: "length (kept s) = unat (cs_count s)"
  by (simp add: kept_def)

lemma slot_nat:
  assumes "ring_ok s" "unat i \<le> 2560"
  shows "unat ((cs_head s + i) mod CHART_MAX_SAMPLES) = (unat (cs_head s) + unat i) mod length (cs_samples s)"
    and "unat ((cs_head s + i) mod CHART_MAX_SAMPLES) < length (cs_samples s)"
  using assms ring_idx_nat [of CHART_MAX_SAMPLES "cs_head s" i] ring_idx_less [of CHART_MAX_SAMPLES "cs_head s" i]
  by (simp_all add: ring_ok_def ring_cap_ok_def)

lemma nth_kept:
  "ring_ok s \<Longrightarrow> unat i < unat (cs_count s) \<Longrightarrow> sample_at s (cs_head s + i) = kept s ! unat i"
  using slot_nat [of s i] by (simp add: ring_ok_def kept_def nth_window)

lemma head_kept:
  "ring_ok s \<Longrightarrow> cs_count s \<noteq> 0 \<Longrightarrow> kept s \<noteq> [] \<and> cs_samples s ! unat (cs_head s) = hd (kept s)"
proof -
  assume a: "ring_ok s" "cs_count s \<noteq> 0"
  then have pos: "0 < unat (cs_count s)" by (simp add: word_eq_unat)
  then have "kept s \<noteq> []" by (metis length_kept length_greater_0_conv)
  then show "kept s \<noteq> [] \<and> cs_samples s ! unat (cs_head s) = hd (kept s)"
    using a pos by (simp add: hd_conv_nth kept_def nth_window ring_ok_def)
qed

lemma last_index:
  assumes "ring_ok s" "cs_count s \<noteq> 0"
  shows "cs_head s + cs_count s - 1 = cs_head s + (cs_count s - 1)" "unat (cs_count s - 1) = unat (cs_count s) - 1"
    and "unat (cs_count s - 1) < unat (cs_count s)"
proof -
  show "cs_head s + cs_count s - 1 = cs_head s + (cs_count s - 1)" by (rule add_diff_eq [symmetric])
  show "unat (cs_count s - 1) = unat (cs_count s) - 1" by (rule unat_dec [OF assms(2)])
  show "unat (cs_count s - 1) < unat (cs_count s)" by (rule unat_dec_less [OF assms(2)])
qed

lemma last_kept:
  assumes "ring_ok s" "cs_count s \<noteq> 0"
  shows "cs_samples s ! unat ((cs_head s + cs_count s - 1) mod CHART_MAX_SAMPLES) = last (kept s)"
proof -
  have ne: "kept s \<noteq> []" using head_kept [OF assms] by simp
  show ?thesis
    unfolding last_index(1) [OF assms]
    using nth_kept [OF assms(1) last_index(3) [OF assms]] last_index(2) [OF assms] ne
    by (simp add: last_conv_nth)
qed

lemma kept_drop:
  assumes "ring_ok s" "cs_count s \<noteq> 0"
  shows "kept (s\<lparr>cs_head := (cs_head s + 1) mod CHART_MAX_SAMPLES, cs_count := cs_count s - 1\<rparr>) = tl (kept s)"
    and "ring_ok (s\<lparr>cs_head := (cs_head s + 1) mod CHART_MAX_SAMPLES, cs_count := cs_count s - 1\<rparr>)"
proof -
  have one: "unat ((cs_head s + 1) mod CHART_MAX_SAMPLES) = (unat (cs_head s) + 1) mod length (cs_samples s)"
    using slot_nat(1) [OF assms(1), of 1] by simp
  note n = last_index [OF assms]
  show "kept (s\<lparr>cs_head := (cs_head s + 1) mod CHART_MAX_SAMPLES, cs_count := cs_count s - 1\<rparr>) = tl (kept s)"
    using window_rotate [of "unat (cs_count s)" "cs_samples s" "unat (cs_head s)"] assms(2) one n(2)
    by (simp add: kept_def word_eq_unat)
  show "ring_ok (s\<lparr>cs_head := (cs_head s + 1) mod CHART_MAX_SAMPLES, cs_count := cs_count s - 1\<rparr>)"
    using assms(1) slot_nat(2) [OF assms(1), of 1] n(3) by (simp add: ring_ok_def)
qed

lemma kept_push:
  assumes "ring_ok s" "cs_count s < CHART_MAX_SAMPLES"
  shows "kept (s\<lparr>cs_count := cs_count s + 1, cs_samples := (cs_samples s)
      [unat ((cs_head s + cs_count s) mod CHART_MAX_SAMPLES) := x]\<rparr>) = kept s @ [x]"
    and "unat (cs_count s + 1) = unat (cs_count s) + 1" "unat (cs_count s) < 2560"
proof -
  show less: "unat (cs_count s) < 2560" using assms(2) by (simp add: word_less_unat)
  show inc: "unat (cs_count s + 1) = unat (cs_count s) + 1" by (rule unat_inc_less [OF assms(2)])
  show "kept (s\<lparr>cs_count := cs_count s + 1, cs_samples := (cs_samples s)
      [unat ((cs_head s + cs_count s) mod CHART_MAX_SAMPLES) := x]\<rparr>) = kept s @ [x]"
    using slot_nat(1) [OF assms(1), of "cs_count s"] less assms(1)
      window_push [of "unat (cs_count s)" "cs_samples s" "unat (cs_head s)" x]
    by (simp add: kept_def inc ring_ok_def)
qed

subsection \<open>Invariant\<close>

definition far_apart :: "chart_sample \<Rightarrow> chart_sample \<Rightarrow> bool" where
  "far_apart a b \<longleftrightarrow> unat (sa_ts_us a) + 50000 \<le> unat (sa_ts_us b)"

definition vals :: "chart_series \<Rightarrow> rat set" where
  "vals s = sa_value ` set (kept s)"

text \<open>The running extrema enclose the samples, and are attained unless the dirty flag is set.\<close>

definition extrema_ok :: "chart_series \<Rightarrow> bool" where
  "extrema_ok s \<longleftrightarrow> (\<forall>v\<in>vals s. cs_y_min s \<le> v \<and> v \<le> cs_y_max s)
     \<and> (kept s \<noteq> [] \<and> \<not> cs_y_dirty s \<longrightarrow> cs_y_min s \<in> vals s \<and> cs_y_max s \<in> vals s)"

definition series_inv :: "chart_series \<Rightarrow> bool" where
  "series_inv s \<longleftrightarrow> ring_ok s \<and> successively far_apart (kept s) \<and> extrema_ok s
     \<and> (kept s \<noteq> [] \<longrightarrow> cs_last_sample_ts_us s = sa_ts_us (last (kept s))
          \<and> unat (sa_ts_us (last (kept s))) \<le> unat (sa_ts_us (hd (kept s))) + 120000000)"

lemma successively_tl: "successively P xs \<Longrightarrow> successively P (tl xs)"
  by (cases xs rule: list.exhaust) (auto simp: successively_Cons)

lemma extrema_drop:
  assumes "extrema_ok s" "kept s = x # xs" "kept s' = xs" "cs_y_min s' = cs_y_min s" "cs_y_max s' = cs_y_max s"
    and "cs_y_dirty s' = (if sa_value x = cs_y_min s \<or> sa_value x = cs_y_max s then True else cs_y_dirty s)"
  shows "extrema_ok s'"
  using assms by (auto simp: extrema_ok_def vals_def)

definition same_chart :: "chart_series \<Rightarrow> chart_series \<Rightarrow> bool" where
  "same_chart s s' \<longleftrightarrow> cs_active s' = cs_active s \<and> cs_topic s' = cs_topic s \<and> cs_dot_path s' = cs_dot_path s
     \<and> cs_y_min s' = cs_y_min s \<and> cs_y_max s' = cs_y_max s"

lemma kept_fields [simp]:
  "kept (s\<lparr>cs_y_dirty := d\<rparr>) = kept s" "kept (s\<lparr>cs_bucket_ref := r\<rparr>) = kept s"
  "kept (s\<lparr>cs_last_sample_ts_us := t\<rparr>) = kept s" "kept (s\<lparr>cs_y_min := m\<rparr>) = kept s"
  "kept (s\<lparr>cs_y_max := m\<rparr>) = kept s"
  "ring_ok (s\<lparr>cs_y_dirty := d\<rparr>) = ring_ok s" "ring_ok (s\<lparr>cs_bucket_ref := r\<rparr>) = ring_ok s"
  "ring_ok (s\<lparr>cs_last_sample_ts_us := t\<rparr>) = ring_ok s" "ring_ok (s\<lparr>cs_y_min := m\<rparr>) = ring_ok s"
  "ring_ok (s\<lparr>cs_y_max := m\<rparr>) = ring_ok s"
  by (simp_all add: kept_def ring_ok_def)

lemma evict_run:
  assumes "ring_ok s" "extrema_ok s" "successively far_apart (kept s)"
    and "\<forall>x\<in>set (kept s). unat (sa_ts_us x) < unat ts"
  shows "ring_ok (evict_loop ts s) \<and> extrema_ok (evict_loop ts s)
     \<and> successively far_apart (kept (evict_loop ts s)) \<and> same_chart s (evict_loop ts s)
     \<and> (\<exists>n. kept (evict_loop ts s) = drop n (kept s))
     \<and> (kept (evict_loop ts s) \<noteq> [] \<longrightarrow> unat ts \<le> unat (sa_ts_us (hd (kept (evict_loop ts s)))) + 120000000)"
  using assms
proof (induction ts s rule: evict_loop.induct)
  case (1 ts s)
  let ?o = "cs_samples s ! unat (cs_head s)"
  show ?case
  proof (cases "cs_count s > 0")
    case False
    then have "evict_loop ts s = s" by (simp add: evict_loop.simps [of ts s])
    moreover have "kept s = []" using False by (simp add: word_less_unat flip: length_0_conv)
    ultimately show ?thesis using "1.prems" by (auto simp: same_chart_def intro: exI [of _ 0])
  next
    case True
    then have c: "cs_count s \<noteq> 0" by auto
    note h = head_kept [OF "1.prems"(1) c]
    then obtain xs where k: "kept s = ?o # xs" by (cases "kept s") auto
    have old: "sa_ts_us ?o \<le> ts" using "1.prems"(4) k by (simp add: word_le_unat)
    show ?thesis
    proof (cases "ts - sa_ts_us ?o \<le> CHART_TIME_WINDOW_US")
      case True
      then have "evict_loop ts s = s" by (simp add: evict_loop.simps [of ts s] Let_def)
      moreover have "unat ts \<le> unat (sa_ts_us ?o) + 120000000"
        using True old by (simp add: word_le_unat unat_sub_le [OF old] CHART_TIME_WINDOW_US_def)
      ultimately show ?thesis using "1.prems" k by (auto simp: same_chart_def intro: exI [of _ 0])
    next
      case False
      let ?s1 = "if sa_value ?o = cs_y_min s \<or> sa_value ?o = cs_y_max s then s\<lparr>cs_y_dirty := True\<rparr> else s"
      let ?s2 = "?s1\<lparr>cs_head := (cs_head ?s1 + 1) mod CHART_MAX_SAMPLES, cs_count := cs_count ?s1 - 1\<rparr>"
      have step: "evict_loop ts s = evict_loop ts ?s2"
        using True False by (simp add: evict_loop.simps [of ts s] Let_def)
      have r1: "ring_ok ?s1" "cs_count ?s1 \<noteq> 0" "kept ?s1 = kept s" using "1.prems"(1) c by auto
      note d = kept_drop [OF r1(1,2)]
      have k2: "kept ?s2 = xs" using d(1) r1(3) k by simp
      have e2: "extrema_ok ?s2" by (rule extrema_drop [OF "1.prems"(2) k k2]) auto
      have succ: "successively far_apart xs" using successively_tl [OF "1.prems"(3)] k by simp
      have later: "\<forall>x\<in>set (kept ?s2). unat (sa_ts_us x) < unat ts" using "1.prems"(4) k k2 by simp
      note IH = "1.IH" [OF True refl False refl d(2) e2 succ [folded k2] later]
      have sc: "same_chart s ?s2" by (simp add: same_chart_def)
      obtain n where n: "kept (evict_loop ts ?s2) = drop n xs" using IH k2 by auto
      have "\<exists>n. kept (evict_loop ts s) = drop n (kept s)"
        using n step k by (intro exI [of _ "Suc n"]) simp
      then show ?thesis using IH sc unfolding step by (simp add: same_chart_def)
    qed
  qed
qed

lemma spaced_span:
  assumes "successively far_apart xs" "xs \<noteq> []"
  shows "unat (sa_ts_us (hd xs)) + 50000 * (length xs - 1) \<le> unat (sa_ts_us (last xs))"
  using assms
proof (induction xs rule: induct_list012)
  case (3 x y xs)
  then show ?case by (simp add: far_apart_def)
qed auto

lemma spaced_last:
  assumes "successively far_apart xs" "x \<in> set xs"
  shows "unat (sa_ts_us x) \<le> unat (sa_ts_us (last xs))"
  using assms
proof (induction xs arbitrary: x rule: induct_list012)
  case (3 y z xs)
  show ?case
    using "3.IH"(2) [of z] "3.IH"(2) [of x] "3.prems" by (auto simp: far_apart_def)
qed auto

lemma spaced_hd:
  assumes "successively far_apart xs" "x \<in> set xs"
  shows "unat (sa_ts_us (hd xs)) \<le> unat (sa_ts_us x)"
  using assms
proof (induction xs arbitrary: x rule: induct_list012)
  case (3 y z xs)
  show ?case
    using "3.IH"(2) [of x] "3.prems" by (auto simp: far_apart_def)
qed auto

lemma kept_bound:
  assumes "series_inv s"
  shows "unat (cs_count s) \<le> 2401"
proof (cases "kept s = []")
  case True
  then show ?thesis by (metis length_kept list.size(3) zero_le)
next
  case False
  then have "unat (sa_ts_us (hd (kept s))) + 50000 * (unat (cs_count s) - 1) \<le> unat (sa_ts_us (hd (kept s))) + 120000000"
    using spaced_span [of "kept s"] assms by (simp add: series_inv_def)
  then show ?thesis by simp
qed

subsection \<open>Pushing\<close>

lemma append_run:
  assumes "series_inv s0" "kept s0 \<noteq> [] \<Longrightarrow> unat (cs_last_sample_ts_us s0) + 50000 \<le> unat ts"
  shows "series_inv (append_sample s0 ts v)"
    and "\<exists>n. kept (append_sample s0 ts v) = drop n (kept s0) @ [\<lparr>sa_ts_us = ts, sa_value = v\<rparr>]"
proof -
  let ?s = "evict_loop ts s0" and ?x = "\<lparr>sa_ts_us = ts, sa_value = v\<rparr>"
  have i0: "ring_ok s0" "extrema_ok s0" "successively far_apart (kept s0)"
    using assms(1) by (simp_all add: series_inv_def)
  have before: "unat (sa_ts_us y) + 50000 \<le> unat ts" if "y \<in> set (kept s0)" for y
  proof -
    have ne: "kept s0 \<noteq> []" using that by auto
    then have "unat (sa_ts_us y) \<le> unat (cs_last_sample_ts_us s0)"
      using spaced_last [OF i0(3) that] assms(1) by (simp add: series_inv_def)
    then show ?thesis using assms(2) ne by simp
  qed
  then have "\<forall>y\<in>set (kept s0). unat (sa_ts_us y) < unat ts" by fastforce
  note ev = evict_run [OF i0 this]
  obtain n where n: "kept ?s = drop n (kept s0)" using ev by blast
  have spaced: "successively far_apart (kept ?s @ [?x])"
  proof (cases "kept ?s = []")
    case False
    then have "last (kept ?s) \<in> set (kept s0)" using last_in_set [OF False] n by (metis in_set_dropD)
    then have "far_apart (last (kept ?s)) ?x" using before by (simp add: far_apart_def)
    then show ?thesis using ev by (simp add: successively_append_iff)
  qed simp
  have span: "kept ?s \<noteq> [] \<Longrightarrow> unat ts \<le> unat (sa_ts_us (hd (kept ?s))) + 120000000" using ev by blast
  have "length (kept ?s) \<le> 2400"
  proof (cases "kept ?s = []")
    case False
    have "unat (sa_ts_us (hd (kept ?s @ [?x]))) + 50000 * (length (kept ?s @ [?x]) - 1) \<le> unat ts"
      using spaced_span [OF spaced] by simp
    then show ?thesis using span False by simp
  qed simp
  then have room: "cs_count ?s < CHART_MAX_SAMPLES" by (simp add: word_less_unat)
  have rk: "ring_ok ?s" using ev by blast
  note p = kept_push(1) [OF rk room, of ?x] kept_push(2,3) [OF rk room]
  let ?i = "unat ((cs_head ?s + cs_count ?s) mod CHART_MAX_SAMPLES)"
  let ?s1 = "?s\<lparr>cs_count := cs_count ?s + 1, cs_samples := (cs_samples ?s)[?i := ?x], cs_last_sample_ts_us := ts\<rparr>"
  let ?s2 = "if cs_count ?s1 = 1 then ?s1\<lparr>cs_y_min := v, cs_y_max := v, cs_y_dirty := False\<rparr>
     else ?s1\<lparr>cs_y_min := (if v < cs_y_min ?s1 then v else cs_y_min ?s1),
              cs_y_max := (if v > cs_y_max ?s1 then v else cs_y_max ?s1)\<rparr>"
  have def: "append_sample s0 ts v = ?s2" using room by (simp add: append_sample_def Let_def)
  have k1: "kept ?s1 = kept ?s @ [?x]" using p(1) by simp
  have "kept ?s2 = kept ?s1" by (simp add: kept_def)
  then have k2: "kept ?s2 = kept ?s @ [?x]" using k1 by (rule trans)
  have r2: "ring_ok ?s2" using rk p(2,3) by (simp add: ring_ok_def)
  have one: "cs_count ?s1 = 1 \<longleftrightarrow> kept ?s = []"
  proof -
    have "kept ?s = [] \<longleftrightarrow> unat (cs_count ?s) = 0" by (metis length_kept length_0_conv)
    then show ?thesis using p(2) by (simp add: word_eq_unat)
  qed
  have e2: "extrema_ok ?s2"
  proof (cases "kept ?s = []")
    case True
    then show ?thesis using one k2 by (simp add: extrema_ok_def vals_def)
  next
    case False
    have vs: "vals ?s2 = insert v (vals ?s)" unfolding vals_def k2 by auto
    show ?thesis
      using False one ev unfolding extrema_ok_def [of ?s2] vs k2
      by (auto simp: extrema_ok_def)
  qed
  have l2: "cs_last_sample_ts_us ?s2 = ts" by simp
  have "unat ts \<le> unat (sa_ts_us (hd (kept ?s @ [?x]))) + 120000000"
    using span by (cases "kept ?s") auto
  then show "series_inv (append_sample s0 ts v)"
    unfolding def series_inv_def k2 l2 using r2 e2 spaced by simp
  show "\<exists>n. kept (append_sample s0 ts v) = drop n (kept s0) @ [?x]"
    unfolding def k2 using n by blast
qed

lemma spaced_replace:
  "successively far_apart (xs @ [c]) \<Longrightarrow> successively far_apart (xs @ [c\<lparr>sa_value := v\<rparr>])"
  by (cases "xs = []") (simp_all add: successively_append_iff far_apart_def)

lemma extrema_replace:
  assumes "extrema_ok s" "kept s = xs @ [c]" "kept s' = xs @ [c\<lparr>sa_value := v\<rparr>]"
    and "cs_y_dirty s' = (if sa_value c = cs_y_min s \<or> sa_value c = cs_y_max s then True else cs_y_dirty s)"
    and "cs_y_min s' = (if v < cs_y_min s then v else cs_y_min s)"
    and "cs_y_max s' = (if v > cs_y_max s then v else cs_y_max s)"
  shows "extrema_ok s'"
proof -
  let ?vs = "sa_value ` set xs"
  have vs: "vals s = insert (sa_value c) ?vs" "vals s' = insert v ?vs" by (simp_all add: vals_def assms(2,3))
  have in_range: "\<forall>w\<in>?vs. cs_y_min s \<le> w \<and> w \<le> cs_y_max s" using assms(1) by (simp add: extrema_ok_def vs)
  have range: "\<forall>w\<in>insert v ?vs. cs_y_min s' \<le> w \<and> w \<le> cs_y_max s'"
    unfolding assms(5,6) using in_range by fastforce
  have "cs_y_min s' \<in> insert v ?vs \<and> cs_y_max s' \<in> insert v ?vs" if "\<not> cs_y_dirty s'"
  proof -
    from that have ne: "sa_value c \<noteq> cs_y_min s" "sa_value c \<noteq> cs_y_max s" and "\<not> cs_y_dirty s"
      by (simp_all add: assms(4) split: if_splits)
    then have "cs_y_min s \<in> ?vs \<and> cs_y_max s \<in> ?vs"
      using assms(1,2) vs(1) by (simp add: extrema_ok_def)
    then show ?thesis by (simp add: assms(5,6))
  qed
  then show ?thesis using range by (simp add: extrema_ok_def vs(2))
qed

lemma push_inv:
  assumes "series_inv s"
  shows "series_inv (snd (chart_series_push_sample s ts x))"
proof (cases "cs_active s \<and> (\<exists>v. x = Fin v)")
  case False
  then show ?thesis using assms by (auto simp: chart_series_push_sample_def split: dbl.splits)
next
  case True
  then obtain v where x: "x = Fin v" and act: "cs_active s" by blast
  have bref: "series_inv (s\<lparr>cs_bucket_ref := r\<rparr>)" for r
    using assms by (simp add: series_inv_def extrema_ok_def vals_def)
  show ?thesis
  proof (cases "cs_count s > 0")
    case False
    then have k: "kept s = []" by (simp add: word_less_unat flip: length_0_conv)
    show ?thesis
      using append_run(1) [OF bref [of v], of ts v] False k act x by (simp add: chart_series_push_sample_def)
  next
    case cpos: True
    then have c: "cs_count s \<noteq> 0" by auto
    have rk: "ring_ok s" using assms by (simp add: series_inv_def)
    have ne: "kept s \<noteq> []" using head_kept [OF rk c] by simp
    let ?i = "(cs_head s + cs_count s - 1) mod CHART_MAX_SAMPLES"
    have cur: "cs_samples s ! unat ?i = last (kept s)" by (rule last_kept [OF rk c])
    have lastts: "cs_last_sample_ts_us s = sa_ts_us (last (kept s))" using assms ne by (simp add: series_inv_def)
    show ?thesis
    proof (cases "ts \<le> cs_last_sample_ts_us s")
      case True
      then show ?thesis using assms cpos act x by (simp add: chart_series_push_sample_def)
    next
      case False
      then have lt: "cs_last_sample_ts_us s \<le> ts" by simp
      show ?thesis
      proof (cases "ts - cs_last_sample_ts_us s < CHART_MIN_SAMPLE_INTERVAL_US")
        case False
        then have "unat (cs_last_sample_ts_us s) + 50000 \<le> unat ts"
          using lt by (simp add: word_less_unat unat_sub_le [OF lt] CHART_MIN_SAMPLE_INTERVAL_US_def word_le_unat)
        then show ?thesis
          using append_run(1) [OF bref, of _ ts v] False \<open>\<not> ts \<le> cs_last_sample_ts_us s\<close> cpos act x
          by (simp add: chart_series_push_sample_def Let_def)
      next
        case True
        let ?c = "last (kept s)"
        let ?s = "s\<lparr>cs_y_dirty := (if sa_value ?c = cs_y_min s \<or> sa_value ?c = cs_y_max s then True else cs_y_dirty s),
              cs_samples := (cs_samples s)[unat ?i := ?c\<lparr>sa_value := v\<rparr>],
              cs_y_min := (if v < cs_y_min s then v else cs_y_min s),
              cs_y_max := (if v > cs_y_max s then v else cs_y_max s)\<rparr>"
        have push: "snd (chart_series_push_sample s ts x) = s \<or> snd (chart_series_push_sample s ts x) = ?s"
          using True \<open>\<not> ts \<le> cs_last_sample_ts_us s\<close> cpos act x cur
          by (simp add: chart_series_push_sample_def Let_def)
        obtain xs where xs: "kept s = xs @ [?c]" using ne by (metis append_butlast_last_id)
        note li = last_index [OF rk c]
        have len: "unat (cs_count s - 1) = length xs"
          using li(2) xs by (metis length_kept length_append_singleton diff_Suc_1)
        have "kept ?s = (kept s)[length xs := ?c\<lparr>sa_value := v\<rparr>]"
          using slot_nat(1) [OF rk, of "cs_count s - 1"] li(3) rk len
            window_update [of "length xs" "unat (cs_count s)" "cs_samples s" "unat (cs_head s)" "?c\<lparr>sa_value := v\<rparr>"]
          unfolding li(1) by (simp add: kept_def ring_ok_def)
        then have k': "kept ?s = xs @ [?c\<lparr>sa_value := v\<rparr>]" using xs by (metis list_update_length)
        have e: "extrema_ok ?s"
          by (rule extrema_replace [OF _ xs k']) (use assms in \<open>simp_all add: series_inv_def\<close>)
        have sp: "successively far_apart (xs @ [?c\<lparr>sa_value := v\<rparr>])"
          by (rule spaced_replace [of xs ?c]) (use assms xs in \<open>simp add: series_inv_def\<close>)
        have hdts: "sa_ts_us (hd (xs @ [?c\<lparr>sa_value := v\<rparr>])) = sa_ts_us (hd (kept s))"
          by (subst (2) xs) (cases xs; simp)
        have "ring_ok ?s" using rk by (simp add: ring_ok_def)
        then have "series_inv ?s"
          unfolding series_inv_def k' hdts using e sp assms ne lastts by (simp add: series_inv_def)
        then show ?thesis using push assms by auto
      qed
    qed
  qed
qed

subsection \<open>Reading and recomputing\<close>

lemma get_kept:
  "ring_ok s \<Longrightarrow> chart_series_get s i = (if unat i < unat (cs_count s) then Some (kept s ! unat i) else None)"
  by (simp add: chart_series_get_def nth_kept word_le_unat not_less)

lemma strict_min_max: "(if v < mn then v else mn) = min v mn" "(if v > mx then v else mx) = max v (mx :: rat)"
  by (simp_all add: min_def max_def)

lemma minmax_step:
  "minmax_loop s i mn mx = (if unat i < unat (cs_count s)
     then minmax_loop s (i + 1) (min (sa_value (sample_at s (cs_head s + i))) mn)
            (max (sa_value (sample_at s (cs_head s + i))) mx)
     else (mn, mx))"
  by (subst minmax_loop.simps) (simp only: strict_min_max Let_def word_less_unat)

lemma minmax_fold:
  assumes "ring_ok s"
  shows "minmax_loop s i mn mx =
     (fold min (map sa_value (drop (unat i) (kept s))) mn, fold max (map sa_value (drop (unat i) (kept s))) mx)"
  using assms
proof (induction s i mn mx rule: minmax_loop.induct)
  case (1 s i mn mx)
  show ?case
  proof (cases "i < cs_count s")
    case False
    then have "\<not> unat i < unat (cs_count s)" by (simp only: word_less_unat) simp
    then show ?thesis by (subst minmax_step) simp
  next
    case True
    then have lt: "unat i < unat (cs_count s)" by (simp add: word_less_unat)
    have at: "sample_at s (cs_head s + i) = kept s ! unat i" by (rule nth_kept [OF "1.prems" lt])
    have "drop (unat i) (kept s) = kept s ! unat i # drop (Suc (unat i)) (kept s)"
      using lt by (metis Cons_nth_drop_Suc length_kept)
    then show ?thesis
      using "1.IH" [OF True refl "1.prems"] lt unat_inc_less [OF True]
      unfolding strict_min_max minmax_step [of s i mn mx] at by simp
  qed
qed

lemma minmax_exact:
  assumes "ring_ok s" "cs_count s \<noteq> 0"
  shows "minmax_loop s 1 (sa_value (hd (kept s))) (sa_value (hd (kept s))) = (Min (vals s), Max (vals s))"
proof -
  obtain x xs where k: "kept s = x # xs" using head_kept [OF assms] by (cases "kept s") auto
  have v: "vals s = set (sa_value x # map sa_value xs)" by (simp add: vals_def k)
  show ?thesis
    unfolding minmax_fold [OF assms(1)] v Min.set_eq_fold Max.set_eq_fold by (simp add: k)
qed

lemma recompute_exact:
  assumes "series_inv s"
  shows "series_inv (chart_series_recompute_minmax s)"
    and "kept (chart_series_recompute_minmax s) = kept s"
    and "\<not> cs_y_dirty (chart_series_recompute_minmax s)"
proof -
  have rk: "ring_ok s" using assms by (simp add: series_inv_def)
  show k: "kept (chart_series_recompute_minmax s) = kept s"
    by (simp add: chart_series_recompute_minmax_def Let_def split: prod.split)
  show "\<not> cs_y_dirty (chart_series_recompute_minmax s)"
    by (simp add: chart_series_recompute_minmax_def Let_def split: prod.split)
  have "extrema_ok (chart_series_recompute_minmax s)"
  proof (cases "cs_count s = 0")
    case True
    then have "kept s = []" by (simp add: flip: length_0_conv)
    then show ?thesis by (simp add: extrema_ok_def vals_def k)
  next
    case False
    note h = head_kept [OF rk False]
    have "finite (vals s)" "vals s \<noteq> {}" using h by (simp_all add: vals_def)
    then show ?thesis
      using False h minmax_exact [OF rk False] k
      by (simp add: chart_series_recompute_minmax_def extrema_ok_def vals_def Let_def)
  qed
  moreover have "ring_ok (chart_series_recompute_minmax s)"
    using rk by (simp add: chart_series_recompute_minmax_def Let_def split: prod.split)
  moreover have "cs_last_sample_ts_us (chart_series_recompute_minmax s) = cs_last_sample_ts_us s"
    by (simp add: chart_series_recompute_minmax_def Let_def split: prod.split)
  ultimately show "series_inv (chart_series_recompute_minmax s)"
    using assms by (simp add: series_inv_def k)
qed

lemma extrema_exact:
  assumes "extrema_ok s" "kept s \<noteq> []" "\<not> cs_y_dirty s"
  shows "cs_y_min s = Min (vals s) \<and> cs_y_max s = Max (vals s)"
  using assms by (auto simp: extrema_ok_def vals_def intro!: Min_eqI [symmetric] Max_eqI [symmetric])

subsection \<open>A series from its creation\<close>

fun push_all :: "(u64 \<times> dbl) list \<Rightarrow> chart_series \<Rightarrow> chart_series" where
  "push_all [] s = s"
| "push_all ((ts, x) # ps) s = push_all ps (snd (chart_series_push_sample s ts x))"

lemma init_inv: "series_inv (chart_series_init t p)"
proof -
  have "kept (chart_series_init t p) = []"
    by (simp add: chart_series_init_def chart_series_reset_def kept_def Let_def split: option.split)
  moreover have "ring_ok (chart_series_init t p)"
    by (simp add: chart_series_init_def chart_series_reset_def ring_ok_def Let_def split: option.split)
  ultimately show ?thesis by (simp add: series_inv_def extrema_ok_def vals_def)
qed

lemma push_all_inv: "series_inv s \<Longrightarrow> series_inv (push_all ps s)"
  by (induction ps s rule: push_all.induct) (auto intro: push_inv)


text \<open>
  C14. Whatever is pushed into a fresh series, in any order and at any clock values (infinities and
  NaN included): at most 2401 samples are kept, so the ring of 2560 never has to overwrite a sample
  that is still inside the window; neighbouring samples are at least 50 ms apart and the oldest is
  at most 120 s older than the newest; the running minimum and maximum enclose all the samples the
  chart can draw and are exact while the dirty flag is clear; and recomputing them clears the flag
  and leaves the samples as they are.
\<close>
theorem chart_series_window:
  assumes "s = push_all ps (chart_series_init topic dot_path)"
  shows "unat (cs_count s) \<le> 2401 \<and> successively far_apart (kept s)
     \<and> (\<forall>a \<in> set (kept s). \<forall>b \<in> set (kept s). unat (sa_ts_us b) \<le> unat (sa_ts_us a) + 120000000)
     \<and> (\<forall>a \<in> set (kept s). cs_y_min s \<le> sa_value a \<and> sa_value a \<le> cs_y_max s)
     \<and> (\<not> cs_y_dirty s \<and> kept s \<noteq> [] \<longrightarrow> cs_y_min s = Min (vals s) \<and> cs_y_max s = Max (vals s))
     \<and> (\<forall>i. chart_series_get s i = (if unat i < unat (cs_count s) then Some (kept s ! unat i) else None))
     \<and> kept (chart_series_recompute_minmax s) = kept s \<and> \<not> cs_y_dirty (chart_series_recompute_minmax s)
     \<and> (kept s \<noteq> [] \<longrightarrow> cs_y_min (chart_series_recompute_minmax s) = Min (vals s)
          \<and> cs_y_max (chart_series_recompute_minmax s) = Max (vals s))"
proof -
  have i: "series_inv s" unfolding assms by (rule push_all_inv [OF init_inv])
  note r = recompute_exact [OF i]
  have e: "extrema_ok s" "successively far_apart (kept s)" and rk: "ring_ok s" using i by (simp_all add: series_inv_def)
  have span: "unat (sa_ts_us b) \<le> unat (sa_ts_us a) + 120000000" if "a \<in> set (kept s)" "b \<in> set (kept s)" for a b
    using that spaced_last [OF e(2), of b] spaced_hd [OF e(2), of a] i by (auto simp: series_inv_def)
  have er: "extrema_ok (chart_series_recompute_minmax s)" using r(1) by (simp add: series_inv_def)
  have "vals (chart_series_recompute_minmax s) = vals s" by (simp add: vals_def r(2))
  then show ?thesis
    using kept_bound [OF i] e span r extrema_exact [OF e(1)] extrema_exact [OF er] get_kept [OF rk]
    by (simp add: extrema_ok_def vals_def)
qed

lemma chart_series_window_witness:
  "let s = push_all [(100000, Fin 5), (300000, Nan)] (chart_series_init (Some ''t'') None)
   in \<not> cs_y_dirty s \<and> kept s \<noteq> [] \<and> cs_y_min s = Min (vals s) \<and> cs_y_min (chart_series_recompute_minmax s) = Min (vals s)"
proof -
  let ?ps = "[(100000, Fin 5), (300000, Nan)]"
  let ?s = "push_all ?ps (chart_series_init (Some ''t'') None)"
  have "cs_count ?s = 1 \<and> \<not> cs_y_dirty ?s"
    by (simp add: chart_series_init_def chart_series_reset_def chart_series_push_sample_def append_sample_def
        evict_loop.simps CHART_MAX_SAMPLES_def)
  moreover from this have "kept ?s \<noteq> []" by (metis length_kept list.size(3) unat_1 zero_neq_one)
  ultimately show ?thesis
    using chart_series_window [OF refl, of ?ps "Some ''t''" None] unfolding Let_def by blast
qed

end
