(* ===== verification/Arena_Alloc.thy ===== *)
theory Arena_Alloc
  imports Prelude
begin

text \<open>
  \<open>src/src/model/arena_alloc.c\<close>: the bump allocator. A chunk and its memory are two
  \<open>malloc\<close> blocks that are always allocated and freed together, so one block number stands
  for both; fresh memory is uninitialised (\<open>None\<close>). \<open>alloc_check\<close> aborts the process when
  \<open>malloc\<close> fails, the model describes the runs that go on.
\<close>

record arena_chunk =
  ac_block :: nat
  ac_memory :: "u8 option list"
  ac_size :: u64
  ac_cursor :: u64

record arena_alloc =
  ar_chunk_size :: u64
  ar_current :: nat
  ar_chunks :: "arena_chunk list"

text \<open>The heap the chunks come from: the next block number and the blocks in use.\<close>

record chunk_heap =
  ch_next :: nat
  ch_live :: "nat set"

definition ARENA_ALIGNMENT :: u64 where "ARENA_ALIGNMENT = 8"

subsection \<open>Operations\<close>

unbundle bit_operations_syntax

definition align_up :: "u64 \<Rightarrow> u64 \<Rightarrow> u64" where
  "align_up n align = (n + align - 1) AND NOT (align - 1)"

definition chunk_new :: "u64 \<Rightarrow> chunk_heap \<Rightarrow> arena_chunk \<times> chunk_heap" where
  "chunk_new n h =
     (\<lparr>ac_block = ch_next h, ac_memory = replicate (unat n) None, ac_size = n, ac_cursor = 0\<rparr>,
      \<lparr>ch_next = ch_next h + 1, ch_live = insert (ch_next h) (ch_live h)\<rparr>)"

definition chunk_free :: "arena_chunk \<Rightarrow> chunk_heap \<Rightarrow> chunk_heap option" where
  "chunk_free c h =
     (if ac_block c \<in> ch_live h then Some (h\<lparr>ch_live := ch_live h - {ac_block c}\<rparr>) else None)"

definition arena_alloc_init :: "u64 \<Rightarrow> chunk_heap \<Rightarrow> chunk_heap \<times> arena_alloc" where
  "arena_alloc_init chunk_size h =
     (let (c, h') = chunk_new chunk_size h
      in (h', \<lparr>ar_chunk_size = chunk_size, ar_current = ac_block c, ar_chunks = [c]\<rparr>))"

fun free_chunks :: "arena_chunk list \<Rightarrow> chunk_heap \<Rightarrow> chunk_heap option" where
  "free_chunks [] h = Some h"
| "free_chunks (c # cs) h = (case chunk_free c h of None \<Rightarrow> None | Some h' \<Rightarrow> free_chunks cs h')"

text \<open>After the destruction the list is empty; \<open>current\<close> is NULL, and never read again.\<close>

definition arena_alloc_destroy :: "chunk_heap \<times> arena_alloc \<Rightarrow> (chunk_heap \<times> arena_alloc) option" where
  "arena_alloc_destroy s =
     (case free_chunks (ar_chunks (snd s)) (fst s) of
        None \<Rightarrow> None
      | Some h \<Rightarrow> Some (h, (snd s)\<lparr>ar_chunks := []\<rparr>))"

definition memset_zero :: "nat \<Rightarrow> nat \<Rightarrow> u8 option list \<Rightarrow> u8 option list" where
  "memset_zero off n m = take off m @ replicate n (Some 0) @ drop (off + n) m"

text \<open>
  The pointer is a block and an offset. \<open>None\<close> is undefined behaviour: no current chunk, or a
  \<open>memset\<close> beyond the chunk's memory.
\<close>

definition bump :: "u64 \<Rightarrow> arena_chunk \<Rightarrow> ((nat \<times> nat) \<times> arena_chunk) option" where
  "bump n c =
     (if unat (ac_cursor c) + unat n \<le> length (ac_memory c)
      then Some ((ac_block c, unat (ac_cursor c)),
                 c\<lparr>ac_cursor := ac_cursor c + align_up n ARENA_ALIGNMENT,
                   ac_memory := memset_zero (unat (ac_cursor c)) (unat n) (ac_memory c)\<rparr>)
      else None)"

definition replace_chunk :: "nat \<Rightarrow> arena_chunk \<Rightarrow> arena_chunk list \<Rightarrow> arena_chunk list" where
  "replace_chunk b c cs = map (\<lambda>d. if ac_block d = b then c else d) cs"

definition arena_alloc_get ::
    "u64 \<Rightarrow> chunk_heap \<times> arena_alloc \<Rightarrow> ((nat \<times> nat) \<times> chunk_heap \<times> arena_alloc) option" where
  "arena_alloc_get n s =
     (let h = fst s; arena = snd s; aligned_size = align_up n ARENA_ALIGNMENT in
      case find (\<lambda>c. ac_block c = ar_current arena) (ar_chunks arena) of
        None \<Rightarrow> None
      | Some c \<Rightarrow>
          (let (c, h, arena) =
             (if ac_cursor c + aligned_size > ac_size c
              then
                let new_size = ar_chunk_size arena;
                    new_size = (if aligned_size > new_size then aligned_size else new_size);
                    (fresh, h') = chunk_new new_size h
                in (fresh, h', arena\<lparr>ar_chunks := fresh # ar_chunks arena, ar_current := ac_block fresh\<rparr>)
              else (c, h, arena))
           in case bump n c of
                None \<Rightarrow> None
              | Some (p, c') \<Rightarrow>
                  Some (p, h, arena\<lparr>ar_chunks := replace_chunk (ac_block c) c' (ar_chunks arena)\<rparr>)))"

text \<open>The loop keeps the largest chunk seen so far and frees the other one.\<close>

fun reset_loop :: "arena_chunk option \<Rightarrow> arena_chunk list \<Rightarrow> chunk_heap \<Rightarrow> (arena_chunk option \<times> chunk_heap) option" where
  "reset_loop keep [] h = Some (keep, h)"
| "reset_loop keep (c # cs) h =
     (case keep of
        None \<Rightarrow> reset_loop (Some c) cs h
      | Some k \<Rightarrow>
          (if ac_size c > ac_size k
           then (case chunk_free k h of None \<Rightarrow> None | Some h' \<Rightarrow> reset_loop (Some c) cs h')
           else (case chunk_free c h of None \<Rightarrow> None | Some h' \<Rightarrow> reset_loop (Some k) cs h')))"

text \<open>The failed assertion (no chunk at all) is \<open>None\<close>.\<close>

definition arena_alloc_reset :: "chunk_heap \<times> arena_alloc \<Rightarrow> (chunk_heap \<times> arena_alloc) option" where
  "arena_alloc_reset s =
     (case reset_loop None (ar_chunks (snd s)) (fst s) of
        None \<Rightarrow> None
      | Some (None, h) \<Rightarrow> None
      | Some (Some k, h) \<Rightarrow>
          Some (h, (snd s)\<lparr>ar_chunks := [k\<lparr>ac_cursor := 0\<rparr>], ar_current := ac_block k\<rparr>))"

fun used_loop :: "u64 \<Rightarrow> arena_chunk list \<Rightarrow> u64" where
  "used_loop acc [] = acc"
| "used_loop acc (c # cs) = used_loop (acc + ac_cursor c) cs"

definition arena_alloc_used :: "arena_alloc \<Rightarrow> u64" where
  "arena_alloc_used arena = used_loop 0 (ar_chunks arena)"

subsection \<open>Alignment\<close>

lemma and_not_7: "(n :: u64) AND NOT 7 = n div 8 * 8"
proof -
  have "n AND NOT (mask 3) = push_bit 3 (drop_bit 3 n)"
    by (rule bit_word_eqI) (auto simp: bit_and_iff bit_not_iff bit_mask_iff bit_push_bit_iff bit_drop_bit_eq)
  then show ?thesis by (simp add: mask_eq_exp_minus_1 push_bit_eq_mult drop_bit_eq_div)
qed

lemma align_up_nat:
  assumes "unat n \<le> 2 ^ 62"
  shows "unat (align_up n ARENA_ALIGNMENT) = (unat n + 7) div 8 * 8"
proof -
  have "n + 8 - 1 = n + 7" "(8 :: u64) - 1 = 7" by simp_all
  then have "align_up n ARENA_ALIGNMENT = (n + 7) div 8 * 8"
    unfolding align_up_def ARENA_ALIGNMENT_def by (simp only: and_not_7)
  moreover have p: "unat (n + 7) = unat n + 7" using assms by (simp add: unat_word_ariths)
  moreover have "(unat n + 7) div 8 * 8 < 2 ^ 64"
    using assms div_times_less_eq_dividend [of "unat n + 7" 8] by simp
  ultimately show ?thesis by (simp add: unat_word_ariths unat_div)
qed


subsection \<open>Invariant\<close>

definition chunk_ok :: "arena_chunk \<Rightarrow> bool" where
  "chunk_ok c \<longleftrightarrow> length (ac_memory c) = unat (ac_size c) \<and> unat (ac_size c) \<le> 2 ^ 63
     \<and> unat (ac_cursor c) \<le> unat (ac_size c) \<and> unat (ac_cursor c) mod 8 = 0"

definition chunk_memory :: "arena_alloc \<Rightarrow> nat \<Rightarrow> u8 option list option" where
  "chunk_memory a = map_of (map (\<lambda>c. (ac_block c, ac_memory c)) (ar_chunks a))"

text \<open>A region is a pointer that was handed out with the number of bytes asked for.\<close>

definition apart :: "(nat \<times> nat) \<times> nat \<Rightarrow> (nat \<times> nat) \<times> nat \<Rightarrow> bool" where
  "apart r q \<longleftrightarrow> fst (fst r) \<noteq> fst (fst q) \<or> snd (fst r) + snd r \<le> snd (fst q) \<or> snd (fst q) + snd q \<le> snd (fst r)"

definition within :: "arena_chunk list \<Rightarrow> (nat \<times> nat) \<times> nat \<Rightarrow> bool" where
  "within cs r \<longleftrightarrow> (\<exists>c\<in>set cs. ac_block c = fst (fst r) \<and> snd (fst r) + snd r \<le> unat (ac_cursor c))"

definition arena_wf :: "chunk_heap \<times> arena_alloc \<Rightarrow> ((nat \<times> nat) \<times> nat) list \<Rightarrow> bool" where
  "arena_wf s rs \<longleftrightarrow> (\<forall>b\<in>ch_live (fst s). b < ch_next (fst s))
     \<and> distinct (map ac_block (ar_chunks (snd s)))
     \<and> ac_block ` set (ar_chunks (snd s)) \<subseteq> ch_live (fst s)
     \<and> ar_current (snd s) \<in> ac_block ` set (ar_chunks (snd s))
     \<and> unat (ar_chunk_size (snd s)) \<le> 2 ^ 62
     \<and> (\<forall>c\<in>set (ar_chunks (snd s)). chunk_ok c)
     \<and> (\<forall>r\<in>set rs. within (ar_chunks (snd s)) r) \<and> sorted_wrt apart rs"

lemma find_block:
  assumes "distinct (map ac_block cs)" "c \<in> set cs"
  shows "find (\<lambda>d. ac_block d = ac_block c) cs = Some c"
  using assms by (induction cs) auto

lemma find_current:
  assumes "arena_wf s rs"
  obtains c where "c \<in> set (ar_chunks (snd s))" "ac_block c = ar_current (snd s)" "chunk_ok c"
    "find (\<lambda>c. ac_block c = ar_current (snd s)) (ar_chunks (snd s)) = Some c"
proof -
  obtain c where c: "c \<in> set (ar_chunks (snd s))" "ac_block c = ar_current (snd s)"
    using assms by (auto simp: arena_wf_def)
  then have "find (\<lambda>c. ac_block c = ar_current (snd s)) (ar_chunks (snd s)) = Some c"
    using find_block [of "ar_chunks (snd s)" c] assms by (simp add: arena_wf_def)
  moreover have "chunk_ok c" using c(1) assms by (simp add: arena_wf_def)
  ultimately show thesis using that c by blast
qed

lemma replace_blocks [simp]:
  "ac_block c' = b \<Longrightarrow> map ac_block (replace_chunk b c' cs) = map ac_block cs"
  by (induction cs) (auto simp: replace_chunk_def)

lemma set_replace:
  "distinct (map ac_block cs) \<Longrightarrow> c \<in> set cs \<Longrightarrow> ac_block c' = ac_block c \<Longrightarrow>
   set (replace_chunk (ac_block c) c' cs) = insert c' (set cs - {c})"
  by (auto simp: replace_chunk_def distinct_map inj_on_def image_iff)

lemma map_of_blocks:
  "distinct (map ac_block cs) \<Longrightarrow> c \<in> set cs \<Longrightarrow>
   map_of (map (\<lambda>c. (ac_block c, ac_memory c)) cs) (ac_block c) = Some (ac_memory c)"
  by (induction cs) (auto simp: rev_image_eqI)

lemma map_of_replace:
  assumes "ac_block c' = b"
  shows "map_of (map (\<lambda>c. (ac_block c, ac_memory c)) (replace_chunk b c' cs)) d
     = (if d = b \<and> b \<in> ac_block ` set cs then Some (ac_memory c')
        else map_of (map (\<lambda>c. (ac_block c, ac_memory c)) cs) d)"
proof (induction cs)
  case (Cons e cs)
  then show ?case using assms by (cases "d = b"; cases "ac_block e = b") (simp_all add: replace_chunk_def)
qed (simp add: replace_chunk_def)


lemma memset_nth:
  assumes "off + n \<le> length m"
  shows "length (memset_zero off n m) = length m"
    and "take n (drop off (memset_zero off n m)) = replicate n (Some 0)"
    and "i < length m \<Longrightarrow> i < off \<or> off + n \<le> i \<Longrightarrow> memset_zero off n m ! i = m ! i"
  using assms by (auto simp: memset_zero_def nth_append)

lemma align_bounds:
  "n \<le> (n + 7) div 8 * 8" "(n + 7) div 8 * 8 < n + (8 :: nat)"
  by presburger+

subsection \<open>Handing out\<close>

lemma within_mono:
  assumes "within cs r" "\<And>c. c \<in> set cs \<Longrightarrow> \<exists>d\<in>set ds. ac_block d = ac_block c \<and> unat (ac_cursor c) \<le> unat (ac_cursor d)"
  shows "within ds r"
proof -
  obtain c where c: "c \<in> set cs" "ac_block c = fst (fst r)" "snd (fst r) + snd r \<le> unat (ac_cursor c)"
    using assms(1) by (auto simp: within_def)
  then show ?thesis using assms(2) [OF c(1)] unfolding within_def by force
qed

lemma fresh_wf:
  assumes "arena_wf (h, a) rs" "chunk_new n h = (c, h')" "unat n \<le> 2 ^ 63"
  shows "arena_wf (h', a\<lparr>ar_chunks := c # ar_chunks a, ar_current := ac_block c\<rparr>) rs"
    and "c \<in> set (c # ar_chunks a)" "unat (ac_cursor c) = 0" "ac_size c = n"
    and "b \<in> dom (chunk_memory a) \<Longrightarrow>
      chunk_memory (a\<lparr>ar_chunks := c # ar_chunks a, ar_current := ac_block c\<rparr>) b = chunk_memory a b"
proof -
  have c: "c = \<lparr>ac_block = ch_next h, ac_memory = replicate (unat n) None, ac_size = n, ac_cursor = 0\<rparr>"
    and h': "h' = \<lparr>ch_next = ch_next h + 1, ch_live = insert (ch_next h) (ch_live h)\<rparr>"
    using assms(2) by (auto simp: chunk_new_def)
  have new: "ch_next h \<notin> ac_block ` set (ar_chunks a)" using assms(1) by (auto simp: arena_wf_def)
  have w: "within (c # ar_chunks a) r" if "r \<in> set rs" for r
    by (rule within_mono [of "ar_chunks a"]) (use assms(1) that in \<open>auto simp: arena_wf_def\<close>)
  show "arena_wf (h', a\<lparr>ar_chunks := c # ar_chunks a, ar_current := ac_block c\<rparr>) rs"
    using assms(1,3) new w by (auto simp: arena_wf_def c h' chunk_ok_def)
  show "c \<in> set (c # ar_chunks a)" "unat (ac_cursor c) = 0" "ac_size c = n" by (simp_all add: c)
  assume "b \<in> dom (chunk_memory a)"
  then have "b \<in> ac_block ` set (ar_chunks a)"
    by (auto simp: chunk_memory_def dom_map_of_conv_image_fst)
  then show "chunk_memory (a\<lparr>ar_chunks := c # ar_chunks a, ar_current := ac_block c\<rparr>) b = chunk_memory a b"
    using new by (cases "b = ch_next h") (simp_all add: chunk_memory_def c)
qed

lemma bump_wf:
  assumes "arena_wf (h, a) rs" "c \<in> set (ar_chunks a)" "unat n \<le> 2 ^ 62"
    and room: "unat (ac_cursor c) + (unat n + 7) div 8 * 8 \<le> unat (ac_size c)"
  obtains c' where "bump n c = Some ((ac_block c, unat (ac_cursor c)), c')" "ac_block c' = ac_block c"
    "arena_wf (h, a\<lparr>ar_chunks := replace_chunk (ac_block c) c' (ar_chunks a)\<rparr>) (((ac_block c, unat (ac_cursor c)), unat n) # rs)"
    "ac_memory c' = memset_zero (unat (ac_cursor c)) (unat n) (ac_memory c)"
    "ac_cursor c' = ac_cursor c + align_up n ARENA_ALIGNMENT" "unat (ac_cursor c) + unat n \<le> length (ac_memory c)"
proof -
  let ?c' = "c\<lparr>ac_cursor := ac_cursor c + align_up n ARENA_ALIGNMENT,
     ac_memory := memset_zero (unat (ac_cursor c)) (unat n) (ac_memory c)\<rparr>"
  let ?a' = "a\<lparr>ar_chunks := replace_chunk (ac_block c) ?c' (ar_chunks a)\<rparr>"
  let ?r = "((ac_block c, unat (ac_cursor c)), unat n)"
  have ok: "chunk_ok c" using assms(1,2) by (simp add: arena_wf_def)
  note al = align_up_nat [OF assms(3)]
  have cur: "unat (ac_cursor c + align_up n ARENA_ALIGNMENT) = unat (ac_cursor c) + (unat n + 7) div 8 * 8"
    using ok room al by (simp add: unat_word_ariths chunk_ok_def)
  have fit: "unat (ac_cursor c) + unat n \<le> length (ac_memory c)"
    using ok room align_bounds(1) [of "unat n"] by (simp add: chunk_ok_def)
  have ok': "chunk_ok ?c'"
    using ok room cur memset_nth(1) [OF fit] by (simp add: chunk_ok_def mod_add_eq [symmetric])
  have dist: "distinct (map ac_block (ar_chunks a))" using assms(1) by (simp add: arena_wf_def)
  have set': "set (ar_chunks ?a') = insert ?c' (set (ar_chunks a) - {c})"
    using set_replace [OF dist assms(2), of ?c'] by simp
  have blocks: "ac_block ` set (ar_chunks ?a') = ac_block ` set (ar_chunks a)"
    using assms(2) unfolding set' by force
  have old: "within (ar_chunks ?a') r" if "r \<in> set rs" for r
  proof (rule within_mono [of "ar_chunks a"])
    show "within (ar_chunks a) r" using assms(1) that by (simp add: arena_wf_def)
    fix d assume "d \<in> set (ar_chunks a)"
    then show "\<exists>e\<in>set (ar_chunks ?a'). ac_block e = ac_block d \<and> unat (ac_cursor d) \<le> unat (ac_cursor e)"
      unfolding set' using cur by (cases "d = c") auto
  qed
  have new: "within (ar_chunks ?a') ?r"
    unfolding within_def set' using cur align_bounds(1) [of "unat n"] by simp
  have ap: "apart ?r r" if "r \<in> set rs" for r
  proof -
    have "within (ar_chunks a) r" using assms(1) that by (simp add: arena_wf_def)
    then obtain d where d: "d \<in> set (ar_chunks a)" "ac_block d = fst (fst r)" "snd (fst r) + snd r \<le> unat (ac_cursor d)"
      unfolding within_def by blast
    show ?thesis
    proof (cases "ac_block d = ac_block c")
      case True
      then have "d = c" using dist d(1) assms(2) by (auto simp: distinct_map inj_on_def)
      then show ?thesis using d by (simp add: apart_def)
    qed (use d in \<open>simp add: apart_def\<close>)
  qed
  have all_ok: "\<forall>x\<in>set (ar_chunks ?a'). chunk_ok x"
    unfolding set' using ok' assms(1) by (simp add: arena_wf_def)
  have wf: "arena_wf (h, ?a') (?r # rs)"
    using assms(1) all_ok old new ap blocks unfolding arena_wf_def by simp
  show thesis
    by (rule that [of ?c']) (use fit wf in \<open>simp_all add: bump_def\<close>)
qed


lemma used_loop_sum: "used_loop acc cs = acc + sum_list (map ac_cursor cs)"
  by (induction cs arbitrary: acc) (auto simp: add.assoc)

lemma used_replace:
  assumes "distinct (map ac_block cs)" "c \<in> set cs" "ac_cursor c' = ac_cursor c + n"
  shows "sum_list (map ac_cursor (replace_chunk (ac_block c) c' cs)) = sum_list (map ac_cursor cs) + n"
proof -
  have same: "ac_block c \<notin> ac_block ` set ds \<Longrightarrow> replace_chunk (ac_block c) c' ds = ds" for ds
    by (induction ds) (auto simp: replace_chunk_def)
  show ?thesis
    using assms
  proof (induction cs)
    case (Cons d cs)
    show ?case
    proof (cases "d = c")
      case True
      then show ?thesis using Cons.prems same [of cs] by (simp add: replace_chunk_def algebra_simps)
    next
      case False
      then have "c \<in> set cs" "ac_block d \<noteq> ac_block c" using Cons.prems by auto
      then show ?thesis using Cons by (simp add: replace_chunk_def algebra_simps)
    qed
  qed simp
qed

text \<open>What a call leaves of the memory it does not hand out.\<close>

definition keeps_bytes :: "arena_alloc \<Rightarrow> arena_alloc \<Rightarrow> (nat \<times> nat) \<times> nat \<Rightarrow> bool" where
  "keeps_bytes a a' r \<longleftrightarrow> (\<forall>b m. chunk_memory a b = Some m \<longrightarrow>
     (\<exists>m'. chunk_memory a' b = Some m' \<and> length m' = length m
        \<and> (\<forall>i < length m. apart r ((b, i), 1) \<longrightarrow> m' ! i = m ! i)))"

definition zeroed :: "arena_alloc \<Rightarrow> (nat \<times> nat) \<times> nat \<Rightarrow> bool" where
  "zeroed a r \<longleftrightarrow> (\<exists>m. chunk_memory a (fst (fst r)) = Some m
     \<and> take (snd r) (drop (snd (fst r)) m) = replicate (snd r) (Some 0))"

lemma bump_memory:
  assumes wf: "arena_wf (h, a) rs" and c: "c \<in> set (ar_chunks a)" and blk: "ac_block c' = ac_block c"
    and mem: "ac_memory c' = memset_zero (unat (ac_cursor c)) n (ac_memory c)"
    and cur: "ac_cursor c' = ac_cursor c + k" and fit: "unat (ac_cursor c) + n \<le> length (ac_memory c)"
  shows "keeps_bytes a (a\<lparr>ar_chunks := replace_chunk (ac_block c) c' (ar_chunks a)\<rparr>) ((ac_block c, unat (ac_cursor c)), n)"
    and "zeroed (a\<lparr>ar_chunks := replace_chunk (ac_block c) c' (ar_chunks a)\<rparr>) ((ac_block c, unat (ac_cursor c)), n)"
    and "arena_alloc_used (a\<lparr>ar_chunks := replace_chunk (ac_block c) c' (ar_chunks a)\<rparr>) = arena_alloc_used a + k"
proof -
  let ?a' = "a\<lparr>ar_chunks := replace_chunk (ac_block c) c' (ar_chunks a)\<rparr>"
  have dist: "distinct (map ac_block (ar_chunks a))" using wf by (simp add: arena_wf_def)
  have new: "chunk_memory ?a' b = (if b = ac_block c then Some (ac_memory c') else chunk_memory a b)" for b
    using map_of_replace [OF blk, of "ar_chunks a" b] c by (auto simp: chunk_memory_def)
  have old: "chunk_memory a (ac_block c) = Some (ac_memory c)"
    using map_of_blocks [OF dist c] by (simp add: chunk_memory_def)
  note ms = memset_nth [OF fit]
  show "zeroed ?a' ((ac_block c, unat (ac_cursor c)), n)"
    using ms(2) by (simp add: zeroed_def new mem)
  show "keeps_bytes a ?a' ((ac_block c, unat (ac_cursor c)), n)"
    unfolding keeps_bytes_def new using old ms(1,3) by (auto simp: mem apart_def)
  show "arena_alloc_used ?a' = arena_alloc_used a + k"
    using used_replace [OF dist c cur] by (simp add: arena_alloc_used_def used_loop_sum)
qed

lemma keeps_bytes_fresh:
  "keeps_bytes a1 a2 r \<Longrightarrow> (\<And>b. b \<in> dom (chunk_memory a) \<Longrightarrow> chunk_memory a1 b = chunk_memory a b) \<Longrightarrow> keeps_bytes a a2 r"
  unfolding keeps_bytes_def by (metis domI)

lemma get_run:
  assumes wf: "arena_wf (h, a) rs" and n: "unat n \<le> 2 ^ 62"
  shows "\<exists>p h' a'. arena_alloc_get n (h, a) = Some (p, h', a') \<and> arena_wf (h', a') ((p, unat n) # rs)
     \<and> snd p mod 8 = 0 \<and> zeroed a' (p, unat n) \<and> keeps_bytes a a' (p, unat n)
     \<and> arena_alloc_used a' = arena_alloc_used a + align_up n ARENA_ALIGNMENT"
proof -
  obtain c where c: "c \<in> set (ar_chunks a)" "ac_block c = ar_current a" "chunk_ok c"
    "find (\<lambda>c. ac_block c = ar_current a) (ar_chunks a) = Some c"
    using find_current [OF wf] by auto
  note al = align_up_nat [OF n]
  let ?n8 = "align_up n ARENA_ALIGNMENT"
  have sum: "unat (ac_cursor c + ?n8) = unat (ac_cursor c) + (unat n + 7) div 8 * 8"
  proof -
    have "unat (ac_cursor c) \<le> 2 ^ 63" using c(3) by (simp add: chunk_ok_def)
    then show ?thesis using al n align_bounds(2) [of "unat n"] by (simp add: unat_word_ariths)
  qed
  show ?thesis
  proof (cases "ac_cursor c + ?n8 > ac_size c")
    case False
    then have room: "unat (ac_cursor c) + (unat n + 7) div 8 * 8 \<le> unat (ac_size c)"
      using sum by (simp add: word_le_unat not_less)
    obtain c' where b: "bump n c = Some ((ac_block c, unat (ac_cursor c)), c')" "ac_block c' = ac_block c"
      "arena_wf (h, a\<lparr>ar_chunks := replace_chunk (ac_block c) c' (ar_chunks a)\<rparr>) (((ac_block c, unat (ac_cursor c)), unat n) # rs)"
      "ac_memory c' = memset_zero (unat (ac_cursor c)) (unat n) (ac_memory c)"
      "ac_cursor c' = ac_cursor c + ?n8" "unat (ac_cursor c) + unat n \<le> length (ac_memory c)"
      by (rule bump_wf [OF wf c(1) n room])
    have "arena_alloc_get n (h, a) = Some ((ac_block c, unat (ac_cursor c)), h,
        a\<lparr>ar_chunks := replace_chunk (ac_block c) c' (ar_chunks a)\<rparr>)"
      using False c(4) b(1) by (simp add: arena_alloc_get_def Let_def)
    then show ?thesis
      using b(3) bump_memory [OF wf c(1) b(2,4,5,6)] c(3) by (simp add: chunk_ok_def)
  next
    case True
    let ?size = "if ?n8 > ar_chunk_size a then ?n8 else ar_chunk_size a"
    obtain f h' where f: "chunk_new ?size h = (f, h')" by (cases "chunk_new ?size h")
    let ?a1 = "a\<lparr>ar_chunks := f # ar_chunks a, ar_current := ac_block f\<rparr>"
    have sz: "unat ?n8 \<le> unat ?size" by (simp add: word_less_unat)
    have big: "unat ?size \<le> 2 ^ 63"
      using wf n al align_bounds(2) [of "unat n"] by (simp add: arena_wf_def)
    note fr = fresh_wf [OF wf f big]
    have fin: "f \<in> set (ar_chunks ?a1)" by simp
    have room: "unat (ac_cursor f) + (unat n + 7) div 8 * 8 \<le> unat (ac_size f)"
      using sz al by (simp only: fr(3,4))
    obtain f' where b: "bump n f = Some ((ac_block f, unat (ac_cursor f)), f')" "ac_block f' = ac_block f"
      "arena_wf (h', ?a1\<lparr>ar_chunks := replace_chunk (ac_block f) f' (ar_chunks ?a1)\<rparr>) (((ac_block f, unat (ac_cursor f)), unat n) # rs)"
      "ac_memory f' = memset_zero (unat (ac_cursor f)) (unat n) (ac_memory f)"
      "ac_cursor f' = ac_cursor f + ?n8" "unat (ac_cursor f) + unat n \<le> length (ac_memory f)"
      by (rule bump_wf [OF fr(1) fin n room])
    have run: "arena_alloc_get n (h, a) = Some ((ac_block f, unat (ac_cursor f)), h',
        ?a1\<lparr>ar_chunks := replace_chunk (ac_block f) f' (ar_chunks ?a1)\<rparr>)"
      using True c(4) b(1) f by (simp add: arena_alloc_get_def Let_def)
    have used: "arena_alloc_used ?a1 = arena_alloc_used a"
      using f by (auto simp: arena_alloc_used_def used_loop_sum chunk_new_def)
    show ?thesis
      unfolding run
      using b(3) bump_memory [OF fr(1) fin b(2,4,5,6)] fr(3,5) used
      by (intro exI [of _ "(ac_block f, unat (ac_cursor f))"] exI [of _ h']
          exI [of _ "?a1\<lparr>ar_chunks := replace_chunk (ac_block f) f' (ar_chunks ?a1)\<rparr>"])
        (auto intro: keeps_bytes_fresh)
  qed
qed


fun arena_gets ::
    "u64 list \<Rightarrow> chunk_heap \<times> arena_alloc \<Rightarrow> (((nat \<times> nat) \<times> nat) list \<times> chunk_heap \<times> arena_alloc) option" where
  "arena_gets [] s = Some ([], s)"
| "arena_gets (n # ns) s =
     (case arena_alloc_get n s of
        None \<Rightarrow> None
      | Some (p, s1) \<Rightarrow>
          (case arena_gets ns s1 of None \<Rightarrow> None | Some (rs, s2) \<Rightarrow> Some ((p, unat n) # rs, s2)))"

lemma apart_sym: "apart r q \<longleftrightarrow> apart q r"
  by (auto simp: apart_def)

lemma zeroed_nth:
  "zeroed a r \<longleftrightarrow> (\<exists>m. chunk_memory a (fst (fst r)) = Some m
     \<and> snd r \<le> length m - snd (fst r) \<and> (\<forall>i < snd r. m ! (snd (fst r) + i) = Some 0))"
  by (force simp: zeroed_def list_eq_iff_nth_eq)

lemma zeroed_kept:
  assumes "zeroed a r" "keeps_bytes a a' q" "apart q r"
  shows "zeroed a' r"
proof -
  obtain m where m: "chunk_memory a (fst (fst r)) = Some m" "snd r \<le> length m - snd (fst r)"
    "\<forall>i < snd r. m ! (snd (fst r) + i) = Some 0"
    using assms(1) by (auto simp: zeroed_nth)
  obtain m' where m': "chunk_memory a' (fst (fst r)) = Some m'" "length m' = length m"
    "\<forall>i < length m. apart q ((fst (fst r), i), 1) \<longrightarrow> m' ! i = m ! i"
    using assms(2) m(1) unfolding keeps_bytes_def by blast
  have "m' ! (snd (fst r) + i) = Some 0" if "i < snd r" for i
    using m m' that assms(3) by (auto simp: apart_def)
  then show ?thesis using m m' by (auto simp: zeroed_nth)
qed

lemma gets_run:
  assumes "arena_wf s rs" "\<forall>n\<in>set ns. unat n \<le> 2 ^ 62" "\<forall>r\<in>set rs. zeroed (snd s) r \<and> snd (fst r) mod 8 = 0"
  shows "\<exists>qs s'. arena_gets ns s = Some (qs, s') \<and> arena_wf s' (rev qs @ rs) \<and> map snd qs = map unat ns
     \<and> (\<forall>r\<in>set qs \<union> set rs. zeroed (snd s') r \<and> snd (fst r) mod 8 = 0)
     \<and> arena_alloc_used (snd s') = arena_alloc_used (snd s) + sum_list (map (\<lambda>n. align_up n ARENA_ALIGNMENT) ns)"
  using assms
proof (induction ns arbitrary: s rs)
  case (Cons n ns)
  obtain h a where s: "s = (h, a)" by fastforce
  obtain p h1 a1 where g: "arena_alloc_get n (h, a) = Some (p, h1, a1)" "arena_wf (h1, a1) ((p, unat n) # rs)"
    "snd p mod 8 = 0" "zeroed a1 (p, unat n)" "keeps_bytes a a1 (p, unat n)"
    "arena_alloc_used a1 = arena_alloc_used a + align_up n ARENA_ALIGNMENT"
    using get_run [of h a rs n] Cons.prems unfolding s by auto
  have ap: "\<forall>r\<in>set rs. apart (p, unat n) r" using g(2) by (simp add: arena_wf_def)
  have "\<forall>r\<in>set ((p, unat n) # rs). zeroed (snd (h1, a1)) r \<and> snd (fst r) mod 8 = 0"
    using g(3,4) zeroed_kept [OF _ g(5)] ap Cons.prems(3) unfolding s snd_conv by (metis fst_conv set_ConsD)
  moreover have "\<forall>n\<in>set ns. unat n \<le> 2 ^ 62" using Cons.prems(2) by simp
  ultimately obtain qs s' where q: "arena_gets ns (h1, a1) = Some (qs, s')" "arena_wf s' (rev qs @ (p, unat n) # rs)"
    "map snd qs = map unat ns" "\<forall>r\<in>set qs \<union> set ((p, unat n) # rs). zeroed (snd s') r \<and> snd (fst r) mod 8 = 0"
    "arena_alloc_used (snd s') = arena_alloc_used a1 + sum_list (map (\<lambda>n. align_up n ARENA_ALIGNMENT) ns)"
    using Cons.IH [OF g(2)] by auto
  have "arena_gets (n # ns) s = Some ((p, unat n) # qs, s')" using g(1) q(1) by (simp add: s)
  then show ?case using q g(6) by (auto simp: s algebra_simps)
qed simp

lemma arena_init_wf:
  "\<forall>b\<in>ch_live h. b < ch_next h \<Longrightarrow> unat n \<le> 2 ^ 62 \<Longrightarrow> arena_wf (arena_alloc_init n h) []"
  by (auto simp: arena_alloc_init_def chunk_new_def arena_wf_def chunk_ok_def)

text \<open>
  C15. Any sequence of allocations (up to \<open>2 ^ 62\<close> bytes each) from a fresh arena succeeds: every
  region handed out lies inside one chunk of the arena, is 8-aligned and zeroed, stays as it is while
  the later ones are handed out, and overlaps none of them; and the bytes reported as used are the
  sum of the sizes rounded up to 8.
\<close>
theorem arena_gets_apart:
  assumes "\<forall>b\<in>ch_live h. b < ch_next h" "unat n \<le> 2 ^ 62" "\<forall>n\<in>set ns. unat n \<le> 2 ^ 62"
  shows "\<exists>rs h' a. arena_gets ns (arena_alloc_init n h) = Some (rs, h', a) \<and> map snd rs = map unat ns
     \<and> sorted_wrt apart rs \<and> (\<forall>r\<in>set rs. within (ar_chunks a) r \<and> zeroed a r \<and> snd (fst r) mod 8 = 0)
     \<and> arena_alloc_used a = sum_list (map (\<lambda>n. align_up n ARENA_ALIGNMENT) ns)"
proof -
  obtain rs h' a where g: "arena_gets ns (arena_alloc_init n h) = Some (rs, h', a)" "arena_wf (h', a) (rev rs)"
    "map snd rs = map unat ns" "\<forall>r\<in>set rs. zeroed a r \<and> snd (fst r) mod 8 = 0"
    "arena_alloc_used a = arena_alloc_used (snd (arena_alloc_init n h)) + sum_list (map (\<lambda>n. align_up n ARENA_ALIGNMENT) ns)"
    using gets_run [OF arena_init_wf [OF assms(1,2)] assms(3)] by auto
  have "arena_alloc_used (snd (arena_alloc_init n h)) = 0"
    by (simp add: arena_alloc_init_def chunk_new_def arena_alloc_used_def)
  moreover have "sorted_wrt apart rs"
    using g(2) by (simp add: arena_wf_def sorted_wrt_rev apart_sym [abs_def, symmetric])
  moreover have "\<forall>r\<in>set rs. within (ar_chunks a) r" using g(2) by (simp add: arena_wf_def)
  ultimately show ?thesis using g by auto
qed

lemma arena_gets_apart_witness:
  "\<exists>rs h' a. arena_gets [5, 100, 8] (arena_alloc_init 64 \<lparr>ch_next = 0, ch_live = {}\<rparr>) = Some (rs, h', a)
     \<and> map snd rs = [5, 100, 8] \<and> sorted_wrt apart rs"
  using arena_gets_apart [of "\<lparr>ch_next = 0, ch_live = {}\<rparr>" 64 "[5, 100, 8]"] by auto

subsection \<open>Reset and destruction\<close>

lemma free_chunks_run:
  "distinct (map ac_block cs) \<Longrightarrow> ac_block ` set cs \<subseteq> ch_live h \<Longrightarrow>
   free_chunks cs h = Some (h\<lparr>ch_live := ch_live h - ac_block ` set cs\<rparr>)"
proof (induction cs arbitrary: h)
  case (Cons c cs)
  then have "ac_block ` set cs \<subseteq> ch_live (h\<lparr>ch_live := ch_live h - {ac_block c}\<rparr>)"
    by (simp add: subset_Diff_insert)
  then have "free_chunks cs (h\<lparr>ch_live := ch_live h - {ac_block c}\<rparr>)
      = Some (h\<lparr>ch_live := ch_live h - {ac_block c} - ac_block ` set cs\<rparr>)" using Cons by simp
  moreover have "chunk_free c h = Some (h\<lparr>ch_live := ch_live h - {ac_block c}\<rparr>)"
    using Cons.prems by (simp add: chunk_free_def)
  moreover have "ch_live h - {ac_block c} - ac_block ` set cs = ch_live h - ac_block ` set (c # cs)" by auto
  ultimately show ?case by (simp only: free_chunks.simps option.case)
qed simp

lemma reset_loop_run:
  assumes "distinct (map ac_block (k # cs))" "ac_block ` set (k # cs) \<subseteq> ch_live h"
  shows "\<exists>c\<in>set (k # cs). reset_loop (Some k) cs h
           = Some (Some c, h\<lparr>ch_live := ch_live h - (ac_block ` set (k # cs) - {ac_block c})\<rparr>)
         \<and> (\<forall>d\<in>set (k # cs). ac_size d \<le> ac_size c)"
  using assms
proof (induction cs arbitrary: k h)
  case Nil
  then show ?case by simp
next
  case (Cons d cs)
  let ?old = "if ac_size d > ac_size k then k else d" and ?new = "if ac_size d > ac_size k then d else k"
  let ?h = "h\<lparr>ch_live := ch_live h - {ac_block ?old}\<rparr>"
  have step: "reset_loop (Some k) (d # cs) h = reset_loop (Some ?new) cs ?h"
    using Cons.prems by (auto simp: chunk_free_def)
  have "distinct (map ac_block (?new # cs))" "ac_block ` set (?new # cs) \<subseteq> ch_live ?h"
    using Cons.prems by (auto simp: subset_Diff_insert simp del: image_insert)
  then obtain c where c: "c \<in> set (?new # cs)" "\<forall>d\<in>set (?new # cs). ac_size d \<le> ac_size c"
    "reset_loop (Some ?new) cs ?h = Some (Some c, ?h\<lparr>ch_live := ch_live ?h - (ac_block ` set (?new # cs) - {ac_block c})\<rparr>)"
    using Cons.IH [of ?new ?h] by blast
  have "c \<in> set (k # d # cs)" using c(1) by (auto split: if_splits)
  moreover have "ac_size ?old \<le> ac_size ?new" by auto
  then have "\<forall>e\<in>set (k # d # cs). ac_size e \<le> ac_size c" using c(2) by (auto split: if_splits)
  moreover have "ch_live ?h - (ac_block ` set (?new # cs) - {ac_block c})
      = ch_live h - (ac_block ` set (k # d # cs) - {ac_block c})"
  proof -
    have "ac_block ?old \<noteq> ac_block c" using c(1) Cons.prems(1) by (force split: if_splits)
    then show ?thesis by auto
  qed
  ultimately show ?case using c(3) unfolding step by (intro bexI [of _ c]) auto
qed


text \<open>
  A reset frees every chunk but one of the largest and rewinds that one, so the next
  allocation that fits in it takes no memory from the heap; the destruction frees every chunk
  exactly once. Neither touches a block that is not the arena's.
\<close>
theorem arena_reset_frees:
  assumes "arena_wf (h, a) rs"
  shows "(\<exists>c\<in>set (ar_chunks a). \<exists>h' a'. arena_alloc_reset (h, a) = Some (h', a') \<and> arena_wf (h', a') []
            \<and> ar_chunks a' = [c\<lparr>ac_cursor := 0\<rparr>] \<and> (\<forall>d\<in>set (ar_chunks a). ac_size d \<le> ac_size c)
            \<and> ch_live h' = ch_live h - (ac_block ` set (ar_chunks a) - {ac_block c}) \<and> arena_alloc_used a' = 0
            \<and> (\<forall>n. unat n \<le> 2 ^ 62 \<and> align_up n ARENA_ALIGNMENT \<le> ac_size c \<longrightarrow>
                 (\<exists>p a''. arena_alloc_get n (h', a') = Some (p, h', a''))))
       \<and> arena_alloc_destroy (h, a) = Some (h\<lparr>ch_live := ch_live h - ac_block ` set (ar_chunks a)\<rparr>, a\<lparr>ar_chunks := []\<rparr>)"
proof -
  obtain k cs where kcs: "ar_chunks a = k # cs"
    using assms by (cases "ar_chunks a") (auto simp: arena_wf_def)
  have dist: "distinct (map ac_block (k # cs))" and live: "ac_block ` set (k # cs) \<subseteq> ch_live h"
    using assms kcs by (simp_all add: arena_wf_def)
  obtain c where c: "c \<in> set (k # cs)" "\<forall>d\<in>set (k # cs). ac_size d \<le> ac_size c"
    "reset_loop (Some k) cs h = Some (Some c, h\<lparr>ch_live := ch_live h - (ac_block ` set (k # cs) - {ac_block c})\<rparr>)"
    using reset_loop_run [OF dist live] by blast
  let ?h = "h\<lparr>ch_live := ch_live h - (ac_block ` set (k # cs) - {ac_block c})\<rparr>"
  let ?a = "a\<lparr>ar_chunks := [c\<lparr>ac_cursor := 0\<rparr>], ar_current := ac_block c\<rparr>"
  have run: "arena_alloc_reset (h, a) = Some (?h, ?a)" using c(3) by (simp add: arena_alloc_reset_def kcs)
  have "ac_block c \<in> ch_live h" using c(1) live by auto
  moreover have "chunk_ok c" using assms c(1) by (auto simp: arena_wf_def kcs)
  ultimately have wf: "arena_wf (?h, ?a) []" using assms by (auto simp: arena_wf_def chunk_ok_def)
  have fits: "\<exists>p a''. arena_alloc_get n (?h, ?a) = Some (p, ?h, a'')"
    if n: "unat n \<le> 2 ^ 62" "align_up n ARENA_ALIGNMENT \<le> ac_size c" for n
  proof -
    have "unat n \<le> unat (align_up n ARENA_ALIGNMENT)" using align_up_nat [OF n(1)] align_bounds(1) by simp
    then have "unat n \<le> length (ac_memory c)"
      using n(2) \<open>chunk_ok c\<close> by (simp add: chunk_ok_def word_le_unat)
    moreover have "\<not> ac_size c < align_up n ARENA_ALIGNMENT" using n(2) by simp
    ultimately show ?thesis by (simp add: arena_alloc_get_def bump_def)
  qed
  have "arena_alloc_destroy (h, a) = Some (h\<lparr>ch_live := ch_live h - ac_block ` set (ar_chunks a)\<rparr>, a\<lparr>ar_chunks := []\<rparr>)"
    using free_chunks_run [OF dist live] by (simp add: arena_alloc_destroy_def kcs)
  moreover have "arena_alloc_used ?a = 0" by (simp add: arena_alloc_used_def)
  ultimately show ?thesis using run wf c(1,2) fits unfolding kcs by (intro conjI bexI [of _ c] exI) auto
qed

lemma arena_reset_frees_witness:
  "\<exists>h' a'. arena_alloc_reset (arena_alloc_init 64 \<lparr>ch_next = 0, ch_live = {}\<rparr>) = Some (h', a')
     \<and> arena_alloc_used a' = 0"
proof -
  let ?s = "arena_alloc_init 64 \<lparr>ch_next = 0, ch_live = {}\<rparr>"
  have "arena_wf (fst ?s, snd ?s) []" unfolding prod.collapse by (rule arena_init_wf) simp_all
  from arena_reset_frees [OF this] show ?thesis unfolding prod.collapse by blast
qed

end
