(* ===== verification/Json_PP.thy ===== *)
theory Json_PP
  imports Float64 Util "HOL-Library.Sublist"
begin

text \<open>
  \<open>src/src/model/json_pp.c\<close>: the lenient JSON formatter. Its cursor is a position in the bytes
  of the payload, the dot path a C string whose length is \<open>path_len\<close>, and the lines a list of at
  most \<open>JSON_PP_MAX_LINES\<close>. The mutually recursive functions carry fuel, which the theorems show
  to suffice for every input. An address (the key of the cache) is a number, NULL is \<open>None\<close>.
\<close>

definition JSON_PP_MAX_LINES :: nat where [simp]: "JSON_PP_MAX_LINES = 2048"
definition JSON_PP_MAX_DEPTH :: nat where [simp]: "JSON_PP_MAX_DEPTH = 64"
definition JSON_PP_KEY_LEN :: nat where [simp]: "JSON_PP_KEY_LEN = 128"
definition JSON_PP_VAL_LEN :: nat where [simp]: "JSON_PP_VAL_LEN = 272"
definition JSON_PP_PATH_LEN :: nat where [simp]: "JSON_PP_PATH_LEN = 128"

datatype json_val_kind = VAL_PUNCT | VAL_STRING | VAL_ATOM

record json_line =
  jl_depth :: nat
  jl_key :: string
  jl_sep :: string
  jl_val :: string
  jl_trail :: string
  jl_val_kind :: json_val_kind
  jl_dot_path :: string
  jl_is_numeric :: bool

record json_pp =
  jp_lines :: "json_line list"
  jp_cache_src :: "nat option"
  jp_cache_key :: u64
  jp_src :: string
  jp_pos :: nat
  jp_depth :: nat
  jp_path :: string

subsection \<open>Scanning\<close>

definition json_ws :: "char \<Rightarrow> bool" where
  "json_ws c \<longleftrightarrow> c = CHR '' '' \<or> c = CHR 0x09 \<or> c = CHR 0x0A \<or> c = CHR 0x0D"

function ws_end :: "string \<Rightarrow> nat \<Rightarrow> nat" where
  "ws_end src pos = (if pos < length src \<and> json_ws (src ! pos) then ws_end src (pos + 1) else pos)"
  by pat_completeness auto
termination by (relation "measure (\<lambda>(src, pos). length src - pos)") auto

declare ws_end.simps [simp del]

definition skip_ws :: "json_pp \<Rightarrow> json_pp" where
  "skip_ws pp = pp\<lparr>jp_pos := ws_end (jp_src pp) (jp_pos pp)\<rparr>"

function string_end :: "string \<Rightarrow> nat \<Rightarrow> nat" where
  "string_end src pos =
     (if pos < length src then
        (if src ! pos = CHR 0x5C \<and> pos + 1 < length src then string_end src (pos + 2)
         else if src ! pos = CHR 0x22 then pos + 1
         else string_end src (pos + 1))
      else pos)"
  by pat_completeness auto
termination by (relation "measure (\<lambda>(src, pos). length src - pos)") auto

declare string_end.simps [simp del]

text \<open>The bytes from \<open>start\<close> up to the cursor as the C string in a buffer of \<open>buf_size\<close> bytes.\<close>

definition copy_token :: "string \<Rightarrow> nat \<Rightarrow> nat \<Rightarrow> nat \<Rightarrow> string" where
  "copy_token src start pos buf_size =
     (let copy_len = pos - start;
          copy_len = (if copy_len > buf_size - 1 then buf_size - 1 else copy_len)
      in cstr (take copy_len (drop start src)))"

definition scan_string :: "json_pp \<Rightarrow> nat \<Rightarrow> string \<times> json_pp" where
  "scan_string pp buf_size =
     (let pos = string_end (jp_src pp) (jp_pos pp + 1)
      in (copy_token (jp_src pp) (jp_pos pp) pos buf_size, pp\<lparr>jp_pos := pos\<rparr>))"

definition atom_stop :: "char \<Rightarrow> bool" where
  "atom_stop c \<longleftrightarrow> c = CHR '','' \<or> c = CHR ''}'' \<or> c = CHR '']'' \<or> c = CHR ''{'' \<or> c = CHR ''['' \<or> json_ws c"

function atom_end :: "string \<Rightarrow> nat \<Rightarrow> nat" where
  "atom_end src pos = (if pos < length src \<and> \<not> atom_stop (src ! pos) then atom_end src (pos + 1) else pos)"
  by pat_completeness auto
termination by (relation "measure (\<lambda>(src, pos). length src - pos)") auto

declare atom_end.simps [simp del]

definition scan_atom :: "json_pp \<Rightarrow> nat \<Rightarrow> string \<times> json_pp" where
  "scan_atom pp buf_size =
     (let pos = atom_end (jp_src pp) (jp_pos pp)
      in (copy_token (jp_src pp) (jp_pos pp) pos buf_size, pp\<lparr>jp_pos := pos\<rparr>))"

text \<open>\<open>p[0] == '0' && (p[1] == 'x' || p[1] == 'X')\<close> after an optional sign.\<close>

definition hex_literal :: "string \<Rightarrow> bool" where
  "hex_literal s =
     (let p = (if s \<noteq> [] \<and> (hd s = CHR ''+'' \<or> hd s = CHR ''-'') then tl s else s)
      in take 2 p = ''0x'' \<or> take 2 p = ''0X'')"

definition atom_is_numeric :: "string \<Rightarrow> bool" where
  "atom_is_numeric v = (if v = [] then False else if hex_literal v then False else whole_number v)"

text \<open>\<open>strlen(val) >= 2\<close>, and a quote at either end.\<close>

definition quoted :: "string \<Rightarrow> bool" where
  "quoted v \<longleftrightarrow> length v \<ge> 2 \<and> hd v = CHR 0x22 \<and> last v = CHR 0x22"

definition json_pp_quoted_is_numeric :: "string \<Rightarrow> bool" where
  "json_pp_quoted_is_numeric v =
     (if \<not> quoted v then False
      else
        let ilen = length v - 2;
            ilen = (if ilen \<ge> JSON_PP_VAL_LEN then JSON_PP_VAL_LEN - 1 else ilen)
        in whole_number (take ilen (tl v)))"

subsection \<open>The line model\<close>

definition json_pp_begin :: "json_pp \<Rightarrow> json_pp" where
  "json_pp_begin pp = pp\<lparr>jp_lines := [], jp_depth := 0, jp_path := [], jp_cache_src := None, jp_src := [], jp_pos := 0\<rparr>"

definition json_pp_emit :: "json_pp \<Rightarrow> string \<Rightarrow> string \<Rightarrow> json_val_kind \<Rightarrow> bool \<Rightarrow> json_pp" where
  "json_pp_emit pp key v kind is_numeric =
     (if length (jp_lines pp) \<ge> JSON_PP_MAX_LINES then pp
      else pp\<lparr>jp_lines := jp_lines pp @
        [\<lparr>jl_depth = jp_depth pp,
          jl_key = util_str_copy [] JSON_PP_KEY_LEN (Some key),
          jl_sep = util_str_copy [] 4 (Some (if key \<noteq> [] then '': '' else [])),
          jl_val = util_str_copy [] JSON_PP_VAL_LEN (Some v),
          jl_trail = [], jl_val_kind = kind,
          jl_dot_path = util_str_copy [] JSON_PP_PATH_LEN (Some (jp_path pp)),
          jl_is_numeric = is_numeric\<rparr>]\<rparr>)"

definition push_seg :: "string \<Rightarrow> string \<Rightarrow> string" where
  "push_seg path seg =
     (if seg = [] then path
      else
        let need_dot = (if length path > 0 then 1 else 0)
        in if length path + need_dot + length seg + 1 > JSON_PP_PATH_LEN then path
           else path @ (if need_dot = 1 then ''.'' else []) @ seg)"

definition json_pp_path_push :: "json_pp \<Rightarrow> string \<Rightarrow> nat \<times> json_pp" where
  "json_pp_path_push pp seg = (length (jp_path pp), pp\<lparr>jp_path := push_seg (jp_path pp) seg\<rparr>)"

definition json_pp_path_pop :: "json_pp \<Rightarrow> nat \<Rightarrow> json_pp" where
  "json_pp_path_pop pp mark = pp\<lparr>jp_path := take mark (jp_path pp)\<rparr>"

definition json_pp_mark_trailing_comma :: "json_pp \<Rightarrow> json_pp" where
  "json_pp_mark_trailing_comma pp =
     (if length (jp_lines pp) > 0
      then pp\<lparr>jp_lines := (jp_lines pp)[length (jp_lines pp) - 1 :=
             (jp_lines pp ! (length (jp_lines pp) - 1))\<lparr>jl_trail := util_str_copy [] 4 (Some '','')\<rparr>]\<rparr>
      else pp)"

subsection \<open>Formatting\<close>

abbreviation at_char :: "json_pp \<Rightarrow> char \<Rightarrow> bool" where
  "at_char pp c \<equiv> jp_pos pp < length (jp_src pp) \<and> jp_src pp ! jp_pos pp = c"

definition advance_if :: "char \<Rightarrow> json_pp \<Rightarrow> json_pp" where
  "advance_if c pp = (if at_char pp c then pp\<lparr>jp_pos := jp_pos pp + 1\<rparr> else pp)"

definition strip_quotes :: "string \<Rightarrow> string" where
  "strip_quotes key = (if quoted key then take (length key - 2) (tl key) else key)"

text \<open>What both loops do after a value: progress, the path, the comma.\<close>

definition after_item :: "nat \<Rightarrow> nat \<Rightarrow> json_pp \<Rightarrow> json_pp" where
  "after_item mark pos_before pp =
     (let pp = (if jp_pos pp = pos_before then pp\<lparr>jp_pos := jp_pos pp + 1\<rparr> else pp);
          pp = json_pp_path_pop pp mark;
          pp = skip_ws pp;
          pp = (if at_char pp (CHR '','') then json_pp_mark_trailing_comma (pp\<lparr>jp_pos := jp_pos pp + 1\<rparr>) else pp)
      in skip_ws pp)"

text \<open>The key of an object member, up to the value.\<close>

definition member_key :: "json_pp \<Rightarrow> string \<times> json_pp" where
  "member_key pp =
     (let (key, pp) = (if jp_src pp ! jp_pos pp = CHR 0x22 then scan_string pp JSON_PP_KEY_LEN else ([], pp));
          pp = skip_ws pp;
          pp = advance_if (CHR '':'') pp;
          pp = skip_ws pp
      in (strip_quotes key, pp))"

fun format_value :: "nat \<Rightarrow> json_pp \<Rightarrow> string \<Rightarrow> json_pp option"
  and format_object_contents :: "nat \<Rightarrow> json_pp \<Rightarrow> json_pp option"
  and object_loop :: "nat \<Rightarrow> json_pp \<Rightarrow> json_pp option"
  and format_array_contents :: "nat \<Rightarrow> json_pp \<Rightarrow> json_pp option"
  and array_loop :: "nat \<Rightarrow> nat \<Rightarrow> json_pp \<Rightarrow> json_pp option" where
  "format_value 0 pp key = None"
| "format_value (Suc fuel) pp0 key =
     (let pp = skip_ws pp0 in
      if jp_pos pp \<ge> length (jp_src pp) \<or> length (jp_lines pp) \<ge> JSON_PP_MAX_LINES then Some pp
      else if jp_depth pp \<ge> JSON_PP_MAX_DEPTH then Some pp
      else
        let c = jp_src pp ! jp_pos pp in
        if c = CHR ''{'' then
          (let pp = json_pp_emit pp key ''{'' VAL_PUNCT False in
           case format_object_contents fuel (pp\<lparr>jp_pos := jp_pos pp + 1, jp_depth := jp_depth pp + 1\<rparr>) of
             None \<Rightarrow> None
           | Some pp \<Rightarrow> Some (json_pp_emit (pp\<lparr>jp_depth := jp_depth pp - 1\<rparr>) [] ''}'' VAL_PUNCT False))
        else if c = CHR ''['' then
          (let pp = json_pp_emit pp key ''['' VAL_PUNCT False in
           case format_array_contents fuel (pp\<lparr>jp_pos := jp_pos pp + 1, jp_depth := jp_depth pp + 1\<rparr>) of
             None \<Rightarrow> None
           | Some pp \<Rightarrow> Some (json_pp_emit (pp\<lparr>jp_depth := jp_depth pp - 1\<rparr>) [] '']'' VAL_PUNCT False))
        else if c = CHR 0x22 then
          (let (v, pp) = scan_string pp JSON_PP_VAL_LEN
           in Some (json_pp_emit pp key v VAL_STRING (json_pp_quoted_is_numeric v)))
        else
          (let (v, pp) = scan_atom pp JSON_PP_VAL_LEN
           in Some (json_pp_emit pp key v VAL_ATOM (atom_is_numeric v))))"
| "format_object_contents fuel pp =
     map_option (advance_if (CHR ''}'')) (object_loop fuel (skip_ws pp))"
| "object_loop 0 pp = None"
| "object_loop (Suc fuel) pp =
     (if jp_pos pp < length (jp_src pp) \<and> jp_src pp ! jp_pos pp \<noteq> CHR ''}'' \<and> length (jp_lines pp) < JSON_PP_MAX_LINES
      then
        let pp = skip_ws pp in
        if jp_pos pp \<ge> length (jp_src pp) \<or> jp_src pp ! jp_pos pp = CHR ''}'' then Some pp
        else
          let (key, pp) = member_key pp;
              (mark, pp) = json_pp_path_push pp key;
              pos_before = jp_pos pp
          in (case format_value fuel pp key of
                None \<Rightarrow> None
              | Some pp \<Rightarrow> object_loop fuel (after_item mark pos_before pp))
      else Some pp)"
| "format_array_contents fuel pp =
     map_option (advance_if (CHR '']'')) (array_loop fuel 0 (skip_ws pp))"
| "array_loop 0 idx pp = None"
| "array_loop (Suc fuel) idx pp =
     (if jp_pos pp < length (jp_src pp) \<and> jp_src pp ! jp_pos pp \<noteq> CHR '']'' \<and> length (jp_lines pp) < JSON_PP_MAX_LINES
      then
        let pp = skip_ws pp in
        if jp_pos pp \<ge> length (jp_src pp) \<or> jp_src pp ! jp_pos pp = CHR '']'' then Some pp
        else
          let (mark, pp) = json_pp_path_push pp (snprintf 16 (dec idx));
              pos_before = jp_pos pp
          in (case format_value fuel pp [] of
                None \<Rightarrow> None
              | Some pp \<Rightarrow> array_loop fuel (idx + 1) (after_item mark pos_before pp))
      else Some pp)"

definition INT32_MAX :: nat where "INT32_MAX = 2147483647"

definition json_pp_run_len :: "json_pp \<Rightarrow> string \<Rightarrow> nat \<Rightarrow> json_pp option" where
  "json_pp_run_len pp src n =
     (let pp = json_pp_begin pp;
          src_len = (if n > INT32_MAX then INT32_MAX else n);
          pp = pp\<lparr>jp_src := take src_len src\<rparr>
      in case format_value (2 * (src_len + 1)) pp [] of
           None \<Rightarrow> None
         | Some pp \<Rightarrow> Some (pp\<lparr>jp_src := []\<rparr>))"

definition json_pp_run :: "json_pp \<Rightarrow> string \<Rightarrow> json_pp option" where
  "json_pp_run pp src = json_pp_run_len pp src (length src)"

definition json_pp_mark_cached :: "json_pp \<Rightarrow> nat option \<Rightarrow> u64 \<Rightarrow> json_pp" where
  "json_pp_mark_cached pp src key = pp\<lparr>jp_cache_src := src, jp_cache_key := key\<rparr>"

text \<open>The address of the payload and its bytes.\<close>

definition json_pp_run_cached ::
    "json_pp \<Rightarrow> nat option \<times> string \<Rightarrow> nat \<Rightarrow> u64 \<Rightarrow> (bool \<times> json_pp) option" where
  "json_pp_run_cached pp src n key =
     (if jp_cache_src pp = fst src \<and> jp_cache_key pp = key then Some (False, pp)
      else case json_pp_run_len pp (snd src) n of
             None \<Rightarrow> None
           | Some pp \<Rightarrow> Some (True, json_pp_mark_cached pp (fst src) key))"

subsection \<open>Reading the lines\<close>

definition json_pp_looks_like_json :: "string option \<Rightarrow> bool" where
  "json_pp_looks_like_json src0 =
     (case src0 of
        None \<Rightarrow> False
      | Some s \<Rightarrow>
          (let src = dropWhile json_ws s in
           if src = [] then False
           else if hd src = CHR ''{'' \<or> hd src = CHR ''['' \<or> hd src = CHR 0x22 then True
           else if length src \<ge> 64 then False
           else
             let buf = cstr src in
             if hex_literal buf then False
             else (case strtod buf of
                     None \<Rightarrow> False
                   | Some (v, e) \<Rightarrow> dropWhile json_ws e = [] \<and> isfinite v)))"

definition json_pp_find :: "json_pp \<Rightarrow> string \<Rightarrow> json_line option" where
  "json_pp_find pp dot_path = find (\<lambda>l. jl_dot_path l = dot_path) (jp_lines pp)"

text \<open>
  The unescaping loop over the text between the quotes. An unknown escape keeps the backslash; when
  that fills the buffer, the \<open>break\<close> only leaves the \<open>switch\<close> and the character in hand (still
  the backslash) is written again.
\<close>

fun unescape_loop :: "nat \<Rightarrow> string \<Rightarrow> string \<Rightarrow> string" where
  "unescape_loop cap [] out = out"
| "unescape_loop cap (ch # p) out =
     (if length out < cap - 1 then
        (case p of
           [] \<Rightarrow> out @ [ch]
         | e # p' \<Rightarrow>
             if ch = CHR 0x5C then
               (if e = CHR ''n'' then unescape_loop cap p' (out @ [CHR 0x0A])
                else if e = CHR ''r'' then unescape_loop cap p' (out @ [CHR 0x0D])
                else if e = CHR ''t'' then unescape_loop cap p' (out @ [CHR 0x09])
                else if e = CHR 0x22 \<or> e = CHR 0x5C \<or> e = CHR ''/'' then unescape_loop cap p' (out @ [e])
                else
                  (let out1 = out @ [CHR 0x5C] in
                   if length out1 \<ge> cap - 1 then unescape_loop cap p' (out1 @ [ch])
                   else unescape_loop cap p' (out1 @ [e])))
             else unescape_loop cap p (out @ [ch]))
      else out)"

text \<open>The text of the value between its quotes.\<close>

definition string_body :: "string \<Rightarrow> string" where
  "string_body v = (if length v \<ge> 2 \<and> last v = CHR 0x22 then butlast (tl v) else tl v)"

text \<open>
  \<open>None\<close> is a write outside of the \<open>cap\<close> bytes of \<open>out\<close>; otherwise the result and the C string
  in \<open>out\<close> (\<open>None\<close> there: \<open>out\<close> is not written).
\<close>

definition json_pp_line_string :: "json_line option \<Rightarrow> nat \<Rightarrow> string option option" where
  "json_pp_line_string line cap =
     (case line of
        None \<Rightarrow> Some None
      | Some l \<Rightarrow>
          if cap = 0 \<or> jl_val_kind l \<noteq> VAL_STRING then Some None
          else
            let out = unescape_loop cap (string_body (jl_val l)) []
            in if length out < cap then Some (Some out) else None)"

definition json_pp_line_number :: "json_line option \<Rightarrow> dbl option option" where
  "json_pp_line_number line =
     (case line of
        None \<Rightarrow> Some None
      | Some l \<Rightarrow>
          if \<not> jl_is_numeric l then Some None
          else
            (case (if jl_val_kind l = VAL_STRING then json_pp_line_string line JSON_PP_VAL_LEN
                   else Some (Some (jl_val l))) of
               None \<Rightarrow> None
             | Some None \<Rightarrow> Some None
             | Some (Some text0) \<Rightarrow>
                 (case strtod text0 of
                    None \<Rightarrow> Some None
                  | Some (v, e) \<Rightarrow> if isfinite v then Some (Some v) else Some None)))"

definition json_pp_number_at :: "json_pp \<Rightarrow> string \<Rightarrow> dbl option option" where
  "json_pp_number_at pp dot_path =
     (case json_pp_find pp dot_path of
        Some l \<Rightarrow> json_pp_line_number (Some l)
      | None \<Rightarrow>
          if length (jp_lines pp) = 1 \<and> jl_dot_path (jp_lines pp ! 0) = []
          then json_pp_line_number (Some (jp_lines pp ! 0))
          else Some None)"

subsection \<open>Every run ends, within bounds\<close>

definition line_ok :: "json_line \<Rightarrow> bool" where
  "line_ok l \<longleftrightarrow> jl_depth l < JSON_PP_MAX_DEPTH \<and> length (jl_key l) < JSON_PP_KEY_LEN
     \<and> length (jl_sep l) < 4 \<and> length (jl_val l) < JSON_PP_VAL_LEN \<and> length (jl_trail l) < 4
     \<and> length (jl_dot_path l) < JSON_PP_PATH_LEN"

definition lines_ok :: "json_line list \<Rightarrow> bool" where
  "lines_ok ls \<longleftrightarrow> length ls \<le> JSON_PP_MAX_LINES \<and> (\<forall>l\<in>set ls. line_ok l)"

definition pp_ok :: "json_pp \<Rightarrow> bool" where
  "pp_ok pp \<longleftrightarrow> lines_ok (jp_lines pp) \<and> length (jp_path pp) < JSON_PP_PATH_LEN \<and> jp_depth pp \<le> JSON_PP_MAX_DEPTH"

text \<open>What a step of the formatter may change: the cursor only goes forward.\<close>

definition step_ok :: "json_pp \<Rightarrow> json_pp \<Rightarrow> bool" where
  "step_ok pp pp' \<longleftrightarrow> jp_src pp' = jp_src pp \<and> jp_depth pp' = jp_depth pp \<and> jp_pos pp \<le> jp_pos pp'
     \<and> jp_cache_src pp' = jp_cache_src pp \<and> jp_cache_key pp' = jp_cache_key pp
     \<and> (pp_ok pp \<longrightarrow> pp_ok pp')"

definition item_ok :: "json_pp \<Rightarrow> json_pp \<Rightarrow> bool" where
  "item_ok pp pp' \<longleftrightarrow> step_ok pp pp' \<and> jp_path pp' = jp_path pp"

lemma step_trans: "step_ok a b \<Longrightarrow> step_ok b c \<Longrightarrow> step_ok a c"
  by (auto simp: step_ok_def)

lemma item_trans: "item_ok a b \<Longrightarrow> item_ok b c \<Longrightarrow> item_ok a c"
  by (auto simp: item_ok_def intro: step_trans)

lemma item_refl [simp]: "item_ok a a"
  by (simp add: item_ok_def step_ok_def)

lemma ws_end_ge: "pos \<le> ws_end src pos"
  by (induction src pos rule: ws_end.induct) (subst ws_end.simps, auto)

lemma string_end_ge: "pos \<le> string_end src pos"
  by (induction src pos rule: string_end.induct) (subst string_end.simps, auto)

lemma atom_end_ge: "pos \<le> atom_end src pos"
  by (induction src pos rule: atom_end.induct) (subst atom_end.simps, auto)

lemma skip_ws_ok [simp, intro]: "item_ok pp (skip_ws pp)"
  by (simp add: item_ok_def step_ok_def skip_ws_def ws_end_ge pp_ok_def)

lemma pos_ok: "jp_pos pp \<le> n \<Longrightarrow> item_ok pp (pp\<lparr>jp_pos := n\<rparr>)"
  by (simp add: item_ok_def step_ok_def pp_ok_def)

lemma advance_ok [simp, intro]: "item_ok pp (advance_if c pp)"
  by (auto simp: advance_if_def intro: pos_ok)

lemma scan_string_ok: "scan_string pp n = (v, pp') \<Longrightarrow> item_ok pp pp' \<and> jp_pos pp < jp_pos pp'"
  using string_end_ge [of "jp_pos pp + 1" "jp_src pp"]
  by (auto simp: scan_string_def Let_def intro!: pos_ok)

lemma scan_atom_ok: "scan_atom pp n = (v, pp') \<Longrightarrow> item_ok pp pp'"
  using atom_end_ge [of "jp_pos pp" "jp_src pp"]
  by (auto simp: scan_atom_def Let_def intro!: pos_ok)

lemma emit_ok: "jp_depth pp < JSON_PP_MAX_DEPTH \<Longrightarrow> item_ok pp (json_pp_emit pp key v kind num)"
  by (auto simp: item_ok_def step_ok_def pp_ok_def lines_ok_def line_ok_def json_pp_emit_def length_util_str_copy)

lemma length_push_seg: "length path < 128 \<Longrightarrow> length (push_seg path seg) < 128"
  by (auto simp: push_seg_def Let_def)

lemma take_push_seg [simp]: "take (length path) (push_seg path seg) = path"
  by (simp add: push_seg_def Let_def)

lemma push_ok: "json_pp_path_push pp seg = (mark, pp') \<Longrightarrow> step_ok pp pp' \<and> mark = length (jp_path pp)
    \<and> jp_pos pp' = jp_pos pp \<and> jp_path pp' = push_seg (jp_path pp) seg"
  by (auto simp: json_pp_path_push_def step_ok_def pp_ok_def length_push_seg)

lemma comma_ok: "item_ok pp (json_pp_mark_trailing_comma pp)"
proof (cases "jp_lines pp = []")
  case False
  let ?n = "length (jp_lines pp) - 1"
  have mem: "jp_lines pp ! ?n \<in> set (jp_lines pp)" using False by simp
  have "line_ok ((jp_lines pp ! ?n)\<lparr>jl_trail := '',''\<rparr>)" if "\<forall>l\<in>set (jp_lines pp). line_ok l"
    using that mem by (simp add: line_ok_def)
  then have "pp_ok pp \<Longrightarrow> pp_ok (json_pp_mark_trailing_comma pp)"
    using False set_update_subset_insert [of "jp_lines pp" ?n "(jp_lines pp ! ?n)\<lparr>jl_trail := '',''\<rparr>"]
    by (auto simp: pp_ok_def lines_ok_def json_pp_mark_trailing_comma_def)
  then show ?thesis
    by (auto simp: item_ok_def step_ok_def json_pp_mark_trailing_comma_def)
qed (simp add: json_pp_mark_trailing_comma_def)

lemma after_item_ok:
  assumes "step_ok pp pp'" "length (jp_path pp) \<le> length (jp_path pp')" "take (length (jp_path pp)) (jp_path pp') = jp_path pp"
    and "pos_before \<le> jp_pos pp'"
  shows "item_ok pp (after_item (length (jp_path pp)) pos_before pp')"
    and "pos_before < jp_pos (after_item (length (jp_path pp)) pos_before pp')"
proof -
  let ?a = "if jp_pos pp' = pos_before then pp'\<lparr>jp_pos := jp_pos pp' + 1\<rparr> else pp'"
  let ?b = "json_pp_path_pop ?a (length (jp_path pp))"
  let ?c = "skip_ws ?b"
  let ?d = "if at_char ?c (CHR '','') then json_pp_mark_trailing_comma (?c\<lparr>jp_pos := jp_pos ?c + 1\<rparr>) else ?c"
  have r: "after_item (length (jp_path pp)) pos_before pp' = skip_ws ?d" by (simp add: after_item_def Let_def)
  have b: "item_ok pp ?b" "pos_before < jp_pos ?b"
    using assms by (auto simp: item_ok_def step_ok_def json_pp_path_pop_def pp_ok_def)
  have "item_ok ?c (?c\<lparr>jp_pos := jp_pos ?c + 1\<rparr>)" by (rule pos_ok) simp
  then have d: "item_ok ?c ?d" by (auto intro: item_trans [OF _ comma_ok])
  have c: "item_ok ?b ?c" by blast
  have bd: "item_ok ?b (skip_ws ?d)" by (rule item_trans [OF item_trans [OF c d] skip_ws_ok])
  show "item_ok pp (after_item (length (jp_path pp)) pos_before pp')"
    unfolding r by (rule item_trans [OF b(1) bd])
  have "jp_pos ?b \<le> jp_pos (skip_ws ?d)" using bd by (simp add: item_ok_def step_ok_def)
  then show "pos_before < jp_pos (after_item (length (jp_path pp)) pos_before pp')"
    unfolding r using b(2) by simp
qed

lemma member_key_ok:
  assumes "member_key pp = (key, pp')"
  shows "item_ok pp pp'"
proof -
  obtain k p1 where k: "(if jp_src pp ! jp_pos pp = CHR 0x22 then scan_string pp JSON_PP_KEY_LEN else ([], pp)) = (k, p1)"
    by fastforce
  then have "item_ok pp p1" using scan_string_ok by (auto split: if_splits)
  moreover have "pp' = skip_ws (advance_if (CHR '':'') (skip_ws p1))"
    using assms k by (simp add: member_key_def)
  ultimately show ?thesis by (auto intro: item_trans [OF _ skip_ws_ok] item_trans [OF _ advance_ok])
qed

text \<open>The fuel a value and the loop of a container need at a position.\<close>

definition value_fuel :: "json_pp \<Rightarrow> nat" where
  "value_fuel pp = max 1 (2 * (length (jp_src pp) + 1 - jp_pos pp))"

definition loop_fuel :: "json_pp \<Rightarrow> nat" where
  "loop_fuel pp = 2 * (length (jp_src pp) + 1 - jp_pos pp) + 1"

definition ends_ok :: "json_pp \<Rightarrow> json_pp option \<Rightarrow> bool" where
  "ends_ok pp r \<longleftrightarrow> (\<exists>pp'. r = Some pp' \<and> item_ok pp pp')"

lemma loop_fuel_mono: "item_ok pp pp' \<Longrightarrow> loop_fuel pp' \<le> loop_fuel pp"
  by (auto simp: item_ok_def step_ok_def loop_fuel_def)

lemma contents_ok:
  assumes "\<And>pp. loop_fuel pp \<le> fuel \<Longrightarrow> ends_ok pp (loop fuel pp)" "loop_fuel pp \<le> fuel"
  shows "ends_ok pp (map_option (advance_if c) (loop fuel (skip_ws pp)))"
proof -
  have "loop_fuel (skip_ws pp) \<le> fuel" using loop_fuel_mono [OF skip_ws_ok] assms(2) le_trans by blast
  from assms(1) [OF this] obtain p where p: "loop fuel (skip_ws pp) = Some p" "item_ok (skip_ws pp) p"
    by (auto simp: ends_ok_def)
  then show ?thesis by (auto simp: ends_ok_def intro: item_trans [OF skip_ws_ok] item_trans [OF _ advance_ok])
qed

lemma bracket_ok:
  assumes "item_ok pp0 pp" "jp_pos pp < length (jp_src pp)" "jp_depth pp < JSON_PP_MAX_DEPTH" "value_fuel pp0 \<le> Suc fuel"
    and "\<And>pp. loop_fuel pp \<le> fuel \<Longrightarrow> ends_ok pp (contents pp)"
  shows "ends_ok pp0 (case contents ((json_pp_emit pp key opn VAL_PUNCT False)
       \<lparr>jp_pos := jp_pos (json_pp_emit pp key opn VAL_PUNCT False) + 1, jp_depth := jp_depth (json_pp_emit pp key opn VAL_PUNCT False) + 1\<rparr>) of
       None \<Rightarrow> None
     | Some pp \<Rightarrow> Some (json_pp_emit (pp\<lparr>jp_depth := jp_depth pp - 1\<rparr>) [] cls VAL_PUNCT False))"
proof -
  let ?e = "json_pp_emit pp key opn VAL_PUNCT False"
  let ?p = "?e\<lparr>jp_pos := jp_pos ?e + 1, jp_depth := jp_depth ?e + 1\<rparr>"
  have e: "item_ok pp ?e" by (rule emit_ok [OF assms(3)])
  have pe: "jp_pos ?e = jp_pos pp" by (simp add: json_pp_emit_def)
  have "loop_fuel ?p \<le> fuel"
    using assms(1,2,4) e pe by (auto simp: item_ok_def step_ok_def loop_fuel_def value_fuel_def)
  from assms(5) [OF this] obtain q where q: "contents ?p = Some q" "item_ok ?p q" by (auto simp: ends_ok_def)
  have dq: "jp_depth q = jp_depth pp + 1" using q(2) e by (simp add: item_ok_def step_ok_def)
  have bk: "item_ok ?e (q\<lparr>jp_depth := jp_depth q - 1\<rparr>)"
    using q(2) e assms(3) dq by (auto simp: item_ok_def step_ok_def pp_ok_def)
  have "item_ok (q\<lparr>jp_depth := jp_depth q - 1\<rparr>) (json_pp_emit (q\<lparr>jp_depth := jp_depth q - 1\<rparr>) [] cls VAL_PUNCT False)"
    by (rule emit_ok) (use dq assms(3) in simp)
  then have "item_ok pp0 (json_pp_emit (q\<lparr>jp_depth := jp_depth q - 1\<rparr>) [] cls VAL_PUNCT False)"
    using assms(1) e bk item_trans by blast
  then show ?thesis using q(1) by (simp add: ends_ok_def)
qed


lemma loop_body_ok:
  assumes "\<And>pp key. value_fuel pp \<le> fuel \<Longrightarrow> ends_ok pp (format_value fuel pp key)"
    and "\<And>pp. loop_fuel pp \<le> fuel \<Longrightarrow> ends_ok pp (loop pp)"
    and "item_ok pp0 pp" "loop_fuel pp0 \<le> Suc fuel" "jp_pos pp0 < length (jp_src pp0)"
    and "json_pp_path_push pp seg = (mark, pp1)"
  shows "ends_ok pp0 (case format_value fuel pp1 key of
     None \<Rightarrow> None | Some pp \<Rightarrow> loop (after_item mark (jp_pos pp1) pp))"
proof -
  note p = push_ok [OF assms(6), THEN conjunct1] push_ok [OF assms(6), THEN conjunct2]
  have "value_fuel pp1 \<le> fuel"
    using assms(3-5) p by (auto simp: item_ok_def step_ok_def value_fuel_def loop_fuel_def)
  from assms(1) [OF this] obtain q where q: "format_value fuel pp1 key = Some q" "item_ok pp1 q"
    by (auto simp: ends_ok_def)
  have st: "step_ok pp q" using p(1) q(2) by (auto simp: item_ok_def intro: step_trans)
  have pa: "jp_path q = push_seg (jp_path pp) seg" using q(2) p(2) by (simp add: item_ok_def)
  have ge: "jp_pos pp1 \<le> jp_pos q" using q(2) by (simp add: item_ok_def step_ok_def)
  have "length (jp_path pp) \<le> length (jp_path q)" by (simp add: pa push_seg_def Let_def)
  note a = after_item_ok [OF st this _ ge, unfolded pa, OF take_push_seg]
  let ?r = "after_item mark (jp_pos pp1) q"
  have mark: "mark = length (jp_path pp)" using p(2) by simp
  have r: "item_ok pp0 ?r" using a(1) assms(3) mark item_trans by blast
  have "loop_fuel ?r \<le> fuel"
    using a(2) r assms(3-5) p(2) mark by (auto simp: item_ok_def step_ok_def loop_fuel_def)
  from assms(2) [OF this] show ?thesis using q(1) r by (auto simp: ends_ok_def intro: item_trans)
qed

lemma format_total:
  "(\<forall>pp key. value_fuel pp \<le> fuel \<longrightarrow> ends_ok pp (format_value fuel pp key))
   \<and> (\<forall>pp. loop_fuel pp \<le> fuel \<longrightarrow> ends_ok pp (object_loop fuel pp))
   \<and> (\<forall>pp idx. loop_fuel pp \<le> fuel \<longrightarrow> ends_ok pp (array_loop fuel idx pp))"
proof (induction fuel)
  case 0
  show ?case by (auto simp: value_fuel_def loop_fuel_def)
next
  case (Suc fuel)
  have v: "ends_ok pp (format_value fuel pp key)" if "value_fuel pp \<le> fuel" for pp key using Suc.IH that by blast
  have o: "ends_ok pp (object_loop fuel pp)" if "loop_fuel pp \<le> fuel" for pp using Suc.IH that by blast
  have a: "ends_ok pp (array_loop fuel idx pp)" if "loop_fuel pp \<le> fuel" for pp idx using Suc.IH that by blast
  have oc: "ends_ok pp (format_object_contents fuel pp)" if "loop_fuel pp \<le> fuel" for pp
    using contents_ok [of fuel object_loop, OF o that] by simp
  have ac: "ends_ok pp (format_array_contents fuel pp)" if "loop_fuel pp \<le> fuel" for pp
    using contents_ok [of fuel "\<lambda>f. array_loop f 0", OF a that] by simp
  have value_run: "ends_ok pp (format_value (Suc fuel) pp key)" if "value_fuel pp \<le> Suc fuel" for pp key
  proof -
    let ?p = "skip_ws pp"
    have i: "item_ok pp ?p" by blast
    show ?thesis
    proof (cases "jp_pos ?p \<ge> length (jp_src ?p) \<or> length (jp_lines ?p) \<ge> JSON_PP_MAX_LINES \<or> jp_depth ?p \<ge> JSON_PP_MAX_DEPTH")
      case True
      then have "format_value (Suc fuel) pp key = Some ?p" by (auto simp: Let_def)
      then show ?thesis using i by (simp add: ends_ok_def)
    next
      case False
      then have in_range: "jp_pos ?p < length (jp_src ?p)" "jp_depth ?p < JSON_PP_MAX_DEPTH"
        and go: "\<not> (jp_pos ?p \<ge> length (jp_src ?p) \<or> length (jp_lines ?p) \<ge> JSON_PP_MAX_LINES)"
          "\<not> jp_depth ?p \<ge> JSON_PP_MAX_DEPTH" by (auto simp: not_le)
      obtain s ps where s: "scan_string ?p JSON_PP_VAL_LEN = (s, ps)" by fastforce
      obtain t pt where t: "scan_atom ?p JSON_PP_VAL_LEN = (t, pt)" by fastforce
      have "item_ok pp (json_pp_emit ps key s VAL_STRING num)" for num
        using i scan_string_ok [OF s] in_range(2) by (intro item_trans [OF _ emit_ok]) (auto intro: item_trans simp: item_ok_def step_ok_def)
      moreover have "item_ok pp (json_pp_emit pt key t VAL_ATOM num)" for num
        using i scan_atom_ok [OF t] in_range(2) by (intro item_trans [OF _ emit_ok]) (auto intro: item_trans simp: item_ok_def step_ok_def)
      ultimately show ?thesis
        using bracket_ok [where contents = "format_object_contents fuel" and key = key and opn = "''{''" and cls = "''}''", OF i in_range that oc] bracket_ok [where contents = "format_array_contents fuel" and key = key and opn = "''[''" and cls = "'']''", OF i in_range that ac] s t
        unfolding format_value.simps(2) Let_def if_not_P [OF go(1)] if_not_P [OF go(2)]
        by (simp add: ends_ok_def del: format_object_contents.simps format_array_contents.simps)
    qed
  qed
  have object_run: "ends_ok pp (object_loop (Suc fuel) pp)" if "loop_fuel pp \<le> Suc fuel" for pp
  proof (cases "jp_pos pp < length (jp_src pp) \<and> jp_src pp ! jp_pos pp \<noteq> CHR ''}'' \<and> length (jp_lines pp) < JSON_PP_MAX_LINES")
    case True
    obtain key p1 where k: "member_key (skip_ws pp) = (key, p1)" by fastforce
    obtain mark p2 where p: "json_pp_path_push p1 key = (mark, p2)" by fastforce
    have "item_ok pp p1" by (rule item_trans [OF skip_ws_ok member_key_ok [OF k]])
    note run = loop_body_ok [where loop = "object_loop fuel" and key = key, OF v o this that _ p]
    show ?thesis
    proof (cases "jp_pos (skip_ws pp) \<ge> length (jp_src (skip_ws pp)) \<or> jp_src (skip_ws pp) ! jp_pos (skip_ws pp) = CHR ''}''")
      case True
      then have "object_loop (Suc fuel) pp = Some (skip_ws pp) \<or> object_loop (Suc fuel) pp = Some pp" by (auto simp: Let_def)
      then show ?thesis using skip_ws_ok by (auto simp: ends_ok_def)
    next
      case False
      have "object_loop (Suc fuel) pp = (case format_value fuel p2 key of
          None \<Rightarrow> None | Some pp \<Rightarrow> object_loop fuel (after_item mark (jp_pos p2) pp))"
        using True k p unfolding object_loop.simps(2) Let_def if_not_P [OF False] by simp
      then show ?thesis using run True by simp
    qed
  next
    case False
    then have "object_loop (Suc fuel) pp = Some pp" by (simp only: object_loop.simps(2) if_False)
    then show ?thesis by (simp add: ends_ok_def)
  qed
  have array_run: "ends_ok pp (array_loop (Suc fuel) idx pp)" if "loop_fuel pp \<le> Suc fuel" for pp idx
  proof (cases "jp_pos pp < length (jp_src pp) \<and> jp_src pp ! jp_pos pp \<noteq> CHR '']'' \<and> length (jp_lines pp) < JSON_PP_MAX_LINES")
    case True
    obtain mark p2 where p: "json_pp_path_push (skip_ws pp) (snprintf 16 (dec idx)) = (mark, p2)" by fastforce
    note run = loop_body_ok [where loop = "array_loop fuel (idx + 1)" and key = "[]", OF v a skip_ws_ok that _ p]
    show ?thesis
    proof (cases "jp_pos (skip_ws pp) \<ge> length (jp_src (skip_ws pp)) \<or> jp_src (skip_ws pp) ! jp_pos (skip_ws pp) = CHR '']''")
      case True
      then have "array_loop (Suc fuel) idx pp = Some (skip_ws pp) \<or> array_loop (Suc fuel) idx pp = Some pp" by (auto simp: Let_def)
      then show ?thesis using skip_ws_ok by (auto simp: ends_ok_def)
    next
      case False
      have "array_loop (Suc fuel) idx pp = (case format_value fuel p2 [] of
          None \<Rightarrow> None | Some pp \<Rightarrow> array_loop fuel (idx + 1) (after_item mark (jp_pos p2) pp))"
        using True p unfolding array_loop.simps(2) Let_def if_not_P [OF False] by simp
      then show ?thesis using run True by simp
    qed
  next
    case False
    then have "array_loop (Suc fuel) idx pp = Some pp" by (simp only: array_loop.simps(2) if_False)
    then show ?thesis by (simp add: ends_ok_def)
  qed
  show ?case using value_run object_run array_run by blast
qed

lemmas format_value_total = format_total [THEN conjunct1, rule_format]

lemma run_len_total:
  "\<exists>pp'. json_pp_run_len pp src n = Some pp' \<and> lines_ok (jp_lines pp') \<and> jp_depth pp' = 0 \<and> jp_path pp' = []
     \<and> jp_cache_src pp' = None \<and> jp_src pp' = []"
proof -
  let ?n = "if n > INT32_MAX then INT32_MAX else n"
  let ?p = "(json_pp_begin pp)\<lparr>jp_src := take ?n src\<rparr>"
  have "value_fuel ?p \<le> 2 * (?n + 1)" by (simp add: value_fuel_def json_pp_begin_def)
  from format_value_total [OF this, of "[]"] obtain q where q: "format_value (2 * (?n + 1)) ?p [] = Some q" "item_ok ?p q"
    by (auto simp: ends_ok_def)
  have "pp_ok ?p" by (simp add: pp_ok_def json_pp_begin_def lines_ok_def)
  then have "pp_ok q" using q(2) by (simp add: item_ok_def step_ok_def)
  moreover have "json_pp_run_len pp src n = Some (q\<lparr>jp_src := []\<rparr>)"
    using q(1) by (simp add: json_pp_run_len_def Let_def del: format_value.simps)
  ultimately show ?thesis
    using q(2) by (auto simp: pp_ok_def item_ok_def step_ok_def json_pp_begin_def)
qed




subsection \<open>The lines of a JSON text\<close>

text \<open>
  A JSON text with the white space between its tokens. A string and a key are given by the bytes
  between their quotes.
\<close>

datatype jtext = JAtom string | JString string | JArr string jitems | JObj string jmembers
  and jitems = INil | ICons string jtext string jitems
  and jmembers = MNil | MCons string string string string jtext string jmembers

definition quote :: "string \<Rightarrow> string" where
  "quote s = CHR 0x22 # s @ [CHR 0x22]"

primrec jtext_str :: "jtext \<Rightarrow> string" and items_str :: "jitems \<Rightarrow> string" and members_str :: "jmembers \<Rightarrow> string" where
  "jtext_str (JAtom t) = t"
| "jtext_str (JString s) = quote s"
| "jtext_str (JArr w is) = ''['' @ w @ items_str is @ '']''"
| "jtext_str (JObj w ms) = ''{'' @ w @ members_str ms @ ''}''"
| "items_str INil = []"
| "items_str (ICons a v b is) = a @ jtext_str v @ b @ (if is = INil then [] else CHR '','' # items_str is)"
| "members_str MNil = []"
| "members_str (MCons a key b c v d ms) =
     a @ quote key @ b @ '':'' @ c @ jtext_str v @ d @ (if ms = MNil then [] else CHR '','' # members_str ms)"

definition mkline :: "nat \<Rightarrow> string \<Rightarrow> string \<Rightarrow> string \<Rightarrow> json_val_kind \<Rightarrow> string \<Rightarrow> bool \<Rightarrow> json_line" where
  "mkline d key v tr kind path num = \<lparr>jl_depth = d, jl_key = key, jl_sep = (if key \<noteq> [] then '': '' else []),
     jl_val = v, jl_trail = tr, jl_val_kind = kind, jl_dot_path = path, jl_is_numeric = num\<rparr>"

definition index_seg :: "nat \<Rightarrow> string" where
  "index_seg i = snprintf 16 (dec i)"

primrec jlines :: "jtext \<Rightarrow> nat \<Rightarrow> string \<Rightarrow> string \<Rightarrow> string \<Rightarrow> json_line list"
  and ilines :: "jitems \<Rightarrow> nat \<Rightarrow> string \<Rightarrow> nat \<Rightarrow> json_line list"
  and mlines :: "jmembers \<Rightarrow> nat \<Rightarrow> string \<Rightarrow> json_line list" where
  "jlines (JAtom t) d key path tr = [mkline d key t tr VAL_ATOM path (atom_is_numeric t)]"
| "jlines (JString s) d key path tr = [mkline d key (quote s) tr VAL_STRING path (json_pp_quoted_is_numeric (quote s))]"
| "jlines (JArr w is) d key path tr =
     mkline d key ''['' [] VAL_PUNCT path False # ilines is (d + 1) path 0 @ [mkline d [] '']'' tr VAL_PUNCT path False]"
| "jlines (JObj w ms) d key path tr =
     mkline d key ''{'' [] VAL_PUNCT path False # mlines ms (d + 1) path @ [mkline d [] ''}'' tr VAL_PUNCT path False]"
| "ilines INil d path i = []"
| "ilines (ICons a v b is) d path i =
     jlines v d [] (push_seg path (index_seg i)) (if is = INil then [] else '','') @ ilines is d path (i + 1)"
| "mlines MNil d path = []"
| "mlines (MCons a key b c v e ms) d path =
     jlines v d key (push_seg path key) (if ms = MNil then [] else '','') @ mlines ms d path"

text \<open>Every quote in the body of a string is escaped, and no escape is cut off by its end.\<close>

fun body_ok :: "string \<Rightarrow> bool" where
  "body_ok [] = True"
| "body_ok [c] = (c \<noteq> CHR 0x5C \<and> c \<noteq> CHR 0x22)"
| "body_ok (c # e # s) = (if c = CHR 0x5C then body_ok s else c \<noteq> CHR 0x22 \<and> body_ok (e # s))"

abbreviation blank :: "string \<Rightarrow> bool" where
  "blank w \<equiv> \<forall>c\<in>set w. json_ws c"

text \<open>The text respects the JSON grammar and the formatter's limits at depth \<open>d\<close>.\<close>

primrec json_fits :: "jtext \<Rightarrow> nat \<Rightarrow> bool" and items_fit :: "jitems \<Rightarrow> nat \<Rightarrow> bool" and members_fit :: "jmembers \<Rightarrow> nat \<Rightarrow> bool" where
  "json_fits (JAtom t) d = (d < 64 \<and> t \<noteq> [] \<and> hd t \<noteq> CHR 0x22 \<and> (\<forall>c\<in>set t. \<not> atom_stop c) \<and> is_cstr t \<and> length t < 272)"
| "json_fits (JString s) d = (d < 64 \<and> body_ok s \<and> is_cstr s \<and> length s < 270)"
| "json_fits (JArr w is) d = (d < 64 \<and> blank w \<and> items_fit is (d + 1))"
| "json_fits (JObj w ms) d = (d < 64 \<and> blank w \<and> members_fit ms (d + 1))"
| "items_fit INil d = True"
| "items_fit (ICons a v b is) d = (blank a \<and> blank b \<and> json_fits v d \<and> items_fit is d)"
| "members_fit MNil d = True"
| "members_fit (MCons a key b c v e ms) d = (blank a \<and> blank b \<and> blank c \<and> blank e \<and> body_ok key \<and> is_cstr key
     \<and> length key < 126 \<and> json_fits v d \<and> members_fit ms d)"

definition unread :: "json_pp \<Rightarrow> string" where
  "unread pp = drop (jp_pos pp) (jp_src pp)"

text \<open>The formatter with \<open>r\<close> left to read.\<close>

definition left :: "json_pp \<Rightarrow> string \<Rightarrow> json_pp" where
  "left pp r = pp\<lparr>jp_pos := length (jp_src pp) - length r\<rparr>"

lemma left_unread [simp]: "jp_pos pp \<le> length (jp_src pp) \<Longrightarrow> left pp (unread pp) = pp"
  by (simp add: left_def unread_def)

lemma unread_left [simp]: "suffix r (jp_src pp) \<Longrightarrow> unread (left pp r) = r"
  by (auto simp: left_def unread_def suffix_def)

lemma left_fields [simp]:
  "jp_src (left pp r) = jp_src pp" "jp_lines (left pp r) = jp_lines pp" "jp_depth (left pp r) = jp_depth pp"
  "jp_path (left pp r) = jp_path pp" "jp_pos (left pp r) = length (jp_src pp) - length r"
  by (simp_all add: left_def)

lemma suffix_unread: "suffix (unread pp) (jp_src pp)"
  by (simp add: unread_def suffix_drop)

lemma unread_nth:
  assumes "unread pp = c # r"
  shows "jp_pos pp < length (jp_src pp)" "jp_src pp ! jp_pos pp = c" "unread (pp\<lparr>jp_pos := jp_pos pp + 1\<rparr>) = r"
    "pp\<lparr>jp_pos := jp_pos pp + 1\<rparr> = left pp r" "suffix r (jp_src pp)"
proof -
  show lt: "jp_pos pp < length (jp_src pp)"
    using assms by (metis drop_all list.distinct(1) not_less unread_def)
  then have d: "drop (jp_pos pp) (jp_src pp) = jp_src pp ! jp_pos pp # drop (Suc (jp_pos pp)) (jp_src pp)"
    by (rule Cons_nth_drop_Suc [symmetric])
  show "jp_src pp ! jp_pos pp = c" "unread (pp\<lparr>jp_pos := jp_pos pp + 1\<rparr>) = r"
    using assms d by (simp_all add: unread_def)
  then have r: "r = drop (Suc (jp_pos pp)) (jp_src pp)" by (simp add: unread_def)
  show "pp\<lparr>jp_pos := jp_pos pp + 1\<rparr> = left pp r" using lt by (simp add: left_def r)
  show "suffix r (jp_src pp)" by (simp add: r suffix_drop)
qed

lemma ws_end_drop: "pos \<le> length src \<Longrightarrow> ws_end src pos = length src - length (dropWhile json_ws (drop pos src))"
proof (induction src pos rule: ws_end.induct)
  case (1 src pos)
  then show ?case
    by (cases "pos < length src"; subst ws_end.simps) (auto simp flip: Cons_nth_drop_Suc)
qed

lemma skip_ws_left: "jp_pos pp \<le> length (jp_src pp) \<Longrightarrow> skip_ws pp = left pp (dropWhile json_ws (unread pp))"
  by (simp add: skip_ws_def left_def unread_def ws_end_drop)

lemma atom_end_drop:
  "pos \<le> length src \<Longrightarrow> atom_end src pos = length src - length (dropWhile (\<lambda>c. \<not> atom_stop c) (drop pos src))"
proof (induction src pos rule: atom_end.induct)
  case (1 src pos)
  then show ?case
    by (cases "pos < length src"; subst atom_end.simps) (auto simp flip: Cons_nth_drop_Suc)
qed

lemma string_end_drop:
  assumes "pos \<le> length src" "drop pos src = body @ CHR 0x22 # r" "body_ok body"
  shows "string_end src pos = length src - length r"
  using assms
proof (induction body arbitrary: pos rule: body_ok.induct)
  case 1
  then have "pos < length src" by (cases "pos < length src") auto
  then have "src ! pos = CHR 0x22 \<and> drop (Suc pos) src = r" using 1 by (metis append_Nil Cons_nth_drop_Suc list.inject)
  then show ?case using \<open>pos < length src\<close> by (subst string_end.simps) auto
next
  case (2 c)
  then have lt: "pos < length src" by (cases "pos < length src") auto
  then have d: "src ! pos = c" "drop (Suc pos) src = CHR 0x22 # r"
    using 2 by (metis append_Cons append_Nil Cons_nth_drop_Suc list.inject)+
  then have lt': "Suc pos < length src" by (cases "Suc pos < length src") auto
  then have "src ! Suc pos = CHR 0x22 \<and> drop (Suc (Suc pos)) src = r" using d by (metis Cons_nth_drop_Suc list.inject)
  then show ?case
    using d lt lt' 2 by (subst string_end.simps, subst (2) string_end.simps) auto
next
  case (3 c e s)
  then have lt: "pos < length src" by (cases "pos < length src") auto
  then have d: "src ! pos = c" "drop (Suc pos) src = e # s @ CHR 0x22 # r"
    using 3 by (metis append_Cons Cons_nth_drop_Suc list.inject)+
  then have lt': "Suc pos < length src" by (cases "Suc pos < length src") auto
  then have d': "drop (Suc (Suc pos)) src = s @ CHR 0x22 # r" using d by (metis Cons_nth_drop_Suc list.inject)
  show ?case
  proof (cases "c = CHR 0x5C")
    case True
    then show ?thesis using "3.IH"(1) [of "Suc (Suc pos)"] 3 d d' lt lt' by (subst string_end.simps) auto
  next
    case False
    then show ?thesis using "3.IH"(2) [of "Suc pos"] 3 d lt lt' by (subst string_end.simps) auto
  qed
qed


lemma unread_le: "unread pp \<noteq> [] \<Longrightarrow> jp_pos pp < length (jp_src pp)"
  by (metis drop_all not_less unread_def)

lemma pos_unread: "jp_pos pp \<le> length (jp_src pp) \<Longrightarrow> jp_pos pp = length (jp_src pp) - length (unread pp)"
  by (simp add: unread_def)

lemma suffix_append_unread: "unread pp = s @ r \<Longrightarrow> suffix r (jp_src pp)"
  using suffix_unread [of pp] by (auto simp: suffix_def)

lemma copy_unread:
  assumes "unread pp = s @ r" "jp_pos pp \<le> length (jp_src pp)" "length s < n" "is_cstr s"
  shows "copy_token (jp_src pp) (jp_pos pp) (length (jp_src pp) - length r) n = s"
proof -
  have "length (jp_src pp) - length r - jp_pos pp = length s"
    using assms(1,2) by (metis add_diff_cancel_right' diff_commute length_append length_drop unread_def)
  then show ?thesis using assms by (simp add: copy_token_def Let_def cstr_simps flip: unread_def)
qed

lemma length_quote [simp]: "length (quote s) = length s + 2"
  by (simp add: quote_def)

lemma is_cstr_quote [simp]: "is_cstr (quote s) = is_cstr s"
  by (simp add: quote_def nul_def)

lemma scan_string_unread:
  assumes "unread pp = quote s @ r" "body_ok s" "is_cstr s" "length s + 2 < n"
  shows "scan_string pp n = (quote s, left pp r)"
proof -
  have u: "unread pp = CHR 0x22 # s @ CHR 0x22 # r" using assms(1) by (simp add: quote_def)
  note n = unread_nth [OF u]
  have "string_end (jp_src pp) (jp_pos pp + 1) = length (jp_src pp) - length r"
    by (rule string_end_drop [OF _ _ assms(2)]) (use n in \<open>simp_all add: unread_def\<close>)
  then show ?thesis
    using copy_unread [OF assms(1)] n(1) assms(3,4) by (simp add: scan_string_def Let_def left_def)
qed

lemma scan_atom_unread:
  assumes "unread pp = t @ r" "\<forall>c\<in>set t. \<not> atom_stop c" "r = [] \<or> atom_stop (hd r)" "is_cstr t" "length t < n"
    and "jp_pos pp \<le> length (jp_src pp)"
  shows "scan_atom pp n = (t, left pp r)"
proof -
  have "dropWhile (\<lambda>c. \<not> atom_stop c) (unread pp) = r"
    unfolding assms(1) using assms(2,3) by (cases r) (auto simp: dropWhile_append)
  then have "atom_end (jp_src pp) (jp_pos pp) = length (jp_src pp) - length r"
    using atom_end_drop [OF assms(6)] by (simp add: unread_def)
  then show ?thesis using copy_unread [OF assms(1,6)] assms by (simp add: scan_atom_def Let_def left_def)
qed

lemma emit_line:
  assumes "length (jp_lines pp) < 2048" "length key < 128" "length v < 272" "length (jp_path pp) < 128"
  shows "json_pp_emit pp key v kind num
     = pp\<lparr>jp_lines := jp_lines pp @ [mkline (jp_depth pp) key v [] kind (jp_path pp) num]\<rparr>"
  using assms by (simp add: json_pp_emit_def mkline_def)

lemma jlines_trail:
  "jlines v d key path [] \<noteq> [] \<and> jlines v d key path tr
     = butlast (jlines v d key path []) @ [(last (jlines v d key path []))\<lparr>jl_trail := tr\<rparr>]"
  by (cases v) (simp_all add: mkline_def butlast_append)

lemma mark_comma:
  assumes "jp_lines pp = ls @ jlines v d key path []"
  shows "json_pp_mark_trailing_comma pp = pp\<lparr>jp_lines := ls @ jlines v d key path '',''\<rparr>"
proof -
  obtain xs x where x: "jlines v d key path [] = xs @ [x]" using jlines_trail by (metis rev_exhaust)
  then have "jlines v d key path '','' = xs @ [x\<lparr>jl_trail := '',''\<rparr>]" using jlines_trail [of v d key path "'',''"] by simp
  then show ?thesis using assms x by (simp add: json_pp_mark_trailing_comma_def nth_append list_update_append)
qed

lemma blank_dropWhile [simp]: "blank w \<Longrightarrow> dropWhile json_ws (w @ s) = dropWhile json_ws s"
  by (induction w) auto

lemma not_ws [simp]: "\<not> json_ws (CHR 0x22)" "\<not> json_ws (CHR ''['')" "\<not> json_ws (CHR '']'')" "\<not> json_ws (CHR ''{'')"
  "\<not> json_ws (CHR ''}'')" "\<not> json_ws (CHR '','')" "\<not> json_ws (CHR '':'')"
  by (simp_all add: json_ws_def)

lemma ws_stop [simp]: "json_ws c \<Longrightarrow> atom_stop c" "atom_stop (CHR '']'')" "atom_stop (CHR ''}'')" "atom_stop (CHR '','')"
  by (simp_all add: atom_stop_def)

lemma jtext_start:
  assumes "json_fits v d"
  shows "jtext_str v \<noteq> []" "\<not> json_ws (hd (jtext_str v))" "hd (jtext_str v) \<noteq> CHR '']''" "hd (jtext_str v) \<noteq> CHR ''}''"
    "dropWhile json_ws (jtext_str v @ s) = jtext_str v @ s"
proof -
  have "jtext_str v \<noteq> [] \<and> \<not> json_ws (hd (jtext_str v)) \<and> hd (jtext_str v) \<noteq> CHR '']'' \<and> hd (jtext_str v) \<noteq> CHR ''}''"
  proof (cases v)
    case (JAtom t)
    then have "\<not> atom_stop (hd t)" "t \<noteq> []" using assms by simp_all
    then show ?thesis by (auto simp: JAtom atom_stop_def)
  qed (simp_all add: quote_def)
  then show "jtext_str v \<noteq> []" "\<not> json_ws (hd (jtext_str v))" "hd (jtext_str v) \<noteq> CHR '']''" "hd (jtext_str v) \<noteq> CHR ''}''"
    "dropWhile json_ws (jtext_str v @ s) = jtext_str v @ s"
    by (auto simp: neq_Nil_conv)
qed

lemma after_item_comma:
  assumes "unread pp = b @ CHR '','' # x" "blank b" "jp_pos pp \<noteq> before" "jp_pos pp \<le> length (jp_src pp)"
    and "jp_lines pp = ls @ jlines v d key path []"
  shows "after_item mark before pp = left (pp\<lparr>jp_path := take mark (jp_path pp),
     jp_lines := ls @ jlines v d key path '',''\<rparr>) (dropWhile json_ws x)"
proof -
  let ?p = "pp\<lparr>jp_path := take mark (jp_path pp)\<rparr>"
  have "unread ?p = unread pp" by (simp add: unread_def)
  then have s: "skip_ws ?p = left ?p (CHR '','' # x)" using skip_ws_left [of ?p] assms(1,2,4) by simp
  have suf: "suffix (CHR '','' # x) (jp_src pp)" by (rule suffix_append_unread [OF assms(1)])
  then have u: "unread (left ?p (CHR '','' # x)) = CHR '','' # x" by simp
  note n = unread_nth [OF u]
  let ?q = "left (pp\<lparr>jp_path := take mark (jp_path pp), jp_lines := ls @ jlines v d key path '',''\<rparr>) x"
  have c: "json_pp_mark_trailing_comma (left (left ?p (CHR '','' # x)) x) = ?q"
    using mark_comma [of "left (left ?p (CHR '','' # x)) x" ls v d key path] assms(5) by (simp add: left_def)
  have "suffix x (jp_src pp)" using n(5) by simp
  then have "unread ?q = x" "jp_pos ?q \<le> length (jp_src ?q)" by simp_all
  then have w: "skip_ws ?q = left ?q (dropWhile json_ws x)" using skip_ws_left [of ?q] by simp
  have "after_item mark before pp = skip_ws (json_pp_mark_trailing_comma ((left ?p (CHR '','' # x))\<lparr>jp_pos := jp_pos (left ?p (CHR '','' # x)) + 1\<rparr>))"
    using assms(3) s n(1,2) by (simp add: after_item_def json_pp_path_pop_def)
  then show ?thesis unfolding n(4) c w by (simp add: left_def)
qed

lemma after_item_end:
  assumes "unread pp = b @ c # x" "blank b" "jp_pos pp \<noteq> before" "jp_pos pp \<le> length (jp_src pp)"
    and "\<not> json_ws c" "c \<noteq> CHR '',''"
  shows "after_item mark before pp = left (pp\<lparr>jp_path := take mark (jp_path pp)\<rparr>) (c # x)"
proof -
  let ?p = "pp\<lparr>jp_path := take mark (jp_path pp)\<rparr>"
  have "unread ?p = unread pp" by (simp add: unread_def)
  then have s: "skip_ws ?p = left ?p (c # x)" using skip_ws_left [of ?p] assms(1,2,4,5) by simp
  have suf: "suffix (c # x) (jp_src pp)" by (rule suffix_append_unread [OF assms(1)])
  then have u: "unread (left ?p (c # x)) = c # x" by simp
  have w: "skip_ws (left ?p (c # x)) = left ?p (c # x)"
    using skip_ws_left [of "left ?p (c # x)"] u assms(5) by (simp add: left_def)
  show ?thesis
    using assms(3,6) s w unread_nth(2) [OF u] by (simp add: after_item_def json_pp_path_pop_def)
qed


lemma fuel_unread:
  "jp_pos pp \<le> length (jp_src pp) \<Longrightarrow> value_fuel pp = 2 * (length (unread pp) + 1)"
  "jp_pos pp \<le> length (jp_src pp) \<Longrightarrow> loop_fuel pp = 2 * (length (unread pp) + 1) + 1"
  by (simp_all add: value_fuel_def loop_fuel_def unread_def)

lemma unread_other [simp]: "unread (pp\<lparr>jp_lines := ls\<rparr>) = unread pp" "unread (pp\<lparr>jp_path := p\<rparr>) = unread pp"
  "unread (pp\<lparr>jp_depth := d\<rparr>) = unread pp"
  by (simp_all add: unread_def)

lemma skip_ws_id: "jp_pos pp \<le> length (jp_src pp) \<Longrightarrow> unread pp = c # r \<Longrightarrow> \<not> json_ws c \<Longrightarrow> skip_ws pp = pp"
  using skip_ws_left [of pp] left_unread [of pp] by simp

lemma suffix_dropWhile_unread: "suffix (dropWhile P (unread pp)) (jp_src pp)"
  using suffix_unread [of pp] by (meson suffix_dropWhile suffix_order.trans)

definition value_reads :: "jtext \<Rightarrow> bool" where
  "value_reads v \<longleftrightarrow> (\<forall>fuel pp key r. value_fuel pp \<le> fuel \<and> jp_pos pp \<le> length (jp_src pp)
     \<and> dropWhile json_ws (unread pp) = jtext_str v @ r \<and> json_fits v (jp_depth pp) \<and> (r = [] \<or> atom_stop (hd r))
     \<and> length (jp_lines pp) + length (jlines v (jp_depth pp) key (jp_path pp) []) \<le> 2048
     \<and> length key < 128 \<and> length (jp_path pp) < 128 \<longrightarrow>
     format_value fuel pp key = Some ((left pp r)\<lparr>jp_lines := jp_lines pp @ jlines v (jp_depth pp) key (jp_path pp) []\<rparr>))"

definition items_read :: "jitems \<Rightarrow> bool" where
  "items_read is \<longleftrightarrow> (\<forall>fuel pp i r. loop_fuel pp \<le> fuel \<and> jp_pos pp \<le> length (jp_src pp)
     \<and> unread pp = dropWhile json_ws (items_str is @ CHR '']'' # r) \<and> items_fit is (jp_depth pp)
     \<and> length (jp_lines pp) + length (ilines is (jp_depth pp) (jp_path pp) i) < 2048 \<and> length (jp_path pp) < 128 \<longrightarrow>
     array_loop fuel i pp = Some ((left pp (CHR '']'' # r))\<lparr>jp_lines := jp_lines pp @ ilines is (jp_depth pp) (jp_path pp) i\<rparr>))"

definition members_read :: "jmembers \<Rightarrow> bool" where
  "members_read ms \<longleftrightarrow> (\<forall>fuel pp r. loop_fuel pp \<le> fuel \<and> jp_pos pp \<le> length (jp_src pp)
     \<and> unread pp = dropWhile json_ws (members_str ms @ CHR ''}'' # r) \<and> members_fit ms (jp_depth pp)
     \<and> length (jp_lines pp) + length (mlines ms (jp_depth pp) (jp_path pp)) < 2048 \<and> length (jp_path pp) < 128 \<longrightarrow>
     object_loop fuel pp = Some ((left pp (CHR ''}'' # r))\<lparr>jp_lines := jp_lines pp @ mlines ms (jp_depth pp) (jp_path pp)\<rparr>))"

lemma value_readsD:
  assumes "value_reads v" "value_fuel pp \<le> fuel" "jp_pos pp \<le> length (jp_src pp)"
    "dropWhile json_ws (unread pp) = jtext_str v @ r" "json_fits v (jp_depth pp)" "r = [] \<or> atom_stop (hd r)"
    "length (jp_lines pp) + length (jlines v (jp_depth pp) key (jp_path pp) []) \<le> 2048"
    "length key < 128" "length (jp_path pp) < 128"
  shows "format_value fuel pp key = Some ((left pp r)\<lparr>jp_lines := jp_lines pp @ jlines v (jp_depth pp) key (jp_path pp) []\<rparr>)"
  using assms(1) [unfolded value_reads_def, rule_format, of pp fuel r key] assms(2-) by blast

lemma length_jlines: "length (jlines v d key path tr) = length (jlines v d key path [])"
  by (cases v) simp_all

text \<open>The start of a value: what the branches of \<open>format_value\<close> see.\<close>

lemma format_value_start:
  assumes "value_fuel pp \<le> fuel" "jp_pos pp \<le> length (jp_src pp)" "dropWhile json_ws (unread pp) = c # s"
    and "length (jp_lines pp) < 2048" "jp_depth pp < 64"
  obtains f where "fuel = Suc f" "skip_ws pp = left pp (c # s)" "unread (left pp (c # s)) = c # s"
    "\<not> (jp_pos (left pp (c # s)) \<ge> length (jp_src (left pp (c # s))) \<or> length (jp_lines (left pp (c # s))) \<ge> JSON_PP_MAX_LINES)"
    "\<not> jp_depth (left pp (c # s)) \<ge> JSON_PP_MAX_DEPTH"
    "jp_src (left pp (c # s)) ! jp_pos (left pp (c # s)) = c"
    "suffix (c # s) (jp_src pp)" "2 * (length s + 2) \<le> Suc f"
proof -
  have len: "length (c # s) \<le> length (unread pp)" using assms(3) length_dropWhile_le by metis
  then have fu: "2 * (length s + 2) \<le> fuel" using assms(1) fuel_unread(1) [OF assms(2)] by simp
  then obtain f where f: "fuel = Suc f" by (cases fuel) auto
  have suf: "suffix (c # s) (jp_src pp)" using suffix_dropWhile_unread [of json_ws pp] assms(3) by simp
  then have u: "unread (left pp (c # s)) = c # s" by simp
  note n = unread_nth [OF u]
  show thesis
    by (rule that [OF f]) (use skip_ws_left [OF assms(2)] assms(3-5) u n suf f fu in \<open>simp_all\<close>)
qed

lemma atom_reads: "value_reads (JAtom t)"
  unfolding value_reads_def
proof (intro allI impI; elim conjE)
  fix fuel pp key r
  assume a: "value_fuel pp \<le> fuel" "jp_pos pp \<le> length (jp_src pp)" "dropWhile json_ws (unread pp) = jtext_str (JAtom t) @ r"
    "json_fits (JAtom t) (jp_depth pp)" "r = [] \<or> atom_stop (hd r)"
    "length (jp_lines pp) + length (jlines (JAtom t) (jp_depth pp) key (jp_path pp) []) \<le> 2048"
    "length key < 128" "length (jp_path pp) < 128"
  obtain c t' where t: "t = c # t'" using a(4) by (cases t) auto
  have "dropWhile json_ws (unread pp) = c # (t' @ r)" using a(3) t by simp
  moreover have "length (jp_lines pp) < 2048" "jp_depth pp < 64" using a(4,6) by simp_all
  ultimately obtain f where f: "fuel = Suc f" "skip_ws pp = left pp (c # (t' @ r))" "unread (left pp (c # (t' @ r))) = c # (t' @ r)"
    "\<not> (jp_pos (left pp (c # (t' @ r))) \<ge> length (jp_src (left pp (c # (t' @ r)))) \<or> length (jp_lines (left pp (c # (t' @ r)))) \<ge> JSON_PP_MAX_LINES)"
    "\<not> jp_depth (left pp (c # (t' @ r))) \<ge> JSON_PP_MAX_DEPTH"
    "jp_src (left pp (c # (t' @ r))) ! jp_pos (left pp (c # (t' @ r))) = c"
    by (rule format_value_start [OF a(1,2)])
  let ?p = "left pp (c # (t' @ r))"
  have c: "c \<noteq> CHR ''{''" "c \<noteq> CHR ''[''" "c \<noteq> CHR 0x22" using a(4) t by (auto simp: atom_stop_def)
  have "scan_atom ?p JSON_PP_VAL_LEN = (t, left ?p r)"
    by (rule scan_atom_unread) (use a(4,5) f(3) t in simp_all)
  moreover have "json_pp_emit (left ?p r) key t VAL_ATOM num
      = (left ?p r)\<lparr>jp_lines := jp_lines pp @ [mkline (jp_depth pp) key t [] VAL_ATOM (jp_path pp) num]\<rparr>" for num
    using emit_line [of "left ?p r" key t VAL_ATOM num] a(4,6-8) by simp
  moreover have "format_value fuel pp key = (let (v, pp) = scan_atom ?p JSON_PP_VAL_LEN
      in Some (json_pp_emit pp key v VAL_ATOM (atom_is_numeric v)))"
    unfolding f(1) format_value.simps(2) Let_def f(2) if_not_P [OF f(4)] if_not_P [OF f(5)] f(6)
    by (simp only: if_not_P c if_False)
  ultimately show "format_value fuel pp key
      = Some ((left pp r)\<lparr>jp_lines := jp_lines pp @ jlines (JAtom t) (jp_depth pp) key (jp_path pp) []\<rparr>)"
    by (simp add: left_def)
qed


lemma string_reads: "value_reads (JString s)"
  unfolding value_reads_def
proof (intro allI impI; elim conjE)
  fix fuel pp key r
  assume a: "value_fuel pp \<le> fuel" "jp_pos pp \<le> length (jp_src pp)" "dropWhile json_ws (unread pp) = jtext_str (JString s) @ r"
    "json_fits (JString s) (jp_depth pp)" "r = [] \<or> atom_stop (hd r)"
    "length (jp_lines pp) + length (jlines (JString s) (jp_depth pp) key (jp_path pp) []) \<le> 2048"
    "length key < 128" "length (jp_path pp) < 128"
  let ?s = "s @ CHR 0x22 # r"
  have "dropWhile json_ws (unread pp) = CHR 0x22 # ?s" using a(3) by (simp add: quote_def)
  moreover have "length (jp_lines pp) < 2048" "jp_depth pp < 64" using a(4,6) by simp_all
  ultimately obtain f where f: "fuel = Suc f" "skip_ws pp = left pp (CHR 0x22 # ?s)" "unread (left pp (CHR 0x22 # ?s)) = CHR 0x22 # ?s"
    "\<not> (jp_pos (left pp (CHR 0x22 # ?s)) \<ge> length (jp_src (left pp (CHR 0x22 # ?s))) \<or> length (jp_lines (left pp (CHR 0x22 # ?s))) \<ge> JSON_PP_MAX_LINES)"
    "\<not> jp_depth (left pp (CHR 0x22 # ?s)) \<ge> JSON_PP_MAX_DEPTH"
    "jp_src (left pp (CHR 0x22 # ?s)) ! jp_pos (left pp (CHR 0x22 # ?s)) = CHR 0x22"
    by (rule format_value_start [OF a(1,2)])
  let ?p = "left pp (CHR 0x22 # ?s)"
  have "scan_string ?p JSON_PP_VAL_LEN = (quote s, left ?p r)"
    by (rule scan_string_unread) (use a(4) f(3) in \<open>simp_all add: quote_def\<close>)
  moreover have "json_pp_emit (left ?p r) key (quote s) VAL_STRING num
      = (left ?p r)\<lparr>jp_lines := jp_lines pp @ [mkline (jp_depth pp) key (quote s) [] VAL_STRING (jp_path pp) num]\<rparr>" for num
    using emit_line [of "left ?p r" key "quote s" VAL_STRING num] a(4,6-8) by simp
  moreover have "format_value fuel pp key = (let (v, pp) = scan_string ?p JSON_PP_VAL_LEN
      in Some (json_pp_emit pp key v VAL_STRING (json_pp_quoted_is_numeric v)))"
    unfolding f(1) format_value.simps(2) Let_def f(2) if_not_P [OF f(4)] if_not_P [OF f(5)] f(6) by simp
  ultimately show "format_value fuel pp key
      = Some ((left pp r)\<lparr>jp_lines := jp_lines pp @ jlines (JString s) (jp_depth pp) key (jp_path pp) []\<rparr>)"
    by (simp add: left_def)
qed

text \<open>Both containers: an opening line, the contents one level deeper, a closing line.\<close>

lemma container_reads:
  assumes "unread p = c # b @ cl # r" "jp_pos p \<le> length (jp_src p)"
    and "length (jp_lines p) + length ls + 2 \<le> 2048" "length key < 128" "length (jp_path p) < 128"
    and run: "\<And>q. unread q = dropWhile json_ws (b @ cl # r) \<Longrightarrow> jp_pos q \<le> length (jp_src q) \<Longrightarrow> jp_depth q = jp_depth p + 1
      \<Longrightarrow> jp_path q = jp_path p \<Longrightarrow> jp_lines q = jp_lines p @ [mkline (jp_depth p) key [c] [] VAL_PUNCT (jp_path p) False]
      \<Longrightarrow> loop q = Some ((left q (cl # r))\<lparr>jp_lines := jp_lines q @ ls\<rparr>)"
    and contents: "\<And>q. contents q = map_option (advance_if cl) (loop (skip_ws q))"
  shows "(case contents ((json_pp_emit p key [c] VAL_PUNCT False)
            \<lparr>jp_pos := jp_pos (json_pp_emit p key [c] VAL_PUNCT False) + 1, jp_depth := jp_depth (json_pp_emit p key [c] VAL_PUNCT False) + 1\<rparr>) of
            None \<Rightarrow> None
          | Some pp \<Rightarrow> Some (json_pp_emit (pp\<lparr>jp_depth := jp_depth pp - 1\<rparr>) [] [cl] VAL_PUNCT False))
       = Some ((left p r)\<lparr>jp_lines := jp_lines p @ mkline (jp_depth p) key [c] [] VAL_PUNCT (jp_path p) False # ls
            @ [mkline (jp_depth p) [] [cl] [] VAL_PUNCT (jp_path p) False]\<rparr>)"
proof -
  let ?l = "mkline (jp_depth p) key [c] [] VAL_PUNCT (jp_path p) False"
  let ?e = "json_pp_emit p key [c] VAL_PUNCT False"
  have e: "?e = p\<lparr>jp_lines := jp_lines p @ [?l]\<rparr>" by (rule emit_line) (use assms in simp_all)
  note n = unread_nth [OF assms(1)]
  let ?q = "?e\<lparr>jp_pos := jp_pos ?e + 1, jp_depth := jp_depth ?e + 1\<rparr>"
  have uq: "unread ?q = b @ cl # r" "jp_pos ?q \<le> length (jp_src ?q)" using n(1,3) by (simp_all add: e unread_def)
  note ws = skip_ws_left [OF uq(2)]
  let ?q' = "left ?q (dropWhile json_ws (b @ cl # r))"
  have q': "skip_ws ?q = ?q'" using ws uq(1) by simp
  have suf: "suffix (dropWhile json_ws (b @ cl # r)) (jp_src ?q)"
    using suffix_dropWhile_unread [of json_ws ?q] uq(1) by simp
  have l: "loop ?q' = Some ((left ?q' (cl # r))\<lparr>jp_lines := jp_lines ?q' @ ls\<rparr>)"
    by (rule run) (use suf in \<open>simp_all add: e\<close>)
  let ?z = "(left ?q' (cl # r))\<lparr>jp_lines := jp_lines ?q' @ ls\<rparr>"
  have "suffix (cl # r) (jp_src p)" using assms(1) suffix_append_unread [of p "c # b"] by simp
  then have uz: "unread ?z = cl # r" by (simp add: e)
  have adv: "advance_if cl ?z = left ?z r" using unread_nth [OF uz] by (simp add: advance_if_def)
  have "json_pp_emit ((left ?z r)\<lparr>jp_depth := jp_depth (left ?z r) - 1\<rparr>) [] [cl] VAL_PUNCT False
      = (left ?z r)\<lparr>jp_depth := jp_depth (left ?z r) - 1, jp_lines := jp_lines ?z @ [mkline (jp_depth p) [] [cl] [] VAL_PUNCT (jp_path p) False]\<rparr>"
    using emit_line [of "(left ?z r)\<lparr>jp_depth := jp_depth (left ?z r) - 1\<rparr>" "[]" "[cl]" VAL_PUNCT False] assms(3,5)
    by (simp add: e)
  then show ?thesis using q' l adv by (simp add: contents e left_def)
qed

lemma array_reads:
  assumes "items_read is"
  shows "value_reads (JArr w is)"
  unfolding value_reads_def
proof (intro allI impI; elim conjE)
  fix fuel pp key r
  assume a: "value_fuel pp \<le> fuel" "jp_pos pp \<le> length (jp_src pp)" "dropWhile json_ws (unread pp) = jtext_str (JArr w is) @ r"
    "json_fits (JArr w is) (jp_depth pp)" "r = [] \<or> atom_stop (hd r)"
    "length (jp_lines pp) + length (jlines (JArr w is) (jp_depth pp) key (jp_path pp) []) \<le> 2048"
    "length key < 128" "length (jp_path pp) < 128"
  let ?s = "(w @ items_str is) @ CHR '']'' # r"
  have "dropWhile json_ws (unread pp) = CHR ''['' # ?s" using a(3) by simp
  moreover have "length (jp_lines pp) < 2048" "jp_depth pp < 64" using a(4,6) by simp_all
  ultimately obtain f where f: "fuel = Suc f" "skip_ws pp = left pp (CHR ''['' # ?s)" "unread (left pp (CHR ''['' # ?s)) = CHR ''['' # ?s"
    "\<not> (jp_pos (left pp (CHR ''['' # ?s)) \<ge> length (jp_src (left pp (CHR ''['' # ?s))) \<or> length (jp_lines (left pp (CHR ''['' # ?s))) \<ge> JSON_PP_MAX_LINES)"
    "\<not> jp_depth (left pp (CHR ''['' # ?s)) \<ge> JSON_PP_MAX_DEPTH"
    "jp_src (left pp (CHR ''['' # ?s)) ! jp_pos (left pp (CHR ''['' # ?s)) = CHR ''[''"
    "suffix (CHR ''['' # ?s) (jp_src pp)" "2 * (length ?s + 2) \<le> Suc f"
    by (rule format_value_start [OF a(1,2)])
  let ?p = "left pp (CHR ''['' # ?s)"
  let ?ls = "ilines is (jp_depth pp + 1) (jp_path pp) 0"
  have loop: "array_loop f 0 q = Some ((left q (CHR '']'' # r))\<lparr>jp_lines := jp_lines q @ ?ls\<rparr>)"
    if q: "unread q = dropWhile json_ws ?s" "jp_pos q \<le> length (jp_src q)" "jp_depth q = jp_depth ?p + 1"
      "jp_path q = jp_path ?p" "jp_lines q = jp_lines ?p @ [mkline (jp_depth ?p) key ''['' [] VAL_PUNCT (jp_path ?p) False]" for q
  proof -
    have "length (unread q) \<le> length ?s" using q(1) length_dropWhile_le by metis
    then have "loop_fuel q \<le> f" using f(8) fuel_unread(2) [OF q(2)] by simp
    moreover have "unread q = dropWhile json_ws (items_str is @ CHR '']'' # r)" using q(1) a(4) by simp
    ultimately show ?thesis
      using assms [unfolded items_read_def, rule_format, of q f r 0] q a(4,6,8) by simp
  qed
  have pp: "jp_pos ?p \<le> length (jp_src ?p)" by simp
  have "format_value fuel pp key = (case format_array_contents f ((json_pp_emit ?p key ''['' VAL_PUNCT False)
        \<lparr>jp_pos := jp_pos (json_pp_emit ?p key ''['' VAL_PUNCT False) + 1,
         jp_depth := jp_depth (json_pp_emit ?p key ''['' VAL_PUNCT False) + 1\<rparr>) of
        None \<Rightarrow> None | Some pp \<Rightarrow> Some (json_pp_emit (pp\<lparr>jp_depth := jp_depth pp - 1\<rparr>) [] '']'' VAL_PUNCT False))"
    unfolding f(1) format_value.simps(2) Let_def f(2) if_not_P [OF f(4)] if_not_P [OF f(5)] f(6) by simp
  also have "\<dots> = Some ((left ?p r)\<lparr>jp_lines := jp_lines ?p @ mkline (jp_depth ?p) key ''['' [] VAL_PUNCT (jp_path ?p) False # ?ls
            @ [mkline (jp_depth ?p) [] '']'' [] VAL_PUNCT (jp_path ?p) False]\<rparr>)"
    by (rule container_reads [where loop = "array_loop f 0", OF f(3) pp _ a(7) _ loop]) (use a(6,8) in simp_all)
  finally show "format_value fuel pp key
      = Some ((left pp r)\<lparr>jp_lines := jp_lines pp @ jlines (JArr w is) (jp_depth pp) key (jp_path pp) []\<rparr>)"
    by (simp add: left_def)
qed

lemma object_reads:
  assumes "members_read ms"
  shows "value_reads (JObj w ms)"
  unfolding value_reads_def
proof (intro allI impI; elim conjE)
  fix fuel pp key r
  assume a: "value_fuel pp \<le> fuel" "jp_pos pp \<le> length (jp_src pp)" "dropWhile json_ws (unread pp) = jtext_str (JObj w ms) @ r"
    "json_fits (JObj w ms) (jp_depth pp)" "r = [] \<or> atom_stop (hd r)"
    "length (jp_lines pp) + length (jlines (JObj w ms) (jp_depth pp) key (jp_path pp) []) \<le> 2048"
    "length key < 128" "length (jp_path pp) < 128"
  let ?s = "(w @ members_str ms) @ CHR ''}'' # r"
  have "dropWhile json_ws (unread pp) = CHR ''{'' # ?s" using a(3) by simp
  moreover have "length (jp_lines pp) < 2048" "jp_depth pp < 64" using a(4,6) by simp_all
  ultimately obtain f where f: "fuel = Suc f" "skip_ws pp = left pp (CHR ''{'' # ?s)" "unread (left pp (CHR ''{'' # ?s)) = CHR ''{'' # ?s"
    "\<not> (jp_pos (left pp (CHR ''{'' # ?s)) \<ge> length (jp_src (left pp (CHR ''{'' # ?s))) \<or> length (jp_lines (left pp (CHR ''{'' # ?s))) \<ge> JSON_PP_MAX_LINES)"
    "\<not> jp_depth (left pp (CHR ''{'' # ?s)) \<ge> JSON_PP_MAX_DEPTH"
    "jp_src (left pp (CHR ''{'' # ?s)) ! jp_pos (left pp (CHR ''{'' # ?s)) = CHR ''{''"
    "suffix (CHR ''{'' # ?s) (jp_src pp)" "2 * (length ?s + 2) \<le> Suc f"
    by (rule format_value_start [OF a(1,2)])
  let ?p = "left pp (CHR ''{'' # ?s)"
  let ?ls = "mlines ms (jp_depth pp + 1) (jp_path pp)"
  have loop: "object_loop f q = Some ((left q (CHR ''}'' # r))\<lparr>jp_lines := jp_lines q @ ?ls\<rparr>)"
    if q: "unread q = dropWhile json_ws ?s" "jp_pos q \<le> length (jp_src q)" "jp_depth q = jp_depth ?p + 1"
      "jp_path q = jp_path ?p" "jp_lines q = jp_lines ?p @ [mkline (jp_depth ?p) key ''{'' [] VAL_PUNCT (jp_path ?p) False]" for q
  proof -
    have "length (unread q) \<le> length ?s" using q(1) length_dropWhile_le by metis
    then have "loop_fuel q \<le> f" using f(8) fuel_unread(2) [OF q(2)] by simp
    moreover have "unread q = dropWhile json_ws (members_str ms @ CHR ''}'' # r)" using q(1) a(4) by simp
    ultimately show ?thesis
      using assms [unfolded members_read_def, rule_format, of q f r] q a(4,6,8) by simp
  qed
  have pp: "jp_pos ?p \<le> length (jp_src ?p)" by simp
  have "format_value fuel pp key = (case format_object_contents f ((json_pp_emit ?p key ''{'' VAL_PUNCT False)
        \<lparr>jp_pos := jp_pos (json_pp_emit ?p key ''{'' VAL_PUNCT False) + 1,
         jp_depth := jp_depth (json_pp_emit ?p key ''{'' VAL_PUNCT False) + 1\<rparr>) of
        None \<Rightarrow> None | Some pp \<Rightarrow> Some (json_pp_emit (pp\<lparr>jp_depth := jp_depth pp - 1\<rparr>) [] ''}'' VAL_PUNCT False))"
    unfolding f(1) format_value.simps(2) Let_def f(2) if_not_P [OF f(4)] if_not_P [OF f(5)] f(6) by simp
  also have "\<dots> = Some ((left ?p r)\<lparr>jp_lines := jp_lines ?p @ mkline (jp_depth ?p) key ''{'' [] VAL_PUNCT (jp_path ?p) False # ?ls
            @ [mkline (jp_depth ?p) [] ''}'' [] VAL_PUNCT (jp_path ?p) False]\<rparr>)"
    by (rule container_reads [where loop = "object_loop f", OF f(3) pp _ a(7) _ loop]) (use a(6,8) in simp_all)
  finally show "format_value fuel pp key
      = Some ((left pp r)\<lparr>jp_lines := jp_lines pp @ jlines (JObj w ms) (jp_depth pp) key (jp_path pp) []\<rparr>)"
    by (simp add: left_def)
qed


text \<open>One item or member, from its value to the start of what follows the comma.\<close>

lemma item_step:
  assumes v: "value_reads v" and u: "unread p = jtext_str v @ b @ c # x" and pos: "jp_pos p \<le> length (jp_src p)"
    and b: "blank b" and c: "c = CHR '','' \<or> c = CHR '']'' \<or> c = CHR ''}''" and fits: "json_fits v (jp_depth p)"
    and room: "length (jp_lines p) + length (jlines v (jp_depth p) key (push_seg (jp_path p) seg) []) \<le> 2048"
    and lens: "length key < 128" "length (jp_path p) < 128" and fuel: "value_fuel p \<le> fuel"
    and push: "json_pp_path_push p seg = (mark, p2)"
  shows "\<exists>q. format_value fuel p2 key = Some q \<and> after_item mark (jp_pos p2) q
    = (left p (if c = CHR '','' then dropWhile json_ws x else c # x))\<lparr>jp_lines := jp_lines p
        @ jlines v (jp_depth p) key (push_seg (jp_path p) seg) (if c = CHR '','' then '','' else [])\<rparr>"
proof -
  have p2: "p2 = p\<lparr>jp_path := push_seg (jp_path p) seg\<rparr>" and mark: "mark = length (jp_path p)"
    using push by (auto simp: json_pp_path_push_def)
  let ?ls = "jlines v (jp_depth p) key (push_seg (jp_path p) seg)"
  let ?q = "(left p2 (b @ c # x))\<lparr>jp_lines := jp_lines p2 @ ?ls []\<rparr>"
  have stop: "b @ c # x = [] \<or> atom_stop (hd (b @ c # x))" using b c by (cases b) auto
  have fu: "value_fuel p2 \<le> fuel" using fuel by (simp add: p2 value_fuel_def)
  have "dropWhile json_ws (unread p2) = jtext_str v @ b @ c # x"
    using u jtext_start(5) [OF fits] by (simp add: p2)
  note run = value_readsD [OF v fu _ this _ stop, of key]
  have q: "format_value fuel p2 key = Some ?q"
    using run pos fits room lens length_push_seg [OF lens(2)] by (simp add: p2)
  have suf: "suffix (b @ c # x) (jp_src p)" by (rule suffix_append_unread [OF u])
  then have uq: "unread ?q = b @ c # x" by (simp add: p2)
  have ne: "jp_pos ?q \<noteq> jp_pos p2"
  proof -
    have "jp_pos p = length (jp_src p) - length (unread p)" by (rule pos_unread [OF pos])
    moreover have "length (unread p) \<le> length (jp_src p)" "length (b @ c # x) < length (unread p)"
      using suffix_length_le [OF suffix_unread [of p]] jtext_start(1) [OF fits] u by simp_all
    ultimately show ?thesis by (simp add: p2)
  qed
  have le: "jp_pos ?q \<le> length (jp_src ?q)" by (simp add: p2)
  show ?thesis
  proof (cases "c = CHR '',''")
    case True
    have uc: "unread ?q = b @ CHR '','' # x" by (rule trans [OF uq]) (simp add: True)
    show ?thesis
      using after_item_comma [OF uc b ne le, of "jp_lines p" v "jp_depth p" key "push_seg (jp_path p) seg" mark] q True
      by (simp add: p2 mark left_def)
  next
    case False
    then have "\<not> json_ws c" using c by auto
    then show ?thesis
      using after_item_end [OF uq b ne le _ False, of mark] q False by (simp add: p2 mark left_def)
  qed
qed

lemma items_reads_Nil: "items_read INil"
  unfolding items_read_def
proof (intro allI impI; elim conjE)
  fix fuel pp i r
  assume a: "loop_fuel pp \<le> fuel" "jp_pos pp \<le> length (jp_src pp)" "unread pp = dropWhile json_ws (items_str INil @ CHR '']'' # r)"
  obtain f where f: "fuel = Suc f" using a(1,2) by (cases fuel) (auto simp: fuel_unread)
  have u: "unread pp = CHR '']'' # r" using a(3) by simp
  then have "left pp (CHR '']'' # r) = pp" using left_unread [OF a(2)] by simp
  then show "array_loop fuel i pp = Some ((left pp (CHR '']'' # r))\<lparr>jp_lines := jp_lines pp @ ilines INil (jp_depth pp) (jp_path pp) i\<rparr>)"
    using unread_nth(2) [OF u] f by simp
qed

lemma items_reads_Cons:
  assumes v: "value_reads v" and rest: "items_read is"
  shows "items_read (ICons a v b is)"
  unfolding items_read_def
proof (intro allI impI; elim conjE)
  fix fuel pp i r
  assume h: "loop_fuel pp \<le> fuel" "jp_pos pp \<le> length (jp_src pp)"
    "unread pp = dropWhile json_ws (items_str (ICons a v b is) @ CHR '']'' # r)"
    "items_fit (ICons a v b is) (jp_depth pp)"
    "length (jp_lines pp) + length (ilines (ICons a v b is) (jp_depth pp) (jp_path pp) i) < 2048" "length (jp_path pp) < 128"
  let ?d = "jp_depth pp" and ?P = "jp_path pp"
  let ?c = "if is = INil then CHR '']'' else CHR '',''"
  let ?x = "if is = INil then r else items_str is @ CHR '']'' # r"
  have fits: "json_fits v ?d" "blank b" "items_fit is ?d" using h(4) by simp_all
  have u: "unread pp = jtext_str v @ b @ ?c # ?x"
    using h(3,4) jtext_start(5) [OF fits(1)] by simp
  obtain ch s where cs: "jtext_str v = ch # s" "\<not> json_ws ch" "ch \<noteq> CHR '']''"
    using jtext_start [OF fits(1)] by (cases "jtext_str v") auto
  then have u': "unread pp = ch # (s @ b @ ?c # ?x)" using u by simp
  note n = unread_nth [OF u']
  have fu: "2 * (length (unread pp) + 1) + 1 \<le> fuel" using h(1) fuel_unread(2) [OF h(2)] by simp
  obtain f where f: "fuel = Suc f" "value_fuel pp \<le> f"
    using fu fuel_unread(1) [OF h(2)] by (cases fuel) auto
  obtain mark p2 where push: "json_pp_path_push pp (snprintf 16 (dec i)) = (mark, p2)" by fastforce
  let ?seg = "index_seg i"
  let ?ls = "jlines v ?d [] (push_seg ?P ?seg)"
  have room: "length (jp_lines pp) + length (?ls []) \<le> 2048"
    using h(5) length_jlines [of v ?d "[]" "push_seg ?P ?seg" "if is = INil then [] else '','' "] by simp
  have cc: "?c = CHR '','' \<or> ?c = CHR '']'' \<or> ?c = CHR ''}''" by simp
  obtain q where q: "format_value f p2 [] = Some q" "after_item mark (jp_pos p2) q
     = (left pp (if ?c = CHR '','' then dropWhile json_ws ?x else ?c # ?x))\<lparr>jp_lines := jp_lines pp
        @ ?ls (if ?c = CHR '','' then '','' else [])\<rparr>"
    using item_step [OF v u h(2) fits(2) cc fits(1) room [unfolded index_seg_def] _ h(6) f(2) push]
    unfolding index_seg_def [symmetric] by auto
  have step: "array_loop fuel i pp = array_loop f (i + 1) (after_item mark (jp_pos p2) q)"
    using n(1,2) cs skip_ws_id [OF h(2) u' cs(2)] push q(1) h(5) unfolding f(1) array_loop.simps(2) by simp
  let ?q = "after_item mark (jp_pos p2) q"
  let ?r = "dropWhile json_ws (items_str is @ CHR '']'' # r)"
  have q2: "?q = (left pp ?r)\<lparr>jp_lines := jp_lines pp @ ?ls (if is = INil then [] else '','')\<rparr>"
    using q(2) by simp
  have suf: "suffix ?r (jp_src pp)"
  proof -
    have "suffix ?r (?c # ?x)" by (simp add: suffix_ConsI suffix_dropWhile)
    moreover have "suffix (?c # ?x) (jp_src pp)" using suffix_append_unread [of pp "jtext_str v @ b"] u by simp
    ultimately show ?thesis by (rule suffix_order.trans)
  qed
  have uq: "unread ?q = ?r" "jp_pos ?q \<le> length (jp_src ?q)" using suf by (simp_all add: q2)
  have "length ?r < length (unread pp)"
  proof -
    have "length ?r \<le> length (?c # ?x)" using length_dropWhile_le [of json_ws "items_str is @ CHR '']'' # r"] by simp
    then show ?thesis using u cs(1) by simp
  qed
  then have "loop_fuel ?q \<le> f" using fuel_unread(2) [OF uq(2)] uq(1) fu f(1) by simp
  then have "array_loop f (i + 1) ?q = Some ((left ?q (CHR '']'' # r))\<lparr>jp_lines := jp_lines ?q @ ilines is (jp_depth ?q) (jp_path ?q) (i + 1)\<rparr>)"
    by (intro rest [unfolded items_read_def, rule_format] conjI) (use uq fits(3) h(5,6) in \<open>simp_all add: q2\<close>)
  then show "array_loop fuel i pp = Some ((left pp (CHR '']'' # r))
      \<lparr>jp_lines := jp_lines pp @ ilines (ICons a v b is) (jp_depth pp) (jp_path pp) i\<rparr>)"
    unfolding step by (simp add: q2 left_def)
qed


lemma strip_quote [simp]: "strip_quotes (quote s) = s"
  by (simp add: strip_quotes_def quoted_def quote_def)

lemma skip_to:
  assumes "unread p = w @ s" "blank w" "s = c # s'" "\<not> json_ws c" "jp_pos p \<le> length (jp_src p)"
  shows "skip_ws p = left p s"
  using skip_ws_left [OF assms(5)] assms(1-4) by simp

lemma member_key_unread:
  assumes u: "unread p = quote key @ b @ CHR '':'' # w @ s" and ok: "blank b" "blank w" "body_ok key" "is_cstr key" "length key < 126"
    and s: "s = c # s'" "\<not> json_ws c"
  shows "member_key p = (key, left p s)"
proof -
  have u1: "unread p = CHR 0x22 # (key @ [CHR 0x22] @ b @ CHR '':'' # w @ s)" using u by (simp add: quote_def)
  note n = unread_nth [OF u1]
  let ?r1 = "b @ CHR '':'' # w @ s"
  have scan: "scan_string p JSON_PP_KEY_LEN = (quote key, left p ?r1)"
    by (rule scan_string_unread [OF u ok(3,4)]) (use ok(5) in simp)
  have suf: "suffix ?r1 (jp_src p)" by (rule suffix_append_unread [OF u])
  then have p1: "unread (left p ?r1) = b @ CHR '':'' # w @ s" "jp_pos (left p ?r1) \<le> length (jp_src (left p ?r1))" by simp_all
  have s1: "skip_ws (left p ?r1) = left p (CHR '':'' # w @ s)"
    using skip_to [OF p1(1) ok(1) refl _ p1(2)] by (simp add: left_def)
  have "suffix (CHR '':'' # w @ s) ?r1" by (rule suffixI [of _ b]) simp
  then have suf2: "suffix (CHR '':'' # w @ s) (jp_src p)" using suf suffix_order.trans by blast
  then have u2: "unread (left p (CHR '':'' # w @ s)) = CHR '':'' # (w @ s)" by simp
  note n2 = unread_nth [OF u2]
  have s2: "advance_if (CHR '':'') (left p (CHR '':'' # w @ s)) = left p (w @ s)"
    using n2(1,2,4) by (simp add: advance_if_def left_def)
  have p3: "unread (left p (w @ s)) = w @ s" using n2(5) by simp
  have s3: "skip_ws (left p (w @ s)) = left p s"
    using skip_to [OF p3 ok(2) s] by (simp add: left_def)
  show ?thesis using n(2) scan s1 s2 s3 by (simp add: member_key_def)
qed

lemma members_reads_Nil: "members_read MNil"
  unfolding members_read_def
proof (intro allI impI; elim conjE)
  fix fuel pp r
  assume a: "loop_fuel pp \<le> fuel" "jp_pos pp \<le> length (jp_src pp)" "unread pp = dropWhile json_ws (members_str MNil @ CHR ''}'' # r)"
  obtain f where f: "fuel = Suc f" using a(1,2) by (cases fuel) (auto simp: fuel_unread)
  have u: "unread pp = CHR ''}'' # r" using a(3) by simp
  then have "left pp (CHR ''}'' # r) = pp" using left_unread [OF a(2)] by simp
  then show "object_loop fuel pp = Some ((left pp (CHR ''}'' # r))\<lparr>jp_lines := jp_lines pp @ mlines MNil (jp_depth pp) (jp_path pp)\<rparr>)"
    using unread_nth(2) [OF u] f by simp
qed

lemma members_reads_Cons:
  assumes v: "value_reads v" and rest: "members_read ms"
  shows "members_read (MCons a key b w v e ms)"
  unfolding members_read_def
proof (intro allI impI; elim conjE)
  fix fuel pp r
  assume h: "loop_fuel pp \<le> fuel" "jp_pos pp \<le> length (jp_src pp)"
    "unread pp = dropWhile json_ws (members_str (MCons a key b w v e ms) @ CHR ''}'' # r)"
    "members_fit (MCons a key b w v e ms) (jp_depth pp)"
    "length (jp_lines pp) + length (mlines (MCons a key b w v e ms) (jp_depth pp) (jp_path pp)) < 2048" "length (jp_path pp) < 128"
  let ?d = "jp_depth pp" and ?P = "jp_path pp"
  let ?c = "if ms = MNil then CHR ''}'' else CHR '',''"
  let ?x = "if ms = MNil then r else members_str ms @ CHR ''}'' # r"
  have fits: "json_fits v ?d" "blank b" "blank w" "blank e" "members_fit ms ?d" "body_ok key" "is_cstr key" "length key < 126"
    using h(4) by simp_all
  let ?v = "jtext_str v @ e @ ?c # ?x"
  have u: "unread pp = quote key @ b @ CHR '':'' # w @ ?v"
    using h(3,4) by (simp add: quote_def)
  have u': "unread pp = CHR 0x22 # (key @ [CHR 0x22] @ b @ CHR '':'' # w @ ?v)" using u by (simp add: quote_def)
  note n = unread_nth [OF u']
  obtain ch s where cs: "jtext_str v = ch # s" "\<not> json_ws ch"
    using jtext_start [OF fits(1)] by (cases "jtext_str v") auto
  have mk: "member_key pp = (key, left pp ?v)"
    by (rule member_key_unread [OF u fits(2,3,6,7,8), of ch "s @ e @ ?c # ?x"]) (use cs in simp_all)
  let ?p = "left pp ?v"
  have sufv: "suffix ?v (jp_src pp)" using suffix_append_unread [of pp "quote key @ b @ CHR '':'' # w"] u by simp
  then have up: "unread ?p = ?v" "jp_pos ?p \<le> length (jp_src ?p)" by simp_all
  have shorter: "length ?v < length (unread pp)" using u by simp
  have fu: "2 * (length (unread pp) + 1) + 1 \<le> fuel" using h(1) fuel_unread(2) [OF h(2)] by simp
  obtain f where f: "fuel = Suc f" using fu by (cases fuel) auto
  have fv: "value_fuel ?p \<le> f" using fuel_unread(1) [OF up(2)] up(1) shorter fu f by simp
  obtain mark p2 where push: "json_pp_path_push ?p key = (mark, p2)" by fastforce
  let ?ls = "jlines v ?d key (push_seg ?P key)"
  have room: "length (jp_lines ?p) + length (jlines v (jp_depth ?p) key (push_seg (jp_path ?p) key) []) \<le> 2048"
    using h(5) length_jlines [of v ?d key "push_seg ?P key" "if ms = MNil then [] else '','' "] by simp
  have cc: "?c = CHR '','' \<or> ?c = CHR '']'' \<or> ?c = CHR ''}''" by simp
  obtain q where q: "format_value f p2 key = Some q" "after_item mark (jp_pos p2) q
     = (left ?p (if ?c = CHR '','' then dropWhile json_ws ?x else ?c # ?x))\<lparr>jp_lines := jp_lines ?p
        @ jlines v (jp_depth ?p) key (push_seg (jp_path ?p) key) (if ?c = CHR '','' then '','' else [])\<rparr>"
    using item_step [OF v up fits(4) cc _ room _ _ fv push] fits(1,8) h(6) by auto
  have step: "object_loop fuel pp = object_loop f (after_item mark (jp_pos p2) q)"
    using n(1,2) skip_ws_id [OF h(2) u'] mk push q(1) h(5) unfolding f(1) object_loop.simps(2) by simp
  let ?q = "after_item mark (jp_pos p2) q"
  let ?r = "dropWhile json_ws (members_str ms @ CHR ''}'' # r)"
  have q2: "?q = (left pp ?r)\<lparr>jp_lines := jp_lines pp @ ?ls (if ms = MNil then [] else '','')\<rparr>"
    using q(2) by (simp add: left_def)
  have suf: "suffix ?r (jp_src pp)"
  proof -
    have "suffix ?r (?c # ?x)" by (simp add: suffix_ConsI suffix_dropWhile)
    moreover have "suffix (?c # ?x) (jp_src pp)" using suffix_append_unread [of ?p "jtext_str v @ e"] up by simp
    ultimately show ?thesis by (rule suffix_order.trans)
  qed
  have uq: "unread ?q = ?r" "jp_pos ?q \<le> length (jp_src ?q)" using suf by (simp_all add: q2)
  have "length ?r < length (unread pp)"
  proof -
    have "length ?r \<le> length (?c # ?x)" using length_dropWhile_le [of json_ws "members_str ms @ CHR ''}'' # r"] by simp
    then show ?thesis using u cs(1) by simp
  qed
  then have "loop_fuel ?q \<le> f" using fuel_unread(2) [OF uq(2)] uq(1) fu f(1) by simp
  then have "object_loop f ?q = Some ((left ?q (CHR ''}'' # r))\<lparr>jp_lines := jp_lines ?q @ mlines ms (jp_depth ?q) (jp_path ?q)\<rparr>)"
    by (intro rest [unfolded members_read_def, rule_format] conjI) (use uq fits(5) h(5,6) in \<open>simp_all add: q2\<close>)
  then show "object_loop fuel pp = Some ((left pp (CHR ''}'' # r))
      \<lparr>jp_lines := jp_lines pp @ mlines (MCons a key b w v e ms) (jp_depth pp) (jp_path pp)\<rparr>)"
    unfolding step by (simp add: q2 left_def)
qed

lemma json_reads: "value_reads v \<and> True" "items_read is" "members_read ms"
  by (induction v and "is" and ms)
    (auto intro: atom_reads string_reads array_reads object_reads items_reads_Nil items_reads_Cons members_reads_Nil members_reads_Cons)

lemma json_run_shows:
  assumes "json_fits v 0" "length (jlines v 0 [] [] []) \<le> 2048" "blank a" "blank b"
    and "length (a @ jtext_str v @ b) \<le> INT32_MAX"
  shows "\<exists>pp'. json_pp_run pp (a @ jtext_str v @ b) = Some pp' \<and> jp_lines pp' = jlines v 0 [] [] []"
proof -
  let ?s = "a @ jtext_str v @ b"
  let ?p = "(json_pp_begin pp)\<lparr>jp_src := ?s\<rparr>"
  have u: "unread ?p = ?s" by (simp add: unread_def json_pp_begin_def)
  have d: "dropWhile json_ws (unread ?p) = jtext_str v @ b"
    unfolding u using assms(3) jtext_start(5) [OF assms(1)] by simp
  have stop: "b = [] \<or> atom_stop (hd b)" using assms(4) by (cases b) auto
  have f: "value_fuel ?p \<le> 2 * (length ?s + 1)" by (simp add: value_fuel_def json_pp_begin_def)
  have "format_value (2 * (length ?s + 1)) ?p [] = Some ((left ?p b)\<lparr>jp_lines := jp_lines ?p @ jlines v (jp_depth ?p) [] (jp_path ?p) []\<rparr>)"
    by (rule value_readsD [OF json_reads(1) [THEN conjunct1] f _ d _ stop]) (use assms in \<open>simp_all add: json_pp_begin_def\<close>)
  then show ?thesis
    using assms(5) by (simp add: json_pp_run_def json_pp_run_len_def Let_def json_pp_begin_def del: format_value.simps)
qed

text \<open>
  C16. A well-formed JSON text within the formatter's limits (with any white space between its
  tokens and around it) is shown line by line as its structure says: one line for a scalar, an opening and a
  closing line around the items of a container, each item one level deeper, its key, separator,
  dot path and value as written, and a comma on the last line of every item but the last.
\<close>
theorem json_pp_run_lines:
  assumes "json_fits v 0" "length (jlines v 0 [] [] []) \<le> 2048" "blank a" "blank b"
    and "length (a @ jtext_str v @ b) \<le> INT32_MAX"
  shows "\<exists>pp'. json_pp_run pp (a @ jtext_str v @ b) = Some pp' \<and> jp_lines pp' = jlines v 0 [] [] []"
  using assms by (rule json_run_shows)

text \<open>A concrete text: \<open>{"t": [21.5, "on"]}\<close>.\<close>

definition sample_text :: jtext where
  "sample_text = JObj [] (MCons [] ''t'' [] '' '' (JArr [] (ICons [] (JAtom ''21.5'') [] (ICons '' '' (JString ''on'') [] INil))) [] MNil)"

definition sample_pp :: json_pp where
  "sample_pp = \<lparr>jp_lines = [], jp_cache_src = None, jp_cache_key = 0, jp_src = [], jp_pos = 0, jp_depth = 0, jp_path = []\<rparr>"

lemma json_pp_run_lines_witness:
  "\<exists>pp'. json_pp_run sample_pp (jtext_str sample_text @ [CHR 0x0A]) = Some pp'
     \<and> map (\<lambda>l. (jl_depth l, jl_key l, jl_val l, jl_trail l, jl_dot_path l)) (jp_lines pp')
       = [(0, '''', ''{'', '''', ''''), (1, ''t'', ''['', '''', ''t''), (2, '''', ''21.5'', '','', ''t.0''),
          (2, '''', CHR 0x22 # ''on'' @ [CHR 0x22], '''', ''t.1''), (1, '''', '']'', '''', ''t''), (0, '''', ''}'', '''', '''')]"
proof -
  have 1: "json_fits sample_text 0" by code_simp
  have 2: "length (jlines sample_text 0 [] [] []) \<le> 2048" by (simp add: sample_text_def)
  have 3: "blank [CHR 0x0A]" by code_simp
  have 4: "length ([] @ jtext_str sample_text @ [CHR 0x0A]) \<le> INT32_MAX" by (simp add: INT32_MAX_def sample_text_def quote_def)
  have ch: "char_of (48 :: nat) = CHR ''0''" "char_of (49 :: nat) = CHR ''1''" by code_simp+
  have 5: "map (\<lambda>l. (jl_depth l, jl_key l, jl_val l, jl_trail l, jl_dot_path l)) (jlines sample_text 0 [] [] [])
       = [(0, '''', ''{'', '''', ''''), (1, ''t'', ''['', '''', ''t''), (2, '''', ''21.5'', '','', ''t.0''),
          (2, '''', CHR 0x22 # ''on'' @ [CHR 0x22], '''', ''t.1''), (1, '''', '']'', '''', ''t''), (0, '''', ''}'', '''', '''')]"
    by (simp add: sample_text_def mkline_def push_seg_def index_seg_def quote_def digit_char_def dec.simps ch)
  from json_pp_run_lines [OF 1 2 _ 3 4, of sample_pp] 5 show ?thesis by force
qed


subsection \<open>String values\<close>

text \<open>The escapes the program writes: those that \<open>json_pp_line_string\<close> undoes.\<close>

definition esc :: "char \<Rightarrow> string" where
  "esc c = (if c = CHR 0x22 then [CHR 0x5C, CHR 0x22] else if c = CHR 0x5C then [CHR 0x5C, CHR 0x5C]
     else if c = CHR 0x0A then [CHR 0x5C, CHR ''n''] else if c = CHR 0x0D then [CHR 0x5C, CHR ''r'']
     else if c = CHR 0x09 then [CHR 0x5C, CHR ''t''] else [c])"

fun escape :: "string \<Rightarrow> string" where
  "escape [] = []"
| "escape (c # s) = esc c @ escape s"

definition known_escape :: "char \<Rightarrow> bool" where
  "known_escape e \<longleftrightarrow> e = CHR ''n'' \<or> e = CHR ''r'' \<or> e = CHR ''t'' \<or> e = CHR 0x22 \<or> e = CHR 0x5C \<or> e = CHR ''/''"

fun known_escapes :: "string \<Rightarrow> bool" where
  "known_escapes [] = True"
| "known_escapes [c] = True"
| "known_escapes (c # e # s) = (if c = CHR 0x5C then known_escape e \<and> known_escapes s else known_escapes (e # s))"

lemma body_ok_plain: "c \<noteq> CHR 0x5C \<Longrightarrow> c \<noteq> CHR 0x22 \<Longrightarrow> body_ok (c # s) = body_ok s"
  by (cases s) auto

lemma body_ok_escape [simp]: "body_ok (escape s)"
  by (induction s) (auto simp: esc_def body_ok_plain)

lemma is_cstr_escape [simp]: "is_cstr (escape s) = is_cstr s"
  by (induction s) (auto simp: esc_def nul_def)

lemma length_escape: "length s \<le> length (escape s) \<and> length (escape s) \<le> 2 * length s"
  by (induction s) (auto simp: esc_def)

lemma unescape_plain:
  "ch \<noteq> CHR 0x5C \<Longrightarrow> length out < cap - 1 \<Longrightarrow> unescape_loop cap (ch # p) out = unescape_loop cap p (out @ [ch])"
  by (cases p) auto

lemma unescape_full: "\<not> length out < cap - 1 \<Longrightarrow> unescape_loop cap p out = out"
  by (cases p) auto

lemma unescape_backslash:
  "length out < cap - 1 \<Longrightarrow> unescape_loop cap (CHR 0x5C # e # p) out =
     (if e = CHR ''n'' then unescape_loop cap p (out @ [CHR 0x0A])
      else if e = CHR ''r'' then unescape_loop cap p (out @ [CHR 0x0D])
      else if e = CHR ''t'' then unescape_loop cap p (out @ [CHR 0x09])
      else if e = CHR 0x22 \<or> e = CHR 0x5C \<or> e = CHR ''/'' then unescape_loop cap p (out @ [e])
      else if length out + 1 \<ge> cap - 1 then unescape_loop cap p (out @ [CHR 0x5C, CHR 0x5C])
      else unescape_loop cap p (out @ [CHR 0x5C, e]))"
  by (simp add: Let_def)

declare unescape_loop.simps(2) [simp del]

lemma unescape_escape: "unescape_loop cap (escape s) out = out @ take (cap - 1 - length out) s"
proof (induction s arbitrary: out)
  case (Cons c s)
  show ?case
  proof (cases "length out < cap - 1")
    case True
    then have "unescape_loop cap (esc c @ escape s) out = unescape_loop cap (escape s) (out @ [c])"
      by (auto simp: esc_def unescape_plain unescape_backslash)
    moreover have "cap - 1 - length out = Suc (cap - 1 - length (out @ [c]))" using True by simp
    ultimately show ?thesis using Cons.IH [of "out @ [c]"] by simp
  qed (simp add: unescape_full)
qed simp

lemma unescape_known:
  "known_escapes p \<Longrightarrow> length out < cap \<Longrightarrow> length (unescape_loop cap p out) < cap"
proof (induction p arbitrary: out rule: known_escapes.induct)
  case (2 c)
  then show ?case by (auto simp: unescape_loop.simps(2))
next
  case (3 c e s)
  show ?case
  proof (cases "length out < cap - 1")
    case True
    then have len: "length (out @ [x]) < cap" for x by simp
    show ?thesis
    proof (cases "c = CHR 0x5C")
      case bs: True
      then have "known_escape e" "known_escapes s" using "3.prems"(1) by simp_all
      then show ?thesis using "3.IH"(1) [OF bs _ len] True by (auto simp: bs unescape_backslash known_escape_def)
    next
      case False
      then show ?thesis using "3.IH"(2) [OF False _ len] "3.prems"(1) True by (simp add: unescape_plain)
    qed
  qed (use "3.prems" in \<open>simp add: unescape_full\<close>)
qed simp

lemma string_body_quote [simp]: "string_body (quote b) = b"
  by (simp add: string_body_def quote_def)

text \<open>
  C18. Reading back a string that was written with the program's own escapes gives the string, cut to
  the caller's buffer, and never writes outside of that buffer.
\<close>
theorem json_string_roundtrip:
  assumes "jl_val_kind l = VAL_STRING" "jl_val l = quote (escape s)" "0 < cap"
  shows "json_pp_line_string (Some l) cap = Some (Some (take (cap - 1) s))"
  using assms unescape_escape [of cap s "[]"] by (simp add: json_pp_line_string_def)

lemma json_string_roundtrip_witness:
  "json_pp_line_string (Some (mkline 0 ''k'' (CHR 0x22 # ''a'' @ [CHR 0x5C, CHR 0x22] @ ''b'' @ [CHR 0x22]) [] VAL_STRING [] False)) 3
     = Some (Some (''a'' @ [CHR 0x22]))"
  using json_string_roundtrip [of "mkline 0 ''k'' (CHR 0x22 # ''a'' @ [CHR 0x5C, CHR 0x22] @ ''b'' @ [CHR 0x22]) [] VAL_STRING [] False"
      "''a'' @ [CHR 0x22] @ ''b''" 3]
  by (simp add: mkline_def quote_def esc_def)

text \<open>
  C19. When an unknown escape (such as the \<open>u\<close> of a \<open>uXXXX\<close> escape) starts in the last but one byte of the
  buffer, the terminating NUL is written one byte past its end; with the known escapes only, every
  write stays inside, whatever the value is.
\<close>
theorem json_string_overflow:
  assumes "jl_val_kind l = VAL_STRING" "jl_val l = quote body"
  shows "(known_escapes body \<and> 0 < cap \<longrightarrow> (\<exists>s. json_pp_line_string (Some l) cap = Some (Some s) \<and> length s < cap))
     \<and> (body = p @ CHR 0x5C # e # rest \<and> CHR 0x5C \<notin> set p \<and> \<not> known_escape e \<and> cap = length p + 2
          \<longrightarrow> json_pp_line_string (Some l) cap = None)"
proof (intro conjI impI)
  assume a: "known_escapes body \<and> 0 < cap"
  have "length (unescape_loop cap body []) < cap" by (rule unescape_known) (use a in simp_all)
  then show "\<exists>s. json_pp_line_string (Some l) cap = Some (Some s) \<and> length s < cap"
    using assms a by (simp add: json_pp_line_string_def Let_def)
next
  assume a: "body = p @ CHR 0x5C # e # rest \<and> CHR 0x5C \<notin> set p \<and> \<not> known_escape e \<and> cap = length p + 2"
  have run: "unescape_loop cap (p @ q) out = unescape_loop cap q (out @ p)" if "CHR 0x5C \<notin> set p" "length out + length p < cap" for p q out
    using that by (induction p arbitrary: out) (auto simp: unescape_plain)
  have "unescape_loop cap body [] = unescape_loop cap (CHR 0x5C # e # rest) p"
    using run [of p "[]" "CHR 0x5C # e # rest"] a by simp
  also have "\<dots> = p @ [CHR 0x5C, CHR 0x5C]"
    using a by (simp add: unescape_backslash known_escape_def unescape_full)
  finally have "unescape_loop cap body [] = p @ [CHR 0x5C, CHR 0x5C]" .
  then show "json_pp_line_string (Some l) cap = None"
    using assms a by (simp add: json_pp_line_string_def Let_def)
qed

lemma json_string_overflow_witness:
  "json_pp_line_string (Some (mkline 0 ''k'' (quote (''ab'' @ CHR 0x5C # ''u0041'')) [] VAL_STRING [] False)) 4 = None"
  using json_string_overflow [of "mkline 0 ''k'' (quote (''ab'' @ CHR 0x5C # ''u0041'')) [] VAL_STRING [] False"
      "''ab'' @ CHR 0x5C # ''u0041''" 4 "''ab''" "CHR ''u''" "''0041''"]
  by (simp add: mkline_def known_escape_def)

end
