(* ===== verification/Cbor_PP.thy ===== *)
theory Cbor_PP
  imports Json_PP
begin

text \<open>
  \<open>src/src/model/cbor_pp.c\<close>: the strict CBOR decoder that builds the line model of
  \<open>Json_PP\<close>. The cursor is a position in the payload; a failing step has no successor state, since
  \<open>cbor_pp_run\<close> then empties the lines again. The mutual recursion of items and containers
  carries fuel, shown to suffice. A double keeps its sign bit next to its value, so that
  minus zero is printed as the C library prints it.
\<close>

definition CBOR_MAX_TAGS :: nat where [simp]: "CBOR_MAX_TAGS = 8"
definition CBOR_TAG_PREFIX_LEN :: nat where [simp]: "CBOR_TAG_PREFIX_LEN = 192"

record cbor_head =
  ch_major :: nat
  ch_info :: nat
  ch_arg :: u64
  ch_indefinite :: bool

subsection \<open>The bounded text builder\<close>

definition cbor_out_ch :: "nat \<Rightarrow> string \<Rightarrow> char \<Rightarrow> string" where
  "cbor_out_ch cap out c = (if length out + 1 < cap then out @ [c] else out)"

definition cbor_out_str :: "nat \<Rightarrow> string \<Rightarrow> string \<Rightarrow> string" where
  "cbor_out_str cap out s = foldl (cbor_out_ch cap) out s"

definition cbor_out_close :: "nat \<Rightarrow> string \<Rightarrow> char \<Rightarrow> string" where
  "cbor_out_close cap out c =
     (if length out + 1 < cap then out @ [c]
      else if cap \<ge> 2 then out[cap - 2 := c]
      else out)"

subsection \<open>Heads\<close>

unbundle bit_operations_syntax

fun read_arg :: "u8 list \<Rightarrow> nat \<Rightarrow> nat \<Rightarrow> u64 \<Rightarrow> u64 \<times> nat" where
  "read_arg src pos 0 arg = (arg, pos)"
| "read_arg src pos (Suc n) arg = read_arg src (pos + 1) n (push_bit 8 arg OR ucast (src ! pos))"

definition arg_width :: "nat \<Rightarrow> nat option" where
  "arg_width info =
     (if info = 24 then Some 1 else if info = 25 then Some 2 else if info = 26 then Some 4
      else if info = 27 then Some 8 else None)"

definition read_head :: "u8 list \<Rightarrow> nat \<Rightarrow> (cbor_head \<times> nat) option" where
  "read_head src pos0 =
     (if pos0 \<ge> length src then None
      else
        let ib = src ! pos0; pos = pos0 + 1;
            h = \<lparr>ch_major = unat (drop_bit 5 ib), ch_info = unat (ib AND 0x1F), ch_arg = 0, ch_indefinite = False\<rparr>
        in if ch_info h < 24 then Some (h\<lparr>ch_arg := word_of_nat (ch_info h)\<rparr>, pos)
           else if ch_info h = 31 then Some (h\<lparr>ch_indefinite := True\<rparr>, pos)
           else
             (case arg_width (ch_info h) of
                None \<Rightarrow> None
              | Some n \<Rightarrow>
                  if length src - pos < n then None
                  else (case read_arg src pos n 0 of (arg, pos') \<Rightarrow> Some (h\<lparr>ch_arg := arg\<rparr>, pos'))))"

subsection \<open>Floating point\<close>

text \<open>
  A binary interchange format with \<open>m\<close> mantissa bits and \<open>e\<close> exponent bits, given as the
  fields of its bit pattern: sign bit and value.
\<close>

definition ieee_value :: "nat \<Rightarrow> nat \<Rightarrow> bool \<Rightarrow> nat \<Rightarrow> nat \<Rightarrow> bool \<times> dbl" where
  "ieee_value m e sign expo mant =
     (let bias = 2 ^ (e - 1) - 1;
          sg = (\<lambda>r. if sign then - r else r)
      in (sign,
          if expo = 0 then Fin (sg (of_nat mant * exp2 (1 - int bias - int m)))
          else if expo = 2 ^ e - 1 then (if mant = 0 then Inf sign else Nan)
          else Fin (sg (of_nat (mant + 2 ^ m) * exp2 (int expo - int bias - int m)))))"

definition decode_half :: "u16 \<Rightarrow> bool \<times> dbl" where
  "decode_half half =
     (let expo = unat (drop_bit 10 half AND 0x1F);
          mant = unat (half AND 0x3FF);
          v = (if expo = 0 then Fin (of_nat mant * exp2 (- 24))
               else if expo \<noteq> 31 then Fin (of_nat (mant + 1024) * exp2 (int expo - 25))
               else if mant = 0 then Inf False else Nan)
      in if half AND 0x8000 \<noteq> 0 then (True, negate_dbl True v) else (False, v))"

definition decode_single :: "u32 \<Rightarrow> bool \<times> dbl" where
  "decode_single bits =
     ieee_value 23 8 (bit bits 31) (unat (drop_bit 23 bits AND 0xFF)) (unat (bits AND 0x7FFFFF))"

definition decode_double :: "u64 \<Rightarrow> bool \<times> dbl" where
  "decode_double bits =
     ieee_value 52 11 (bit bits 63) (unat (drop_bit 52 bits AND 0x7FF)) (unat (bits AND 0xFFFFFFFFFFFFF))"

text \<open>\<open>%.<p>g\<close> of the C library for a finite value, from its definition.\<close>

definition ndigits :: "nat \<Rightarrow> nat" where
  "ndigits n = (if n = 0 then 0 else length (dec n))"

text \<open>The decimal exponent of a positive rational.\<close>

definition log10_floor :: "rat \<Rightarrow> int" where
  "log10_floor r = (if r \<ge> 1 then int (ndigits (nat \<lfloor>r\<rfloor>)) - 1 else - int (ndigits (nat (\<lceil>1 / r\<rceil> - 1))))"

definition pow10 :: "int \<Rightarrow> rat" where
  "pow10 k = (if 0 \<le> k then 10 ^ nat k else 1 / 10 ^ nat (- k))"

text \<open>\<open>p\<close> significant digits, rounded to nearest, ties to even, and the exponent of the first.\<close>

definition sig_digits :: "nat \<Rightarrow> rat \<Rightarrow> string \<times> int" where
  "sig_digits p r =
     (if r = 0 then (replicate p (CHR ''0''), 0)
      else
        let x = log10_floor r;
            n = nat (round_even (r * pow10 (int p - 1 - x)))
        in if n = 10 ^ p then (dec (10 ^ (p - 1)), x + 1) else (dec n, x))"

definition strip_zeros :: "string \<Rightarrow> string" where
  "strip_zeros s = rev (dropWhile (\<lambda>c. c = CHR ''0'') (rev s))"

definition with_point :: "string \<Rightarrow> string \<Rightarrow> string" where
  "with_point ip fp = (let fp = strip_zeros fp in if fp = [] then ip else ip @ CHR ''.'' # fp)"

definition fmt_g :: "nat \<Rightarrow> bool \<Rightarrow> rat \<Rightarrow> string" where
  "fmt_g p sign r =
     (let (ds, x) = sig_digits p \<bar>r\<bar>;
          body =
            (if - 4 \<le> x \<and> x < int p
             then (if 0 \<le> x then with_point (take (nat x + 1) ds) (drop (nat x + 1) ds)
                   else with_point ''0'' (replicate (nat (- x) - 1) (CHR ''0'') @ ds))
             else with_point (take 1 ds) (drop 1 ds) @ ''e'' @ (if x < 0 then ''-'' else ''+'') @ pad0 2 (dec (nat \<bar>x\<bar>)))
      in (if sign then CHR ''-'' # body else body))"

definition fmt_double :: "bool \<times> dbl \<Rightarrow> nat \<Rightarrow> string" where
  "fmt_double v cap =
     (case snd v of
        Nan \<Rightarrow> util_str_copy [] cap (Some ''NaN'')
      | Inf neg \<Rightarrow> util_str_copy [] cap (Some (if neg then ''-Infinity'' else ''Infinity''))
      | Fin r \<Rightarrow>
          (let out = snprintf cap (fmt_g 15 (fst v) r);
               out = (if (case strtod out of Some (Fin q, _) \<Rightarrow> q = r | Some _ \<Rightarrow> False | None \<Rightarrow> r = 0)
                      then out else snprintf cap (fmt_g 17 (fst v) r))
           in if \<exists>c\<in>set out. c = CHR ''.'' \<or> c = CHR ''e'' \<or> c = CHR ''E'' then out
              else if length out + 2 < cap then out @ ''.0'' else out))"

subsection \<open>Scalars\<close>

text \<open>One byte of a chunk.\<close>

definition chunk_byte :: "bool \<Rightarrow> nat \<Rightarrow> string \<Rightarrow> u8 \<Rightarrow> string" where
  "chunk_byte bytes cap out c =
     (if bytes then
        cbor_out_ch cap (cbor_out_ch cap out (digit_char (unat (drop_bit 4 c)))) (digit_char (unat (c AND 15)))
      else if char_of_byte c = CHR 0x22 \<or> char_of_byte c = CHR 0x5C then
        cbor_out_ch cap (cbor_out_ch cap out (CHR 0x5C)) (char_of_byte c)
      else if char_of_byte c = CHR 0x0A then cbor_out_str cap out [CHR 0x5C, CHR ''n'']
      else if char_of_byte c = CHR 0x0D then cbor_out_str cap out [CHR 0x5C, CHR ''r'']
      else if char_of_byte c = CHR 0x09 then cbor_out_str cap out [CHR 0x5C, CHR ''t'']
      else if c < 0x20 then cbor_out_str cap out (snprintf 8 (CHR 0x5C # CHR ''u'' # pad0 4 (hex (unat c))))
      else cbor_out_ch cap out (char_of_byte c))"

definition append_chunk :: "u8 list \<Rightarrow> nat \<Rightarrow> u64 \<Rightarrow> bool \<Rightarrow> nat \<Rightarrow> string \<Rightarrow> (string \<times> nat) option" where
  "append_chunk src pos n bytes cap out =
     (if unat n > length src - pos then None
      else Some (foldl (chunk_byte bytes cap) out (take (unat n) (drop pos src)), pos + unat n))"

lemma read_arg_pos: "snd (read_arg src pos n arg) = pos + n"
  by (induction n arbitrary: pos arg) auto

lemma read_head_pos:
  assumes "read_head src pos = Some (h, pos')"
  shows "pos < pos' \<and> pos' \<le> length src"
proof -
  have lt: "pos < length src" using assms by (simp add: read_head_def split: if_splits)
  show ?thesis
  proof (cases "unat ((src ! pos) AND 0x1F) < 24 \<or> unat ((src ! pos) AND 0x1F) = 31")
    case True
    then show ?thesis using assms lt by (auto simp: read_head_def Let_def split: if_splits)
  next
    case False
    then obtain n where n: "arg_width (unat ((src ! pos) AND 0x1F)) = Some n" "\<not> length src - (pos + 1) < n"
      using assms lt by (simp add: read_head_def Let_def split: option.splits if_splits)
    then have "pos' = snd (read_arg src (pos + 1) n 0)"
      using assms lt False by (simp add: read_head_def Let_def split: prod.splits)
    then show ?thesis using lt n(2) by (simp add: read_arg_pos)
  qed
qed

lemma append_chunk_pos: "pos \<le> length src \<Longrightarrow> append_chunk src pos n bytes cap out = Some (out', pos') \<Longrightarrow> pos \<le> pos' \<and> pos' \<le> length src"
  by (auto simp: append_chunk_def split: if_splits)

function chunk_loop :: "u8 list \<Rightarrow> nat \<Rightarrow> nat \<Rightarrow> bool \<Rightarrow> nat \<Rightarrow> string \<Rightarrow> (string \<times> nat) option" where
  "chunk_loop src pos major bytes cap out =
     (case read_head src pos of
        None \<Rightarrow> None
      | Some (c, pos1) \<Rightarrow>
          if ch_major c = 7 \<and> ch_info c = 31 then Some (out, pos1)
          else if ch_major c \<noteq> major \<or> ch_indefinite c then None
          else
            (case append_chunk src pos1 (ch_arg c) bytes cap out of
               None \<Rightarrow> None
             | Some (out', pos2) \<Rightarrow> chunk_loop src pos2 major bytes cap out'))"
  by pat_completeness auto
termination
proof (relation "measure (\<lambda>(src, pos, major, bytes, cap, out). length src - pos)", goal_cases)
  case (2 src pos major bytes cap out r c pos1 r' out' pos2)
  then show ?case
    using read_head_pos [of src pos c pos1] append_chunk_pos [of pos1 src "ch_arg c" bytes cap out out' pos2]
    by (auto intro: diff_less_mono2)
qed simp

declare chunk_loop.simps [simp del]

definition append_string :: "u8 list \<Rightarrow> nat \<Rightarrow> cbor_head \<Rightarrow> nat \<Rightarrow> string \<Rightarrow> (string \<times> nat) option" where
  "append_string src pos h cap out =
     (let bytes = (ch_major h = 2) in
      if \<not> ch_indefinite h then append_chunk src pos (ch_arg h) bytes cap out
      else chunk_loop src pos (ch_major h) bytes cap out)"

text \<open>The text and whether it is numeric.\<close>

definition format_simple :: "cbor_head \<Rightarrow> nat \<Rightarrow> (string \<times> bool) option" where
  "format_simple h cap =
     (if ch_info h = 20 then Some (util_str_copy [] cap (Some ''false''), False)
      else if ch_info h = 21 then Some (util_str_copy [] cap (Some ''true''), False)
      else if ch_info h = 22 then Some (util_str_copy [] cap (Some ''null''), False)
      else if ch_info h = 23 then Some (util_str_copy [] cap (Some ''undefined''), False)
      else if ch_info h = 24 then
        (if ch_arg h < 32 then None
         else Some (snprintf cap (''simple('' @ dec (unat (ch_arg h)) @ '')''), False))
      else if ch_info h = 25 \<or> ch_info h = 26 \<or> ch_info h = 27 then
        (let v = (if ch_info h = 25 then decode_half (ucast (ch_arg h))
                  else if ch_info h = 26 then decode_single (ucast (ch_arg h))
                  else decode_double (ch_arg h))
         in Some (fmt_double v cap, isfinite (snd v)))
      else if ch_info h = 31 then None
      else Some (snprintf cap (''simple('' @ dec (ch_info h) @ '')''), False))"

definition format_scalar ::
    "u8 list \<Rightarrow> nat \<Rightarrow> cbor_head \<Rightarrow> nat \<Rightarrow> (string \<times> json_val_kind \<times> bool \<times> nat) option" where
  "format_scalar src pos h cap =
     (if ch_major h = 0 then
        (if ch_indefinite h then None
         else Some (snprintf cap (dec (unat (ch_arg h))), VAL_ATOM, True, pos))
      else if ch_major h = 1 then
        (if ch_indefinite h then None
         else if ch_arg h = - 1 then Some (util_str_copy [] cap (Some ''-18446744073709551616''), VAL_ATOM, True, pos)
         else Some (snprintf cap (CHR ''-'' # dec (unat (ch_arg h + 1))), VAL_ATOM, True, pos))
      else if ch_major h = 2 then
        (case append_string src pos h cap (cbor_out_str cap [] [CHR ''h'', CHR 0x27]) of
           None \<Rightarrow> None
         | Some (out, pos') \<Rightarrow> Some (cbor_out_close cap out (CHR 0x27), VAL_ATOM, False, pos'))
      else if ch_major h = 3 then
        (case append_string src pos h cap (cbor_out_ch cap [] (CHR 0x22)) of
           None \<Rightarrow> None
         | Some (out, pos') \<Rightarrow>
             (let v = cbor_out_close cap out (CHR 0x22)
              in Some (v, VAL_STRING, json_pp_quoted_is_numeric v, pos')))
      else if ch_major h = 7 then
        (case format_simple h cap of None \<Rightarrow> None | Some (v, numeric) \<Rightarrow> Some (v, VAL_ATOM, numeric, pos))
      else None)"

definition decode_key :: "u8 list \<Rightarrow> nat \<Rightarrow> nat \<Rightarrow> (string \<times> nat) option" where
  "decode_key src pos cap =
     (case read_head src pos of
        None \<Rightarrow> None
      | Some (h, pos1) \<Rightarrow>
          if ch_major h = 3 then append_string src pos1 h cap []
          else if ch_major h \<ge> 4 \<and> ch_major h \<le> 6 then None
          else map_option (\<lambda>(v, _, _, pos2). (v, pos2)) (format_scalar src pos1 h cap))"

subsection \<open>Items\<close>

text \<open>
  The outer option is the fuel, the inner one the result: \<open>None\<close> for a refused input, else the
  cursor and the formatter.
\<close>

type_synonym decoded = "(nat \<times> json_pp) option option"

definition and_thenD :: "decoded \<Rightarrow> (nat \<Rightarrow> json_pp \<Rightarrow> decoded) \<Rightarrow> decoded" where
  "and_thenD r f = (case r of None \<Rightarrow> None | Some None \<Rightarrow> Some None | Some (Some (pos, pp)) \<Rightarrow> f pos pp)"

text \<open>The closing line of a container, back at its own depth.\<close>

definition close_container :: "bool \<Rightarrow> nat \<Rightarrow> json_pp \<Rightarrow> json_pp" where
  "close_container is_map tags pp0 =
     (let pp = pp0\<lparr>jp_depth := jp_depth pp0 - 1\<rparr>;
          cap = CBOR_MAX_TAGS + 2;
          close = cbor_out_ch cap [] (if is_map then CHR ''}'' else CHR '']'');
          close = ((\<lambda>out. cbor_out_ch cap out (CHR '')'')) ^^ tags) close
      in json_pp_emit pp [] close VAL_PUNCT False)"

definition open_text :: "cbor_head \<Rightarrow> string \<Rightarrow> string" where
  "open_text h tag_prefix = snprintf (CBOR_TAG_PREFIX_LEN + 4)
     (tag_prefix @ (if ch_major h = 5 then ''{'' else ''['') @ (if ch_indefinite h then ''_'' else ''''))"

text \<open>The text of a scalar between the tags.\<close>

definition tagged_text :: "string \<Rightarrow> nat \<Rightarrow> string \<Rightarrow> string" where
  "tagged_text tag_prefix tags t =
     (let out = cbor_out_str JSON_PP_VAL_LEN (cbor_out_str JSON_PP_VAL_LEN [] tag_prefix) t
      in ((\<lambda>out. cbor_out_close JSON_PP_VAL_LEN out (CHR '')'')) ^^ tags) out)"

fun decode_item :: "nat \<Rightarrow> u8 list \<Rightarrow> nat \<Rightarrow> json_pp \<Rightarrow> string \<Rightarrow> string \<Rightarrow> nat \<Rightarrow> decoded"
  and container_loop :: "nat \<Rightarrow> u8 list \<Rightarrow> cbor_head \<Rightarrow> nat \<Rightarrow> nat \<Rightarrow> json_pp \<Rightarrow> decoded" where
  "decode_item 0 src pos pp key tag_prefix tags = None"
| "decode_item (Suc fuel) src pos pp key tag_prefix tags =
     (case read_head src pos of
        None \<Rightarrow> Some None
      | Some (h, pos) \<Rightarrow>
          if ch_major h = 6 then
            (if ch_indefinite h \<or> tags \<ge> CBOR_MAX_TAGS then Some None
             else decode_item fuel src pos pp key
                    (snprintf CBOR_TAG_PREFIX_LEN (tag_prefix @ dec (unat (ch_arg h)) @ ''('')) (tags + 1))
          else if ch_major h = 4 \<or> ch_major h = 5 then
            (let is_map = (ch_major h = 5) in
             if jp_depth pp + 1 \<ge> JSON_PP_MAX_DEPTH then Some None
             else
               let pp = json_pp_emit pp key (open_text h tag_prefix) VAL_PUNCT False;
                   pp = pp\<lparr>jp_depth := jp_depth pp + 1\<rparr>;
                   remaining = length src - pos
               in if \<not> ch_indefinite h \<and> unat (ch_arg h) > (if is_map then remaining div 2 else remaining) then Some None
                  else and_thenD (container_loop fuel src h 0 pos pp)
                         (\<lambda>pos pp. Some (Some (pos, close_container is_map tags pp))))
          else
            (case format_scalar src pos h JSON_PP_VAL_LEN of
               None \<Rightarrow> Some None
             | Some (t, kind, numeric, pos) \<Rightarrow>
                 Some (Some (pos, json_pp_emit pp key (tagged_text tag_prefix tags t) kind (numeric \<and> tags = 0)))))"
| "container_loop 0 src h i pos pp = None"
| "container_loop (Suc fuel) src h i pos pp0 =
     (if \<not> (ch_indefinite h \<or> i < unat (ch_arg h)) then Some (Some (pos, pp0))
      else if ch_indefinite h \<and> pos \<ge> length src then Some None
      else if ch_indefinite h \<and> src ! pos = 0xFF then Some (Some (pos + 1, pp0))
      else
        let is_map = (ch_major h = 5);
            pp = (if i > 0 then json_pp_mark_trailing_comma pp0 else pp0)
        in case (if is_map then decode_key src pos JSON_PP_KEY_LEN else Some (snprintf JSON_PP_KEY_LEN (dec i), pos)) of
             None \<Rightarrow> Some None
           | Some (seg, pos) \<Rightarrow>
               (let (mark, pp) = json_pp_path_push pp seg in
                and_thenD (decode_item fuel src pos pp (if is_map then seg else []) [] 0)
                  (\<lambda>pos pp. container_loop fuel src h (i + 1) pos (json_pp_path_pop pp mark))))"

text \<open>The result: whether the payload was accepted, and the formatter.\<close>

definition cbor_pp_run :: "json_pp \<Rightarrow> u8 list \<Rightarrow> (bool \<times> json_pp) option" where
  "cbor_pp_run pp0 src =
     (let pp = json_pp_begin pp0 in
      if length src > 0 then
        (case decode_item (2 * length src + 1) src 0 pp [] [] 0 of
           None \<Rightarrow> None
         | Some None \<Rightarrow> Some (False, json_pp_begin pp)
         | Some (Some (pos, pp')) \<Rightarrow> if pos = length src then Some (True, pp') else Some (False, json_pp_begin pp'))
      else Some (False, json_pp_begin pp))"

definition cbor_pp_run_cached :: "json_pp \<Rightarrow> nat option \<times> u8 list \<Rightarrow> u64 \<Rightarrow> (bool \<times> json_pp) option" where
  "cbor_pp_run_cached pp src key =
     (if jp_cache_src pp \<noteq> fst src \<or> jp_cache_key pp \<noteq> key then
        (case cbor_pp_run pp (snd src) of
           None \<Rightarrow> None
         | Some (_, pp') \<Rightarrow>
             (let pp' = json_pp_mark_cached pp' (fst src) key in Some (length (jp_lines pp') > 0, pp')))
      else Some (length (jp_lines pp) > 0, pp))"


subsection \<open>Every run ends, within bounds\<close>

lemma chunk_loop_pos:
  "chunk_loop src pos major bytes cap out = Some (out', pos') \<Longrightarrow> pos \<le> pos' \<and> pos' \<le> length src"
proof (induction src pos major bytes cap out rule: chunk_loop.induct)
  case (1 src pos major bytes cap out)
  obtain c p1 where h: "read_head src pos = Some (c, p1)"
    using "1.prems" by (subst (asm) chunk_loop.simps) (auto split: option.splits)
  note hp = read_head_pos [OF h]
  show ?case
  proof (cases "ch_major c = 7 \<and> ch_info c = 31")
    case True
    then show ?thesis using "1.prems" h hp by (subst (asm) chunk_loop.simps) auto
  next
    case False
    have no: "\<not> (ch_major c \<noteq> major \<or> ch_indefinite c)"
      using "1.prems" h False by (subst (asm) chunk_loop.simps) (auto split: if_splits)
    obtain o' p2 where a: "append_chunk src p1 (ch_arg c) bytes cap out = Some (o', p2)"
      using "1.prems" h False no by (subst (asm) chunk_loop.simps) (auto split: option.splits)
    have "chunk_loop src p2 major bytes cap o' = Some (out', pos')"
      using "1.prems" h False no a by (subst (asm) chunk_loop.simps) simp
    then show ?thesis
      using "1.IH" [OF h refl False no a refl] hp append_chunk_pos [OF _ a] by simp
  qed
qed

lemma append_string_pos:
  "pos \<le> length src \<Longrightarrow> append_string src pos h cap out = Some (out', pos') \<Longrightarrow> pos \<le> pos' \<and> pos' \<le> length src"
  using append_chunk_pos [of pos src "ch_arg h" "ch_major h = 2" cap out out' pos']
    chunk_loop_pos [of src pos "ch_major h" "ch_major h = 2" cap out out' pos']
  by (simp add: append_string_def Let_def split: if_splits)

lemma format_scalar_pos:
  "pos \<le> length src \<Longrightarrow> format_scalar src pos h cap = Some (t, kind, num, pos') \<Longrightarrow> pos \<le> pos' \<and> pos' \<le> length src"
  by (auto simp: format_scalar_def Let_def split: if_splits option.splits dest: append_string_pos)

lemma decode_key_pos:
  assumes "decode_key src pos cap = Some (seg, pos')"
  shows "pos < pos' \<and> pos' \<le> length src"
proof -
  obtain h p1 where h: "read_head src pos = Some (h, p1)"
    using assms by (auto simp: decode_key_def split: option.splits)
  note hp = read_head_pos [OF h]
  have "p1 \<le> pos' \<and> pos' \<le> length src"
  proof (cases "ch_major h = 3")
    case True
    then have "append_string src p1 h cap [] = Some (seg, pos')" using assms h by (simp add: decode_key_def)
    then show ?thesis using append_string_pos hp by blast
  next
    case False
    then obtain kind num where "format_scalar src p1 h cap = Some (seg, kind, num, pos')"
      using assms h by (auto simp: decode_key_def split: if_splits)
    then show ?thesis using format_scalar_pos hp by blast
  qed
  then show ?thesis using hp by simp
qed

definition decodes_ok :: "u8 list \<Rightarrow> nat \<Rightarrow> json_pp \<Rightarrow> decoded \<Rightarrow> bool" where
  "decodes_ok src pos pp r \<longleftrightarrow> (\<exists>o'. r = Some o' \<and>
     (\<forall>pos' pp'. o' = Some (pos', pp') \<longrightarrow> pos \<le> pos' \<and> pos' \<le> length src \<and> item_ok pp pp'))"

lemma decodes_None [simp]: "decodes_ok src pos pp (Some None)"
  by (simp add: decodes_ok_def)

lemma decodes_Some: "pos \<le> pos' \<Longrightarrow> pos' \<le> length src \<Longrightarrow> item_ok pp pp' \<Longrightarrow> decodes_ok src pos pp (Some (Some (pos', pp')))"
  by (simp add: decodes_ok_def)

lemma decodes_mono: "decodes_ok src pos1 pp1 r \<Longrightarrow> pos \<le> pos1 \<Longrightarrow> item_ok pp pp1 \<Longrightarrow> decodes_ok src pos pp r"
  unfolding decodes_ok_def by (blast intro: item_trans order_trans)

lemma decodes_then:
  assumes "decodes_ok src pos pp r"
    and "\<And>pos' pp'. r = Some (Some (pos', pp')) \<Longrightarrow> pos \<le> pos' \<Longrightarrow> pos' \<le> length src \<Longrightarrow> item_ok pp pp' \<Longrightarrow> decodes_ok src pos2 pp2 (f pos' pp')"
  shows "decodes_ok src pos2 pp2 (and_thenD r f)"
  using assms by (cases "the r") (auto simp: decodes_ok_def and_thenD_def split: option.splits)

lemma close_ok:
  assumes "item_ok (pp\<lparr>jp_depth := jp_depth pp + 1\<rparr>) pp'" "jp_depth pp < JSON_PP_MAX_DEPTH"
  shows "item_ok pp (close_container is_map tags pp')"
proof -
  let ?q = "pp'\<lparr>jp_depth := jp_depth pp' - 1\<rparr>"
  have d: "jp_depth ?q = jp_depth pp" using assms(1) by (simp add: item_ok_def step_ok_def)
  have "item_ok pp ?q" using assms by (auto simp: item_ok_def step_ok_def pp_ok_def)
  moreover have "item_ok ?q (json_pp_emit ?q [] t VAL_PUNCT False)" for t
    by (rule emit_ok) (use d assms(2) in simp)
  ultimately show ?thesis unfolding close_container_def Let_def by (rule item_trans)
qed

lemma pop_ok:
  assumes "json_pp_path_push pp seg = (mark, pp1)" "item_ok pp1 pp2"
  shows "item_ok pp (json_pp_path_pop pp2 mark)"
proof -
  note p = push_ok [OF assms(1)]
  have "step_ok pp pp2" using p assms(2) step_trans by (auto simp: item_ok_def)
  moreover have "jp_path pp2 = push_seg (jp_path pp) seg" using p assms(2) by (simp add: item_ok_def)
  ultimately show ?thesis using p by (auto simp: item_ok_def step_ok_def json_pp_path_pop_def pp_ok_def)
qed

lemma decode_total:
  "(\<forall>pos pp key tp tags. pos \<le> length src \<and> jp_depth pp < JSON_PP_MAX_DEPTH \<and> 2 * (length src - pos) + 1 \<le> fuel
      \<longrightarrow> decodes_ok src (if pos < length src then pos + 1 else pos) pp (decode_item fuel src pos pp key tp tags))
   \<and> (\<forall>h i pos pp. pos \<le> length src \<and> jp_depth pp < JSON_PP_MAX_DEPTH \<and> 2 * (length src - pos) + 2 \<le> fuel
      \<longrightarrow> decodes_ok src pos pp (container_loop fuel src h i pos pp))"
proof (induction fuel)
  case (Suc fuel)
  have item: "decodes_ok src (if pos < length src then pos + 1 else pos) pp (decode_item fuel src pos pp key tp tags)"
    if "pos \<le> length src" "jp_depth pp < JSON_PP_MAX_DEPTH" "2 * (length src - pos) + 1 \<le> fuel" for pos pp key tp tags
    using Suc.IH that by blast
  have loop: "decodes_ok src pos pp (container_loop fuel src h i pos pp)"
    if "pos \<le> length src" "jp_depth pp < JSON_PP_MAX_DEPTH" "2 * (length src - pos) + 2 \<le> fuel" for pos pp h i
    using Suc.IH that by blast
  have 1: "decodes_ok src (if pos < length src then pos + 1 else pos) pp (decode_item (Suc fuel) src pos pp key tp tags)"
    if a: "pos \<le> length src" "jp_depth pp < JSON_PP_MAX_DEPTH" "2 * (length src - pos) + 1 \<le> Suc fuel" for pos pp key tp tags
  proof (cases "read_head src pos")
    case (Some hp)
    obtain h p where h: "read_head src pos = Some (h, p)" using Some by (cases hp) auto
    note hp = read_head_pos [OF h]
    have lt: "(if pos < length src then pos + 1 else pos) \<le> p" using hp by simp
    show ?thesis
    proof (cases "ch_major h = 6 \<or> ch_major h = 4 \<or> ch_major h = 5")
      case False
      show ?thesis
      proof (cases "format_scalar src p h JSON_PP_VAL_LEN")
        case None
        then show ?thesis using h False by (simp add: Let_def del: JSON_PP_VAL_LEN_def)
      next
        case (Some r)
        obtain t kind num p' where f: "format_scalar src p h JSON_PP_VAL_LEN = Some (t, kind, num, p')"
          using Some by (cases r) auto
        have "p \<le> p' \<and> p' \<le> length src" using format_scalar_pos [OF _ f] hp by simp
        then have "decodes_ok src (if pos < length src then pos + 1 else pos) pp
            (Some (Some (p', json_pp_emit pp key (tagged_text tp tags t) kind (num \<and> tags = 0))))"
          using lt by (intro decodes_Some emit_ok [OF a(2)]) simp_all
        then show ?thesis using h False f by (simp add: Let_def del: JSON_PP_VAL_LEN_def)
      qed
    next
      case True
      have tag: "decodes_ok src (if pos < length src then pos + 1 else pos) pp (decode_item fuel src p pp key tp' (tags + 1))" for tp'
        by (rule decodes_mono [OF item [of p pp key tp' "tags + 1"]]) (use a hp in auto)
      let ?p1 = "json_pp_emit pp key (open_text h tp) VAL_PUNCT False"
      let ?p2 = "?p1\<lparr>jp_depth := jp_depth ?p1 + 1\<rparr>"
      have e: "item_ok pp ?p1" by (rule emit_ok [OF a(2)])
      have box: "decodes_ok src (if pos < length src then pos + 1 else pos) pp (and_thenD (container_loop fuel src h 0 p ?p2)
          (\<lambda>pos pp. Some (Some (pos, close_container m tags pp))))" if d: "\<not> jp_depth pp + 1 \<ge> JSON_PP_MAX_DEPTH" for m
      proof (rule decodes_then [OF loop [of p ?p2 h 0]])
        have de: "jp_depth ?p1 = jp_depth pp" using e by (simp add: item_ok_def step_ok_def)
        show "jp_depth ?p2 < JSON_PP_MAX_DEPTH" using d de by simp
        show "2 * (length src - p) + 2 \<le> fuel" using a(3) hp by linarith
        show "p \<le> length src" using hp by simp
        fix p' q
        assume "p \<le> p'" "p' \<le> length src" "item_ok ?p2 q"
        moreover have "jp_depth ?p1 < JSON_PP_MAX_DEPTH" using a(2) de by simp
        ultimately show "decodes_ok src (if pos < length src then pos + 1 else pos) pp (Some (Some (p', close_container m tags q)))"
          using lt by (intro decodes_Some item_trans [OF e close_ok]) simp_all
      qed
      show ?thesis using True tag box h by (auto simp: Let_def)
    qed
  qed simp
  have 2: "decodes_ok src pos pp (container_loop (Suc fuel) src h i pos pp)"
    if a: "pos \<le> length src" "jp_depth pp < JSON_PP_MAX_DEPTH" "2 * (length src - pos) + 2 \<le> Suc fuel" for h i pos pp
  proof (cases "\<not> (ch_indefinite h \<or> i < unat (ch_arg h)) \<or> (ch_indefinite h \<and> (pos \<ge> length src \<or> src ! pos = 0xFF))")
    case True
    then show ?thesis using a(1) by (auto intro!: decodes_Some)
  next
    case False
    let ?pp = "if i > 0 then json_pp_mark_trailing_comma pp else pp"
    let ?k = "if ch_major h = 5 then decode_key src pos JSON_PP_KEY_LEN else Some (snprintf JSON_PP_KEY_LEN (dec i), pos)"
    have c: "item_ok pp ?pp" using comma_ok by auto
    show ?thesis
    proof (cases ?k)
      case None
      then show ?thesis using False by (auto simp: Let_def simp del: JSON_PP_KEY_LEN_def)
    next
      case (Some sp)
      obtain seg p where k: "?k = Some (seg, p)" using Some by (cases sp) auto
      then have p: "pos \<le> p" "p \<le> length src" using decode_key_pos [of src pos JSON_PP_KEY_LEN seg p] a(1) by (auto split: if_splits)
      obtain mark p1 where push: "json_pp_path_push ?pp seg = (mark, p1)" by fastforce
      have d1: "jp_depth p1 < JSON_PP_MAX_DEPTH" using push_ok [OF push] c a(2) by (simp add: item_ok_def step_ok_def)
      let ?key = "if ch_major h = 5 then seg else []"
      have eq: "container_loop (Suc fuel) src h i pos pp = and_thenD (decode_item fuel src p p1 ?key [] 0)
          (\<lambda>pos pp. container_loop fuel src h (i + 1) pos (json_pp_path_pop pp mark))"
        using False k push by (auto simp: Let_def simp del: JSON_PP_KEY_LEN_def)
      show ?thesis
        unfolding eq
      proof (rule decodes_then [OF item [of p p1 ?key "[]" 0]])
        fix p' q
        assume q: "(if p < length src then p + 1 else p) \<le> p'" "p' \<le> length src" "item_ok p1 q"
          "decode_item fuel src p p1 ?key [] 0 = Some (Some (p', q))"
        have "p < length src"
          using q(4) a(3) by (cases fuel; cases "p < length src") (auto simp: read_head_def)
        then have "2 * (length src - p') + 2 \<le> fuel" using a(3) p q(1,2) by auto
        moreover have ok: "item_ok pp (json_pp_path_pop q mark)" by (rule item_trans [OF c pop_ok [OF push q(3)]])
        moreover have "jp_depth (json_pp_path_pop q mark) < JSON_PP_MAX_DEPTH"
          using ok a(2) by (simp add: item_ok_def step_ok_def)
        ultimately show "decodes_ok src pos pp (container_loop fuel src h (i + 1) p' (json_pp_path_pop q mark))"
          using q(1,2) p by (intro decodes_mono [OF loop]) (auto split: if_splits)
      qed (use p a d1 in auto)
    qed
  qed
  show ?case using 1 2 by blast
qed simp


lemma decode_run_total:
  "\<exists>ok pp'. cbor_pp_run pp src = Some (ok, pp') \<and> lines_ok (jp_lines pp') \<and> jp_depth pp' = 0 \<and> jp_path pp' = []
     \<and> jp_cache_src pp' = None \<and> (\<not> ok \<longrightarrow> jp_lines pp' = [])"
proof (cases "length src > 0")
  case False
  then show ?thesis by (auto simp: cbor_pp_run_def json_pp_begin_def lines_ok_def)
next
  case True
  let ?p = "json_pp_begin pp"
  have "decodes_ok src (if 0 < length src then 0 + 1 else 0) ?p (decode_item (2 * length src + 1) src 0 ?p [] [] 0)"
    by (rule decode_total [THEN conjunct1, rule_format]) (simp add: json_pp_begin_def)
  then obtain r where r: "decode_item (2 * length src + 1) src 0 ?p [] [] 0 = Some r"
    "\<And>pos' pp'. r = Some (pos', pp') \<Longrightarrow> item_ok ?p pp'" by (auto simp: decodes_ok_def)
  have ok: "pp_ok ?p" by (simp add: pp_ok_def json_pp_begin_def lines_ok_def)
  show ?thesis
  proof (cases r)
    case None
    then show ?thesis using r(1) True by (auto simp: cbor_pp_run_def json_pp_begin_def lines_ok_def simp del: decode_item.simps)
  next
    case (Some z)
    then obtain p q where z: "r = Some (p, q)" by (cases z) auto
    have "item_ok ?p q" using r(2) z by blast
    then have "pp_ok q \<and> jp_depth q = 0 \<and> jp_path q = [] \<and> jp_cache_src q = None"
      using ok by (simp add: item_ok_def step_ok_def json_pp_begin_def)
    then show ?thesis
      using r(1) True z by (auto simp: cbor_pp_run_def pp_ok_def json_pp_begin_def lines_ok_def simp del: decode_item.simps)
  qed
qed

text \<open>
  C21. Decoding ends for every payload (truncated, with absurd counts, nested without end): the
  result is a yes or a no with at most 2048 lines, each within its buffers and below depth 64; a
  refused payload leaves no line behind, and after either answer the depth and the dot path are
  those of the root.
\<close>
theorem cbor_pp_run_total:
  "\<exists>ok pp'. cbor_pp_run pp src = Some (ok, pp') \<and> lines_ok (jp_lines pp') \<and> jp_depth pp' = 0 \<and> jp_path pp' = []
     \<and> jp_cache_src pp' = None \<and> (\<not> ok \<longrightarrow> jp_lines pp' = [])"
  by (rule decode_run_total)

lemma cbor_pp_run_total_witness:
  "\<exists>pp'. cbor_pp_run sample_pp [0x9B, 1] = Some (False, pp') \<and> jp_lines pp' = []"
proof -
  have no: "read_head [0x9B, 1] 0 = None" by code_simp
  obtain ok pp' where r: "cbor_pp_run sample_pp [0x9B, 1] = Some (ok, pp')" "\<not> ok \<longrightarrow> jp_lines pp' = []"
    using cbor_pp_run_total by blast
  have "decode_item (Suc 4) [0x9B, 1] 0 (json_pp_begin sample_pp) [] [] 0 = Some None"
    unfolding decode_item.simps(2) no by simp
  then have "decode_item (2 * length [0x9B, 1 :: u8] + 1) [0x9B, 1] 0 (json_pp_begin sample_pp) [] [] 0 = Some None"
    by (simp del: decode_item.simps)
  then have "\<not> ok" using r(1) by (simp add: cbor_pp_run_def del: decode_item.simps)
  then show ?thesis using r by simp
qed

subsection \<open>Reading what an encoder writes\<close>

fun be :: "nat \<Rightarrow> nat \<Rightarrow> u8 list" where
  "be 0 v = []"
| "be (Suc n) v = be n (v div 256) @ [word_of_nat (v mod 256)]"

lemma length_be [simp]: "length (be n v) = n"
  by (induction n arbitrary: v) auto

lemma read_arg_snoc:
  "read_arg src pos (Suc n) acc =
     (push_bit 8 (fst (read_arg src pos n acc)) OR ucast (src ! (pos + n)), pos + Suc n)"
proof (induction n arbitrary: pos acc)
  case (Suc n)
  show ?case using Suc.IH [of "pos + 1"] by (simp only: read_arg.simps(2)) simp
qed simp

lemma byte_less: "unat (b :: u8) < 256"
  using unsigned_less [of b] by simp

lemma shift_in:
  assumes "unat (a :: u64) < 2 ^ 56"
  shows "unat (push_bit 8 a OR ucast (b :: u8)) = unat a * 256 + unat b"
proof -
  have "push_bit 8 a OR ucast b = push_bit 8 a + ucast b"
    by (rule disjunctive_add [symmetric]) (auto simp: bit_push_bit_iff bit_ucast_iff dest: bit_imp_le_length)
  moreover have "unat (push_bit 8 a) = unat a * 256"
    using assms by (simp add: push_bit_eq_mult unat_word_ariths)
  moreover have "unat (ucast b :: u64) = unat b" using byte_less [of b] by (simp add: unsigned_ucast_eq take_bit_eq_mod)
  moreover have "unat a * 256 + unat b < 2 ^ 64" using assms byte_less [of b] by simp
  ultimately show ?thesis by (simp add: unat_word_ariths)
qed

lemma read_arg_be:
  assumes "v < 256 ^ n" "n \<le> 8"
  shows "read_arg (pre @ be n v @ post) (length pre) n 0 = (word_of_nat v, length pre + n)"
  using assms
proof (induction n arbitrary: v post)
  case (Suc n)
  have v: "v div 256 < 256 ^ n" using Suc.prems(1) by (simp add: less_mult_imp_div_less mult.commute)
  have "read_arg (pre @ be n (v div 256) @ [word_of_nat (v mod 256)] @ post) (length pre) n 0
      = (word_of_nat (v div 256), length pre + n)" using Suc.IH [OF v] Suc.prems(2) by simp
  then have r: "fst (read_arg (pre @ be (Suc n) v @ post) (length pre) n 0) = word_of_nat (v div 256)" by simp
  have b: "(pre @ be (Suc n) v @ post) ! (length pre + n) = word_of_nat (v mod 256)" by (simp add: nth_append)
  have "(256 :: nat) ^ n \<le> 256 ^ 7" using Suc.prems(2) by (intro power_increasing) simp_all
  then have small: "v div 256 < 2 ^ 56" using v by simp
  then have u: "unat (word_of_nat (v div 256) :: u64) = v div 256" by (simp add: unat_of_nat)
  have "unat (push_bit 8 (word_of_nat (v div 256) :: u64) OR ucast (word_of_nat (v mod 256) :: u8))
      = v div 256 * 256 + v mod 256"
    using shift_in [of "word_of_nat (v div 256)" "word_of_nat (v mod 256)"] u small by (simp add: unat_of_nat)
  then have "unat (push_bit 8 (word_of_nat (v div 256) :: u64) OR ucast (word_of_nat (v mod 256) :: u8)) = v" by simp
  then have "push_bit 8 (word_of_nat (v div 256) :: u64) OR ucast (word_of_nat (v mod 256) :: u8) = word_of_nat v"
    using small by (simp add: word_eq_unat unat_of_nat div_less_iff_less_mult)
  then show ?case unfolding read_arg_snoc r b by simp
qed simp


text \<open>The shortest head of a major type and an argument.\<close>

definition enc_head :: "nat \<Rightarrow> nat \<Rightarrow> u8 list" where
  "enc_head m a =
     (if a < 24 then [word_of_nat (m * 32 + a)]
      else if a < 256 then word_of_nat (m * 32 + 24) # be 1 a
      else if a < 256 ^ 2 then word_of_nat (m * 32 + 25) # be 2 a
      else if a < 256 ^ 4 then word_of_nat (m * 32 + 26) # be 4 a
      else word_of_nat (m * 32 + 27) # be 8 a)"

lemma head_byte:
  assumes "m < 8" "info < 32"
  shows "unat (drop_bit 5 (word_of_nat (m * 32 + info) :: u8)) = m" "unat ((word_of_nat (m * 32 + info) :: u8) AND 0x1F) = info"
proof -
  have "m * 32 + info \<le> 7 * 32 + 31" using assms by (intro add_mono mult_le_mono) auto
  then have u: "unat (word_of_nat (m * 32 + info) :: u8) = m * 32 + info"
    by (simp add: unat_of_nat del: of_nat_add of_nat_mult)
  show "unat (drop_bit 5 (word_of_nat (m * 32 + info) :: u8)) = m"
    using assms by (simp add: drop_bit_eq_div unat_div u del: of_nat_add of_nat_mult)
  have "(word_of_nat (m * 32 + info) :: u8) AND 0x1F = take_bit 5 (word_of_nat (m * 32 + info))"
    by (simp add: take_bit_eq_mask mask_eq_exp_minus_1 del: of_nat_add of_nat_mult)
  then show "unat ((word_of_nat (m * 32 + info) :: u8) AND 0x1F) = info"
    using assms by (simp add: take_bit_eq_mod unat_mod u del: of_nat_add of_nat_mult)
qed

lemma read_enc_head:
  assumes "m < 8" "a < 2 ^ 64"
  shows "\<exists>info. read_head (pre @ enc_head m a @ post) (length pre) =
      Some (\<lparr>ch_major = m, ch_info = info, ch_arg = word_of_nat a, ch_indefinite = False\<rparr>, length pre + length (enc_head m a))
    \<and> (a < 24 \<longrightarrow> info = a)"
proof -
  have long: "read_head (pre @ (word_of_nat (m * 32 + info) # be n a) @ post) (length pre) =
      Some (\<lparr>ch_major = m, ch_info = info, ch_arg = word_of_nat a, ch_indefinite = False\<rparr>, length pre + Suc n)"
    if "arg_width info = Some n" "a < 256 ^ n" "n \<le> 8" for info n
  proof -
    have info: "24 \<le> info" "info < 32" "info \<noteq> 31" using that(1) by (auto simp: arg_width_def split: if_splits)
    have at: "(pre @ (word_of_nat (m * 32 + info) # be n a) @ post) ! length pre = word_of_nat (m * 32 + info)" by (simp add: nth_append)
    note hb = head_byte [OF assms(1) info(2)]
    have "read_arg (pre @ (word_of_nat (m * 32 + info) # be n a) @ post) (length pre + 1) n 0 = (word_of_nat a, length pre + 1 + n)"
      using read_arg_be [OF that(2,3), of "pre @ [word_of_nat (m * 32 + info)]" post] by simp
    then show ?thesis
      using info that(1) unfolding read_head_def Let_def at hb by (simp del: read_arg.simps)
  qed
  show ?thesis
  proof (cases "a < 24")
    case True
    have at: "(pre @ [word_of_nat (m * 32 + a)] @ post) ! length pre = word_of_nat (m * 32 + a)" by (simp add: nth_append)
    note hb = head_byte [OF assms(1), of a]
    show ?thesis using True hb at by (simp add: enc_head_def read_head_def Let_def)
  next
    case False
    then show ?thesis
      using long [of 24 1] long [of 25 2] long [of 26 4] long [of 27 8] assms(2)
      by (auto simp: enc_head_def arg_width_def simp del: be.simps)
  qed
qed

text \<open>The data items whose lines are described below; a number is an argument of at most 64 bits.\<close>

datatype ckey = KText "u8 list" | KUint nat

datatype cval = CUint nat | CNint nat | CBytes "u8 list" | CText "u8 list" | CSimple nat
  | CTag nat cval | CArr citems | CMap cpairs
  and citems = CNil | CCons cval citems
  and cpairs = PNil | PCons ckey cval cpairs

primrec item_count :: "citems \<Rightarrow> nat" where
  "item_count CNil = 0"
| "item_count (CCons v is) = Suc (item_count is)"

primrec pair_count :: "cpairs \<Rightarrow> nat" where
  "pair_count PNil = 0"
| "pair_count (PCons k v ps) = Suc (pair_count ps)"

primrec enc_key :: "ckey \<Rightarrow> u8 list" where
  "enc_key (KText bs) = enc_head 3 (length bs) @ bs"
| "enc_key (KUint n) = enc_head 0 n"

primrec enc :: "cval \<Rightarrow> u8 list" and enc_items :: "citems \<Rightarrow> u8 list" and enc_pairs :: "cpairs \<Rightarrow> u8 list" where
  "enc (CUint n) = enc_head 0 n"
| "enc (CNint n) = enc_head 1 n"
| "enc (CBytes bs) = enc_head 2 (length bs) @ bs"
| "enc (CText bs) = enc_head 3 (length bs) @ bs"
| "enc (CSimple n) = enc_head 7 n"
| "enc (CTag t v) = enc_head 6 t @ enc v"
| "enc (CArr is) = enc_head 4 (item_count is) @ enc_items is"
| "enc (CMap ps) = enc_head 5 (pair_count ps) @ enc_pairs ps"
| "enc_items CNil = []"
| "enc_items (CCons v is) = enc v @ enc_items is"
| "enc_pairs PNil = []"
| "enc_pairs (PCons k v ps) = enc_key k @ enc v @ enc_pairs ps"

definition text_byte :: "u8 \<Rightarrow> string" where
  "text_byte c =
     (let ch = char_of_byte c in
      if ch = CHR 0x22 \<or> ch = CHR 0x5C \<or> ch = CHR 0x0A \<or> ch = CHR 0x0D \<or> ch = CHR 0x09 then esc ch
      else if c < 0x20 then CHR 0x5C # CHR ''u'' # pad0 4 (hex (unat c)) else [ch])"

definition bytes_text :: "u8 list \<Rightarrow> string" where
  "bytes_text bs = concat (map (\<lambda>c. [digit_char (unat c div 16), digit_char (unat c mod 16)]) bs)"

definition utf_text :: "u8 list \<Rightarrow> string" where
  "utf_text bs = concat (map text_byte bs)"

definition simple_text :: "nat \<Rightarrow> string" where
  "simple_text n = (if n = 20 then ''false'' else if n = 21 then ''true'' else if n = 22 then ''null''
     else if n = 23 then ''undefined'' else ''simple('' @ dec n @ '')'')"

primrec key_text :: "ckey \<Rightarrow> string" where
  "key_text (KText bs) = utf_text bs"
| "key_text (KUint n) = dec n"

text \<open>A scalar's text, and the lines of an item between \<open>tags\<close> tags whose openings are \<open>tp\<close>.\<close>

definition scalar_line :: "nat \<Rightarrow> string \<Rightarrow> string \<Rightarrow> string \<Rightarrow> nat \<Rightarrow> string \<Rightarrow> json_val_kind \<Rightarrow> string \<Rightarrow> bool \<Rightarrow> json_line" where
  "scalar_line d key path tp tags tr kind t num = mkline d key (tp @ t @ replicate tags (CHR '')'')) tr kind path (num \<and> tags = 0)"

primrec clines :: "cval \<Rightarrow> nat \<Rightarrow> string \<Rightarrow> string \<Rightarrow> string \<Rightarrow> nat \<Rightarrow> string \<Rightarrow> json_line list"
  and cilines :: "citems \<Rightarrow> nat \<Rightarrow> string \<Rightarrow> nat \<Rightarrow> json_line list"
  and cplines :: "cpairs \<Rightarrow> nat \<Rightarrow> string \<Rightarrow> json_line list" where
  "clines (CUint n) d key path tp tags tr = [scalar_line d key path tp tags tr VAL_ATOM (dec n) True]"
| "clines (CNint n) d key path tp tags tr = [scalar_line d key path tp tags tr VAL_ATOM (CHR ''-'' # dec (n + 1)) True]"
| "clines (CBytes bs) d key path tp tags tr =
     [scalar_line d key path tp tags tr VAL_ATOM (CHR ''h'' # CHR 0x27 # bytes_text bs @ [CHR 0x27]) False]"
| "clines (CText bs) d key path tp tags tr =
     [scalar_line d key path tp tags tr VAL_STRING (quote (utf_text bs)) (json_pp_quoted_is_numeric (quote (utf_text bs)))]"
| "clines (CSimple n) d key path tp tags tr = [scalar_line d key path tp tags tr VAL_ATOM (simple_text n) False]"
| "clines (CTag t v) d key path tp tags tr = clines v d key path (tp @ dec t @ ''('') (tags + 1) tr"
| "clines (CArr is) d key path tp tags tr =
     mkline d key (tp @ ''['') [] VAL_PUNCT path False # cilines is (d + 1) path 0
     @ [mkline d [] (CHR '']'' # replicate tags (CHR '')'')) tr VAL_PUNCT path False]"
| "clines (CMap ps) d key path tp tags tr =
     mkline d key (tp @ ''{'') [] VAL_PUNCT path False # cplines ps (d + 1) path
     @ [mkline d [] (CHR ''}'' # replicate tags (CHR '')'')) tr VAL_PUNCT path False]"
| "cilines CNil d path i = []"
| "cilines (CCons v is) d path i =
     clines v d [] (push_seg path (snprintf 128 (dec i))) [] 0 (if is = CNil then [] else '','') @ cilines is d path (i + 1)"
| "cplines PNil d path = []"
| "cplines (PCons k v ps) d path =
     clines v d (key_text k) (push_seg path (key_text k)) [] 0 (if ps = PNil then [] else '','') @ cplines ps d path"

text \<open>The item respects the limits of the encoding, of the depth and of the line buffers.\<close>

definition text_fits :: "string \<Rightarrow> nat \<Rightarrow> string \<Rightarrow> bool" where
  "text_fits tp tags t \<longleftrightarrow> length t < 272 \<and> length tp + length t + tags < 272"

primrec key_fits :: "ckey \<Rightarrow> bool" where
  "key_fits (KText bs) = (length bs < 2 ^ 64 \<and> length (utf_text bs) < 128)"
| "key_fits (KUint n) = (n < 2 ^ 64 \<and> length (dec n) < 128)"

primrec cfits :: "cval \<Rightarrow> nat \<Rightarrow> string \<Rightarrow> nat \<Rightarrow> bool" and cfits_items :: "citems \<Rightarrow> nat \<Rightarrow> bool" and cfits_pairs :: "cpairs \<Rightarrow> nat \<Rightarrow> bool" where
  "cfits (CUint n) d tp tags = (n < 2 ^ 64 \<and> text_fits tp tags (dec n))"
| "cfits (CNint n) d tp tags = (n < 2 ^ 64 \<and> text_fits tp tags (CHR ''-'' # dec (n + 1)))"
| "cfits (CBytes bs) d tp tags = (length bs < 2 ^ 64 \<and> text_fits tp tags (CHR ''h'' # CHR 0x27 # bytes_text bs @ [CHR 0x27]))"
| "cfits (CText bs) d tp tags = (length bs < 2 ^ 64 \<and> text_fits tp tags (quote (utf_text bs)))"
| "cfits (CSimple n) d tp tags = (n < 24 \<and> text_fits tp tags (simple_text n))"
| "cfits (CTag t v) d tp tags = (t < 2 ^ 64 \<and> tags < 8 \<and> length (tp @ dec t @ ''('') < 192 \<and> cfits v d (tp @ dec t @ ''('') (tags + 1))"
| "cfits (CArr is) d tp tags = (item_count is < 2 ^ 64 \<and> d < 63 \<and> tags \<le> 8 \<and> length tp < 192 \<and> cfits_items is (d + 1))"
| "cfits (CMap ps) d tp tags = (pair_count ps < 2 ^ 64 \<and> d < 63 \<and> tags \<le> 8 \<and> length tp < 192 \<and> cfits_pairs ps (d + 1))"
| "cfits_items CNil d = True"
| "cfits_items (CCons v is) d = (cfits v d [] 0 \<and> cfits_items is d)"
| "cfits_pairs PNil d = True"
| "cfits_pairs (PCons k v ps) d = (key_fits k \<and> cfits v d [] 0 \<and> cfits_pairs ps d)"

subsection \<open>Scalars are read back\<close>

lemma out_str_fits: "length out + length s < cap \<Longrightarrow> cbor_out_str cap out s = out @ s"
  unfolding cbor_out_str_def
  by (induction s arbitrary: out) (auto simp: cbor_out_ch_def)

lemma out_ch_fits: "length out + 1 < cap \<Longrightarrow> cbor_out_ch cap out c = out @ [c]"
  by (simp add: cbor_out_ch_def)

lemma out_close_fits: "length out + 1 < cap \<Longrightarrow> cbor_out_close cap out c = out @ [c]"
  by (simp add: cbor_out_close_def)

lemma chunk_fits:
  assumes f: "\<And>out c. length out + length (g c) < cap \<Longrightarrow> chunk_byte bytes cap out c = out @ g c"
  shows "length out + length (concat (map g bs)) < cap \<Longrightarrow> foldl (chunk_byte bytes cap) out bs = out @ concat (map g bs)"
proof (induction bs arbitrary: out)
  case (Cons c bs)
  then show ?case using Cons.IH [of "out @ g c"] f [of out c] by simp
qed simp

lemma hex_byte_fits:
  "length out + 2 < cap \<Longrightarrow> chunk_byte True cap out c = out @ [digit_char (unat c div 16), digit_char (unat c mod 16)]"
proof -
  have "unat (drop_bit 4 c) = unat c div 16" by (simp add: unat_div drop_bit_eq_div)
  moreover have "c AND 15 = take_bit 4 c" by (simp add: take_bit_eq_mask mask_eq_exp_minus_1)
  then have "unat (c AND 15) = unat c mod 16" by (simp add: unat_mod take_bit_eq_mod)
  ultimately show "length out + 2 < cap \<Longrightarrow> ?thesis" by (simp add: chunk_byte_def cbor_out_ch_def)
qed

lemma length_hex_low: "unat (c :: u8) < 32 \<Longrightarrow> length (hex (unat c)) \<le> 2"
  by (subst hex.simps, subst hex.simps) simp

lemma text_byte_fits: "length out + length (text_byte c) < cap \<Longrightarrow> chunk_byte False cap out c = out @ text_byte c"
proof -
  assume a: "length out + length (text_byte c) < cap"
  let ?ch = "char_of_byte c"
  have fits: "c < 0x20 \<Longrightarrow> snprintf 8 (CHR 0x5C # CHR ''u'' # pad0 4 (hex (unat c))) = CHR 0x5C # CHR ''u'' # pad0 4 (hex (unat c))"
    using length_hex_low [of c] by (intro snprintf_fits) (simp add: pad0_def word_less_unat)
  consider "?ch = CHR 0x22 \<or> ?ch = CHR 0x5C" | "?ch = CHR 0x0A" | "?ch = CHR 0x0D" | "?ch = CHR 0x09"
    | "c < 0x20" "?ch \<noteq> CHR 0x22" "?ch \<noteq> CHR 0x5C" "?ch \<noteq> CHR 0x0A" "?ch \<noteq> CHR 0x0D" "?ch \<noteq> CHR 0x09"
    | "\<not> c < 0x20" "?ch \<noteq> CHR 0x22" "?ch \<noteq> CHR 0x5C" "?ch \<noteq> CHR 0x0A" "?ch \<noteq> CHR 0x0D" "?ch \<noteq> CHR 0x09"
    by blast
  then show ?thesis
    using a fits by cases (auto simp: text_byte_def chunk_byte_def esc_def out_str_fits out_ch_fits Let_def)
qed

lemma tagged_fits:
  "text_fits tp tags t \<Longrightarrow> tagged_text tp tags t = tp @ t @ replicate tags (CHR '')'')"
proof -
  assume a: "text_fits tp tags t"
  have "((\<lambda>out. cbor_out_close 272 out (CHR '')'')) ^^ n) out = out @ replicate n (CHR '')'')" if "length out + n < 272" for n out
    using that by (induction n) (auto simp: out_close_fits replicate_append_same)
  then show ?thesis using a by (simp add: tagged_text_def text_fits_def out_str_fits)
qed


lemma append_definite:
  assumes "length bs < 2 ^ 64" "ch_arg h = word_of_nat (length bs)" "\<not> ch_indefinite h"
  shows "append_string (pre @ bs @ post) (length pre) h cap out
     = Some (foldl (chunk_byte (ch_major h = 2) cap) out bs, length pre + length bs)"
proof -
  have "unat (ch_arg h) = length bs" using assms(1,2) by (simp add: unat_of_nat)
  then show ?thesis using assms(3) by (simp add: append_string_def append_chunk_def Let_def)
qed

lemma scalar_decodes:
  assumes "read_head src pos = Some (h, p1)" "ch_major h < 4 \<or> ch_major h = 7"
    "format_scalar src p1 h 272 = Some (t, kind, num, p2)" "text_fits tp tags t"
    "length key < 128" "length (jp_path pp) < 128" "length (jp_lines pp) < 2048"
  shows "decode_item (Suc fuel) src pos pp key tp tags
     = Some (Some (p2, pp\<lparr>jp_lines := jp_lines pp @ [scalar_line (jp_depth pp) key (jp_path pp) tp tags [] kind t num]\<rparr>))"
proof -
  have "length (tp @ t @ replicate tags (CHR '')'')) < 272" using assms(4) by (simp add: text_fits_def)
  then show ?thesis
    using assms emit_line [of pp key "tp @ t @ replicate tags (CHR '')'')" kind "num \<and> tags = 0"] tagged_fits [OF assms(4)]
    by (auto simp: scalar_line_def)
qed

lemma unat_arg: "a < 2 ^ 64 \<Longrightarrow> unat (word_of_nat a :: u64) = a"
  by (simp add: unat_of_nat)

lemma dec_2_64: "dec 18446744073709551616 = ''18446744073709551616''"
proof -
  have "char_of (48 :: nat) = CHR ''0''" "char_of (49 :: nat) = CHR ''1''" "char_of (50 :: nat) = CHR ''2''"
    "char_of (51 :: nat) = CHR ''3''" "char_of (52 :: nat) = CHR ''4''" "char_of (53 :: nat) = CHR ''5''"
    "char_of (54 :: nat) = CHR ''6''" "char_of (55 :: nat) = CHR ''7''" "char_of (56 :: nat) = CHR ''8''"
    "char_of (57 :: nat) = CHR ''9''" by code_simp+
  then show ?thesis by (simp add: dec.simps digit_char_def)
qed

text \<open>What \<open>format_scalar\<close> makes of the payload \<open>bs\<close> after the head \<open>h\<close>.\<close>

lemma format_uint: "n < 2 ^ 64 \<Longrightarrow> length (dec n) < cap \<Longrightarrow>
    format_scalar src p \<lparr>ch_major = 0, ch_info = i, ch_arg = word_of_nat n, ch_indefinite = False\<rparr> cap = Some (dec n, VAL_ATOM, True, p)"
  by (simp add: format_scalar_def unat_arg)

lemma format_nint:
  assumes "n < 2 ^ 64" "length (CHR ''-'' # dec (n + 1)) < cap"
  shows "format_scalar src p \<lparr>ch_major = 1, ch_info = i, ch_arg = word_of_nat n, ch_indefinite = False\<rparr> cap
     = Some (CHR ''-'' # dec (n + 1), VAL_ATOM, True, p)"
proof (cases "n = 2 ^ 64 - 1")
  case True
  then have "(word_of_nat n :: u64) = - 1"
    by (simp add: word_eq_unat unat_of_nat unsigned_minus_1_eq_mask mask_eq_exp_minus_1)
  then show ?thesis using assms(2) True by (simp add: format_scalar_def dec_2_64)
next
  case False
  then have "(word_of_nat n :: u64) \<noteq> - 1"
    using assms(1) by (simp add: word_eq_unat unat_arg unsigned_minus_1_eq_mask mask_eq_exp_minus_1)
  moreover have "unat (word_of_nat n + 1 :: u64) = n + 1"
    using assms(1) False by (simp add: unat_word_ariths unat_arg)
  ultimately show ?thesis using assms(2) by (simp add: format_scalar_def)
qed

lemma format_bytes:
  assumes "length bs < 2 ^ 64" "length (CHR ''h'' # CHR 0x27 # bytes_text bs @ [CHR 0x27]) < 272"
  shows "format_scalar (pre @ bs @ post) (length pre) \<lparr>ch_major = 2, ch_info = i, ch_arg = word_of_nat (length bs), ch_indefinite = False\<rparr> 272
     = Some (CHR ''h'' # CHR 0x27 # bytes_text bs @ [CHR 0x27], VAL_ATOM, False, length pre + length bs)"
proof -
  have "foldl (chunk_byte True 272) [CHR ''h'', CHR 0x27] bs = [CHR ''h'', CHR 0x27] @ bytes_text bs"
    unfolding bytes_text_def by (rule chunk_fits [OF hex_byte_fits]) (use assms(2) in \<open>simp_all add: bytes_text_def\<close>)
  then show ?thesis
    using append_definite [OF assms(1), of "\<lparr>ch_major = 2, ch_info = i, ch_arg = word_of_nat (length bs), ch_indefinite = False\<rparr>" pre post 272 "[CHR ''h'', CHR 0x27]"] assms(2)
    by (simp add: format_scalar_def out_str_fits out_close_fits)
qed

lemma format_text:
  assumes "length bs < 2 ^ 64" "length (quote (utf_text bs)) < 272"
  shows "format_scalar (pre @ bs @ post) (length pre) \<lparr>ch_major = 3, ch_info = i, ch_arg = word_of_nat (length bs), ch_indefinite = False\<rparr> 272
     = Some (quote (utf_text bs), VAL_STRING, json_pp_quoted_is_numeric (quote (utf_text bs)), length pre + length bs)"
proof -
  have "foldl (chunk_byte False 272) [CHR 0x22] bs = [CHR 0x22] @ utf_text bs"
    unfolding utf_text_def by (rule chunk_fits [OF text_byte_fits]) (use assms(2) in \<open>simp_all add: utf_text_def\<close>)
  then show ?thesis
    using append_definite [OF assms(1), of "\<lparr>ch_major = 3, ch_info = i, ch_arg = word_of_nat (length bs), ch_indefinite = False\<rparr>" pre post 272 "[CHR 0x22]"] assms(2)
    by (simp add: format_scalar_def out_ch_fits out_close_fits quote_def Let_def)
qed

lemma format_simple_text:
  "n < 24 \<Longrightarrow> length (simple_text n) < 272 \<Longrightarrow>
   format_scalar src p \<lparr>ch_major = 7, ch_info = n, ch_arg = a, ch_indefinite = False\<rparr> 272 = Some (simple_text n, VAL_ATOM, False, p)"
  by (auto simp: format_scalar_def format_simple_def simple_text_def)

lemma decode_key_text:
  assumes "key_fits k"
  shows "decode_key (pre @ enc_key k @ post) (length pre) 128 = Some (key_text k, length pre + length (enc_key k))"
proof (cases k)
  case (KText bs)
  then have fits: "length bs < 2 ^ 64" "length (utf_text bs) < 128" using assms by simp_all
  obtain i where h: "read_head (pre @ enc_head 3 (length bs) @ (bs @ post)) (length pre) =
      Some (\<lparr>ch_major = 3, ch_info = i, ch_arg = word_of_nat (length bs), ch_indefinite = False\<rparr>, length pre + length (enc_head 3 (length bs)))"
    using read_enc_head [of 3 "length bs" pre "bs @ post"] fits(1) by auto
  have "foldl (chunk_byte False 128) [] bs = [] @ utf_text bs"
    unfolding utf_text_def by (rule chunk_fits [OF text_byte_fits]) (use fits(2) in \<open>simp_all add: utf_text_def\<close>)
  then show ?thesis
    using append_definite [OF fits(1), of "\<lparr>ch_major = 3, ch_info = i, ch_arg = word_of_nat (length bs), ch_indefinite = False\<rparr>"
        "pre @ enc_head 3 (length bs)" post 128 "[]"] h
    by (simp add: decode_key_def KText)
next
  case (KUint n)
  then have fits: "n < 2 ^ 64" "length (dec n) < 128" using assms by simp_all
  obtain i where h: "read_head (pre @ enc_head 0 n @ post) (length pre) =
      Some (\<lparr>ch_major = 0, ch_info = i, ch_arg = word_of_nat n, ch_indefinite = False\<rparr>, length pre + length (enc_head 0 n))"
    using read_enc_head [of 0 n pre post] fits(1) by auto
  then show ?thesis using format_uint [OF fits] by (simp add: decode_key_def KUint)
qed

subsection \<open>Items are read back\<close>

definition item_decodes :: "cval \<Rightarrow> bool" where
  "item_decodes v \<longleftrightarrow> (\<forall>fuel pre post pp key tp tags. 2 * length (enc v @ post) + 1 \<le> fuel
     \<and> cfits v (jp_depth pp) tp tags \<and> length key < 128 \<and> length (jp_path pp) < 128
     \<and> length (jp_lines pp) + length (clines v (jp_depth pp) key (jp_path pp) tp tags []) \<le> 2048 \<longrightarrow>
     decode_item fuel (pre @ enc v @ post) (length pre) pp key tp tags = Some (Some (length pre + length (enc v),
       pp\<lparr>jp_lines := jp_lines pp @ clines v (jp_depth pp) key (jp_path pp) tp tags []\<rparr>)))"

lemma item_decodesD:
  assumes "item_decodes v" "2 * length (enc v @ post) + 1 \<le> fuel" "cfits v (jp_depth pp) tp tags" "length key < 128"
    "length (jp_path pp) < 128" "length (jp_lines pp) + length (clines v (jp_depth pp) key (jp_path pp) tp tags []) \<le> 2048"
  shows "decode_item fuel (pre @ enc v @ post) (length pre) pp key tp tags = Some (Some (length pre + length (enc v),
       pp\<lparr>jp_lines := jp_lines pp @ clines v (jp_depth pp) key (jp_path pp) tp tags []\<rparr>))"
  using assms(1) [unfolded item_decodes_def, rule_format, of post fuel pp tp tags key pre] assms(2-) by blast

text \<open>A scalar whose head is followed by \<open>bs\<close>.\<close>

lemma scalar_item:
  assumes e: "enc v = enc_head m a @ bs" and m: "m < 4 \<or> m = 7" and a: "\<And>d tp tags. cfits v d tp tags \<Longrightarrow> a < 2 ^ 64"
    and t: "\<And>d tp tags. cfits v d tp tags \<Longrightarrow> text_fits tp tags t"
    and f: "\<And>pre post i d tp tags. cfits v d tp tags \<Longrightarrow> (a < 24 \<longrightarrow> i = a) \<Longrightarrow>
      format_scalar (pre @ bs @ post) (length pre) \<lparr>ch_major = m, ch_info = i, ch_arg = word_of_nat a, ch_indefinite = False\<rparr> 272
        = Some (t, kind, num, length pre + length bs)"
    and l: "\<And>d key path tp tags. clines v d key path tp tags [] = [scalar_line d key path tp tags [] kind t num]"
  shows "item_decodes v"
  unfolding item_decodes_def
proof (intro allI impI; elim conjE)
  fix fuel pre post and pp :: json_pp and key tp tags
  assume h: "2 * length (enc v @ post) + 1 \<le> fuel" "cfits v (jp_depth pp) tp tags" "length key < 128" "length (jp_path pp) < 128"
    "length (jp_lines pp) + length (clines v (jp_depth pp) key (jp_path pp) tp tags []) \<le> 2048"
  have m8: "m < 8" using m by auto
  obtain i where r: "read_head (pre @ enc_head m a @ (bs @ post)) (length pre) =
      Some (\<lparr>ch_major = m, ch_info = i, ch_arg = word_of_nat a, ch_indefinite = False\<rparr>, length pre + length (enc_head m a))"
    "a < 24 \<longrightarrow> i = a"
    using read_enc_head [OF m8 a [OF h(2)], of pre "bs @ post"] by blast
  obtain fl where fuel: "fuel = Suc fl" using h(1) by (cases fuel) auto
  have fs: "format_scalar (pre @ enc_head m a @ (bs @ post)) (length pre + length (enc_head m a))
      \<lparr>ch_major = m, ch_info = i, ch_arg = word_of_nat a, ch_indefinite = False\<rparr> 272
      = Some (t, kind, num, length pre + length (enc_head m a) + length bs)"
    using f [OF h(2) r(2), of "pre @ enc_head m a" post] by simp
  show "decode_item fuel (pre @ enc v @ post) (length pre) pp key tp tags = Some (Some (length pre + length (enc v),
       pp\<lparr>jp_lines := jp_lines pp @ clines v (jp_depth pp) key (jp_path pp) tp tags []\<rparr>))"
    using scalar_decodes [OF r(1) _ fs t [OF h(2)] h(3,4), of fl] m h(5) by (simp add: e l fuel)
qed

lemma scalars_decode:
  "item_decodes (CUint n)" "item_decodes (CNint n)" "item_decodes (CBytes bs)" "item_decodes (CText bs)" "item_decodes (CSimple n)"
proof -
  show "item_decodes (CUint n)"
    by (rule scalar_item [where m = 0 and a = n and bs = "[]"])
      (auto intro: format_uint simp: text_fits_def)
  show "item_decodes (CNint n)"
    by (rule scalar_item [where m = 1 and a = n and bs = "[]"])
      (auto intro!: format_nint [simplified] simp: text_fits_def)
  show "item_decodes (CBytes bs)"
    by (rule scalar_item [where m = 2 and a = "length bs" and bs = bs])
      (auto intro!: format_bytes [simplified] simp: text_fits_def)
  show "item_decodes (CText bs)"
    by (rule scalar_item [where m = 3 and a = "length bs" and bs = bs])
      (auto intro!: format_text [simplified] simp: text_fits_def)
  show "item_decodes (CSimple n)"
    by (rule scalar_item [where m = 7 and a = n and bs = "[]"])
      (auto intro!: format_simple_text simp: text_fits_def)
qed


lemma tag_decodes:
  assumes v: "item_decodes v"
  shows "item_decodes (CTag t v)"
  unfolding item_decodes_def
proof (intro allI impI; elim conjE)
  fix fuel pre post and pp :: json_pp and key tp tags
  assume h: "2 * length (enc (CTag t v) @ post) + 1 \<le> fuel" "cfits (CTag t v) (jp_depth pp) tp tags" "length key < 128"
    "length (jp_path pp) < 128"
    "length (jp_lines pp) + length (clines (CTag t v) (jp_depth pp) key (jp_path pp) tp tags []) \<le> 2048"
  have t: "t < 2 ^ 64" using h(2) by simp
  obtain i where r: "read_head (pre @ enc_head 6 t @ (enc v @ post)) (length pre) =
      Some (\<lparr>ch_major = 6, ch_info = i, ch_arg = word_of_nat t, ch_indefinite = False\<rparr>, length pre + length (enc_head 6 t))"
    using read_enc_head [OF _ t, of 6 pre "enc v @ post"] by auto
  obtain fl where fuel: "fuel = Suc fl" using h(1) by (cases fuel) auto
  have ne: "0 < length (enc_head 6 t)" by (simp add: enc_head_def)
  have "decode_item fl ((pre @ enc_head 6 t) @ enc v @ post) (length (pre @ enc_head 6 t)) pp key (tp @ dec t @ ''('') (tags + 1)
      = Some (Some (length (pre @ enc_head 6 t) + length (enc v),
         pp\<lparr>jp_lines := jp_lines pp @ clines v (jp_depth pp) key (jp_path pp) (tp @ dec t @ ''('') (tags + 1) []\<rparr>))"
    by (rule item_decodesD [OF v]) (use h ne fuel in \<open>simp_all del: length_greater_0_conv\<close>)
  then show "decode_item fuel (pre @ enc (CTag t v) @ post) (length pre) pp key tp tags = Some (Some (length pre + length (enc (CTag t v)),
       pp\<lparr>jp_lines := jp_lines pp @ clines (CTag t v) (jp_depth pp) key (jp_path pp) tp tags []\<rparr>))"
    using r h(2) by (simp add: fuel unat_arg)
qed

text \<open>The lines before an item: none, or those of its predecessor, whose last line gets the comma.\<close>

definition preceded :: "nat \<Rightarrow> (string \<Rightarrow> json_line list) \<Rightarrow> bool" where
  "preceded i prev \<longleftrightarrow> (i = 0 \<and> prev = (\<lambda>_. [])) \<or>
     (0 < i \<and> (\<exists>xs x. \<forall>tr. prev tr = xs @ [x\<lparr>jl_trail := tr\<rparr>]))"

lemma clines_trail: "\<exists>xs x. \<forall>tr. clines v d key path tp tags tr = xs @ [x\<lparr>jl_trail := tr\<rparr>]"
proof (induction v arbitrary: tp tags rule: cval.induct [where ?P2.0 = "\<lambda>_. True" and ?P3.0 = "\<lambda>_. True"])
  case (CUint n)
  show ?case by (intro exI [of _ "[]"] exI [of _ "scalar_line d key path tp tags [] VAL_ATOM (dec n) True"]) (simp add: scalar_line_def mkline_def)
next
  case (CNint n)
  show ?case by (intro exI [of _ "[]"] exI [of _ "scalar_line d key path tp tags [] VAL_ATOM (CHR ''-'' # dec (n + 1)) True"]) (simp add: scalar_line_def mkline_def)
next
  case (CBytes bs)
  show ?case by (intro exI [of _ "[]"] exI [of _ "scalar_line d key path tp tags [] VAL_ATOM (CHR ''h'' # CHR 0x27 # bytes_text bs @ [CHR 0x27]) False"])
      (simp add: scalar_line_def mkline_def)
next
  case (CText bs)
  show ?case by (intro exI [of _ "[]"] exI [of _ "scalar_line d key path tp tags [] VAL_STRING (quote (utf_text bs)) (json_pp_quoted_is_numeric (quote (utf_text bs)))"])
      (simp add: scalar_line_def mkline_def)
next
  case (CSimple n)
  show ?case by (intro exI [of _ "[]"] exI [of _ "scalar_line d key path tp tags [] VAL_ATOM (simple_text n) False"]) (simp add: scalar_line_def mkline_def)
next
  case (CArr xs)
  show ?case by (intro exI [of _ "mkline d key (tp @ ''['') [] VAL_PUNCT path False # cilines xs (d + 1) path 0"]
        exI [of _ "mkline d [] (CHR '']'' # replicate tags (CHR '')'')) [] VAL_PUNCT path False"]) (simp add: mkline_def)
next
  case (CMap ps)
  show ?case by (intro exI [of _ "mkline d key (tp @ ''{'') [] VAL_PUNCT path False # cplines ps (d + 1) path"]
        exI [of _ "mkline d [] (CHR ''}'' # replicate tags (CHR '')'')) [] VAL_PUNCT path False"]) (simp add: mkline_def)
qed simp_all

lemma preceded_clines: "preceded (Suc i) (\<lambda>tr. clines v d key path tp tags tr)"
  using clines_trail by (simp add: preceded_def)

lemma mark_preceded:
  assumes "preceded i prev" "jp_lines pp = ls @ prev []"
  shows "(if i > 0 then json_pp_mark_trailing_comma pp else pp) = pp\<lparr>jp_lines := ls @ prev '',''\<rparr>"
proof (cases "i = 0")
  case True
  then show ?thesis using assms by (simp add: preceded_def)
next
  case False
  then obtain xs x where "\<forall>tr. prev tr = xs @ [x\<lparr>jl_trail := tr\<rparr>]" using assms(1) by (auto simp: preceded_def)
  then show ?thesis using assms(2) False by (simp add: json_pp_mark_trailing_comma_def nth_append list_update_append)
qed

lemma preceded_length: "preceded i prev \<Longrightarrow> length (prev tr) = length (prev [])"
  by (auto simp: preceded_def)

lemma length_clines: "length (clines v d key path tp tags tr) = length (clines v d key path tp tags [])"
  using preceded_length [OF preceded_clines] .

definition items_decode :: "citems \<Rightarrow> bool" where
  "items_decode is \<longleftrightarrow> (\<forall>fuel pre post h i pp ls prev. 2 * length (enc_items is @ post) + 2 \<le> fuel
     \<and> ch_major h = 4 \<and> \<not> ch_indefinite h \<and> unat (ch_arg h) = i + item_count is
     \<and> cfits_items is (jp_depth pp) \<and> preceded i prev \<and> jp_lines pp = ls @ prev [] \<and> length (jp_path pp) < 128
     \<and> length (jp_lines pp) + length (cilines is (jp_depth pp) (jp_path pp) i) < 2048 \<longrightarrow>
     container_loop fuel (pre @ enc_items is @ post) h i (length pre) pp = Some (Some (length pre + length (enc_items is),
       pp\<lparr>jp_lines := ls @ prev (if is = CNil then [] else '','') @ cilines is (jp_depth pp) (jp_path pp) i\<rparr>)))"

definition pairs_decode :: "cpairs \<Rightarrow> bool" where
  "pairs_decode ps \<longleftrightarrow> (\<forall>fuel pre post h i pp ls prev. 2 * length (enc_pairs ps @ post) + 2 \<le> fuel
     \<and> ch_major h = 5 \<and> \<not> ch_indefinite h \<and> unat (ch_arg h) = i + pair_count ps
     \<and> cfits_pairs ps (jp_depth pp) \<and> preceded i prev \<and> jp_lines pp = ls @ prev [] \<and> length (jp_path pp) < 128
     \<and> length (jp_lines pp) + length (cplines ps (jp_depth pp) (jp_path pp)) < 2048 \<longrightarrow>
     container_loop fuel (pre @ enc_pairs ps @ post) h i (length pre) pp = Some (Some (length pre + length (enc_pairs ps),
       pp\<lparr>jp_lines := ls @ prev (if ps = PNil then [] else '','') @ cplines ps (jp_depth pp) (jp_path pp)\<rparr>)))"

lemma enc_ne: "0 < length (enc v)"
  by (cases v) (simp_all add: enc_head_def)

text \<open>One round of the loop: the comma, the path segment, the item, the path again.\<close>

lemma loop_round:
  assumes v: "item_decodes v" and fits: "cfits v (jp_depth pp) [] 0" and prev: "preceded i prev" "jp_lines pp = ls @ prev []"
    and go: "\<not> ch_indefinite h" "i < unat (ch_arg h)" and path: "length (jp_path pp) < 128"
    and key: "(if ch_major h = 5 then decode_key src pos JSON_PP_KEY_LEN else Some (snprintf JSON_PP_KEY_LEN (dec i), pos)) = Some (seg, length pre)"
    and lens: "length seg < 128" and src: "src = pre @ enc v @ post" and fuel: "2 * length (enc v @ post) + 1 \<le> fuel"
    and room: "length (jp_lines pp) + length (clines v (jp_depth pp) (if ch_major h = 5 then seg else []) (push_seg (jp_path pp) seg) [] 0 []) \<le> 2048"
  shows "container_loop (Suc fuel) src h i pos pp = container_loop fuel src h (i + 1) (length pre + length (enc v))
     (pp\<lparr>jp_lines := (ls @ prev '','') @ clines v (jp_depth pp) (if ch_major h = 5 then seg else []) (push_seg (jp_path pp) seg) [] 0 []\<rparr>)"
proof -
  let ?pp = "pp\<lparr>jp_lines := ls @ prev '',''\<rparr>"
  let ?key = "if ch_major h = 5 then seg else []"
  let ?p1 = "?pp\<lparr>jp_path := push_seg (jp_path pp) seg\<rparr>"
  have mark: "(if i > 0 then json_pp_mark_trailing_comma pp else pp) = ?pp" by (rule mark_preceded [OF prev])
  have push: "json_pp_path_push ?pp seg = (length (jp_path pp), ?p1)" by (simp add: json_pp_path_push_def)
  have len: "length (ls @ prev '','') = length (jp_lines pp)" using prev preceded_length [OF prev(1), of "'',''"] by simp
  have run: "decode_item fuel (pre @ enc v @ post) (length pre) ?p1 ?key [] 0 = Some (Some (length pre + length (enc v),
       ?p1\<lparr>jp_lines := jp_lines ?p1 @ clines v (jp_depth ?p1) ?key (jp_path ?p1) [] 0 []\<rparr>))"
    by (rule item_decodesD [OF v fuel]) (use fits lens room len length_push_seg [OF path] in \<open>simp_all\<close>)
  have "container_loop (Suc fuel) src h i pos pp = and_thenD (decode_item fuel src (length pre) ?p1 ?key [] 0)
      (\<lambda>pos pp'. container_loop fuel src h (i + 1) pos (json_pp_path_pop pp' (length (jp_path pp))))"
    using go unfolding container_loop.simps(2) Let_def mark key by (simp add: push)
  also have "\<dots> = container_loop fuel src h (i + 1) (length pre + length (enc v))
     (pp\<lparr>jp_lines := (ls @ prev '','') @ clines v (jp_depth pp) ?key (push_seg (jp_path pp) seg) [] 0 []\<rparr>)"
    unfolding src run by (simp add: and_thenD_def json_pp_path_pop_def)
  finally show ?thesis .
qed

lemma loop_end:
  assumes "preceded i prev" "jp_lines pp = ls @ prev []" "\<not> ch_indefinite h" "unat (ch_arg h) = i"
  shows "container_loop (Suc fuel) src h i pos pp = Some (Some (pos, pp\<lparr>jp_lines := ls @ prev []\<rparr>))"
  using assms by simp

declare container_loop.simps [simp del] decode_item.simps [simp del]

lemma items_decode_Nil: "items_decode CNil"
  unfolding items_decode_def
proof (intro allI impI; elim conjE)
  fix fuel pre post and h :: cbor_head and i and pp :: json_pp and ls prev
  assume a: "2 * length (enc_items CNil @ post) + 2 \<le> fuel" "\<not> ch_indefinite h" "unat (ch_arg h) = i + item_count CNil"
    "preceded i prev" "jp_lines pp = ls @ prev []"
  obtain f where "fuel = Suc f" using a(1) by (cases fuel) auto
  then show "container_loop fuel (pre @ enc_items CNil @ post) h i (length pre) pp = Some (Some (length pre + length (enc_items CNil),
       pp\<lparr>jp_lines := ls @ prev (if CNil = CNil then [] else '','') @ cilines CNil (jp_depth pp) (jp_path pp) i\<rparr>))"
    using loop_end [OF a(4,5,2)] a(3) by simp
qed

lemma pairs_decode_Nil: "pairs_decode PNil"
  unfolding pairs_decode_def
proof (intro allI impI; elim conjE)
  fix fuel pre post and h :: cbor_head and i and pp :: json_pp and ls prev
  assume a: "2 * length (enc_pairs PNil @ post) + 2 \<le> fuel" "\<not> ch_indefinite h" "unat (ch_arg h) = i + pair_count PNil"
    "preceded i prev" "jp_lines pp = ls @ prev []"
  obtain f where "fuel = Suc f" using a(1) by (cases fuel) auto
  then show "container_loop fuel (pre @ enc_pairs PNil @ post) h i (length pre) pp = Some (Some (length pre + length (enc_pairs PNil),
       pp\<lparr>jp_lines := ls @ prev (if PNil = PNil then [] else '','') @ cplines PNil (jp_depth pp) (jp_path pp)\<rparr>))"
    using loop_end [OF a(4,5,2)] a(3) by simp
qed

lemma items_decode_Cons:
  assumes v: "item_decodes v" and rest: "items_decode is"
  shows "items_decode (CCons v is)"
  unfolding items_decode_def
proof (intro allI impI; elim conjE)
  fix fuel pre post and h :: cbor_head and i and pp :: json_pp and ls prev
  assume a: "2 * length (enc_items (CCons v is) @ post) + 2 \<le> fuel" "ch_major h = 4" "\<not> ch_indefinite h"
    "unat (ch_arg h) = i + item_count (CCons v is)" "cfits_items (CCons v is) (jp_depth pp)" "preceded i prev"
    "jp_lines pp = ls @ prev []" "length (jp_path pp) < 128"
    "length (jp_lines pp) + length (cilines (CCons v is) (jp_depth pp) (jp_path pp) i) < 2048"
  obtain f where fuel: "fuel = Suc f" using a(1) by (cases fuel) auto
  let ?seg = "snprintf 128 (dec i)"
  let ?cl = "clines v (jp_depth pp) [] (push_seg (jp_path pp) ?seg) [] 0"
  let ?src = "pre @ enc_items (CCons v is) @ post"
  let ?pp = "pp\<lparr>jp_lines := (ls @ prev '','') @ ?cl []\<rparr>"
  have cl: "length (?cl tr) = length (?cl [])" for tr by (rule length_clines)
  have lp: "length (prev '','') = length (prev [])" by (rule preceded_length [OF a(6)])
  have src: "?src = pre @ enc v @ (enc_items is @ post)" by simp
  have round: "container_loop (Suc f) ?src h i (length pre) pp = container_loop f ?src h (i + 1) (length pre + length (enc v)) ?pp"
    by (rule trans [OF loop_round [OF v _ a(6,7,3) _ a(8) _ _ src, of "length pre" ?seg]])
      (use a(1,2,4,5,9) cl [of "if is = CNil then [] else '',''"] fuel length_snprintf [of 128 "dec i"] in \<open>simp_all\<close>)
  have le: "length (jp_lines ?pp) + length (cilines is (jp_depth ?pp) (jp_path ?pp) (i + 1)) < 2048"
    using a(7,9) cl [of "if is = CNil then [] else '',''"] lp by simp
  have "container_loop f ((pre @ enc v) @ enc_items is @ post) h (i + 1) (length (pre @ enc v)) ?pp
      = Some (Some (length (pre @ enc v) + length (enc_items is),
         ?pp\<lparr>jp_lines := (ls @ prev '','') @ ?cl (if is = CNil then [] else '','') @ cilines is (jp_depth ?pp) (jp_path ?pp) (i + 1)\<rparr>))"
    by (rule rest [unfolded items_decode_def, rule_format])
      (use a fuel enc_ne [of v] le preceded_clines in \<open>auto simp del: length_greater_0_conv\<close>)
  then show "container_loop fuel ?src h i (length pre) pp = Some (Some (length pre + length (enc_items (CCons v is)),
       pp\<lparr>jp_lines := ls @ prev (if CCons v is = CNil then [] else '','') @ cilines (CCons v is) (jp_depth pp) (jp_path pp) i\<rparr>))"
    unfolding fuel round by (simp add: add.assoc)
qed

lemma pairs_decode_Cons:
  assumes v: "item_decodes v" and rest: "pairs_decode ps"
  shows "pairs_decode (PCons k v ps)"
  unfolding pairs_decode_def
proof (intro allI impI; elim conjE)
  fix fuel pre post and h :: cbor_head and i and pp :: json_pp and ls prev
  assume a: "2 * length (enc_pairs (PCons k v ps) @ post) + 2 \<le> fuel" "ch_major h = 5" "\<not> ch_indefinite h"
    "unat (ch_arg h) = i + pair_count (PCons k v ps)" "cfits_pairs (PCons k v ps) (jp_depth pp)" "preceded i prev"
    "jp_lines pp = ls @ prev []" "length (jp_path pp) < 128"
    "length (jp_lines pp) + length (cplines (PCons k v ps) (jp_depth pp) (jp_path pp)) < 2048"
  obtain f where fuel: "fuel = Suc f" using a(1) by (cases fuel) auto
  let ?seg = "key_text k"
  let ?cl = "clines v (jp_depth pp) ?seg (push_seg (jp_path pp) ?seg) [] 0"
  let ?src = "pre @ enc_pairs (PCons k v ps) @ post"
  let ?pp = "pp\<lparr>jp_lines := (ls @ prev '','') @ ?cl []\<rparr>"
  have cl: "length (?cl tr) = length (?cl [])" for tr by (rule length_clines)
  have lp: "length (prev '','') = length (prev [])" by (rule preceded_length [OF a(6)])
  have src: "?src = (pre @ enc_key k) @ enc v @ (enc_pairs ps @ post)" by simp
  have kf: "key_fits k" using a(5) by simp
  have dk: "decode_key ?src (length pre) 128 = Some (?seg, length (pre @ enc_key k))"
    using decode_key_text [OF kf, of pre "enc v @ enc_pairs ps @ post"] by simp
  have ls: "length ?seg < 128" using kf by (cases k) auto
  have round: "container_loop (Suc f) ?src h i (length pre) pp
      = container_loop f ?src h (i + 1) (length (pre @ enc_key k) + length (enc v)) ?pp"
    by (rule trans [OF loop_round [OF v _ a(6,7,3) _ a(8) _ _ src, of "length pre" ?seg]])
      (use a(1,2,4,5,9) cl [of "if ps = PNil then [] else '',''"] fuel dk ls in \<open>simp_all\<close>)
  have le: "length (jp_lines ?pp) + length (cplines ps (jp_depth ?pp) (jp_path ?pp)) < 2048"
    using a(7,9) cl [of "if ps = PNil then [] else '',''"] lp by simp
  have "container_loop f ((pre @ enc_key k @ enc v) @ enc_pairs ps @ post) h (i + 1) (length (pre @ enc_key k @ enc v)) ?pp
      = Some (Some (length (pre @ enc_key k @ enc v) + length (enc_pairs ps),
         ?pp\<lparr>jp_lines := (ls @ prev '','') @ ?cl (if ps = PNil then [] else '','') @ cplines ps (jp_depth ?pp) (jp_path ?pp)\<rparr>))"
    by (rule rest [unfolded pairs_decode_def, rule_format])
      (use a fuel enc_ne [of v] le preceded_clines in \<open>auto simp del: length_greater_0_conv\<close>)
  then show "container_loop fuel ?src h i (length pre) pp = Some (Some (length pre + length (enc_pairs (PCons k v ps)),
       pp\<lparr>jp_lines := ls @ prev (if PCons k v ps = PNil then [] else '','') @ cplines (PCons k v ps) (jp_depth pp) (jp_path pp)\<rparr>))"
    unfolding fuel round by (simp add: add.assoc)
qed


text \<open>Arrays and maps: the opening line, the entries, the closing line.\<close>

lemma container_decodes:
  assumes e: "enc v = enc_head m n @ body" and m: "m = 4 \<or> m = 5"
    and fits: "\<And>d tp tags. cfits v d tp tags \<Longrightarrow> n < 2 ^ 64 \<and> d < 63 \<and> tags \<le> 8 \<and> length tp < 192"
    and small: "(if m = 5 then 2 * n else n) \<le> length body"
    and l: "\<And>d key path tp tags. clines v d key path tp tags [] =
       mkline d key (tp @ (if m = 5 then ''{'' else ''['')) [] VAL_PUNCT path False # inner (d + 1) path
       @ [mkline d [] ((if m = 5 then CHR ''}'' else CHR '']'') # replicate tags (CHR '')'')) [] VAL_PUNCT path False]"
    and run: "\<And>fuel pre post h pp d tp tags. 2 * length (body @ post) + 2 \<le> fuel \<Longrightarrow> ch_major h = m \<Longrightarrow> \<not> ch_indefinite h \<Longrightarrow> unat (ch_arg h) = n
       \<Longrightarrow> cfits v d tp tags \<Longrightarrow> jp_depth pp = d + 1 \<Longrightarrow> length (jp_path pp) < 128 \<Longrightarrow> length (jp_lines pp) + length (inner (d + 1) (jp_path pp)) < 2048
       \<Longrightarrow> container_loop fuel (pre @ body @ post) h 0 (length pre) pp
         = Some (Some (length pre + length body, pp\<lparr>jp_lines := jp_lines pp @ inner (d + 1) (jp_path pp)\<rparr>))"
  shows "item_decodes v"
  unfolding item_decodes_def
proof (intro allI impI; elim conjE)
  fix fuel pre post and pp :: json_pp and key tp tags
  assume h: "2 * length (enc v @ post) + 1 \<le> fuel" "cfits v (jp_depth pp) tp tags" "length key < 128" "length (jp_path pp) < 128"
    "length (jp_lines pp) + length (clines v (jp_depth pp) key (jp_path pp) tp tags []) \<le> 2048"
  let ?d = "jp_depth pp" and ?path = "jp_path pp"
  have n: "n < 2 ^ 64" and d: "?d < 63" and tags: "tags \<le> 8" and tp: "length tp < 192" using fits [OF h(2)] by auto
  have m8: "m < 8" using m by auto
  obtain i where r: "read_head (pre @ enc_head m n @ (body @ post)) (length pre) =
      Some (\<lparr>ch_major = m, ch_info = i, ch_arg = word_of_nat n, ch_indefinite = False\<rparr>, length pre + length (enc_head m n))"
    using read_enc_head [OF m8 n, of pre "body @ post"] by auto
  let ?h = "\<lparr>ch_major = m, ch_info = i, ch_arg = word_of_nat n, ch_indefinite = False\<rparr>"
  obtain fl where fuel: "fuel = Suc fl" using h(1) by (cases fuel) auto
  have ne: "0 < length (enc_head m n)" by (simp add: enc_head_def)
  let ?open = "mkline ?d key (tp @ (if m = 5 then ''{'' else ''['')) [] VAL_PUNCT ?path False"
  let ?close = "mkline ?d [] ((if m = 5 then CHR ''}'' else CHR '']'') # replicate tags (CHR '')'')) [] VAL_PUNCT ?path False"
  have room: "length (jp_lines pp) + length (inner (?d + 1) ?path) + 2 \<le> 2048" using h(5) by (simp add: l)
  have op: "open_text ?h tp = tp @ (if m = 5 then ''{'' else ''['')" using tp by (simp add: open_text_def)
  have emit: "json_pp_emit pp key (open_text ?h tp) VAL_PUNCT False = pp\<lparr>jp_lines := jp_lines pp @ [?open]\<rparr>"
    unfolding op by (rule emit_line) (use room h(3,4) tp in simp_all)
  let ?p2 = "pp\<lparr>jp_lines := jp_lines pp @ [?open], jp_depth := ?d + 1\<rparr>"
  have "container_loop fl ((pre @ enc_head m n) @ body @ post) ?h 0 (length (pre @ enc_head m n)) ?p2
      = Some (Some (length (pre @ enc_head m n) + length body, ?p2\<lparr>jp_lines := jp_lines ?p2 @ inner (?d + 1) (jp_path ?p2)\<rparr>))"
    by (rule run) (use h(1,2,4) room fuel ne n e in \<open>simp_all add: unat_arg del: length_greater_0_conv\<close>)
  then have loop: "container_loop fl (pre @ enc v @ post) ?h 0 (length pre + length (enc_head m n)) ?p2
      = Some (Some (length pre + length (enc v), ?p2\<lparr>jp_lines := (jp_lines pp @ [?open]) @ inner (?d + 1) ?path\<rparr>))"
    by (simp add: e)
  have closes: "((\<lambda>out. cbor_out_ch 10 out (CHR '')'')) ^^ t) [c] = c # replicate t (CHR '')'')" if "t \<le> 8" for t c
    using that by (induction t) (auto simp: cbor_out_ch_def replicate_append_same)
  let ?p3 = "?p2\<lparr>jp_lines := (jp_lines pp @ [?open]) @ inner (?d + 1) ?path\<rparr>"
  have close: "close_container (m = 5) tags ?p3 = pp\<lparr>jp_lines := (jp_lines pp @ [?open]) @ inner (?d + 1) ?path @ [?close]\<rparr>"
    using emit_line [of "?p3\<lparr>jp_depth := ?d\<rparr>" "[]" "(if m = 5 then CHR ''}'' else CHR '']'') # replicate tags (CHR '')'')" VAL_PUNCT False]
      room tags h(4) closes [OF tags]
    by (simp add: close_container_def cbor_out_ch_def [of _ "[]"])
  have cnt: "\<not> (\<not> ch_indefinite ?h \<and> unat (ch_arg ?h) > (if ch_major ?h = 5
      then (length (pre @ enc v @ post) - (length pre + length (enc_head m n))) div 2
      else length (pre @ enc v @ post) - (length pre + length (enc_head m n))))"
    using small n by (auto simp: unat_arg e split: if_splits)
  have major: "(ch_major ?h = 6) = False" "(ch_major ?h = 4 \<or> ch_major ?h = 5) = True" "(ch_major ?h = 5) = (m = 5)" using m by auto
  have deep: "(jp_depth pp + 1 \<ge> JSON_PP_MAX_DEPTH) = False" using d by simp
  have rd: "read_head (pre @ enc v @ post) (length pre) = Some (?h, length pre + length (enc_head m n))" using r by (simp add: e)
  have "decode_item fuel (pre @ enc v @ post) (length pre) pp key tp tags = and_thenD
      (container_loop fl (pre @ enc v @ post) ?h 0 (length pre + length (enc_head m n)) ?p2)
      (\<lambda>pos pp. Some (Some (pos, close_container (m = 5) tags pp)))"
    unfolding fuel decode_item.simps(2) rd option.case prod.case Let_def major(1,2) if_True if_False deep emit if_not_P [OF cnt]
    by (simp add: major)
  then show "decode_item fuel (pre @ enc v @ post) (length pre) pp key tp tags = Some (Some (length pre + length (enc v),
       pp\<lparr>jp_lines := jp_lines pp @ clines v (jp_depth pp) key (jp_path pp) tp tags []\<rparr>))"
    unfolding loop and_thenD_def option.case prod.case close by (simp add: l)
qed

lemma count_items_le: "item_count is \<le> length (enc_items is)" 
proof (induction "is" rule: citems.induct [where ?P1.0 = "\<lambda>_. True" and ?P3.0 = "\<lambda>_. True"])
  case (CCons v xs)
  then show ?case using enc_ne [of v] by (simp del: length_greater_0_conv)
qed simp_all

lemma count_pairs_le: "2 * pair_count ps \<le> length (enc_pairs ps)"
proof (induction ps rule: cpairs.induct [where ?P1.0 = "\<lambda>_. True" and ?P2.0 = "\<lambda>_. True"])
  case (PCons k v ps)
  have "0 < length (enc_key k)" by (cases k) (simp_all add: enc_head_def)
  then show ?case using enc_ne [of v] PCons by (simp del: length_greater_0_conv)
qed simp_all

lemma array_decodes:
  assumes "items_decode is"
  shows "item_decodes (CArr is)"
proof (rule container_decodes [where m = 4 and n = "item_count is" and body = "enc_items is" and inner = "\<lambda>d path. cilines is d path 0"])
  fix fuel pre post and h :: cbor_head and pp :: json_pp and d tp tags
  assume a: "2 * length (enc_items is @ post) + 2 \<le> fuel" "ch_major h = 4" "\<not> ch_indefinite h" "unat (ch_arg h) = item_count is"
    "cfits (CArr is) d tp tags" "jp_depth pp = d + 1" "length (jp_path pp) < 128"
    "length (jp_lines pp) + length (cilines is (d + 1) (jp_path pp) 0) < 2048"
  show "container_loop fuel (pre @ enc_items is @ post) h 0 (length pre) pp
     = Some (Some (length pre + length (enc_items is), pp\<lparr>jp_lines := jp_lines pp @ cilines is (d + 1) (jp_path pp) 0\<rparr>))"
    using assms [unfolded items_decode_def, rule_format, of post fuel h 0 pp "\<lambda>_. []" "jp_lines pp" pre] a
    by (simp add: preceded_def)
qed (use count_items_le [of "is"] in simp_all)

lemma map_decodes:
  assumes "pairs_decode ps"
  shows "item_decodes (CMap ps)"
proof (rule container_decodes [where m = 5 and n = "pair_count ps" and body = "enc_pairs ps" and inner = "\<lambda>d path. cplines ps d path"])
  fix fuel pre post and h :: cbor_head and pp :: json_pp and d tp tags
  assume a: "2 * length (enc_pairs ps @ post) + 2 \<le> fuel" "ch_major h = 5" "\<not> ch_indefinite h" "unat (ch_arg h) = pair_count ps"
    "cfits (CMap ps) d tp tags" "jp_depth pp = d + 1" "length (jp_path pp) < 128"
    "length (jp_lines pp) + length (cplines ps (d + 1) (jp_path pp)) < 2048"
  show "container_loop fuel (pre @ enc_pairs ps @ post) h 0 (length pre) pp
     = Some (Some (length pre + length (enc_pairs ps), pp\<lparr>jp_lines := jp_lines pp @ cplines ps (d + 1) (jp_path pp)\<rparr>))"
    using assms [unfolded pairs_decode_def, rule_format, of post fuel h 0 pp "\<lambda>_. []" "jp_lines pp" pre] a
    by (simp add: preceded_def)
qed (use count_pairs_le [of ps] in simp_all)

lemma cbor_decodes: "item_decodes v \<and> True" "items_decode is" "pairs_decode ps"
  by (induction v and "is" and ps)
    (auto intro: scalars_decode tag_decodes array_decodes map_decodes items_decode_Nil items_decode_Cons pairs_decode_Nil pairs_decode_Cons)

text \<open>
  C20. A payload that encodes a data item (integers, byte and text strings, simple values, tags,
  arrays and maps, in the shortest definite form) within the limits is accepted and shown line by line
  as its structure says; the same payload with any byte after it is refused.
\<close>
theorem cbor_pp_run_lines:
  assumes "cfits v 0 [] 0" "length (clines v 0 [] [] [] 0 []) \<le> 2048"
  shows "\<exists>pp'. cbor_pp_run pp (enc v @ post) = Some (post = [], pp')
     \<and> jp_lines pp' = (if post = [] then clines v 0 [] [] [] 0 [] else [])"
proof -
  let ?p = "json_pp_begin pp"
  have "decode_item (2 * length (enc v @ post) + 1) ([] @ enc v @ post) (length ([] :: u8 list)) ?p [] [] 0
      = Some (Some (length ([] :: u8 list) + length (enc v), ?p\<lparr>jp_lines := jp_lines ?p @ clines v (jp_depth ?p) [] (jp_path ?p) [] 0 []\<rparr>))"
    by (rule item_decodesD [OF cbor_decodes(1) [THEN conjunct1]]) (use assms in \<open>simp_all add: json_pp_begin_def\<close>)
  then show ?thesis
    using enc_ne [of v] by (auto simp: cbor_pp_run_def Let_def json_pp_begin_def)
qed

lemma cbor_pp_run_lines_witness:
  "\<exists>pp'. cbor_pp_run sample_pp (enc (CMap (PCons (KText [0x74]) (CArr (CCons (CUint 300) (CCons (CTag 2 (CSimple 21)) CNil))) PNil))) = Some (True, pp')
     \<and> map (\<lambda>l. (jl_key l, jl_val l, jl_trail l, jl_dot_path l)) (jp_lines pp')
       = [('''', ''{'', '''', ''''), (''t'', ''['', '''', ''t''), ('''', ''300'', '','', ''t.0''), ('''', ''2(true)'', '''', ''t.1''),
          ('''', '']'', '''', ''t''), ('''', ''}'', '''', '''')]"
proof -
  let ?v = "CMap (PCons (KText [0x74]) (CArr (CCons (CUint 300) (CCons (CTag 2 (CSimple 21)) CNil))) PNil)"
  have ch: "char_of (48 :: nat) = CHR ''0''" "char_of (49 :: nat) = CHR ''1''" "char_of (50 :: nat) = CHR ''2''"
    "char_of (51 :: nat) = CHR ''3''" by code_simp+
  have t: "text_byte 0x74 = ''t''" by code_simp
  have 1: "cfits ?v 0 [] 0"
    by (simp add: text_fits_def simple_text_def utf_text_def t dec.simps)
  have 2: "length (clines ?v 0 [] [] [] 0 []) \<le> 2048" by simp
  have 3: "map (\<lambda>l. (jl_key l, jl_val l, jl_trail l, jl_dot_path l)) (clines ?v 0 [] [] [] 0 [])
       = [('''', ''{'', '''', ''''), (''t'', ''['', '''', ''t''), ('''', ''300'', '','', ''t.0''), ('''', ''2(true)'', '''', ''t.1''),
          ('''', '']'', '''', ''t''), ('''', ''}'', '''', '''')]"
    by (simp add: mkline_def scalar_line_def push_seg_def simple_text_def utf_text_def t dec.simps digit_char_def ch)
  from cbor_pp_run_lines [OF 1 2, of sample_pp "[]"] 3 show ?thesis by force
qed

end
