(* ===== verification/Broker_Profile.thy ===== *)
theory Broker_Profile
  imports Util
begin

text \<open>
  \<open>src/src/model/broker_profile.h\<close> and \<open>broker_profile.c\<close>: the connection profile and its
  defaults. A C \<open>int\<close> is an integer, the fixed-width fields are words; the array of
  subscriptions has \<open>MAX_PROFILE_SUBS\<close> slots of which \<open>subscription_count\<close> are in use.
\<close>

definition MAX_PROFILE_SUBS :: nat where [simp]: "MAX_PROFILE_SUBS = 16"

record profile_subscription =
  ps_topic :: string
  ps_qos :: u8

record broker_profile =
  bp_id :: int
  bp_name :: string
  bp_host :: string
  bp_port :: u16
  bp_protocol_version :: int
  bp_client_id :: string
  bp_clean_session :: bool
  bp_keepalive_secs :: u16
  bp_username :: string
  bp_password :: string
  bp_transport :: int
  bp_ws_path :: string
  bp_tls_ca_cert :: string
  bp_tls_client_cert :: string
  bp_tls_client_key :: string
  bp_tls_version :: int
  bp_tls_verify :: bool
  bp_ssh_tunnel_enabled :: bool
  bp_ssh_jump_host :: string
  bp_ssh_jump_port :: u16
  bp_ssh_jump_user :: string
  bp_ssh_jump_key_path :: string
  bp_ssh_jump_password :: string
  bp_subscriptions :: "profile_subscription list"
  bp_subscription_count :: nat

definition zero_subscription :: profile_subscription where
  "zero_subscription = \<lparr>ps_topic = [], ps_qos = 0\<rparr>"

text \<open>All bytes zero.\<close>

definition zero_profile :: broker_profile where
  "zero_profile =
     \<lparr>bp_id = 0, bp_name = [], bp_host = [], bp_port = 0, bp_protocol_version = 0, bp_client_id = [],
      bp_clean_session = False, bp_keepalive_secs = 0, bp_username = [], bp_password = [], bp_transport = 0,
      bp_ws_path = [], bp_tls_ca_cert = [], bp_tls_client_cert = [], bp_tls_client_key = [], bp_tls_version = 0,
      bp_tls_verify = False, bp_ssh_tunnel_enabled = False, bp_ssh_jump_host = [], bp_ssh_jump_port = 0,
      bp_ssh_jump_user = [], bp_ssh_jump_key_path = [], bp_ssh_jump_password = [],
      bp_subscriptions = replicate MAX_PROFILE_SUBS zero_subscription, bp_subscription_count = 0\<rparr>"

definition broker_profile_init_default :: broker_profile where
  "broker_profile_init_default =
     zero_profile\<lparr>bp_port := 1883, bp_protocol_version := 311, bp_clean_session := True, bp_keepalive_secs := 60,
       bp_tls_version := 0, bp_tls_verify := True, bp_ssh_jump_port := 22,
       bp_subscriptions := (replicate MAX_PROFILE_SUBS zero_subscription)
         [0 := \<lparr>ps_topic = ''#'', ps_qos = 1\<rparr>,
          1 := \<lparr>ps_topic = util_str_copy [] 256 (Some ''$SYS/#''), ps_qos = 0\<rparr>],
       bp_subscription_count := 2\<rparr>"

text \<open>Every string fits its buffer and is NUL-free, the numbers are those of a 32-bit \<open>int\<close>.\<close>

abbreviation fits_buffer :: "nat \<Rightarrow> string \<Rightarrow> bool" where
  "fits_buffer cap s \<equiv> is_cstr s \<and> length s < cap"

definition int32 :: "int \<Rightarrow> bool" where
  "int32 i \<longleftrightarrow> - (2 ^ 31) \<le> i \<and> i < 2 ^ 31"

definition profile_wf :: "broker_profile \<Rightarrow> bool" where
  "profile_wf p \<longleftrightarrow> int32 (bp_id p) \<and> int32 (bp_protocol_version p) \<and> int32 (bp_transport p) \<and> int32 (bp_tls_version p)
     \<and> fits_buffer 128 (bp_name p) \<and> fits_buffer 256 (bp_host p) \<and> fits_buffer 128 (bp_client_id p)
     \<and> fits_buffer 128 (bp_username p) \<and> fits_buffer 128 (bp_password p) \<and> fits_buffer 128 (bp_ws_path p)
     \<and> fits_buffer 512 (bp_tls_ca_cert p) \<and> fits_buffer 512 (bp_tls_client_cert p) \<and> fits_buffer 512 (bp_tls_client_key p)
     \<and> fits_buffer 256 (bp_ssh_jump_host p) \<and> fits_buffer 128 (bp_ssh_jump_user p) \<and> fits_buffer 512 (bp_ssh_jump_key_path p)
     \<and> fits_buffer 128 (bp_ssh_jump_password p) \<and> length (bp_subscriptions p) = MAX_PROFILE_SUBS
     \<and> (\<forall>s\<in>set (bp_subscriptions p). fits_buffer 256 (ps_topic s)) \<and> bp_subscription_count p \<le> MAX_PROFILE_SUBS"

abbreviation used_subscriptions :: "broker_profile \<Rightarrow> profile_subscription list" where
  "used_subscriptions p \<equiv> take (bp_subscription_count p) (bp_subscriptions p)"

lemma default_profile_wf: "profile_wf broker_profile_init_default"
proof -
  have r: "replicate MAX_PROFILE_SUBS zero_subscription = zero_subscription # zero_subscription # replicate 14 zero_subscription"
    by (simp add: numeral_eq_Suc)
  show ?thesis
    unfolding profile_wf_def broker_profile_init_default_def zero_profile_def r
    by (simp add: int32_def zero_subscription_def nul_def)
qed

end
