(* ===== verification/Sql_Store.thy ===== *)
theory Sql_Store
  imports Broker_Profile Message_Buf "HOL-Library.Multiset"
begin

text \<open>
  The database that \<open>src/src/platform/db.c\<close> sets up with \<open>SCHEMA_SQL\<close>, and the SQL statements of
  that file as operations on its tables. A table is the list of its rows in rowid order, with the
  last id that \<open>AUTOINCREMENT\<close> handed out. A nullable text column is a \<open>string option\<close>; an
  integer column is an integer.

  Whether SQLite can prepare or step a statement is not the program's choice: every call consumes
  one outcome of the list \<open>db_outcomes\<close>, and succeeds when the list is used up. A statement that
  fails changes nothing.
\<close>

subsection \<open>Tables\<close>

record profile_row =
  pr_id :: int
  pr_name :: string
  pr_host :: string
  pr_port :: int
  pr_protocol_version :: int
  pr_client_id :: "string option"
  pr_clean_session :: int
  pr_keepalive_secs :: int
  pr_username :: "string option"
  pr_password :: "string option"
  pr_tls_ca_cert :: "string option"
  pr_tls_client_cert :: "string option"
  pr_tls_client_key :: "string option"
  pr_tls_version :: int
  pr_tls_verify :: int
  pr_subscriptions :: "string option"
  pr_transport :: int
  pr_ssh_tunnel_enabled :: int
  pr_ssh_jump_host :: "string option"
  pr_ssh_jump_port :: int
  pr_ssh_jump_user :: "string option"
  pr_ssh_jump_key_path :: "string option"
  pr_ssh_jump_password :: "string option"
  pr_ws_path :: "string option"

record message_row =
  ms_id :: int
  ms_topic :: string
  ms_payload :: "bytes option"
  ms_qos :: int
  ms_retained :: int
  ms_timestamp_us :: int
  ms_broker_id :: int

record tables =
  tb_profiles :: "profile_row list"
  tb_profiles_seq :: int
  tb_messages :: "message_row list"
  tb_messages_seq :: int
  tb_settings :: "string \<Rightarrow> string option"
  tb_messages_fts :: "(int \<times> string \<times> bytes option) list"

definition empty_tables :: tables where
  "empty_tables = \<lparr>tb_profiles = [], tb_profiles_seq = 0, tb_messages = [], tb_messages_seq = 0,
     tb_settings = (\<lambda>_. None), tb_messages_fts = []\<rparr>"

text \<open>\<open>struct Db\<close>: the connection with its open transaction, and the scratch buffer.\<close>

record db =
  db_tables :: tables
  db_snapshot :: "tables option"
  db_setting_value :: string
  db_outcomes :: "bool list"

definition update_tables :: "(tables \<Rightarrow> tables) \<Rightarrow> db \<Rightarrow> db" where
  "update_tables f d = d\<lparr>db_tables := f (db_tables d)\<rparr>"

text \<open>One call into SQLite.\<close>

definition sqlite_call :: "db \<Rightarrow> bool \<times> db" where
  "sqlite_call d = (case db_outcomes d of [] \<Rightarrow> (True, d) | b # bs \<Rightarrow> (b, d\<lparr>db_outcomes := bs\<rparr>))"

text \<open>
  Stepping a query: the rows fetched while \<open>count < max_count\<close>, and whether a step failed.
\<close>

fun fetch_rows :: "nat \<Rightarrow> 'r list \<Rightarrow> db \<Rightarrow> 'r list \<times> bool \<times> db" where
  "fetch_rows 0 rows d = ([], False, d)"
| "fetch_rows (Suc n) rows d =
     (let (ok, d) = sqlite_call d in
      if \<not> ok then ([], True, d)
      else
        (case rows of
           [] \<Rightarrow> ([], False, d)
         | r # rs \<Rightarrow> (let (fetched, failed, d) = fetch_rows n rs d in (r # fetched, failed, d))))"

subsection \<open>Statements\<close>

text \<open>\<open>sqlite3_column_int\<close>: the low 32 bits.\<close>

definition column_int :: "int \<Rightarrow> int" where
  "column_int v = sint (word_of_int v :: 32 word)"

text \<open>
  \<open>INSERT OR REPLACE INTO profiles (id, ...) VALUES (NULLIF(?1,0), ...)\<close>: a zero id takes the next
  one, any other id replaces the row that has it. The result is the rowid.
\<close>

definition insert_profile :: "profile_row \<Rightarrow> tables \<Rightarrow> int \<times> tables" where
  "insert_profile row t =
     (let i = (if pr_id row = 0 then tb_profiles_seq t + 1 else pr_id row) in
      (i, t\<lparr>tb_profiles := insort_key pr_id (row\<lparr>pr_id := i\<rparr>) (filter (\<lambda>r. pr_id r \<noteq> i) (tb_profiles t)),
            tb_profiles_seq := max (tb_profiles_seq t) i\<rparr>))"

text \<open>\<open>DELETE FROM profiles WHERE id = ?1\<close>\<close>

definition delete_profile :: "int \<Rightarrow> tables \<Rightarrow> tables" where
  "delete_profile i t = t\<lparr>tb_profiles := filter (\<lambda>r. pr_id r \<noteq> i) (tb_profiles t)\<rparr>"

text \<open>\<open>SELECT ... FROM profiles ORDER BY id\<close>\<close>

definition select_profiles :: "tables \<Rightarrow> profile_row list" where
  "select_profiles t = sort_key pr_id (tb_profiles t)"

text \<open>\<open>INSERT OR REPLACE INTO settings (key, value) VALUES (?1, ?2)\<close>\<close>

definition upsert_setting :: "string \<Rightarrow> string \<Rightarrow> tables \<Rightarrow> tables" where
  "upsert_setting key val t = t\<lparr>tb_settings := (tb_settings t)(key \<mapsto> val)\<rparr>"

text \<open>
  \<open>INSERT INTO messages (...)\<close> with the trigger \<open>messages_fts_ai\<close>, which indexes the new row.
\<close>

definition fts_row :: "message_row \<Rightarrow> int \<times> string \<times> bytes option" where
  "fts_row r = (ms_id r, ms_topic r, ms_payload r)"

definition insert_message :: "message_row \<Rightarrow> tables \<Rightarrow> tables" where
  "insert_message row t =
     (let r = row\<lparr>ms_id := tb_messages_seq t + 1\<rparr> in
      t\<lparr>tb_messages := tb_messages t @ [r], tb_messages_seq := tb_messages_seq t + 1,
        tb_messages_fts := tb_messages_fts t @ [fts_row r]\<rparr>)"

text \<open>
  \<open>DELETE FROM messages WHERE ...\<close> with the trigger \<open>messages_fts_ad\<close>, which takes every deleted
  row out of the index.
\<close>

definition delete_messages :: "(message_row \<Rightarrow> bool) \<Rightarrow> tables \<Rightarrow> tables" where
  "delete_messages doomed t =
     (let gone = set (map ms_id (filter doomed (tb_messages t))) in
      t\<lparr>tb_messages := filter (\<lambda>r. \<not> doomed r) (tb_messages t),
        tb_messages_fts := filter (\<lambda>(i, _). i \<notin> gone) (tb_messages_fts t)\<rparr>)"

text \<open>
  \<open>ORDER BY timestamp_us DESC\<close> leaves the order of equal timestamps to SQLite: a parameter
  \<open>by_time\<close>, which only promises this.
\<close>

definition newest_first :: "(message_row list \<Rightarrow> message_row list) \<Rightarrow> bool" where
  "newest_first by_time \<longleftrightarrow>
     (\<forall>rows. mset (by_time rows) = mset rows \<and> sorted_wrt (\<lambda>a b. ms_timestamp_us b \<le> ms_timestamp_us a) (by_time rows))"

text \<open>\<open>DELETE FROM messages WHERE id NOT IN (SELECT id FROM messages ORDER BY timestamp_us DESC LIMIT ?1)\<close>\<close>

definition trim_messages :: "(message_row list \<Rightarrow> message_row list) \<Rightarrow> nat \<Rightarrow> tables \<Rightarrow> tables" where
  "trim_messages by_time n t =
     (let keep = set (map ms_id (take n (by_time (tb_messages t)))) in delete_messages (\<lambda>r. ms_id r \<notin> keep) t)"

text \<open>\<open>INSERT INTO messages_fts(rowid, topic, payload) SELECT id, topic, CAST(payload AS TEXT) FROM messages\<close>\<close>

definition backfill_fts :: "tables \<Rightarrow> tables" where
  "backfill_fts t = t\<lparr>tb_messages_fts := tb_messages_fts t @ map fts_row (tb_messages t)\<rparr>"

subsection \<open>Transactions\<close>

text \<open>
  \<open>BEGIN\<close> inside a transaction and \<open>COMMIT\<close> or \<open>ROLLBACK\<close> outside of one are errors; the callers
  ignore the results of all three.
\<close>

definition exec_begin :: "db \<Rightarrow> db" where
  "exec_begin d =
     (let (ok, d) = sqlite_call d in
      if ok \<and> db_snapshot d = None then d\<lparr>db_snapshot := Some (db_tables d)\<rparr> else d)"

definition exec_commit :: "db \<Rightarrow> db" where
  "exec_commit d = (let (ok, d) = sqlite_call d in if ok then d\<lparr>db_snapshot := None\<rparr> else d)"

definition exec_rollback :: "db \<Rightarrow> db" where
  "exec_rollback d =
     (let (ok, d) = sqlite_call d in
      case db_snapshot d of
        Some t \<Rightarrow> if ok then d\<lparr>db_tables := t, db_snapshot := None\<rparr> else d
      | None \<Rightarrow> d)"

subsection \<open>Facts about the store\<close>

lemma sqlite_call_ok [simp]: "db_outcomes d = [] \<Longrightarrow> sqlite_call d = (True, d)"
  by (simp add: sqlite_call_def)

lemma sqlite_call_keeps: "sqlite_call d = (ok, d') \<Longrightarrow>
    db_tables d' = db_tables d \<and> db_snapshot d' = db_snapshot d \<and> db_setting_value d' = db_setting_value d"
  by (auto simp: sqlite_call_def split: list.splits)

lemma fetch_rows_keeps: "fetch_rows n rows d = (fetched, failed, d') \<Longrightarrow>
    db_tables d' = db_tables d \<and> db_snapshot d' = db_snapshot d \<and> db_setting_value d' = db_setting_value d
    \<and> fetched = take (length fetched) rows \<and> length fetched \<le> n"
proof (induction n arbitrary: rows d fetched failed d')
  case (Suc n)
  obtain ok d1 where c: "sqlite_call d = (ok, d1)" by force
  note k = sqlite_call_keeps [OF c]
  obtain f b d2 where f: "fetch_rows n (tl rows) d1 = (f, b, d2)" by (metis prod_cases3)
  show ?case
  proof (cases "ok \<and> rows \<noteq> []")
    case True
    then obtain r rs where rs: "rows = r # rs" by (cases rows) auto
    then have "fetched = r # f" "d' = d2" using Suc.prems True f by (simp_all add: c)
    then show ?thesis using Suc.IH [OF f] k by (simp add: rs)
  next
    case False
    then have "fetched = [] \<and> d' = d1" using Suc.prems by (cases ok) (auto simp: c split: list.splits)
    then show ?thesis using k by simp
  qed
qed simp

lemma fetch_rows_ok: "db_outcomes d = [] \<Longrightarrow> fetch_rows n rows d = (take n rows, False, d)"
  by (induction n rows d rule: fetch_rows.induct) (auto split: list.splits)

text \<open>The rows and the index agree, and the ids are distinct and were all handed out.\<close>

definition messages_wf :: "tables \<Rightarrow> bool" where
  "messages_wf t \<longleftrightarrow> distinct (map ms_id (tb_messages t)) \<and> (\<forall>r\<in>set (tb_messages t). ms_id r \<le> tb_messages_seq t)"

definition fts_synced :: "tables \<Rightarrow> bool" where
  "fts_synced t \<longleftrightarrow> messages_wf t \<and> tb_messages_fts t = map fts_row (tb_messages t)"

lemma insert_message_synced: "fts_synced t \<Longrightarrow> fts_synced (insert_message row t)"
  by (auto simp: fts_synced_def messages_wf_def insert_message_def Let_def intro: order_trans)

lemma delete_messages_synced:
  assumes "fts_synced t"
  shows "fts_synced (delete_messages doomed t)"
proof -
  have d: "distinct (map ms_id (tb_messages t))" using assms by (simp add: fts_synced_def messages_wf_def)
  have e: "ms_id r \<in> ms_id ` {x \<in> set (tb_messages t). doomed x} \<longleftrightarrow> doomed r" if "r \<in> set (tb_messages t)" for r
    using that d by (auto simp: distinct_map inj_on_def)
  have "filter (\<lambda>(i, _). i \<notin> ms_id ` {x \<in> set (tb_messages t). doomed x}) (map fts_row (tb_messages t))
      = map fts_row (filter (\<lambda>r. \<not> doomed r) (tb_messages t))"
    unfolding filter_map by (rule arg_cong [where f = "map fts_row"], rule filter_cong) (auto simp: fts_row_def e)
  then show ?thesis
    using assms by (auto simp: fts_synced_def messages_wf_def delete_messages_def Let_def distinct_map_filter)
qed

lemma trim_messages_synced: "fts_synced t \<Longrightarrow> fts_synced (trim_messages by_time n t)"
  by (simp add: trim_messages_def Let_def delete_messages_synced)

text \<open>Trimming keeps the newest rows.\<close>

lemma trim_messages_keeps:
  assumes "newest_first by_time" "messages_wf t"
  shows "mset (tb_messages (trim_messages by_time n t)) = mset (take n (by_time (tb_messages t)))"
proof -
  let ?rows = "tb_messages t" and ?keep = "take n (by_time (tb_messages t))"
  have m: "mset (by_time ?rows) = mset ?rows" using assms(1) by (simp add: newest_first_def)
  have d: "distinct (map ms_id ?rows)" using assms(2) by (simp add: messages_wf_def)
  then have dr: "distinct ?rows" and inj: "inj_on ms_id (set ?rows)" by (simp_all add: distinct_map)
  have sub: "set ?keep \<subseteq> set ?rows" using set_take_subset m by (metis set_mset_mset)
  have dk: "distinct ?keep" using dr m by (metis distinct_take mset_eq_imp_distinct_iff)
  have "ms_id r \<in> set (map ms_id ?keep) \<longleftrightarrow> r \<in> set ?keep" if "r \<in> set ?rows" for r
    using inj_on_image_mem_iff [OF inj that sub] by simp
  then have "filter (\<lambda>r. \<not> ms_id r \<notin> set (map ms_id ?keep)) ?rows = filter (\<lambda>r. r \<in> set ?keep) ?rows"
    by (intro filter_cong) auto
  moreover have "mset (filter (\<lambda>r. r \<in> set ?keep) ?rows) = mset ?keep"
    by (subst set_eq_iff_mset_eq_distinct [symmetric]) (use dk dr sub in auto)
  ultimately show ?thesis by (simp add: trim_messages_def delete_messages_def Let_def)
qed

end
