(* ===== verification/Decimal.thy ===== *)
theory Decimal
  imports Version Json_PP
begin

text \<open>
  Decimal numerals as the C library reads them back: the text of a natural number below
  \<open>2 ^ 53\<close> is a whole number for \<open>strtod\<close>, with exactly that value.
\<close>

lemma dec_inj: "dec m = dec n \<Longrightarrow> m = n"
  by (metis digits_value_dec)

lemma digit_val_value: "is_digit c \<Longrightarrow> digit_val c = digit_value c"
  by (simp add: digit_val_def digit_value_def)

lemma digits_val_value: "\<forall>c\<in>set ds. is_digit c \<Longrightarrow> digits_val 10 ds = digits_value ds"
proof (induction ds rule: rev_induct)
  case (snoc c ds)
  then show ?case by (simp add: digits_val_def digits_value_def digit_val_value)
qed (simp add: digits_val_def digits_value_def)

lemma digits_val_dec [simp]: "digits_val 10 (dec n) = n"
  using digits_val_value [of "dec n"] dec_digits digits_value_dec by auto

lemma is_digit_iff: "is_digit c \<longleftrightarrow> 48 \<le> (of_char c :: nat) \<and> (of_char c :: nat) \<le> 57"
  by (simp add: is_digit_def)

lemma digit_facts:
  assumes "is_digit c"
  shows "\<not> c_space c" "c \<noteq> CHR ''-''" "c \<noteq> CHR ''+''" "lower c = c" "c \<noteq> CHR ''i''" "c \<noteq> CHR ''n''" "c \<noteq> CHR 0x22"
    "\<not> atom_stop c" "c \<noteq> nul" "c \<noteq> CHR ''x''" "c \<noteq> CHR ''X''"
proof -
  have r: "48 \<le> (of_char c :: nat)" "(of_char c :: nat) \<le> 57" using assms by (simp_all add: is_digit_iff)
  show "\<not> c_space c" "lower c = c" using r by (simp_all add: c_space_def lower_def)
  show "c \<noteq> CHR ''-''" "c \<noteq> CHR ''+''" "c \<noteq> CHR ''i''" "c \<noteq> CHR ''n''" "c \<noteq> CHR 0x22" "c \<noteq> nul" "c \<noteq> CHR ''x''" "c \<noteq> CHR ''X''"
    using r by (auto simp: nul_def)
  show "\<not> atom_stop c" using r by (auto simp: atom_stop_def json_ws_def)
qed

lemma dec_hd: "is_digit (hd (dec n))"
  using dec_digits [of "hd (dec n)" n] by simp

lemma dec_Cons: obtains c s where "dec n = c # s" "is_digit c"
  using dec_hd [of n] by (cases "dec n") auto

subsection \<open>Exact rounding\<close>

lemma nbits_bound: "n < 2 ^ k \<Longrightarrow> nbits n \<le> k"
proof (induction n arbitrary: k rule: nbits.induct)
  case (1 n)
  show ?case
  proof (cases "n = 0")
    case True
    then show ?thesis by (simp add: nbits.simps)
  next
    case False
    then obtain j where k: "k = Suc j" using "1.prems" by (cases k) auto
    have "n div 2 < 2 ^ j" using "1.prems" by (simp add: k less_mult_imp_div_less mult.commute)
    then show ?thesis using 1 False by (simp add: nbits.simps [of n] k)
  qed
qed

lemma round_even_int [simp]: "round_even (of_int i) = i"
  by (simp add: round_even_def Let_def)

lemma exp2_neg: "0 \<le> k \<Longrightarrow> exp2 (- k) = 1 / of_int (2 ^ nat k)"
  by (simp add: exp2_def)

lemma exp2_mult_int: "0 \<le> k \<Longrightarrow> of_nat n / exp2 (- k) = of_int (int n * 2 ^ nat k)"
  by (simp add: exp2_neg)

lemma exp2_pos: "0 < exp2 k"
  by (simp add: exp2_def)

lemma binade_nat:
  assumes "0 < n" "n < 2 ^ 53"
  shows "binade (of_nat n) \<le> 52"
proof -
  have "nbits n \<le> 53" by (rule nbits_bound [OF assms(2)])
  moreover have "nbits 1 = 1" by (simp add: nbits.simps)
  moreover have "quotient_of (of_nat n) = (int n, 1)" by (metis of_int_of_nat_eq quotient_of_rat_of_int)
  ultimately show ?thesis by (simp add: binade_def Let_def)
qed

lemma round_dbl_nat:
  assumes "n < 2 ^ 53"
  shows "round_dbl (of_nat n) = Fin (of_nat n)"
proof (cases "n = 0")
  case False
  define e where "e = max (binade (of_nat n)) (- 1022)"
  have e: "e \<le> 52" using binade_nat [of n] False assms by (simp add: e_def)
  let ?u = "exp2 (e - 52)"
  have u: "?u = exp2 (- (52 - e))" by simp
  have q: "of_nat n / ?u = of_int (int n * 2 ^ nat (52 - e))"
    unfolding u by (rule exp2_mult_int) (use e in simp)
  have v: "of_int (round_even (of_nat n / ?u)) * ?u = of_nat n"
  proof -
    have "of_int (round_even (of_nat n / ?u)) * ?u = of_nat n / ?u * ?u" unfolding q round_even_int ..
    also have "\<dots> = of_nat n" using exp2_pos [of "e - 52"] by simp
    finally show ?thesis .
  qed
  have "(of_nat n :: rat) < of_nat (2 ^ 53)" using assms by (simp only: of_nat_less_iff)
  also have "\<dots> \<le> exp2 1024" by (simp add: exp2_def)
  finally have small: "\<not> of_nat n \<ge> exp2 1024" by simp
  have r: "round_dbl (of_nat n) = (let v = of_int (round_even (of_nat n / ?u)) * ?u
      in if v \<ge> exp2 1024 then Inf False else Fin v)"
    using False by (simp add: round_dbl_def Let_def e_def)
  show ?thesis unfolding r v Let_def using small by simp
qed (simp add: round_dbl_def)

subsection \<open>Reading a numeral\<close>

lemma strtod_dec:
  assumes "n < 2 ^ 53"
  shows "strtod (dec n) = Some (Fin (of_nat n), [])"
proof -
  obtain c s where d: "dec n = c # s" "is_digit c" by (rule dec_Cons)
  note f = digit_facts [OF d(2)]
  have all: "\<forall>x\<in>set (dec n). is_digit x" using dec_digits by blast
  have span: "takeWhile is_digit (dec n) = dec n" "dropWhile is_digit (dec n) = []"
    using all by (auto intro: takeWhile_eq_all_conv [THEN iffD2])
  have pre: "\<not> has_prefix ''infinity'' (dec n)" "\<not> has_prefix ''inf'' (dec n)" "\<not> has_prefix ''nan'' (dec n)"
    using f by (simp_all add: has_prefix_def d(1))
  have hex: "\<not> has_prefix ''0x'' (dec n)"
  proof
    assume "has_prefix ''0x'' (dec n)"
    then obtain x r where x: "s = x # r" "lower x = CHR ''x''"
      by (cases s) (auto simp: has_prefix_def d(1))
    then have "is_digit x" using all d(1) by simp
    then show False using x(2) digit_facts [of x] by simp
  qed
  have "scan_mantissa is_digit 10 (dec n) = Some (n, 0, [])"
    by (simp add: scan_mantissa_def span)
  then have "scan_number (dec n) = Some (round_dbl (of_nat n), [])"
    using pre hex by (simp add: scan_number_def scan_exponent_def scale10_def)
  then have "scan_number (dec n) = Some (Fin (of_nat n), [])" by (simp add: round_dbl_nat [OF assms])
  then show ?thesis using f by (simp add: strtod_def d(1) negate_dbl_def)
qed

lemma whole_dec: "n < 2 ^ 53 \<Longrightarrow> whole_number (dec n)"
  by (simp add: whole_number_def strtod_dec isfinite_def)

lemma atom_dec:
  assumes "n < 2 ^ 53"
  shows "atom_is_numeric (dec n)"
proof -
  obtain c s where d: "dec n = c # s" "is_digit c" by (rule dec_Cons)
  have "\<not> hex_literal (dec n)"
  proof
    assume h: "hex_literal (dec n)"
    have "c \<noteq> CHR ''+''" "c \<noteq> CHR ''-''" using digit_facts [OF d(2)] by simp_all
    then have "take 2 (c # s) = ''0x'' \<or> take 2 (c # s) = ''0X''" using h by (simp add: hex_literal_def d(1))
    then obtain x r where x: "s = x # r" "x = CHR ''x'' \<or> x = CHR ''X''" by (cases s) auto
    then have "is_digit x" using dec_digits [of x n] d(1) by simp
    then show False using x(2) digit_facts [of x] by auto
  qed
  then show ?thesis by (simp add: atom_is_numeric_def whole_dec [OF assms])
qed

end
