(* ===== verification/Db_Subscriptions.thy ===== *)
theory Db_Subscriptions
  imports Broker_Profile Decimal
begin

text \<open>
  The JSON text in which \<open>src/src/platform/db.c\<close> stores the subscriptions of a profile, and
  its reader on top of \<open>Json_PP\<close>. A write that would leave the buffer is \<open>None\<close>.
\<close>

subsection \<open>Writing\<close>

text \<open>A guarded write at \<open>pos\<close>.\<close>

definition put_ch :: "nat \<Rightarrow> string \<Rightarrow> char \<Rightarrow> string" where
  "put_ch cap out c = (if length out < cap then out @ [c] else out)"

fun json_string_loop :: "nat \<Rightarrow> string \<Rightarrow> string \<Rightarrow> string" where
  "json_string_loop cap out [] = out"
| "json_string_loop cap out (c # src) =
     (if length out + 2 < cap then json_string_loop cap (out @ esc c) src else out)"

definition append_json_string :: "nat \<Rightarrow> string \<Rightarrow> string \<Rightarrow> string" where
  "append_json_string cap out src = put_ch cap (json_string_loop cap (put_ch cap out (CHR 0x22)) src) (CHR 0x22)"

text \<open>\<open>pos += snprintf(out + pos, cap - pos, ...)\<close>: a truncated text would move \<open>pos\<close> past the buffer.\<close>

definition put_fmt :: "nat \<Rightarrow> string \<Rightarrow> string \<Rightarrow> string option" where
  "put_fmt cap out s = (if length out + length s < cap then Some (out @ s) else None)"

definition topic_label :: string where
  "topic_label = ''{'' @ quote ''topic'' @ '':''"

definition qos_label :: string where
  "qos_label = '','' @ quote ''qos'' @ '':''"

fun serialize_loop :: "nat \<Rightarrow> bool \<Rightarrow> profile_subscription list \<Rightarrow> string \<Rightarrow> string option" where
  "serialize_loop cap first [] out = Some out"
| "serialize_loop cap first (s # ss) out =
     (let out = (if first then out else put_ch cap out (CHR '','')) in
      case put_fmt cap out topic_label of
        None \<Rightarrow> None
      | Some out \<Rightarrow>
          (case put_fmt cap (append_json_string cap out (ps_topic s)) (qos_label @ dec (unat (ps_qos s)) @ ''}'') of
             None \<Rightarrow> None
           | Some out \<Rightarrow> serialize_loop cap False ss out))"

definition serialize_subscriptions :: "broker_profile \<Rightarrow> string option" where
  "serialize_subscriptions profile =
     (let cap = 4 + bp_subscription_count profile * (2 * 256 + 32) in
      case serialize_loop cap True (used_subscriptions profile) ''['' of
        None \<Rightarrow> None
      | Some out \<Rightarrow> (let out = put_ch cap out (CHR '']'') in Some (take (cap - 1) out)))"

subsection \<open>Reading\<close>

text \<open>The formatter of the reader is static; a run resets all that it reads.\<close>

definition json_pp_zero :: json_pp where
  "json_pp_zero = \<lparr>jp_lines = [], jp_cache_src = None, jp_cache_key = 0, jp_src = [], jp_pos = 0, jp_depth = 0, jp_path = []\<rparr>"

text \<open>\<open>(uint8_t)q\<close>; out of range it is undefined.\<close>

definition u8_of_dbl :: "dbl \<Rightarrow> u8 option" where
  "u8_of_dbl q =
     (case q of
        Fin r \<Rightarrow> if - 1 < r \<and> r < 256 then Some (word_of_int (if r < 0 then - \<lfloor>- r\<rfloor> else \<lfloor>r\<rfloor>)) else None
      | _ \<Rightarrow> None)"

text \<open>
  The loop over the indices, until an index has no topic or the array is full. Every index it
  passes is a line of its own, so 2049 rounds are enough.
\<close>

fun deserialize_loop :: "nat \<Rightarrow> json_pp \<Rightarrow> nat \<Rightarrow> broker_profile \<Rightarrow> broker_profile option" where
  "deserialize_loop 0 pp i profile = None"
| "deserialize_loop (Suc rounds) pp i profile =
     (if \<not> bp_subscription_count profile < MAX_PROFILE_SUBS then Some profile
      else
        case json_pp_find pp (snprintf 32 (dec i @ ''.topic'')) of
          None \<Rightarrow> Some profile
        | Some topic \<Rightarrow>
            let qos = json_pp_find pp (snprintf 32 (dec i @ ''.qos''));
                n = bp_subscription_count profile
            in case json_pp_line_string (Some topic) 256 of
                 None \<Rightarrow> None
               | Some None \<Rightarrow> deserialize_loop rounds pp (i + 1) profile
               | Some (Some t) \<Rightarrow>
                   (case json_pp_line_number qos of
                      None \<Rightarrow> None
                    | Some q \<Rightarrow>
                        (case (case q of None \<Rightarrow> Some 0 | Some v \<Rightarrow> u8_of_dbl v) of
                           None \<Rightarrow> None
                         | Some b \<Rightarrow>
                             deserialize_loop rounds pp (i + 1)
                               (profile\<lparr>bp_subscriptions := (bp_subscriptions profile)[n := \<lparr>ps_topic = t, ps_qos = b\<rparr>],
                                        bp_subscription_count := n + 1\<rparr>))))"

definition deserialize_subscriptions :: "broker_profile \<Rightarrow> string option \<Rightarrow> broker_profile option" where
  "deserialize_subscriptions profile subs_text =
     (case subs_text of
        None \<Rightarrow> Some profile
      | Some s \<Rightarrow>
          (case json_pp_run json_pp_zero s of
             None \<Rightarrow> None
           | Some pp \<Rightarrow>
               if jp_lines pp = [] \<or> take 1 (jl_val (jp_lines pp ! 0)) \<noteq> ''['' then Some profile
               else deserialize_loop 2049 pp 0 (profile\<lparr>bp_subscription_count := 0\<rparr>)))"

subsection \<open>The text is a JSON text\<close>

fun subs_items :: "profile_subscription list \<Rightarrow> jitems" where
  "subs_items [] = INil"
| "subs_items (s # ss) =
     ICons [] (JObj [] (MCons [] ''topic'' [] [] (JString (escape (ps_topic s))) []
                 (MCons [] ''qos'' [] [] (JAtom (dec (unat (ps_qos s)))) [] MNil))) [] (subs_items ss)"

definition subs_text :: "profile_subscription list \<Rightarrow> jtext" where
  "subs_text ss = JArr [] (subs_items ss)"

lemma subs_items_Nil [simp]: "subs_items ss = INil \<longleftrightarrow> ss = []"
  by (cases ss) simp_all

lemma json_string_loop_fits:
  "length out + 2 * length src + 2 \<le> cap \<Longrightarrow> json_string_loop cap out src = out @ escape src"
proof (induction src arbitrary: out)
  case (Cons c src)
  have "length (esc c) \<le> 2" by (simp add: esc_def)
  then show ?case using Cons.IH [of "out @ esc c"] Cons.prems by simp
qed simp

lemma append_json_string_fits:
  assumes "length out + 2 * length src + 3 \<le> cap"
  shows "append_json_string cap out src = out @ quote (escape src)"
proof -
  have "json_string_loop cap (out @ [CHR 0x22]) src = out @ [CHR 0x22] @ escape src"
    using json_string_loop_fits [of "out @ [CHR 0x22]" src cap] assms by simp
  moreover have "length (escape src) \<le> 2 * length src" using length_escape by blast
  ultimately show ?thesis using assms by (simp add: append_json_string_def put_ch_def quote_def)
qed

lemma length_dec_byte: "length (dec (unat (q :: u8))) \<le> 3"
proof -
  have "unat q < 256" using unsigned_less [of q] by simp
  then show ?thesis by (subst dec.simps, subst dec.simps, subst dec.simps) simp
qed

lemma items_text:
  "items_str (subs_items (s # ss)) = topic_label @ quote (escape (ps_topic s)) @ qos_label @ dec (unat (ps_qos s)) @ ''}''
     @ (if ss = [] then [] else CHR '','' # items_str (subs_items ss))"
  by (simp add: topic_label_def qos_label_def)

lemma serialize_loop_text:
  assumes "\<forall>s\<in>set ss. length (ps_topic s) < 256"
    and "length out + length ss * 544 + 2 \<le> cap"
  shows "serialize_loop cap first ss out =
      Some (out @ (if first \<or> ss = [] then [] else '','') @ items_str (subs_items ss))
    \<and> length (out @ (if first \<or> ss = [] then [] else '','') @ items_str (subs_items ss)) \<le> length out + length ss * 544"
  using assms
proof (induction ss arbitrary: out first)
  case (Cons s ss)
  let ?o1 = "if first then out else out @ '',''"
  let ?o2 = "?o1 @ topic_label"
  let ?o3 = "?o2 @ quote (escape (ps_topic s))"
  let ?o4 = "?o3 @ qos_label @ dec (unat (ps_qos s)) @ ''}''"
  have t: "length (ps_topic s) < 256" using Cons.prems by simp
  have le: "length (escape (ps_topic s)) \<le> 2 * length (ps_topic s)" using length_escape by blast
  have dl: "length (dec (unat (ps_qos s))) \<le> 3" by (rule length_dec_byte)
  have labels: "length topic_label = 9" "length qos_label = 7" by (simp_all add: topic_label_def qos_label_def)
  have o4: "length ?o4 \<le> length out + 544" using t le dl by (simp add: labels)
  have o1: "length ?o1 \<le> length out + 1" by simp
  have o2: "length ?o2 + 2 * length (ps_topic s) + 3 \<le> cap"
    using Cons.prems(2) t o1 by (simp add: labels del: if_split)
  have o3: "append_json_string cap ?o2 (ps_topic s) = ?o3"
    by (rule append_json_string_fits [OF o2])
  have p1: "(if first then out else put_ch cap out (CHR '','')) = ?o1"
    using Cons.prems(2) by (simp add: put_ch_def)
  have p2: "put_fmt cap ?o1 topic_label = Some ?o2"
    using o2 by (simp add: put_fmt_def)
  have p4: "put_fmt cap ?o3 (qos_label @ dec (unat (ps_qos s)) @ ''}'') = Some ?o4"
    using Cons.prems(2) t o1 le dl by (simp add: put_fmt_def labels del: if_split)
  have step: "serialize_loop cap first (s # ss) out = serialize_loop cap False ss ?o4"
    unfolding serialize_loop.simps Let_def p1 p2 option.case o3 p4 by (rule refl)
  have ih: "serialize_loop cap False ss ?o4 = Some (?o4 @ (if False \<or> ss = [] then [] else '','') @ items_str (subs_items ss))
    \<and> length (?o4 @ (if False \<or> ss = [] then [] else '','') @ items_str (subs_items ss)) \<le> length ?o4 + length ss * 544"
  proof (rule Cons.IH)
    have "length ?o4 + length ss * 544 + 2 \<le> length out + 544 + length ss * 544 + 2" using o4 by (rule add_right_mono [THEN add_right_mono])
    also have "\<dots> \<le> cap" using Cons.prems(2) by simp
    finally show "length ?o4 + length ss * 544 + 2 \<le> cap" .
  qed (use Cons.prems(1) in simp)
  have eqt: "?o4 @ (if False \<or> ss = [] then [] else '','') @ items_str (subs_items ss)
      = out @ (if first \<or> s # ss = [] then [] else '','') @ items_str (subs_items (s # ss))"
    unfolding items_text by (cases "ss = []"; cases first) simp_all
  have b: "length ?o4 + length ss * 544 \<le> length out + length (s # ss) * 544"
  proof -
    have "length ?o4 + length ss * 544 \<le> length out + 544 + length ss * 544" by (rule add_right_mono [OF o4])
    also have "\<dots> = length out + length (s # ss) * 544" by simp
    finally show ?thesis .
  qed
  show ?case
  proof
    show "serialize_loop cap first (s # ss) out
        = Some (out @ (if first \<or> s # ss = [] then [] else '','') @ items_str (subs_items (s # ss)))"
      unfolding step ih [THEN conjunct1] eqt by (rule refl)
    show "length (out @ (if first \<or> s # ss = [] then [] else '','') @ items_str (subs_items (s # ss)))
        \<le> length out + length (s # ss) * 544"
      using ih [THEN conjunct2] b unfolding eqt by (rule order_trans)
  qed
qed simp

lemma serialize_text:
  assumes "\<forall>s\<in>set (used_subscriptions p). length (ps_topic s) < 256" "bp_subscription_count p \<le> length (bp_subscriptions p)"
  shows "serialize_subscriptions p = Some (jtext_str (subs_text (used_subscriptions p)))"
    and "length (jtext_str (subs_text (used_subscriptions p))) \<le> 3 + bp_subscription_count p * 544"
proof -
  let ?ss = "used_subscriptions p" and ?cap = "4 + bp_subscription_count p * (2 * 256 + 32)"
  have n: "length ?ss = bp_subscription_count p" using assms(2) by simp
  have "serialize_loop ?cap True ?ss ''['' = Some (''['' @ items_str (subs_items ?ss))
    \<and> length (''['' @ items_str (subs_items ?ss)) \<le> 1 + length ?ss * 544"
    using serialize_loop_text [OF assms(1), of "''[''" ?cap True] n by simp
  then show "serialize_subscriptions p = Some (jtext_str (subs_text ?ss))"
    and "length (jtext_str (subs_text ?ss)) \<le> 3 + bp_subscription_count p * 544"
    using n by (simp_all add: serialize_subscriptions_def put_ch_def subs_text_def)
qed

subsection \<open>The lines of the text\<close>

definition sub_lines :: "nat \<Rightarrow> profile_subscription \<Rightarrow> string \<Rightarrow> json_line list" where
  "sub_lines i s tr =
     [mkline 1 [] ''{'' [] VAL_PUNCT (dec i) False,
      mkline 2 ''topic'' (quote (escape (ps_topic s))) '','' VAL_STRING (dec i @ ''.topic'')
        (json_pp_quoted_is_numeric (quote (escape (ps_topic s)))),
      mkline 2 ''qos'' (dec (unat (ps_qos s))) [] VAL_ATOM (dec i @ ''.qos'') True,
      mkline 1 [] ''}'' tr VAL_PUNCT (dec i) False]"

lemma unat_u8: "unat (q :: u8) < 256"
  using unsigned_less [of q] by simp

fun subs_lines :: "nat \<Rightarrow> profile_subscription list \<Rightarrow> json_line list" where
  "subs_lines i [] = []"
| "subs_lines i (s # ss) = sub_lines i s (if ss = [] then [] else '','') @ subs_lines (Suc i) ss"

lemma length_dec_small: "n < 1000 \<Longrightarrow> length (dec n) \<le> 3"
  by (subst dec.simps, subst dec.simps, subst dec.simps) simp

lemma subs_ilines: "i + length ss \<le> 1000 \<Longrightarrow> ilines (subs_items ss) 1 [] i = subs_lines i ss"
proof (induction ss arbitrary: i)
  case (Cons s ss)
  have l: "length (dec i) \<le> 3" using Cons.prems by (intro length_dec_small) simp
  have "unat (ps_qos s) < 2 ^ 53" using unat_u8 [of "ps_qos s"] by simp
  then have q: "atom_is_numeric (dec (unat (ps_qos s)))" by (rule atom_dec)
  have p: "push_seg [] (index_seg i) = dec i" using l by (simp add: push_seg_def index_seg_def)
  have k: "push_seg (dec i) ''topic'' = dec i @ ''.topic''" "push_seg (dec i) ''qos'' = dec i @ ''.qos''"
    using l by (simp_all add: push_seg_def)
  show ?case using Cons by (simp add: p k q sub_lines_def numeral_2_eq_2)
qed simp

lemma subs_jlines:
  assumes "length ss \<le> 1000"
  shows "jlines (subs_text ss) 0 [] [] [] =
     mkline 0 [] ''['' [] VAL_PUNCT [] False # subs_lines 0 ss @ [mkline 0 [] '']'' [] VAL_PUNCT [] False]"
  using subs_ilines [of 0 ss] assms by (simp add: subs_text_def)

lemma length_subs_lines: "length (subs_lines i ss) = 4 * length ss"
  by (induction ss arbitrary: i) (simp_all add: sub_lines_def)

lemma dec_eq: "dec m = dec n \<longleftrightarrow> m = n"
  using dec_inj by blast

lemma find_append: "find P (xs @ ys) = (case find P xs of None \<Rightarrow> find P ys | Some x \<Rightarrow> Some x)"
  by (induction xs) auto

lemma dec_dot: "dec m @ CHR ''.'' # x = dec n @ CHR ''.'' # y \<longleftrightarrow> m = n \<and> x = y"
proof
  assume e: "dec m @ CHR ''.'' # x = dec n @ CHR ''.'' # y"
  have t: "takeWhile is_digit (dec k @ CHR ''.'' # z) = dec k" for k z
    using dec_digits by (subst takeWhile_append2) (auto simp: is_digit_def)
  have "dec m = dec n" using arg_cong [OF e, of "takeWhile is_digit"] by (simp only: t)
  then show "m = n \<and> x = y" using e dec_inj by auto
qed simp

lemma dec_no_dot: "dec m \<noteq> dec n @ CHR ''.'' # x"
proof
  assume "dec m = dec n @ CHR ''.'' # x"
  then have "is_digit (CHR ''.'')" using dec_digits [of "CHR ''.''" m] by simp
  then show False by (simp add: is_digit_def)
qed

lemma find_subs_None:
  "i + length ss \<le> k \<or> k < i \<Longrightarrow> find (\<lambda>l. jl_dot_path l = dec k @ CHR ''.'' # x) (subs_lines i ss) = None"
  by (induction ss arbitrary: i) (auto simp: sub_lines_def mkline_def dec_dot dec_no_dot)

lemma find_subs:
  assumes "n < length ss"
  shows "find (\<lambda>l. jl_dot_path l = dec (i + n) @ ''.topic'') (subs_lines i ss) =
      Some (mkline 2 ''topic'' (quote (escape (ps_topic (ss ! n)))) '','' VAL_STRING (dec (i + n) @ ''.topic'')
        (json_pp_quoted_is_numeric (quote (escape (ps_topic (ss ! n))))))"
    and "find (\<lambda>l. jl_dot_path l = dec (i + n) @ ''.qos'') (subs_lines i ss) =
      Some (mkline 2 ''qos'' (dec (unat (ps_qos (ss ! n)))) [] VAL_ATOM (dec (i + n) @ ''.qos'') True)"
  using assms
proof (induction ss arbitrary: i n)
  case (Cons s ss)
  case 1
  show ?case using Cons.IH(1) [of "n - 1" "Suc i"] 1
    by (cases n) (auto simp: sub_lines_def mkline_def dec_dot dec_no_dot dec_eq)
next
  case (Cons s ss)
  case 2
  show ?case using Cons.IH(2) [of "n - 1" "Suc i"] 2
    by (cases n) (auto simp: sub_lines_def mkline_def dec_dot dec_no_dot dec_eq)
qed simp_all

subsection \<open>The round trip\<close>

lemma u8_of_dbl_unat: "u8_of_dbl (Fin (unsigned q)) = Some q"
proof -
  have e: "(unsigned q :: rat) = of_int (uint q)" by simp
  have "uint q = int (unat q)" by simp
  then have "uint q < 256" using unat_u8 [of q] by linarith
  then have "(of_int (uint q) :: rat) < of_int 256" by (simp only: of_int_less_iff)
  moreover have "- 1 < (of_int (uint q) :: rat)" by (rule order.strict_trans2 [of _ "of_int 0"]) (simp, simp only: of_int_le_iff uint_ge_0)
  moreover have "\<not> (of_int (uint q) :: rat) < of_int 0" by (simp only: of_int_less_iff) simp
  ultimately have "u8_of_dbl (Fin (of_int (uint q))) = Some (word_of_int (uint q))"
    by (simp only: u8_of_dbl_def dbl.case floor_of_int of_int_0 of_int_numeral if_True if_False simp_thms)
  then show ?thesis unfolding e by simp
qed

lemma list_update_take: "k < length ss \<Longrightarrow> length ss \<le> length xs \<Longrightarrow>
    (take k ss @ drop k xs)[k := ss ! k] = take (Suc k) ss @ drop (Suc k) xs"
  by (simp add: list_update_append take_Suc_conv_app_nth Cons_nth_drop_Suc [symmetric])

lemma line_number_qos: "json_pp_line_number (Some (mkline d key (dec (unat (q :: u8))) tr VAL_ATOM path True))
    = Some (Some (Fin (of_nat (unat q))))"
proof -
  have "unat q < 2 ^ 53" using unat_u8 [of q] by simp
  then show ?thesis by (simp add: json_pp_line_number_def mkline_def strtod_dec isfinite_def)
qed

lemma deserialize_loop_reads:
  assumes lines: "jp_lines pp = mkline 0 [] ''['' [] VAL_PUNCT [] False # subs_lines 0 ss @ [mkline 0 [] '']'' [] VAL_PUNCT [] False]"
    and n: "length ss \<le> MAX_PROFILE_SUBS" and old: "length xs = MAX_PROFILE_SUBS"
    and topics: "\<forall>s\<in>set ss. length (ps_topic s) < 256"
  shows "k \<le> length ss \<Longrightarrow> length ss < k + rounds \<Longrightarrow>
    deserialize_loop rounds pp k (p\<lparr>bp_subscriptions := take k ss @ drop k xs, bp_subscription_count := k\<rparr>) =
      Some (p\<lparr>bp_subscriptions := ss @ drop (length ss) xs, bp_subscription_count := length ss\<rparr>)"
proof (induction rounds arbitrary: k)
  case (Suc rounds)
  have nodec: "[] \<noteq> dec j @ CHR ''.'' # x" for j x by simp
  have l: "length (dec k) \<le> 3" using Suc.prems(1) n by (intro length_dec_small) simp
  then have sn: "snprintf 32 (dec k @ ''.topic'') = dec k @ ''.topic''" "snprintf 32 (dec k @ ''.qos'') = dec k @ ''.qos''"
    by simp_all
  show ?case
  proof (cases "k < length ss")
    case True
    have f: "json_pp_find pp (dec k @ ''.topic'') = Some (mkline 2 ''topic'' (quote (escape (ps_topic (ss ! k)))) '','' VAL_STRING
          (dec k @ ''.topic'') (json_pp_quoted_is_numeric (quote (escape (ps_topic (ss ! k))))))"
      "json_pp_find pp (dec k @ ''.qos'') = Some (mkline 2 ''qos'' (dec (unat (ps_qos (ss ! k)))) [] VAL_ATOM (dec k @ ''.qos'') True)"
      using find_subs [of k ss 0] True by (simp_all add: json_pp_find_def lines find_append mkline_def)
    have "length (ps_topic (ss ! k)) < 256" using topics True by simp
    then have s: "json_pp_line_string (json_pp_find pp (dec k @ ''.topic'')) 256 = Some (Some (ps_topic (ss ! k)))"
      using unescape_escape [of 256 "ps_topic (ss ! k)" "[]"] by (simp add: f json_pp_line_string_def mkline_def)
    have e: "\<lparr>ps_topic = ps_topic (ss ! k), ps_qos = ps_qos (ss ! k)\<rparr> = ss ! k" by simp
    have m: "k < MAX_PROFILE_SUBS" using True n by simp
    show ?thesis
      using Suc.IH [of "Suc k"] Suc.prems True m s old n
      by (simp add: sn f line_number_qos u8_of_dbl_unat list_update_take e del: MAX_PROFILE_SUBS_def)
  next
    case False
    then have k: "k = length ss" using Suc.prems(1) by simp
    have "json_pp_find pp (dec k @ ''.topic'') = None"
      using find_subs_None [of 0 ss k "''topic''"] k by (simp add: json_pp_find_def lines find_append mkline_def)
    then show ?thesis using n sn unfolding k by (simp del: MAX_PROFILE_SUBS_def)
  qed
qed simp

lemma dec_atom_fits: "d < 64 \<Longrightarrow> length (dec n) < 272 \<Longrightarrow> json_fits (JAtom (dec n)) d"
proof -
  assume a: "d < 64" "length (dec n) < 272"
  obtain c s where d: "dec n = c # s" "is_digit c" by (rule dec_Cons)
  have "\<forall>c\<in>set (dec n). \<not> atom_stop c \<and> c \<noteq> nul" using dec_digits digit_facts by blast
  then have "is_cstr (dec n)" "\<forall>c\<in>set (dec n). \<not> atom_stop c" by (auto simp: is_cstr_def)
  moreover have "hd (dec n) \<noteq> CHR 0x22" using digit_facts(7) [OF d(2)] d(1) by simp
  ultimately show ?thesis using a by simp
qed

lemma subs_fit:
  assumes "\<forall>s\<in>set ss. is_cstr (ps_topic s) \<and> length (escape (ps_topic s)) < 270"
  shows "items_fit (subs_items ss) 1"
  using assms
proof (induction ss)
  case (Cons s ss)
  have "json_fits (JAtom (dec (unat (ps_qos s)))) 2"
    by (rule dec_atom_fits) (use length_dec_byte [of "ps_qos s"] in simp_all)
  then show ?case using Cons by (simp add: body_ok_plain nul_def numeral_2_eq_2 del: json_fits.simps(1))
qed simp

lemma subs_roundtrip:
  assumes "profile_wf p" "\<forall>s\<in>set (used_subscriptions p). length (escape (ps_topic s)) < 270"
    and "length (bp_subscriptions q) = MAX_PROFILE_SUBS"
  shows "\<exists>txt. serialize_subscriptions p = Some txt
    \<and> deserialize_subscriptions q (Some txt) = Some (q\<lparr>bp_subscriptions :=
          used_subscriptions p @ drop (bp_subscription_count p) (bp_subscriptions q),
        bp_subscription_count := bp_subscription_count p\<rparr>)"
proof -
  let ?ss = "used_subscriptions p" and ?q = "q\<lparr>bp_subscription_count := 0\<rparr>"
  let ?s = "jtext_str (subs_text ?ss)"
  have wf: "length (bp_subscriptions p) = 16" "bp_subscription_count p \<le> 16"
    "\<And>s. s \<in> set ?ss \<Longrightarrow> is_cstr (ps_topic s) \<and> length (ps_topic s) < 256"
    using assms(1) by (auto simp: profile_wf_def dest: in_set_takeD)
  have n: "length ?ss = bp_subscription_count p" using wf by simp
  have ser: "serialize_subscriptions p = Some ?s" "length ?s \<le> 3 + bp_subscription_count p * 544"
    by (rule serialize_text; use wf in simp)+
  have fits: "json_fits (subs_text ?ss) 0"
    using subs_fit [of ?ss] assms(2) wf(3) by (simp add: subs_text_def)
  have lines: "jlines (subs_text ?ss) 0 [] [] [] = mkline 0 [] ''['' [] VAL_PUNCT [] False # subs_lines 0 ?ss @ [mkline 0 [] '']'' [] VAL_PUNCT [] False]"
    by (rule subs_jlines) (use n wf(2) in simp)
  have "\<exists>pp'. json_pp_run json_pp_zero ([] @ ?s @ []) = Some pp' \<and> jp_lines pp' = jlines (subs_text ?ss) 0 [] [] []"
    by (rule json_run_shows [OF fits]) (use lines n wf(2) ser(2) length_subs_lines [of 0 ?ss] in \<open>simp_all add: INT32_MAX_def\<close>)
  then obtain pp where pp: "json_pp_run json_pp_zero ?s = Some pp" "jp_lines pp = jlines (subs_text ?ss) 0 [] [] []"
    by auto
  have "deserialize_loop 2049 pp 0 (q\<lparr>bp_subscriptions := take 0 ?ss @ drop 0 (bp_subscriptions q), bp_subscription_count := 0\<rparr>)
      = Some (q\<lparr>bp_subscriptions := ?ss @ drop (length ?ss) (bp_subscriptions q), bp_subscription_count := length ?ss\<rparr>)"
    by (rule deserialize_loop_reads [OF pp(2) [unfolded lines]]) (use n wf assms(3) in simp_all)
  moreover have "q\<lparr>bp_subscriptions := take 0 ?ss @ drop 0 (bp_subscriptions q), bp_subscription_count := 0\<rparr> = ?q" by simp
  ultimately have "deserialize_loop 2049 pp 0 ?q
      = Some (q\<lparr>bp_subscriptions := ?ss @ drop (length ?ss) (bp_subscriptions q), bp_subscription_count := length ?ss\<rparr>)"
    by simp
  then show ?thesis using ser(1) pp n by (simp add: deserialize_subscriptions_def lines mkline_def)
qed

text \<open>
  C22. The subscriptions a profile is stored with are the ones it is loaded with: for a well-formed
  profile whose escaped topics fit the value buffer of the reader, writing never leaves its buffer,
  and reading the text into any profile gives the same topics and QoS values in the same order and
  the same count, whatever was there before.
\<close>
theorem subscriptions_roundtrip:
  assumes "profile_wf p" "\<forall>s\<in>set (used_subscriptions p). length (escape (ps_topic s)) < 270"
    and "length (bp_subscriptions q) = MAX_PROFILE_SUBS"
  shows "\<exists>txt. serialize_subscriptions p = Some txt
    \<and> deserialize_subscriptions q (Some txt) = Some (q\<lparr>bp_subscriptions :=
          used_subscriptions p @ drop (bp_subscription_count p) (bp_subscriptions q),
        bp_subscription_count := bp_subscription_count p\<rparr>)"
  using assms by (rule subs_roundtrip)

lemma subscriptions_roundtrip_witness:
  "\<exists>txt. serialize_subscriptions broker_profile_init_default = Some txt
    \<and> deserialize_subscriptions zero_profile (Some txt) = Some (zero_profile\<lparr>bp_subscriptions :=
          used_subscriptions broker_profile_init_default @ drop 2 (bp_subscriptions zero_profile), bp_subscription_count := 2\<rparr>)"
proof -
  have u: "used_subscriptions broker_profile_init_default = [\<lparr>ps_topic = ''#'', ps_qos = 1\<rparr>, \<lparr>ps_topic = ''$SYS/#'', ps_qos = 0\<rparr>]"
    by (simp add: broker_profile_init_default_def numeral_eq_Suc util_str_copy_def)
  have "bp_subscription_count broker_profile_init_default = 2" by (simp add: broker_profile_init_default_def)
  then show ?thesis
    using subscriptions_roundtrip [OF default_profile_wf, of zero_profile] unfolding u by (simp add: esc_def zero_profile_def)
qed


end
