(* ===== verification/Db.thy ===== *)
theory Db
  imports Sql_Store Db_Subscriptions
begin

text \<open>
  \<open>src/src/platform/db.c\<close>: opening the database, profiles, settings and message history. A NULL
  handle, string or record is \<open>None\<close>; the result of an operation that can run into undefined
  behaviour is an \<open>option\<close>. The parameter \<open>by_time\<close> is the order SQLite gives to rows.
\<close>

subsection \<open>Settings\<close>

definition db_set_setting :: "db option \<Rightarrow> string option \<Rightarrow> string option \<Rightarrow> bool \<times> db option" where
  "db_set_setting handle key val =
     (case (handle, key, val) of
        (Some d, Some k, Some v) \<Rightarrow>
          (let (prepared, d) = sqlite_call d in
           if \<not> prepared then (False, Some d)
           else
             (let (stepped, d) = sqlite_call d in
              if \<not> stepped then (False, Some d) else (True, Some (update_tables (upsert_setting k v) d))))
      | _ \<Rightarrow> (False, handle))"

definition db_get_setting :: "db option \<Rightarrow> string option \<Rightarrow> string option \<Rightarrow> string option \<times> db option" where
  "db_get_setting handle key fallback =
     (case (handle, key) of
        (Some d, Some k) \<Rightarrow>
          (let (prepared, d) = sqlite_call d in
           if \<not> prepared then (fallback, Some d)
           else
             (let (stepped, d) = sqlite_call d in
              case (if stepped then tb_settings (db_tables d) k else None) of
                Some v \<Rightarrow>
                  (let buf = util_str_copy (db_setting_value d) 1024 (Some v)
                   in (Some buf, Some (d\<lparr>db_setting_value := buf\<rparr>)))
              | None \<Rightarrow> (fallback, Some d)))
      | _ \<Rightarrow> (fallback, handle))"

subsection \<open>Opening and closing\<close>

text \<open>
  \<open>file\<close> is the content of the database file, already with the columns that the eight
  \<open>ALTER TABLE\<close> statements add (their results are ignored); a new file has empty tables. Opening
  fails when \<open>sqlite3_open\<close> or the schema setup does.
\<close>

definition ignore_calls :: "nat \<Rightarrow> db \<Rightarrow> db" where
  "ignore_calls n d = ((\<lambda>d. snd (sqlite_call d)) ^^ n) d"

definition db_open :: "tables option \<Rightarrow> bool list \<Rightarrow> db option" where
  "db_open file outcomes =
     (let d = \<lparr>db_tables = (case file of None \<Rightarrow> empty_tables | Some t \<Rightarrow> t), db_snapshot = None,
               db_setting_value = [], db_outcomes = outcomes\<rparr>;
          (opened, d) = sqlite_call d
      in if \<not> opened then None
         else
           (let (created, d) = sqlite_call d in
            if \<not> created then None
            else
              (let d = ignore_calls 8 d;
                   (val, handle) = db_get_setting (Some d) (Some ''messages_fts_backfilled'') None
               in case (val, handle) of
                    (None, Some d) \<Rightarrow>
                      (let (filled, d) = sqlite_call d in
                       if \<not> filled then Some d
                       else snd (db_set_setting (Some (update_tables backfill_fts d)) (Some ''messages_fts_backfilled'') (Some ''1'')))
                  | _ \<Rightarrow> handle)))"

text \<open>Closing rolls an open transaction back; what remains is the content of the file.\<close>

definition db_close :: "db option \<Rightarrow> tables option" where
  "db_close handle = map_option (\<lambda>d. case db_snapshot d of None \<Rightarrow> db_tables d | Some t \<Rightarrow> t) handle"

subsection \<open>Profiles\<close>

abbreviation of_bool_int :: "bool \<Rightarrow> int" where
  "of_bool_int b \<equiv> (if b then 1 else 0)"

text \<open>The values bound to the 24 parameters.\<close>

definition bind_profile :: "broker_profile \<Rightarrow> string \<Rightarrow> profile_row" where
  "bind_profile p subs =
     \<lparr>pr_id = bp_id p, pr_name = bp_name p, pr_host = bp_host p, pr_port = uint (bp_port p),
      pr_protocol_version = bp_protocol_version p, pr_client_id = Some (bp_client_id p),
      pr_clean_session = of_bool_int (bp_clean_session p), pr_keepalive_secs = uint (bp_keepalive_secs p),
      pr_username = Some (bp_username p), pr_password = Some (bp_password p),
      pr_tls_ca_cert = Some (bp_tls_ca_cert p), pr_tls_client_cert = Some (bp_tls_client_cert p),
      pr_tls_client_key = Some (bp_tls_client_key p), pr_tls_version = bp_tls_version p,
      pr_tls_verify = of_bool_int (bp_tls_verify p), pr_subscriptions = Some subs,
      pr_transport = bp_transport p, pr_ssh_tunnel_enabled = of_bool_int (bp_ssh_tunnel_enabled p),
      pr_ssh_jump_host = Some (bp_ssh_jump_host p), pr_ssh_jump_port = uint (bp_ssh_jump_port p),
      pr_ssh_jump_user = Some (bp_ssh_jump_user p), pr_ssh_jump_key_path = Some (bp_ssh_jump_key_path p),
      pr_ssh_jump_password = Some (bp_ssh_jump_password p), pr_ws_path = Some (bp_ws_path p)\<rparr>"

definition db_save_profile ::
    "db option \<Rightarrow> broker_profile option \<Rightarrow> (bool \<times> db option \<times> broker_profile option) option" where
  "db_save_profile handle profile =
     (case (handle, profile) of
        (Some d, Some p) \<Rightarrow>
          (case serialize_subscriptions p of
             None \<Rightarrow> None
           | Some subs \<Rightarrow>
               (let (prepared, d) = sqlite_call d in
                if \<not> prepared then Some (False, Some d, Some p)
                else
                  let was_new = (bp_id p = 0);
                      (stepped, d) = sqlite_call d
                  in if \<not> stepped then Some (False, Some d, Some p)
                     else
                       let (rowid, t) = insert_profile (bind_profile p subs) (db_tables d);
                           p = (if was_new then p\<lparr>bp_id := column_int rowid\<rparr> else p)
                       in Some (True, Some (d\<lparr>db_tables := t\<rparr>), Some p)))
      | _ \<Rightarrow> Some (False, handle, profile))"

definition db_delete_profile :: "db option \<Rightarrow> int \<Rightarrow> bool \<times> db option" where
  "db_delete_profile handle profile_id =
     (case handle of
        None \<Rightarrow> (False, None)
      | Some d \<Rightarrow>
          (let (prepared, d) = sqlite_call d in
           if \<not> prepared then (False, Some d)
           else
             (let (stepped, d) = sqlite_call d in
              if \<not> stepped then (False, Some d) else (True, Some (update_tables (delete_profile profile_id) d)))))"

text \<open>One row into a zeroed profile: the body of the loop of \<open>db_load_profiles\<close>.\<close>

definition load_profile_row :: "profile_row \<Rightarrow> broker_profile option" where
  "load_profile_row r =
     (let z = zero_profile;
          p = \<lparr>bp_id = column_int (pr_id r),
               bp_name = util_str_copy (bp_name z) 128 (Some (pr_name r)),
               bp_host = util_str_copy (bp_host z) 256 (Some (pr_host r)),
               bp_port = word_of_int (column_int (pr_port r)),
               bp_protocol_version = column_int (pr_protocol_version r),
               bp_client_id = util_str_copy (bp_client_id z) 128 (pr_client_id r),
               bp_clean_session = (column_int (pr_clean_session r) \<noteq> 0),
               bp_keepalive_secs = word_of_int (column_int (pr_keepalive_secs r)),
               bp_username = util_str_copy (bp_username z) 128 (pr_username r),
               bp_password = util_str_copy (bp_password z) 128 (pr_password r),
               bp_transport = column_int (pr_transport r),
               bp_ws_path = util_str_copy (bp_ws_path z) 128 (pr_ws_path r),
               bp_tls_ca_cert = util_str_copy (bp_tls_ca_cert z) 512 (pr_tls_ca_cert r),
               bp_tls_client_cert = util_str_copy (bp_tls_client_cert z) 512 (pr_tls_client_cert r),
               bp_tls_client_key = util_str_copy (bp_tls_client_key z) 512 (pr_tls_client_key r),
               bp_tls_version = column_int (pr_tls_version r),
               bp_tls_verify = (column_int (pr_tls_verify r) \<noteq> 0),
               bp_ssh_tunnel_enabled = (column_int (pr_ssh_tunnel_enabled r) \<noteq> 0),
               bp_ssh_jump_host = util_str_copy (bp_ssh_jump_host z) 256 (pr_ssh_jump_host r),
               bp_ssh_jump_port = word_of_int (column_int (pr_ssh_jump_port r)),
               bp_ssh_jump_user = util_str_copy (bp_ssh_jump_user z) 128 (pr_ssh_jump_user r),
               bp_ssh_jump_key_path = util_str_copy (bp_ssh_jump_key_path z) 512 (pr_ssh_jump_key_path r),
               bp_ssh_jump_password = util_str_copy (bp_ssh_jump_password z) 128 (pr_ssh_jump_password r),
               bp_subscriptions = bp_subscriptions z,
               bp_subscription_count = 0\<rparr>
      in deserialize_subscriptions p (pr_subscriptions r))"

text \<open>The array holds the loaded profiles at its front.\<close>

fun load_profile_rows :: "profile_row list \<Rightarrow> broker_profile list option" where
  "load_profile_rows [] = Some []"
| "load_profile_rows (r # rs) =
     (case load_profile_row r of
        None \<Rightarrow> None
      | Some p \<Rightarrow> (case load_profile_rows rs of None \<Rightarrow> None | Some ps \<Rightarrow> Some (p # ps)))"

definition db_load_profiles ::
    "db option \<Rightarrow> broker_profile list \<Rightarrow> int \<Rightarrow> (nat \<times> broker_profile list \<times> db option) option" where
  "db_load_profiles handle profiles max_count =
     (case handle of
        None \<Rightarrow> Some (0, profiles, None)
      | Some d \<Rightarrow>
          if max_count \<le> 0 then Some (0, profiles, Some d)
          else
            (let (prepared, d) = sqlite_call d in
             if \<not> prepared then Some (0, profiles, Some d)
             else
               let (rows, _, d) = fetch_rows (nat max_count) (select_profiles (db_tables d)) d in
               case load_profile_rows rows of
                 None \<Rightarrow> None
               | Some ps \<Rightarrow> Some (length ps, ps @ drop (length ps) profiles, Some d)))"

subsection \<open>Message history\<close>

text \<open>
  The values bound for one record. A payload of \<open>2 ^ 31\<close> bytes or more would be bound with a
  negative length.
\<close>

definition bind_message :: "heap \<Rightarrow> slot \<Rightarrow> message_row option" where
  "bind_message h r =
     (let row = (\<lambda>blob. \<lparr>ms_id = 0, ms_topic = mr_topic r, ms_payload = blob, ms_qos = uint (mr_qos r),
                         ms_retained = of_bool_int (mr_retained r),
                         ms_timestamp_us = sint (mr_timestamp_us r), ms_broker_id = uint (mr_broker_id r)\<rparr>);
          n = unat (mr_payload_len r)
      in case mr_payload r of
           Some a \<Rightarrow>
             if mr_payload_len r > 0 then
               (case hp_blocks h a of
                  None \<Rightarrow> None
                | Some b \<Rightarrow> if n < 2 ^ 31 \<and> n \<le> length b then Some (row (Some (take n b))) else None)
             else Some (row None)
         | None \<Rightarrow> Some (row None))"

fun save_messages_loop :: "heap \<Rightarrow> slot list \<Rightarrow> db \<Rightarrow> (bool \<times> db) option" where
  "save_messages_loop h [] d = Some (True, d)"
| "save_messages_loop h (r # rs) d =
     (case bind_message h r of
        None \<Rightarrow> None
      | Some row \<Rightarrow>
          (let (stepped, d) = sqlite_call d in
           if \<not> stepped then Some (False, d) else save_messages_loop h rs (update_tables (insert_message row) d)))"

definition db_save_messages :: "db option \<Rightarrow> heap \<Rightarrow> slot list \<Rightarrow> int \<Rightarrow> (bool \<times> db option) option" where
  "db_save_messages handle h records n =
     (case handle of
        None \<Rightarrow> Some (False, None)
      | Some d \<Rightarrow>
          if n \<le> 0 then Some (False, Some d)
          else
            (let (prepared, d) = sqlite_call d in
             if \<not> prepared then Some (False, Some d)
             else if nat n > length records then None
             else
               (case save_messages_loop h (take (nat n) records) (exec_begin d) of
                  None \<Rightarrow> None
                | Some (ok, d) \<Rightarrow> Some (ok, Some (if ok then exec_commit d else exec_rollback d)))))"

text \<open>A fetched row as a zeroed record with its own copy of the payload.\<close>

definition load_message_row :: "message_row \<Rightarrow> heap \<Rightarrow> slot \<times> heap" where
  "load_message_row m h =
     (let r = zero_record\<lparr>mr_topic := util_str_copy [] 256 (Some (ms_topic m)), mr_qos := word_of_int (column_int (ms_qos m)),
                mr_retained := (column_int (ms_retained m) \<noteq> 0), mr_timestamp_us := word_of_int (ms_timestamp_us m),
                mr_broker_id := word_of_int (ms_broker_id m)\<rparr>
      in case ms_payload m of
           Some blob \<Rightarrow>
             if length blob > 0 then
               (let (a, h) = heap_malloc blob h in
                (r\<lparr>mr_payload := Some a, mr_payload_len := word_of_nat (length blob),
                   mr_preview := fst (util_preview_sanitize [] 512 blob)\<rparr>, h))
             else (r, h)
         | None \<Rightarrow> (r, h))"

fun load_message_rows :: "message_row list \<Rightarrow> heap \<Rightarrow> slot list \<times> heap" where
  "load_message_rows [] h = ([], h)"
| "load_message_rows (m # ms) h =
     (let (r, h) = load_message_row m h; (rs, h) = load_message_rows ms h in (r # rs, h))"

definition db_load_messages ::
    "(message_row list \<Rightarrow> message_row list) \<Rightarrow> db option \<Rightarrow> heap \<Rightarrow> slot list \<Rightarrow> int \<Rightarrow> nat \<times> slot list \<times> heap \<times> db option" where
  "db_load_messages by_time handle h records max_count =
     (case handle of
        None \<Rightarrow> (0, records, h, None)
      | Some d \<Rightarrow>
          if max_count \<le> 0 then (0, records, h, Some d)
          else
            (let (prepared, d) = sqlite_call d in
             if \<not> prepared then (0, records, h, Some d)
             else
               let (rows, _, d) = fetch_rows (nat max_count) (take (nat max_count) (by_time (tb_messages (db_tables d)))) d;
                   (rs, h) = load_message_rows rows h
               in (length rs, rs @ drop (length rs) records, h, Some d)))"

definition db_trim_messages :: "(message_row list \<Rightarrow> message_row list) \<Rightarrow> db option \<Rightarrow> int \<Rightarrow> bool \<times> db option" where
  "db_trim_messages by_time handle max_rows =
     (case handle of
        None \<Rightarrow> (False, None)
      | Some d \<Rightarrow>
          if max_rows < 0 then (False, Some d)
          else
            (let (prepared, d) = sqlite_call d in
             if \<not> prepared then (False, Some d)
             else
               (let (stepped, d) = sqlite_call d in
                if \<not> stepped then (False, Some d)
                else (True, Some (update_tables (trim_messages by_time (nat max_rows)) d)))))"

definition db_delete_topic_messages :: "db option \<Rightarrow> string option \<Rightarrow> bool \<times> db option" where
  "db_delete_topic_messages handle topic =
     (case (handle, topic) of
        (Some d, Some tp) \<Rightarrow>
          (let (prepared, d) = sqlite_call d in
           if \<not> prepared then (False, Some d)
           else
             (let (stepped, d) = sqlite_call d in
              if \<not> stepped then (False, Some d)
              else (True, Some (update_tables (delete_messages (\<lambda>r. ms_topic r = tp)) d))))
      | _ \<Rightarrow> (False, handle))"

subsection \<open>Flushing the history ring\<close>

text \<open>The copy of one batch out of the ring; a record that is not there leaves the old entry.\<close>

definition fill_batch :: "message_buf \<Rightarrow> u32 \<Rightarrow> u32 \<Rightarrow> slot list \<Rightarrow> slot list" where
  "fill_batch history start n batch =
     fold (\<lambda>i batch. case message_buf_get history (start + word_of_nat i) of
                        None \<Rightarrow> batch
                      | Some r \<Rightarrow> batch[i := r]) [0..<unat n] batch"

text \<open>
  The loop over the batches, with at most \<open>rounds\<close> of them. The result of \<open>db_save_messages\<close> is
  ignored.
\<close>

fun flush_loop :: "nat \<Rightarrow> u64 \<Rightarrow> u64 \<Rightarrow> heap \<Rightarrow> message_buf \<Rightarrow> db option \<times> u64 \<times> slot list \<Rightarrow> (db option \<times> u64 \<times> slot list) option" where
  "flush_loop 0 window_start pushed h history s = None"
| "flush_loop (Suc rounds) window_start pushed h history (handle, saved, batch) =
     (if saved < pushed then
        (let new_count = (ucast (pushed - saved) :: u32);
             new_count = (if new_count > 256 then 256 else new_count);
             start = (ucast (saved - window_start) :: u32);
             batch = fill_batch history start new_count batch
         in case db_save_messages handle h batch (uint new_count) of
              None \<Rightarrow> None
            | Some (_, handle) \<Rightarrow> flush_loop rounds window_start pushed h history (handle, saved + ucast new_count, batch))
      else Some (handle, saved, batch))"

definition db_flush_history ::
    "(message_row list \<Rightarrow> message_row list) \<Rightarrow> db option \<Rightarrow> heap \<Rightarrow> message_buf \<Rightarrow> u64 \<times> slot list \<Rightarrow> (db option \<times> u64 \<times> slot list) option" where
  "db_flush_history by_time handle h history s =
     (let (saved, batch) = s;
          pushed = message_buf_generation history;
          window_start = pushed - ucast (message_buf_count history);
          saved = (if saved < window_start then window_start else saved)
      in if saved \<ge> pushed then Some (handle, saved, batch)
         else
           (case flush_loop (Suc (unat (message_buf_count history))) window_start pushed h history (handle, saved, batch) of
              None \<Rightarrow> None
            | Some (handle, saved, batch) \<Rightarrow> Some (snd (db_trim_messages by_time handle 10000), saved, batch)))"

subsection \<open>Full-text search\<close>

definition fts_blank :: "char \<Rightarrow> bool" where
  "fts_blank c \<longleftrightarrow> c = CHR '' '' \<or> c = CHR 0x09"

definition fts_put :: "nat \<Rightarrow> char \<Rightarrow> string \<Rightarrow> string" where
  "fts_put cap c out = (if length out + 1 < cap then out @ [c] else out)"

fun fts_word :: "nat \<Rightarrow> string \<Rightarrow> string \<Rightarrow> string" where
  "fts_word cap [] out = out"
| "fts_word cap (c # w) out =
     fts_word cap w (if c = CHR 0x22 then (if length out + 2 < cap then out @ [CHR 0x22, CHR 0x22] else out)
                     else fts_put cap c out)"

lemma fts_rest_shorter:
  assumes "dropWhile fts_blank p \<noteq> []"
  shows "length (dropWhile (\<lambda>c. \<not> fts_blank c) (dropWhile fts_blank p)) < length p"
proof -
  let ?q = "dropWhile fts_blank p"
  have "\<not> fts_blank (hd ?q)" using hd_dropWhile [OF assms] .
  then have "length (dropWhile (\<lambda>c. \<not> fts_blank c) ?q) < length ?q"
    using assms length_dropWhile_le [of "\<lambda>c. \<not> fts_blank c" "tl ?q"] by (cases ?q) auto
  also have "\<dots> \<le> length p" by (rule length_dropWhile_le)
  finally show ?thesis .
qed

function fts_words :: "nat \<Rightarrow> bool \<Rightarrow> string \<Rightarrow> string \<Rightarrow> string" where
  "fts_words cap first_word p out =
     (let p = dropWhile fts_blank p in
      if p = [] then out
      else
        let out = (if first_word then out else fts_put cap (CHR '' '') out);
            out = fts_put cap (CHR 0x22) out;
            out = fts_word cap (takeWhile (\<lambda>c. \<not> fts_blank c) p) out;
            out = fts_put cap (CHR 0x22) out
        in fts_words cap False (dropWhile (\<lambda>c. \<not> fts_blank c) p) out)"
  by pat_completeness auto
termination
  by (relation "measure (\<lambda>(cap, first_word, p, out). length p)") (auto simp: fts_rest_shorter)

declare fts_words.simps [simp del]

definition build_fts_query :: "string \<Rightarrow> string \<Rightarrow> nat \<Rightarrow> string" where
  "build_fts_query input out out_cap =
     (if out_cap = 0 then out
      else
        let q = fts_words out_cap True input []
        in if length q > 0 \<and> length q + 1 < out_cap then q @ ''*'' else q)"

text \<open>
  \<open>fts_match query index\<close> is SQLite's answer to \<open>MATCH\<close>, ranked: the ids of the matching rows, or
  \<open>None\<close> for a query it cannot parse. The join with \<open>messages\<close> fetches the rows.
\<close>

definition fts_join :: "tables \<Rightarrow> int list \<Rightarrow> message_row list" where
  "fts_join t ids = concat (map (\<lambda>i. filter (\<lambda>m. ms_id m = i) (tb_messages t)) ids)"

definition search_row :: "message_row \<Rightarrow> slot" where
  "search_row m =
     zero_record\<lparr>mr_topic := util_str_copy [] 256 (Some (ms_topic m)), mr_qos := word_of_int (column_int (ms_qos m)),
       mr_retained := (column_int (ms_retained m) \<noteq> 0), mr_timestamp_us := word_of_int (ms_timestamp_us m),
       mr_broker_id := word_of_int (ms_broker_id m),
       mr_preview := fst (util_preview_sanitize [] 512 (case ms_payload m of None \<Rightarrow> [] | Some blob \<Rightarrow> blob))\<rparr>"

definition db_search_messages ::
    "(string \<Rightarrow> (int \<times> string \<times> bytes option) list \<Rightarrow> int list option) \<Rightarrow> db option \<Rightarrow> string option \<Rightarrow> slot list \<Rightarrow> int
       \<Rightarrow> int \<times> slot list \<times> db option" where
  "db_search_messages fts_match handle query results max_count =
     (case (handle, query) of
        (Some d, Some q) \<Rightarrow>
          (if max_count \<le> 0 then (0, results, Some d)
           else
             let q = dropWhile fts_blank q in
             if q = [] then (0, results, Some d)
             else
               let fts_query = build_fts_query q [] 600;
                   (prepared, d) = sqlite_call d
               in if \<not> prepared then (- 1, results, Some d)
                  else
                    (case fts_match fts_query (tb_messages_fts (db_tables d)) of
                       None \<Rightarrow> (- 1, results, Some (snd (sqlite_call d)))
                     | Some ids \<Rightarrow>
                         let (rows, failed, d) = fetch_rows (nat max_count) (take (nat max_count) (fts_join (db_tables d) ids)) d;
                             rs = map search_row rows;
                             results = rs @ drop (length rs) results
                         in if failed then (- 1, results, Some d) else (int (length rs), results, Some d)))
      | _ \<Rightarrow> (0, results, handle))"

subsection \<open>The path of the database\<close>

text \<open>
  \<open>getenv\<close> is a parameter, as is the platform. The result is the text in \<open>out\<close> and the directory
  that \<open>mkdir\<close> is called on.
\<close>

definition db_resolve_path :: "bool \<Rightarrow> (string \<Rightarrow> string option) \<Rightarrow> nat \<Rightarrow> string \<times> string option" where
  "db_resolve_path apple getenv out_size =
     (case getenv ''MQTT_VIEWER_DB_PATH'' of
        Some path \<Rightarrow> (snprintf out_size path, None)
      | None \<Rightarrow>
          (case getenv ''HOME'' of
             None \<Rightarrow> (snprintf out_size ''mqtt_viewer.db'', None)
           | Some home \<Rightarrow>
               let dir = snprintf 1024
                     (if apple then home @ ''/Library/Application Support/mqtt-viewer''
                      else (case getenv ''XDG_DATA_HOME'' of
                              Some xdg \<Rightarrow> xdg @ ''/mqtt-viewer''
                            | None \<Rightarrow> home @ ''/.local/share/mqtt-viewer''))
               in (snprintf out_size (dir @ ''/mqtt-viewer.db''), Some dir)))"

end
