(* ===== verification/Db_Profiles.thy ===== *)
theory Db_Profiles
  imports Db
begin

text \<open>
  Storing and loading broker profiles: the proofs about \<open>db_save_profile\<close> and \<open>db_load_profiles\<close>.
\<close>

subsection \<open>A profile row is read back as it was bound\<close>

lemma column_int_id: "int32 v \<Longrightarrow> column_int v = v"
  by (simp add: column_int_def int32_def sint_sbintrunc' signed_take_bit_int_eq_self)

lemma int32_uint16 [simp]: "int32 (uint (w :: u16))"
proof -
  have "uint w < 2 ^ 16" using uint_lt2p [of w] by simp
  moreover have "- 2147483648 \<le> uint w" by (rule order_trans [OF _ uint_ge_0]) simp
  ultimately show ?thesis by (simp add: int32_def)
qed

lemma column_int_bool [simp]: "column_int (if b then 1 else 0) \<noteq> 0 \<longleftrightarrow> b"
  by (simp add: column_int_id int32_def)

text \<open>The profile with its unused subscription slots zeroed.\<close>

definition canon_profile :: "broker_profile \<Rightarrow> broker_profile" where
  "canon_profile p = p\<lparr>bp_subscriptions := used_subscriptions p @ drop (bp_subscription_count p) (replicate MAX_PROFILE_SUBS zero_subscription)\<rparr>"

definition topics_fit :: "broker_profile \<Rightarrow> bool" where
  "topics_fit p \<longleftrightarrow> (\<forall>s\<in>set (used_subscriptions p). length (escape (ps_topic s)) < 270)"

lemma load_bound_profile:
  assumes "profile_wf p" "topics_fit p" "int32 i" "serialize_subscriptions p = Some subs"
  shows "load_profile_row ((bind_profile p subs)\<lparr>pr_id := i\<rparr>) = Some (canon_profile (p\<lparr>bp_id := i\<rparr>))"
proof -
  let ?q = "p\<lparr>bp_id := i, bp_subscriptions := bp_subscriptions zero_profile, bp_subscription_count := 0\<rparr>"
  have "deserialize_subscriptions ?q (Some subs) = Some (canon_profile (p\<lparr>bp_id := i\<rparr>))"
    using subs_roundtrip [OF assms(1), of ?q] assms(2,4)
    by (simp add: canon_profile_def topics_fit_def zero_profile_def del: MAX_PROFILE_SUBS_def)
  moreover have "load_profile_row ((bind_profile p subs)\<lparr>pr_id := i\<rparr>) = deserialize_subscriptions ?q (Some subs)"
    using assms(1,3) by (cases p) (simp add: load_profile_row_def bind_profile_def Let_def profile_wf_def column_int_id)
  ultimately show ?thesis by simp
qed

definition rows_read :: "profile_row list \<Rightarrow> broker_profile list \<Rightarrow> bool" where
  "rows_read = list_all2 (\<lambda>r p. load_profile_row r = Some p)"

lemma load_profile_rows_iff: "load_profile_rows rs = Some ps \<longleftrightarrow> rows_read rs ps"
proof (induction rs arbitrary: ps)
  case (Cons r rs)
  then show ?case by (cases ps) (auto simp: rows_read_def Cons.IH [symmetric, unfolded rows_read_def] split: option.splits)
qed (auto simp: rows_read_def)

lemma deserialize_loop_id: "deserialize_loop n pp i p = Some q \<Longrightarrow> bp_id q = bp_id p"
  by (induction n pp i p rule: deserialize_loop.induct) (auto simp: Let_def split: if_splits option.splits)

lemma deserialize_id: "deserialize_subscriptions p s = Some q \<Longrightarrow> bp_id q = bp_id p"
  by (auto simp: deserialize_subscriptions_def dest: deserialize_loop_id split: option.splits if_splits)

lemma load_profile_row_id: "load_profile_row r = Some p \<Longrightarrow> int32 (pr_id r) \<Longrightarrow> bp_id p = pr_id r"
  unfolding load_profile_row_def Let_def by (drule deserialize_id) (simp add: column_int_id)

lemma rows_read_filter:
  "rows_read rs ps \<Longrightarrow> \<forall>r\<in>set rs. int32 (pr_id r) \<Longrightarrow>
    rows_read (filter (\<lambda>r. pr_id r \<noteq> i) rs) (filter (\<lambda>p. bp_id p \<noteq> i) ps)"
  unfolding rows_read_def by (induction rs ps rule: list_all2_induct) (auto simp: load_profile_row_id)

lemma rows_read_insort:
  "rows_read rs ps \<Longrightarrow> \<forall>r\<in>set rs. int32 (pr_id r) \<Longrightarrow> load_profile_row r = Some p \<Longrightarrow> int32 (pr_id r) \<Longrightarrow>
    rows_read (insort_key pr_id r rs) (insort_key bp_id p ps)"
  unfolding rows_read_def by (induction rs ps rule: list_all2_induct) (auto simp: load_profile_row_id)

text \<open>A profile table in rowid order, whose ids fit an \<open>int\<close>.\<close>

definition profiles_wf :: "tables \<Rightarrow> bool" where
  "profiles_wf t \<longleftrightarrow> sorted (map pr_id (tb_profiles t)) \<and> distinct (map pr_id (tb_profiles t))
     \<and> (\<forall>r\<in>set (tb_profiles t). 0 < pr_id r \<and> pr_id r \<le> tb_profiles_seq t) \<and> 0 \<le> tb_profiles_seq t \<and> tb_profiles_seq t < 2 ^ 31 - 1"


lemma profiles_wf_ids: "profiles_wf t \<Longrightarrow> r \<in> set (tb_profiles t) \<Longrightarrow> int32 (pr_id r)"
  by (force simp: profiles_wf_def int32_def)

lemma select_profiles_sorted: "profiles_wf t \<Longrightarrow> select_profiles t = tb_profiles t"
  by (simp add: select_profiles_def profiles_wf_def sorted_sort_id sort_key_id_if_sorted)

lemma insert_profile_wf:
  assumes "profiles_wf t" "0 \<le> pr_id row" "pr_id row \<le> tb_profiles_seq t" "tb_profiles_seq t + 1 < 2 ^ 31 - 1"
  shows "profiles_wf (snd (insert_profile row t))"
  using assms by (auto simp: profiles_wf_def insert_profile_def Let_def sorted_insort_key sorted_filter set_insort_key distinct_map_filter
      distinct_insort_key)

text \<open>The profile as it is after saving, and the list of profiles with it.\<close>

definition assigned_profile :: "tables \<Rightarrow> broker_profile \<Rightarrow> broker_profile" where
  "assigned_profile t p = p\<lparr>bp_id := (if bp_id p = 0 then tb_profiles_seq t + 1 else bp_id p)\<rparr>"

definition replace_profile :: "broker_profile \<Rightarrow> broker_profile list \<Rightarrow> broker_profile list" where
  "replace_profile q ps = insort_key bp_id (canon_profile q) (filter (\<lambda>r. bp_id r \<noteq> bp_id q) ps)"

text \<open>
  C23. Saving a profile and loading the table gives the profiles that were there, ordered by id, with
  the saved one inserted or, when its id was there already, replaced: every one of its 24 columns
  comes back as it was, a new profile gets the id that follows the last one ever used, and the saved
  and the loaded profile carry the same id.
\<close>
theorem db_save_then_load:
  assumes "profile_wf p" "topics_fit p" "0 \<le> bp_id p" "bp_id p \<le> tb_profiles_seq (db_tables d)"
    and "profiles_wf (db_tables d)" "rows_read (tb_profiles (db_tables d)) ps"
    and "db_outcomes d = []" "int (length ps) < max_count"
  shows "\<exists>d'. db_save_profile (Some d) (Some p) = Some (True, Some d', Some (assigned_profile (db_tables d) p))
    \<and> db_load_profiles (Some d') profiles max_count =
        (let loaded = replace_profile (assigned_profile (db_tables d) p) ps
         in Some (length loaded, loaded @ drop (length loaded) profiles, Some d'))"
proof -
  let ?t = "db_tables d"
  define q where "q = assigned_profile ?t p"
  define loaded where "loaded = replace_profile q ps"
  note q_def = q_def [unfolded assigned_profile_def] and loaded_def = loaded_def [unfolded replace_profile_def]
  obtain subs where subs: "serialize_subscriptions p = Some subs"
    using subs_roundtrip [OF assms(1), of zero_profile] assms(2) by (auto simp: topics_fit_def zero_profile_def)
  let ?row = "bind_profile p subs"
  have idq: "0 < bp_id q" "int32 (bp_id q)" using assms(3-5) by (auto simp: q_def profiles_wf_def int32_def)
  have row: "pr_id ?row = bp_id p" by (simp add: bind_profile_def)
  obtain t' where ins: "insert_profile ?row ?t = (bp_id q, t')"
    and rows: "tb_profiles t' = insort_key pr_id (?row\<lparr>pr_id := bp_id q\<rparr>) (filter (\<lambda>r. pr_id r \<noteq> bp_id q) (tb_profiles ?t))"
    by (simp add: insert_profile_def Let_def row q_def)
  have read: "rows_read (tb_profiles t') loaded"
    unfolding rows loaded_def
  proof (rule rows_read_insort)
    show "load_profile_row (?row\<lparr>pr_id := bp_id q\<rparr>) = Some (canon_profile q)"
      using load_bound_profile [OF assms(1,2) idq(2) subs] by (simp add: q_def)
    show "rows_read (filter (\<lambda>r. pr_id r \<noteq> bp_id q) (tb_profiles ?t)) (filter (\<lambda>r. bp_id r \<noteq> bp_id q) ps)"
      by (rule rows_read_filter [OF assms(6)]) (use assms(5) profiles_wf_ids in blast)
  qed (use assms(5) idq profiles_wf_ids in auto)
  have sorted: "sorted (map pr_id (tb_profiles t'))"
    unfolding rows using assms(5) by (simp add: sorted_insort_key sorted_filter profiles_wf_def)
  let ?d = "d\<lparr>db_tables := t'\<rparr>"
  have save: "db_save_profile (Some d) (Some p) = Some (True, Some ?d, Some q)"
    using column_int_id [OF idq(2)] assms(7) by (simp add: db_save_profile_def subs ins Let_def) (simp add: q_def)
  have len: "length (tb_profiles t') = length loaded" using read by (simp add: rows_read_def list_all2_lengthD)
  have "length loaded \<le> Suc (length ps)" by (simp add: loaded_def le_SucI)
  then have n: "take (nat max_count) (select_profiles t') = tb_profiles t'" "\<not> max_count \<le> 0"
    using assms(8) sorted len by (simp_all add: select_profiles_def sort_key_id_if_sorted)
  have "load_profile_rows (tb_profiles t') = Some loaded" using read by (simp add: load_profile_rows_iff)
  then have "db_load_profiles (Some ?d) profiles max_count = Some (length loaded, loaded @ drop (length loaded) profiles, Some ?d)"
    using n assms(7) by (simp add: db_load_profiles_def fetch_rows_ok)
  then show ?thesis
    using save unfolding q_def [folded assigned_profile_def] loaded_def [folded replace_profile_def] Let_def by blast
qed


text \<open>Saving the default profile into an empty database.\<close>

lemma default_subscriptions:
  "used_subscriptions broker_profile_init_default = [\<lparr>ps_topic = ''#'', ps_qos = 1\<rparr>, \<lparr>ps_topic = ''$SYS/#'', ps_qos = 0\<rparr>]"
  by (simp add: broker_profile_init_default_def numeral_eq_Suc util_str_copy_def)

definition empty_db :: db where
  "empty_db = \<lparr>db_tables = empty_tables, db_snapshot = None, db_setting_value = [], db_outcomes = []\<rparr>"

lemma db_save_then_load_witness:
  "\<exists>d'. db_save_profile (Some empty_db) (Some broker_profile_init_default)
        = Some (True, Some d', Some (broker_profile_init_default\<lparr>bp_id := 1\<rparr>))
    \<and> db_load_profiles (Some d') [zero_profile, zero_profile] 32
        = Some (1, [canon_profile (broker_profile_init_default\<lparr>bp_id := 1\<rparr>), zero_profile], Some d')"
proof -
  have 2: "topics_fit broker_profile_init_default" unfolding topics_fit_def default_subscriptions by (simp add: esc_def)
  have 5: "profiles_wf (db_tables empty_db)" by (simp add: profiles_wf_def empty_db_def empty_tables_def)
  have 6: "rows_read (tb_profiles (db_tables empty_db)) []" by (simp add: rows_read_def empty_db_def empty_tables_def)
  have a: "assigned_profile (db_tables empty_db) broker_profile_init_default = broker_profile_init_default\<lparr>bp_id := 1\<rparr>"
    by (simp add: assigned_profile_def empty_db_def empty_tables_def broker_profile_init_default_def zero_profile_def)
  show ?thesis
    using db_save_then_load [OF default_profile_wf 2 _ _ 5 6, of 32 "[zero_profile, zero_profile]"]
    by (simp add: a replace_profile_def Let_def) (simp add: empty_db_def empty_tables_def broker_profile_init_default_def zero_profile_def)
qed

end
