(* ===== verification/Db_Flush.thy ===== *)
theory Db_Flush
  imports Db_Profiles
begin

text \<open>
  Writing the message history: the proofs about \<open>db_save_messages\<close> and \<open>db_flush_history\<close>.
\<close>

subsection \<open>Saving records\<close>

text \<open>The row that a record becomes.\<close>

definition message_entry :: "bytes message_record \<Rightarrow> message_row" where
  "message_entry r =
     \<lparr>ms_id = 0, ms_topic = mr_topic r, ms_payload = (if mr_payload r = [] then None else Some (mr_payload r)),
      ms_qos = uint (mr_qos r), ms_retained = of_bool_int (mr_retained r),
      ms_timestamp_us = sint (mr_timestamp_us r), ms_broker_id = uint (mr_broker_id r)\<rparr>"

definition bindable :: "heap \<Rightarrow> slot \<Rightarrow> bool" where
  "bindable h r \<longleftrightarrow> slot_ok h r \<and> unat (mr_payload_len r) < 2 ^ 31"

lemma bind_message_ok: "bindable h r \<Longrightarrow> bind_message h r = Some (message_entry (deref h r))"
  by (cases "mr_payload r")
    (auto simp: bindable_def slot_ok_Some slot_ok_None bind_message_def message_entry_def deref_def Let_def word_gt_0 unat_eq_zero)

definition insert_records :: "bytes message_record list \<Rightarrow> tables \<Rightarrow> tables" where
  "insert_records rs = fold insert_message (map message_entry rs)"

lemma insert_records_append: "insert_records (rs @ ss) t = insert_records ss (insert_records rs t)"
  by (simp add: insert_records_def)

lemma save_loop_total: "\<forall>r\<in>set rs. bindable h r \<Longrightarrow> \<exists>ok d'. save_messages_loop h rs d = Some (ok, d')"
  by (induction rs arbitrary: d) (auto simp: bind_message_ok split: prod.splits)

lemma save_loop_ok:
  "\<forall>r\<in>set rs. bindable h r \<Longrightarrow> db_outcomes d = [] \<Longrightarrow>
    save_messages_loop h rs d = Some (True, update_tables (insert_records (map (deref h) rs)) d)"
  by (induction rs arbitrary: d) (simp_all add: bind_message_ok update_tables_def insert_records_def)

lemma save_messages_total:
  "\<forall>r\<in>set (take (nat n) rs). bindable h r \<Longrightarrow> nat n \<le> length rs \<Longrightarrow> \<exists>ok handle'. db_save_messages handle h rs n = Some (ok, handle')"
  using save_loop_total [of "take (nat n) rs" h]
  by (auto simp: db_save_messages_def Let_def split: option.splits prod.splits) (metis option.discI)

lemma save_messages_ok:
  assumes "\<forall>r\<in>set (take (nat n) rs). bindable h r" "nat n \<le> length rs" "0 < n" "db_outcomes d = []" "db_snapshot d = None"
  shows "db_save_messages (Some d) h rs n = Some (True, Some (update_tables (insert_records (map (deref h) (take (nat n) rs))) d))"
  using assms by (cases d) (simp add: db_save_messages_def exec_begin_def exec_commit_def save_loop_ok update_tables_def)

subsection \<open>Flushing\<close>

lemma unat_ucast_u32: "unat (ucast (x :: u64) :: u32) = unat x mod 2 ^ 32"
  by (simp add: unsigned_ucast_eq take_bit_eq_mod)

lemma unat_ucast_u64: "unat (ucast (x :: u32) :: u64) = unat x"
proof -
  have "unat x < 2 ^ 32" using unsigned_less [of x] by simp
  then show ?thesis by (simp add: unsigned_ucast_eq take_bit_eq_mod)
qed

lemma fill_batch_steps:
  assumes "mb_ring_ok buf" "unat start + k \<le> unat (mb_count buf)" "k \<le> length batch"
  shows "fold (\<lambda>i batch. case message_buf_get buf (start + word_of_nat i) of None \<Rightarrow> batch | Some r \<Rightarrow> batch[i := r]) [0..<k] batch
    = take k (drop (unat start) (live buf)) @ drop k batch"
  using assms(2,3)
proof (induction k)
  case (Suc k)
  let ?i = "start + word_of_nat k :: u32"
  have "unat (mb_count buf) < 2 ^ 32" using unsigned_less [of "mb_count buf"] by simp
  then have u: "unat ?i = unat start + k"
    using Suc.prems(1) by (simp add: unat_word_ariths unat_of_nat)
  then have "unat ?i < unat (mb_count buf)" using Suc.prems(1) by simp
  then have g: "message_buf_get buf ?i = Some (live buf ! (unat start + k))"
    using nth_live [OF assms(1), of ?i] u by (simp add: message_buf_get_def word_le_nat_alt)
  have l: "length (take k (drop (unat start) (live buf))) = k" using Suc.prems(1) by simp
  have d: "drop k batch = batch ! k # drop (Suc k) batch" using Suc.prems(2) by (simp add: Cons_nth_drop_Suc)
  show ?case
    using Suc g l d by (simp add: list_update_append take_Suc_conv_app_nth)
qed simp

lemma fill_batch_ok:
  assumes "mb_ring_ok buf" "unat start + unat n \<le> unat (mb_count buf)" "unat n \<le> length batch"
  shows "take (unat n) (fill_batch buf start n batch) = take (unat n) (drop (unat start) (live buf))"
    and "length (fill_batch buf start n batch) = length batch"
  using fill_batch_steps [OF assms] assms by (simp_all add: fill_batch_def)


text \<open>How the handle may change: not at all for NULL; to all the records when no call fails.\<close>

definition flushed_to :: "heap \<Rightarrow> slot list \<Rightarrow> db option \<Rightarrow> db option \<Rightarrow> bool" where
  "flushed_to h rs handle handle' \<longleftrightarrow>
     (\<forall>d. handle = Some d \<and> db_outcomes d = [] \<and> db_snapshot d = None
        \<longrightarrow> handle' = Some (update_tables (insert_records (map (deref h) rs)) d))"

lemma flushed_to_Nil [simp]: "flushed_to h [] handle handle"
  by (cases handle) (simp_all add: flushed_to_def insert_records_def update_tables_def)

lemma flushed_to_append: "flushed_to h rs a b \<Longrightarrow> flushed_to h ss b c \<Longrightarrow> flushed_to h (rs @ ss) a c"
  by (auto simp: flushed_to_def insert_records_append update_tables_def)

lemma save_flushed:
  assumes "\<forall>r\<in>set (take (nat n) rs). bindable h r" "nat n \<le> length rs" "0 < n"
  obtains ok handle' where "db_save_messages handle h rs n = Some (ok, handle')" "flushed_to h (take (nat n) rs) handle handle'"
proof -
  obtain ok handle' where r: "db_save_messages handle h rs n = Some (ok, handle')"
    using save_messages_total [OF assms(1,2), of handle] by blast
  have "flushed_to h (take (nat n) rs) handle handle'"
    using save_messages_ok [OF assms] r by (auto simp: flushed_to_def)
  then show ?thesis using that r by blast
qed

lemma flush_loop_run:
  assumes ring: "mb_ring_ok buf" and bind: "\<forall>r\<in>set (live buf). bindable h r"
    and w: "unat pushed = unat w + unat (mb_count buf)"
  shows "unat w \<le> unat saved \<Longrightarrow> unat saved \<le> unat pushed \<Longrightarrow> unat pushed - unat saved < rounds \<Longrightarrow> length batch = 256 \<Longrightarrow>
    \<exists>handle' batch'. flush_loop rounds w pushed h buf (handle, saved, batch) = Some (handle', pushed, batch')
      \<and> length batch' = 256 \<and> flushed_to h (drop (unat saved - unat w) (live buf)) handle handle'"
proof (induction rounds arbitrary: handle saved batch)
  case (Suc rounds)
  show ?case
  proof (cases "saved < pushed")
    case False
    then have "saved = pushed" using Suc.prems(2) by (simp add: word_less_nat_alt word_unat_eq_iff)
    then show ?thesis using Suc.prems w by simp
  next
    case True
    then have lt: "unat saved < unat pushed" by (simp add: word_less_nat_alt)
    define all :: u32 where "all = ucast (pushed - saved)"
    define n where "n = (if all > 256 then 256 else all)"
    define start :: u32 where "start = ucast (saved - w)"
    have cnt: "unat (mb_count buf) < 2 ^ 32" using unsigned_less [of "mb_count buf"] by simp
    have p64: "unat pushed < 2 ^ 64" using unsigned_less [of pushed] by simp
    have d1: "unat (pushed - saved) = unat pushed - unat saved" using lt by (simp add: unat_sub word_le_nat_alt)
    have d2: "unat (saved - w) = unat saved - unat w" using Suc.prems(1) by (simp add: unat_sub word_le_nat_alt)
    have a: "unat all = unat pushed - unat saved"
      using cnt w Suc.prems(1) by (simp add: all_def unat_ucast_u32 d1)
    have st: "unat start = unat saved - unat w"
      using cnt w lt by (simp add: start_def unat_ucast_u32 d2)
    have n: "unat n = min 256 (unat pushed - unat saved)"
      using a by (auto simp: n_def word_less_nat_alt min_def)
    have fit: "unat start + unat n \<le> unat (mb_count buf)" using st n w Suc.prems by simp
    define batch' where "batch' = fill_batch buf start n batch"
    have b: "take (unat n) batch' = take (unat n) (drop (unat start) (live buf))" "length batch' = 256"
      using fill_batch_ok [OF ring fit, of batch] n Suc.prems(4) by (simp_all add: batch'_def)
    have nn: "nat (uint n) = unat n" by simp
    obtain ok handle1 where sv: "db_save_messages handle h batch' (uint n) = Some (ok, handle1)"
        and fl: "flushed_to h (take (unat n) batch') handle handle1"
    proof (rule save_flushed [of "uint n" batch' h handle])
      show "\<forall>r\<in>set (take (nat (uint n)) batch'). bindable h r"
        unfolding nn b(1) using bind by (meson in_set_dropD in_set_takeD)
      show "nat (uint n) \<le> length batch'" unfolding nn b(2) using n by simp
      have "0 < unat n" using n lt by simp
      moreover have "uint n = int (unat n)" by simp
      ultimately show "0 < uint n" by linarith
    qed (simp only: nn)
    have s': "unat (saved + ucast n) = unat saved + unat n"
      using n lt p64 by (simp add: unat_word_ariths unat_ucast_u64)
    have "\<exists>handle' batch''. flush_loop rounds w pushed h buf (handle1, saved + ucast n, batch') = Some (handle', pushed, batch'')
        \<and> length batch'' = 256 \<and> flushed_to h (drop (unat (saved + ucast n) - unat w) (live buf)) handle1 handle'"
      by (rule Suc.IH) (use Suc.prems lt n s' b in simp_all)
    then obtain handle' batch'' where ih:
        "flush_loop rounds w pushed h buf (handle1, saved + ucast n, batch') = Some (handle', pushed, batch'')" "length batch'' = 256"
        "flushed_to h (drop (unat (saved + ucast n) - unat w) (live buf)) handle1 handle'"
      by blast
    have "take (unat n) batch' @ drop (unat (saved + ucast n) - unat w) (live buf) = drop (unat saved - unat w) (live buf)"
    proof -
      have "unat (saved + ucast n) - unat w = unat n + unat start" using s' st Suc.prems(1) by simp
      then show ?thesis unfolding b(1) st [symmetric] by (simp only: drop_drop [symmetric] append_take_drop_id)
    qed
    then have "flushed_to h (drop (unat saved - unat w) (live buf)) handle handle'"
      using flushed_to_append [OF fl ih(3)] by simp
    then show ?thesis
      using True sv ih(1,2) by (simp add: Let_def all_def [symmetric] n_def [symmetric] start_def [symmetric] batch'_def [symmetric])
  qed
qed simp


lemma flush_history_run:
  assumes "mb_wf (h, buf)" "\<forall>r\<in>set (live buf). unat (mr_payload_len r) < 2 ^ 31"
    and "unat (message_buf_count buf) \<le> unat (message_buf_generation buf)" "unat saved \<le> unat (message_buf_generation buf)"
    and "length batch = 256"
  shows "\<exists>handle' batch'. db_flush_history by_time handle h buf (saved, batch) = Some (handle', message_buf_generation buf, batch')
    \<and> length batch' = 256
    \<and> (\<forall>d. handle = Some d \<and> db_outcomes d = [] \<and> db_snapshot d = None \<longrightarrow>
         (let unsaved = drop (unat saved - (unat (message_buf_generation buf) - unat (message_buf_count buf))) (mb_items (h, buf))
          in handle' = Some (if unsaved = [] then d
                             else update_tables (\<lambda>t. trim_messages by_time 10000 (insert_records unsaved t)) d)))"
proof -
  let ?pushed = "message_buf_generation buf" and ?count = "message_buf_count buf"
  define w where "w = ?pushed - ucast ?count"
  define s0 where "s0 = (if saved < w then w else saved)"
  have c: "mb_count buf = ?count" by (simp add: message_buf_count_def)
  have ring: "mb_ring_ok buf" and bind: "\<forall>r\<in>set (live buf). bindable h r"
    using assms(1,2) by (simp_all add: mb_wf_def owns_def bindable_def)
  have w: "unat w = unat ?pushed - unat ?count"
    using assms(3) unat_sub [of "ucast ?count" ?pushed] by (simp add: w_def unat_ucast_u64 word_le_nat_alt)
  then have w': "unat ?pushed = unat w + unat (mb_count buf)" using assms(3) by (simp add: c)
  have s0: "unat s0 = max (unat saved) (unat w)" by (simp add: s0_def word_less_nat_alt max_def)
  have le: "unat w \<le> unat s0" "unat s0 \<le> unat ?pushed" using s0 w assms(4) by simp_all
  have len: "length (live buf) = unat ?count" by (simp add: c)
  have skip: "unat s0 - unat w = unat saved - unat w" using s0 by simp
  have items: "mb_items (h, buf) = map (deref h) (live buf)" by (simp add: mb_items_def)
  have "unat ?pushed - unat s0 < Suc (unat ?count)" using w' le by (simp add: c)
  then obtain handle1 batch' where run: "flush_loop (Suc (unat ?count)) w ?pushed h buf (handle, s0, batch) = Some (handle1, ?pushed, batch')"
      "length batch' = 256" "flushed_to h (drop (unat s0 - unat w) (live buf)) handle handle1"
    using flush_loop_run [OF ring bind w' le _ assms(5)] by blast
  have none: "drop (unat saved - unat w) (live buf) = [] \<longleftrightarrow> s0 \<ge> ?pushed"
    using w' le len skip by (auto simp: word_le_nat_alt c)
  have eq: "db_flush_history by_time handle h buf (saved, batch) =
      (if s0 \<ge> ?pushed then Some (handle, s0, batch)
       else (case flush_loop (Suc (unat ?count)) w ?pushed h buf (handle, s0, batch) of
               None \<Rightarrow> None
             | Some (handle, saved, batch) \<Rightarrow> Some (snd (db_trim_messages by_time handle 10000), saved, batch)))"
    by (simp only: db_flush_history_def Let_def prod.case w_def s0_def)
  show ?thesis
  proof (cases "s0 \<ge> ?pushed")
    case True
    then have "s0 = ?pushed" using le by (simp add: word_le_nat_alt word_unat_eq_iff)
    then have "db_flush_history by_time handle h buf (saved, batch) = Some (handle, ?pushed, batch)"
      by (simp add: eq)
    then show ?thesis using none True assms(5) by (simp add: items w [symmetric] drop_map)
  next
    case False
    then have "db_flush_history by_time handle h buf (saved, batch) = Some (snd (db_trim_messages by_time handle1 10000), ?pushed, batch')"
      by (simp add: eq run(1) del: flush_loop.simps)
    then show ?thesis
      using run(2,3) none False
      by (auto simp: items w [symmetric] skip drop_map flushed_to_def db_trim_messages_def update_tables_def)
  qed
qed

text \<open>
  C24. Flushing the history advances the saved generation to that of the ring, whatever SQLite
  answers, and always returns. When every call succeeds, the records that were not yet saved (all
  of those still in the ring, when the ring has moved past them) are appended to the table in the
  order of the ring, each with its own bytes, over batches of 256, and the table is trimmed once to
  the newest 10000; with nothing new, nothing is touched.
\<close>
theorem db_flush_history_saves:
  assumes "mb_wf (h, buf)" "\<forall>r\<in>set (live buf). unat (mr_payload_len r) < 2 ^ 31"
    and "unat (message_buf_count buf) \<le> unat (message_buf_generation buf)" "unat saved \<le> unat (message_buf_generation buf)"
    and "length batch = 256"
  shows "\<exists>handle' batch'. db_flush_history by_time handle h buf (saved, batch) = Some (handle', message_buf_generation buf, batch')
    \<and> length batch' = 256
    \<and> (\<forall>d. handle = Some d \<and> db_outcomes d = [] \<and> db_snapshot d = None \<longrightarrow>
         (let unsaved = drop (unat saved - (unat (message_buf_generation buf) - unat (message_buf_count buf))) (mb_items (h, buf))
          in handle' = Some (if unsaved = [] then d
                             else update_tables (\<lambda>t. trim_messages by_time 10000 (insert_records unsaved t)) d)))"
  by (rule flush_history_run [OF assms])


text \<open>A ring of two with three pushes, of which one is saved: the two that are left are written.\<close>

lemma db_flush_history_saves_witness:
  "\<exists>h buf d' batch'. option_fold message_buf_push
        [sample_record ''a'' (Some [1]) 1, sample_record ''b'' None 0, sample_record ''c'' (Some [2]) 1]
        (empty_heap, message_buf_init 2) = Some (h, buf)
     \<and> db_flush_history rev (Some empty_db) h buf (0, replicate 256 zero_record) = Some (Some d', 3, batch')
     \<and> map ms_topic (tb_messages (db_tables d')) = [''b'', ''c'']
     \<and> map ms_payload (tb_messages (db_tables d')) = [None, Some [2]]"
proof -
  let ?xs = "[sample_record ''a'' (Some [1]) 1, sample_record ''b'' None 0, sample_record ''c'' (Some [2]) 1]"
  let ?s = "(empty_heap, message_buf_init 2)"
  have wf: "mb_wf ?s" "mb_items ?s = []" by (rule init_wf; simp add: ring_cap_ok_def)+
  have ok: "\<forall>x\<in>set ?xs. record_ok x" by (simp add: record_ok_def sample_record_def)
  obtain s' where s': "option_fold message_buf_push ?xs ?s = Some s'" "mb_wf s'"
      "mb_items s' = lastn (mb_cap ?s) (mb_items ?s @ map stored ?xs)"
    using mb.fold_items [OF wf(1) ok] by blast
  obtain h buf where hb: "s' = (h, buf)" by (cases s')
  have items: "mb_items (h, buf) = [stored (sample_record ''b'' None 0), stored (sample_record ''c'' (Some [2]) 1)]"
    using s'(3) wf(2) by (simp add: hb mb_cap_def message_buf_init_def lastn_def)
  have gen: "message_buf_generation buf = 3 \<and> message_buf_count buf = 2"
    using s'(1) unfolding hb
    by (auto simp: message_buf_push_def message_buf_init_def store_record_def sample_record_def heap_malloc_def heap_free_def
        zero_record_def map_payload_def empty_heap_def message_buf_generation_def message_buf_count_def Let_def split: if_splits)
  have lens: "\<forall>r\<in>set (live buf). unat (mr_payload_len r) < 2 ^ 31"
  proof
    fix r assume "r \<in> set (live buf)"
    then have "deref h r \<in> set (mb_items (h, buf))" by (simp add: mb_items_def)
    then have "mr_payload_len (deref h r) \<in> {0, 1}" by (auto simp: items stored_def sample_record_def)
    then show "unat (mr_payload_len r) < 2 ^ 31" by (auto simp: deref_def)
  qed
  obtain handle' batch' where f: "db_flush_history rev (Some empty_db) h buf (0, replicate 256 zero_record) = Some (handle', 3, batch')"
      "handle' = Some (update_tables (\<lambda>t. trim_messages rev 10000 (insert_records (mb_items (h, buf)) t)) empty_db)"
    using db_flush_history_saves [OF s'(2) [unfolded hb] lens, of 0 "replicate 256 zero_record" rev "Some empty_db"] gen
    by (auto simp: empty_db_def items)
  then show ?thesis
    using s'(1) unfolding hb items
    by (auto simp: update_tables_def trim_messages_def delete_messages_def insert_records_def insert_message_def message_entry_def
        empty_db_def empty_tables_def Let_def stored_def sample_record_def)
qed

end
