(* ===== verification/Db_Index.thy ===== *)
theory Db_Index
  imports Db_Flush
begin

text \<open>
  The full-text index follows the table of messages through every operation, also when SQLite fails.
\<close>

subsection \<open>The search index\<close>

text \<open>The index agrees with the table, now and after a rollback.\<close>

definition db_synced :: "db option \<Rightarrow> bool" where
  "db_synced handle \<longleftrightarrow>
     (case handle of None \<Rightarrow> True
      | Some d \<Rightarrow> fts_synced (db_tables d) \<and> (case db_snapshot d of None \<Rightarrow> True | Some t \<Rightarrow> fts_synced t))"

lemma db_synced_simps [simp]:
  "db_synced None"
  "db_synced (Some d) \<longleftrightarrow> fts_synced (db_tables d) \<and> (case db_snapshot d of None \<Rightarrow> True | Some t \<Rightarrow> fts_synced t)"
  by (simp_all add: db_synced_def)

lemma call_synced: "sqlite_call d = (ok, d') \<Longrightarrow> db_synced (Some d') = db_synced (Some d)"
  by (simp add: sqlite_call_keeps)

lemma fetch_synced: "fetch_rows n rows d = (xs, failed, d') \<Longrightarrow> db_synced (Some d') = db_synced (Some d)"
  by (simp add: fetch_rows_keeps)

lemma same_messages_synced:
  "tb_messages t' = tb_messages t \<Longrightarrow> tb_messages_seq t' = tb_messages_seq t \<Longrightarrow> tb_messages_fts t' = tb_messages_fts t \<Longrightarrow>
    fts_synced t' = fts_synced t"
  by (simp add: fts_synced_def messages_wf_def)

lemma other_tables_synced [simp]:
  "fts_synced (upsert_setting k v t) = fts_synced t"
  "fts_synced (delete_profile i t) = fts_synced t"
  by (rule same_messages_synced; simp add: upsert_setting_def delete_profile_def)+

lemma insert_profile_synced: "insert_profile row t = (i, t') \<Longrightarrow> fts_synced t' = fts_synced t"
  by (rule same_messages_synced) (auto simp: insert_profile_def Let_def)

lemma snd_call [simp]:
  "db_tables (snd (sqlite_call d)) = db_tables d" "db_snapshot (snd (sqlite_call d)) = db_snapshot d"
  using sqlite_call_keeps [of d "fst (sqlite_call d)" "snd (sqlite_call d)"] by simp_all

lemma set_setting_synced: "db_synced handle \<Longrightarrow> db_synced (snd (db_set_setting handle key v))"
  by (cases handle) (auto simp: db_set_setting_def update_tables_def case_prod_beta Let_def split: option.splits)

lemma get_setting_synced: "db_synced handle \<Longrightarrow> db_synced (snd (db_get_setting handle key v))"
  by (cases handle) (auto simp: db_get_setting_def case_prod_beta Let_def split: option.splits)

lemma delete_profile_synced: "db_synced handle \<Longrightarrow> db_synced (snd (db_delete_profile handle i))"
  by (cases handle) (auto simp: db_delete_profile_def update_tables_def case_prod_beta Let_def split: option.splits)

lemma trim_synced: "db_synced handle \<Longrightarrow> db_synced (snd (db_trim_messages by_time handle n))"
  by (cases handle) (auto simp: db_trim_messages_def update_tables_def trim_messages_synced case_prod_beta Let_def split: option.splits)

lemma delete_topic_synced: "db_synced handle \<Longrightarrow> db_synced (snd (db_delete_topic_messages handle tp))"
  by (cases handle)
    (auto simp: db_delete_topic_messages_def update_tables_def delete_messages_synced case_prod_beta Let_def split: option.splits)

lemma save_profile_synced:
  "db_save_profile handle p = Some (ok, handle', p') \<Longrightarrow> db_synced handle \<Longrightarrow> db_synced handle'"
  by (auto simp: db_save_profile_def case_prod_beta Let_def insert_profile_synced [OF surjective_pairing] split: option.splits if_splits)

lemma save_loop_synced:
  "save_messages_loop h rs d = Some (ok, d') \<Longrightarrow> db_synced (Some d) \<Longrightarrow> db_synced (Some d')"
proof (induction rs arbitrary: d)
  case (Cons r rs)
  obtain b d1 where c: "sqlite_call d = (b, d1)" by force
  have s: "db_synced (Some d1)" using Cons.prems(2) call_synced [OF c] by simp
  show ?case
  proof (cases b)
    case False
    then show ?thesis using Cons.prems(1) c s by (auto split: option.splits)
  next
    case True
    then obtain row where "save_messages_loop h rs (update_tables (insert_message row) d1) = Some (ok, d')"
      using Cons.prems(1) c by (auto split: option.splits)
    moreover have "db_synced (Some (update_tables (insert_message row) d1))"
      using s by (simp add: update_tables_def insert_message_synced)
    ultimately show ?thesis by (rule Cons.IH)
  qed
qed simp

lemma transaction_synced:
  "db_synced (Some d) \<Longrightarrow> db_synced (Some (exec_begin d))"
  "db_synced (Some d) \<Longrightarrow> db_synced (Some (exec_commit d))"
  "db_synced (Some d) \<Longrightarrow> db_synced (Some (exec_rollback d))"
  by (auto simp: exec_begin_def exec_commit_def exec_rollback_def Let_def case_prod_beta split: option.splits)

lemma save_messages_synced:
  "db_save_messages handle h rs n = Some (ok, handle') \<Longrightarrow> db_synced handle \<Longrightarrow> db_synced handle'"
proof (cases handle)
  case (Some d)
  assume a: "db_save_messages handle h rs n = Some (ok, handle')" "db_synced handle"
  obtain b d1 where c: "sqlite_call d = (b, d1)" by force
  have s: "db_synced (Some (exec_begin d1))" using a(2) call_synced [OF c] transaction_synced(1) by (simp add: Some del: db_synced_simps)
  show ?thesis
    using a Some c call_synced [OF c] save_loop_synced [OF _ s] transaction_synced(2,3)
    by (auto simp: db_save_messages_def simp del: db_synced_simps split: if_splits option.splits)
qed (auto simp: db_save_messages_def)

lemma flush_loop_synced:
  "flush_loop rounds w pushed h buf (handle, saved, batch) = Some (handle', saved', batch') \<Longrightarrow> db_synced handle \<Longrightarrow> db_synced handle'"
proof (induction rounds arbitrary: handle saved batch)
  case (Suc rounds)
  show ?case
  proof (cases "saved < pushed")
    case True
    then obtain b ok handle1 n s where "db_save_messages handle h b n = Some (ok, handle1)"
        "flush_loop rounds w pushed h buf (handle1, s, b) = Some (handle', saved', batch')"
      using Suc.prems(1) by (auto simp: Let_def split: option.splits)
    then show ?thesis using Suc save_messages_synced by blast
  qed (use Suc.prems in auto)
qed simp

lemma flush_synced:
  "db_flush_history by_time handle h buf s = Some (handle', s') \<Longrightarrow> db_synced handle \<Longrightarrow> db_synced handle'"
  by (cases s) (auto simp: db_flush_history_def Let_def simp del: flush_loop.simps db_synced_simps
      dest: flush_loop_synced intro: trim_synced split: if_splits option.splits)

text \<open>The operations that write, in any order.\<close>

datatype db_op =
    Save_Profile "broker_profile option"
  | Delete_Profile int
  | Set_Setting "string option" "string option"
  | Get_Setting "string option" "string option"
  | Save_Messages heap "slot list" int
  | Trim_Messages int
  | Delete_Topic "string option"
  | Flush_History heap message_buf u64 "slot list"

fun db_step :: "(message_row list \<Rightarrow> message_row list) \<Rightarrow> db_op \<Rightarrow> db option \<Rightarrow> db option option" where
  "db_step by_time (Save_Profile p) handle = map_option (\<lambda>(_, handle, _). handle) (db_save_profile handle p)"
| "db_step by_time (Delete_Profile i) handle = Some (snd (db_delete_profile handle i))"
| "db_step by_time (Set_Setting k v) handle = Some (snd (db_set_setting handle k v))"
| "db_step by_time (Get_Setting k v) handle = Some (snd (db_get_setting handle k v))"
| "db_step by_time (Save_Messages h rs n) handle = map_option snd (db_save_messages handle h rs n)"
| "db_step by_time (Trim_Messages n) handle = Some (snd (db_trim_messages by_time handle n))"
| "db_step by_time (Delete_Topic tp) handle = Some (snd (db_delete_topic_messages handle tp))"
| "db_step by_time (Flush_History h buf saved batch) handle = map_option fst (db_flush_history by_time handle h buf (saved, batch))"

lemma db_step_synced: "db_step by_time op handle = Some handle' \<Longrightarrow> db_synced handle \<Longrightarrow> db_synced handle'"
  by (cases op)
    (auto simp del: db_synced_simps intro: set_setting_synced get_setting_synced delete_profile_synced trim_synced delete_topic_synced
      save_profile_synced save_messages_synced flush_synced)

lemma db_run_synced: "option_fold (db_step by_time) ops handle = Some handle' \<Longrightarrow> db_synced handle \<Longrightarrow> db_synced handle'"
proof (induction ops arbitrary: handle)
  case (Cons op ops)
  then show ?case using db_step_synced by (auto split: option.splits simp del: db_synced_simps)
qed simp

lemma empty_synced [simp]: "fts_synced empty_tables"
  by (simp add: fts_synced_def messages_wf_def empty_tables_def)

lemma ignore_calls_keeps [simp]:
  "db_tables (ignore_calls n d) = db_tables d" "db_snapshot (ignore_calls n d) = db_snapshot d"
  by (induction n) (simp_all add: ignore_calls_def)

lemma get_setting_tables: "db_get_setting (Some d) k f = (v, Some d') \<Longrightarrow> db_tables d' = db_tables d \<and> db_snapshot d' = db_snapshot d"
  by (auto simp: db_get_setting_def case_prod_beta Let_def split: option.splits if_splits)

lemma get_setting_handle: "\<exists>v d'. db_get_setting (Some d) k f = (v, Some d')"
  by (auto simp: db_get_setting_def case_prod_beta Let_def split: option.splits)

lemma open_new_synced: "db_synced (db_open None outcomes)"
proof -
  let ?d = "\<lparr>db_tables = empty_tables, db_snapshot = None, db_setting_value = [], db_outcomes = outcomes\<rparr>"
  let ?e = "ignore_calls 8 (snd (sqlite_call (snd (sqlite_call ?d))))"
  obtain v d where g: "db_get_setting (Some ?e) (Some ''messages_fts_backfilled'') None = (v, Some d)"
    using get_setting_handle by blast
  have t: "db_tables d = empty_tables" "db_snapshot d = None" using get_setting_tables [OF g] by simp_all
  have b: "backfill_fts empty_tables = empty_tables" by (simp add: backfill_fts_def empty_tables_def)
  have "db_synced (snd (db_set_setting (Some (update_tables backfill_fts (snd (sqlite_call d)))) k x))" for k x
    by (rule set_setting_synced) (simp add: t b update_tables_def)
  then show ?thesis
    using t by (simp add: db_open_def Let_def case_prod_beta g split: option.split del: db_synced_simps(2)) simp
qed





end
