(* ===== verification/Db_Query.thy ===== *)
theory Db_Query
  imports Db_Index
begin

text \<open>
  The query text of \<open>build_fts_query\<close>.
\<close>

subsection \<open>The full-text query\<close>

text \<open>The words of the input, and the query that asks for all of them, the last one as a prefix.\<close>

function fts_split :: "string \<Rightarrow> string list" where
  "fts_split p =
     (let q = dropWhile fts_blank p in
      if q = [] then [] else takeWhile (\<lambda>c. \<not> fts_blank c) q # fts_split (dropWhile (\<lambda>c. \<not> fts_blank c) q))"
  by pat_completeness auto
termination
proof (relation "measure length")
  fix p q :: string
  assume "q = dropWhile fts_blank p" "q \<noteq> []"
  then show "(dropWhile (\<lambda>c. \<not> fts_blank c) q, p) \<in> measure length" using fts_rest_shorter [of p] by simp
qed simp

declare fts_split.simps [simp del]

definition fts_phrase :: "string \<Rightarrow> string" where
  "fts_phrase w = CHR 0x22 # concat (map (\<lambda>c. if c = CHR 0x22 then [CHR 0x22, CHR 0x22] else [c]) w) @ [CHR 0x22]"

fun fts_join_words :: "string list \<Rightarrow> string" where
  "fts_join_words [] = []"
| "fts_join_words [w] = fts_phrase w"
| "fts_join_words (w # ws) = fts_phrase w @ '' '' @ fts_join_words ws"

lemma fts_word_fits:
  "length out + length (concat (map (\<lambda>c. if c = CHR 0x22 then [CHR 0x22, CHR 0x22] else [c]) w)) < cap \<Longrightarrow>
    fts_word cap w out = out @ concat (map (\<lambda>c. if c = CHR 0x22 then [CHR 0x22, CHR 0x22] else [c]) w)"
proof (induction w arbitrary: out)
  case (Cons c w)
  then show ?case by (cases "c = CHR 0x22") (simp_all add: fts_put_def)
qed simp

lemma fts_phrase_fits:
  assumes "length out + length (fts_phrase w) < cap"
  shows "fts_put cap (CHR 0x22) (fts_word cap w (fts_put cap (CHR 0x22) out)) = out @ fts_phrase w"
proof -
  have "fts_put cap (CHR 0x22) out = out @ [CHR 0x22]" using assms by (simp add: fts_put_def fts_phrase_def)
  then show ?thesis using assms fts_word_fits [of "out @ [CHR 0x22]" w cap] by (simp add: fts_put_def fts_phrase_def)
qed

lemma fts_words_fit:
  assumes "length (out @ (if first_word \<or> fts_split p = [] then [] else '' '') @ fts_join_words (fts_split p)) < cap"
  shows "fts_words cap first_word p out = out @ (if first_word \<or> fts_split p = [] then [] else '' '') @ fts_join_words (fts_split p)"
  using assms
proof (induction cap first_word p out rule: fts_words.induct)
  case (1 cap first_word p out)
  let ?q = "dropWhile fts_blank p"
  show ?case
  proof (cases "?q = []")
    case True
    then show ?thesis by (simp add: fts_words.simps [of cap first_word p] fts_split.simps [of p])
  next
    case False
    define w where "w = takeWhile (\<lambda>c. \<not> fts_blank c) ?q"
    define r where "r = dropWhile (\<lambda>c. \<not> fts_blank c) ?q"
    have sp: "fts_split p = w # fts_split r" using False by (simp add: fts_split.simps [of p] Let_def w_def r_def)
    define o1 where "o1 = (if first_word then out else fts_put cap (CHR '' '') out)"
    have len: "length (fts_join_words (fts_split p)) = length (fts_phrase w)
        + (if fts_split r = [] then 0 else 1 + length (fts_join_words (fts_split r)))"
      unfolding sp by (cases "fts_split r") simp_all
    have o1: "o1 = out @ (if first_word then [] else '' '')" using "1.prems" by (cases first_word) (auto simp: o1_def fts_put_def sp)
    have ph: "fts_put cap (CHR 0x22) (fts_word cap w (fts_put cap (CHR 0x22) o1)) = o1 @ fts_phrase w"
      by (rule fts_phrase_fits) (use "1.prems" len o1 in \<open>auto simp: sp split: if_splits\<close>)
    have step: "fts_words cap first_word p out = fts_words cap False r (o1 @ fts_phrase w)"
      by (simp only: fts_words.simps [of cap first_word p] Let_def False if_False o1_def w_def r_def ph [unfolded o1_def w_def])
    have prem: "length ((o1 @ fts_phrase w) @ (if False \<or> fts_split r = [] then [] else '' '') @ fts_join_words (fts_split r)) < cap"
      using "1.prems" unfolding sp o1 by (cases "fts_split r") simp_all
    have ih: "fts_words cap False r (o1 @ fts_phrase w)
        = (o1 @ fts_phrase w) @ (if False \<or> fts_split r = [] then [] else '' '') @ fts_join_words (fts_split r)"
      using prem "1.IH" [OF refl False refl refl refl refl]
      unfolding w_def [symmetric] r_def [symmetric] o1_def [symmetric] ph by blast
    show ?thesis unfolding step ih unfolding sp o1 by (cases "fts_split r") simp_all
  qed
qed


lemma fts_word_start: "q \<noteq> [] \<Longrightarrow> \<not> fts_blank (hd q) \<Longrightarrow> takeWhile (\<lambda>c. \<not> fts_blank c) q \<noteq> []"
  by (cases q) auto

lemma fts_split_step:
  assumes "dropWhile fts_blank p \<noteq> []"
  obtains w r where "fts_split p = w # fts_split r" "w \<noteq> []" "\<forall>c\<in>set w. \<not> fts_blank c"
    "w = takeWhile (\<lambda>c. \<not> fts_blank c) (dropWhile fts_blank p)" "r = dropWhile (\<lambda>c. \<not> fts_blank c) (dropWhile fts_blank p)"
proof (rule that [OF _ _ _ refl refl])
  let ?q = "dropWhile fts_blank p"
  show "takeWhile (\<lambda>c. \<not> fts_blank c) ?q \<noteq> []" by (rule fts_word_start [OF assms]) (rule hd_dropWhile [OF assms])
  show "fts_split p = takeWhile (\<lambda>c. \<not> fts_blank c) ?q # fts_split (dropWhile (\<lambda>c. \<not> fts_blank c) ?q)"
    by (simp only: fts_split.simps [of p] Let_def assms if_False)
  show "\<forall>c\<in>set (takeWhile (\<lambda>c. \<not> fts_blank c) ?q). \<not> fts_blank c"
    using set_takeWhileD [of _ "\<lambda>c. \<not> fts_blank c" ?q] by blast
qed

lemma fts_split_blank: "dropWhile fts_blank p = [] \<Longrightarrow> fts_split p = []"
  by (simp add: fts_split.simps [of p])

lemma fts_split_words: "\<forall>w\<in>set (fts_split p). w \<noteq> [] \<and> (\<forall>c\<in>set w. \<not> fts_blank c)"
proof (induction p rule: fts_split.induct)
  case (1 p)
  show ?case
  proof (cases "dropWhile fts_blank p = []")
    case False
    then obtain w r where eq: "fts_split p = w # fts_split r" and w: "w \<noteq> []" "\<forall>c\<in>set w. \<not> fts_blank c"
      and r: "r = dropWhile (\<lambda>c. \<not> fts_blank c) (dropWhile fts_blank p)" by (rule fts_split_step)
    show ?thesis unfolding eq using w "1.IH" [OF refl False, folded r] by simp
  qed (simp add: fts_split_blank)
qed

lemma fts_split_concat: "concat (fts_split p) = filter (\<lambda>c. \<not> fts_blank c) p"
proof (induction p rule: fts_split.induct)
  case (1 p)
  let ?q = "dropWhile fts_blank p"
  have f: "filter (\<lambda>c. \<not> fts_blank c) p = filter (\<lambda>c. \<not> fts_blank c) (dropWhile fts_blank p)" for p by (induction p) auto
  show ?case
  proof (cases "?q = []")
    case False
    then obtain w r where eq: "fts_split p = w # fts_split r" and w: "w = takeWhile (\<lambda>c. \<not> fts_blank c) ?q"
      and r: "r = dropWhile (\<lambda>c. \<not> fts_blank c) ?q" by (rule fts_split_step)
    have "filter (\<lambda>c. \<not> fts_blank c) q = takeWhile (\<lambda>c. \<not> fts_blank c) q @ filter (\<lambda>c. \<not> fts_blank c) (dropWhile (\<lambda>c. \<not> fts_blank c) q)" for q
      by (induction q) auto
    from this [of ?q] show ?thesis unfolding eq f [of p] using "1.IH" [OF refl False, folded r] by (simp add: w r)
  next
    case True
    then have "filter (\<lambda>c. \<not> fts_blank c) p = []" by simp
    then show ?thesis using True by (simp add: fts_split_blank)
  qed
qed

text \<open>
  The query built from what the user types asks for exactly its words: none is empty or has a
  blank in it and together they are all the other characters in order; each is quoted with its
  quotes doubled, so that none of FTS5's operators is read as one, with single spaces between them
  and a star after the last; blank input asks for nothing. It holds when the result fits the buffer.
\<close>
theorem build_fts_query_quotes:
  assumes "length (fts_join_words (fts_split input)) + 1 < cap"
  shows "build_fts_query input out cap = fts_join_words (fts_split input) @ (if fts_split input = [] then [] else ''*'')
    \<and> concat (fts_split input) = filter (\<lambda>c. \<not> fts_blank c) input
    \<and> (\<forall>w\<in>set (fts_split input). w \<noteq> [] \<and> (\<forall>c\<in>set w. \<not> fts_blank c))"
proof -
  have w: "fts_words cap True input [] = fts_join_words (fts_split input)"
    using fts_words_fit [where out = "[]" and p = input and cap = cap and first_word = True] assms by simp
  have "fts_join_words ws = [] \<longleftrightarrow> ws = []" for ws by (cases ws rule: fts_join_words.cases) (simp_all add: fts_phrase_def)
  then have "build_fts_query input out cap = fts_join_words (fts_split input) @ (if fts_split input = [] then [] else ''*'')"
    using assms by (auto simp: build_fts_query_def w)
  then show ?thesis using fts_split_concat fts_split_words by blast
qed

lemma build_fts_query_quotes_witness:
  "build_fts_query ''temp  OR a'' [] 600 = CHR 0x22 # ''temp'' @ [CHR 0x22] @ '' '' @ CHR 0x22 # ''OR'' @ [CHR 0x22]
     @ '' '' @ CHR 0x22 # ''a'' @ [CHR 0x22] @ ''*''"
proof -
  have s: "fts_split ''temp  OR a'' = [''temp'', ''OR'', ''a'']"
    by (simp add: fts_split.simps fts_blank_def)
  show ?thesis using build_fts_query_quotes [of "''temp  OR a''" 600 "[]"] unfolding s by (simp add: fts_phrase_def)
qed

end
