(* ===== verification/Ssh_Tunnel.thy ===== *)
theory Ssh_Tunnel
  imports Connection_Log
begin

text \<open>
  \<open>src/src/core/ssh_tunnel.c\<close>: the command line of the port forward, and the life of its process.
  The operating system is a state: the results of the calls still to come (the result is 0 when the
  list is used up), the sockets that are open, the child processes not yet waited for, and what was
  launched with which environment. \<open>None\<close> is undefined behaviour of the log it writes to.
\<close>

record os =
  os_results :: "int list"
  os_fds :: nat
  os_children :: "int list"
  os_next_pid :: int
  os_environ :: "string list"
  os_launches :: "(string list \<times> string list) list"

text \<open>The result of the next call.\<close>

definition sys :: "'a os_scheme \<Rightarrow> int \<times> 'a os_scheme" where
  "sys w = (case os_results w of [] \<Rightarrow> (0, w) | r # rs \<Rightarrow> (r, w\<lparr>os_results := rs\<rparr>))"

text \<open>A line for the log, with the time the clock gives.\<close>

definition log_event ::
    "log_level \<Rightarrow> string \<Rightarrow> 'a os_scheme \<times> connection_log \<Rightarrow> ('a os_scheme \<times> connection_log) option" where
  "log_event level message s =
     (let (w, log) = s; (now, w) = sys w in
      map_option (Pair w) (connection_log_add (word_of_int now, level, Some message) log))"

record ssh_tunnel =
  st_pid :: int
  st_local_port :: u16

definition zero_tunnel :: ssh_tunnel where
  "zero_tunnel = \<lparr>st_pid = 0, st_local_port = 0\<rparr>"

record ssh_tunnel_opts =
  so_target_host :: string
  so_target_port :: u16
  so_jump_host :: string
  so_jump_port :: u16
  so_jump_user :: "string option"
  so_jump_key_path :: "string option"
  so_jump_password :: "string option"

subsection \<open>The command line\<close>

text \<open>\<open>PUSH\<close>: refused when only the slot of the final NULL is left.\<close>

definition push_arg :: "nat \<Rightarrow> string \<Rightarrow> string list \<Rightarrow> string list option" where
  "push_arg cap s argv = (if Suc (length argv) \<ge> cap then None else Some (argv @ [s]))"

definition non_empty :: "string option \<Rightarrow> bool" where
  "non_empty s \<longleftrightarrow> (case s of None \<Rightarrow> False | Some t \<Rightarrow> t \<noteq> [])"

definition port_text :: "u16 \<Rightarrow> string" where
  "port_text p = dec (unat p)"

definition ssh_tunnel_build_argv :: "ssh_tunnel_opts \<Rightarrow> u16 \<Rightarrow> nat \<Rightarrow> string list option" where
  "ssh_tunnel_build_argv opts local_port argv_cap =
     (let use_password = non_empty (so_jump_password opts);
          args = (if use_password then [''sshpass'', ''-e''] else [])
            @ [''ssh'', ''-N'']
            @ (if \<not> use_password then [''-o'', ''BatchMode=yes''] else [])
            @ [''-o'', ''ExitOnForwardFailure=yes'', ''-o'', ''StrictHostKeyChecking=accept-new'']
            @ [''-p'', snprintf 8 (port_text (if so_jump_port opts \<noteq> 0 then so_jump_port opts else 22))]
            @ (if non_empty (so_jump_key_path opts) then [''-i'', the (so_jump_key_path opts)] else [])
            @ [''-L'', snprintf 600 (''127.0.0.1:'' @ port_text local_port @ '':'' @ so_target_host opts @ '':''
                         @ port_text (so_target_port opts))]
            @ (if non_empty (so_jump_user opts)
               then [snprintf 400 (the (so_jump_user opts) @ ''@'' @ so_jump_host opts)]
               else [so_jump_host opts])
      in option_fold (push_arg argv_cap) args [])"

subsection \<open>Ports\<close>

definition open_socket :: "'a os_scheme \<Rightarrow> bool \<times> 'a os_scheme" where
  "open_socket w = (let (fd, w) = sys w in if fd < 0 then (False, w) else (True, w\<lparr>os_fds := os_fds w + 1\<rparr>))"

definition close_socket :: "'a os_scheme \<Rightarrow> 'a os_scheme" where
  "close_socket w = w\<lparr>os_fds := os_fds w - 1\<rparr>"

text \<open>The port that \<open>getsockname\<close> reports is one more result.\<close>

definition reserve_free_port :: "'a os_scheme \<Rightarrow> u16 option \<times> 'a os_scheme" where
  "reserve_free_port w =
     (let (opened, w) = open_socket w in
      if \<not> opened then (None, w)
      else
        let (bound, w) = sys w in
        if bound \<noteq> 0 then (None, close_socket w)
        else
          let (named, w) = sys w in
          if named \<noteq> 0 then (None, close_socket w)
          else let (port, w) = sys w in (Some (word_of_int port), close_socket w))"

definition port_connectable :: "u16 \<Rightarrow> 'a os_scheme \<Rightarrow> bool \<times> 'a os_scheme" where
  "port_connectable port w =
     (let (opened, w) = open_socket w in
      if \<not> opened then (False, w)
      else let (rc, w) = sys w in (rc = 0, close_socket w))"

subsection \<open>Processes\<close>

text \<open>
  \<open>posix_spawnp\<close> gives 0 and a fresh process, or an error. \<open>waitpid\<close> with \<open>WNOHANG\<close> gives the
  process when it has ended, which takes it off the children, and without it waits for that.
\<close>

definition spawn :: "string list \<Rightarrow> string list \<Rightarrow> 'a os_scheme \<Rightarrow> int \<times> int \<times> 'a os_scheme" where
  "spawn argv envp w =
     (let (rc, w) = sys w; w = w\<lparr>os_launches := os_launches w @ [(argv, envp)]\<rparr> in
      if rc \<noteq> 0 then (rc, 0, w)
      else (0, os_next_pid w, w\<lparr>os_next_pid := os_next_pid w + 1, os_children := os_next_pid w # os_children w\<rparr>))"

definition reap :: "int \<Rightarrow> 'a os_scheme \<Rightarrow> 'a os_scheme" where
  "reap pid w = w\<lparr>os_children := remove1 pid (os_children w)\<rparr>"

definition wait_nohang :: "int \<Rightarrow> 'a os_scheme \<Rightarrow> bool \<times> 'a os_scheme" where
  "wait_nohang pid w = (let (r, w) = sys w in if r = 0 then (False, w) else (True, reap pid w))"

definition kill_and_wait :: "int \<Rightarrow> 'a os_scheme \<Rightarrow> 'a os_scheme" where
  "kill_and_wait pid w = reap pid w"

text \<open>The environment of the child; \<open>malloc\<close> may refuse the copy.\<close>

definition child_environ :: "ssh_tunnel_opts \<Rightarrow> 'a os_scheme \<Rightarrow> string list \<times> 'a os_scheme" where
  "child_environ opts w =
     (if non_empty (so_jump_password opts) then
        (let (refused, w) = sys w in
         if refused \<noteq> 0 then (os_environ w, w)
         else (os_environ w @ [snprintf 192 (''SSHPASS='' @ the (so_jump_password opts))], w))
      else (os_environ w, w))"

text \<open>Eight seconds in steps of a tenth.\<close>

function wait_for_tunnel ::
    "nat \<Rightarrow> int \<Rightarrow> u16 \<Rightarrow> 'a os_scheme \<times> connection_log \<Rightarrow> (bool \<times> ssh_tunnel \<times> 'a os_scheme \<times> connection_log) option" where
  "wait_for_tunnel waited pid local_port s =
     (let (w, log) = s in
      if waited < 8000 then
        (let (ended, w) = wait_nohang pid w in
         if ended then
           map_option (\<lambda>s. (False, zero_tunnel, s))
             (log_event CONN_LOG_ERROR ''SSH tunnel: ssh exited before the tunnel came up (check jump host/user/key)'' (w, log))
         else
           let (up, w) = port_connectable local_port w in
           if up then
             map_option (\<lambda>s. (True, \<lparr>st_pid = pid, st_local_port = local_port\<rparr>, s))
               (log_event CONN_LOG_INFO (snprintf 128 (''SSH tunnel established on 127.0.0.1:'' @ port_text local_port)) (w, log))
           else wait_for_tunnel (waited + 100) pid local_port (w, log))
      else
        map_option (\<lambda>(w, log). (False, zero_tunnel, kill_and_wait pid w, log))
          (log_event CONN_LOG_ERROR ''SSH tunnel: timed out waiting for the tunnel to come up'' (w, log)))"
  by pat_completeness auto
termination by (relation "measure (\<lambda>(waited, _). 8000 - waited)") auto

declare wait_for_tunnel.simps [simp del]

abbreviation ENOENT :: int where "ENOENT \<equiv> 2"

definition launch_error :: "(int \<Rightarrow> string) \<Rightarrow> int \<Rightarrow> string \<Rightarrow> string" where
  "launch_error strerror rc program =
     snprintf 256
       (if rc = ENOENT \<and> program = ''sshpass''
        then ''SSH tunnel: '' @ [CHR 0x27] @ ''sshpass'' @ [CHR 0x27] @ '' not found on PATH - install it (e.g. `brew install ''
          @ ''hudochenkov/sshpass/sshpass` or `apt install sshpass`) or use key-based auth instead''
        else ''SSH tunnel: failed to launch '' @ program @ '': '' @ strerror rc)"

definition ssh_tunnel_start ::
    "(int \<Rightarrow> string) \<Rightarrow> ssh_tunnel_opts \<Rightarrow> 'a os_scheme \<times> connection_log \<Rightarrow> (bool \<times> ssh_tunnel \<times> 'a os_scheme \<times> connection_log) option" where
  "ssh_tunnel_start strerror opts s =
     (let (w, log) = s; (port, w) = reserve_free_port w in
      case port of
        None \<Rightarrow> map_option (\<lambda>s. (False, zero_tunnel, s)) (log_event CONN_LOG_ERROR ''SSH tunnel: failed to reserve a local port'' (w, log))
      | Some local_port \<Rightarrow>
          (case ssh_tunnel_build_argv opts local_port 20 of
             None \<Rightarrow> map_option (\<lambda>s. (False, zero_tunnel, s)) (log_event CONN_LOG_ERROR ''SSH tunnel: command too long to build'' (w, log))
           | Some argv \<Rightarrow>
               (let (envp, w) = child_environ opts w; (rc, pid, w) = spawn argv envp w in
                if rc \<noteq> 0 then
                  map_option (\<lambda>s. (False, zero_tunnel, s)) (log_event CONN_LOG_ERROR (launch_error strerror rc (hd argv)) (w, log))
                else wait_for_tunnel 0 pid local_port (w, log))))"

definition ssh_tunnel_poll_alive :: "ssh_tunnel \<Rightarrow> 'a os_scheme \<Rightarrow> bool \<times> ssh_tunnel \<times> 'a os_scheme" where
  "ssh_tunnel_poll_alive tunnel w =
     (if st_pid tunnel \<le> 0 then (False, tunnel, w)
      else let (ended, w) = wait_nohang (st_pid tunnel) w in if \<not> ended then (True, tunnel, w) else (False, zero_tunnel, w))"

definition ssh_tunnel_stop :: "ssh_tunnel \<Rightarrow> 'a os_scheme \<Rightarrow> ssh_tunnel \<times> 'a os_scheme" where
  "ssh_tunnel_stop tunnel w = (zero_tunnel, if st_pid tunnel > 0 then kill_and_wait (st_pid tunnel) w else w)"

subsection \<open>Frames\<close>

text \<open>Everything but the results to come and the list of launches.\<close>

definition held :: "'a os_scheme \<Rightarrow> nat \<times> int list \<times> int \<times> string list \<times> 'a" where
  "held w = (os_fds w, os_children w, os_next_pid w, os_environ w, os.more w)"

lemma sys_held: "sys w = (r, w') \<Longrightarrow> held w' = held w \<and> os_launches w' = os_launches w"
  by (auto simp: sys_def held_def split: list.splits)

lemma log_event_ok:
  assumes "cl_wf log"
  obtains w' log' where "log_event level m (w, log) = Some (w', log')" "cl_wf log'" "held w' = held w" "os_launches w' = os_launches w"
proof -
  obtain now w' where s: "sys w = (now, w')" by force
  obtain log' where l: "connection_log_add (word_of_int now, level, Some m) log = Some log'" "cl_wf log'"
    using add_contract [OF assms] by blast
  show ?thesis by (rule that [of w' log']) (use s l sys_held [OF s] in \<open>simp_all add: log_event_def\<close>)
qed

lemma open_close_held:
  "open_socket w = (True, w') \<Longrightarrow> held (close_socket w') = held w \<and> os_launches (close_socket w') = os_launches w"
  "open_socket w = (False, w') \<Longrightarrow> held w' = held w \<and> os_launches w' = os_launches w"
  by (auto simp: open_socket_def close_socket_def held_def dest!: sys_held split: prod.splits if_splits)

lemma close_held: "held w' = held w \<Longrightarrow> held (close_socket w') = held (close_socket w)"
  by (simp add: held_def close_socket_def)

lemma close_launches [simp]: "os_launches (close_socket w) = os_launches w"
  by (simp add: close_socket_def)

lemma reserve_held:
  assumes "reserve_free_port w = (port, w')"
  shows "held w' = held w \<and> os_launches w' = os_launches w"
proof -
  obtain opened w1 where o: "open_socket w = (opened, w1)" by force
  obtain b w2 where b: "sys w1 = (b, w2)" by force
  obtain n w3 where n: "sys w2 = (n, w3)" by force
  obtain p w4 where p: "sys w3 = (p, w4)" by force
  note h = sys_held [OF b] sys_held [OF n] sys_held [OF p]
  show ?thesis
    using assms open_close_held [of w w1] h close_held [of w2 w1] close_held [of w3 w1] close_held [of w4 w1]
    by (cases opened) (auto simp: reserve_free_port_def o b n p split: if_splits)
qed

lemma connectable_held:
  assumes "port_connectable port w = (up, w')"
  shows "held w' = held w \<and> os_launches w' = os_launches w"
proof -
  obtain opened w1 where o: "open_socket w = (opened, w1)" by force
  obtain r w2 where r: "sys w1 = (r, w2)" by force
  show ?thesis
    using assms open_close_held [of w w1] sys_held [OF r] close_held [of w2 w1]
    by (cases opened) (auto simp: port_connectable_def o r)
qed

lemma child_environ_held: "child_environ opts w = (e, w') \<Longrightarrow> held w' = held w \<and> os_launches w' = os_launches w"
  by (auto simp: child_environ_def dest: sys_held split: if_splits prod.splits)

text \<open>\<open>w\<close> with \<open>pid\<close> as an additional child.\<close>

definition with_child :: "int \<Rightarrow> 'a os_scheme \<Rightarrow> 'a os_scheme \<Rightarrow> bool" where
  "with_child pid w0 w \<longleftrightarrow> held w = (os_fds w0, pid # os_children w0, os_next_pid w0 + 1, os_environ w0, os.more w0)"

definition same_children :: "'a os_scheme \<Rightarrow> 'a os_scheme \<Rightarrow> bool" where
  "same_children w0 w \<longleftrightarrow> os_fds w = os_fds w0 \<and> os_children w = os_children w0 \<and> os_next_pid w0 \<le> os_next_pid w
     \<and> os_environ w = os_environ w0 \<and> os.more w = os.more w0"

lemma reap_child: "with_child pid w0 w \<Longrightarrow> same_children w0 (reap pid w)"
  by (simp add: with_child_def same_children_def held_def reap_def)

lemma held_child: "held w' = held w \<Longrightarrow> with_child pid w0 w' = with_child pid w0 w"
  by (simp add: with_child_def)

lemma held_same: "held w' = held w \<Longrightarrow> same_children w0 w' = same_children w0 w"
  by (simp add: same_children_def held_def)

text \<open>How a start ends: with the tunnel's process as the only new child, or with nothing new.\<close>

definition started :: "'a os_scheme \<Rightarrow> (bool \<times> ssh_tunnel \<times> 'a os_scheme \<times> connection_log) option \<Rightarrow> bool" where
  "started w0 r \<longleftrightarrow>
     (case r of
        None \<Rightarrow> False
      | Some (ok, t, w, log) \<Rightarrow> cl_wf log \<and> os_fds w = os_fds w0 \<and> os_environ w = os_environ w0 \<and> os.more w = os.more w0
          \<and> os_next_pid w0 \<le> os_next_pid w
          \<and> (if ok then st_pid t = os_next_pid w0 \<and> os_children w = st_pid t # os_children w0
             else t = zero_tunnel \<and> os_children w = os_children w0))"

lemma started_failed: "same_children w0 w \<Longrightarrow> cl_wf log \<Longrightarrow> started w0 (Some (False, zero_tunnel, w, log))"
  by (simp add: started_def same_children_def)

lemma log_failed:
  assumes "cl_wf log" "same_children w0 w"
  shows "started w0 (map_option (\<lambda>s. (False, zero_tunnel, s)) (log_event level m (w, log)))"
proof -
  obtain w' log' where "log_event level m (w, log) = Some (w', log')" "cl_wf log'" "held w' = held w"
    using log_event_ok [OF assms(1)] by metis
  then show ?thesis using assms(2) held_same [of w' w w0] by (simp add: started_failed)
qed

lemma wait_for_tunnel_started:
  assumes "cl_wf log" "with_child pid w0 w" "pid = os_next_pid w0"
  shows "started w0 (wait_for_tunnel waited pid port (w, log))"
  using assms(2)
proof (induction "8000 - waited" arbitrary: waited w rule: less_induct)
  case less
  show ?case
  proof (cases "waited < 8000")
    case True
    obtain ended w1 where e: "wait_nohang pid w = (ended, w1)" by force
    show ?thesis
    proof (cases ended)
      case t: True
      then obtain r w' where w': "sys w = (r, w')" "w1 = reap pid w'"
        using e by (auto simp: wait_nohang_def split: prod.splits if_splits)
      then have "same_children w0 w1" using less.prems held_child [of w' w] sys_held [OF w'(1)] by (simp add: reap_child)
      then show ?thesis using True t by (simp add: wait_for_tunnel.simps [of waited] e log_failed [OF assms(1)])
    next
      case f: False
      have w1: "held w1 = held w" using e f by (auto simp: wait_nohang_def dest: sys_held split: prod.splits if_splits)
      obtain up w2 where u: "port_connectable port w1 = (up, w2)" by force
      have w2: "with_child pid w0 w2" using less.prems held_child connectable_held [OF u] w1 by metis
      show ?thesis
      proof (cases up)
        case t: True
        obtain w' log' where l: "log_event CONN_LOG_INFO (snprintf 128 (''SSH tunnel established on 127.0.0.1:'' @ port_text port)) (w2, log) = Some (w', log')"
            "cl_wf log'" "held w' = held w2"
          using log_event_ok [OF assms(1)] by metis
        have "with_child pid w0 w'" using w2 held_child [OF l(3)] by metis
        moreover have "wait_for_tunnel waited pid port (w, log) = Some (True, \<lparr>st_pid = pid, st_local_port = port\<rparr>, w', log')"
          using True f t u l(1) by (simp add: wait_for_tunnel.simps [of waited] e)
        ultimately show ?thesis using l(2) assms(3) by (simp add: started_def with_child_def held_def)
      next
        case False
        have "started w0 (wait_for_tunnel (waited + 100) pid port (w2, log))"
          by (rule less.hyps) (use True w2 in simp_all)
        then show ?thesis using True f False u by (simp add: wait_for_tunnel.simps [of waited] e)
      qed
    qed
  next
    case False
    obtain w' log' where l: "log_event CONN_LOG_ERROR ''SSH tunnel: timed out waiting for the tunnel to come up'' (w, log) = Some (w', log')"
        "cl_wf log'" "held w' = held w"
      using log_event_ok [OF assms(1)] by metis
    then have "same_children w0 (kill_and_wait pid w')" using less.prems held_child reap_child by (metis kill_and_wait_def)
    then show ?thesis using False l by (simp add: wait_for_tunnel.simps [of waited] started_failed)
  qed
qed

lemma ssh_started:
  assumes "cl_wf log"
  shows "started w (ssh_tunnel_start strerror opts (w, log))"
proof -
  obtain port w1 where r: "reserve_free_port w = (port, w1)" by force
  have w1: "same_children w w1" using reserve_held [OF r] held_same [of w1 w w] by (simp add: same_children_def)
  show ?thesis
  proof (cases port)
    case None
    then show ?thesis using log_failed [OF assms w1] by (simp add: ssh_tunnel_start_def r)
  next
    case (Some p)
    show ?thesis
    proof (cases "ssh_tunnel_build_argv opts p 20")
      case None
      then show ?thesis using Some log_failed [OF assms w1] by (simp add: ssh_tunnel_start_def r)
    next
      case argv: (Some argv)
      obtain envp w2 where c: "child_environ opts w1 = (envp, w2)" by force
      have h2: "held w2 = held w" using child_environ_held [OF c] reserve_held [OF r] by simp
      obtain rc w3 where s: "sys w2 = (rc, w3)" by force
      have h3: "held w3 = held w" using sys_held [OF s] h2 by simp
      let ?w = "w3\<lparr>os_launches := os_launches w3 @ [(argv, envp)]\<rparr>"
      have h: "held ?w = held w" using h3 by (simp add: held_def)
      show ?thesis
      proof (cases "rc = 0")
        case True
        let ?w' = "?w\<lparr>os_next_pid := os_next_pid ?w + 1, os_children := os_next_pid ?w # os_children ?w\<rparr>"
        have p0: "os_next_pid ?w = os_next_pid w" using h by (simp add: held_def)
        have "with_child (os_next_pid w) w ?w'" using h by (simp add: with_child_def held_def)
        then have "started w (wait_for_tunnel 0 (os_next_pid w) p (?w', log))"
          by (rule wait_for_tunnel_started [OF assms]) simp
        then show ?thesis using True Some argv p0 by (simp add: ssh_tunnel_start_def r c spawn_def s Let_def)
      next
        case False
        have "same_children w ?w" using h by (simp add: same_children_def held_def)
        then show ?thesis using False Some argv log_failed [OF assms] by (simp add: ssh_tunnel_start_def r c spawn_def s Let_def)
      qed
    qed
  qed
qed

text \<open>
  C26. Starting a tunnel always ends, and never leaves anything behind: every socket it opened is
  closed again, and unless it succeeds the process it launched (if any) has been waited for and the
  tunnel is zero. On success exactly one process is new, the tunnel's, and stopping the tunnel
  leaves the children that were there before.
\<close>
theorem ssh_tunnel_no_orphan:
  assumes "cl_wf log" "0 < os_next_pid w"
  shows "\<exists>ok t w' log'. ssh_tunnel_start strerror opts (w, log) = Some (ok, t, w', log') \<and> cl_wf log' \<and> os_fds w' = os_fds w
    \<and> (if ok then 0 < st_pid t \<and> os_children w' = st_pid t # os_children w
              \<and> os_children (snd (ssh_tunnel_stop t w')) = os_children w
       else t = zero_tunnel \<and> os_children w' = os_children w)"
proof -
  obtain ok t w' log' where r: "ssh_tunnel_start strerror opts (w, log) = Some (ok, t, w', log')"
    using ssh_started [OF assms(1), of w strerror opts] by (auto simp: started_def split: option.splits)
  show ?thesis
    using ssh_started [OF assms(1), of w strerror opts] assms(2) unfolding r
    by (intro exI [of _ ok] exI [of _ t] exI [of _ w'] exI [of _ log'])
      (auto simp: started_def ssh_tunnel_stop_def kill_and_wait_def reap_def)
qed


text \<open>The launch fails because sshpass is missing; nothing stays behind.\<close>

definition sample_os :: "unit os_scheme" where
  "sample_os = \<lparr>os_results = [3, 0, 0, 40000, 0, 0, 0, 0, 1], os_fds = 5, os_children = [7], os_next_pid = 9,
     os_environ = [''HOME=/root''], os_launches = []\<rparr>"

definition sample_opts :: ssh_tunnel_opts where
  "sample_opts = \<lparr>so_target_host = ''broker'', so_target_port = 1883, so_jump_host = ''jump'', so_jump_port = 0,
     so_jump_user = Some ''me'', so_jump_key_path = None, so_jump_password = Some ''secret''\<rparr>"

lemma ssh_tunnel_no_orphan_witness:
  "\<exists>ok t w' log'. ssh_tunnel_start (\<lambda>_. ''error'') sample_opts (sample_os, connection_log_init 4) = Some (ok, t, w', log')
     \<and> os_fds w' = 5 \<and> (if ok then os_children (snd (ssh_tunnel_stop t w')) = [7] else os_children w' = [7])"
  using ssh_tunnel_no_orphan [of "connection_log_init 4" sample_os "\<lambda>_. ''error''" sample_opts]
  by (fastforce simp: sample_os_def cl_wf_def connection_log_init_def ring_cap_ok_def split: if_splits)

subsection \<open>The command line\<close>

lemma push_args_fit: "length argv + length args < cap \<Longrightarrow> option_fold (push_arg cap) args argv = Some (argv @ args)"
  by (induction args arbitrary: argv) (simp_all add: push_arg_def)

text \<open>
  C27. The command line always fits its array, and keeps the secret: it is the same for any two
  passwords, it begins with \<open>sshpass -e\<close> exactly when there is one, and it ends with the forward
  of the chosen local port and the jump host.
\<close>
theorem ssh_argv_secret:
  shows "\<exists>argv. ssh_tunnel_build_argv opts port 20 = Some argv \<and> length argv < 20
    \<and> (non_empty (so_jump_password opts) \<longrightarrow>
        take 4 argv = [''sshpass'', ''-e'', ''ssh'', ''-N'']
        \<and> (\<forall>q. q \<noteq> [] \<longrightarrow> ssh_tunnel_build_argv (opts\<lparr>so_jump_password := Some q\<rparr>) port 20 = Some argv))
    \<and> (\<not> non_empty (so_jump_password opts) \<longrightarrow> take 4 argv = [''ssh'', ''-N'', ''-o'', ''BatchMode=yes''])
    \<and> argv ! (length argv - 3) = ''-L''
    \<and> argv ! (length argv - 2) = snprintf 600 (''127.0.0.1:'' @ port_text port @ '':'' @ so_target_host opts @ '':'' @ port_text (so_target_port opts))
    \<and> last argv = (if non_empty (so_jump_user opts) then snprintf 400 (the (so_jump_user opts) @ ''@'' @ so_jump_host opts) else so_jump_host opts)"
  by (cases "non_empty (so_jump_password opts)"; cases "non_empty (so_jump_key_path opts)"; cases "non_empty (so_jump_user opts)")
    (simp_all add: ssh_tunnel_build_argv_def push_args_fit Let_def non_empty_def)

lemma ssh_argv_secret_witness: "ssh_tunnel_build_argv sample_opts 40000 20 = ssh_tunnel_build_argv (sample_opts\<lparr>so_jump_password := Some ''other''\<rparr>) 40000 20"
  using ssh_argv_secret [of sample_opts 40000] by (auto simp: sample_opts_def non_empty_def)

end
