(* ===== verification/Mqtt_Client.thy ===== *)
theory Mqtt_Client
  imports Ssh_Tunnel Spsc_Queue "HOL-Library.Monad_Syntax"
begin

text \<open>
  \<open>src/src/core/mqtt_client.c\<close>: the client around libmosquitto. The library is a state beside the
  operating system's: the instances that exist, those whose network thread runs, and every request
  made to it; its answers are the results still to come. Using an instance that does not exist is
  \<open>None\<close>. A callback or an operation of the main thread is one step; the two steps that
  interleave inside \<open>mqtt_client_subscribe\<close> and \<open>on_connect\<close> are modelled in \<open>Mqtt_Race\<close>.
\<close>

subsection \<open>The library\<close>

datatype mosq_call =
    Create "string option" bool
  | Reconnect_Delay nat nat bool
  | Protocol_Version nat
  | Transport_Websockets
  | Http_Path string
  | Username_Pw string "string option"
  | Tls_Set "string option" "string option" "string option"
  | Tls_Opts bool "string option"
  | Tls_Insecure
  | Set_Callbacks
  | Connect string u16 u16
  | Subscribe string u8
  | Unsubscribe string
  | Publish string "bytes option" u32 u8 bool

record net = os +
  nt_live :: "nat list"
  nt_threads :: "nat list"
  nt_next :: nat
  nt_calls :: "(nat \<times> mosq_call) list"

text \<open>A request to an instance, with its return code (0 is \<open>MOSQ_ERR_SUCCESS\<close>).\<close>

definition mosq_call :: "nat \<Rightarrow> mosq_call \<Rightarrow> net \<Rightarrow> (int \<times> net) option" where
  "mosq_call h c w = (if h \<in> set (nt_live w) then Some (sys (w\<lparr>nt_calls := nt_calls w @ [(h, c)]\<rparr>)) else None)"

definition mosquitto_new :: "string option \<Rightarrow> bool \<Rightarrow> net \<Rightarrow> nat option \<times> net" where
  "mosquitto_new client_id clean w =
     (let (refused, w) = sys w in
      if refused \<noteq> 0 then (None, w)
      else (Some (nt_next w), w\<lparr>nt_next := nt_next w + 1, nt_live := nt_next w # nt_live w,
                               nt_calls := nt_calls w @ [(nt_next w, Create client_id clean)]\<rparr>))"

definition mosquitto_destroy :: "nat \<Rightarrow> net \<Rightarrow> net option" where
  "mosquitto_destroy h w =
     (if h \<in> set (nt_live w) then Some (w\<lparr>nt_live := removeAll h (nt_live w), nt_threads := removeAll h (nt_threads w)\<rparr>) else None)"

definition mosquitto_loop_start :: "nat \<Rightarrow> net \<Rightarrow> (int \<times> net) option" where
  "mosquitto_loop_start h w =
     (if h \<in> set (nt_live w) then
        (let (rc, w) = sys w in Some (rc, if rc = 0 then w\<lparr>nt_threads := h # nt_threads w\<rparr> else w))
      else None)"

text \<open>
  \<open>mosquitto_disconnect\<close> and then \<open>mosquitto_loop_stop\<close>, forced when there was no connection:
  either way the thread has ended.
\<close>

definition stop_network_thread :: "nat \<Rightarrow> net \<Rightarrow> net option" where
  "stop_network_thread h w =
     (if h \<in> set (nt_live w) then
        (let (rc, w) = sys w; (_, w) = sys w in Some (w\<lparr>nt_threads := removeAll h (nt_threads w)\<rparr>))
      else None)"

subsection \<open>State\<close>

datatype conn_state = MQTT_CS_DISCONNECTED | MQTT_CS_CONNECTING | MQTT_CS_CONNECTED

definition MQTT_CLIENT_MAX_SUBS :: nat where [simp]: "MQTT_CLIENT_MAX_SUBS = 32"

record mqtt_message =
  mm_timestamp_us :: u64
  mm_topic :: string
  mm_payload :: "bytes option"
  mm_payload_len :: u32
  mm_qos :: u8
  mm_retained :: bool

record mqtt_client =
  mc_mosq :: "nat option"
  mc_msg_queue :: "mqtt_message spsc_queue"
  mc_log :: connection_log
  mc_conn_state :: conn_state
  mc_last_disconnect_rc :: int
  mc_sub_topics :: "string list"
  mc_sub_qos :: "u8 list"
  mc_sub_count :: nat
  mc_pending_subs :: "(int \<times> string) list"
  mc_pending_next :: u32
  mc_ssh_tunnel :: ssh_tunnel
  mc_dropped_count :: u32
  mc_last_drop_log_us :: u64

type_synonym cstate = "mqtt_client \<times> net"

definition client_log :: "log_level \<Rightarrow> string \<Rightarrow> cstate \<Rightarrow> cstate option" where
  "client_log level message s =
     (let (c, w) = s in map_option (\<lambda>(w, log). (c\<lparr>mc_log := log\<rparr>, w)) (log_event level message (w, mc_log c)))"

definition note_dropped :: "string \<Rightarrow> cstate \<Rightarrow> cstate option" where
  "note_dropped why s =
     (let (c, w) = s;
          n = mc_dropped_count c + 1;
          c = c\<lparr>mc_dropped_count := n\<rparr>;
          (now, w) = sys w; now = word_of_int now
      in if n = 1 \<or> now - mc_last_drop_log_us c \<ge> 5000000 then
           client_log CONN_LOG_WARN (snprintf 128 (''Dropped '' @ dec (unat n) @ '' message(s) so far ('' @ why @ '')''))
             (c\<lparr>mc_last_drop_log_us := now\<rparr>, w)
         else Some (c, w))"

subsection \<open>Callbacks\<close>

definition send_subscribe :: "nat \<Rightarrow> string \<Rightarrow> u8 \<Rightarrow> cstate \<Rightarrow> (int \<times> cstate) option" where
  "send_subscribe h topic qos s =
     (let (c, w) = s in
      do {
        (rc, w) \<leftarrow> mosq_call h (Subscribe topic qos) w;
        let (mid, w) = sys w;
        if rc = 0 then
          (let slot = unat (mc_pending_next c) mod MQTT_CLIENT_MAX_SUBS in
           Some (rc, c\<lparr>mc_pending_next := mc_pending_next c + 1,
                      mc_pending_subs := (mc_pending_subs c)[slot := (mid, util_str_copy (snd (mc_pending_subs c ! slot)) 256 (Some topic))]\<rparr>, w))
        else Some (rc, c, w)
      })"

fun resubscribe_loop :: "nat \<Rightarrow> (string \<times> u8) list \<Rightarrow> cstate \<Rightarrow> cstate option" where
  "resubscribe_loop h [] s = Some s"
| "resubscribe_loop h ((topic, qos) # subs) s = do { (_, s) \<leftarrow> send_subscribe h topic qos s; resubscribe_loop h subs s }"

text \<open>The filters that are stored.\<close>

definition stored_subs :: "mqtt_client \<Rightarrow> (string \<times> u8) list" where
  "stored_subs c = take (mc_sub_count c) (zip (mc_sub_topics c) (mc_sub_qos c))"

definition on_connect :: "(int \<Rightarrow> string) \<Rightarrow> nat \<Rightarrow> int \<Rightarrow> cstate \<Rightarrow> cstate option" where
  "on_connect connack_string h rc s =
     (let (c, w) = s in
      if rc = 0 then
        do {
          let c = c\<lparr>mc_conn_state := MQTT_CS_CONNECTED, mc_last_disconnect_rc := 0\<rparr>;
          (c, w) \<leftarrow> client_log CONN_LOG_INFO ''Connected to broker'' (c, w);
          resubscribe_loop h (stored_subs c) (c, w)
        }
      else client_log CONN_LOG_ERROR (snprintf 256 (''Connection failed: '' @ connack_string rc))
             (c\<lparr>mc_conn_state := MQTT_CS_DISCONNECTED\<rparr>, w))"

definition on_disconnect :: "(int \<Rightarrow> string option) \<Rightarrow> (int \<Rightarrow> string) \<Rightarrow> int \<Rightarrow> cstate \<Rightarrow> cstate option" where
  "on_disconnect mosq_strerror strerror rc s =
     (let (c, w) = s; c = c\<lparr>mc_conn_state := MQTT_CS_DISCONNECTED, mc_last_disconnect_rc := rc\<rparr> in
      if rc = 0 then client_log CONN_LOG_INFO ''Disconnected cleanly'' (c, w)
      else
        let msg = (case mosq_strerror rc of
                     Some m \<Rightarrow> if m \<noteq> [] \<and> m \<noteq> ''Unknown error'' then m else strerror rc
                   | None \<Rightarrow> strerror rc)
        in client_log CONN_LOG_WARN (snprintf 256 (''Connection lost: '' @ msg @ '' (rc='' @ dec_int rc @ '')'')) (c, w))"

text \<open>\<open>malloc\<close> may refuse the copy of the payload.\<close>

definition on_message :: "string \<Rightarrow> bytes \<Rightarrow> int \<Rightarrow> bool \<Rightarrow> cstate \<Rightarrow> cstate option" where
  "on_message topic payload qos retain s =
     (let (c, w) = s;
          (now, w) = sys w;
          m = \<lparr>mm_timestamp_us = word_of_int now, mm_topic = util_str_copy [] 256 (Some topic), mm_payload = None,
               mm_payload_len = word_of_nat (length payload), mm_qos = word_of_int qos, mm_retained = retain\<rparr>;
          (refused, w) = (if length payload > 0 then sys w else (0, w))
      in if length payload > 0 \<and> refused \<noteq> 0 then note_dropped ''out of memory'' (c, w)
         else
           let m = (if length payload > 0 then m\<lparr>mm_payload := Some payload\<rparr> else m) in
           do {
             (pushed, q) \<leftarrow> spsc_queue_push m (mc_msg_queue c);
             if pushed then Some (c\<lparr>mc_msg_queue := q\<rparr>, w)
             else note_dropped ''queue full'' (c, w)
           })"

definition hex_upper :: "nat \<Rightarrow> string" where
  "hex_upper n = map (\<lambda>d. if 97 \<le> (of_char d :: nat) then char_of (of_char d - 32 :: nat) else d) (hex n)"

definition quoted_name :: "string \<Rightarrow> string" where
  "quoted_name s = CHR 0x27 # s @ [CHR 0x27]"

definition suback_line :: "string \<Rightarrow> int \<Rightarrow> log_level \<times> string" where
  "suback_line topic granted =
     (let name = quoted_name (if topic \<noteq> [] then topic else ''?'') in
      if granted \<ge> 0x80 then
        (CONN_LOG_ERROR, snprintf 384 (''Subscription to '' @ name @ '' denied by broker (reason 0x'' @ pad0 2 (hex_upper (nat granted))
           @ '') - no messages will arrive''))
      else (CONN_LOG_INFO, snprintf 384 (''Subscription to '' @ name @ '' acknowledged (QoS '' @ dec_int granted @ '')'')))"

fun suback_loop :: "string \<Rightarrow> int list \<Rightarrow> cstate \<Rightarrow> cstate option" where
  "suback_loop topic [] s = Some s"
| "suback_loop topic (g # gs) s =
     (let (level, line) = suback_line topic g in do { s \<leftarrow> client_log level line s; suback_loop topic gs s })"

text \<open>The first pending packet with this id that still has its topic.\<close>

fun find_pending :: "int \<Rightarrow> nat \<Rightarrow> (int \<times> string) list \<Rightarrow> nat option" where
  "find_pending mid i [] = None"
| "find_pending mid i ((m, topic) # ps) = (if m = mid \<and> topic \<noteq> [] then Some i else find_pending mid (i + 1) ps)"

definition on_subscribe :: "int \<Rightarrow> int list \<Rightarrow> cstate \<Rightarrow> cstate option" where
  "on_subscribe mid granted_qos s =
     (let (c, w) = s in
      case find_pending mid 0 (mc_pending_subs c) of
        Some i \<Rightarrow>
          (let topic = util_str_copy [] 256 (Some (snd (mc_pending_subs c ! i))) in
           suback_loop topic granted_qos (c\<lparr>mc_pending_subs := (mc_pending_subs c)[i := (fst (mc_pending_subs c ! i), [])]\<rparr>, w))
      | None \<Rightarrow> suback_loop [] granted_qos (c, w))"

subsection \<open>Life cycle\<close>

definition mqtt_client_new :: "mqtt_message spsc_queue \<Rightarrow> connection_log \<Rightarrow> net \<Rightarrow> mqtt_client option \<times> net" where
  "mqtt_client_new msg_queue log w =
     (let (refused, w) = sys w in
      if refused \<noteq> 0 then (None, w)
      else (Some \<lparr>mc_mosq = None, mc_msg_queue = msg_queue, mc_log = log, mc_conn_state = MQTT_CS_DISCONNECTED,
                  mc_last_disconnect_rc = 0, mc_sub_topics = replicate MQTT_CLIENT_MAX_SUBS [],
                  mc_sub_qos = replicate MQTT_CLIENT_MAX_SUBS 0, mc_sub_count = 0,
                  mc_pending_subs = replicate MQTT_CLIENT_MAX_SUBS (0, []), mc_pending_next = 0,
                  mc_ssh_tunnel = zero_tunnel, mc_dropped_count = 0, mc_last_drop_log_us = 0\<rparr>, w))"

definition stop_and_destroy :: "nat option \<Rightarrow> net \<Rightarrow> net option" where
  "stop_and_destroy mosq w =
     (case mosq of None \<Rightarrow> Some w | Some h \<Rightarrow> do { w \<leftarrow> stop_network_thread h w; mosquitto_destroy h w })"

definition mqtt_client_destroy :: "mqtt_client option \<Rightarrow> net \<Rightarrow> net option" where
  "mqtt_client_destroy client w =
     (case client of
        None \<Rightarrow> Some w
      | Some c \<Rightarrow> do { w \<leftarrow> stop_and_destroy (mc_mosq c) w; Some (snd (ssh_tunnel_stop (mc_ssh_tunnel c) w)) })"

record connect_opts =
  co_host :: string
  co_port :: u16
  co_client_id :: "string option"
  co_clean_session :: bool
  co_keepalive_secs :: u16
  co_username :: "string option"
  co_password :: "string option"
  co_protocol_version :: int
  co_transport :: int
  co_ws_path :: "string option"
  co_tls_ca_cert :: "string option"
  co_tls_client_cert :: "string option"
  co_tls_client_key :: "string option"
  co_tls_version :: int
  co_tls_verify :: bool
  co_ssh_tunnel_enabled :: bool
  co_ssh_jump_host :: string
  co_ssh_jump_port :: u16
  co_ssh_jump_user :: "string option"
  co_ssh_jump_key_path :: "string option"
  co_ssh_jump_password :: "string option"

definition tunnel_opts :: "connect_opts \<Rightarrow> ssh_tunnel_opts" where
  "tunnel_opts opts =
     \<lparr>so_target_host = co_host opts, so_target_port = co_port opts, so_jump_host = co_ssh_jump_host opts,
      so_jump_port = co_ssh_jump_port opts, so_jump_user = co_ssh_jump_user opts,
      so_jump_key_path = co_ssh_jump_key_path opts, so_jump_password = co_ssh_jump_password opts\<rparr>"

definition protocol_number :: "int \<Rightarrow> nat" where
  "protocol_number v = (if v = 5 then 5 else if v = 31 then 3 else 4)"

text \<open>A string that is there and not empty.\<close>

definition given :: "string option \<Rightarrow> string option" where
  "given s = (if non_empty s then s else None)"

text \<open>The first system file of CA certificates that \<open>access\<close> can read.\<close>

fun find_ca :: "string list \<Rightarrow> net \<Rightarrow> string option \<times> net" where
  "find_ca [] w = (None, w)"
| "find_ca (p # ps) w = (let (rc, w) = sys w in if rc = 0 then (Some p, w) else find_ca ps w)"

definition sys_ca_paths :: "string list" where
  "sys_ca_paths = [''/etc/ssl/cert.pem'', ''/etc/ssl/certs/ca-certificates.crt'', ''/etc/pki/tls/certs/ca-bundle.crt'']"

definition mosq_do :: "nat \<Rightarrow> mosq_call \<Rightarrow> cstate \<Rightarrow> cstate option" where
  "mosq_do h call s = (let (c, w) = s in do { (_, w) \<leftarrow> mosq_call h call w; Some (c, w) })"

definition setup_tls :: "(int \<Rightarrow> string) \<Rightarrow> nat \<Rightarrow> connect_opts \<Rightarrow> cstate \<Rightarrow> cstate option" where
  "setup_tls mosq_strerror h opts s =
     (if co_tls_version opts = 0 then Some s
      else
        let (c, w) = s;
            given_ca = given (co_tls_ca_cert opts);
            (ca, w) = (if given_ca = None then find_ca sys_ca_paths w else (given_ca, w))
        in do {
             s \<leftarrow> (case (given_ca, ca) of
                      (None, Some path) \<Rightarrow>
                        client_log CONN_LOG_INFO (snprintf 320 (''TLS: no CA cert specified, using '' @ path)) (c, w)
                    | _ \<Rightarrow> Some (c, w));
             let (c, w) = s;
             (rc, w) \<leftarrow> mosq_call h (Tls_Set ca (given (co_tls_client_cert opts)) (given (co_tls_client_key opts))) w;
             s \<leftarrow> (if rc \<noteq> 0 then client_log CONN_LOG_WARN (snprintf 256 (''TLS setup failed: '' @ mosq_strerror rc)) (c, w)
                   else Some (c, w));
             let ver = (if co_tls_version opts = 12 then Some ''tlsv1.2''
                        else if co_tls_version opts = 13 then Some ''tlsv1.3'' else None);
             s \<leftarrow> mosq_do h (Tls_Opts (co_tls_verify opts) ver) s;
             if \<not> co_tls_verify opts then mosq_do h Tls_Insecure s else Some s
           })"

text \<open>From the fresh instance to the running network thread.\<close>

definition dial :: "(int \<Rightarrow> string) \<Rightarrow> bool \<Rightarrow> nat \<Rightarrow> connect_opts \<Rightarrow> string \<times> u16 \<Rightarrow> cstate \<Rightarrow> (bool \<times> cstate) option" where
  "dial mosq_strerror ws_supported h opts target s =
     (let (dial_host, dial_port) = target in
      do {
        s \<leftarrow> mosq_do h (Reconnect_Delay 1 30 True) s;
        s \<leftarrow> mosq_do h (Protocol_Version (protocol_number (co_protocol_version opts))) s;
        s \<leftarrow> (if co_transport opts = 1 then
                (if ws_supported then
                   do {
                     s \<leftarrow> mosq_do h Transport_Websockets s;
                     (case given (co_ws_path opts) of Some p \<Rightarrow> mosq_do h (Http_Path p) s | None \<Rightarrow> Some s)
                   }
                 else client_log CONN_LOG_WARN ''WebSocket transport requires libmosquitto >= 2.1 - using TCP instead'' s)
              else Some s);
        s \<leftarrow> (case co_username opts of Some u \<Rightarrow> mosq_do h (Username_Pw u (co_password opts)) s | None \<Rightarrow> Some s);
        s \<leftarrow> setup_tls mosq_strerror h opts s;
        s \<leftarrow> mosq_do h Set_Callbacks s;
        (c, w) \<leftarrow> client_log CONN_LOG_INFO
                   (snprintf 512 (''Connecting to '' @ dial_host @ '':'' @ dec (unat dial_port) @ ''...'')) s;
        (rc, w) \<leftarrow> mosq_call h (Connect dial_host dial_port (co_keepalive_secs opts)) w;
        if rc \<noteq> 0 then
          do {
            s \<leftarrow> client_log CONN_LOG_ERROR (snprintf 512 (''Connect failed: '' @ mosq_strerror rc)) (c, w);
            Some (False, s)
          }
        else
          do {
            (rc, w) \<leftarrow> mosquitto_loop_start h w;
            if rc \<noteq> 0 then
              do {
                (c, w) \<leftarrow> client_log CONN_LOG_ERROR ''Failed to start MQTT loop thread'' (c, w);
                w \<leftarrow> mosquitto_destroy h w;
                Some (False, c\<lparr>mc_mosq := None\<rparr>, w)
              }
            else Some (True, c, w)
          }
      })"

text \<open>A persistent session needs a client id.\<close>

definition effective_id :: "connect_opts \<Rightarrow> net \<Rightarrow> string option \<times> net" where
  "effective_id opts w =
     (if \<not> co_clean_session opts \<and> \<not> non_empty (co_client_id opts) then
        (let (now, w) = sys w
         in (Some (snprintf 32 (''mqttviewer-'' @ pad0 8 (hex (unat (word_of_int now :: u64))))), w))
      else (co_client_id opts, w))"

text \<open>
  After the old instance is destroyed, \<open>client->mosq\<close> keeps its value until the new one is there; a
  tunnel that cannot be started returns in between.
\<close>

definition mqtt_client_connect ::
    "(int \<Rightarrow> string) \<Rightarrow> (int \<Rightarrow> string) \<Rightarrow> bool \<Rightarrow> connect_opts \<Rightarrow> cstate \<Rightarrow> (bool \<times> cstate) option" where
  "mqtt_client_connect mosq_strerror strerror ws_supported opts s =
     (let (c, w) = s in
      do {
        w \<leftarrow> stop_and_destroy (mc_mosq c) w;
        let (t, w) = ssh_tunnel_stop (mc_ssh_tunnel c) w;
        let c = c\<lparr>mc_ssh_tunnel := t\<rparr>;
        (ok, t, w, log) \<leftarrow> (if co_ssh_tunnel_enabled opts then ssh_tunnel_start strerror (tunnel_opts opts) (w, mc_log c)
                              else Some (True, t, w, mc_log c));
        let c = c\<lparr>mc_ssh_tunnel := t, mc_log := log\<rparr>;
        if \<not> ok then Some (False, c, w)
        else
          do {
            let target = (if co_ssh_tunnel_enabled opts then (''127.0.0.1'', st_local_port t) else (co_host opts, co_port opts));
            let c = c\<lparr>mc_conn_state := MQTT_CS_CONNECTING, mc_last_disconnect_rc := 0, mc_sub_count := 0\<rparr>;
            let (client_id, w) = effective_id opts w;
            let (h, w) = mosquitto_new client_id (co_clean_session opts) w;
            let c = c\<lparr>mc_mosq := h\<rparr>;
            (case h of
               None \<Rightarrow>
                 do {
                   let (err, w) = sys w;
                   s \<leftarrow> client_log CONN_LOG_ERROR
                          (snprintf 256 (''Failed to create MQTT client (errno '' @ dec_int err @ '': '' @ strerror err @ '')'')) (c, w);
                   Some (False, s)
                 }
             | Some i \<Rightarrow> dial mosq_strerror ws_supported i opts target (c, w))
          }
      })"

definition mqtt_client_disconnect :: "cstate \<Rightarrow> cstate option" where
  "mqtt_client_disconnect s =
     (let (c, w) = s in
      do {
        (c, w) \<leftarrow> (case mc_mosq c of
                      None \<Rightarrow> Some (c, w)
                    | Some h \<Rightarrow>
                        do {
                          let was_active = (mc_conn_state c = MQTT_CS_CONNECTING \<or> mc_conn_state c = MQTT_CS_CONNECTED);
                          w \<leftarrow> stop_network_thread h w;
                          w \<leftarrow> mosquitto_destroy h w;
                          let c = c\<lparr>mc_mosq := None, mc_conn_state := MQTT_CS_DISCONNECTED, mc_last_disconnect_rc := 0\<rparr>;
                          if was_active then client_log CONN_LOG_INFO ''Disconnected'' (c, w) else Some (c, w)
                        });
        let (t, w) = ssh_tunnel_stop (mc_ssh_tunnel c) w;
        Some (c\<lparr>mc_ssh_tunnel := t\<rparr>, w)
      })"

definition mqtt_client_poll_ssh_tunnel :: "cstate \<Rightarrow> cstate option" where
  "mqtt_client_poll_ssh_tunnel s =
     (let (c, w) = s in
      if st_pid (mc_ssh_tunnel c) \<le> 0 then Some s
      else
        let (alive, t, w) = ssh_tunnel_poll_alive (mc_ssh_tunnel c) w; c = c\<lparr>mc_ssh_tunnel := t\<rparr> in
        if alive then Some (c, w)
        else
          do {
            w \<leftarrow> stop_and_destroy (mc_mosq c) w;
            client_log CONN_LOG_ERROR
              (''SSH tunnel closed unexpectedly - disconnected (reconnect from the profile to '' @ ''re-establish the tunnel)'')
              (c\<lparr>mc_mosq := None, mc_conn_state := MQTT_CS_DISCONNECTED, mc_last_disconnect_rc := 0\<rparr>, w)
          })"

definition mqtt_client_is_connected :: "mqtt_client \<Rightarrow> bool" where
  "mqtt_client_is_connected c \<longleftrightarrow> mc_conn_state c = MQTT_CS_CONNECTED"

definition mqtt_client_is_connecting :: "mqtt_client \<Rightarrow> bool" where
  "mqtt_client_is_connecting c \<longleftrightarrow> mc_conn_state c = MQTT_CS_CONNECTING"

definition mqtt_client_last_disconnect_rc :: "mqtt_client \<Rightarrow> int" where
  "mqtt_client_last_disconnect_rc c = mc_last_disconnect_rc c"

subsection \<open>Subscriptions and messages\<close>

definition store_sub :: "string \<Rightarrow> u8 \<Rightarrow> mqtt_client \<Rightarrow> mqtt_client" where
  "store_sub topic qos c =
     (let n = mc_sub_count c in
      if n < MQTT_CLIENT_MAX_SUBS then
        c\<lparr>mc_sub_topics := (mc_sub_topics c)[n := util_str_copy (mc_sub_topics c ! n) 256 (Some topic)],
          mc_sub_qos := (mc_sub_qos c)[n := qos], mc_sub_count := n + 1\<rparr>
      else c)"

definition mqtt_client_subscribe :: "(int \<Rightarrow> string) \<Rightarrow> string \<Rightarrow> u8 \<Rightarrow> cstate \<Rightarrow> (bool \<times> cstate) option" where
  "mqtt_client_subscribe mosq_strerror topic qos s =
     (let (c, w) = s in
      case mc_mosq c of
        None \<Rightarrow> Some (False, c, w)
      | Some h \<Rightarrow>
          (let c = store_sub topic qos c in
           if mc_conn_state c = MQTT_CS_CONNECTED then
             do {
               (rc, s) \<leftarrow> send_subscribe h topic qos (c, w);
               s \<leftarrow> (if rc \<noteq> 0 then
                       client_log CONN_LOG_ERROR
                         (snprintf 512 (''Subscribe to '' @ quoted_name topic @ '' failed: '' @ mosq_strerror rc)) s
                     else Some s);
               Some (True, s)
             }
           else Some (True, c, w)))"

text \<open>The last stored filter takes the place of the one removed.\<close>

fun index_of_topic :: "string \<Rightarrow> nat \<Rightarrow> string list \<Rightarrow> nat option" where
  "index_of_topic topic i [] = None"
| "index_of_topic topic i (t # ts) = (if t = topic then Some i else index_of_topic topic (i + 1) ts)"

definition remove_sub :: "string \<Rightarrow> mqtt_client \<Rightarrow> mqtt_client" where
  "remove_sub topic c =
     (case index_of_topic topic 0 (take (mc_sub_count c) (mc_sub_topics c)) of
        None \<Rightarrow> c
      | Some i \<Rightarrow>
          (let last_sub = mc_sub_count c - 1;
               c = (if i \<noteq> last_sub then
                      c\<lparr>mc_sub_topics := (mc_sub_topics c)[i := mc_sub_topics c ! last_sub],
                        mc_sub_qos := (mc_sub_qos c)[i := mc_sub_qos c ! last_sub]\<rparr>
                    else c)
           in c\<lparr>mc_sub_count := mc_sub_count c - 1\<rparr>))"

definition mqtt_client_unsubscribe :: "string \<Rightarrow> cstate \<Rightarrow> (bool \<times> cstate) option" where
  "mqtt_client_unsubscribe topic s =
     (let (c, w) = s in
      case mc_mosq c of
        None \<Rightarrow> Some (False, c, w)
      | Some h \<Rightarrow>
          do {
            (rc, w) \<leftarrow> mosq_call h (Unsubscribe topic) w;
            let ok = (rc = 0);
            Some (ok, if ok then remove_sub topic c else c, w)
          })"

definition mqtt_client_publish :: "string \<Rightarrow> bytes option \<Rightarrow> u32 \<Rightarrow> u8 \<Rightarrow> bool \<Rightarrow> cstate \<Rightarrow> (bool \<times> cstate) option" where
  "mqtt_client_publish topic payload payload_len qos retain s =
     (let (c, w) = s in
      case mc_mosq c of
        None \<Rightarrow> Some (False, c, w)
      | Some h \<Rightarrow> do { (rc, w) \<leftarrow> mosq_call h (Publish topic payload payload_len qos retain) w; Some (rc = 0, c, w) })"

end
