(* ===== verification/Mqtt_Inv.thy ===== *)
theory Mqtt_Inv
  imports Mqtt_Client
begin

text \<open>
  The client never uses an instance it has destroyed, never has more than one, and keeps its tables
  in bounds, over every sequence of operations and callbacks.
\<close>

subsection \<open>Steps that cannot fail\<close>

definition succeeds :: "'a option \<Rightarrow> ('a \<Rightarrow> bool) \<Rightarrow> bool" where
  "succeeds m Q \<longleftrightarrow> (case m of None \<Rightarrow> False | Some x \<Rightarrow> Q x)"

lemma succeeds_Some [simp]: "succeeds (Some x) Q = Q x"
  by (simp add: succeeds_def)

lemma succeeds_bind: "succeeds m P \<Longrightarrow> (\<And>x. P x \<Longrightarrow> succeeds (f x) Q) \<Longrightarrow> succeeds (m \<bind> f) Q"
  by (cases m) (simp_all add: succeeds_def)

lemma succeeds_mono: "succeeds m P \<Longrightarrow> (\<And>x. P x \<Longrightarrow> Q x) \<Longrightarrow> succeeds m Q"
  by (auto simp: succeeds_def split: option.splits)

lemma succeeds_ex: "succeeds m Q \<longleftrightarrow> (\<exists>x. m = Some x \<and> Q x)"
  by (cases m) (simp_all add: succeeds_def)

subsection \<open>The invariant\<close>

definition tables_ok :: "mqtt_client \<Rightarrow> bool" where
  "tables_ok c \<longleftrightarrow> cl_wf (mc_log c) \<and> sq_wf (mc_msg_queue c)
     \<and> length (mc_sub_topics c) = 32 \<and> length (mc_sub_qos c) = 32 \<and> length (mc_pending_subs c) = 32 \<and> mc_sub_count c \<le> 32
     \<and> (\<forall>t\<in>set (mc_sub_topics c). length t < 256) \<and> (\<forall>(_, t)\<in>set (mc_pending_subs c). length t < 256)"

definition lib_ok :: "nat option \<Rightarrow> net \<Rightarrow> bool" where
  "lib_ok m w \<longleftrightarrow> nt_live w = (case m of None \<Rightarrow> [] | Some h \<Rightarrow> [h]) \<and> set (nt_threads w) \<subseteq> set (nt_live w)
     \<and> (\<forall>h\<in>set (nt_live w). h < nt_next w)"

definition tunnel_ok :: "ssh_tunnel \<Rightarrow> net \<Rightarrow> bool" where
  "tunnel_ok t w \<longleftrightarrow> os_children w = (if st_pid t > 0 then [st_pid t] else []) \<and> 0 < os_next_pid w"

definition client_inv :: "cstate \<Rightarrow> bool" where
  "client_inv s \<longleftrightarrow> (case s of (c, w) \<Rightarrow> tables_ok c \<and> lib_ok (mc_mosq c) w \<and> tunnel_ok (mc_ssh_tunnel c) w
     \<and> (mc_conn_state c = MQTT_CS_CONNECTED \<longrightarrow> mc_mosq c \<noteq> None))"

text \<open>What holds in the middle of an operation, for the instance \<open>m\<close> and the tunnel \<open>t\<close>.\<close>

definition mid_inv :: "nat option \<Rightarrow> ssh_tunnel \<Rightarrow> mqtt_client \<Rightarrow> cstate \<Rightarrow> bool" where
  "mid_inv m t c0 s \<longleftrightarrow> (case s of (c, w) \<Rightarrow> tables_ok c \<and> lib_ok m w \<and> tunnel_ok t w
     \<and> mc_mosq c = mc_mosq c0 \<and> mc_conn_state c = mc_conn_state c0 \<and> mc_ssh_tunnel c = mc_ssh_tunnel c0)"

lemma client_inv_mid: "client_inv (c, w) \<Longrightarrow> mid_inv (mc_mosq c) (mc_ssh_tunnel c) c (c, w)"
  by (simp add: client_inv_def mid_inv_def)

lemma mid_client: "mid_inv (mc_mosq c) (mc_ssh_tunnel c) c s \<Longrightarrow> (mc_conn_state c = MQTT_CS_CONNECTED \<longrightarrow> mc_mosq c \<noteq> None) \<Longrightarrow> client_inv s"
  by (auto simp: client_inv_def mid_inv_def)

lemma more_net: "os.more w' = os.more (w :: net) \<Longrightarrow>
    nt_live w' = nt_live w \<and> nt_threads w' = nt_threads w \<and> nt_next w' = nt_next w \<and> nt_calls w' = nt_calls w"
  by (cases w; cases w') simp

lemma held_net: "held w' = held (w :: net) \<Longrightarrow> lib_ok m w' = lib_ok m w \<and> tunnel_ok t w' = tunnel_ok t w
    \<and> nt_calls w' = nt_calls w \<and> nt_threads w' = nt_threads w"
  using more_net [of w' w] by (simp add: held_def lib_ok_def tunnel_ok_def)

lemma mid_held: "held w' = held w \<Longrightarrow> mid_inv m t c0 (c, w') = mid_inv m t c0 (c, w)"
  using held_net [of w' w] by (simp add: mid_inv_def)

lemma mid_sys: "sys w = (r, w') \<Longrightarrow> mid_inv m t c0 (c, w') = mid_inv m t c0 (c, w)"
  using sys_held mid_held by metis

lemma client_log_mid: "mid_inv m t c0 s \<Longrightarrow> succeeds (client_log level message s) (\<lambda>s'. mid_inv m t c0 s' \<and> stored_subs (fst s') = stored_subs (fst s)
    \<and> nt_calls (snd s') = nt_calls (snd s) \<and> nt_threads (snd s') = nt_threads (snd s))"
proof -
  obtain c w where s: "s = (c, w)" by force
  assume a: "mid_inv m t c0 s"
  then have "cl_wf (mc_log c)" by (simp add: s mid_inv_def tables_ok_def)
  then obtain w' log' where l: "log_event level message (w, mc_log c) = Some (w', log')" "cl_wf log'" "held w' = held w"
    using log_event_ok by metis
  have "mid_inv m t c0 (c\<lparr>mc_log := log'\<rparr>, w')"
    using a [unfolded s, folded mid_held [OF l(3), of m t c0 c]] l(2) by (simp add: mid_inv_def tables_ok_def)
  then show ?thesis using l(1) held_net [OF l(3)] by (simp add: s client_log_def stored_subs_def)
qed

lemma client_log_ok: "mid_inv m t c0 s \<Longrightarrow> succeeds (client_log level message s) (mid_inv m t c0)"
  using client_log_mid by (rule succeeds_mono) auto

lemma mosq_call_mid:
  "mid_inv (Some h) t c0 (c, w) \<Longrightarrow> succeeds (mosq_call h call w) (\<lambda>(rc, w'). mid_inv (Some h) t c0 (c, w') \<and> nt_calls w' = nt_calls w @ [(h, call)]
     \<and> nt_threads w' = nt_threads w)"
proof -
  assume a: "mid_inv (Some h) t c0 (c, w)"
  let ?w = "w\<lparr>nt_calls := nt_calls w @ [(h, call)]\<rparr>"
  obtain r w' where r: "sys ?w = (r, w')" by force
  have "mid_inv (Some h) t c0 (c, ?w)" using a by (auto simp: mid_inv_def lib_ok_def tunnel_ok_def)
  then have "mid_inv (Some h) t c0 (c, w')" using mid_sys [OF r] by blast
  moreover have "nt_calls w' = nt_calls w @ [(h, call)] \<and> nt_threads w' = nt_threads w"
    using held_net [of w' ?w] sys_held [OF r] by simp
  moreover have "mosq_call h call w = Some (r, w')" using a r by (simp add: mosq_call_def mid_inv_def lib_ok_def)
  ultimately show ?thesis by simp
qed

lemma mosq_do_mid: "mid_inv (Some h) t c0 s \<Longrightarrow> succeeds (mosq_do h call s) (mid_inv (Some h) t c0)"
proof -
  obtain c w where s: "s = (c, w)" by force
  assume "mid_inv (Some h) t c0 s"
  then show ?thesis unfolding s mosq_do_def Let_def prod.case
    by (intro succeeds_bind [OF mosq_call_mid]) auto
qed

lemma stop_mid:
  "mid_inv m t c0 (c, w) \<Longrightarrow> succeeds (stop_and_destroy m w) (\<lambda>w'. mid_inv None t c0 (c, w'))"
proof (cases m)
  case (Some h)
  assume a: "mid_inv m t c0 (c, w)"
  obtain r w1 where r: "sys w = (r, w1)" by force
  obtain q w2 where q: "sys w1 = (q, w2)" by force
  have "mid_inv m t c0 (c, w2)" using a mid_sys [OF r] mid_sys [OF q] by simp
  then show ?thesis
    using a by (auto simp: Some stop_and_destroy_def stop_network_thread_def mosquitto_destroy_def r q mid_inv_def lib_ok_def tunnel_ok_def) 
qed (simp add: stop_and_destroy_def)

lemma tunnel_stop_mid:
  assumes "mid_inv m t c0 (c, w)" "ssh_tunnel_stop t w = (t', w')"
  shows "mid_inv m zero_tunnel c0 (c, w')"
  using assms by (auto simp: ssh_tunnel_stop_def kill_and_wait_def reap_def mid_inv_def lib_ok_def tunnel_ok_def zero_tunnel_def split: if_splits)


subsection \<open>Callbacks\<close>

lemma send_subscribe_mid:
  "mid_inv (Some h) t c0 s \<Longrightarrow> succeeds (send_subscribe h topic qos s) (\<lambda>(rc, s'). mid_inv (Some h) t c0 s'
     \<and> stored_subs (fst s') = stored_subs (fst s) \<and> nt_calls (snd s') = nt_calls (snd s) @ [(h, Subscribe topic qos)]
     \<and> nt_threads (snd s') = nt_threads (snd s))"
proof -
  obtain c w where s: "s = (c, w)" by force
  assume a: "mid_inv (Some h) t c0 s"
  show ?thesis
    unfolding s send_subscribe_def Let_def prod.case
  proof (rule succeeds_bind [OF mosq_call_mid [OF a [unfolded s]]])
    fix x :: "int \<times> net"
    obtain rc w1 where x: "x = (rc, w1)" by force
    obtain mid w2 where m: "sys w1 = (mid, w2)" by force
    assume p: "case x of (rc, w') \<Rightarrow> mid_inv (Some h) t c0 (c, w') \<and> nt_calls w' = nt_calls w @ [(h, Subscribe topic qos)]
        \<and> nt_threads w' = nt_threads w"
    then have w2: "mid_inv (Some h) t c0 (c, w2)" "nt_calls w2 = nt_calls w @ [(h, Subscribe topic qos)]" "nt_threads w2 = nt_threads w"
      using mid_sys [OF m] held_net [of w2 w1] sys_held [OF m] by (simp_all add: x)
    let ?slot = "unat (mc_pending_next c) mod 32"
    have "length (util_str_copy d 256 (Some topic)) < 256" for d by (rule length_util_str_copy) simp
    then have "\<forall>(_, t)\<in>set ((mc_pending_subs c)[?slot := (mid, util_str_copy d 256 (Some topic))]). length t < 256" for d
      using w2(1) set_update_subset_insert [of "mc_pending_subs c" ?slot] by (fastforce simp: mid_inv_def tables_ok_def)
    then show "succeeds (case x of (rc, w) \<Rightarrow> case sys w of (mid, w) \<Rightarrow>
         if rc = 0
         then Some (rc, c\<lparr>mc_pending_next := mc_pending_next c + 1,
                mc_pending_subs := (mc_pending_subs c)[unat (mc_pending_next c) mod MQTT_CLIENT_MAX_SUBS :=
                  (mid, util_str_copy (snd (mc_pending_subs c ! (unat (mc_pending_next c) mod MQTT_CLIENT_MAX_SUBS))) 256 (Some topic))]\<rparr>, w)
         else Some (rc, c, w))
       (\<lambda>(rc, s'). mid_inv (Some h) t c0 s' \<and> stored_subs (fst s') = stored_subs (fst (c, w))
          \<and> nt_calls (snd s') = nt_calls (snd (c, w)) @ [(h, Subscribe topic qos)] \<and> nt_threads (snd s') = nt_threads (snd (c, w)))"
      using w2 by (auto simp: x m mid_inv_def tables_ok_def stored_subs_def)
  qed
qed

lemma resubscribe_mid:
  "mid_inv (Some h) t c0 s \<Longrightarrow> succeeds (resubscribe_loop h subs s) (\<lambda>s'. mid_inv (Some h) t c0 s'
     \<and> stored_subs (fst s') = stored_subs (fst s) \<and> nt_calls (snd s') = nt_calls (snd s) @ map (\<lambda>(t, q). (h, Subscribe t q)) subs
     \<and> nt_threads (snd s') = nt_threads (snd s))"
proof (induction subs arbitrary: s)
  case (Cons sub subs)
  obtain topic qos where sub: "sub = (topic, qos)" by force
  show ?case
    unfolding sub resubscribe_loop.simps
  proof (rule succeeds_bind [OF send_subscribe_mid [OF Cons.prems]])
    fix x :: "int \<times> cstate"
    obtain rc s1 where x: "x = (rc, s1)" by (cases x)
    assume p: "case x of (rc, s') \<Rightarrow> mid_inv (Some h) t c0 s' \<and> stored_subs (fst s') = stored_subs (fst s)
        \<and> nt_calls (snd s') = nt_calls (snd s) @ [(h, Subscribe topic qos)] \<and> nt_threads (snd s') = nt_threads (snd s)"
    then have "mid_inv (Some h) t c0 s1" by (simp add: x)
    from Cons.IH [OF this] p
    show "succeeds (case x of (_, s) \<Rightarrow> resubscribe_loop h subs s) (\<lambda>s'. mid_inv (Some h) t c0 s'
        \<and> stored_subs (fst s') = stored_subs (fst s)
        \<and> nt_calls (snd s') = nt_calls (snd s) @ map (\<lambda>(t, q). (h, Subscribe t q)) ((topic, qos) # subs)
        \<and> nt_threads (snd s') = nt_threads (snd s))"
      by (auto simp: x succeeds_ex)
  qed
qed simp

lemma note_dropped_mid: "mid_inv m t c0 s \<Longrightarrow> succeeds (note_dropped why s) (mid_inv m t c0)"
proof -
  obtain c w where s: "s = (c, w)" by force
  obtain now w1 where n: "sys w = (now, w1)" by force
  assume "mid_inv m t c0 s"
  then have "mid_inv m t c0 (c, w1)" using mid_sys [OF n] by (simp only: s)
  then have m: "mid_inv m t c0 (c\<lparr>mc_dropped_count := mc_dropped_count c + 1\<rparr>, w1)"
    by (simp add: mid_inv_def tables_ok_def)
  then have "mid_inv m t c0 (c\<lparr>mc_dropped_count := mc_dropped_count c + 1, mc_last_drop_log_us := word_of_int now\<rparr>, w1)"
    by (simp add: mid_inv_def tables_ok_def)
  from client_log_ok [OF this] m show ?thesis by (simp add: note_dropped_def s n Let_def)
qed

lemma on_message_mid: "mid_inv m t c0 s \<Longrightarrow> succeeds (on_message topic payload qos retain s) (mid_inv m t c0)"
proof -
  obtain c w where s: "s = (c, w)" by force
  obtain now w1 where n: "sys w = (now, w1)" by force
  obtain refused w2 where r: "(if length payload > 0 then sys w1 else (0, w1)) = (refused, w2)" by force
  assume a: "mid_inv m t c0 s"
  then have w2: "mid_inv m t c0 (c, w2)" using mid_sys [OF n] r by (auto simp: s mid_sys split: if_splits)
  then have q: "sq_wf (mc_msg_queue c)" by (simp add: mid_inv_def tables_ok_def)
  have pushed: "succeeds (spsc_queue_push msg (mc_msg_queue c)) (\<lambda>(_, q). sq_wf q)" for msg
    using push_fifo [OF q, of msg] by (auto simp: succeeds_ex)
  have "succeeds (spsc_queue_push msg (mc_msg_queue c) \<bind>
      (\<lambda>(pushed, q). if pushed then Some (c\<lparr>mc_msg_queue := q\<rparr>, w2) else note_dropped ''queue full'' (c, w2))) (mid_inv m t c0)" for msg
    by (rule succeeds_bind [OF pushed]) (use w2 note_dropped_mid [OF w2] in \<open>auto simp: mid_inv_def tables_ok_def\<close>)
  then show ?thesis using note_dropped_mid [OF w2] by (simp add: on_message_def s n r Let_def del: length_greater_0_conv)
qed

lemma suback_mid: "mid_inv m t c0 s \<Longrightarrow> succeeds (suback_loop topic gs s) (mid_inv m t c0)"
proof (induction gs arbitrary: s)
  case (Cons g gs)
  obtain level line where l: "suback_line topic g = (level, line)" by force
  show ?case
    unfolding suback_loop.simps l Let_def prod.case
    by (rule succeeds_bind [OF client_log_ok [OF Cons.prems] Cons.IH])
qed simp

lemma on_subscribe_mid: "mid_inv m t c0 s \<Longrightarrow> succeeds (on_subscribe mid granted s) (mid_inv m t c0)"
proof -
  obtain c w where s: "s = (c, w)" by force
  assume a: "mid_inv m t c0 s"
  have "mid_inv m t c0 (c\<lparr>mc_pending_subs := (mc_pending_subs c)[i := (fst (mc_pending_subs c ! i), [])]\<rparr>, w)" for i
    using a set_update_subset_insert [of "mc_pending_subs c" i] by (fastforce simp: s mid_inv_def tables_ok_def)
  then show ?thesis using a suback_mid by (auto simp: on_subscribe_def s Let_def split: option.split)
qed


subsection \<open>Operations of the main thread\<close>

lemma succeeds_if: "(b \<Longrightarrow> succeeds x Q) \<Longrightarrow> (\<not> b \<Longrightarrow> succeeds y Q) \<Longrightarrow> succeeds (if b then x else y) Q"
  by simp

lemma succeeds_option:
  "(v = None \<Longrightarrow> succeeds a Q) \<Longrightarrow> (\<And>x. v = Some x \<Longrightarrow> succeeds (f x) Q) \<Longrightarrow> succeeds (case v of None \<Rightarrow> a | Some x \<Rightarrow> f x) Q"
  by (cases v) simp_all

lemma find_ca_mid: "find_ca ps w = (r, w') \<Longrightarrow> mid_inv m t c0 (c, w') = mid_inv m t c0 (c, w)"
  by (induction ps arbitrary: w) (auto simp: mid_sys split: prod.splits if_splits)

lemma setup_tls_mid: "mid_inv (Some h) t c0 s \<Longrightarrow> succeeds (setup_tls err h opts s) (mid_inv (Some h) t c0)"
proof -
  obtain c w where s: "s = (c, w)" by force
  assume a: "mid_inv (Some h) t c0 s"
  show ?thesis
  proof (cases "co_tls_version opts = 0")
    case False
    define gca where "gca = given (co_tls_ca_cert opts)"
    obtain ca w1 where ca: "(if gca = None then find_ca sys_ca_paths w else (gca, w)) = (ca, w1)" by force
    have w1: "mid_inv (Some h) t c0 (c, w1)" using a ca find_ca_mid by (auto simp: s split: if_splits)
    show ?thesis
      unfolding setup_tls_def s Let_def prod.case gca_def [symmetric] ca if_not_P [OF False]
    proof (rule succeeds_bind)
      show "succeeds (case gca of None \<Rightarrow> (case ca of None \<Rightarrow> Some (c, w1)
            | Some path \<Rightarrow> client_log CONN_LOG_INFO (snprintf 320 (''TLS: no CA cert specified, using '' @ path)) (c, w1))
          | Some x \<Rightarrow> Some (c, w1)) (mid_inv (Some h) t c0)"
        using w1 client_log_ok [OF w1] by (auto split: option.split)
    next
      fix x assume x: "mid_inv (Some h) t c0 x"
      obtain c1 w2 where x2: "x = (c1, w2)" by force
      show "succeeds (case x of (c, w) \<Rightarrow> mosq_call h (Tls_Set ca (given (co_tls_client_cert opts)) (given (co_tls_client_key opts))) w \<bind>
           (\<lambda>(rc, w). (if rc \<noteq> 0 then client_log CONN_LOG_WARN (snprintf 256 (''TLS setup failed: '' @ err rc)) (c, w) else Some (c, w)) \<bind>
             (\<lambda>s. mosq_do h (Tls_Opts (co_tls_verify opts) (if co_tls_version opts = 12 then Some ''tlsv1.2''
                    else if co_tls_version opts = 13 then Some ''tlsv1.3'' else None)) s \<bind>
               (\<lambda>s. if \<not> co_tls_verify opts then mosq_do h Tls_Insecure s else Some s)))) (mid_inv (Some h) t c0)"
        unfolding x2 prod.case
      proof (rule succeeds_bind [OF mosq_call_mid [OF x [unfolded x2]]], clarify)
        fix rc w3 assume "mid_inv (Some h) t c0 (c1, w3)"
        then have "succeeds (if rc \<noteq> 0 then client_log CONN_LOG_WARN (snprintf 256 (''TLS setup failed: '' @ err rc)) (c1, w3) else Some (c1, w3))
            (mid_inv (Some h) t c0)"
          using client_log_ok by simp
        then show "succeeds ((if rc \<noteq> 0 then client_log CONN_LOG_WARN (snprintf 256 (''TLS setup failed: '' @ err rc)) (c1, w3) else Some (c1, w3)) \<bind>
             (\<lambda>s. mosq_do h (Tls_Opts (co_tls_verify opts) (if co_tls_version opts = 12 then Some ''tlsv1.2''
                    else if co_tls_version opts = 13 then Some ''tlsv1.3'' else None)) s \<bind>
               (\<lambda>s. if \<not> co_tls_verify opts then mosq_do h Tls_Insecure s else Some s))) (mid_inv (Some h) t c0)"
          by (rule succeeds_bind, intro succeeds_bind [OF mosq_do_mid]) (auto intro: mosq_do_mid)
      qed
    qed
  qed (use a in \<open>simp add: setup_tls_def\<close>)
qed


lemma mid_loop_start:
  assumes "mid_inv (Some h) t c0 (c, w)"
  shows "succeeds (mosquitto_loop_start h w) (\<lambda>(rc, w'). mid_inv (Some h) t c0 (c, w'))"
proof -
  obtain rc w1 where r: "sys w = (rc, w1)" by force
  have "mid_inv (Some h) t c0 (c, w1)" using assms mid_sys [OF r] by simp
  moreover have "h \<in> set (nt_live w)" using assms by (simp add: mid_inv_def lib_ok_def)
  ultimately show ?thesis by (auto simp: mosquitto_loop_start_def r mid_inv_def lib_ok_def tunnel_ok_def)
qed

lemma destroy_mid:
  assumes "mid_inv (Some h) t c0 (c, w)"
  shows "succeeds (mosquitto_destroy h w) (\<lambda>w'. mid_inv None t c0 (c, w'))"
  using assms by (auto simp: mosquitto_destroy_def mid_inv_def lib_ok_def tunnel_ok_def)

text \<open>After dialling, the client owns the instance, or there is none.\<close>

lemma dial_inv:
  assumes "mid_inv (Some h) t c0 s" "mc_mosq c0 = Some h" "mc_ssh_tunnel c0 = t" "mc_conn_state c0 = MQTT_CS_CONNECTING"
  shows "succeeds (dial err ws h opts target s) (\<lambda>(ok, s'). client_inv s')"
proof -
  obtain host port where target: "target = (host, port)" by force
  have done_ok: "client_inv s" if "mid_inv (Some h) t c0 s" for s
    using that assms(2-4) by (auto simp: mid_inv_def client_inv_def)
  have transport: "succeeds (if co_transport opts = 1 then
                (if ws then mosq_do h Transport_Websockets s \<bind> (\<lambda>s. case given (co_ws_path opts) of None \<Rightarrow> Some s | Some p \<Rightarrow> mosq_do h (Http_Path p) s)
                 else client_log CONN_LOG_WARN ''WebSocket transport requires libmosquitto >= 2.1 - using TCP instead'' s)
              else Some s) (mid_inv (Some h) t c0)" if "mid_inv (Some h) t c0 s" for s
    using that by (intro succeeds_if succeeds_bind [OF mosq_do_mid] succeeds_option client_log_ok mosq_do_mid) auto
  have auth: "succeeds (case co_username opts of None \<Rightarrow> Some s | Some u \<Rightarrow> mosq_do h (Username_Pw u (co_password opts)) s) (mid_inv (Some h) t c0)"
    if "mid_inv (Some h) t c0 s" for s
    using that by (intro succeeds_option mosq_do_mid) auto
  have run: "succeeds (mosquitto_loop_start h w \<bind>
        (\<lambda>(rc, w). if rc \<noteq> 0 then client_log CONN_LOG_ERROR ''Failed to start MQTT loop thread'' (c, w) \<bind>
              (\<lambda>(c, w). mosquitto_destroy h w \<bind> (\<lambda>w. Some (False, c\<lparr>mc_mosq := None\<rparr>, w)))
            else Some (True, c, w))) (\<lambda>(ok, s'). client_inv s')" if "mid_inv (Some h) t c0 (c, w)" for c w
  proof (rule succeeds_bind [OF mid_loop_start [OF that]], clarify)
    fix rc w1 assume m: "mid_inv (Some h) t c0 (c, w1)"
    show "succeeds (if rc \<noteq> 0 then client_log CONN_LOG_ERROR ''Failed to start MQTT loop thread'' (c, w1) \<bind>
              (\<lambda>(c, w). mosquitto_destroy h w \<bind> (\<lambda>w. Some (False, c\<lparr>mc_mosq := None\<rparr>, w)))
            else Some (True, c, w1)) (\<lambda>(ok, s'). client_inv s')"
    proof (intro succeeds_if)
      show "succeeds (client_log CONN_LOG_ERROR ''Failed to start MQTT loop thread'' (c, w1) \<bind>
              (\<lambda>(c, w). mosquitto_destroy h w \<bind> (\<lambda>w. Some (False, c\<lparr>mc_mosq := None\<rparr>, w)))) (\<lambda>(ok, s'). client_inv s')"
      proof (rule succeeds_bind [OF client_log_ok [OF m]], clarify)
        fix c2 w2 assume m2: "mid_inv (Some h) t c0 (c2, w2)"
        show "succeeds (mosquitto_destroy h w2 \<bind> (\<lambda>w. Some (False, c2\<lparr>mc_mosq := None\<rparr>, w))) (\<lambda>(ok, s'). client_inv s')"
          by (rule succeeds_bind [OF destroy_mid [OF m2]])
            (use assms(3,4) in \<open>auto simp: mid_inv_def client_inv_def tables_ok_def\<close>)
      qed
    qed (use done_ok [OF m] in simp)
  qed
  show ?thesis
    unfolding dial_def target Let_def prod.case
  proof (rule succeeds_bind [OF mosq_do_mid [OF assms(1)]], rule succeeds_bind [OF mosq_do_mid], assumption,
      rule succeeds_bind [OF transport], assumption, rule succeeds_bind [OF auth], assumption,
      rule succeeds_bind [OF setup_tls_mid], assumption, rule succeeds_bind [OF mosq_do_mid], assumption,
      rule succeeds_bind [OF client_log_ok], assumption, clarify, rule succeeds_bind [OF mosq_call_mid], assumption, clarify)
    fix c1 w1 rc w2 assume m: "mid_inv (Some h) t c0 (c1, w2)"
    show "succeeds (if rc \<noteq> 0 then client_log CONN_LOG_ERROR (snprintf 512 (''Connect failed: '' @ err rc)) (c1, w2) \<bind> (\<lambda>s. Some (False, s))
          else mosquitto_loop_start h w2 \<bind>
            (\<lambda>(rc, w). if rc \<noteq> 0 then client_log CONN_LOG_ERROR ''Failed to start MQTT loop thread'' (c1, w) \<bind>
                  (\<lambda>(c, w). mosquitto_destroy h w \<bind> (\<lambda>w. Some (False, c\<lparr>mc_mosq := None\<rparr>, w)))
                else Some (True, c1, w))) (\<lambda>(ok, s'). client_inv s')"
      by (intro succeeds_if run [OF m] succeeds_bind [OF client_log_ok [OF m]]) (simp add: done_ok)
  qed
qed

lemma effective_id_held: "effective_id opts w = (i, w') \<Longrightarrow> held w' = held w"
  by (auto simp: effective_id_def dest: sys_held split: if_splits prod.splits)

text \<open>A new instance for a client without one.\<close>

lemma fresh_inv:
  assumes "tables_ok c" "lib_ok None w" "tunnel_ok (mc_ssh_tunnel c) w"
  defines "c1 \<equiv> c\<lparr>mc_conn_state := MQTT_CS_CONNECTING, mc_last_disconnect_rc := 0, mc_sub_count := 0\<rparr>"
  shows "succeeds
     (let (client_id, w) = effective_id opts w; (h, w) = mosquitto_new client_id (co_clean_session opts) w; c = c1\<lparr>mc_mosq := h\<rparr> in
      (case h of
         None \<Rightarrow> (let (e, w) = sys w in client_log CONN_LOG_ERROR (msg e) (c, w) \<bind> (\<lambda>s. Some (False, s)))
       | Some i \<Rightarrow> dial err ws i opts target (c, w))) (\<lambda>(ok, s'). client_inv s')"
proof -
  obtain client_id w1 where e: "effective_id opts w = (client_id, w1)" by force
  obtain refused w2 where n: "sys w1 = (refused, w2)" by force
  have h: "held w2 = held w" using effective_id_held [OF e] sys_held [OF n] by simp
  have ok2: "lib_ok None w2" "tunnel_ok (mc_ssh_tunnel c) w2" using assms(2,3) held_net [OF h] by simp_all
  show ?thesis
  proof (cases "refused = 0")
    case True
    let ?i = "nt_next w2"
    let ?w = "w2\<lparr>nt_next := ?i + 1, nt_live := ?i # nt_live w2, nt_calls := nt_calls w2 @ [(?i, Create client_id (co_clean_session opts))]\<rparr>"
    let ?c = "c1\<lparr>mc_mosq := Some ?i\<rparr>"
    have "mid_inv (Some ?i) (mc_ssh_tunnel c) ?c (?c, ?w)"
      using assms(1) ok2 by (auto simp: mid_inv_def c1_def tables_ok_def lib_ok_def tunnel_ok_def)
    then have "succeeds (dial err ws ?i opts target (?c, ?w)) (\<lambda>(ok, s'). client_inv s')"
      by (rule dial_inv) (simp_all add: c1_def)
    then show ?thesis by (simp add: e n mosquitto_new_def True Let_def)
  next
    case False
    obtain er w3 where n3: "sys w2 = (er, w3)" by force
    let ?c = "c1\<lparr>mc_mosq := None\<rparr>"
    have "mid_inv None (mc_ssh_tunnel c) ?c (?c, w2)"
      using assms(1) ok2 by (simp add: mid_inv_def c1_def tables_ok_def)
    then have m: "mid_inv None (mc_ssh_tunnel c) ?c (?c, w3)" using mid_sys [OF n3] by simp
    have fin: "client_inv s" if "mid_inv None (mc_ssh_tunnel c) ?c s" for s
      using that by (auto simp: mid_inv_def client_inv_def c1_def)
    have "succeeds (client_log CONN_LOG_ERROR (msg er) (?c, w3) \<bind> (\<lambda>s. Some (False, s))) (\<lambda>(ok, s'). client_inv s')"
      by (rule succeeds_bind [OF client_log_ok [OF m]]) (simp add: fin)
    then show ?thesis by (simp add: e n n3 mosquitto_new_def False Let_def)
  qed
qed

lemma connect_inv:
  assumes "client_inv (c, w)" "co_ssh_tunnel_enabled opts \<longrightarrow> mc_mosq c = None"
  shows "succeeds (mqtt_client_connect err strerr ws opts (c, w)) (\<lambda>(ok, s'). client_inv s')"
proof -
  have conn: "mc_conn_state c = MQTT_CS_CONNECTED \<longrightarrow> mc_mosq c \<noteq> None" using assms(1) by (simp add: client_inv_def)
  show ?thesis
    unfolding mqtt_client_connect_def Let_def prod.case
  proof (rule succeeds_bind [OF stop_mid [OF client_inv_mid [OF assms(1)]]])
    fix w1 assume m1: "mid_inv None (mc_ssh_tunnel c) c (c, w1)"
    obtain t2 w2 where t2: "ssh_tunnel_stop (mc_ssh_tunnel c) w1 = (t2, w2)" by force
    have z: "t2 = zero_tunnel" using t2 by (simp add: ssh_tunnel_stop_def)
    have m2: "mid_inv None zero_tunnel c (c, w2)" by (rule tunnel_stop_mid [OF m1 t2])
    let ?c1 = "c\<lparr>mc_ssh_tunnel := t2\<rparr>"
    have wf: "cl_wf (mc_log ?c1)" using m2 by (simp add: mid_inv_def tables_ok_def)
    define r where "r = (if co_ssh_tunnel_enabled opts then ssh_tunnel_start strerr (tunnel_opts opts) (w2, mc_log ?c1)
        else Some (True, t2, w2, mc_log ?c1))"
    have st: "succeeds r (\<lambda>(ok, t, w, log). cl_wf log \<and> lib_ok None w \<and> tunnel_ok t w \<and> (\<not> ok \<longrightarrow> co_ssh_tunnel_enabled opts))"
    proof (cases "co_ssh_tunnel_enabled opts")
      case True
      then have "started w2 r" using ssh_started [OF wf, of w2 strerr "tunnel_opts opts"] by (simp add: r_def)
      then obtain ok t w log where r: "r = Some (ok, t, w, log)" "cl_wf log" "os.more w = os.more w2" "os_next_pid w2 \<le> os_next_pid w"
          "if ok then st_pid t = os_next_pid w2 \<and> os_children w = st_pid t # os_children w2 else t = zero_tunnel \<and> os_children w = os_children w2"
        by (auto simp: started_def split: option.splits)
      have c2: "lib_ok None w2" "os_children w2 = []" "0 < os_next_pid w2" using m2 by (simp_all add: mid_inv_def tunnel_ok_def zero_tunnel_def)
      have "lib_ok None w" using c2(1) more_net [OF r(3)] by (auto simp: lib_ok_def)
      moreover have "tunnel_ok t w" using c2(2,3) r(4,5) by (auto simp: tunnel_ok_def zero_tunnel_def split: if_splits)
      ultimately show ?thesis using r(1,2) True by simp
    next
      case False
      then show ?thesis using m2 wf by (simp add: r_def z mid_inv_def)
    qed
    show "succeeds (case ssh_tunnel_stop (mc_ssh_tunnel c) w1 of (t, w) \<Rightarrow>
         (if co_ssh_tunnel_enabled opts then ssh_tunnel_start strerr (tunnel_opts opts) (w, mc_log (c\<lparr>mc_ssh_tunnel := t\<rparr>))
          else Some (True, t, w, mc_log (c\<lparr>mc_ssh_tunnel := t\<rparr>))) \<bind>
         (\<lambda>(ok, ta, w, log).
             if \<not> ok then Some (False, c\<lparr>mc_ssh_tunnel := t, mc_ssh_tunnel := ta, mc_log := log\<rparr>, w)
             else case effective_id opts w of (client_id, w) \<Rightarrow>
               (case mosquitto_new client_id (co_clean_session opts) w of (h, w) \<Rightarrow>
                 (case h of
                    None \<Rightarrow> (case sys w of (er, w) \<Rightarrow>
                       client_log CONN_LOG_ERROR
                          (snprintf 256 (''Failed to create MQTT client (errno '' @ dec_int er @ '': '' @ strerr er @ '')''))
                          (c\<lparr>mc_ssh_tunnel := t, mc_ssh_tunnel := ta, mc_log := log, mc_conn_state := MQTT_CS_CONNECTING,
                             mc_last_disconnect_rc := 0, mc_sub_count := 0, mc_mosq := h\<rparr>, w) \<bind> (\<lambda>s. Some (False, s)))
                  | Some i \<Rightarrow> dial err ws i opts (if co_ssh_tunnel_enabled opts then (''127.0.0.1'', st_local_port ta) else (co_host opts, co_port opts))
                       (c\<lparr>mc_ssh_tunnel := t, mc_ssh_tunnel := ta, mc_log := log, mc_conn_state := MQTT_CS_CONNECTING,
                             mc_last_disconnect_rc := 0, mc_sub_count := 0, mc_mosq := h\<rparr>, w)))))
       (\<lambda>(ok, s'). client_inv s')"
      unfolding t2 prod.case r_def [symmetric]
    proof (rule succeeds_bind [OF st], clarify)
      fix ok t w3 log
      assume a: "cl_wf log" "lib_ok None w3" "tunnel_ok t w3" "\<not> ok \<longrightarrow> co_ssh_tunnel_enabled opts"
      let ?c2 = "c\<lparr>mc_ssh_tunnel := t2, mc_ssh_tunnel := t, mc_log := log\<rparr>"
      have tab: "tables_ok ?c2" using m2 a(1) by (simp add: mid_inv_def tables_ok_def)
      have failed: "client_inv (?c2, w3)" if "\<not> ok"
        using that a assms(2) conn tab by (simp add: client_inv_def)
      show "succeeds (if \<not> ok then Some (False, c\<lparr>mc_ssh_tunnel := t2, mc_ssh_tunnel := t, mc_log := log\<rparr>, w3)
             else case effective_id opts w3 of (client_id, w) \<Rightarrow>
               (case mosquitto_new client_id (co_clean_session opts) w of (h, w) \<Rightarrow>
                 (case h of
                    None \<Rightarrow> (case sys w of (er, w) \<Rightarrow>
                       client_log CONN_LOG_ERROR
                          (snprintf 256 (''Failed to create MQTT client (errno '' @ dec_int er @ '': '' @ strerr er @ '')''))
                          (c\<lparr>mc_ssh_tunnel := t2, mc_ssh_tunnel := t, mc_log := log, mc_conn_state := MQTT_CS_CONNECTING,
                             mc_last_disconnect_rc := 0, mc_sub_count := 0, mc_mosq := h\<rparr>, w) \<bind> (\<lambda>s. Some (False, s)))
                  | Some i \<Rightarrow> dial err ws i opts (if co_ssh_tunnel_enabled opts then (''127.0.0.1'', st_local_port t) else (co_host opts, co_port opts))
                       (c\<lparr>mc_ssh_tunnel := t2, mc_ssh_tunnel := t, mc_log := log, mc_conn_state := MQTT_CS_CONNECTING,
                             mc_last_disconnect_rc := 0, mc_sub_count := 0, mc_mosq := h\<rparr>, w))))
         (\<lambda>(ok, s'). client_inv s')"
      proof (rule succeeds_if)
        have t: "tunnel_ok (mc_ssh_tunnel ?c2) w3" using a(3) by simp
        show "\<not> \<not> ok \<Longrightarrow> succeeds (case effective_id opts w3 of (client_id, w) \<Rightarrow>
               (case mosquitto_new client_id (co_clean_session opts) w of (h, w) \<Rightarrow>
                 (case h of
                    None \<Rightarrow> (case sys w of (er, w) \<Rightarrow>
                       client_log CONN_LOG_ERROR
                          (snprintf 256 (''Failed to create MQTT client (errno '' @ dec_int er @ '': '' @ strerr er @ '')''))
                          (?c2\<lparr>mc_conn_state := MQTT_CS_CONNECTING,
                             mc_last_disconnect_rc := 0, mc_sub_count := 0, mc_mosq := h\<rparr>, w) \<bind> (\<lambda>s. Some (False, s)))
                  | Some i \<Rightarrow> dial err ws i opts (if co_ssh_tunnel_enabled opts then (''127.0.0.1'', st_local_port t) else (co_host opts, co_port opts))
                       (?c2\<lparr>mc_conn_state := MQTT_CS_CONNECTING,
                             mc_last_disconnect_rc := 0, mc_sub_count := 0, mc_mosq := h\<rparr>, w))))
         (\<lambda>(ok, s'). client_inv s')"
          by (rule fresh_inv [OF tab a(2) t, unfolded Let_def])
      qed (use failed in simp)
    qed
  qed
qed


lemma disconnect_inv:
  assumes "client_inv (c, w)"
  shows "succeeds (mqtt_client_disconnect (c, w)) client_inv"
proof -
  let ?t = "mc_ssh_tunnel c"
  have fin: "succeeds (case s of (c, w) \<Rightarrow> case ssh_tunnel_stop (mc_ssh_tunnel c) w of (t, w) \<Rightarrow> Some (c\<lparr>mc_ssh_tunnel := t\<rparr>, w)) client_inv"
    if "mid_inv (mc_mosq c0) (mc_ssh_tunnel c0) c0 s" "mc_conn_state c0 = MQTT_CS_CONNECTED \<longrightarrow> mc_mosq c0 \<noteq> None" for c0 s
  proof -
    obtain c1 w1 where s: "s = (c1, w1)" by force
    obtain t2 w2 where t2: "ssh_tunnel_stop (mc_ssh_tunnel c1) w1 = (t2, w2)" by force
    have "mc_ssh_tunnel c1 = mc_ssh_tunnel c0" using that(1) by (simp add: s mid_inv_def)
    then have "mid_inv (mc_mosq c0) zero_tunnel c0 (c1, w2)" "t2 = zero_tunnel"
      using tunnel_stop_mid [OF that(1) [unfolded s]] t2 by (simp_all add: ssh_tunnel_stop_def)
    then have "client_inv (c1\<lparr>mc_ssh_tunnel := t2\<rparr>, w2)"
      using that(2) by (auto simp: mid_inv_def client_inv_def tables_ok_def)
    then show ?thesis by (simp add: s t2)
  qed
  show ?thesis
  proof (cases "mc_mosq c")
    case None
    have "mc_conn_state c \<noteq> MQTT_CS_CONNECTED" using assms None by (auto simp: client_inv_def)
    then show ?thesis using fin [OF client_inv_mid [OF assms]] None by (simp add: mqtt_client_disconnect_def)
  next
    case (Some h)
    let ?c = "c\<lparr>mc_mosq := None, mc_conn_state := MQTT_CS_DISCONNECTED, mc_last_disconnect_rc := 0\<rparr>"
    have stop: "succeeds (stop_network_thread h w \<bind> mosquitto_destroy h) (\<lambda>w'. mid_inv None ?t c (c, w'))"
      using stop_mid [OF client_inv_mid [OF assms]] by (simp add: Some stop_and_destroy_def)
    have log: "succeeds (if a then client_log CONN_LOG_INFO ''Disconnected'' (?c, w1) else Some (?c, w1)) (mid_inv None ?t ?c)"
      if "mid_inv None ?t c (c, w1)" for a w1
    proof -
      have "mid_inv None ?t ?c (?c, w1)" using that by (simp add: mid_inv_def tables_ok_def)
      then show ?thesis using client_log_ok by simp
    qed
    have eq: "mqtt_client_disconnect (c, w) = (stop_network_thread h w \<bind> mosquitto_destroy h) \<bind>
        (\<lambda>w1. (if mc_conn_state c = MQTT_CS_CONNECTING \<or> mc_conn_state c = MQTT_CS_CONNECTED
                then client_log CONN_LOG_INFO ''Disconnected'' (?c, w1) else Some (?c, w1)) \<bind>
           (\<lambda>(c, w). case ssh_tunnel_stop (mc_ssh_tunnel c) w of (t, w) \<Rightarrow> Some (c\<lparr>mc_ssh_tunnel := t\<rparr>, w)))"
      by (simp add: mqtt_client_disconnect_def Some Let_def Option.bind_assoc)
    show ?thesis
      unfolding eq by (rule succeeds_bind [OF stop], rule succeeds_bind [OF log], assumption) (rule fin [of ?c], simp_all)
  qed
qed

lemma poll_inv:
  assumes "client_inv (c, w)"
  shows "succeeds (mqtt_client_poll_ssh_tunnel (c, w)) client_inv"
proof (cases "st_pid (mc_ssh_tunnel c) \<le> 0")
  case False
  let ?t = "mc_ssh_tunnel c"
  obtain r w1 where r: "sys w = (r, w1)" by force
  note m = client_inv_mid [OF assms]
  have m1: "mid_inv (mc_mosq c) ?t c (c, w1)" using m mid_sys [OF r] by simp
  show ?thesis
  proof (cases "r = 0")
    case True
    then show ?thesis
      using mid_client [OF m1] assms False by (simp add: mqtt_client_poll_ssh_tunnel_def ssh_tunnel_poll_alive_def wait_nohang_def r client_inv_def)
  next
    case dead: False
    let ?w = "reap (st_pid ?t) w1"
    have m2: "mid_inv (mc_mosq c) zero_tunnel c (c, ?w)"
      using m1 False by (auto simp: reap_def mid_inv_def lib_ok_def tunnel_ok_def zero_tunnel_def)
    let ?c = "c\<lparr>mc_ssh_tunnel := zero_tunnel, mc_mosq := None, mc_conn_state := MQTT_CS_DISCONNECTED, mc_last_disconnect_rc := 0\<rparr>"
    have "succeeds (stop_and_destroy (mc_mosq c) ?w \<bind> (\<lambda>w. client_log l msg (?c, w))) client_inv" for l msg
    proof (rule succeeds_bind [OF stop_mid [OF m2]])
      fix w2 assume "mid_inv None zero_tunnel c (c, w2)"
      then have "mid_inv None zero_tunnel ?c (?c, w2)" by (simp add: mid_inv_def tables_ok_def)
      from client_log_ok [OF this] show "succeeds (client_log l msg (?c, w2)) client_inv"
        by (rule succeeds_mono) (auto simp: mid_inv_def client_inv_def)
    qed
    then show ?thesis
      using False dead by (simp add: mqtt_client_poll_ssh_tunnel_def ssh_tunnel_poll_alive_def wait_nohang_def r)
  qed
qed (use assms in \<open>simp add: mqtt_client_poll_ssh_tunnel_def\<close>)

lemma store_sub_ok: "tables_ok c \<Longrightarrow> tables_ok (store_sub topic qos c)"
  using length_util_str_copy [of 256] set_update_subset_insert [of "mc_sub_topics c" "mc_sub_count c"]
  by (fastforce simp: tables_ok_def store_sub_def Let_def)

lemma store_sub_same [simp]:
  "mc_mosq (store_sub topic qos c) = mc_mosq c" "mc_conn_state (store_sub topic qos c) = mc_conn_state c"
  "mc_ssh_tunnel (store_sub topic qos c) = mc_ssh_tunnel c"
  by (simp_all add: store_sub_def Let_def)

lemma subscribe_inv:
  assumes "client_inv (c, w)"
  shows "succeeds (mqtt_client_subscribe err topic qos (c, w)) (\<lambda>(_, s). client_inv s)"
proof (cases "mc_mosq c")
  case None
  then show ?thesis using assms by (simp add: mqtt_client_subscribe_def)
next
  case (Some h)
  let ?c = "store_sub topic qos c"
  have inv: "client_inv (?c, w)" using assms store_sub_ok by (simp add: client_inv_def)
  then have m: "mid_inv (Some h) (mc_ssh_tunnel ?c) ?c (?c, w)" using client_inv_mid [OF inv] Some by simp
  have fin: "client_inv s" if "mid_inv (Some h) (mc_ssh_tunnel ?c) ?c s" for s
    using that Some by (intro mid_client [of ?c]) simp_all
  have log: "succeeds ((if rc \<noteq> 0 then client_log l msg s else Some s) \<bind> (\<lambda>s. Some (True, s))) (\<lambda>(_, s). client_inv s)"
    if "mid_inv (Some h) (mc_ssh_tunnel ?c) ?c s" for rc l msg s
    by (rule succeeds_bind [of _ "mid_inv (Some h) (mc_ssh_tunnel ?c) ?c"]) (use that client_log_ok fin in auto)
  show ?thesis
  proof (cases "mc_conn_state c = MQTT_CS_CONNECTED")
    case True
    have "succeeds (send_subscribe h topic qos (?c, w) \<bind> (\<lambda>(rc, s).
        (if rc \<noteq> 0 then client_log CONN_LOG_ERROR (snprintf 512 (''Subscribe to '' @ quoted_name topic @ '' failed: '' @ err rc)) s else Some s)
          \<bind> (\<lambda>s. Some (True, s)))) (\<lambda>(_, s). client_inv s)"
      by (rule succeeds_bind [OF send_subscribe_mid [OF m]], clarify) (rule log)
    then show ?thesis using Some True by (simp add: mqtt_client_subscribe_def Let_def)
  next
    case False
    then show ?thesis using inv Some by (simp add: mqtt_client_subscribe_def Let_def)
  qed
qed

lemma index_of_topic_less: "index_of_topic topic i ts = Some j \<Longrightarrow> i \<le> j \<and> j < i + length ts \<and> ts ! (j - i) = topic"
  by (induction ts arbitrary: i) (fastforce split: if_splits simp: nth_Cons')+

lemma remove_sub_ok: "tables_ok c \<Longrightarrow> tables_ok (remove_sub topic c)"
proof -
  assume a: "tables_ok c"
  have "\<forall>t\<in>set ((mc_sub_topics c)[i := mc_sub_topics c ! (mc_sub_count c - Suc 0)]). length t < 256" if "i < mc_sub_count c" for i
    using a that set_update_subset_insert [of "mc_sub_topics c" i "mc_sub_topics c ! (mc_sub_count c - Suc 0)"]
    by (fastforce simp: tables_ok_def)
  then show ?thesis using a by (auto simp: remove_sub_def tables_ok_def Let_def dest!: index_of_topic_less split: option.split)
qed

lemma remove_sub_same [simp]:
  "mc_mosq (remove_sub topic c) = mc_mosq c" "mc_conn_state (remove_sub topic c) = mc_conn_state c"
  "mc_ssh_tunnel (remove_sub topic c) = mc_ssh_tunnel c"
  by (simp_all add: remove_sub_def Let_def split: option.split)

lemma request_inv:
  assumes "client_inv (c, w)" "mc_mosq c = Some h" "\<And>rc. tables_ok (f rc c)"
    "\<And>rc. mc_mosq (f rc c) = mc_mosq c \<and> mc_conn_state (f rc c) = mc_conn_state c \<and> mc_ssh_tunnel (f rc c) = mc_ssh_tunnel c"
  shows "succeeds (mosq_call h call w \<bind> (\<lambda>(rc, w). Some (rc = 0, f rc c, w))) (\<lambda>(_, s). client_inv s)"
proof (rule succeeds_bind)
  have "mid_inv (Some h) (mc_ssh_tunnel c) c (c, w)" using client_inv_mid [OF assms(1)] assms(2) by simp
  then show "succeeds (mosq_call h call w) (\<lambda>(rc, w). mid_inv (Some h) (mc_ssh_tunnel c) c (c, w))"
    by (intro succeeds_mono [OF mosq_call_mid]) auto
qed (use assms in \<open>auto simp: mid_inv_def client_inv_def\<close>)

lemma unsubscribe_inv: "client_inv (c, w) \<Longrightarrow> succeeds (mqtt_client_unsubscribe topic (c, w)) (\<lambda>(_, s). client_inv s)"
  using request_inv [of c w _ "\<lambda>rc c. if rc = 0 then remove_sub topic c else c" "Unsubscribe topic"]
  by (auto simp: mqtt_client_unsubscribe_def Let_def remove_sub_ok client_inv_def split: option.split)

lemma publish_inv: "client_inv (c, w) \<Longrightarrow> succeeds (mqtt_client_publish topic payload n qos retain (c, w)) (\<lambda>(_, s). client_inv s)"
  using request_inv [of c w _ "\<lambda>_ c. c" "Publish topic payload n qos retain"]
  by (auto simp: mqtt_client_publish_def client_inv_def split: option.split)


subsection \<open>Every sequence of operations and callbacks\<close>

text \<open>The texts of the library and the system, and whether the library knows WebSockets.\<close>

record lib_texts =
  lt_strerror :: "int \<Rightarrow> string"
  lt_strerror_null :: "int \<Rightarrow> string option"
  lt_sys_strerror :: "int \<Rightarrow> string"
  lt_connack :: "int \<Rightarrow> string"
  lt_websockets :: bool

datatype client_event =
    Op_Connect connect_opts
  | Op_Disconnect
  | Op_Poll
  | Op_Subscribe string u8
  | Op_Unsubscribe string
  | Op_Publish string "bytes option" u32 u8 bool
  | Cb_Connect nat int
  | Cb_Disconnect nat int
  | Cb_Message nat string bytes int bool
  | Cb_Subscribe nat int "int list"

fun client_step :: "lib_texts \<Rightarrow> client_event \<Rightarrow> cstate \<Rightarrow> cstate option" where
  "client_step ts (Op_Connect opts) s = map_option snd (mqtt_client_connect (lt_strerror ts) (lt_sys_strerror ts) (lt_websockets ts) opts s)"
| "client_step ts Op_Disconnect s = mqtt_client_disconnect s"
| "client_step ts Op_Poll s = mqtt_client_poll_ssh_tunnel s"
| "client_step ts (Op_Subscribe topic qos) s = map_option snd (mqtt_client_subscribe (lt_strerror ts) topic qos s)"
| "client_step ts (Op_Unsubscribe topic) s = map_option snd (mqtt_client_unsubscribe topic s)"
| "client_step ts (Op_Publish topic payload n qos retain) s = map_option snd (mqtt_client_publish topic payload n qos retain s)"
| "client_step ts (Cb_Connect h rc) s = on_connect (lt_connack ts) h rc s"
| "client_step ts (Cb_Disconnect h rc) s = on_disconnect (lt_strerror_null ts) (lt_sys_strerror ts) rc s"
| "client_step ts (Cb_Message h topic payload qos retain) s = on_message topic payload qos retain s"
| "client_step ts (Cb_Subscribe h mid granted) s = on_subscribe mid granted s"

text \<open>
  Callbacks come from a network thread that runs. Connecting through a tunnel is done without an
  instance: \<open>tunnel_failure_dangles\<close> shows what happens otherwise.
\<close>

fun enabled :: "client_event \<Rightarrow> cstate \<Rightarrow> bool" where
  "enabled (Op_Connect opts) (c, w) = (co_ssh_tunnel_enabled opts \<longrightarrow> mc_mosq c = None)"
| "enabled (Cb_Connect h _) (c, w) = (h \<in> set (nt_threads w))"
| "enabled (Cb_Disconnect h _) (c, w) = (h \<in> set (nt_threads w))"
| "enabled (Cb_Message h _ _ _ _) (c, w) = (h \<in> set (nt_threads w))"
| "enabled (Cb_Subscribe h _ _) (c, w) = (h \<in> set (nt_threads w))"
| "enabled _ _ = True"

inductive client_reach :: "lib_texts \<Rightarrow> cstate \<Rightarrow> bool" for ts where
  start: "mqtt_client_new q log w = (Some c, w') \<Longrightarrow> sq_wf q \<Longrightarrow> cl_wf log \<Longrightarrow> nt_live w = [] \<Longrightarrow> nt_threads w = [] \<Longrightarrow>
    os_children w = [] \<Longrightarrow> 0 < os_next_pid w \<Longrightarrow> client_reach ts (c, w')"
| step: "client_reach ts s \<Longrightarrow> enabled e s \<Longrightarrow> client_step ts e s = Some s' \<Longrightarrow> client_reach ts s'"

lemma new_inv:
  assumes "mqtt_client_new q log w = (Some c, w')" "sq_wf q" "cl_wf log" "nt_live w = []" "nt_threads w = []"
    "os_children w = []" "0 < os_next_pid w"
  shows "client_inv (c, w')"
proof -
  obtain r w1 where r: "sys w = (r, w1)" by force
  then have "w' = w1" "held w1 = held w" using assms(1) sys_held [OF r] by (auto simp: mqtt_client_new_def split: if_splits)
  moreover have "lib_ok None w" "tunnel_ok zero_tunnel w" using assms by (simp_all add: lib_ok_def tunnel_ok_def zero_tunnel_def)
  ultimately have "lib_ok None w'" "tunnel_ok zero_tunnel w'" using held_net [of w1 w] by simp_all
  moreover have "c = \<lparr>mc_mosq = None, mc_msg_queue = q, mc_log = log, mc_conn_state = MQTT_CS_DISCONNECTED,
                  mc_last_disconnect_rc = 0, mc_sub_topics = replicate MQTT_CLIENT_MAX_SUBS [],
                  mc_sub_qos = replicate MQTT_CLIENT_MAX_SUBS 0, mc_sub_count = 0,
                  mc_pending_subs = replicate MQTT_CLIENT_MAX_SUBS (0, []), mc_pending_next = 0,
                  mc_ssh_tunnel = zero_tunnel, mc_dropped_count = 0, mc_last_drop_log_us = 0\<rparr>"
    using assms(1) r by (auto simp: mqtt_client_new_def split: if_splits)
  ultimately show ?thesis using assms(2,3) by (auto simp: client_inv_def tables_ok_def)
qed

lemma thread_mosq: "client_inv (c, w) \<Longrightarrow> h \<in> set (nt_threads w) \<Longrightarrow> mc_mosq c = Some h"
  by (cases "mc_mosq c") (auto simp: client_inv_def lib_ok_def)

lemma on_connect_run:
  assumes "client_inv (c, w)" "mc_mosq c = Some h"
  shows "succeeds (on_connect connack h 0 (c, w)) (\<lambda>s'. client_inv s' \<and> mc_conn_state (fst s') = MQTT_CS_CONNECTED
     \<and> stored_subs (fst s') = stored_subs c \<and> nt_calls (snd s') = nt_calls w @ map (\<lambda>(t, q). (h, Subscribe t q)) (stored_subs c)
     \<and> nt_threads (snd s') = nt_threads w)"
proof -
  let ?c = "c\<lparr>mc_conn_state := MQTT_CS_CONNECTED, mc_last_disconnect_rc := 0\<rparr>"
  let ?t = "mc_ssh_tunnel c"
  have m: "mid_inv (Some h) ?t ?c (?c, w)" using assms by (auto simp: client_inv_def mid_inv_def tables_ok_def)
  have st: "stored_subs ?c = stored_subs c" by (simp add: stored_subs_def)
  show ?thesis
    unfolding on_connect_def Let_def prod.case if_P [OF refl]
  proof (rule succeeds_bind [OF client_log_mid [OF m]], clarify)
    fix c1 w1 assume a: "mid_inv (Some h) ?t ?c (c1, w1)" "stored_subs (fst (c1, w1)) = stored_subs (fst (?c, w))"
      "nt_calls (snd (c1, w1)) = nt_calls (snd (?c, w))" "nt_threads (snd (c1, w1)) = nt_threads (snd (?c, w))"
    have fin: "client_inv s \<and> mc_conn_state (fst s) = MQTT_CS_CONNECTED" if "mid_inv (Some h) ?t ?c s" for s
      using that assms(2) by (auto simp: mid_inv_def client_inv_def)
    show "succeeds (resubscribe_loop h (stored_subs c1) (c1, w1)) (\<lambda>s'. client_inv s' \<and> mc_conn_state (fst s') = MQTT_CS_CONNECTED
     \<and> stored_subs (fst s') = stored_subs c \<and> nt_calls (snd s') = nt_calls w @ map (\<lambda>(t, q). (h, Subscribe t q)) (stored_subs c)
     \<and> nt_threads (snd s') = nt_threads w)"
      by (rule succeeds_mono [OF resubscribe_mid [OF a(1)]]) (use a(2-4) st fin in auto)
  qed
qed

lemma event_inv:
  assumes "client_inv s" "enabled e s"
  shows "succeeds (client_step ts e s) client_inv"
proof -
  obtain c w where s: "s = (c, w)" by force
  have inv: "client_inv (c, w)" using assms(1) by (simp add: s)
  have snd_ok: "succeeds m (\<lambda>(_, s). client_inv s) \<Longrightarrow> succeeds (map_option snd m) client_inv" for m :: "(bool \<times> cstate) option"
    by (auto simp: succeeds_def split: option.splits)
  have cb: "succeeds (f s) client_inv" if "\<And>m t c0. mid_inv m t c0 s \<Longrightarrow> succeeds (f s) (mid_inv m t c0)" for f
    by (rule succeeds_mono [OF that [OF client_inv_mid [OF inv, folded s]]]) (rule mid_client, use inv in \<open>auto simp: client_inv_def\<close>)
  show ?thesis
  proof (cases e)
    case (Op_Connect opts)
    then show ?thesis using connect_inv [OF inv] assms(2) snd_ok by (simp add: s)
  next
    case (Cb_Connect h rc)
    then have h: "mc_mosq c = Some h" using thread_mosq [OF inv] assms(2) by (simp add: s)
    show ?thesis
    proof (cases "rc = 0")
      case True
      then show ?thesis using succeeds_mono [OF on_connect_run [OF inv h]] by (simp add: s Cb_Connect)
    next
      case False
      let ?c = "c\<lparr>mc_conn_state := MQTT_CS_DISCONNECTED\<rparr>"
      have "mid_inv (Some h) (mc_ssh_tunnel c) ?c (?c, w)" using inv h by (auto simp: client_inv_def mid_inv_def tables_ok_def)
      from client_log_ok [OF this] show ?thesis
        unfolding Cb_Connect client_step.simps on_connect_def s Let_def prod.case if_not_P [OF False]
        by (rule succeeds_mono) (use h in \<open>auto simp: mid_inv_def client_inv_def\<close>)
    qed
  next
    case (Cb_Disconnect h rc)
    let ?c = "c\<lparr>mc_conn_state := MQTT_CS_DISCONNECTED, mc_last_disconnect_rc := rc\<rparr>"
    have m: "mid_inv (mc_mosq c) (mc_ssh_tunnel c) ?c (?c, w)" using inv by (auto simp: client_inv_def mid_inv_def tables_ok_def)
    have "succeeds (client_log l msg (?c, w)) client_inv" for l msg
      by (rule succeeds_mono [OF client_log_ok [OF m]]) (auto simp: mid_inv_def client_inv_def)
    then show ?thesis by (cases "rc = 0") (simp_all add: Cb_Disconnect s on_disconnect_def Let_def)
  next
    case (Cb_Message h topic payload qos retain)
    then show ?thesis using cb [of "on_message topic payload qos retain"] on_message_mid by simp
  next
    case (Cb_Subscribe h mid granted)
    then show ?thesis using cb [of "on_subscribe mid granted"] on_subscribe_mid by simp
  qed (use inv disconnect_inv poll_inv subscribe_inv unsubscribe_inv publish_inv snd_ok in \<open>simp_all add: s\<close>)
qed

lemma reach_inv: "client_reach ts s \<Longrightarrow> client_inv s"
proof (induction rule: client_reach.induct)
  case (step s e s')
  then show ?case using event_inv [OF step.IH step.hyps(2), of ts] by (simp add: succeeds_ex)
qed (rule new_inv)

text \<open>
  C28. However the operations of the main thread, the callbacks and the answers of the library and
  the system follow each other (connecting through a tunnel only while there is no instance), the
  client never touches an instance that was destroyed, owns the only instance there is, has no
  network thread but that one, no child process but its tunnel's, is connected only with an
  instance, and keeps its tables and their texts within their bounds.
\<close>
theorem mqtt_client_owns:
  assumes "client_reach ts s"
  shows "client_inv s \<and> (\<forall>e. enabled e s \<longrightarrow> client_step ts e s \<noteq> None)"
  using reach_inv [OF assms] event_inv [of s _ ts] unfolding succeeds_ex by blast

definition sample_net :: net where
  "sample_net = \<lparr>os_results = [], os_fds = 0, os_children = [], os_next_pid = 1, os_environ = [], os_launches = [],
     nt_live = [], nt_threads = [], nt_next = 0, nt_calls = []\<rparr>"

definition sample_client :: mqtt_client where
  "sample_client = the (fst (mqtt_client_new (spsc_queue_init 8) (connection_log_init 8) sample_net))"

definition sample_texts :: lib_texts where
  "sample_texts = \<lparr>lt_strerror = (\<lambda>_. ''error''), lt_strerror_null = (\<lambda>_. None), lt_sys_strerror = (\<lambda>_. ''errno''),
     lt_connack = (\<lambda>_. ''refused''), lt_websockets = True\<rparr>"

lemma sample_new: "mqtt_client_new (spsc_queue_init 8) (connection_log_init 8) sample_net = (Some sample_client, sample_net)"
  by (simp add: sample_client_def mqtt_client_new_def sample_net_def sys_def)

lemma sample_reach: "client_reach ts (sample_client, sample_net)"
proof (rule client_reach.start [OF sample_new])
  show "sq_wf (spsc_queue_init 8)" using init_fifo [of 8] by (simp add: spsc_cap_ok_def)
  show "cl_wf (connection_log_init 8)" by (simp add: cl_wf_def connection_log_init_def ring_cap_ok_def)
qed (simp_all add: sample_net_def)

definition sample_connect :: connect_opts where
  "sample_connect = \<lparr>co_host = ''broker'', co_port = 1883, co_client_id = Some ''me'', co_clean_session = True, co_keepalive_secs = 60,
     co_username = None, co_password = None, co_protocol_version = 311, co_transport = 0, co_ws_path = None, co_tls_ca_cert = None,
     co_tls_client_cert = None, co_tls_client_key = None, co_tls_version = 0, co_tls_verify = True, co_ssh_tunnel_enabled = False,
     co_ssh_jump_host = [], co_ssh_jump_port = 0, co_ssh_jump_user = None, co_ssh_jump_key_path = None, co_ssh_jump_password = None\<rparr>"

lemma mqtt_client_owns_witness: "client_step sample_texts (Op_Connect sample_connect) (sample_client, sample_net) \<noteq> None"
  using mqtt_client_owns [OF sample_reach, of sample_texts] by (simp add: sample_connect_def del: client_step.simps)


subsection \<open>A tunnel that fails\<close>

text \<open>
  When a client that has an instance connects through a tunnel and the tunnel cannot be started, the
  client keeps the address of the instance it has just destroyed: the next operation on it, such as
  disconnecting, is undefined behaviour.
\<close>

lemma tunnel_failure_dangles:
  assumes "client_inv (c, w)" "mc_mosq c = Some h" "co_ssh_tunnel_enabled opts" "os_results w = a # b # - 1 # rest"
  shows "\<exists>s'. mqtt_client_connect err strerr ws opts (c, w) = Some (False, s') \<and> mqtt_client_disconnect s' = None"
proof -
  let ?w1 = "w\<lparr>os_results := - 1 # rest, nt_threads := [], nt_live := []\<rparr>"
  have lib: "nt_live w = [h]" "removeAll h (nt_threads w) = []"
    using assms(1,2) by (auto simp: client_inv_def lib_ok_def removeAll_filter_not_eq filter_empty_conv)
  have stop: "stop_and_destroy (mc_mosq c) w = Some ?w1"
    using lib assms(2,4) by (simp add: stop_and_destroy_def stop_network_thread_def mosquitto_destroy_def sys_def)
  obtain t2 w2 where t2: "ssh_tunnel_stop (mc_ssh_tunnel c) ?w1 = (t2, w2)" by force
  then have w2: "os_results w2 = - 1 # rest" "os.more w2 = os.more ?w1" by (auto simp: ssh_tunnel_stop_def kill_and_wait_def reap_def split: if_splits)
  obtain w3 where r: "reserve_free_port w2 = (None, w3)" "os.more w3 = os.more w2"
    using w2(1) by (simp add: reserve_free_port_def open_socket_def sys_def)
  have "cl_wf (mc_log c)" using assms(1) by (simp add: client_inv_def tables_ok_def)
  then obtain w4 log where l: "log_event CONN_LOG_ERROR ''SSH tunnel: failed to reserve a local port'' (w3, mc_log c) = Some (w4, log)"
      "held w4 = held w3"
    using log_event_ok by metis
  have "mqtt_client_connect err strerr ws opts (c, w)
      = Some (False, c\<lparr>mc_ssh_tunnel := t2, mc_ssh_tunnel := zero_tunnel, mc_log := log\<rparr>, w4)"
    using assms(3) l(1) by (simp add: mqtt_client_connect_def stop t2 ssh_tunnel_start_def r)
  moreover have "nt_live w4 = []"
    using l(2) r(2) w2(2) more_net [of w4 ?w1] by (simp add: held_def)
  ultimately show ?thesis using assms(2) by (simp add: mqtt_client_disconnect_def stop_network_thread_def)
qed

subsection \<open>Subscribing before the broker answers\<close>

lemma store_sub_stored:
  assumes "tables_ok c" "length topic < 256"
  shows "stored_subs (store_sub topic qos c) = take 32 (stored_subs c @ [(topic, qos)])"
proof (cases "mc_sub_count c < 32")
  case True
  let ?n = "mc_sub_count c"
  have l: "length (mc_sub_topics c) = 32" "length (mc_sub_qos c) = 32" using assms(1) by (simp_all add: tables_ok_def)
  have z: "zip ((mc_sub_topics c)[?n := topic]) ((mc_sub_qos c)[?n := qos]) = (zip (mc_sub_topics c) (mc_sub_qos c))[?n := (topic, qos)]"
    by (simp add: update_zip)
  show ?thesis
    using True l assms(2) by (simp add: stored_subs_def store_sub_def Let_def z take_Suc_conv_app_nth)
next
  case False
  moreover have "mc_sub_count c \<le> 32" "length (stored_subs c) = min 32 (mc_sub_count c)"
    using assms(1) by (simp_all add: tables_ok_def stored_subs_def)
  ultimately show ?thesis by (simp add: store_sub_def)
qed

lemma take_take_append: "take n (take n zs @ ys) = take n (zs @ ys)"
  by (cases "length zs \<le> n") simp_all

lemma subscribe_early:
  assumes "mc_mosq c = Some h" "mc_conn_state c \<noteq> MQTT_CS_CONNECTED"
  shows "mqtt_client_subscribe err topic qos (c, w) = Some (True, store_sub topic qos c, w)"
  using assms by (simp add: mqtt_client_subscribe_def Let_def)

lemma subscribe_all_early:
  assumes "tables_ok c" "mc_mosq c = Some h" "mc_conn_state c \<noteq> MQTT_CS_CONNECTED" "\<forall>(t, q)\<in>set subs. length t < 256"
  shows "\<exists>c'. option_fold (\<lambda>(t, q) s. map_option snd (mqtt_client_subscribe err t q s)) subs (c, w) = Some (c', w)
    \<and> stored_subs c' = take 32 (stored_subs c @ subs) \<and> tables_ok c'
    \<and> mc_mosq c' = mc_mosq c \<and> mc_conn_state c' = mc_conn_state c \<and> mc_ssh_tunnel c' = mc_ssh_tunnel c"
  using assms
proof (induction subs arbitrary: c)
  case Nil
  then show ?case by (simp add: stored_subs_def tables_ok_def)
next
  case (Cons sub subs)
  obtain t q where sub: "sub = (t, q)" by force
  let ?c = "store_sub t q c"
  have "\<exists>c'. option_fold (\<lambda>(t, q) s. map_option snd (mqtt_client_subscribe err t q s)) subs (?c, w) = Some (c', w)
    \<and> stored_subs c' = take 32 (stored_subs ?c @ subs) \<and> tables_ok c'
    \<and> mc_mosq c' = mc_mosq ?c \<and> mc_conn_state c' = mc_conn_state ?c \<and> mc_ssh_tunnel c' = mc_ssh_tunnel ?c"
    by (rule Cons.IH) (use Cons.prems store_sub_ok in \<open>auto simp: sub\<close>)
  moreover have "take 32 (stored_subs ?c @ subs) = take 32 (stored_subs c @ sub # subs)"
    using store_sub_stored [OF Cons.prems(1), of t q] Cons.prems(4) take_take_append [of 32 "stored_subs c @ [(t, q)]" subs]
    by (simp add: sub del: take_append)
  ultimately show ?case using subscribe_early [OF Cons.prems(2,3)] by (simp add: sub)
qed

text \<open>
  C29. Subscriptions made while the connection is being set up are not lost: when the broker accepts
  the connection, each stored filter is requested once, in the order they were made (the first 32),
  after whatever was requested before, and the list stays as it is for the next reconnect.
\<close>
theorem mqtt_resubscribes:
  assumes "client_reach ts (c, w)" "h \<in> set (nt_threads w)" "mc_conn_state c \<noteq> MQTT_CS_CONNECTED" "\<forall>(t, q)\<in>set subs. length t < 256"
  shows "\<exists>c1 c2 w2. option_fold (\<lambda>(t, q) s. map_option snd (mqtt_client_subscribe err t q s)) subs (c, w) = Some (c1, w)
    \<and> on_connect connack h 0 (c1, w) = Some (c2, w2)
    \<and> mqtt_client_is_connected c2
    \<and> nt_calls w2 = nt_calls w @ map (\<lambda>(t, q). (h, Subscribe t q)) (take 32 (stored_subs c @ subs))
    \<and> stored_subs c2 = take 32 (stored_subs c @ subs)"
proof -
  have inv: "client_inv (c, w)" by (rule reach_inv [OF assms(1)])
  then have h: "mc_mosq c = Some h" using assms(2) by (rule thread_mosq)
  have tab: "tables_ok c" using inv by (simp add: client_inv_def)
  obtain c1 where c1: "option_fold (\<lambda>(t, q) s. map_option snd (mqtt_client_subscribe err t q s)) subs (c, w) = Some (c1, w)"
      "stored_subs c1 = take 32 (stored_subs c @ subs)" "tables_ok c1" "mc_mosq c1 = mc_mosq c" "mc_conn_state c1 = mc_conn_state c"
      "mc_ssh_tunnel c1 = mc_ssh_tunnel c"
    using subscribe_all_early [OF tab h assms(3,4)] by blast
  have inv1: "client_inv (c1, w)" using inv c1 by (simp add: client_inv_def)
  have "mc_mosq c1 = Some h" using c1(4) h by simp
  from on_connect_run [OF inv1 this, of connack] c1 show ?thesis
    by (auto simp: succeeds_ex mqtt_client_is_connected_def)
qed


text \<open>Connecting, two filters, and the broker's answer.\<close>

lemma mqtt_resubscribes_witness:
  "\<exists>c w c1 c2 w2. client_step sample_texts (Op_Connect sample_connect) (sample_client, sample_net) = Some (c, w)
    \<and> option_fold (\<lambda>(t, q) s. map_option snd (mqtt_client_subscribe (\<lambda>_. []) t q s)) [(''a/#'', 1), (''b'', 0)] (c, w) = Some (c1, w)
    \<and> on_connect (\<lambda>_. []) 0 0 (c1, w) = Some (c2, w2)
    \<and> nt_calls w2 = nt_calls w @ [(0, Subscribe ''a/#'' 1), (0, Subscribe ''b'' 0)]"
proof -
  obtain c w where cw: "client_step sample_texts (Op_Connect sample_connect) (sample_client, sample_net) = Some (c, w)"
    "nt_threads w = [0]" "mc_conn_state c = MQTT_CS_CONNECTING" "mc_sub_count c = 0"
  proof -
    have "cl_wf (connection_log_init 8)" by (simp add: cl_wf_def connection_log_init_def ring_cap_ok_def)
    then obtain log where log: "connection_log_add (0, CONN_LOG_INFO,
        Some (snprintf 512 (''Connecting to '' @ ''broker'' @ '':'' @ dec (unat (1883 :: u16)) @ ''...''))) (connection_log_init 8) = Some log"
      using add_contract by blast
    have sys0: "sys (w :: net) = (0, w)" if "os_results w = []" for w using that by (simp add: sys_def)
    have c: "mc_mosq sample_client = None" "mc_ssh_tunnel sample_client = zero_tunnel" "mc_log sample_client = connection_log_init 8"
      by (simp_all add: sample_client_def mqtt_client_new_def sample_net_def sys_def)
    have w: "os_results sample_net = []" "nt_next sample_net = 0" "nt_threads sample_net = []" by (simp_all add: sample_net_def)
    have "\<exists>c w. client_step sample_texts (Op_Connect sample_connect) (sample_client, sample_net) = Some (c, w)
        \<and> nt_threads w = [0] \<and> mc_conn_state c = MQTT_CS_CONNECTING \<and> mc_sub_count c = 0"
      using log by (simp add: sample_connect_def mqtt_client_connect_def stop_and_destroy_def ssh_tunnel_stop_def effective_id_def mosquitto_new_def
          dial_def mosq_do_def mosq_call_def setup_tls_def client_log_def log_event_def mosquitto_loop_start_def sys0 c w Let_def zero_tunnel_def)
    then show ?thesis using that by blast
  qed
  have "client_reach sample_texts (c, w)"
    by (rule client_reach.step [OF sample_reach _ cw(1)]) (simp add: sample_connect_def)
  from mqtt_resubscribes [OF this, of 0 "[(''a/#'', 1), (''b'', 0)]" "\<lambda>_. []" "\<lambda>_. []"] cw
  show ?thesis by (simp add: stored_subs_def) blast
qed

end
