(* ===== verification/Mqtt_Race.thy ===== *)
theory Mqtt_Race
  imports Mqtt_Client
begin

text \<open>
  \<open>mqtt_client_subscribe\<close> on the main thread beside \<open>on_connect\<close> on the network thread
  (\<open>src/src/core/mqtt_client.c\<close>), as a step relation: each access to the atomic connection state is
  a step, and each section under \<open>sub_mutex\<close> is one step.
\<close>

datatype main_pc = M_Store | M_Load | M_Send | M_Done

datatype net_pc = N_Set | N_Resubscribe | N_Done

record race =
  ra_table :: "(string \<times> u8) list"
  ra_state :: conn_state
  ra_sent :: "(string \<times> u8) list"
  ra_main :: main_pc
  ra_net :: net_pc

inductive race_step :: "string \<times> u8 \<Rightarrow> race \<Rightarrow> race \<Rightarrow> bool" for sub where
  store: "ra_main r = M_Store \<Longrightarrow>
    race_step sub r (r\<lparr>ra_table := (if length (ra_table r) < MQTT_CLIENT_MAX_SUBS then ra_table r @ [sub] else ra_table r), ra_main := M_Load\<rparr>)"
| load: "ra_main r = M_Load \<Longrightarrow>
    race_step sub r (r\<lparr>ra_main := (if ra_state r = MQTT_CS_CONNECTED then M_Send else M_Done)\<rparr>)"
| send: "ra_main r = M_Send \<Longrightarrow> race_step sub r (r\<lparr>ra_sent := ra_sent r @ [sub], ra_main := M_Done\<rparr>)"
| set_connected: "ra_net r = N_Set \<Longrightarrow> race_step sub r (r\<lparr>ra_state := MQTT_CS_CONNECTED, ra_net := N_Resubscribe\<rparr>)"
| resubscribe: "ra_net r = N_Resubscribe \<Longrightarrow> race_step sub r (r\<lparr>ra_sent := ra_sent r @ ra_table r, ra_net := N_Done\<rparr>)"

inductive_cases race_stepE: "race_step sub r r'"

definition race_start :: "(string \<times> u8) list \<Rightarrow> race" where
  "race_start table = \<lparr>ra_table = table, ra_state = MQTT_CS_CONNECTING, ra_sent = [], ra_main = M_Store, ra_net = N_Set\<rparr>"

definition race_done :: "race \<Rightarrow> bool" where
  "race_done r \<longleftrightarrow> ra_main r = M_Done \<and> ra_net r = N_Done"

inductive race_reach :: "string \<times> u8 \<Rightarrow> (string \<times> u8) list \<Rightarrow> race \<Rightarrow> bool" for sub table where
  init: "race_reach sub table (race_start table)"
| step: "race_reach sub table r \<Longrightarrow> race_step sub r r' \<Longrightarrow> race_reach sub table r'"

text \<open>What is left to do.\<close>

definition main_left :: "main_pc \<Rightarrow> nat" where
  "main_left pc = (case pc of M_Store \<Rightarrow> 3 | M_Load \<Rightarrow> 2 | M_Send \<Rightarrow> 1 | M_Done \<Rightarrow> 0)"

definition net_left :: "net_pc \<Rightarrow> nat" where
  "net_left pc = (case pc of N_Set \<Rightarrow> 2 | N_Resubscribe \<Rightarrow> 1 | N_Done \<Rightarrow> 0)"

definition race_left :: "race \<Rightarrow> nat" where
  "race_left r = main_left (ra_main r) + net_left (ra_net r)"

lemma race_step_less: "race_step sub r r' \<Longrightarrow> race_left r' < race_left r"
  by (erule race_stepE) (auto simp: race_left_def main_left_def net_left_def)

lemma race_progress: "\<not> race_done r \<Longrightarrow> \<exists>r'. race_step sub r r'"
  by (cases "ra_main r"; cases "ra_net r") (auto simp: race_done_def intro: race_step.intros)

definition race_inv :: "string \<times> u8 \<Rightarrow> (string \<times> u8) list \<Rightarrow> race \<Rightarrow> bool" where
  "race_inv sub table r \<longleftrightarrow>
     (ra_state r = MQTT_CS_CONNECTED \<longleftrightarrow> ra_net r \<noteq> N_Set)
   \<and> (if ra_main r = M_Store then ra_table r = table
      else ra_table r = (if length table < MQTT_CLIENT_MAX_SUBS then table @ [sub] else table))
   \<and> (ra_main r = M_Send \<longrightarrow> ra_net r \<noteq> N_Set)
   \<and> (ra_net r = N_Done \<longrightarrow> set table \<subseteq> set (ra_sent r))
   \<and> (ra_main r = M_Done \<longrightarrow> sub \<in> set (ra_sent r) \<or> ra_net r \<noteq> N_Done \<or> \<not> length table < MQTT_CLIENT_MAX_SUBS)
   \<and> set (ra_sent r) \<subseteq> insert sub (set table)"

lemma race_inv_step: "race_step sub r r' \<Longrightarrow> race_inv sub table r \<Longrightarrow> race_inv sub table r'"
  by (erule race_stepE) (auto simp: race_inv_def split: if_splits)

lemma race_reach_inv: "race_reach sub table r \<Longrightarrow> race_inv sub table r"
proof (induction rule: race_reach.induct)
  case init
  show ?case by (simp add: race_inv_def race_start_def)
next
  case (step r r')
  then show ?case using race_inv_step by blast
qed

text \<open>
  C30. No subscription is lost when the broker's answer arrives while one is being made: however the
  two threads interleave, they are never stuck, they end after at most five steps, and then, while
  the table of 32 has room, the new filter has been requested, as have all the stored ones, and
  nothing else.
\<close>
theorem subscribe_race_complete:
  assumes "race_reach sub table r"
  shows "(\<not> race_done r \<longrightarrow> (\<exists>r'. race_step sub r r'))
    \<and> (\<forall>r'. race_step sub r r' \<longrightarrow> race_left r' < race_left r) \<and> race_left r \<le> 5
    \<and> (race_done r \<and> length table < MQTT_CLIENT_MAX_SUBS \<longrightarrow> set (ra_sent r) = insert sub (set table))"
proof -
  have "race_left r \<le> 5" by (simp add: race_left_def main_left_def net_left_def split: main_pc.split net_pc.split)
  moreover have "race_done r \<and> length table < MQTT_CLIENT_MAX_SUBS \<longrightarrow> set (ra_sent r) = insert sub (set table)"
    using race_reach_inv [OF assms] by (auto simp: race_inv_def race_done_def)
  ultimately show ?thesis using race_progress race_step_less by blast
qed

text \<open>The filter is stored, then the network thread does all of its work, then the main thread goes on.\<close>

lemma subscribe_race_complete_witness:
  "\<exists>r. race_reach (''b'', 1) [(''a'', 0)] r \<and> race_done r \<and> ra_sent r = [(''a'', 0), (''b'', 1), (''b'', 1)]
     \<and> set (ra_sent r) = {(''a'', 0), (''b'', 1)}"
proof -
  let ?s = "(''b'', 1) :: string \<times> u8" and ?t = "[(''a'', 0)] :: (string \<times> u8) list"
  let ?r1 = "\<lparr>ra_table = [(''a'', 0), (''b'', 1)], ra_state = MQTT_CS_CONNECTING, ra_sent = [], ra_main = M_Load, ra_net = N_Set\<rparr>"
  let ?r2 = "?r1\<lparr>ra_state := MQTT_CS_CONNECTED, ra_net := N_Resubscribe\<rparr>"
  let ?r3 = "?r2\<lparr>ra_sent := [(''a'', 0), (''b'', 1)], ra_net := N_Done\<rparr>"
  let ?r4 = "?r3\<lparr>ra_main := M_Send\<rparr>"
  let ?r5 = "?r4\<lparr>ra_sent := [(''a'', 0), (''b'', 1), (''b'', 1)], ra_main := M_Done\<rparr>"
  have "race_reach ?s ?t (race_start ?t)" by (rule race_reach.init)
  moreover have "race_step ?s (race_start ?t) ?r1" using race_step.store [of "race_start ?t" ?s] by (simp add: race_start_def)
  moreover have "race_step ?s ?r1 ?r2" using race_step.set_connected [of ?r1 ?s] by simp
  moreover have "race_step ?s ?r2 ?r3" using race_step.resubscribe [of ?r2 ?s] by simp
  moreover have "race_step ?s ?r3 ?r4" using race_step.load [of ?r3 ?s] by simp
  moreover have "race_step ?s ?r4 ?r5" using race_step.send [of ?r4 ?s] by simp
  ultimately have r: "race_reach ?s ?t ?r5" by (meson race_reach.step)
  have d: "race_done ?r5" by (simp add: race_done_def)
  have "set (ra_sent ?r5) = insert ?s (set ?t)" using subscribe_race_complete [OF r] d by simp
  then show ?thesis using r d by (intro exI [of _ ?r5]) auto
qed

end
