(* ===== verification/Float32.thy ===== *)
theory Float32
  imports Float64
begin

text \<open>
  The \<open>float\<close> of the C code: IEEE binary32 values, with the operations that the UI code uses.
  A finite value is the rational it stands for; every operation rounds its exact result to nearest,
  ties to even. Infinities and NaN follow the standard.
\<close>

definition round_flt :: "rat \<Rightarrow> dbl" where
  "round_flt r =
     (if r = 0 then Fin 0
      else
        let e = max (binade \<bar>r\<bar>) (- 126);
            u = exp2 (e - 23);
            v = of_int (round_even (\<bar>r\<bar> / u)) * u
        in if v \<ge> exp2 128 then Inf (r < 0) else Fin (if r < 0 then - v else v))"

definition flt_less :: "dbl \<Rightarrow> dbl \<Rightarrow> bool" where
  "flt_less x y \<longleftrightarrow> dbl_le x y \<and> \<not> dbl_le y x"

definition flt_add :: "dbl \<Rightarrow> dbl \<Rightarrow> dbl" where
  "flt_add x y =
     (case (x, y) of
        (Fin a, Fin b) \<Rightarrow> round_flt (a + b)
      | (Inf n, Inf m) \<Rightarrow> if n = m then Inf n else Nan
      | (Inf n, Fin _) \<Rightarrow> Inf n
      | (Fin _, Inf m) \<Rightarrow> Inf m
      | _ \<Rightarrow> Nan)"

definition flt_neg :: "dbl \<Rightarrow> dbl" where
  "flt_neg x = (case x of Fin a \<Rightarrow> Fin (- a) | Inf n \<Rightarrow> Inf (\<not> n) | Nan \<Rightarrow> Nan)"

definition flt_sub :: "dbl \<Rightarrow> dbl \<Rightarrow> dbl" where
  "flt_sub x y = flt_add x (flt_neg y)"

definition flt_mul :: "dbl \<Rightarrow> dbl \<Rightarrow> dbl" where
  "flt_mul x y =
     (case (x, y) of
        (Fin a, Fin b) \<Rightarrow> round_flt (a * b)
      | (Inf n, Inf m) \<Rightarrow> Inf (n \<noteq> m)
      | (Inf n, Fin b) \<Rightarrow> if b = 0 then Nan else Inf (n \<noteq> (b < 0))
      | (Fin a, Inf m) \<Rightarrow> if a = 0 then Nan else Inf (m \<noteq> (a < 0))
      | _ \<Rightarrow> Nan)"

text \<open>A division by zero: the code's divisors are compared with a positive bound first.\<close>

definition flt_div :: "dbl \<Rightarrow> dbl \<Rightarrow> dbl" where
  "flt_div x y =
     (case (x, y) of
        (Fin a, Fin b) \<Rightarrow> if b = 0 then (if a = 0 then Nan else Inf (a < 0)) else round_flt (a / b)
      | (Inf n, Fin b) \<Rightarrow> Inf (n \<noteq> (b < 0))
      | (Fin _, Inf _) \<Rightarrow> Fin 0
      | _ \<Rightarrow> Nan)"

text \<open>A constant of the source, as the nearest \<open>float\<close>.\<close>

abbreviation flt :: "rat \<Rightarrow> dbl" where "flt r \<equiv> round_flt r"

text \<open>The conversion of a non-negative value to \<open>uint64_t\<close>; out of range is undefined.\<close>

definition u64_of_flt :: "dbl \<Rightarrow> u64 option" where
  "u64_of_flt x =
     (case x of
        Fin r \<Rightarrow> if - 1 < r \<and> r < 2 ^ 64 then Some (word_of_int (if r < 0 then 0 else \<lfloor>r\<rfloor>)) else None
      | _ \<Rightarrow> None)"

end
