(* ===== verification/Text_Edit.thy ===== *)
theory Text_Edit
  imports Float32 "HOL-Library.Monad_Syntax"
begin

text \<open>
  \<open>src/src/ui/text_edit.c\<close> and \<open>src/src/ui/text_input.h\<close>: the caret-aware line editor behind
  every text field. Raylib's keyboard is the environment: which keys are down, went down or repeat
  in this frame, the queue of typed code points (\<open>GetCharPressed\<close> takes its head, 0 when it is
  empty) and the clipboard. \<open>CodepointToUTF8\<close> is Raylib's and a parameter, as is the width
  that \<open>MeasureTextEx\<close> gives a text. Undefined behaviour (a caret past the end of the buffer, a
  buffer that overflows its capacity) is \<open>None\<close>.
\<close>

subsection \<open>Input of a frame\<close>

datatype key =
    KEY_LEFT_CONTROL | KEY_RIGHT_CONTROL | KEY_LEFT_SUPER | KEY_RIGHT_SUPER
  | KEY_A | KEY_C | KEY_V | KEY_P | KEY_L
  | KEY_BACKSPACE | KEY_DELETE | KEY_LEFT | KEY_RIGHT | KEY_UP | KEY_DOWN | KEY_HOME | KEY_END
  | KEY_ESCAPE | KEY_TAB | KEY_ENTER

record keyboard =
  kb_down :: "key set"
  kb_pressed :: "key set"
  kb_repeat :: "key set"
  kb_chars :: "int list"
  kb_clipboard :: "string option"

definition mod_down :: "keyboard \<Rightarrow> bool" where
  "mod_down kb \<longleftrightarrow> KEY_LEFT_CONTROL \<in> kb_down kb \<or> KEY_RIGHT_CONTROL \<in> kb_down kb
     \<or> KEY_LEFT_SUPER \<in> kb_down kb \<or> KEY_RIGHT_SUPER \<in> kb_down kb"

definition key_hit :: "keyboard \<Rightarrow> key \<Rightarrow> bool" where
  "key_hit kb k \<longleftrightarrow> k \<in> kb_pressed kb \<or> k \<in> kb_repeat kb"

definition text_input_paste_pressed :: "keyboard \<Rightarrow> bool" where
  "text_input_paste_pressed kb \<longleftrightarrow> mod_down kb \<and> KEY_V \<in> kb_pressed kb"

definition text_input_select_all_pressed :: "keyboard \<Rightarrow> bool" where
  "text_input_select_all_pressed kb \<longleftrightarrow> mod_down kb \<and> KEY_A \<in> kb_pressed kb"

definition text_input_handle_copy :: "keyboard \<Rightarrow> string option \<Rightarrow> bool \<times> keyboard" where
  "text_input_handle_copy kb buf =
     (if \<not> mod_down kb \<or> KEY_C \<notin> kb_pressed kb then (False, kb)
      else (True, kb\<lparr>kb_clipboard := Some (case buf of None \<Rightarrow> '''' | Some s \<Rightarrow> s)\<rparr>))"

subsection \<open>Filtering pasted text\<close>

definition line_break :: "char \<Rightarrow> bool" where
  "line_break c \<longleftrightarrow> c = CHR 0x0D \<or> c = CHR 0x0A"

definition control_char :: "char \<Rightarrow> bool" where
  "control_char c \<longleftrightarrow> (of_char c :: nat) < 0x20 \<or> (of_char c :: nat) = 0x7f"

text \<open>The loop over \<open>src\<close>; \<open>break\<close> when the buffer is full.\<close>

function append_loop :: "bool \<Rightarrow> nat \<Rightarrow> string \<Rightarrow> string \<Rightarrow> string" where
  "append_loop allow_newlines cap buf [] = buf"
| "append_loop allow_newlines cap buf (c # p) =
     (if line_break c then
        (if \<not> allow_newlines then append_loop allow_newlines cap buf p
         else if length buf + 1 \<ge> cap then buf
         else append_loop allow_newlines cap (buf @ [CHR 0x0A])
                (if c = CHR 0x0D \<and> take 1 p = [CHR 0x0A] then drop 1 p else p))
      else if control_char c then append_loop allow_newlines cap buf p
      else if length buf + 1 \<ge> cap then buf
      else append_loop allow_newlines cap (buf @ [c]) p)"
  by pat_completeness auto
termination
  by (relation "measure (\<lambda>(a, cap, buf, p). length p)") auto

declare append_loop.simps(2) [simp del]

definition text_input_append_filtered :: "string \<Rightarrow> nat \<Rightarrow> string option \<Rightarrow> bool \<Rightarrow> string" where
  "text_input_append_filtered buf cap src allow_newlines =
     (if cap = 0 then buf
      else case src of None \<Rightarrow> buf | Some s \<Rightarrow> append_loop allow_newlines cap buf s)"

definition text_input_handle_paste :: "keyboard \<Rightarrow> string \<Rightarrow> nat \<Rightarrow> bool \<Rightarrow> bool \<times> string" where
  "text_input_handle_paste kb buf cap allow_newlines =
     (if \<not> text_input_paste_pressed kb then (False, buf)
      else (True, text_input_append_filtered buf cap (kb_clipboard kb) allow_newlines))"

subsection \<open>Character boundaries\<close>

definition is_cont :: "char \<Rightarrow> bool" where
  "is_cont c \<longleftrightarrow> and (byte_of_char c) 0xC0 = 0x80"

text \<open>\<open>while (i > 0 && is_cont(s[i])) i--\<close>\<close>

primrec skip_back :: "string \<Rightarrow> nat \<Rightarrow> nat" where
  "skip_back s 0 = 0"
| "skip_back s (Suc i) = (if is_cont (s ! Suc i) then skip_back s i else Suc i)"

definition prev_boundary :: "string \<Rightarrow> nat \<Rightarrow> nat" where
  "prev_boundary s i = (if i = 0 then 0 else skip_back s (i - 1))"

function skip_conts :: "string \<Rightarrow> nat \<Rightarrow> nat \<Rightarrow> nat" where
  "skip_conts s len i = (if i < len \<and> is_cont (s ! i) then skip_conts s len (i + 1) else i)"
  by pat_completeness auto
termination
  by (relation "measure (\<lambda>(s, len, i). len - i)") auto

declare skip_conts.simps [simp del]

definition next_boundary :: "string \<Rightarrow> nat \<Rightarrow> nat \<Rightarrow> nat" where
  "next_boundary s len i = (if i \<ge> len then len else skip_conts s len (i + 1))"

subsection \<open>Editing\<close>

record editor =
  ed_buf :: string
  ed_caret :: nat
  ed_all :: bool

definition insert_at :: "string \<Rightarrow> nat \<Rightarrow> nat \<Rightarrow> string \<Rightarrow> nat \<Rightarrow> (string \<times> nat) option" where
  "insert_at buf cap pos src n =
     (let len = length buf in
      if n = 0 \<or> len + n + 1 > cap then Some (buf, 0)
      else if pos > len \<or> n > length src then None
      else Some (take pos buf @ take n src @ drop pos buf, n))"

definition clear_selected :: "editor \<Rightarrow> editor" where
  "clear_selected e =
     (if ed_all e then e\<lparr>ed_buf := '''', ed_caret := 0, ed_all := False\<rparr> else e)"

definition insert_here :: "nat \<Rightarrow> string \<Rightarrow> nat \<Rightarrow> editor \<Rightarrow> editor option" where
  "insert_here cap src n e = do {
     (buf, k) \<leftarrow> insert_at (ed_buf e) cap (ed_caret e) src n;
     Some (e\<lparr>ed_buf := buf, ed_caret := ed_caret e + k\<rparr>)
   }"

text \<open>The loop over the typed code points: the editor, whether it changed, and the rest of the queue.\<close>

primrec type_loop :: "(int \<Rightarrow> string) \<Rightarrow> nat \<Rightarrow> bool \<Rightarrow> editor \<Rightarrow> bool \<Rightarrow> int list
    \<Rightarrow> (editor \<times> bool \<times> int list) option" where
  "type_loop utf8 cap ascii_only e changed [] = Some (e, changed, [])"
| "type_loop utf8 cap ascii_only e changed (ch # chs) =
     (if ch = 0 then Some (e, changed, chs)
      else if ch < 32 \<or> ch = 127 \<or> (ascii_only \<and> ch > 126)
      then type_loop utf8 cap ascii_only e changed chs
      else do {
        e \<leftarrow> insert_here cap (utf8 ch) (length (utf8 ch)) (clear_selected e);
        type_loop utf8 cap ascii_only e True chs
      })"

definition paste_text :: "nat \<Rightarrow> bool \<Rightarrow> string option \<Rightarrow> editor \<Rightarrow> editor option" where
  "paste_text cap allow_newlines clipboard e =
     (let s_paste = text_input_append_filtered '''' 8192 clipboard allow_newlines;
          e = clear_selected e
      in if length (ed_buf e) + 1 > cap then None
         else let room = cap - length (ed_buf e) - 1;
                  n = length s_paste;
                  n = (if n > room then skip_back s_paste room else n)
              in insert_here cap s_paste n e)"

definition backspace :: "bool \<Rightarrow> editor \<Rightarrow> editor" where
  "backspace whole e =
     (let buf = ed_buf e; caret = ed_caret e;
          e = (if ed_all e then e\<lparr>ed_buf := '''', ed_caret := 0\<rparr>
               else if caret > 0 then
                 (let from = (if whole then 0 else prev_boundary buf caret)
                  in e\<lparr>ed_buf := take from buf @ drop caret buf, ed_caret := from\<rparr>)
               else e)
      in e\<lparr>ed_all := False\<rparr>)"

definition delete_forward :: "bool \<Rightarrow> editor \<Rightarrow> editor" where
  "delete_forward whole e =
     (let buf = ed_buf e; caret = ed_caret e; len = length buf;
          e = (if ed_all e then e\<lparr>ed_buf := '''', ed_caret := 0\<rparr>
               else if caret < len then
                 (let upto = (if whole then len else next_boundary buf len caret)
                  in e\<lparr>ed_buf := take caret buf @ drop upto buf\<rparr>)
               else e)
      in e\<lparr>ed_all := False\<rparr>)"

definition move_caret :: "keyboard \<Rightarrow> editor \<Rightarrow> editor" where
  "move_caret kb e =
     (let buf = ed_buf e; caret = ed_caret e; len = length buf; ends = ed_all e \<or> mod_down kb in
      if key_hit kb KEY_LEFT then
        e\<lparr>ed_caret := (if ends then 0 else prev_boundary buf caret), ed_all := False\<rparr>
      else if key_hit kb KEY_RIGHT then
        e\<lparr>ed_caret := (if ends then len else next_boundary buf len caret), ed_all := False\<rparr>
      else if key_hit kb KEY_HOME then e\<lparr>ed_caret := 0, ed_all := False\<rparr>
      else if key_hit kb KEY_END then e\<lparr>ed_caret := len, ed_all := False\<rparr>
      else e)"

definition text_edit_update :: "(int \<Rightarrow> string) \<Rightarrow> nat \<Rightarrow> bool \<Rightarrow> bool \<Rightarrow> editor \<Rightarrow> keyboard
    \<Rightarrow> (bool \<times> editor \<times> keyboard) option" where
  "text_edit_update utf8 cap allow_newlines ascii_only e kb =
     (if cap = 0 then Some (False, e, kb)
      else
        let len = length (ed_buf e);
            e = (if ed_caret e > len then e\<lparr>ed_caret := len\<rparr> else e);
            e = (if text_input_select_all_pressed kb then e\<lparr>ed_all := True\<rparr> else e)
        in case text_input_handle_copy kb (Some (ed_buf e)) of
             (True, kb) \<Rightarrow> Some (False, e, kb)
           | (False, kb) \<Rightarrow> do {
               (e, changed, rest) \<leftarrow> type_loop utf8 cap ascii_only e False (kb_chars kb);
               let kb = kb\<lparr>kb_chars := rest\<rparr>;
               (e, changed) \<leftarrow>
                 (if text_input_paste_pressed kb
                  then do { e \<leftarrow> paste_text cap allow_newlines (kb_clipboard kb) e; Some (e, True) }
                  else Some (e, changed));
               let (e, changed) = (if key_hit kb KEY_BACKSPACE then (backspace (mod_down kb) e, True) else (e, changed));
               let (e, changed) = (if key_hit kb KEY_DELETE then (delete_forward (mod_down kb) e, True) else (e, changed));
               Some (changed, move_caret kb e, kb)
             })"


subsection \<open>Text as a sequence of characters\<close>

text \<open>
  The bytes of a UTF-8 text by character: the first byte tells how many continuation bytes follow.
\<close>

definition utf8_width :: "char \<Rightarrow> nat" where
  "utf8_width c =
     (let n = (of_char c :: nat) in
      if n < 0x80 then 1 else if n < 0xC2 then 0 else if n < 0xE0 then 2
      else if n < 0xF0 then 3 else if n < 0xF5 then 4 else 0)"

definition utf8_char :: "string \<Rightarrow> bool" where
  "utf8_char u \<longleftrightarrow> u \<noteq> [] \<and> hd u \<noteq> nul \<and> length u = utf8_width (hd u) \<and> list_all is_cont (tl u)"

lemma is_cont_table:
  "list_all (\<lambda>n. (and (word_of_nat n :: u8) 0xC0 = 0x80) = (128 \<le> n \<and> n < 192)) [0..<256]"
  by code_simp

lemma is_cont_iff: "is_cont c \<longleftrightarrow> 128 \<le> (of_char c :: nat) \<and> (of_char c :: nat) < 192"
proof -
  have "(of_char c :: nat) < 256" by simp
  then show ?thesis
    using is_cont_table by (simp add: list_all_iff is_cont_def byte_of_char_def)
qed

lemma utf8_char_Cons:
  "utf8_char (c # cs) \<longleftrightarrow> c \<noteq> nul \<and> Suc (length cs) = utf8_width c \<and> list_all is_cont cs"
  by (simp add: utf8_char_def)

lemma utf8_lead: "utf8_char u \<Longrightarrow> \<not> is_cont (u ! 0)"
  by (cases u) (auto simp: utf8_char_Cons utf8_width_def is_cont_iff Let_def utf8_char_def split: if_splits)

lemma utf8_tail: "utf8_char u \<Longrightarrow> 0 < k \<Longrightarrow> k < length u \<Longrightarrow> is_cont (u ! k)"
  by (cases u) (auto simp: utf8_char_Cons list_all_length utf8_char_def nth_Cons')

lemma utf8_char_ne: "utf8_char u \<Longrightarrow> u \<noteq> []"
  by (simp add: utf8_char_def)

lemma skip_back_to:
  assumes "b \<le> n" "\<forall>k. b < k \<and> k \<le> n \<longrightarrow> is_cont (s ! k)" "b = 0 \<or> \<not> is_cont (s ! b)"
  shows "skip_back s n = b"
  using assms by (induction n) (auto simp: le_Suc_eq)

lemma skip_conts_to:
  assumes "i \<le> b" "b \<le> len" "\<forall>k. i \<le> k \<and> k < b \<longrightarrow> is_cont (s ! k)" "b = len \<or> \<not> is_cont (s ! b)"
  shows "skip_conts s len i = b"
  using assms
proof (induction s len i rule: skip_conts.induct)
  case (1 s len i)
  show ?case
  proof (cases "i = b")
    case True
    with "1.prems" show ?thesis by (subst skip_conts.simps) auto
  next
    case False
    with "1.prems" have "i < len \<and> is_cont (s ! i)" by auto
    with 1 False show ?thesis by (subst skip_conts.simps) auto
  qed
qed

lemma nth_char:
  "k < length u \<Longrightarrow> (pre @ u @ post) ! (length pre + k) = u ! k"
  by (simp add: nth_append)

lemma skip_back_inside:
  assumes "utf8_char u" "length pre \<le> n" "n < length pre + length u"
  shows "skip_back (pre @ u @ post) n = length pre"
proof (rule skip_back_to [OF assms(2)])
  have "is_cont ((pre @ u @ post) ! k)" if "length pre < k" "k \<le> n" for k
    using nth_char [of "k - length pre" u pre post] utf8_tail [OF assms(1), of "k - length pre"] that assms(3)
    by simp
  then show "\<forall>k. length pre < k \<and> k \<le> n \<longrightarrow> is_cont ((pre @ u @ post) ! k)" by blast
  show "length pre = 0 \<or> \<not> is_cont ((pre @ u @ post) ! length pre)"
    using nth_char [of 0 u pre post] utf8_lead [OF assms(1)] utf8_char_ne [OF assms(1)] by simp
qed

lemma prev_boundary_char:
  assumes "utf8_char u"
  shows "prev_boundary (pre @ u @ post) (length pre + length u) = length pre"
  using skip_back_inside [OF assms, of pre "length pre + length u - 1" post] utf8_char_ne [OF assms]
  by (cases "length u") (auto simp: prev_boundary_def)

lemma text_start:
  "\<forall>u\<in>set us. utf8_char u \<Longrightarrow> concat us \<noteq> [] \<Longrightarrow> \<not> is_cont (concat us ! 0)"
  by (cases us) (auto simp: nth_append dest: utf8_lead utf8_char_ne)

lemma next_boundary_char:
  assumes "utf8_char u" "\<forall>v\<in>set us. utf8_char v"
  shows "next_boundary (pre @ u @ concat us) (length (pre @ u @ concat us)) (length pre)
       = length pre + length u"
proof -
  let ?s = "pre @ u @ concat us"
  have ne: "0 < length u" using utf8_char_ne [OF assms(1)] by simp
  have "skip_conts ?s (length ?s) (length pre + 1) = length pre + length u"
  proof (rule skip_conts_to)
    have "is_cont (?s ! k)" if "length pre + 1 \<le> k" "k < length pre + length u" for k
      using nth_char [of "k - length pre" u pre "concat us"] utf8_tail [OF assms(1), of "k - length pre"] that
      by simp
    then show "\<forall>k. length pre + 1 \<le> k \<and> k < length pre + length u \<longrightarrow> is_cont (?s ! k)" by blast
    have "?s ! (length pre + length u) = concat us ! 0" by (simp add: nth_append)
    with text_start [OF assms(2)]
    show "length pre + length u = length ?s \<or> \<not> is_cont (?s ! (length pre + length u))"
      by (cases "concat us = []") auto
  qed (use ne in \<open>simp_all add: Suc_le_eq\<close>)
  then show ?thesis using ne by (simp add: next_boundary_def)
qed

text \<open>The longest run of whole characters that fits into \<open>room\<close> bytes.\<close>

fun fitting :: "nat \<Rightarrow> string list \<Rightarrow> string list" where
  "fitting room [] = []"
| "fitting room (u # us) = (if length u \<le> room then u # fitting (room - length u) us else [])"

lemma set_fitting: "set (fitting room us) \<subseteq> set us"
  by (induction room us rule: fitting.induct) auto

lemma length_fitting: "length (concat (fitting room us)) \<le> room"
  by (induction room us rule: fitting.induct) auto

lemma fitting_all: "length (concat us) \<le> room \<Longrightarrow> fitting room us = us"
  by (induction room us rule: fitting.induct) auto

lemma fitting_split:
  "room < length (concat us) \<Longrightarrow>
     \<exists>u rest. us = fitting room us @ u # rest \<and> room < length (concat (fitting room us)) + length u"
proof (induction room us rule: fitting.induct)
  case (2 room u us)
  show ?case
  proof (cases "length u \<le> room")
    case True
    with "2.prems" have "room - length u < length (concat us)" by simp
    with "2.IH" [OF True] obtain v rest where
      "us = fitting (room - length u) us @ v # rest"
      "room - length u < length (concat (fitting (room - length u) us)) + length v" by blast
    with True show ?thesis by (intro exI [of _ v] exI [of _ rest]) simp
  qed simp
qed simp

lemma skip_back_fitting:
  assumes "\<forall>u\<in>set us. utf8_char u" "room < length (concat us)"
  shows "skip_back (concat us) room = length (concat (fitting room us))"
proof -
  obtain u rest where s: "us = fitting room us @ u # rest"
    and r: "room < length (concat (fitting room us)) + length u"
    using fitting_split [OF assms(2)] by blast
  have "concat us = concat (fitting room us) @ u @ concat rest" by (subst s) simp
  moreover have "utf8_char u" using assms(1) s by (metis in_set_conv_decomp)
  ultimately show ?thesis using skip_back_inside [OF _ length_fitting r] by metis
qed

lemma skip_back_take: "n < m \<Longrightarrow> skip_back (take m s) n = skip_back s n"
  by (induction n) auto

lemma take_fitting:
  "take (length (concat (fitting room us))) (concat us) = concat (fitting room us)"
  by (induction room us rule: fitting.induct) auto


subsection \<open>Filtering by character\<close>

text \<open>What \<open>append_loop\<close> keeps, character by character: line breaks become one \<open>\n\<close> or vanish.\<close>

function filter_chars :: "bool \<Rightarrow> string list \<Rightarrow> string list" where
  "filter_chars allow [] = []"
| "filter_chars allow (u # us) =
     (if line_break (hd u) then
        (if \<not> allow then filter_chars allow us
         else [CHR 0x0A] # filter_chars allow
                (if u = [CHR 0x0D] \<and> take 1 us = [[CHR 0x0A]] then drop 1 us else us))
      else if control_char (hd u) then filter_chars allow us
      else u # filter_chars allow us)"
  by pat_completeness auto
termination
  by (relation "measure (\<lambda>(a, us). length us)") auto

declare filter_chars.simps(2) [simp del]

definition plain_char :: "char \<Rightarrow> bool" where
  "plain_char c \<longleftrightarrow> \<not> line_break c \<and> \<not> control_char c"

lemma append_loop_plain:
  "\<forall>c\<in>set w. plain_char c \<Longrightarrow> length buf < cap \<Longrightarrow>
     append_loop allow cap buf (w @ p)
       = (if length buf + length w < cap then append_loop allow cap (buf @ w) p
          else take (cap - 1) (buf @ w))"
proof (induction w arbitrary: buf)
  case (Cons c w)
  then show ?case by (auto simp: append_loop.simps(2) plain_char_def)
qed simp

lemma high_plain: "128 \<le> (of_char c :: nat) \<Longrightarrow> plain_char c"
  by (auto simp: plain_char_def line_break_def control_char_def)

lemma single_or_plain:
  assumes "utf8_char u"
  shows "(\<exists>c. u = [c]) \<or> (\<forall>c\<in>set u. plain_char c)"
proof (cases u)
  case (Cons c cs)
  have cs: "\<forall>x\<in>set cs. plain_char x"
    using assms Cons by (simp add: utf8_char_Cons list_all_iff is_cont_iff high_plain)
  show ?thesis
  proof (cases "(of_char c :: nat) < 0x80")
    case True
    then have "utf8_width c = 1" by (simp add: utf8_width_def)
    with assms Cons show ?thesis by (simp add: utf8_char_Cons)
  next
    case False
    then have "plain_char c" by (simp add: high_plain)
    with Cons cs show ?thesis by simp
  qed
qed simp

lemma newline_char: "utf8_char [CHR 0x0A]"
  by code_simp

lemma utf8_filter_chars: "\<forall>u\<in>set us. utf8_char u \<Longrightarrow> \<forall>u\<in>set (filter_chars allow us). utf8_char u"
proof (induction allow us rule: filter_chars.induct)
  case (2 allow u us)
  have us: "\<forall>v\<in>set us. utf8_char v" "\<forall>v\<in>set (drop 1 us). utf8_char v"
    using "2.prems" by (auto dest: in_set_dropD)
  then have "\<forall>v\<in>set (if u = [CHR 0x0D] \<and> take 1 us = [[CHR 0x0A]] then drop 1 us else us). utf8_char v"
    by simp
  with "2.IH" us(1) "2.prems" newline_char show ?case
    by (subst filter_chars.simps(2)) simp
qed simp

lemma take_1_chars:
  assumes "\<forall>u\<in>set us. utf8_char u"
  shows "take 1 (concat us) = [CHR 0x0A] \<longleftrightarrow> take 1 us = [[CHR 0x0A]]"
proof (cases us)
  case (Cons u vs)
  with assms show ?thesis
    by (cases u) (auto simp: utf8_char_Cons utf8_width_def utf8_char_def Let_def)
qed simp

lemma drop_1_chars: "take 1 us = [[c]] \<Longrightarrow> drop 1 (concat us) = concat (drop 1 us)"
  by (cases us) auto

lemma append_loop_chars:
  assumes "\<forall>u\<in>set us. utf8_char u" "length buf < cap"
  shows "append_loop allow cap buf (concat us) = take (cap - 1) (buf @ concat (filter_chars allow us))"
  using assms
proof (induction allow us arbitrary: buf rule: filter_chars.induct)
  case (2 allow u us)
  have us: "\<forall>v\<in>set us. utf8_char v" and u: "utf8_char u" using "2.prems" by auto
  show ?case
  proof (cases "\<forall>c\<in>set u. plain_char c")
    case True
    then have p: "\<not> line_break (hd u)" "\<not> control_char (hd u)"
      using utf8_char_ne [OF u] by (auto simp: plain_char_def)
    have IH: "append_loop allow cap (buf @ u) (concat us) = take (cap - 1) ((buf @ u) @ concat (filter_chars allow us))"
      if "length (buf @ u) < cap"
      by (rule "2.IH"(4) [OF p us that])
    show ?thesis
      using append_loop_plain [OF True "2.prems"(2), of allow "concat us"] IH p
      by (auto simp: filter_chars.simps(2))
  next
    case False
    then obtain c where c: "u = [c]" using single_or_plain [OF u] by blast
    with False have nc: "line_break c \<or> control_char c" by (simp add: plain_char_def)
    show ?thesis
    proof (cases "line_break c \<and> allow")
      case True
      let ?b = "c = CHR 0x0D \<and> take 1 us = [[CHR 0x0A]]"
      let ?vs = "if u = [CHR 0x0D] \<and> take 1 us = [[CHR 0x0A]] then drop 1 us else us"
      have vs: "\<forall>v\<in>set ?vs. utf8_char v" using us by (auto dest: in_set_dropD)
      have rest: "(if c = CHR 0x0D \<and> take 1 (concat us) = [CHR 0x0A] then drop 1 (concat us) else concat us) = concat ?vs"
        using take_1_chars [OF us] drop_1_chars [of us "CHR 0x0A"] c by simp
      show ?thesis
      proof (cases "length buf + 1 \<ge> cap")
        case True
        with \<open>line_break c \<and> allow\<close> "2.prems"(2) show ?thesis
          by (simp add: c append_loop.simps(2) filter_chars.simps(2))
      next
        case False
        have "append_loop allow cap (buf @ [CHR 0x0A]) (concat ?vs)
            = take (cap - 1) ((buf @ [CHR 0x0A]) @ concat (filter_chars allow ?vs))"
          by (rule "2.IH"(2)) (use True c vs False in auto)
        with \<open>line_break c \<and> allow\<close> False rest show ?thesis
          by (simp add: c append_loop.simps(2) filter_chars.simps(2))
      qed
    next
      case False
      with nc "2.IH"(1,3) us "2.prems"(2) show ?thesis
        by (auto simp: c append_loop.simps(2) filter_chars.simps(2))
    qed
  qed
qed simp

subsection \<open>The editor of characters\<close>

text \<open>
  What the fields promise: a document of whole characters with a cursor between two of them, and
  insertion and deletion at the cursor.
\<close>

record doc =
  doc_before :: "string list"
  doc_after :: "string list"
  doc_all :: bool

definition doc_size :: "doc \<Rightarrow> nat" where
  "doc_size d = length (concat (doc_before d @ doc_after d))"

definition doc_clear :: "doc \<Rightarrow> doc" where
  "doc_clear d = (if doc_all d then \<lparr>doc_before = [], doc_after = [], doc_all = False\<rparr> else d)"

definition doc_insert :: "nat \<Rightarrow> string list \<Rightarrow> doc \<Rightarrow> doc" where
  "doc_insert cap us d =
     (if doc_size d + length (concat us) < cap then d\<lparr>doc_before := doc_before d @ us\<rparr> else d)"

definition doc_type :: "(int \<Rightarrow> string) \<Rightarrow> nat \<Rightarrow> int \<Rightarrow> doc \<Rightarrow> doc" where
  "doc_type utf8 cap ch d = doc_insert cap (if utf8 ch = [] then [] else [utf8 ch]) (doc_clear d)"

definition accepted :: "bool \<Rightarrow> int \<Rightarrow> bool" where
  "accepted ascii_only ch \<longleftrightarrow> \<not> (ch < 32 \<or> ch = 127 \<or> (ascii_only \<and> ch > 126))"

definition typed :: "bool \<Rightarrow> int list \<Rightarrow> int list" where
  "typed ascii_only chs = filter (accepted ascii_only) (takeWhile (\<lambda>ch. ch \<noteq> 0) chs)"

definition doc_paste :: "nat \<Rightarrow> string list \<Rightarrow> doc \<Rightarrow> doc" where
  "doc_paste cap us d =
     (let d = doc_clear d
      in d\<lparr>doc_before := doc_before d @ fitting (cap - doc_size d - 1) us\<rparr>)"

definition doc_backspace :: "bool \<Rightarrow> doc \<Rightarrow> doc" where
  "doc_backspace whole d =
     (if doc_all d then doc_clear d
      else d\<lparr>doc_before := (if whole then [] else butlast (doc_before d))\<rparr>)"

definition doc_delete :: "bool \<Rightarrow> doc \<Rightarrow> doc" where
  "doc_delete whole d =
     (if doc_all d then doc_clear d
      else d\<lparr>doc_after := (if whole then [] else drop 1 (doc_after d))\<rparr>)"

text \<open>The cursor goes before the first \<open>n\<close>-th character of the text.\<close>

definition doc_goto :: "nat \<Rightarrow> doc \<Rightarrow> doc" where
  "doc_goto n d =
     (let us = doc_before d @ doc_after d
      in \<lparr>doc_before = take n us, doc_after = drop n us, doc_all = False\<rparr>)"

definition doc_move :: "keyboard \<Rightarrow> doc \<Rightarrow> doc" where
  "doc_move kb d =
     (let n = length (doc_before d); m = n + length (doc_after d); ends = doc_all d \<or> mod_down kb in
      if key_hit kb KEY_LEFT then doc_goto (if ends then 0 else n - 1) d
      else if key_hit kb KEY_RIGHT then doc_goto (if ends then m else n + 1) d
      else if key_hit kb KEY_HOME then doc_goto 0 d
      else if key_hit kb KEY_END then doc_goto m d
      else d)"

text \<open>One frame of keys; \<open>clip\<close> are the characters of the clipboard.\<close>

definition doc_update :: "(int \<Rightarrow> string) \<Rightarrow> nat \<Rightarrow> bool \<Rightarrow> bool \<Rightarrow> string list \<Rightarrow> keyboard \<Rightarrow> doc \<Rightarrow> doc" where
  "doc_update utf8 cap allow_newlines ascii_only clip kb d =
     (let d = (if text_input_select_all_pressed kb then d\<lparr>doc_all := True\<rparr> else d) in
      if mod_down kb \<and> KEY_C \<in> kb_pressed kb then d
      else
        let d = foldl (\<lambda>d ch. doc_type utf8 cap ch d) d (typed ascii_only (kb_chars kb));
            d = (if text_input_paste_pressed kb then doc_paste cap (filter_chars allow_newlines clip) d else d);
            d = (if key_hit kb KEY_BACKSPACE then doc_backspace (mod_down kb) d else d);
            d = (if key_hit kb KEY_DELETE then doc_delete (mod_down kb) d else d)
        in doc_move kb d)"

text \<open>The field's buffer and caret show a document that fits.\<close>

definition shows_doc :: "nat \<Rightarrow> doc \<Rightarrow> editor \<Rightarrow> bool" where
  "shows_doc cap d e \<longleftrightarrow>
     (\<forall>u\<in>set (doc_before d) \<union> set (doc_after d). utf8_char u) \<and> doc_size d < cap
     \<and> ed_buf e = concat (doc_before d) @ concat (doc_after d)
     \<and> ed_caret e = length (concat (doc_before d)) \<and> ed_all e = doc_all d"

lemma shows_select: "shows_doc cap d e \<Longrightarrow> shows_doc cap (d\<lparr>doc_all := b\<rparr>) (e\<lparr>ed_all := b\<rparr>)"
  by (simp add: shows_doc_def doc_size_def)

lemma shows_clear: "shows_doc cap d e \<Longrightarrow> shows_doc cap (doc_clear d) (clear_selected e)"
  by (auto simp: shows_doc_def doc_clear_def clear_selected_def doc_size_def)

lemma shows_caret: "shows_doc cap d e \<Longrightarrow> ed_caret e \<le> length (ed_buf e)"
  by (simp add: shows_doc_def)

lemma shows_length: "shows_doc cap d e \<Longrightarrow> length (ed_buf e) = doc_size d"
  by (simp add: shows_doc_def doc_size_def)

lemma shows_insert:
  assumes "shows_doc cap d e" "\<forall>u\<in>set us. utf8_char u" "n = length (concat us)"
    "take n src = concat us" "n \<le> length src"
  shows "\<exists>e'. insert_here cap src n e = Some e' \<and> shows_doc cap (doc_insert cap us d) e'"
proof (cases "n = 0 \<or> doc_size d + n + 1 > cap")
  case True
  have "us = []" if "n = 0"
    using that assms(2,3) utf8_char_ne by (cases us) auto
  then have "doc_insert cap us d = d" using True assms(3) by (auto simp: doc_insert_def)
  moreover have "insert_here cap src n e = Some e"
    using True shows_length [OF assms(1)] by (auto simp: insert_here_def insert_at_def)
  ultimately show ?thesis using assms(1) by simp
next
  case False
  have fits: "\<not> (n = 0 \<or> length (ed_buf e) + n + 1 > cap)" using False shows_length [OF assms(1)] by simp
  have p: "ed_caret e \<le> length (ed_buf e)" by (rule shows_caret [OF assms(1)])
  let ?e = "e\<lparr>ed_buf := concat (doc_before d) @ concat us @ concat (doc_after d), ed_caret := ed_caret e + n\<rparr>"
  have "insert_here cap src n e = Some ?e"
    using fits p assms(1,4,5) unfolding insert_here_def insert_at_def by (simp add: shows_doc_def)
  moreover have "shows_doc cap (doc_insert cap us d) ?e"
    using assms(1,2,3) False by (auto simp: doc_insert_def shows_doc_def doc_size_def)
  ultimately show ?thesis by blast
qed

lemma type_loop_shows:
  assumes "shows_doc cap d e" "\<forall>ch\<in>set chs. utf8 ch = [] \<or> utf8_char (utf8 ch)"
  shows "\<exists>e' b. type_loop utf8 cap ascii_only e changed chs = Some (e', b, drop 1 (dropWhile (\<lambda>ch. ch \<noteq> 0) chs))
     \<and> shows_doc cap (foldl (\<lambda>d ch. doc_type utf8 cap ch d) d (typed ascii_only chs)) e'
     \<and> b = (changed \<or> typed ascii_only chs \<noteq> []) \<and> (typed ascii_only chs = [] \<longrightarrow> e' = e)"
  using assms
proof (induction chs arbitrary: d e changed)
  case (Cons ch chs)
  show ?case
  proof (cases "ch \<noteq> 0 \<and> accepted ascii_only ch")
    case True
    let ?us = "if utf8 ch = [] then [] else [utf8 ch]"
    have "\<forall>u\<in>set ?us. utf8_char u" "length (utf8 ch) = length (concat ?us)" "take (length (utf8 ch)) (utf8 ch) = concat ?us"
      using Cons.prems(2) by auto
    from shows_insert [OF shows_clear [OF Cons.prems(1)] this]
    obtain e1 where e1: "insert_here cap (utf8 ch) (length (utf8 ch)) (clear_selected e) = Some e1"
      "shows_doc cap (doc_type utf8 cap ch d) e1" by (auto simp: doc_type_def)
    have "\<forall>ch\<in>set chs. utf8 ch = [] \<or> utf8_char (utf8 ch)" using Cons.prems(2) by simp
    from Cons.IH [OF e1(2) this, of True] True e1(1) show ?thesis
      by (auto simp: typed_def accepted_def)
  next
    case False
    with Cons show ?thesis by (auto simp: typed_def accepted_def)
  qed
qed (simp add: typed_def)

text \<open>The characters of the clipboard; a NULL clipboard has none.\<close>

definition clip_text :: "string list \<Rightarrow> string option \<Rightarrow> bool" where
  "clip_text us c \<longleftrightarrow> (\<forall>u\<in>set us. utf8_char u) \<and> (case c of None \<Rightarrow> us = [] | Some s \<Rightarrow> s = concat us)"

lemma pasted_chars:
  assumes "clip_text us c"
  shows "text_input_append_filtered '''' 8192 c allow = take 8191 (concat (filter_chars allow us))"
  using assms append_loop_chars [of us "''''" 8192 allow]
  by (auto simp: clip_text_def text_input_append_filtered_def split: option.splits)

lemma paste_shows:
  assumes d: "shows_doc cap d e" and cap: "cap \<le> 8191" and clip: "clip_text us c"
  shows "\<exists>e'. paste_text cap allow c e = Some e' \<and> shows_doc cap (doc_paste cap (filter_chars allow us) d) e'"
proof -
  let ?fs = "filter_chars allow us"
  let ?e = "clear_selected e" and ?d = "doc_clear d"
  let ?room = "cap - doc_size ?d - 1"
  let ?us = "fitting ?room ?fs"
  let ?s = "take 8191 (concat ?fs)"
  let ?n = "if length ?s > ?room then skip_back ?s ?room else length ?s"
  have cd: "shows_doc cap ?d ?e" by (rule shows_clear [OF d])
  have fits: "doc_size ?d < cap" using cd by (simp add: shows_doc_def)
  have fs: "\<forall>u\<in>set ?fs. utf8_char u" using clip utf8_filter_chars [of us allow] by (simp add: clip_text_def)
  have n: "?n = length (concat ?us)"
  proof (cases "length ?s > ?room")
    case True
    then have "?room < 8191" "?room < length (concat ?fs)" by simp_all
    with True show ?thesis
      using skip_back_fitting [OF fs \<open>?room < length (concat ?fs)\<close>] skip_back_take [of ?room 8191 "concat ?fs"]
      by simp
  next
    case False
    then have "length (concat ?fs) \<le> ?room" "length (concat ?fs) \<le> 8191" using cap fits by auto
    with False show ?thesis using fitting_all [of ?fs ?room] by simp
  qed
  have le: "?n \<le> length ?s"
  proof (cases "length ?s > ?room")
    case True
    then show ?thesis using n length_fitting [of ?room ?fs] by simp
  next
    case False
    then show ?thesis by (simp only: if_False order_refl)
  qed
  have "length (concat ?us) \<le> length ?s" using le unfolding n .
  then have "length (concat ?us) \<le> 8191" by simp
  then have "take (length (concat ?us)) ?s = concat ?us" using take_fitting [of ?room ?fs] by (simp add: min.absorb1)
  then have "take ?n ?s = concat ?us" unfolding n .
  moreover have "\<forall>u\<in>set ?us. utf8_char u" using fs set_fitting [of ?room ?fs] by blast
  ultimately obtain e' where e': "insert_here cap ?s ?n ?e = Some e'" "shows_doc cap (doc_insert cap ?us ?d) e'"
    using shows_insert [OF cd _ n _ le] by blast
  have "doc_insert cap ?us ?d = doc_paste cap ?fs d"
    using length_fitting [of ?room ?fs] fits by (simp add: doc_insert_def doc_paste_def Let_def)
  moreover have "paste_text cap allow c e = insert_here cap ?s ?n ?e"
    using fits by (simp add: paste_text_def pasted_chars [OF clip] shows_length [OF cd] Let_def)
  ultimately show ?thesis using e' by metis
qed

lemma backspace_shows:
  assumes "shows_doc cap d e"
  shows "shows_doc cap (doc_backspace whole d) (backspace whole e)"
proof (cases "doc_all d")
  case True
  with assms show ?thesis
    by (auto simp: backspace_def doc_backspace_def doc_clear_def shows_doc_def doc_size_def)
next
  case False
  show ?thesis
  proof (cases "doc_before d" rule: rev_cases)
    case Nil
    with assms False show ?thesis by (auto simp: backspace_def doc_backspace_def shows_doc_def doc_size_def)
  next
    case (snoc us u)
    have u: "utf8_char u" "u \<noteq> []" using assms snoc utf8_char_ne by (auto simp: shows_doc_def)
    show ?thesis
      using assms False snoc u(2) prev_boundary_char [OF u(1), of "concat us" "concat (doc_after d)"]
      by (auto simp: backspace_def doc_backspace_def shows_doc_def doc_size_def Let_def)
  qed
qed

lemma delete_shows:
  assumes "shows_doc cap d e"
  shows "shows_doc cap (doc_delete whole d) (delete_forward whole e)"
proof (cases "doc_all d")
  case True
  with assms show ?thesis
    by (auto simp: delete_forward_def doc_delete_def doc_clear_def shows_doc_def doc_size_def)
next
  case False
  show ?thesis
  proof (cases "doc_after d")
    case Nil
    with assms False show ?thesis by (auto simp: delete_forward_def doc_delete_def shows_doc_def doc_size_def)
  next
    case (Cons u us)
    have u: "utf8_char u" "\<forall>v\<in>set us. utf8_char v" "u \<noteq> []" using assms Cons utf8_char_ne by (auto simp: shows_doc_def)
    show ?thesis
      using assms False Cons u(3) next_boundary_char [OF u(1,2), of "concat (doc_before d)"]
      by (auto simp: delete_forward_def doc_delete_def shows_doc_def doc_size_def Let_def)
  qed
qed

lemma goto_shows:
  assumes "shows_doc cap d e" "n \<le> length (doc_before d @ doc_after d)"
    "c = length (concat (take n (doc_before d @ doc_after d)))"
  shows "shows_doc cap (doc_goto n d) (e\<lparr>ed_caret := c, ed_all := False\<rparr>)"
proof -
  let ?us = "doc_before d @ doc_after d"
  have "concat (take n ?us) @ concat (drop n ?us) = concat ?us"
    by (metis append_take_drop_id concat_append)
  moreover have "set (take n ?us) \<union> set (drop n ?us) \<subseteq> set ?us"
    by (auto dest: in_set_takeD in_set_dropD)
  ultimately show ?thesis
    using assms by (auto simp: shows_doc_def doc_size_def doc_goto_def Let_def simp del: take_append drop_append)
qed

lemma prev_shows:
  assumes "shows_doc cap d e"
  shows "prev_boundary (ed_buf e) (ed_caret e) = length (concat (take (length (doc_before d) - 1) (doc_before d @ doc_after d)))"
proof (cases "doc_before d" rule: rev_cases)
  case Nil
  with assms show ?thesis by (simp add: shows_doc_def prev_boundary_def)
next
  case (snoc us u)
  with assms have "utf8_char u" by (simp add: shows_doc_def)
  from prev_boundary_char [OF this, of "concat us" "concat (doc_after d)"] assms snoc
  show ?thesis by (simp add: shows_doc_def)
qed

lemma next_shows:
  assumes "shows_doc cap d e"
  shows "next_boundary (ed_buf e) (length (ed_buf e)) (ed_caret e)
       = length (concat (take (length (doc_before d) + 1) (doc_before d @ doc_after d)))"
proof (cases "doc_after d")
  case Nil
  with assms show ?thesis by (simp add: shows_doc_def next_boundary_def)
next
  case (Cons u us)
  with assms have "utf8_char u" "\<forall>v\<in>set us. utf8_char v" by (auto simp: shows_doc_def)
  from next_boundary_char [OF this, of "concat (doc_before d)"] assms Cons
  show ?thesis by (simp add: shows_doc_def)
qed

lemma goto_beyond:
  "length (doc_before d) + length (doc_after d) \<le> n \<Longrightarrow>
     doc_goto n d = doc_goto (length (doc_before d) + length (doc_after d)) d"
  by (simp add: doc_goto_def)

lemma move_shows:
  assumes "shows_doc cap d e"
  shows "shows_doc cap (doc_move kb d) (move_caret kb e)"
proof -
  let ?us = "doc_before d @ doc_after d"
  have all: "ed_all e = doc_all d" using assms by (simp add: shows_doc_def)
  have left: "shows_doc cap (doc_goto (length (doc_before d) - 1) d)
      (e\<lparr>ed_caret := prev_boundary (ed_buf e) (ed_caret e), ed_all := False\<rparr>)"
    by (rule goto_shows [OF assms _ prev_shows [OF assms]]) simp
  have home: "shows_doc cap (doc_goto 0 d) (e\<lparr>ed_caret := 0, ed_all := False\<rparr>)"
    by (rule goto_shows [OF assms]) simp_all
  have fin: "shows_doc cap (doc_goto (length (doc_before d) + length (doc_after d)) d)
      (e\<lparr>ed_caret := length (ed_buf e), ed_all := False\<rparr>)"
    by (rule goto_shows [OF assms]) (use assms in \<open>simp_all add: shows_doc_def\<close>)
  have right: "shows_doc cap (doc_goto (length (doc_before d) + 1) d)
      (e\<lparr>ed_caret := next_boundary (ed_buf e) (length (ed_buf e)) (ed_caret e), ed_all := False\<rparr>)"
  proof (cases "doc_after d")
    case Nil
    then have "next_boundary (ed_buf e) (length (ed_buf e)) (ed_caret e) = length (ed_buf e)"
      using assms by (simp add: shows_doc_def next_boundary_def)
    then show ?thesis using fin Nil goto_beyond [of d "length (doc_before d) + 1"] by simp
  next
    case (Cons u us)
    then have "length (doc_before d) + 1 \<le> length ?us" by simp
    then show ?thesis by (rule goto_shows [OF assms _ next_shows [OF assms]])
  qed
  show ?thesis
    using left right home fin assms by (simp add: move_caret_def doc_move_def all Let_def)
qed

text \<open>Taking typed characters does not change the keys.\<close>

lemma keys_of_chars [simp]:
  "mod_down (kb\<lparr>kb_chars := x\<rparr>) = mod_down kb" "key_hit (kb\<lparr>kb_chars := x\<rparr>) k = key_hit kb k"
  "text_input_paste_pressed (kb\<lparr>kb_chars := x\<rparr>) = text_input_paste_pressed kb"
  by (simp_all add: mod_down_def key_hit_def text_input_paste_pressed_def)

lemma move_caret_chars [simp]: "move_caret (kb\<lparr>kb_chars := x\<rparr>) = move_caret kb"
  by (rule ext) (simp only: move_caret_def keys_of_chars)

lemma move_caret_buf [simp]: "ed_buf (move_caret kb e) = ed_buf e"
  by (simp add: move_caret_def Let_def)

text \<open>
  C31. One frame of keys on a text field whose buffer holds whole UTF-8 characters with the caret
  between two of them does to the buffer exactly what the editor of characters does to the document,
  for every combination of typing, pasting, deleting, selecting and moving: no undefined
  behaviour, the buffer stays NUL-terminated within its capacity, whole characters and the caret
  between two of them. The copy shortcut changes no text and sets the clipboard.
\<close>
theorem text_edit_update_edits:
  assumes "shows_doc cap d e" "cap \<le> 8191" "clip_text clip (kb_clipboard kb)"
    and "\<forall>ch\<in>set (kb_chars kb). utf8 ch = [] \<or> utf8_char (utf8 ch)"
  shows "\<exists>changed e' kb'. text_edit_update utf8 cap allow_newlines ascii_only e kb = Some (changed, e', kb')
     \<and> shows_doc cap (doc_update utf8 cap allow_newlines ascii_only clip kb d) e'
     \<and> (\<not> changed \<longrightarrow> ed_buf e' = ed_buf e)
     \<and> kb' = (if mod_down kb \<and> KEY_C \<in> kb_pressed kb then kb\<lparr>kb_clipboard := Some (ed_buf e)\<rparr>
              else kb\<lparr>kb_chars := drop 1 (dropWhile (\<lambda>ch. ch \<noteq> 0) (kb_chars kb))\<rparr>)"
proof -
  let ?d = "if text_input_select_all_pressed kb then d\<lparr>doc_all := True\<rparr> else d"
  let ?e = "if text_input_select_all_pressed kb then e\<lparr>ed_all := True\<rparr> else e"
  have cap: "cap \<noteq> 0" and le: "\<not> ed_caret e > length (ed_buf e)"
    using assms(1) by (auto simp: shows_doc_def)
  have sel: "shows_doc cap ?d ?e" using assms(1) shows_select by simp
  have buf: "ed_buf ?e = ed_buf e" by simp
  show ?thesis
  proof (cases "mod_down kb \<and> KEY_C \<in> kb_pressed kb")
    case True
    then have "text_edit_update utf8 cap allow_newlines ascii_only e kb
        = Some (False, ?e, kb\<lparr>kb_clipboard := Some (ed_buf e)\<rparr>)"
      using cap le by (simp add: text_edit_update_def text_input_handle_copy_def Let_def)
    moreover have "doc_update utf8 cap allow_newlines ascii_only clip kb d = ?d"
      using True by (simp add: doc_update_def Let_def)
    ultimately show ?thesis using sel True by auto
  next
    case False
    obtain e1 b1 where e1: "type_loop utf8 cap ascii_only ?e False (kb_chars kb)
        = Some (e1, b1, drop 1 (dropWhile (\<lambda>ch. ch \<noteq> 0) (kb_chars kb)))"
      "shows_doc cap (foldl (\<lambda>d ch. doc_type utf8 cap ch d) ?d (typed ascii_only (kb_chars kb))) e1"
      "b1 = (typed ascii_only (kb_chars kb) \<noteq> [])" "\<not> b1 \<longrightarrow> e1 = ?e"
      using type_loop_shows [OF sel assms(4), of ascii_only False] by auto
    let ?d1 = "foldl (\<lambda>d ch. doc_type utf8 cap ch d) ?d (typed ascii_only (kb_chars kb))"
    let ?kb = "kb\<lparr>kb_chars := drop 1 (dropWhile (\<lambda>ch. ch \<noteq> 0) (kb_chars kb))\<rparr>"
    let ?d2 = "if text_input_paste_pressed kb then doc_paste cap (filter_chars allow_newlines clip) ?d1 else ?d1"
    obtain e2 where e2: "(if text_input_paste_pressed kb
         then do { e \<leftarrow> paste_text cap allow_newlines (kb_clipboard kb) e1; Some (e, True) } else Some (e1, b1))
         = Some (e2, text_input_paste_pressed kb \<or> b1)" "shows_doc cap ?d2 e2"
      "\<not> text_input_paste_pressed kb \<longrightarrow> e2 = e1"
      using paste_shows [OF e1(2) assms(2,3), of allow_newlines] e1(2) by (cases "text_input_paste_pressed kb") auto
    let ?e3 = "if key_hit kb KEY_BACKSPACE then backspace (mod_down kb) e2 else e2"
    let ?e4 = "if key_hit kb KEY_DELETE then delete_forward (mod_down kb) ?e3 else ?e3"
    let ?b = "key_hit kb KEY_DELETE \<or> key_hit kb KEY_BACKSPACE \<or> text_input_paste_pressed kb \<or> b1"
    have "text_edit_update utf8 cap allow_newlines ascii_only e kb = Some (?b, move_caret kb ?e4, ?kb)"
    proof (cases "text_input_paste_pressed kb")
      case True
      then have "paste_text cap allow_newlines (kb_clipboard kb) e1 = Some e2" using e2(1) by (auto simp: bind_eq_Some_conv)
      then show ?thesis
        using cap le False e1(1) True
        by (cases "text_input_select_all_pressed kb")
          (simp_all add: text_edit_update_def text_input_handle_copy_def Let_def)
    next
      case paste: False
      then have "e2 = e1" using e2(3) by simp
      then show ?thesis
        using cap le False e1(1) paste
        by (cases "text_input_select_all_pressed kb")
          (simp_all add: text_edit_update_def text_input_handle_copy_def Let_def)
    qed
    moreover have "shows_doc cap (doc_update utf8 cap allow_newlines ascii_only clip kb d) (move_caret kb ?e4)"
    proof -
      let ?d3 = "if key_hit kb KEY_BACKSPACE then doc_backspace (mod_down kb) ?d2 else ?d2"
      have "shows_doc cap ?d3 ?e3" using backspace_shows [OF e2(2)] e2(2) by simp
      then have "shows_doc cap (if key_hit kb KEY_DELETE then doc_delete (mod_down kb) ?d3 else ?d3) ?e4"
        using delete_shows by (cases "key_hit kb KEY_DELETE") simp_all
      from move_shows [OF this, of kb] show ?thesis by (simp only: doc_update_def Let_def False if_False)
    qed
    moreover have "ed_buf (move_caret kb ?e4) = ed_buf e" if "\<not> ?b"
      using that e1(4) e2(3) by (simp add: move_caret_buf)
    ultimately show ?thesis using False by auto
  qed
qed

text \<open>The encoding of a code point in UTF-8; what is not one has no bytes.\<close>

definition encode_utf8 :: "int \<Rightarrow> string" where
  "encode_utf8 ch =
     (let n = nat ch; trail = (\<lambda>k. char_of (0x80 + (n div 64 ^ k) mod 64 :: nat)) in
      if ch < 0 \<or> ch > 0x10FFFF then ''''
      else if n < 0x80 then [char_of n]
      else if n < 0x800 then [char_of (0xC0 + n div 64 :: nat), trail 0]
      else if n < 0x10000 then [char_of (0xE0 + n div 64 ^ 2 :: nat), trail 1, trail 0]
      else [char_of (0xF0 + n div 64 ^ 3 :: nat), trail 2, trail 1, trail 0])"

lemma text_edit_update_edits_witness:
  "\<exists>e'. text_edit_update encode_utf8 16 False False
       \<lparr>ed_buf = [CHR ''a'', CHR 0xC3, CHR 0xA9, CHR ''b''], ed_caret = 3, ed_all = False\<rparr>
       \<lparr>kb_down = {}, kb_pressed = {KEY_LEFT}, kb_repeat = {KEY_BACKSPACE}, kb_chars = [10, 0x20AC, 120],
        kb_clipboard = None\<rparr>
     = Some (True, e', \<lparr>kb_down = {}, kb_pressed = {KEY_LEFT}, kb_repeat = {KEY_BACKSPACE}, kb_chars = [],
        kb_clipboard = None\<rparr>)
     \<and> ed_buf e' = [CHR ''a'', CHR 0xC3, CHR 0xA9, CHR 0xE2, CHR 0x82, CHR 0xAC, CHR ''b''] \<and> ed_caret e' = 3"
proof -
  let ?d = "\<lparr>doc_before = [''a'', [CHR 0xC3, CHR 0xA9]], doc_after = [''b''], doc_all = False\<rparr>"
  let ?e = "\<lparr>ed_buf = [CHR ''a'', CHR 0xC3, CHR 0xA9, CHR ''b''], ed_caret = 3, ed_all = False\<rparr>"
  let ?kb = "\<lparr>kb_down = {}, kb_pressed = {KEY_LEFT}, kb_repeat = {KEY_BACKSPACE}, kb_chars = [10, 0x20AC, 120],
        kb_clipboard = None\<rparr>"
  have 1: "shows_doc 16 ?d ?e"
    by (simp add: shows_doc_def doc_size_def utf8_char_def utf8_width_def nul_def is_cont_iff)
  have 2: "clip_text [] (kb_clipboard ?kb)" by (simp add: clip_text_def)
  have enc: "encode_utf8 10 = [CHR 0x0A]" "encode_utf8 8364 = [CHR 0xE2, CHR 0x82, CHR 0xAC]" "encode_utf8 120 = ''x''"
    by (simp_all add: encode_utf8_def Let_def) (code_simp+)?
  have 3: "\<forall>ch\<in>set (kb_chars ?kb). encode_utf8 ch = [] \<or> utf8_char (encode_utf8 ch)"
    by (simp add: enc utf8_char_def utf8_width_def nul_def is_cont_iff)
  have u: "doc_before (doc_update encode_utf8 16 False False [] ?kb ?d) = [''a'', [CHR 0xC3, CHR 0xA9]]"
    "doc_after (doc_update encode_utf8 16 False False [] ?kb ?d) = [[CHR 0xE2, CHR 0x82, CHR 0xAC], ''b'']"
    by (simp_all add: doc_update_def doc_type_def doc_insert_def doc_size_def doc_clear_def doc_backspace_def doc_move_def
        doc_goto_def typed_def accepted_def key_hit_def mod_down_def text_input_paste_pressed_def
        text_input_select_all_pressed_def enc Let_def)
  obtain changed e' kb' where r: "text_edit_update encode_utf8 16 False False ?e ?kb = Some (changed, e', kb')"
    "shows_doc 16 (doc_update encode_utf8 16 False False [] ?kb ?d) e'" "\<not> changed \<longrightarrow> ed_buf e' = ed_buf ?e"
    "kb' = ?kb\<lparr>kb_chars := drop 1 (dropWhile (\<lambda>ch. ch \<noteq> 0) (kb_chars ?kb))\<rparr>"
    using text_edit_update_edits [OF 1 _ 2 3, of False False] by (auto simp: mod_down_def)
  have e': "ed_buf e' = [CHR ''a'', CHR 0xC3, CHR 0xA9, CHR 0xE2, CHR 0x82, CHR 0xAC, CHR ''b'']" "ed_caret e' = 3"
    using r(2) u by (auto simp: shows_doc_def)
  then have "changed" using r(3) by auto
  with r(1,4) e' show ?thesis by simp
qed

subsection \<open>Display text\<close>

text \<open>The display buffer and the marker's offset; \<open>TEXT_EDIT_NO_MARKER\<close> is \<open>None\<close>.\<close>

definition text_edit_format :: "string \<Rightarrow> nat \<Rightarrow> string option \<Rightarrow> nat \<Rightarrow> bool \<Rightarrow> string \<times> nat option" where
  "text_edit_format out out_cap raw caret show_marker =
     (if out_cap < 6 then (if out_cap > 0 then '''' else out, None)
      else
        let raw = (case raw of None \<Rightarrow> '''' | Some s \<Rightarrow> s);
            len = length raw;
            room = out_cap - 2;
            cut = len > room;
            shown = (if cut then skip_back raw (room - 3) else len);
            pos = (if caret < shown then caret else shown)
        in (take pos raw @ (if show_marker then ''|'' else '''') @ drop pos (take shown raw)
              @ (if cut then ''...'' else ''''),
            if show_marker then Some pos else None))"

lemma skip_back_le: "skip_back s n \<le> n"
  by (induction n) auto

text \<open>The display fits its buffer; text that fits is shown whole, with the marker at the caret.\<close>

lemma text_edit_format_fits:
  "0 < out_cap \<Longrightarrow> length (fst (text_edit_format out out_cap raw caret m)) < out_cap"
  using skip_back_le [of "case raw of None \<Rightarrow> '''' | Some s \<Rightarrow> s" "out_cap - 2 - 3"]
  by (auto simp: text_edit_format_def Let_def)

lemma text_edit_format_whole:
  "6 \<le> out_cap \<Longrightarrow> length raw \<le> out_cap - 2 \<Longrightarrow> caret \<le> length raw \<Longrightarrow>
     text_edit_format out out_cap (Some raw) caret True
       = (take caret raw @ ''|'' @ drop caret raw, Some caret)"
  by (auto simp: text_edit_format_def Let_def)

text \<open>Text that is cut is cut between characters.\<close>

lemma text_edit_format_cut:
  assumes "\<forall>u\<in>set us. utf8_char u" "6 \<le> out_cap" "length (concat us) > out_cap - 2"
  shows "text_edit_format out out_cap (Some (concat us)) caret False
       = (concat (fitting (out_cap - 5) us) @ ''...'', None)"
proof -
  have "skip_back (concat us) (out_cap - 5) = length (concat (fitting (out_cap - 5) us))"
    by (rule skip_back_fitting) (use assms in auto)
  moreover have "take n (concat us) = take n (concat (fitting (out_cap - 5) us))"
    if "n \<le> length (concat (fitting (out_cap - 5) us))" for n
    using that take_fitting [of "out_cap - 5" us] by (metis min.absorb1 take_take)
  ultimately show ?thesis
    using assms(2,3) take_fitting [of "out_cap - 5" us] by (auto simp: text_edit_format_def Let_def)
qed

subsection \<open>Clicks\<close>

text \<open>
  \<open>width\<close> is the width that \<open>MeasureTextEx\<close> gives a text in the field's font and size.
\<close>

definition measure_range :: "(string \<Rightarrow> rat) \<Rightarrow> string \<Rightarrow> nat \<Rightarrow> nat \<Rightarrow> rat" where
  "measure_range width s start stop =
     (let n = stop - start;
          n = (if n \<ge> 4096 then 4095 else n)
      in width (take n (drop start s)))"

text \<open>\<open>while (i < stop && s[i] != c) i++\<close>\<close>

function find_char :: "char \<Rightarrow> string \<Rightarrow> nat \<Rightarrow> nat \<Rightarrow> nat" where
  "find_char c s i fin = (if i < fin \<and> s ! i \<noteq> c then find_char c s (i + 1) fin else i)"
  by pat_completeness auto
termination
  by (relation "measure (\<lambda>(c, s, i, fin). fin - i)") auto

declare find_char.simps [simp del]

lemma find_char_bounds: "i \<le> fin \<Longrightarrow> i \<le> find_char c s i fin \<and> find_char c s i fin \<le> fin"
proof (induction c s i fin rule: find_char.induct)
  case (1 c s i fin)
  then show ?case by (subst (1 2) find_char.simps) auto
qed

lemma find_char_ge: "i \<le> find_char c s i fin"
proof (induction c s i fin rule: find_char.induct)
  case (1 c s i fin)
  then show ?case by (subst find_char.simps) auto
qed

text \<open>The loop over the words of a line that is too wide: the end of the last word that fits.\<close>

function fit_words :: "(string \<Rightarrow> rat) \<Rightarrow> string \<Rightarrow> nat \<Rightarrow> nat \<Rightarrow> rat \<Rightarrow> nat \<Rightarrow> nat \<Rightarrow> nat" where
  "fit_words width display i hard wrap_width w last_fit =
     (if w < hard then
        (let sp = find_char (CHR '' '') display w hard;
             sp = (if sp < hard then sp + 1 else sp)
         in if measure_range width display i sp > wrap_width \<and> last_fit > i then last_fit
            else fit_words width display i hard wrap_width sp sp)
      else last_fit)"
  by pat_completeness auto
termination
proof (relation "measure (\<lambda>(m, display, i, hard, wrap, w, last_fit). hard - w)", goal_cases)
  case (2 m display i hard wrap w last_fit x xa)
  then show ?case using find_char_bounds [of w hard "CHR '' ''" display] by auto
qed simp

declare fit_words.simps [simp del]

lemma fit_words_le: "last_fit \<le> hard \<Longrightarrow> fit_words m display i hard wrap w last_fit \<le> hard"
proof (induction m display i hard wrap w last_fit rule: fit_words.induct)
  case (1 m display i hard wrap w last_fit)
  show ?case
    using "1.prems" "1.IH" find_char_bounds [of w hard "CHR '' ''" display]
    by (subst fit_words.simps) (auto simp: Let_def)
qed

definition line_end :: "(string \<Rightarrow> rat) \<Rightarrow> string \<Rightarrow> rat \<Rightarrow> nat \<Rightarrow> nat \<Rightarrow> nat" where
  "line_end width display wrap_width i hard =
     (if wrap_width > 0 \<and> measure_range width display i hard > wrap_width then
        (let last_fit = fit_words width display i hard wrap_width i i
         in if last_fit > i then last_fit else hard)
      else hard)"

lemma line_end_bounds: "i \<le> hard \<Longrightarrow> i \<le> line_end m display wrap i hard \<and> line_end m display wrap i hard \<le> hard"
  using fit_words_le [of i hard m display i wrap i] by (auto simp: line_end_def Let_def)

lemma line_end_advances: "line_end m display wrap i hard < hard \<Longrightarrow> i < line_end m display wrap i hard"
  by (auto simp: line_end_def Let_def split: if_splits)

text \<open>The loop over the lines: first and last offset of the line that was hit.\<close>

function find_line :: "(string \<Rightarrow> rat) \<Rightarrow> string \<Rightarrow> rat \<Rightarrow> nat \<Rightarrow> nat \<Rightarrow> nat \<Rightarrow> nat \<times> nat" where
  "find_line width display wrap_width target_line line i =
     (let dlen = length display;
          hard = find_char (CHR 0x0A) display i dlen;
          fin = line_end width display wrap_width i hard
      in if line = target_line \<or> fin \<ge> dlen then (i, fin)
         else find_line width display wrap_width target_line (line + 1) (if fin < hard then fin else hard + 1))"
  by pat_completeness auto
termination
proof (relation "measure (\<lambda>(m, display, wrap, target, line, i). length display - i)", goal_cases)
  case (2 m display wrap target line i dlen hard fin)
  have "i \<le> hard" using 2(2) find_char_ge by simp
  then have "i \<le> fin" using 2(3) line_end_bounds by simp
  moreover have "fin < hard \<longrightarrow> i < fin" using 2(3) line_end_advances by simp
  ultimately show ?case using 2(1,4) \<open>i \<le> hard\<close> by auto
qed simp

declare find_line.simps [simp del]

text \<open>
  The loop over the character boundaries of the line; \<open>None\<close> would be a loop that makes no
  progress.
\<close>

function nearest_loop :: "(string \<Rightarrow> rat) \<Rightarrow> string \<Rightarrow> nat \<Rightarrow> nat \<Rightarrow> rat \<Rightarrow> nat \<Rightarrow> nat \<Rightarrow> dbl \<Rightarrow> nat option" where
  "nearest_loop width display ls le rel_x b best best_d =
     (if b \<le> le then
        (let x = measure_range width display ls b;
             d = (if x > rel_x then round_flt (x - rel_x) else round_flt (rel_x - x));
             best' = (if flt_less d best_d then b else best);
             best_d' = (if flt_less d best_d then d else best_d);
             nb = next_boundary display (length display) b
         in if b \<ge> le then Some best'
            else if nb \<le> b then None
            else nearest_loop width display ls le rel_x nb best' best_d')
      else Some best)"
  by pat_completeness auto
termination
  by (relation "measure (\<lambda>(m, display, ls, le, rel_x, b, best, d). Suc le - b)") auto

declare nearest_loop.simps [simp del]

definition text_edit_hit_test :: "(string \<Rightarrow> rat) \<Rightarrow> string \<Rightarrow> nat option \<Rightarrow> rat \<Rightarrow> rat \<Rightarrow> rat \<Rightarrow> rat \<Rightarrow> nat option" where
  "text_edit_hit_test width display marker font_size wrap_width rel_x rel_y = do {
     target_line \<leftarrow>
       (if rel_y > 0 then
          (case round_flt (rel_y / font_size) of
             Fin q \<Rightarrow> if q < 2147483648 then Some (nat \<lfloor>q\<rfloor>) else None
           | _ \<Rightarrow> None)
        else Some 0);
     let (ls, le) = find_line width display wrap_width target_line 0 0;
     best \<leftarrow> nearest_loop width display ls le rel_x ls ls (round_flt (10 ^ 30));
     Some (case marker of None \<Rightarrow> best | Some m \<Rightarrow> if best \<le> m then best else best - 1)
   }"

lemma find_line_bounds:
  "i \<le> length display \<Longrightarrow> find_line w display wrap target line i = (ls, le) \<Longrightarrow> i \<le> ls \<and> ls \<le> le \<and> le \<le> length display"
proof (induction w display wrap target line i rule: find_line.induct)
  case (1 w display wrap target line i)
  let ?hard = "find_char (CHR 0x0A) display i (length display)"
  let ?stop = "line_end w display wrap i ?hard"
  have h: "i \<le> ?hard" "?hard \<le> length display" using find_char_bounds "1.prems"(1) by blast+
  then have e: "i \<le> ?stop" "?stop \<le> ?hard" using line_end_bounds by blast+
  show ?case
  proof (cases "line = target \<or> ?stop \<ge> length display")
    case True
    with "1.prems"(2) h e show ?thesis by (subst (asm) find_line.simps) (auto simp: Let_def)
  next
    case False
    let ?i = "if ?stop < ?hard then ?stop else ?hard + 1"
    have "?i \<le> length display" using False h e by auto
    moreover have "find_line w display wrap target (line + 1) ?i = (ls, le)"
      using "1.prems"(2) False by (subst (asm) find_line.simps) (simp add: Let_def)
    ultimately have "?i \<le> ls \<and> ls \<le> le \<and> le \<le> length display"
      using "1.IH" [OF refl refl refl False] by blast
    with e show ?thesis by (auto split: if_splits)
  qed
qed

lemma skip_conts_ge: "i \<le> skip_conts s len i"
proof (induction s len i rule: skip_conts.induct)
  case (1 s len i)
  then show ?case by (subst skip_conts.simps) auto
qed

lemma next_boundary_gt: "b < len \<Longrightarrow> b < next_boundary s len b"
  using skip_conts_ge [of "b + 1" s len] by (simp add: next_boundary_def)

lemma nearest_loop_runs:
  "le \<le> length display \<Longrightarrow> best \<le> le \<Longrightarrow>
     \<exists>r. nearest_loop w display ls le x b best d = Some r \<and> r \<le> le"
proof (induction w display ls le x b best d rule: nearest_loop.induct)
  case (1 w display ls le x b best d)
  show ?case
  proof (cases "b < le")
    case True
    then have "\<not> next_boundary display (length display) b \<le> b"
      using next_boundary_gt [of b "length display" display] "1.prems"(1) by simp
    with True "1.prems" "1.IH" show ?thesis
      by (subst nearest_loop.simps) (simp add: Let_def)
  next
    case False
    with "1.prems" show ?thesis by (subst nearest_loop.simps) (auto simp: Let_def)
  qed
qed

text \<open>Every click returns an offset into the displayed text.\<close>

lemma hit_test_returns:
  assumes "rel_y \<le> 0 \<or> (\<exists>q. round_flt (rel_y / font_size) = Fin q \<and> q < 2147483648)"
  shows "\<exists>r \<le> length display. text_edit_hit_test w display marker font_size wrap rel_x rel_y = Some r"
proof -
  obtain t where t: "(if rel_y > 0 then
          (case round_flt (rel_y / font_size) of
             Fin q \<Rightarrow> if q < 2147483648 then Some (nat \<lfloor>q\<rfloor>) else None
           | _ \<Rightarrow> None)
        else Some 0) = Some t"
    using assms by (cases "rel_y > 0") auto
  obtain ls le where l: "find_line w display wrap t 0 0 = (ls, le)" by (cases "find_line w display wrap t 0 0")
  then have "ls \<le> le" "le \<le> length display" using find_line_bounds by blast+
  then obtain r where "nearest_loop w display ls le rel_x ls ls (round_flt (10 ^ 30)) = Some r" "r \<le> length display"
    using nearest_loop_runs [of le display ls] by (meson order_trans)
  then show ?thesis
    unfolding text_edit_hit_test_def t by (auto simp: l split: option.splits)
qed

end
