(* ===== verification/Inspector_Diff.thy ===== *)
theory Inspector_Diff
  imports Json_PP "HOL-Library.Sublist"
begin

text \<open>
  The line diff of the inspector (\<open>src/src/ui/inspector_widget.c\<close>): the text identity of a
  pretty-printed line, the table of longest common subsequences, the walk back through it, and the
  merged sequence that the diff view shows. The static arrays are lists with their lengths, the
  static table \<open>s_diff_dp\<close> is a function whose old contents are arbitrary.
\<close>

definition DIFF_MAX_LINES :: nat where [simp]: "DIFF_MAX_LINES = 256"
definition DIFF_LINE_LEN :: nat where [simp]: "DIFF_LINE_LEN = 192"

datatype diff_state = DIFF_UNCHANGED | DIFF_ADDED | DIFF_REMOVED

text \<open>The index -1 is \<open>None\<close>.\<close>

record diff_entry =
  de_curr :: "nat option"
  de_prev :: "nat option"
  de_state :: diff_state

record diff_texts =
  df_prev_text :: "string list"
  df_prev_depth :: "nat list"
  df_curr_text :: "string list"

definition diff_format_line :: "json_line \<Rightarrow> string" where
  "diff_format_line line = snprintf DIFF_LINE_LEN (jl_key line @ jl_sep line @ jl_val line @ jl_trail line)"

definition diff_lines_equal :: "diff_texts \<Rightarrow> nat \<Rightarrow> nat \<Rightarrow> nat list \<Rightarrow> bool" where
  "diff_lines_equal D prev_idx curr_idx curr_depth =
     (if df_prev_depth D ! prev_idx \<noteq> curr_depth ! curr_idx then False
      else df_prev_text D ! prev_idx = df_curr_text D ! curr_idx)"

type_synonym diff_table = "nat \<Rightarrow> nat \<Rightarrow> nat"

definition table_set :: "diff_table \<Rightarrow> nat \<Rightarrow> nat \<Rightarrow> nat \<Rightarrow> diff_table" where
  "table_set dp i j v = dp(i := (dp i)(j := v))"

definition diff_cell :: "(nat \<Rightarrow> nat \<Rightarrow> bool) \<Rightarrow> nat \<Rightarrow> diff_table \<Rightarrow> nat \<Rightarrow> diff_table" where
  "diff_cell eq i dp j =
     (if eq (i - 1) (j - 1) then table_set dp i j (dp (i - 1) (j - 1) + 1)
      else let a = dp (i - 1) j; b = dp i (j - 1) in table_set dp i j (if a > b then a else b))"

definition diff_row :: "(nat \<Rightarrow> nat \<Rightarrow> bool) \<Rightarrow> nat \<Rightarrow> diff_table \<Rightarrow> nat \<Rightarrow> diff_table" where
  "diff_row eq curr_n dp i = foldl (diff_cell eq i) dp [1..<Suc curr_n]"

definition diff_fill :: "(nat \<Rightarrow> nat \<Rightarrow> bool) \<Rightarrow> nat \<Rightarrow> nat \<Rightarrow> diff_table \<Rightarrow> diff_table" where
  "diff_fill eq prev_n curr_n dp =
     (let dp = foldl (\<lambda>dp i. table_set dp i 0 0) dp [0..<Suc prev_n];
          dp = foldl (\<lambda>dp j. table_set dp 0 j 0) dp [0..<Suc curr_n]
      in foldl (diff_row eq curr_n) dp [1..<Suc prev_n])"

function diff_walk :: "(nat \<Rightarrow> nat \<Rightarrow> bool) \<Rightarrow> diff_table \<Rightarrow> nat \<Rightarrow> nat \<Rightarrow> diff_entry list \<Rightarrow> diff_entry list" where
  "diff_walk eq dp i j tmp =
     (if i > 0 \<or> j > 0 then
        (if i > 0 \<and> j > 0 \<and> eq (i - 1) (j - 1) then
           diff_walk eq dp (i - 1) (j - 1)
             (tmp @ [\<lparr>de_curr = Some (j - 1), de_prev = Some (i - 1), de_state = DIFF_UNCHANGED\<rparr>])
         else if j > 0 \<and> (i = 0 \<or> dp i (j - 1) \<ge> dp (i - 1) j) then
           diff_walk eq dp i (j - 1)
             (tmp @ [\<lparr>de_curr = Some (j - 1), de_prev = None, de_state = DIFF_ADDED\<rparr>])
         else
           diff_walk eq dp (i - 1) j
             (tmp @ [\<lparr>de_curr = None, de_prev = Some (i - 1), de_state = DIFF_REMOVED\<rparr>]))
      else tmp)"
  by pat_completeness auto
termination
  by (relation "measure (\<lambda>(eq, dp, i, j, tmp). i + j)") auto

declare diff_walk.simps [simp del]

definition diff_compute :: "diff_texts \<Rightarrow> nat \<Rightarrow> nat \<Rightarrow> nat list \<Rightarrow> diff_table \<Rightarrow> diff_entry list \<times> diff_table" where
  "diff_compute D prev_n curr_n curr_depth dp =
     (let prev_n = (if prev_n > DIFF_MAX_LINES then DIFF_MAX_LINES else prev_n);
          curr_n = (if curr_n > DIFF_MAX_LINES then DIFF_MAX_LINES else curr_n);
          eq = (\<lambda>i j. diff_lines_equal D i j curr_depth);
          dp = diff_fill eq prev_n curr_n dp
      in (rev (diff_walk eq dp prev_n curr_n []), dp))"

subsection \<open>The table\<close>

fun lcs :: "(nat \<Rightarrow> nat \<Rightarrow> bool) \<Rightarrow> nat \<Rightarrow> nat \<Rightarrow> nat" where
  "lcs eq 0 j = 0"
| "lcs eq (Suc i) 0 = 0"
| "lcs eq (Suc i) (Suc j) = (if eq i j then Suc (lcs eq i j) else max (lcs eq i (Suc j)) (lcs eq (Suc i) j))"

lemma lcs_0 [simp]: "lcs eq i 0 = 0"
  by (cases i) simp_all

lemma table_set_apply: "table_set dp i j v a b = (if a = i \<and> b = j then v else dp a b)"
  by (simp add: table_set_def)

lemma zero_column: "foldl (\<lambda>dp i. table_set dp i 0 0) dp [0..<n] a b = (if a < n \<and> b = 0 then 0 else dp a b)"
  by (induction n) (auto simp: table_set_apply)

lemma zero_row: "foldl (\<lambda>dp j. table_set dp 0 j 0) dp [0..<n] a b = (if a = 0 \<and> b < n then 0 else dp a b)"
  by (induction n) (auto simp: table_set_apply)

lemma row_filled:
  assumes "0 < i" "\<forall>b\<le>m. dp (i - 1) b = lcs eq (i - 1) b" "dp i 0 = 0" "k \<le> m"
  shows "foldl (diff_cell eq i) dp [1..<Suc k] a b = (if a = i \<and> b \<le> k then lcs eq i b else dp a b)"
  using assms(4)
proof (induction k arbitrary: a b)
  case 0
  with assms show ?case by auto
next
  case (Suc k)
  obtain h where i: "i = Suc h" using assms(1) by (cases i) auto
  have "foldl (diff_cell eq i) dp [1..<Suc (Suc k)] = diff_cell eq i (foldl (diff_cell eq i) dp [1..<Suc k]) (Suc k)"
    by simp
  with Suc assms(2,3) i show ?case by (auto simp: diff_cell_def table_set_apply Let_def max_def)
qed

lemma rows_filled:
  assumes "\<forall>a\<le>n. dp a 0 = 0" "\<forall>b\<le>m. dp 0 b = 0" "k \<le> n" "a \<le> k" "b \<le> m"
  shows "foldl (diff_row eq m) dp [1..<Suc k] a b = lcs eq a b"
proof -
  have "(\<forall>a\<le>k. \<forall>b\<le>m. foldl (diff_row eq m) dp [1..<Suc k] a b = lcs eq a b)
      \<and> (\<forall>a>k. \<forall>b. foldl (diff_row eq m) dp [1..<Suc k] a b = dp a b)"
    using assms(3)
  proof (induction k)
    case 0
    with assms(1,2) show ?case by auto
  next
    case (Suc k)
    let ?t = "foldl (diff_row eq m) dp [1..<Suc k]"
    have IH: "\<forall>a\<le>k. \<forall>b\<le>m. ?t a b = lcs eq a b" "\<forall>a>k. \<forall>b. ?t a b = dp a b" using Suc by auto
    have "foldl (diff_row eq m) dp [1..<Suc (Suc k)] = foldl (diff_cell eq (Suc k)) ?t [1..<Suc m]"
      by (simp add: diff_row_def)
    moreover have "foldl (diff_cell eq (Suc k)) ?t [1..<Suc m] a b = (if a = Suc k \<and> b \<le> m then lcs eq (Suc k) b else ?t a b)" for a b
      by (rule row_filled [OF _ _ _ order_refl]) (use IH assms(1) Suc.prems in auto)
    ultimately show ?case using IH by (auto simp: le_Suc_eq)
  qed
  with assms(4,5) show ?thesis by blast
qed

lemma diff_fill_lcs:
  assumes "a \<le> n" "b \<le> m"
  shows "diff_fill eq n m dp a b = lcs eq a b"
  unfolding diff_fill_def Let_def
  by (rule rows_filled [of n _ m]) (use assms in \<open>auto simp: zero_row zero_column simp del: upt_Suc\<close>)

subsection \<open>The walk\<close>

lemma diff_walk_append: "diff_walk eq dp i j tmp = tmp @ diff_walk eq dp i j []"
proof (induction "i + j" arbitrary: i j tmp rule: less_induct)
  case less
  have IH: "diff_walk eq dp a b (tmp @ [e]) = tmp @ diff_walk eq dp a b [e]" if "a + b < i + j" for a b e
    using less [OF that, of "tmp @ [e]"] less [OF that, of "[e]"] by simp
  show ?case
    by (subst (1 2) diff_walk.simps) (simp add: IH)
qed

definition walked :: "(nat \<Rightarrow> nat \<Rightarrow> bool) \<Rightarrow> diff_table \<Rightarrow> nat \<Rightarrow> nat \<Rightarrow> diff_entry list" where
  "walked eq dp i j = rev (diff_walk eq dp i j [])"

lemma walked_same:
  "eq h k \<Longrightarrow> walked eq dp (Suc h) (Suc k)
     = walked eq dp h k @ [\<lparr>de_curr = Some k, de_prev = Some h, de_state = DIFF_UNCHANGED\<rparr>]"
  unfolding walked_def by (subst diff_walk.simps, subst diff_walk_append) simp

lemma walked_added:
  "\<not> (i > 0 \<and> eq (i - 1) k) \<Longrightarrow> i = 0 \<or> dp i k \<ge> dp (i - 1) (Suc k) \<Longrightarrow>
     walked eq dp i (Suc k) = walked eq dp i k @ [\<lparr>de_curr = Some k, de_prev = None, de_state = DIFF_ADDED\<rparr>]"
  unfolding walked_def by (subst diff_walk.simps, subst (2) diff_walk_append) auto

lemma walked_removed:
  "\<not> (j > 0 \<and> eq h (j - 1)) \<Longrightarrow> \<not> (j > 0 \<and> dp (Suc h) (j - 1) \<ge> dp h j) \<Longrightarrow>
     walked eq dp (Suc h) j = walked eq dp h j @ [\<lparr>de_curr = None, de_prev = Some h, de_state = DIFF_REMOVED\<rparr>]"
  unfolding walked_def by (subst diff_walk.simps, subst (3) diff_walk_append) auto

lemma walked_Nil: "walked eq dp 0 0 = []"
  unfolding walked_def by (subst diff_walk.simps) simp

text \<open>
  A merged sequence: it shows the lines of both texts in order, an unchanged line once for both,
  and only lines that are equal as unchanged.
\<close>

definition entry_ok :: "(nat \<Rightarrow> nat \<Rightarrow> bool) \<Rightarrow> diff_entry \<Rightarrow> bool" where
  "entry_ok eq e \<longleftrightarrow>
     (case (de_prev e, de_curr e) of
        (Some a, Some b) \<Rightarrow> de_state e = DIFF_UNCHANGED \<and> eq a b
      | (None, Some b) \<Rightarrow> de_state e = DIFF_ADDED
      | (Some a, None) \<Rightarrow> de_state e = DIFF_REMOVED
      | (None, None) \<Rightarrow> False)"

definition merges :: "(nat \<Rightarrow> nat \<Rightarrow> bool) \<Rightarrow> nat \<Rightarrow> nat \<Rightarrow> diff_entry list \<Rightarrow> bool" where
  "merges eq n m es \<longleftrightarrow>
     List.map_filter de_prev es = [0..<n] \<and> List.map_filter de_curr es = [0..<m] \<and> list_all (entry_ok eq) es"

definition unchanged :: "diff_entry list \<Rightarrow> nat" where
  "unchanged es = length (filter (\<lambda>e. de_state e = DIFF_UNCHANGED) es)"

lemma map_filter_append: "List.map_filter f (xs @ ys) = List.map_filter f xs @ List.map_filter f ys"
  by (simp add: List.map_filter_def)

lemma merges_snoc:
  "merges eq n m es \<Longrightarrow> eq n m \<Longrightarrow>
     merges eq (Suc n) (Suc m) (es @ [\<lparr>de_curr = Some m, de_prev = Some n, de_state = DIFF_UNCHANGED\<rparr>])"
  "merges eq n m es \<Longrightarrow> merges eq n (Suc m) (es @ [\<lparr>de_curr = Some m, de_prev = None, de_state = DIFF_ADDED\<rparr>])"
  "merges eq n m es \<Longrightarrow> merges eq (Suc n) m (es @ [\<lparr>de_curr = None, de_prev = Some n, de_state = DIFF_REMOVED\<rparr>])"
  by (simp_all add: merges_def map_filter_append List.map_filter_simps entry_ok_def)

lemma unchanged_snoc [simp]:
  "unchanged (es @ [e]) = unchanged es + (if de_state e = DIFF_UNCHANGED then 1 else 0)"
  by (simp add: unchanged_def)

lemma diff_walk_merges:
  assumes "\<forall>a\<le>i. \<forall>b\<le>j. dp a b = lcs eq a b"
  shows "merges eq i j (walked eq dp i j) \<and> unchanged (walked eq dp i j) = lcs eq i j"
  using assms
proof (induction "i + j" arbitrary: i j rule: less_induct)
  case less
  show ?case
  proof (cases "i > 0 \<and> j > 0 \<and> eq (i - 1) (j - 1)")
    case True
    then obtain h k where hk: "i = Suc h" "j = Suc k" "eq h k" by (cases i; cases j) auto
    have "merges eq h k (walked eq dp h k) \<and> unchanged (walked eq dp h k) = lcs eq h k"
      by (rule less.hyps) (use less.prems hk in auto)
    with hk show ?thesis by (simp add: walked_same merges_snoc(1))
  next
    case diff: False
    show ?thesis
    proof (cases "j > 0 \<and> (i = 0 \<or> dp i (j - 1) \<ge> dp (i - 1) j)")
      case True
      then obtain k where k: "j = Suc k" by (cases j) auto
      have "merges eq i k (walked eq dp i k) \<and> unchanged (walked eq dp i k) = lcs eq i k"
        by (rule less.hyps) (use less.prems k in auto)
      moreover have "lcs eq i j = lcs eq i k"
        using True diff less.prems k by (cases i) (auto simp: max_def)
      ultimately show ?thesis using True diff k by (simp add: walked_added merges_snoc(2))
    next
      case False
      show ?thesis
      proof (cases "i = 0")
        case True
        with False diff show ?thesis by (simp add: walked_Nil merges_def unchanged_def List.map_filter_simps)
      next
        case i: False
        then obtain h where h: "i = Suc h" by (cases i) auto
        have "merges eq h j (walked eq dp h j) \<and> unchanged (walked eq dp h j) = lcs eq h j"
          by (rule less.hyps) (use less.prems h in auto)
        moreover have "lcs eq i j = lcs eq h j"
          using False diff less.prems h by (cases j) (auto simp: max_def)
        ultimately show ?thesis using False diff h by (auto simp: walked_removed merges_snoc(3))
      qed
    qed
  qed
qed

subsection \<open>Longest common subsequences\<close>

lemma subseq_rev: "subseq xs ys \<Longrightarrow> subseq (rev xs) (rev ys)"
  by (induction rule: list_emb.induct) (auto intro: list_emb_append_mono)

lemma subseq_snoc: "subseq (zs @ [z]) (xs @ [x]) \<Longrightarrow> (if z = x then subseq zs xs else subseq (zs @ [z]) xs)"
  using subseq_rev [of "zs @ [z]" "xs @ [x]"] subseq_rev [of "rev zs" "rev xs"] subseq_rev [of "z # rev zs" "rev xs"]
  by (auto split: if_splits)

lemma subseq_snoc_neq: "subseq (zs @ [z]) (xs @ [x]) \<Longrightarrow> z \<noteq> x \<Longrightarrow> subseq (zs @ [z]) xs"
  using subseq_snoc by fastforce

lemma subseq_butlast: "subseq (zs @ [z]) (xs @ [x]) \<Longrightarrow> subseq zs xs"
  using subseq_snoc [of zs z xs x] by (auto split: if_splits intro: subseq_order.trans [of zs "zs @ [z]"])

lemma lcs_upper:
  assumes "i \<le> length P" "j \<le> length C" "\<forall>a<i. \<forall>b<j. eq a b = (P ! a = C ! b)"
    "subseq zs (take i P)" "subseq zs (take j C)"
  shows "length zs \<le> lcs eq i j"
  using assms
proof (induction eq i j arbitrary: zs rule: lcs.induct)
  case (3 eq i j)
  have ti: "take (Suc i) P = take i P @ [P ! i]" and tj: "take (Suc j) C = take j C @ [C ! j]"
    using "3.prems"(1,2) by (simp_all add: take_Suc_conv_app_nth)
  show ?case
  proof (cases zs rule: rev_cases)
    case (snoc ws z)
    show ?thesis
    proof (cases "eq i j")
      case True
      have "length ws \<le> lcs eq i j"
        by (rule "3.IH"(1) [OF True])
          (use "3.prems" snoc ti tj subseq_butlast in auto)
      with True snoc show ?thesis by simp
    next
      case False
      then have ne: "P ! i \<noteq> C ! j" using "3.prems"(3) by auto
      show ?thesis
      proof (cases "z = P ! i")
        case True
        then have "subseq zs (take j C)" using "3.prems"(5) snoc tj ne subseq_snoc_neq [of ws z "take j C" "C ! j"] by simp
        then have "length zs \<le> lcs eq (Suc i) j"
          using "3.prems" by (intro "3.IH"(3) [OF False]) auto
        with False show ?thesis by simp
      next
        case z: False
        then have "subseq zs (take i P)" using "3.prems"(4) snoc ti subseq_snoc_neq [of ws z "take i P" "P ! i"] by simp
        then have "length zs \<le> lcs eq i (Suc j)"
          using "3.prems" by (intro "3.IH"(2) [OF False]) auto
        with False show ?thesis by simp
      qed
    qed
  qed simp
qed auto

lemma map_filter_mem: "x \<in> set xs \<Longrightarrow> f x = Some y \<Longrightarrow> y \<in> set (List.map_filter f xs)"
  by (induction xs) (auto simp: List.map_filter_simps split: option.splits)

lemma entry_unchanged:
  "entry_ok eq e \<Longrightarrow> de_state e = DIFF_UNCHANGED \<Longrightarrow> \<exists>a b. de_prev e = Some a \<and> de_curr e = Some b \<and> eq a b"
  by (cases "de_prev e"; cases "de_curr e") (simp_all add: entry_ok_def)

lemma merges_bounds:
  assumes "merges eq n m es" "e \<in> set es"
  shows "(\<forall>a. de_prev e = Some a \<longrightarrow> a < n) \<and> (\<forall>b. de_curr e = Some b \<longrightarrow> b < m)"
  using assms map_filter_mem [of e es de_prev] map_filter_mem [of e es de_curr] by (auto simp: merges_def)

lemma merges_cong:
  assumes "merges eq n m es" "\<And>a b. a < n \<Longrightarrow> b < m \<Longrightarrow> eq a b = eq' a b"
  shows "merges eq' n m es"
proof -
  have "entry_ok eq' e" if "e \<in> set es" for e
    using that assms(1,2) merges_bounds [OF assms(1) that]
    by (auto simp: merges_def list_all_iff entry_ok_def split: option.splits)
  with assms(1) show ?thesis by (simp add: merges_def list_all_iff)
qed

lemma merges_length:
  assumes "merges eq n m es"
  shows "length es \<le> n + m"
proof -
  have "length es \<le> length (List.map_filter de_prev es) + length (List.map_filter de_curr es)"
    if "list_all (entry_ok eq) es" for es
    using that by (induction es) (auto simp: List.map_filter_simps entry_ok_def split: option.splits)
  with assms show ?thesis unfolding merges_def by (metis diff_zero length_upt)
qed

lemma walk_common:
  assumes "merges eq n m es" "\<forall>a<n. \<forall>b<m. eq a b = (P ! a = C ! b)" "n \<le> length P" "m \<le> length C"
  shows "\<exists>zs. subseq zs (take n P) \<and> subseq zs (take m C) \<and> length zs = unchanged es"
proof -
  let ?u = "filter (\<lambda>e. de_state e = DIFF_UNCHANGED) es"
  have ok: "\<forall>e\<in>set es. entry_ok eq e" using assms(1) by (simp add: merges_def list_all_iff)
  have u: "\<exists>a b. de_prev e = Some a \<and> de_curr e = Some b \<and> eq a b" if "e \<in> set ?u" for e
    using ok that entry_unchanged by auto
  have sub: "subseq (map (the \<circ> f) (filter p xs)) (List.map_filter f xs)"
    if "\<forall>e\<in>set (filter p xs). f e \<noteq> None" for f :: "diff_entry \<Rightarrow> nat option" and p xs
    using that by (induction xs) (auto simp: List.map_filter_simps split: option.splits)
  have sn: "subseq (map (the \<circ> de_prev) ?u) [0..<n]" "subseq (map (the \<circ> de_curr) ?u) [0..<m]"
    using sub [of "\<lambda>e. de_state e = DIFF_UNCHANGED" es de_prev] sub [of "\<lambda>e. de_state e = DIFF_UNCHANGED" es de_curr]
      u assms(1) unfolding merges_def by (metis option.distinct(1))+
  have tk: "map ((!) P) [0..<n] = take n P" "map ((!) C) [0..<m] = take m C"
    using assms(3,4) by (auto intro!: nth_equalityI)
  let ?zs = "map ((!) P) (map (the \<circ> de_prev) ?u)"
  have z1: "subseq ?zs (take n P)" using subseq_map [OF sn(1), of "(!) P"] tk(1) by simp
  have z2: "?zs = map ((!) C) (map (the \<circ> de_curr) ?u)"
    unfolding map_map
  proof (rule map_cong [OF refl])
    fix e assume e: "e \<in> set ?u"
    then obtain a b where ab: "de_prev e = Some a" "de_curr e = Some b" "eq a b" using u by blast
    moreover have "a < n" "b < m" using e ab merges_bounds [OF assms(1), of e] by auto
    ultimately show "((!) P \<circ> (the \<circ> de_prev)) e = ((!) C \<circ> (the \<circ> de_curr)) e" using assms(2) by simp
  qed
  have z3: "subseq (map ((!) C) (map (the \<circ> de_curr) ?u)) (take m C)"
    using subseq_map [OF sn(2), of "(!) C"] tk(2) by simp
  have "length ?zs = unchanged es" by (simp add: unchanged_def)
  with z1 z3 show ?thesis unfolding z2 [symmetric] by blast
qed

text \<open>The texts of two line lists sit in the static arrays, whatever else those hold.\<close>

definition texts_of :: "(nat \<times> string) list \<Rightarrow> (nat \<times> string) list \<Rightarrow> diff_texts \<Rightarrow> nat list \<Rightarrow> bool" where
  "texts_of P C D curr_depth \<longleftrightarrow>
     take (length P) (df_prev_text D) = map snd P \<and> take (length P) (df_prev_depth D) = map fst P
     \<and> take (length C) (df_curr_text D) = map snd C \<and> take (length C) curr_depth = map fst C"

lemma nth_of_take: "take n xs = ys \<Longrightarrow> i < length ys \<Longrightarrow> xs ! i = ys ! i"
  by (metis length_take min_less_iff_conj nth_take)

lemma lines_equal_iff:
  assumes "texts_of P C D curr_depth" "i < length P" "j < length C"
  shows "diff_lines_equal D i j curr_depth = (P ! i = C ! j)"
proof -
  have "df_prev_text D ! i = snd (P ! i)" "df_prev_depth D ! i = fst (P ! i)"
    "df_curr_text D ! j = snd (C ! j)" "curr_depth ! j = fst (C ! j)"
    using assms by (auto simp: texts_of_def dest: nth_of_take)
  then show ?thesis by (auto simp: diff_lines_equal_def prod_eq_iff)
qed

text \<open>
  C32. The diff of two line lists of at most 256 lines is a merged sequence: all lines of both
  texts in their order, equal lines (text and indentation) shown once, the others as removed or
  added, and the number of unchanged lines is the length of a longest common subsequence, whatever
  the static arrays and the table held before. It has at most 512 entries.
\<close>
theorem diff_compute_longest:
  assumes "texts_of P C D curr_depth" "length P \<le> 256" "length C \<le> 256"
  shows "merges (\<lambda>i j. P ! i = C ! j) (length P) (length C) (fst (diff_compute D (length P) (length C) curr_depth dp))
     \<and> (\<forall>zs. subseq zs P \<longrightarrow> subseq zs C \<longrightarrow>
            length zs \<le> unchanged (fst (diff_compute D (length P) (length C) curr_depth dp)))
     \<and> (\<exists>zs. subseq zs P \<and> subseq zs C \<and>
            length zs = unchanged (fst (diff_compute D (length P) (length C) curr_depth dp)))
     \<and> length (fst (diff_compute D (length P) (length C) curr_depth dp)) \<le> 512"
proof -
  let ?eq = "\<lambda>i j. diff_lines_equal D i j curr_depth"
  let ?n = "length P" and ?m = "length C"
  let ?es = "fst (diff_compute D ?n ?m curr_depth dp)"
  have es: "?es = walked ?eq (diff_fill ?eq ?n ?m dp) ?n ?m"
    using assms(2,3) by (simp add: diff_compute_def walked_def Let_def)
  have eqs: "\<forall>a<?n. \<forall>b<?m. ?eq a b = (P ! a = C ! b)" using lines_equal_iff [OF assms(1)] by simp
  have w: "merges ?eq ?n ?m ?es" "unchanged ?es = lcs ?eq ?n ?m"
    unfolding es using diff_walk_merges [of ?n ?m _ ?eq] diff_fill_lcs by blast+
  have upper: "length zs \<le> unchanged ?es" if "subseq zs P" "subseq zs C" for zs
    using lcs_upper [of ?n P ?m C ?eq zs] eqs that w(2) by simp
  have lower: "\<exists>zs. subseq zs P \<and> subseq zs C \<and> length zs = unchanged ?es"
    using walk_common [OF w(1) eqs] by simp
  have "length ?es \<le> 512" using merges_length [OF w(1)] assms(2,3) by simp
  moreover have "merges (\<lambda>i j. P ! i = C ! j) ?n ?m ?es" by (rule merges_cong [OF w(1)]) (use eqs in blast)
  ultimately show ?thesis using upper lower by (intro conjI allI impI)
qed

lemma diff_compute_longest_witness:
  "\<exists>zs. subseq zs [(0 :: nat, ''{''), (1, ''a: 1,''), (1, ''b: 2''), (0, ''}'')]
     \<and> subseq zs [(0, ''{''), (1, ''b: 2,''), (1, ''b: 2''), (1, ''c: 3''), (0, ''}'')]
     \<and> length zs = 3"
proof -
  let ?P = "[(0 :: nat, ''{''), (1, ''a: 1,''), (1, ''b: 2''), (0, ''}'')]"
  let ?C = "[(0 :: nat, ''{''), (1, ''b: 2,''), (1, ''b: 2''), (1, ''c: 3''), (0, ''}'')]"
  let ?D = "\<lparr>df_prev_text = map snd ?P @ [''stale''], df_prev_depth = map fst ?P @ [7], df_curr_text = map snd ?C\<rparr>"
  have 1: "texts_of ?P ?C ?D (map fst ?C)" by (simp add: texts_of_def)
  have "unchanged (fst (diff_compute ?D 4 5 (map fst ?C) (\<lambda>_ _. 9))) = 3" by code_simp
  moreover have len: "length ?P = 4" "length ?C = 5" by simp_all
  have "\<exists>zs. subseq zs ?P \<and> subseq zs ?C \<and> length zs = unchanged (fst (diff_compute ?D 4 5 (map fst ?C) (\<lambda>_ _. 9)))"
    using diff_compute_longest [OF 1, of "\<lambda>_ _. 9"] unfolding len by simp
  ultimately show ?thesis by metis
qed

subsection \<open>The diff view\<close>

text \<open>
  \<open>render_json_diff_view\<close> of a frame: the baseline and the cached merged sequence are static
  variables, the payload and its length, the time stamps and the node come from the topic tree.
  Its result is the rows that it lays out; a removed row shows the text stored for the previous
  payload. A payload longer than the baseline buffer would overflow it, which is \<open>None\<close>.
\<close>

definition DIFF_PAYLOAD_CAP :: nat where [simp]: "DIFF_PAYLOAD_CAP = 16384"

record diff_view =
  dv_prev_payload :: string
  dv_prev_node :: "nat option"
  dv_prev_ts :: u64
  dv_texts :: diff_texts
  dv_depths :: "nat list"
  dv_table :: diff_table
  dv_merged :: "diff_entry list"

datatype pp_row = PlainText | NoPayload | PPLine nat diff_state | PPRemoved nat nat | PPTruncated

definition overwrite :: "'a list \<Rightarrow> 'a list \<Rightarrow> 'a list" where
  "overwrite new old = new @ drop (length new) old"

definition plain_rows :: "json_pp \<Rightarrow> nat \<Rightarrow> pp_row list" where
  "plain_rows pp start = map (\<lambda>li. PPLine li DIFF_UNCHANGED) [start..<length (jp_lines pp)]"

definition truncation_row :: "json_pp \<Rightarrow> pp_row list" where
  "truncation_row pp = (if length (jp_lines pp) \<ge> JSON_PP_MAX_LINES then [PPTruncated] else [])"

definition merged_row :: "nat \<Rightarrow> diff_entry \<Rightarrow> pp_row list" where
  "merged_row k e =
     (if de_state e = DIFF_REMOVED then (case de_prev e of Some p \<Rightarrow> [PPRemoved k p] | None \<Rightarrow> [])
      else (case de_curr e of Some c \<Rightarrow> [PPLine c (de_state e)] | None \<Rightarrow> []))"

text \<open>The lines of an instance that take part in the diff, \<open>curr_n\<close> or \<open>prev_n\<close> of them.\<close>

definition diff_head :: "json_pp \<Rightarrow> json_line list" where
  "diff_head pp = take DIFF_MAX_LINES (jp_lines pp)"

definition diff_update :: "json_pp \<Rightarrow> string \<Rightarrow> u64 \<Rightarrow> json_pp \<Rightarrow> diff_view \<Rightarrow> (diff_view \<times> json_pp) option" where
  "diff_update pp src ts pp_prev v =
     (let curr = diff_head pp;
          depths = overwrite (map jl_depth curr) (dv_depths v)
      in case json_pp_run_len pp_prev (dv_prev_payload v) (length (dv_prev_payload v)) of
           None \<Rightarrow> None
         | Some pp_prev \<Rightarrow>
             (let prev = diff_head pp_prev;
                  D = \<lparr>df_prev_text = overwrite (map diff_format_line prev) (df_prev_text (dv_texts v)),
                       df_prev_depth = overwrite (map jl_depth prev) (df_prev_depth (dv_texts v)),
                       df_curr_text = overwrite (map diff_format_line curr) (df_curr_text (dv_texts v))\<rparr>;
                  (es, dp) = diff_compute D (length prev) (length curr) depths (dv_table v)
              in Some (v\<lparr>dv_texts := D, dv_depths := depths, dv_merged := es, dv_table := dp,
                         dv_prev_payload := src, dv_prev_ts := ts\<rparr>, pp_prev)))"

definition render_json_diff_view :: "nat \<Rightarrow> nat option \<times> string \<Rightarrow> u64 \<Rightarrow> u64 \<Rightarrow> json_pp \<Rightarrow> json_pp \<Rightarrow> diff_view
    \<Rightarrow> (pp_row list \<times> json_pp \<times> json_pp \<times> diff_view) option" where
  "render_json_diff_view node src display_us ts pp pp_prev v =
     (if snd src = '''' then Some ([NoPayload], pp, pp_prev, v)
      else if \<not> json_pp_looks_like_json (Some (snd src)) then Some ([PlainText], pp, pp_prev, v)
      else case json_pp_run_cached pp src (length (snd src)) display_us of
        None \<Rightarrow> None
      | Some (_, pp) \<Rightarrow>
          if jp_lines pp = [] then Some ([PlainText], pp, pp_prev, v)
          else if length (snd src) > DIFF_PAYLOAD_CAP then None
          else case (if dv_prev_node v \<noteq> Some node
                     then Some (v\<lparr>dv_prev_node := Some node, dv_prev_ts := ts, dv_prev_payload := snd src,
                                  dv_merged := []\<rparr>, pp_prev)
                     else if dv_prev_ts v \<noteq> ts then diff_update pp (snd src) ts pp_prev v
                     else Some (v, pp_prev)) of
                 None \<Rightarrow> None
               | Some (v, pp_prev) \<Rightarrow>
                   Some ((if dv_merged v = [] then plain_rows pp 0
                          else concat (map (\<lambda>k. merged_row k (dv_merged v ! k)) [0..<length (dv_merged v)])
                               @ plain_rows pp DIFF_MAX_LINES) @ truncation_row pp,
                         pp, pp_prev, v))"

lemma take_overwrite [simp]: "take (length xs) (overwrite (map f xs) old) = map f xs"
  by (simp add: overwrite_def)

text \<open>The lines that a pretty-printed payload contributes to the diff.\<close>

definition diff_lines :: "json_pp \<Rightarrow> (nat \<times> string) list" where
  "diff_lines pp = map (\<lambda>l. (jl_depth l, diff_format_line l)) (diff_head pp)"

text \<open>When a message arrives, the view is given the diff between the previous payload and this one.\<close>

lemma diff_update_texts:
  assumes "json_pp_run_len pp_prev (dv_prev_payload v) (length (dv_prev_payload v)) = Some pp1"
  shows "\<exists>v'. diff_update pp src ts pp_prev v = Some (v', pp1)
     \<and> texts_of (diff_lines pp1) (diff_lines pp) (dv_texts v') (dv_depths v')
     \<and> dv_merged v' = fst (diff_compute (dv_texts v') (length (diff_lines pp1)) (length (diff_lines pp))
          (dv_depths v') (dv_table v))
     \<and> dv_prev_payload v' = src"
  using assms by (auto simp: diff_update_def texts_of_def diff_lines_def Let_def comp_def split: prod.split)

end
