(* ===== verification/App_State.thy ===== *)
theory App_State
  imports Mqtt_Client Message_Buf Topic_Tree Chart_Series Broker_Profile Float32
begin

text \<open>
  \<open>src/src/model/app_state.h\<close> and \<open>app_state.c\<close>: the root state of the program. The struct is
  one record, built up in the groups of its declaration; a pointer to a node of the topic tree is
  the node's address, \<open>None\<close> for NULL; a \<open>float\<close> is a \<open>Float32\<close> value. The message queue and
  the connection log are shared with the MQTT client by pointer.
\<close>

abbreviation MAX_SUBSCRIPTIONS :: nat where "MAX_SUBSCRIPTIONS \<equiv> 32"
abbreviation TOPIC_TREE_CAPACITY :: u32 where "TOPIC_TREE_CAPACITY \<equiv> 4096"
abbreviation HISTORY_CAPACITY :: u32 where "HISTORY_CAPACITY \<equiv> 32768"
abbreviation CONN_LOG_CAPACITY :: u32 where "CONN_LOG_CAPACITY \<equiv> 5000"
abbreviation MSG_QUEUE_CAPACITY :: u32 where "MSG_QUEUE_CAPACITY \<equiv> 4096"
abbreviation CHART_MAX_SERIES :: nat where "CHART_MAX_SERIES \<equiv> 16"

datatype app_conn_state = CONN_DISCONNECTED | CONN_CONNECTING | CONN_CONNECTED | CONN_RECONNECTING | CONN_ERROR

datatype sub_state = SUB_STATE_ACTIVE | SUB_STATE_PAUSED

datatype view_mode = VIEW_JSON | VIEW_CBOR | VIEW_HEX | VIEW_HISTORY

record active_subscription =
  sb_topic_filter :: string
  sb_qos :: u8
  sb_state :: sub_state

record app_model =
  as_topic_tree :: topic_tree
  as_global_history :: message_buf
  as_conn_log :: connection_log
  as_msg_queue :: "mqtt_message spsc_queue"

record app_connection = app_model +
  as_conn_state :: app_conn_state
  as_conn_error :: string
  as_ping_rtt_ms :: dbl
  as_broker_host :: string
  as_broker_port :: u16
  as_subscriptions :: "active_subscription list"
  as_subscription_count :: int

record app_ui = app_connection +
  as_selected_topic :: "addr option"
  as_publish_panel_open :: bool
  as_log_panel_open :: bool
  as_log_focused :: bool
  as_log_sel_anchor :: int
  as_log_sel_cursor :: int
  as_profile_dialog_open :: bool
  as_about_dialog_open :: bool
  as_topic_filter :: string
  as_topic_filter_focused :: bool
  as_topic_filter_all_selected :: bool
  as_topic_filter_search_mode :: bool
  as_tree_width_ratio :: dbl
  as_diff_enabled :: bool

record app_requests = app_ui +
  as_disconnect_requested :: bool
  as_clear_topic_requested :: "addr option"
  as_context_menu_open :: bool
  as_context_menu_target :: "addr option"
  as_context_menu_x :: dbl
  as_context_menu_y :: dbl
  as_export_requested :: bool
  as_export_topic :: string
  as_export_path :: string

record app_panels = app_requests +
  as_publish_topic :: string
  as_publish_payload :: string
  as_publish_qos :: u8
  as_publish_retain :: bool
  as_publish_active_field :: int
  as_publish_field_all_selected :: bool
  as_inspector_view :: view_mode
  as_inspector_frozen :: bool
  as_frozen_message :: slot

record app_state = app_panels +
  as_profiles :: "broker_profile list"
  as_profile_count :: int
  as_active_profile_idx :: int
  as_profile_active_field :: int
  as_profile_last_idx :: int
  as_profile_field_all_selected :: bool
  as_profile_save_flash_timer :: dbl
  as_total_topics :: u32
  as_total_messages :: u64
  as_msgs_per_sec :: dbl
  as_chart_series :: "chart_series list"

text \<open>All bytes zero, apart from the structures that \<open>app_state_init\<close> initialises itself.\<close>

definition zeroed_app :: "app_model \<Rightarrow> app_state" where
  "zeroed_app m =
     \<lparr>as_topic_tree = as_topic_tree m, as_global_history = as_global_history m,
      as_conn_log = as_conn_log m, as_msg_queue = as_msg_queue m,
      as_conn_state = CONN_DISCONNECTED, as_conn_error = '''', as_ping_rtt_ms = Fin 0,
      as_broker_host = '''', as_broker_port = 0,
      as_subscriptions = replicate MAX_SUBSCRIPTIONS \<lparr>sb_topic_filter = '''', sb_qos = 0, sb_state = SUB_STATE_ACTIVE\<rparr>,
      as_subscription_count = 0,
      as_selected_topic = None, as_publish_panel_open = False, as_log_panel_open = False,
      as_log_focused = False, as_log_sel_anchor = 0, as_log_sel_cursor = 0,
      as_profile_dialog_open = False, as_about_dialog_open = False, as_topic_filter = '''',
      as_topic_filter_focused = False, as_topic_filter_all_selected = False,
      as_topic_filter_search_mode = False, as_tree_width_ratio = Fin 0, as_diff_enabled = False,
      as_disconnect_requested = False, as_clear_topic_requested = None, as_context_menu_open = False,
      as_context_menu_target = None, as_context_menu_x = Fin 0, as_context_menu_y = Fin 0,
      as_export_requested = False, as_export_topic = '''', as_export_path = '''',
      as_publish_topic = '''', as_publish_payload = '''', as_publish_qos = 0, as_publish_retain = False,
      as_publish_active_field = 0, as_publish_field_all_selected = False,
      as_inspector_view = VIEW_JSON, as_inspector_frozen = False, as_frozen_message = zero_record,
      as_profiles = replicate 32 zero_profile, as_profile_count = 0, as_active_profile_idx = 0,
      as_profile_active_field = 0, as_profile_last_idx = 0, as_profile_field_all_selected = False,
      as_profile_save_flash_timer = Fin 0, as_total_topics = 0, as_total_messages = 0,
      as_msgs_per_sec = Fin 0, as_chart_series = replicate CHART_MAX_SERIES chart_series_reset\<rparr>"

definition app_state_init :: app_state where
  "app_state_init =
     (zeroed_app \<lparr>as_topic_tree = topic_tree_init TOPIC_TREE_CAPACITY,
                  as_global_history = message_buf_init HISTORY_CAPACITY,
                  as_conn_log = connection_log_init CONN_LOG_CAPACITY,
                  as_msg_queue = spsc_queue_init MSG_QUEUE_CAPACITY\<rparr>)
       \<lparr>as_conn_state := CONN_DISCONNECTED, as_log_panel_open := True, as_log_sel_anchor := - 1,
        as_log_sel_cursor := - 1, as_tree_width_ratio := flt (2 / 5), as_active_profile_idx := - 1,
        as_profile_active_field := - 1, as_profile_last_idx := - 2\<rparr>"

text \<open>\<open>None\<close> when freeing the history is undefined.\<close>

definition app_state_destroy :: "heap \<times> app_state \<Rightarrow> (heap \<times> app_state) option" where
  "app_state_destroy s =
     (let (h, st) = s; st = st\<lparr>as_topic_tree := topic_tree_destroy (as_topic_tree st)\<rparr> in
      case message_buf_destroy (h, as_global_history st) of
        None \<Rightarrow> None
      | Some (h, buf) \<Rightarrow>
          Some (h, st\<lparr>as_global_history := buf, as_conn_log := connection_log_destroy (as_conn_log st),
                      as_msg_queue := spsc_queue_destroy (as_msg_queue st)\<rparr>))"

end
