(* ===== verification/Chart_Panel.thy ===== *)
theory Chart_Panel
  imports App_State Json_PP
begin

text \<open>
  \<open>src/src/ui/chart_panel.c\<close>: which series the panel shows in which cell, and the capture of
  samples from incoming messages. The cards and the plots are in \<open>Drawing.thy\<close>.
\<close>

subsection \<open>Cells\<close>

definition chart_panel_grid :: "nat \<Rightarrow> nat \<times> nat" where
  "chart_panel_grid n =
     (if n \<le> 1 then (1, 1) else if n \<le> 4 then (2, (n + 1) div 2) else if n \<le> 9 then (3, (n + 2) div 3)
      else (4, (n + 3) div 4))"

text \<open>\<open>seen\<close> counts the active series before slot \<open>s\<close>; -1 is \<open>None\<close>.\<close>

fun active_loop :: "nat \<Rightarrow> nat \<Rightarrow> nat \<Rightarrow> chart_series list \<Rightarrow> nat option" where
  "active_loop i seen s [] = None"
| "active_loop i seen s (c # cs) =
     (if \<not> cs_active c then active_loop i seen (s + 1) cs
      else if seen = i then Some s
      else active_loop i (seen + 1) (s + 1) cs)"

definition chart_panel_active_at :: "app_state \<Rightarrow> nat \<Rightarrow> nat option" where
  "chart_panel_active_at st i = active_loop i 0 0 (as_chart_series st)"

definition chart_panel_has_active :: "app_state \<Rightarrow> bool" where
  "chart_panel_has_active st \<longleftrightarrow> list_ex cs_active (as_chart_series st)"

definition chart_label :: "chart_series \<Rightarrow> string" where
  "chart_label ser = (if cs_dot_path ser \<noteq> '''' then cs_dot_path ser else ''(payload)'')"

text \<open>Where the active series are.\<close>

definition active_slots :: "chart_series list \<Rightarrow> nat list" where
  "active_slots cs = filter (\<lambda>s. cs_active (cs ! s)) [0..<length cs]"

lemma active_loop_nth:
  "active_loop i seen s cs =
     (let xs = map (\<lambda>k. k + s) (active_slots cs)
      in if seen \<le> i \<and> i - seen < length xs then Some (xs ! (i - seen)) else None)" if "seen \<le> i"
  using that
proof (induction cs arbitrary: seen s)
  case (Cons c cs)
  have slots: "active_slots (c # cs) = (if cs_active c then [0] else []) @ map Suc (active_slots cs)"
  proof -
    have "[0..<length (c # cs)] = 0 # map Suc [0..<length cs]" by (simp add: map_Suc_upt upt_conv_Cons del: upt_Suc)
    then show ?thesis by (simp add: active_slots_def filter_map comp_def)
  qed
  show ?case
  proof (cases "cs_active c \<and> seen < i")
    case True
    then have "Suc seen \<le> i" "i - seen = Suc (i - Suc seen)" by auto
    with True Cons.IH [of "Suc seen" "Suc s"] show ?thesis by (auto simp: slots Let_def nth_append)
  next
    case False
    with Cons.IH [of seen "Suc s"] Cons.prems show ?thesis by (auto simp: slots Let_def nth_append)
  qed
qed (simp add: active_slots_def)

lemma length_active_slots: "length (active_slots cs) = length (filter cs_active cs)"
proof -
  have "filter cs_active (map ((!) cs) [0..<length cs]) = map ((!) cs) (active_slots cs)"
    by (simp add: active_slots_def filter_map comp_def)
  then show ?thesis by (simp add: map_nth)
qed

lemma active_at_nth:
  "chart_panel_active_at st i =
     (if i < length (active_slots (as_chart_series st)) then Some (active_slots (as_chart_series st) ! i) else None)"
  by (simp add: chart_panel_active_at_def active_loop_nth Let_def)

lemma grid_room: "0 < n \<Longrightarrow> n \<le> fst (chart_panel_grid n) * snd (chart_panel_grid n)"
  by (auto simp: chart_panel_grid_def)

subsection \<open>Conversions between float and double\<close>

definition flt_of_dbl :: "dbl \<Rightarrow> dbl" where
  "flt_of_dbl x = (case x of Fin r \<Rightarrow> round_flt r | _ \<Rightarrow> x)"

definition dbl_div :: "dbl \<Rightarrow> dbl \<Rightarrow> dbl" where
  "dbl_div x y = (case (x, y) of (Fin a, Fin b) \<Rightarrow> if b = 0 then Nan else round_dbl (a / b) | _ \<Rightarrow> Nan)"

subsection \<open>Capturing samples\<close>

text \<open>
  The loop over the slots; \<open>formatted\<close> says whether the payload is already pretty-printed in
  the static instance \<open>pp\<close>.
\<close>

fun capture_loop :: "string \<Rightarrow> bytes \<Rightarrow> u64 \<Rightarrow> bool \<Rightarrow> json_pp \<Rightarrow> chart_series list \<Rightarrow> (json_pp \<times> chart_series list) option" where
  "capture_loop topic payload ts_us formatted pp [] = Some (pp, [])"
| "capture_loop topic payload ts_us formatted pp (s # ss) =
     (if \<not> cs_active s \<or> cs_topic s \<noteq> topic then
        map_option (\<lambda>(pp, ss). (pp, s # ss)) (capture_loop topic payload ts_us formatted pp ss)
      else
        case (if formatted then Some pp else json_pp_run_len pp (map char_of_byte payload) (length payload)) of
          None \<Rightarrow> None
        | Some pp \<Rightarrow>
            (case json_pp_number_at pp (cs_dot_path s) of
               None \<Rightarrow> None
             | Some v \<Rightarrow>
                 (let s' = (case v of None \<Rightarrow> s | Some x \<Rightarrow> snd (chart_series_push_sample s ts_us x))
                  in map_option (\<lambda>(pp, ss). (pp, s' # ss)) (capture_loop topic payload ts_us True pp ss))))"

definition chart_panel_capture_sample ::
    "string \<Rightarrow> bytes option \<Rightarrow> u64 \<Rightarrow> json_pp \<times> app_state \<Rightarrow> (json_pp \<times> app_state) option" where
  "chart_panel_capture_sample topic payload ts_us s =
     (let (pp, st) = s in
      case payload of
        None \<Rightarrow> Some s
      | Some p \<Rightarrow>
          if p = [] then Some s
          else map_option (\<lambda>(pp, ss). (pp, st\<lparr>as_chart_series := ss\<rparr>))
                 (capture_loop topic p ts_us False pp (as_chart_series st)))"

text \<open>Capturing keeps every series well-formed, and touches no other topic's series.\<close>

lemma capture_loop_inv:
  "\<forall>s\<in>set ss. series_inv s \<Longrightarrow> capture_loop topic p ts formatted pp ss = Some (pp', ss') \<Longrightarrow>
     (\<forall>s\<in>set ss'. series_inv s) \<and> length ss' = length ss
     \<and> (\<forall>i<length ss. \<not> cs_active (ss ! i) \<or> cs_topic (ss ! i) \<noteq> topic \<longrightarrow> ss' ! i = ss ! i)"
proof (induction ss arbitrary: formatted pp pp' ss')
  case (Cons s ss)
  show ?case
  proof (cases "\<not> cs_active s \<or> cs_topic s \<noteq> topic")
    case True
    then obtain ts' where t: "capture_loop topic p ts formatted pp ss = Some (pp', ts')" "ss' = s # ts'"
      using Cons.prems(2) by auto
    with Cons.IH [OF _ t(1)] Cons.prems(1) show ?thesis by (auto simp: nth_Cons split: nat.split)
  next
    case False
    then obtain pp1 where pp1: "(if formatted then Some pp else json_pp_run_len pp (map char_of_byte p) (length p)) = Some pp1"
      using Cons.prems(2) by (cases "if formatted then Some pp else json_pp_run_len pp (map char_of_byte p) (length p)") auto
    obtain v where v: "json_pp_number_at pp1 (cs_dot_path s) = Some v"
      using Cons.prems(2) False pp1 by (cases "json_pp_number_at pp1 (cs_dot_path s)") auto
    obtain ts' where t: "capture_loop topic p ts True pp1 ss = Some (pp', ts')"
      "ss' = (case v of None \<Rightarrow> s | Some x \<Rightarrow> snd (chart_series_push_sample s ts x)) # ts'"
      using Cons.prems(2) False pp1 v by (auto simp: Let_def)
    have "series_inv (case v of None \<Rightarrow> s | Some x \<Rightarrow> snd (chart_series_push_sample s ts x))"
      using Cons.prems(1) push_inv [of s ts] by (auto split: option.split)
    with t Cons.IH [OF _ t(1)] Cons.prems(1) False show ?thesis by (auto simp: nth_Cons split: nat.split)
  qed
qed auto

lemma capture_inv:
  assumes "\<forall>s\<in>set (as_chart_series st). series_inv s"
    and "chart_panel_capture_sample topic payload ts (pp, st) = Some (pp', st')"
  shows "(\<forall>s\<in>set (as_chart_series st'). series_inv s) \<and> length (as_chart_series st') = length (as_chart_series st)"
  using assms capture_loop_inv [of "as_chart_series st" topic _ ts False pp]
  by (fastforce simp: chart_panel_capture_sample_def split: option.splits if_splits)

end
