(* ===== verification/Main_Loop.thy ===== *)
theory Main_Loop
  imports Chart_Panel Csv_Export Db Text_Edit
begin

text \<open>
  \<open>src/src/main.c\<close>: start-up, the work of one frame outside of drawing, and shutdown. The local
  variables of \<open>main\<close> and the static ones of its loop are a state beside the application state,
  the client, the heap and the database handle. While the client lives, the message queue and the
  connection log of the application state are those the client holds, by pointer. Raylib's and
  Clay's answers (times, sizes, keys, element boxes) are arguments. Undefined behaviour is
  \<open>None\<close>.
\<close>

record main_state =
  mn_app :: app_state
  mn_mqtt :: cstate
  mn_heap :: heap
  mn_db :: "db option"
  mn_saved :: u64
  mn_batch :: "slot list"
  mn_pp :: json_pp
  mn_save_timer :: dbl
  mn_frame_avg :: dbl
  mn_rate_acc :: dbl
  mn_rate_timer :: dbl
  mn_tpt_acc :: dbl
  mn_tpt_timer :: dbl
  mn_tpt_node :: "addr option"

definition update_node :: "addr \<Rightarrow> (topic_node \<Rightarrow> topic_node) \<Rightarrow> topic_tree \<Rightarrow> topic_tree option" where
  "update_node a f t = map_option (\<lambda>n. set_node a (f n) t) (node_at t a)"

subsection \<open>Start-up\<close>

text \<open>
  \<open>atoi\<close>: leading white space, a sign, digits. A value that is no \<open>int\<close> is undefined.
\<close>

definition atoi :: "string \<Rightarrow> int option" where
  "atoi s =
     (let r = dropWhile c_space s;
          neg = (r \<noteq> [] \<and> hd r = CHR ''-'');
          r = (if r \<noteq> [] \<and> (hd r = CHR ''-'' \<or> hd r = CHR ''+'') then tl r else r);
          n = int (digits_val 10 (takeWhile is_digit r));
          i = (if neg then - n else n)
      in if - (2 ^ 31) \<le> i \<and> i < 2 ^ 31 then Some i else None)"

definition atof :: "string \<Rightarrow> dbl" where
  "atof s = (case strtod s of Some (v, e) \<Rightarrow> v | None \<Rightarrow> Fin 0)"

definition int_of_flt :: "dbl \<Rightarrow> int option" where
  "int_of_flt x =
     (case x of
        Fin r \<Rightarrow> (let i = (if r < 0 then - \<lfloor>- r\<rfloor> else \<lfloor>r\<rfloor>) in if - (2 ^ 31) \<le> i \<and> i < 2 ^ 31 then Some i else None)
      | _ \<Rightarrow> None)"

text \<open>The size given to \<open>SetWindowSize\<close>, if it is called.\<close>

definition fit_window :: "int \<times> int \<Rightarrow> dbl \<times> dbl \<Rightarrow> int \<Rightarrow> int \<Rightarrow> (int \<times> int) option option" where
  "fit_window monitor dpi w h = do {
     let sx = (if flt_less (flt (1 / 2)) (fst dpi) then fst dpi else Fin 1);
     let sy = (if flt_less (flt (1 / 2)) (snd dpi) then snd dpi else Fin 1);
     mon_w \<leftarrow> int_of_flt (flt_div (round_flt (of_int (fst monitor))) sx);
     mon_h \<leftarrow> int_of_flt (flt_div (round_flt (of_int (snd monitor))) sy);
     let mon_w = (if mon_w > 60 then mon_w - 60 else mon_w);
     let mon_h = (if mon_h > 120 then mon_h - 120 else mon_h);
     let w = (if w > mon_w then mon_w else w);
     let h = (if h > mon_h then mon_h else h);
     Some (if w \<ge> 900 \<and> h \<ge> 600 then Some (w, h) else None)
   }"

text \<open>
  \<open>db_get_setting\<close> returns its fallback or a pointer to the one buffer inside the handle, so both
  results are read when that buffer holds what the last call left in it.
\<close>

definition restore_window :: "int \<times> int \<Rightarrow> dbl \<times> dbl \<Rightarrow> db option \<Rightarrow> ((int \<times> int) option \<times> db option) option" where
  "restore_window monitor dpi handle =
     (let (w_str, handle) = db_get_setting handle (Some ''window_width'') None;
          (h_str, handle) = db_get_setting handle (Some ''window_height'') None
      in case (w_str, h_str, handle) of
           (Some _, Some _, Some d) \<Rightarrow> do {
             w \<leftarrow> atoi (db_setting_value d);
             h \<leftarrow> atoi (db_setting_value d);
             size \<leftarrow> fit_window monitor dpi w h;
             Some (size, handle)
           }
         | _ \<Rightarrow> Some (None, handle))"

definition restore_ratio :: "db option \<Rightarrow> dbl \<Rightarrow> dbl \<times> db option" where
  "restore_ratio handle ratio =
     (let (ratio_str, handle) = db_get_setting handle (Some ''tree_width_ratio'') None in
      case ratio_str of
        None \<Rightarrow> (ratio, handle)
      | Some s \<Rightarrow>
          (let r = flt_of_dbl (atof s) in
           (if dbl_le (flt (1 / 10)) r \<and> dbl_le r (flt (9 / 10)) then r else ratio, handle)))"

text \<open>The loop over the loaded records, oldest first: push, free the loaded payload.\<close>

fun load_history_loop :: "slot list \<Rightarrow> heap \<times> message_buf \<Rightarrow> (heap \<times> message_buf) option" where
  "load_history_loop [] s = Some s"
| "load_history_loop (r # rs) (h, buf) = do {
     x \<leftarrow> load_record h r;
     (h, buf) \<leftarrow> message_buf_push x (h, buf);
     h \<leftarrow> heap_free (mr_payload r) h;
     load_history_loop rs (h, buf)
   }"

definition load_history :: "(message_row list \<Rightarrow> message_row list) \<Rightarrow> db option \<Rightarrow> heap \<times> message_buf
    \<Rightarrow> (heap \<times> message_buf \<times> u64 \<times> db option) option" where
  "load_history by_time handle s =
     (let (h, buf) = s; (loaded, records, h, handle) = db_load_messages by_time handle h (replicate 200 zero_record) 200 in
      do {
        (h, buf) \<leftarrow> load_history_loop (rev (take loaded records)) (h, buf);
        Some (h, buf, message_buf_generation buf, handle)
      })"

text \<open>
  Everything before the loop; \<open>w\<close> is the world of the client. The second result is the restored
  window size. A client that could not be allocated ends the model.
\<close>

definition main_init :: "(message_row list \<Rightarrow> message_row list) \<Rightarrow> int \<times> int \<Rightarrow> dbl \<times> dbl \<Rightarrow> db option \<Rightarrow> heap \<Rightarrow> net
    \<Rightarrow> json_pp \<Rightarrow> slot list \<Rightarrow> (main_state \<times> (int \<times> int) option) option" where
  "main_init by_time monitor dpi handle h w pp batch =
     (let st = app_state_init in
      do {
        (st, h, saved, handle, size) \<leftarrow>
          (if handle = None then Some (st, h, 0, handle, None)
           else do {
             (n, profiles, handle) \<leftarrow> db_load_profiles handle (as_profiles st) 32;
             (size, handle) \<leftarrow> restore_window monitor dpi handle;
             let (ratio, handle) = restore_ratio handle (as_tree_width_ratio st);
             (h, buf, saved, handle) \<leftarrow> load_history by_time handle (h, as_global_history st);
             Some (st\<lparr>as_profiles := profiles, as_profile_count := int n, as_tree_width_ratio := ratio,
                     as_global_history := buf\<rparr>, h, saved, handle, size)
           });
        (c, w) \<leftarrow> (case mqtt_client_new (as_msg_queue st) (as_conn_log st) w of
                    (None, w) \<Rightarrow> None | (Some c, w) \<Rightarrow> Some (c, w));
        Some (\<lparr>mn_app = st, mn_mqtt = (c, w), mn_heap = h, mn_db = handle, mn_saved = saved, mn_batch = batch,
               mn_pp = pp, mn_save_timer = Fin 0, mn_frame_avg = flt (1 / 60), mn_rate_acc = Fin 0,
               mn_rate_timer = Fin 0, mn_tpt_acc = Fin 0, mn_tpt_timer = Fin 0, mn_tpt_node = None\<rparr>, size)
      })"

subsection \<open>Incoming messages\<close>

definition ui_tick :: "dbl \<Rightarrow> dbl \<Rightarrow> dbl \<times> u64 option" where
  "ui_tick dt frame_avg =
     (let avg = flt_add (flt_mul frame_avg (flt (19 / 20))) (flt_mul dt (flt (1 / 20)));
          t = flt_mul (flt 7) avg;
          t = (if flt_less t (flt (1 / 4)) then flt (1 / 4) else t)
      in (avg, u64_of_flt (flt_mul t (flt 1000000))))"

definition refresh_ancestor :: "u64 \<Rightarrow> u64 \<Rightarrow> topic_node \<Rightarrow> topic_node" where
  "refresh_ancestor tick ts n =
     (let n = n\<lparr>tn_last_subtree_message_ts := ts\<rparr> in
      if tn_subtree_message_count n = 1 \<or> ts - tn_last_subtree_display_update_us n \<ge> tick
      then n\<lparr>tn_last_subtree_display_update_us := ts, tn_subtree_count_str := sum_badge (tn_subtree_message_count n)\<rparr>
      else n)"

definition arrival :: "mqtt_message \<Rightarrow> topic_node \<Rightarrow> topic_node" where
  "arrival m n = n\<lparr>tn_last_payload_len := mm_payload_len m, tn_last_qos := mm_qos m,
     tn_has_retained := (mm_retained m \<or> tn_has_retained n)\<rparr>"

text \<open>The payload with its length.\<close>

definition payload_of :: "mqtt_message \<Rightarrow> bytes option" where
  "payload_of m = map_option (take (unat (mm_payload_len m))) (mm_payload m)"

definition refresh_display :: "u64 \<Rightarrow> mqtt_message \<Rightarrow> addr \<Rightarrow> topic_tree \<Rightarrow> topic_tree option" where
  "refresh_display tick m node t = do {
     n \<leftarrow> node_at t node;
     if tn_message_count n = 1 \<or> mm_timestamp_us m - tn_last_display_update_us n \<ge> tick then do {
       t \<leftarrow> update_node node (\<lambda>n. n\<lparr>tn_last_display_update_us := mm_timestamp_us m,
              tn_msg_count_str := snprintf 16 (dec (unat (tn_message_count n)))\<rparr>) t;
       topic_node_payload_set node (payload_of m) t
     } else Some t
   }"

text \<open>The record for the history ring; fields that the initialiser leaves out are zero.\<close>

definition history_record :: "app_state \<Rightarrow> mqtt_message \<Rightarrow> string \<Rightarrow> bytes option message_record" where
  "history_record st m path =
     \<lparr>mr_timestamp_us = mm_timestamp_us m, mr_topic = path, mr_payload = mm_payload m,
      mr_payload_len = mm_payload_len m, mr_qos = mm_qos m, mr_retained = mm_retained m, mr_dup = False,
      mr_broker_id = (if as_active_profile_idx st \<ge> 0 \<and> as_active_profile_idx st < as_profile_count st
                      then word_of_int (bp_id (as_profiles st ! nat (as_active_profile_idx st))) else 0),
      mr_preview = (case payload_of m of
                      None \<Rightarrow> '''' | Some p \<Rightarrow> fst (util_preview_sanitize '''' 512 p))\<rparr>"

definition process_message :: "u64 \<Rightarrow> mqtt_message \<Rightarrow> main_state \<Rightarrow> main_state option" where
  "process_message tick m s = do {
     let st = mn_app s;
     (node, t) \<leftarrow> topic_tree_insert (as_topic_tree st) (mm_topic m);
     case node of
       None \<Rightarrow> Some (s\<lparr>mn_app := st\<lparr>as_topic_tree := t\<rparr>\<rparr>)
     | Some node \<Rightarrow> do {
         t \<leftarrow> topic_node_count_message node t;
         t \<leftarrow> update_node node (\<lambda>n. n\<lparr>tn_last_message_ts := mm_timestamp_us m\<rparr>) t;
         t \<leftarrow> walk_up (refresh_ancestor tick (mm_timestamp_us m)) (Some node) t;
         t \<leftarrow> update_node node (arrival m) t;
         t \<leftarrow> refresh_display tick m node t;
         path \<leftarrow> topic_node_full_path node '''' 256 t;
         (h, buf) \<leftarrow> message_buf_push (history_record st m path) (mn_heap s, as_global_history st);
         (pp, st) \<leftarrow> chart_panel_capture_sample path (payload_of m) (mm_timestamp_us m)
            (mn_pp s, st\<lparr>as_topic_tree := t, as_global_history := buf\<rparr>);
         Some (s\<lparr>mn_app := st\<lparr>as_total_messages := as_total_messages st + 1\<rparr>, mn_heap := h, mn_pp := pp,
                mn_tpt_acc := (if as_selected_topic st = Some node then flt_add (mn_tpt_acc s) (Fin 1) else mn_tpt_acc s)\<rparr>)
       }
   }"

fun process_messages :: "u64 \<Rightarrow> mqtt_message list \<Rightarrow> main_state \<Rightarrow> main_state option" where
  "process_messages tick [] s = Some s"
| "process_messages tick (m # ms) s = do { s \<leftarrow> process_message tick m s; process_messages tick ms s }"

definition drain_queue :: "u64 \<Rightarrow> main_state \<Rightarrow> (nat \<times> main_state) option" where
  "drain_queue tick s = do {
     let (c, w) = mn_mqtt s;
     (msgs, q) \<leftarrow> spsc_queue_drain 256 (mc_msg_queue c);
     s \<leftarrow> process_messages tick msgs (s\<lparr>mn_mqtt := (c\<lparr>mc_msg_queue := q\<rparr>, w)\<rparr>);
     let st = mn_app s;
     Some (length msgs, s\<lparr>mn_app := st\<lparr>as_total_topics := topic_tree_count (as_topic_tree st)\<rparr>\<rparr>)
   }"

text \<open>Messages per second, of all topics and of the selected one.\<close>

definition update_rates :: "dbl \<Rightarrow> nat \<Rightarrow> main_state \<Rightarrow> main_state" where
  "update_rates dt msg_count s =
     (let acc = flt_add (mn_rate_acc s) (round_flt (of_nat msg_count)); timer = flt_add (mn_rate_timer s) dt in
      if dbl_le (Fin 1) timer
      then s\<lparr>mn_app := (mn_app s)\<lparr>as_msgs_per_sec := flt_div acc timer\<rparr>, mn_rate_acc := Fin 0, mn_rate_timer := Fin 0\<rparr>
      else s\<lparr>mn_rate_acc := acc, mn_rate_timer := timer\<rparr>)"

definition set_throughput :: "dbl \<Rightarrow> main_state \<Rightarrow> main_state option" where
  "set_throughput v s =
     (case mn_tpt_node s of
        None \<Rightarrow> Some s
      | Some a \<Rightarrow> map_option (\<lambda>t. s\<lparr>mn_app := (mn_app s)\<lparr>as_topic_tree := t\<rparr>\<rparr>)
                   (update_node a (\<lambda>n. n\<lparr>tn_throughput := v\<rparr>) (as_topic_tree (mn_app s))))"

definition update_throughput :: "dbl \<Rightarrow> main_state \<Rightarrow> main_state option" where
  "update_throughput dt s = do {
     s \<leftarrow> (if as_selected_topic (mn_app s) \<noteq> mn_tpt_node s
           then set_throughput (Fin 0) (s\<lparr>mn_tpt_node := as_selected_topic (mn_app s), mn_tpt_acc := Fin 0, mn_tpt_timer := Fin 0\<rparr>)
           else Some s);
     let s = s\<lparr>mn_tpt_timer := flt_add (mn_tpt_timer s) dt\<rparr>;
     if dbl_le (Fin 1) (mn_tpt_timer s)
     then map_option (\<lambda>s. s\<lparr>mn_tpt_acc := Fin 0, mn_tpt_timer := Fin 0\<rparr>)
            (set_throughput (flt_div (mn_tpt_acc s) (mn_tpt_timer s)) s)
     else Some s
   }"

subsection \<open>Requests\<close>

text \<open>
  The topic's rows: the history is first brought up to date in the database, so that no unsaved
  record of the topic is written after the deletion.
\<close>

definition clear_rows :: "(message_row list \<Rightarrow> message_row list) \<Rightarrow> string \<Rightarrow> message_buf \<Rightarrow> main_state
    \<Rightarrow> (db option \<times> u64 \<times> slot list) option" where
  "clear_rows by_time path buf s =
     (if mn_db s \<noteq> None then do {
        (handle, saved, batch) \<leftarrow> db_flush_history by_time (mn_db s) (mn_heap s) buf (mn_saved s, mn_batch s);
        Some (snd (db_delete_topic_messages handle (Some path)), saved, batch)
      }
      else Some (mn_db s, mn_saved s, mn_batch s))"

definition handle_clear_topic :: "(message_row list \<Rightarrow> message_row list) \<Rightarrow> main_state \<Rightarrow> main_state option" where
  "handle_clear_topic by_time s =
     (case as_clear_topic_requested (mn_app s) of
        None \<Rightarrow> Some s
      | Some node \<Rightarrow> do {
          let st = (mn_app s)\<lparr>as_clear_topic_requested := None\<rparr>;
          path \<leftarrow> topic_node_full_path node '''' 512 (as_topic_tree st);
          (handle, saved, batch) \<leftarrow> clear_rows by_time path (as_global_history st) s;
          (removed, h, buf) \<leftarrow> message_buf_remove_topic path (mn_heap s, as_global_history st);
          (_, t) \<leftarrow> topic_node_clear_messages node (as_topic_tree st);
          let total = as_total_messages st;
          Some (s\<lparr>mn_app := st\<lparr>as_topic_tree := t, as_global_history := buf,
                              as_total_messages := (if total > ucast removed then total - ucast removed else 0)\<rparr>,
                 mn_heap := h, mn_db := handle, mn_saved := message_buf_generation buf, mn_batch := batch\<rparr>)
        })"

definition handle_disconnect :: "main_state \<Rightarrow> main_state option" where
  "handle_disconnect s =
     (if as_disconnect_requested (mn_app s) then do {
        let st = (mn_app s)\<lparr>as_disconnect_requested := False\<rparr>;
        mqtt \<leftarrow> mqtt_client_disconnect (mn_mqtt s);
        let t = topic_tree_destroy (as_topic_tree st);
        let t = topic_tree_init TOPIC_TREE_CAPACITY;
        (h, buf) \<leftarrow> message_buf_clear (mn_heap s, as_global_history st);
        Some (s\<lparr>mn_app := st\<lparr>as_topic_tree := t, as_global_history := buf, as_selected_topic := None,
                  as_total_topics := 0, as_total_messages := 0, as_topic_filter := '''',
                  as_topic_filter_focused := False, as_profile_dialog_open := True\<rparr>,
               mn_mqtt := mqtt, mn_heap := h, mn_saved := message_buf_generation buf,
               mn_tpt_node := None, mn_tpt_acc := Fin 0, mn_tpt_timer := Fin 0\<rparr>)
      }
      else Some s)"

text \<open>
  \<open>file\<close> is what \<open>fopen\<close> gives: nothing, or a stream with what \<open>fclose\<close> will answer;
  \<open>err\<close> is the text of \<open>errno\<close>. The second result is what was written to the file.
\<close>

definition handle_export :: "(nat \<Rightarrow> nat \<times> nat \<times> nat \<times> nat \<times> nat \<times> nat) \<Rightarrow> (stream \<times> bool) option \<Rightarrow> string \<Rightarrow> main_state
    \<Rightarrow> (main_state \<times> string option) option" where
  "handle_export gm file err s =
     (if as_export_requested (mn_app s) then do {
        let st = (mn_app s)\<lparr>as_export_requested := False\<rparr>;
        let failed = snprintf 1400 (''CSV export failed: '' @ err);
        case file of
          None \<Rightarrow> do {
            mqtt \<leftarrow> client_log CONN_LOG_ERROR failed (mn_mqtt s);
            Some (s\<lparr>mn_app := st, mn_mqtt := mqtt\<rparr>, None)
          }
        | Some (f, close_ok) \<Rightarrow> do {
            (rows, f) \<leftarrow> csv_export_write gm (mn_heap s, as_global_history st) (Some (as_export_topic st)) f;
            mqtt \<leftarrow> (if rows < 0 \<or> \<not> close_ok then client_log CONN_LOG_ERROR failed (mn_mqtt s)
                     else client_log CONN_LOG_INFO (snprintf 1400 (''Exported '' @ dec_int rows @ '' messages to '' @ as_export_path st)) (mn_mqtt s));
            Some (s\<lparr>mn_app := st, mn_mqtt := mqtt\<rparr>, Some (fst f))
          }
      }
      else Some (s, None))"

subsection \<open>Connection state and periodic flush\<close>

definition derive_conn_state :: "mqtt_client \<Rightarrow> app_conn_state" where
  "derive_conn_state c =
     (if mqtt_client_is_connected c then CONN_CONNECTED
      else if mqtt_client_is_connecting c then CONN_CONNECTING
      else if mqtt_client_last_disconnect_rc c \<noteq> 0 then CONN_RECONNECTING
      else CONN_DISCONNECTED)"

definition poll_connection :: "main_state \<Rightarrow> main_state option" where
  "poll_connection s = do {
     mqtt \<leftarrow> mqtt_client_poll_ssh_tunnel (mn_mqtt s);
     Some (s\<lparr>mn_mqtt := mqtt, mn_app := (mn_app s)\<lparr>as_conn_state := derive_conn_state (fst mqtt)\<rparr>\<rparr>)
   }"

definition flush_history :: "(message_row list \<Rightarrow> message_row list) \<Rightarrow> main_state \<Rightarrow> main_state option" where
  "flush_history by_time s = do {
     (handle, saved, batch) \<leftarrow> db_flush_history by_time (mn_db s) (mn_heap s) (as_global_history (mn_app s)) (mn_saved s, mn_batch s);
     Some (s\<lparr>mn_db := handle, mn_saved := saved, mn_batch := batch\<rparr>)
   }"

definition periodic_flush :: "(message_row list \<Rightarrow> message_row list) \<Rightarrow> dbl \<Rightarrow> main_state \<Rightarrow> main_state option" where
  "periodic_flush by_time dt s =
     (let s = s\<lparr>mn_save_timer := flt_add (mn_save_timer s) dt\<rparr> in
      if mn_db s \<noteq> None \<and> dbl_le (Fin 5) (mn_save_timer s)
      then flush_history by_time (s\<lparr>mn_save_timer := Fin 0\<rparr>)
      else Some s)"

subsection \<open>Keyboard and mouse\<close>

definition shortcuts :: "keyboard \<Rightarrow> app_state \<Rightarrow> app_state option" where
  "shortcuts kb st =
     (let ctrl = KEY_LEFT_CONTROL \<in> kb_down kb; pressed = (\<lambda>k. k \<in> kb_pressed kb) in
      if ctrl \<and> pressed KEY_P then
        (if \<not> as_publish_panel_open st then
           (case as_selected_topic st of
              None \<Rightarrow> Some (st\<lparr>as_publish_panel_open := True\<rparr>)
            | Some node \<Rightarrow>
                map_option (\<lambda>path. st\<lparr>as_publish_topic := path, as_publish_panel_open := True\<rparr>)
                  (topic_node_full_path node (as_publish_topic st) 256 (as_topic_tree st)))
         else Some (st\<lparr>as_publish_panel_open := False\<rparr>))
      else if ctrl \<and> pressed KEY_L then Some (st\<lparr>as_log_panel_open := (\<not> as_log_panel_open st)\<rparr>)
      else if pressed KEY_P \<and> \<not> as_profile_dialog_open st \<and> \<not> as_about_dialog_open st \<and> \<not> as_publish_panel_open st
              \<and> \<not> as_topic_filter_focused st
      then Some (st\<lparr>as_profile_dialog_open := (\<not> as_profile_dialog_open st)\<rparr>)
      else Some st)"

record box =
  bx_x :: dbl
  bx_y :: dbl
  bx_width :: dbl
  bx_height :: dbl

definition ui_utils_bbox_contains :: "box \<Rightarrow> dbl \<Rightarrow> dbl \<Rightarrow> bool" where
  "ui_utils_bbox_contains b x y \<longleftrightarrow> dbl_le (bx_x b) x \<and> dbl_le x (flt_add (bx_x b) (bx_width b))
     \<and> dbl_le (bx_y b) y \<and> dbl_le y (flt_add (bx_y b) (bx_height b))"

text \<open>
  The mouse wheel over the tree panel: the scroll position of the tree (with the heights of its
  content and of its viewport) and the delta that is left for Clay. \<open>panel\<close> is the box of the
  panel and \<open>scroll\<close> the data of the container, if Clay found them.
\<close>

definition tree_wheel :: "app_state \<Rightarrow> dbl \<Rightarrow> dbl \<times> dbl \<Rightarrow> box option \<Rightarrow> (dbl \<times> dbl \<times> dbl) option
    \<Rightarrow> (dbl \<times> dbl \<times> dbl) option \<times> dbl" where
  "tree_wheel st wheel_raw mouse panel scroll =
     (let delta = flt_mul wheel_raw (Fin 3);
          modal_open = (as_profile_dialog_open st \<or> as_about_dialog_open st \<or> as_publish_panel_open st \<or> as_context_menu_open st)
      in if wheel_raw \<noteq> Fin 0 \<and> \<not> modal_open then
           (case panel of
              None \<Rightarrow> (scroll, delta)
            | Some b \<Rightarrow>
                if ui_utils_bbox_contains b (fst mouse) (snd mouse) then
                  (map_option (\<lambda>(y, content, viewport).
                     (let y = flt_add y (flt_mul wheel_raw (Fin 30));
                          min_y = flt_neg (flt_sub content viewport);
                          min_y = (if flt_less (Fin 0) min_y then Fin 0 else min_y);
                          y = (if flt_less (Fin 0) y then Fin 0 else y);
                          y = (if flt_less y min_y then min_y else y)
                      in (y, content, viewport))) scroll, Fin 0)
                else (scroll, delta))
         else (scroll, delta))"

text \<open>
  The buttons of the inspector's header after layout: boxes of the close, diff and CSV buttons if
  they were laid out, and what \<open>export_path_resolve\<close> answers for a topic.
\<close>

definition hit :: "box option \<Rightarrow> dbl \<times> dbl \<Rightarrow> bool" where
  "hit b mouse \<longleftrightarrow> (case b of None \<Rightarrow> False | Some b \<Rightarrow> ui_utils_bbox_contains b (fst mouse) (snd mouse))"

definition inspector_buttons :: "(string \<Rightarrow> bool \<times> string) \<Rightarrow> bool \<Rightarrow> dbl \<times> dbl \<Rightarrow> box option \<Rightarrow> box option \<Rightarrow> box option
    \<Rightarrow> main_state \<Rightarrow> main_state option" where
  "inspector_buttons resolve pressed mouse close_btn diff_btn export_btn s =
     (let st = mn_app s in
      if as_selected_topic st \<noteq> None \<and> pressed then
        (let st = (if hit close_btn mouse then st\<lparr>as_selected_topic := None\<rparr> else st);
             st = (if hit diff_btn mouse then st\<lparr>as_diff_enabled := (\<not> as_diff_enabled st)\<rparr> else st)
         in case as_selected_topic st of
              None \<Rightarrow> Some (s\<lparr>mn_app := st\<rparr>)
            | Some node \<Rightarrow>
                if hit export_btn mouse then do {
                  topic \<leftarrow> topic_node_full_path node (as_export_topic st) 256 (as_topic_tree st);
                  let (ok, path) = resolve topic;
                  let st = st\<lparr>as_export_topic := topic, as_export_path := path\<rparr>;
                  if ok then Some (s\<lparr>mn_app := st\<lparr>as_export_requested := True\<rparr>\<rparr>)
                  else do {
                    mqtt \<leftarrow> client_log CONN_LOG_ERROR ''CSV export failed: no writable destination directory'' (mn_mqtt s);
                    Some (s\<lparr>mn_app := st, mn_mqtt := mqtt\<rparr>)
                  }
                }
                else Some (s\<lparr>mn_app := st\<rparr>))
      else Some s)"

text \<open>The remove buttons of the chart cards.\<close>

definition chart_remove_buttons :: "bool \<Rightarrow> dbl \<times> dbl \<Rightarrow> (nat \<Rightarrow> box option) \<Rightarrow> app_state \<Rightarrow> app_state" where
  "chart_remove_buttons pressed mouse button st =
     (if pressed then
        st\<lparr>as_chart_series := map (\<lambda>(si, s). if cs_active s \<and> hit (button si) mouse then chart_series_reset else s)
             (zip [0..<length (as_chart_series st)] (as_chart_series st))\<rparr>
      else st)"

subsection \<open>A frame, and shutdown\<close>

record frame_input =
  fi_dt :: dbl
  fi_keyboard :: keyboard
  fi_file :: "(stream \<times> bool) option"
  fi_errno :: string

text \<open>
  The handlers of a frame in their order, between the shortcuts and the layout; \<open>ui\<close> is what the
  widgets and the buttons then do to the state.
\<close>

definition main_frame :: "(message_row list \<Rightarrow> message_row list) \<Rightarrow> (nat \<Rightarrow> nat \<times> nat \<times> nat \<times> nat \<times> nat \<times> nat)
    \<Rightarrow> (main_state \<Rightarrow> 'a option) \<Rightarrow> frame_input \<Rightarrow> main_state \<Rightarrow> 'a option" where
  "main_frame by_time gm ui fi s = do {
     let (avg, tick) = ui_tick (fi_dt fi) (mn_frame_avg s);
     tick \<leftarrow> tick;
     st \<leftarrow> shortcuts (fi_keyboard fi) (mn_app s);
     (msg_count, s) \<leftarrow> drain_queue tick (s\<lparr>mn_app := st, mn_frame_avg := avg\<rparr>);
     s \<leftarrow> update_throughput (fi_dt fi) (update_rates (fi_dt fi) msg_count s);
     s \<leftarrow> handle_clear_topic by_time s;
     s \<leftarrow> handle_disconnect s;
     (s, _) \<leftarrow> handle_export gm (fi_file fi) (fi_errno fi) s;
     s \<leftarrow> poll_connection s;
     s \<leftarrow> periodic_flush by_time (fi_dt fi) s;
     ui s
   }"

text \<open>\<open>"%.4f"\<close> of a finite value, as its exact value rounds.\<close>

definition fixed4 :: "dbl \<Rightarrow> string" where
  "fixed4 x =
     (case x of
        Fin r \<Rightarrow> (let n = nat (round_even (\<bar>r\<bar> * 10000))
                  in (if r < 0 then ''-'' else '''') @ dec (n div 10000) @ ''.'' @ pad0 4 (dec (n mod 10000)))
      | Inf b \<Rightarrow> if b then ''-inf'' else ''inf''
      | Nan \<Rightarrow> ''nan'')"

definition save_window :: "int \<times> int \<Rightarrow> db option \<Rightarrow> db option" where
  "save_window screen handle =
     (let handle = snd (db_set_setting handle (Some ''window_width'') (Some (snprintf 32 (dec_int (fst screen)))))
      in snd (db_set_setting handle (Some ''window_height'') (Some (snprintf 32 (dec_int (snd screen))))))"

definition main_shutdown :: "(message_row list \<Rightarrow> message_row list) \<Rightarrow> int \<times> int \<Rightarrow> main_state
    \<Rightarrow> (heap \<times> app_state \<times> net \<times> tables option) option" where
  "main_shutdown by_time screen s = do {
     (c, w) \<leftarrow> mqtt_client_disconnect (mn_mqtt s);
     w \<leftarrow> mqtt_client_destroy (Some c) w;
     let st = (mn_app s)\<lparr>as_conn_log := mc_log c, as_msg_queue := mc_msg_queue c\<rparr>;
     file \<leftarrow>
       (if mn_db s \<noteq> None then do {
          let handle = save_window screen (mn_db s);
          let handle = snd (db_set_setting handle (Some ''tree_width_ratio'') (Some (snprintf 32 (fixed4 (as_tree_width_ratio st)))));
          (handle, _, _) \<leftarrow> db_flush_history by_time handle (mn_heap s) (as_global_history st) (mn_saved s, mn_batch s);
          Some (db_close handle)
        }
        else Some None);
     (h, st) \<leftarrow> app_state_destroy (mn_heap s, st);
     Some (h, st, w, file)
   }"

end
