(* ===== verification/Tree_Filter.thy ===== *)
theory Tree_Filter
  imports Topic_Payload Ring
begin

text \<open>
  The two walks down the topic tree: \<open>filter_mark\<close> and \<open>filter_refresh\<close> of
  \<open>src/src/ui/tree_widget.c\<close>, which flag the nodes that a filter shows, and
  \<open>set_expanded_recursive\<close> of \<open>src/src/ui/context_menu.c\<close>. The recursion of the code is
  bounded by the height of the tree; the fuel is one more than the number of nodes.
\<close>

subsection \<open>Operations\<close>

text \<open>\<open>strcasestr(hay, needle) != NULL\<close>, in the C locale.\<close>

fun strcasestr :: "string \<Rightarrow> string \<Rightarrow> bool" where
  "strcasestr [] needle \<longleftrightarrow> needle = []"
| "strcasestr (c # hay) needle \<longleftrightarrow> prefix (map lower needle) (map lower (c # hay)) \<or> strcasestr hay needle"

definition extend_path :: "nat \<Rightarrow> string \<Rightarrow> string \<Rightarrow> string" where
  "extend_path cap path segment =
     (let path = (if path \<noteq> [] \<and> length path < cap - 1 then path @ ''/'' else path)
      in path @ take (cap - 1 - length path) segment)"

primrec filter_mark :: "nat \<Rightarrow> string \<Rightarrow> nat \<Rightarrow> addr \<Rightarrow> string \<Rightarrow> topic_tree \<Rightarrow> (bool \<times> topic_tree) option" where
  "filter_mark 0 topic_filter cap node path t = None"
| "filter_mark (Suc fuel) topic_filter cap node path t =
     (case node_at t node of
        None \<Rightarrow> None
      | Some n \<Rightarrow>
          (let path = extend_path cap path (tn_segment n) in
           case option_fold (\<lambda>c (matched, t).
                  map_option (\<lambda>(m, t). (m \<or> matched, t)) (filter_mark fuel topic_filter cap c path t))
                  (tn_children n) (strcasestr path topic_filter, t) of
             None \<Rightarrow> None
           | Some (matched, t) \<Rightarrow>
               map_option (\<lambda>n. (matched, set_node node (n\<lparr>tn_filter_match := matched\<rparr>) t)) (node_at t node)))"

definition walk_fuel :: "topic_tree \<Rightarrow> nat" where
  "walk_fuel t = Suc (unat (tt_total_count t))"

text \<open>The static variables: the filter text and the node count of the last marking.\<close>

definition filter_refresh :: "string \<Rightarrow> (string \<times> u32) \<times> topic_tree \<Rightarrow> ((string \<times> u32) \<times> topic_tree) option" where
  "filter_refresh topic_filter s =
     (let ((last_filter, last_node_count), t) = s in
      if topic_filter = [] then Some (([], last_node_count), t)
      else if topic_filter = last_filter \<and> tt_total_count t = last_node_count then Some s
      else
        map_option (\<lambda>t'. ((util_str_copy last_filter 256 (Some topic_filter), tt_total_count t), t'))
          (option_fold (\<lambda>r t. map_option snd (filter_mark (walk_fuel t) topic_filter 512 r [] t)) (tt_roots t) t))"

primrec set_expanded_recursive :: "nat \<Rightarrow> bool \<Rightarrow> addr \<Rightarrow> topic_tree \<Rightarrow> topic_tree option" where
  "set_expanded_recursive 0 expanded node t = None"
| "set_expanded_recursive (Suc fuel) expanded node t =
     (case node_at t node of
        None \<Rightarrow> None
      | Some n \<Rightarrow> option_fold (set_expanded_recursive fuel expanded) (tn_children n)
                    (set_node node (n\<lparr>tn_expanded := expanded\<rparr>) t))"

subsection \<open>The nodes below a node\<close>

lemma strcasestr_sublist: "strcasestr hay needle \<longleftrightarrow> sublist (map lower needle) (map lower hay)"
  by (induction hay) (auto simp: sublist_Cons_right)

text \<open>The height of the subtree of \<open>a\<close> is less than \<open>k\<close>.\<close>

definition deep :: "(addr \<Rightarrow> string list) \<Rightarrow> topic_tree \<Rightarrow> addr \<Rightarrow> nat \<Rightarrow> bool" where
  "deep P t a k \<longleftrightarrow> (\<forall>d\<in>nodes t. prefix (P a) (P d) \<longrightarrow> length (P d) < length (P a) + k)"

lemma path_length_card:
  assumes "tree_ok P t" "a \<in> nodes t"
  shows "length (P a) \<le> card (nodes t)"
proof -
  let ?at = "\<lambda>k. SOME b. b \<in> nodes t \<and> P b = take k (P a)"
  have at: "?at k \<in> nodes t \<and> P (?at k) = take k (P a)" if k: "k \<in> {1..length (P a)}" for k
  proof -
    have "\<exists>b\<in>nodes t. P b = take k (P a)"
      by (rule path_prefix_node [OF assms, of _ "drop k (P a)"]) (use k in auto)
    then show ?thesis by (rule someI2_bex) simp
  qed
  have "inj_on ?at {1..length (P a)}"
  proof (rule inj_onI)
    fix i j assume ij: "i \<in> {1..length (P a)}" "j \<in> {1..length (P a)}" "?at i = ?at j"
    then have "take i (P a) = take j (P a)" using at by metis
    then have "length (take i (P a)) = length (take j (P a))" by simp
    then show "i = j" using ij by simp
  qed
  moreover have "?at ` {1..length (P a)} \<subseteq> nodes t" using at by blast
  ultimately show ?thesis using card_inj_on_le [of ?at "{1..length (P a)}" "nodes t"] by simp
qed

lemma deep_nodes:
  assumes "tree_ok P t" "card (nodes t) < 2 ^ 32"
  shows "deep P t a (walk_fuel t)"
proof -
  have "unat (tt_total_count t) = card (nodes t)"
    using tree_okD(10) [OF assms(1)] assms(2) by (simp add: unat_of_nat)
  then show ?thesis
    using path_length_card [OF assms(1)] by (fastforce simp: deep_def walk_fuel_def)
qed

lemma child_path: "tree_ok P t \<Longrightarrow> a \<in> nodes t \<Longrightarrow> c \<in> set (kids t (Some a)) \<Longrightarrow> c \<in> nodes t \<and> P c = P a @ [tn_segment (nd t c)]"
  using tree_okD(9) [of P t "Some a"] tree_okD(4) [of P t c] by auto

lemma below_iff:
  assumes "tree_ok P t" "a \<in> nodes t" "d \<in> nodes t"
  shows "prefix (P a) (P d) \<longleftrightarrow> d = a \<or> (\<exists>c\<in>set (kids t (Some a)). prefix (P c) (P d))"
proof
  assume p: "prefix (P a) (P d)"
  then obtain r where r: "P d = P a @ r" by (auto simp: prefix_def)
  show "d = a \<or> (\<exists>c\<in>set (kids t (Some a)). prefix (P c) (P d))"
  proof (cases r)
    case Nil
    then have "P d = P a" using r by simp
    then show ?thesis using tree_okD(6) [OF assms(1)] assms(2,3) by (auto dest: inj_onD)
  next
    case (Cons s r')
    then have "P d = (P a @ [s]) @ r'" using r by simp
    then obtain c where c: "c \<in> nodes t" "P c = P a @ [s]"
      using path_prefix_node [OF assms(1,3)] by blast
    have "path_of P (tn_parent (nd t c)) = P a" using tree_okD(4) [OF assms(1) c(1)] c(2) by simp
    then obtain b where "tn_parent (nd t c) = Some b" "P b = P a"
      using path_ne [OF assms(1,2)] by (cases "tn_parent (nd t c)") auto
    then have "tn_parent (nd t c) = Some a"
      using tree_okD(3) [OF assms(1) c(1)] tree_okD(6) [OF assms(1)] assms(2) by (auto dest: inj_onD)
    then have "c \<in> set (kids t (Some a))" using tree_okD(9) [OF assms(1), of "Some a"] assms(2) c(1) by auto
    moreover have "prefix (P c) (P d)" using r Cons c(2) by simp
    ultimately show ?thesis by blast
  qed
next
  assume "d = a \<or> (\<exists>c\<in>set (kids t (Some a)). prefix (P c) (P d))"
  then show "prefix (P a) (P d)"
    using child_path [OF assms(1,2)] append_prefixD by fastforce
qed

lemma deep_child:
  assumes "tree_ok P t" "a \<in> nodes t" "deep P t a (Suc k)" "c \<in> set (kids t (Some a))"
  shows "deep P t c k"
proof -
  have c: "P c = P a @ [tn_segment (nd t c)]" using child_path [OF assms(1,2,4)] by blast
  have "length (P d) < length (P c) + k" if "d \<in> nodes t" "prefix (P c) (P d)" for d
  proof -
    have "prefix (P a) (P d)" using that(2) unfolding c by (rule append_prefixD)
    then show ?thesis using assms(3) that(1) c by (fastforce simp: deep_def)
  qed
  then show ?thesis by (simp add: deep_def)
qed

text \<open>The same tree with other flags.\<close>

definition same_shape :: "(addr \<Rightarrow> string list) \<Rightarrow> topic_tree \<Rightarrow> topic_tree \<Rightarrow> bool" where
  "same_shape P t t' \<longleftrightarrow> (\<exists>g. t' = node_map g t \<and> (\<forall>a n. links_same (g a n) n))"

lemma same_shapeD:
  assumes "same_shape P t t'" "tree_ok P t"
  shows "tree_ok P t'" "nodes t' = nodes t" "a \<in> nodes t \<Longrightarrow> kids t' (Some a) = kids t (Some a)"
    "a \<in> nodes t \<Longrightarrow> tn_segment (nd t' a) = tn_segment (nd t a)" "deep P t' b k = deep P t b k" "kids t' None = kids t None"
proof -
  obtain g where g: "t' = node_map g t" "\<And>a n. links_same (g a n) n" using assms(1) by (auto simp: same_shape_def)
  show "tree_ok P t'" unfolding g(1) by (rule tree_ok_node_map [OF assms(2) g(2)])
  show ns: "nodes t' = nodes t" unfolding g(1) by (rule nodes_node_map [OF tree_okD(1) [OF assms(2)]])
  show "deep P t' b k = deep P t b k" by (simp add: deep_def ns)
  show "kids t' None = kids t None" by (simp add: g(1))
  assume a: "a \<in> nodes t"
  have "nd t' a = g a (nd t a)" unfolding g(1) by (rule nd_node_map [OF assms(2) a])
  then show "kids t' (Some a) = kids t (Some a)" "tn_segment (nd t' a) = tn_segment (nd t a)"
    using g(2) [of a "nd t a"] by (simp_all add: links_same_def)
qed

subsection \<open>What the marks say\<close>

definition shown_by :: "(addr \<Rightarrow> string list) \<Rightarrow> topic_tree \<Rightarrow> string \<Rightarrow> addr \<Rightarrow> bool" where
  "shown_by P t f a \<longleftrightarrow> (\<exists>d\<in>below P t a. strcasestr (join (CHR ''/'') (P d)) f)"

definition marked :: "(addr \<Rightarrow> string list) \<Rightarrow> string \<Rightarrow> addr set \<Rightarrow> topic_tree \<Rightarrow> topic_tree" where
  "marked P f S t = node_map (\<lambda>d. if d \<in> S then (\<lambda>n. n\<lparr>tn_filter_match := shown_by P t f d\<rparr>) else id) t"

lemma below_shape: "tree_ok P t \<Longrightarrow> same_shape P t t' \<Longrightarrow> below P t' a = below P t a"
  by (simp add: below_def same_shapeD)

lemma shown_shape: "tree_ok P t \<Longrightarrow> same_shape P t t' \<Longrightarrow> shown_by P t' f a = shown_by P t f a"
  by (simp add: shown_by_def below_shape)

lemma node_map_id: "node_map (\<lambda>_. id) t = t"
  by (simp add: node_map_def cell.map_id0 option.map_id0)

lemma shape_refl: "same_shape P t t"
  unfolding same_shape_def by (intro exI [of _ "\<lambda>_. id"]) (simp add: links_same_def node_map_id)

lemma shape_trans: "same_shape P t t1 \<Longrightarrow> same_shape P t1 t2 \<Longrightarrow> same_shape P t t2"
proof -
  assume "same_shape P t t1" "same_shape P t1 t2"
  then obtain g h where g: "t1 = node_map g t" "\<And>a n. links_same (g a n) n" and h: "t2 = node_map h t1" "\<And>a n. links_same (h a n) n"
    by (auto simp: same_shape_def)
  have "links_same ((h a \<circ> g a) n) n" for a n using g(2) [of a n] h(2) [of a "g a n"] by (simp add: links_same_def)
  then show "same_shape P t t2" unfolding same_shape_def g(1) h(1) node_map_comp by blast
qed

lemma marked_shape: "same_shape P t (marked P f S t)"
  unfolding same_shape_def marked_def by (rule exI, rule conjI [OF refl]) (simp add: links_same_def)

lemma marked_comp:
  assumes "tree_ok P t"
  shows "marked P f S (marked P f T t) = marked P f (S \<union> T) t"
proof -
  have "shown_by P (marked P f T t) f d = shown_by P t f d" for d by (rule shown_shape [OF assms marked_shape])
  then have "marked P f S (marked P f T t)
      = node_map (\<lambda>d. if d \<in> S then (\<lambda>n. n\<lparr>tn_filter_match := shown_by P t f d\<rparr>) else id) (marked P f T t)"
    by (simp only: marked_def [of P f S])
  also have "\<dots> = marked P f (S \<union> T) t"
    unfolding marked_def node_map_comp by (rule node_map_cong) simp
  finally show ?thesis .
qed

lemma marked_empty: "marked P f {} t = t"
  by (simp add: marked_def node_map_id)

text \<open>The marks of a list of subtrees, given those of each.\<close>

lemma mark_fold:
  assumes "tree_ok P t" "same_shape P t t1"
    and "\<And>c t'. c \<in> set cs \<Longrightarrow> same_shape P t t' \<Longrightarrow>
       mark c t' = Some (shown_by P t f c, marked P f (below P t c) t')"
  shows "option_fold (\<lambda>c (matched, t). map_option (\<lambda>(m, t). (m \<or> matched, t)) (mark c t)) cs (b, t1)
     = Some (b \<or> (\<exists>c\<in>set cs. shown_by P t f c), marked P f (\<Union>c\<in>set cs. below P t c) t1)"
  using assms(2,3)
proof (induction cs arbitrary: b t1)
  case (Cons c cs)
  let ?t = "marked P f (below P t c) t1"
  have s: "same_shape P t ?t" by (rule shape_trans [OF Cons.prems(1) marked_shape])
  have ok1: "tree_ok P t1" by (rule same_shapeD(1) [OF Cons.prems(1) assms(1)])
  have ih: "option_fold (\<lambda>c (matched, t). map_option (\<lambda>(m, t). (m \<or> matched, t)) (mark c t)) cs (shown_by P t f c \<or> b, ?t)
      = Some ((shown_by P t f c \<or> b) \<or> (\<exists>c\<in>set cs. shown_by P t f c), marked P f (\<Union>c\<in>set cs. below P t c) ?t)"
    by (rule Cons.IH [OF s]) (use Cons.prems(2) in simp)
  have "mark c t1 = Some (shown_by P t f c, ?t)" using Cons.prems by simp
  then show ?case using ih by (auto simp: marked_comp [OF ok1] Un_commute)
qed (simp add: marked_empty)

lemma extend_path_join:
  assumes "\<forall>w\<in>set ws. w \<noteq> []" "seg \<noteq> []" "length (join (CHR ''/'') (ws @ [seg])) < cap"
  shows "extend_path cap (join (CHR ''/'') ws) seg = join (CHR ''/'') (ws @ [seg])"
proof (cases "ws = []")
  case False
  then have "length (join (CHR ''/'') ws) + 1 + length seg < cap" using assms(3) by (simp add: join_snoc)
  moreover have "0 < length seg" using assms(2) by simp
  moreover have "join (CHR ''/'') ws \<noteq> []" using join_eq_Nil [OF assms(1)] False by simp
  ultimately show ?thesis using False by (simp add: extend_path_def join_snoc)
qed (use assms in \<open>simp add: extend_path_def\<close>)

lemma filter_mark_run:
  assumes "tree_ok P t" "a \<in> nodes t" "deep P t a k" "\<forall>d\<in>nodes t. length (join (CHR ''/'') (P d)) < cap"
  shows "filter_mark k f cap a (join (CHR ''/'') (path_of P (tn_parent (nd t a)))) t
     = Some (shown_by P t f a, marked P f (below P t a) t)"
  using assms
proof (induction k arbitrary: a t)
  case 0
  then show ?case by (auto simp: deep_def)
next
  case (Suc k)
  note ok = Suc.prems(1) and a = Suc.prems(2)
  let ?path = "join (CHR ''/'') (P a)" and ?cs = "tn_children (nd t a)"
  have pa: "P a = path_of P (tn_parent (nd t a)) @ [tn_segment (nd t a)]" by (rule tree_okD(4) [OF ok a])
  have segs: "w \<noteq> []" if "w \<in> set (P a)" for w using node_path_ok [OF ok a that] by (simp add: seg_ok_def)
  let ?up = "path_of P (tn_parent (nd t a))" and ?seg = "tn_segment (nd t a)"
  have up: "\<forall>w\<in>set ?up. w \<noteq> []" "?seg \<noteq> []" using segs unfolding pa by simp_all
  have "length ?path < cap" using Suc.prems(4) a by blast
  then have "length (join (CHR ''/'') (?up @ [?seg])) < cap" unfolding pa .
  then have path: "extend_path cap (join (CHR ''/'') ?up) ?seg = ?path"
    unfolding pa by (rule extend_path_join [OF up])
  have kids: "c \<in> nodes t \<and> tn_parent (nd t c) = Some a" if "c \<in> set ?cs" for c
    using that tree_okD(9) [OF ok, of "Some a"] a by auto
  have sub: "filter_mark k f cap c ?path t' = Some (shown_by P t f c, marked P f (below P t c) t')"
    if c: "c \<in> set ?cs" and s: "same_shape P t t'" for c t'
  proof -
    obtain g where g: "t' = node_map g t" "\<And>a n. links_same (g a n) n" using s by (auto simp: same_shape_def)
    have cn: "c \<in> nodes t" "tn_parent (nd t c) = Some a" using kids [OF c] by simp_all
    have "tn_parent (nd t' c) = Some a"
      using nd_node_map [OF ok cn(1), of g] g(2) [of c "nd t c"] cn(2) by (simp add: g(1) links_same_def)
    moreover have "deep P t' c k"
      using deep_child [OF ok a Suc.prems(3), of c] c same_shapeD(5) [OF s ok] by simp
    ultimately show ?thesis
      using Suc.IH [of t' c] same_shapeD(1,2) [OF s ok] cn(1) Suc.prems(4) shown_shape [OF ok s] below_shape [OF ok s] by simp
  qed
  let ?S = "\<Union>c\<in>set ?cs. below P t c"
  let ?t = "marked P f ?S t"
  have fold: "option_fold (\<lambda>c (matched, t). map_option (\<lambda>(m, t). (m \<or> matched, t)) (filter_mark k f cap c ?path t)) ?cs (strcasestr ?path f, t)
      = Some (strcasestr ?path f \<or> (\<exists>c\<in>set ?cs. shown_by P t f c), ?t)"
    by (rule mark_fold [OF ok shape_refl]) (rule sub)
  have bel: "below P t a = insert a ?S"
    using below_iff [OF ok a] a by (auto simp: below_def)
  then have sh: "(strcasestr ?path f \<or> (\<exists>c\<in>set ?cs. shown_by P t f c)) = shown_by P t f a"
    by (auto simp: shown_by_def)
  have t: "tree_ok P ?t" "a \<in> nodes ?t" using same_shapeD(1,2) [OF marked_shape ok] a by simp_all
  have "marked P f {a} ?t = node_map (\<lambda>d. if d = a then (\<lambda>n. n\<lparr>tn_filter_match := shown_by P t f a\<rparr>) else id) ?t"
    unfolding marked_def [of P f "{a}"] by (rule node_map_cong) (simp add: shown_shape [OF ok marked_shape])
  then have "set_node a ((nd ?t a)\<lparr>tn_filter_match := shown_by P t f a\<rparr>) ?t = marked P f {a} ?t"
    using set_node_map [OF t, of "\<lambda>n. n\<lparr>tn_filter_match := shown_by P t f a\<rparr>"] by simp
  also have "\<dots> = marked P f (below P t a) t" by (simp add: marked_comp [OF ok] bel)
  finally show ?case
    using fold node_at_nd [OF ok a] node_at_nd [OF t] by (simp add: path sh)
qed

lemma roots_cover:
  assumes "tree_ok P t"
  shows "(\<Union>r\<in>set (tt_roots t). below P t r) = nodes t"
proof (intro equalityI subsetI)
  fix d assume d: "d \<in> nodes t"
  then obtain s q where s: "P d = [s] @ q" using path_ne [OF assms d] by (cases "P d") auto
  then obtain r where r: "r \<in> nodes t" "P r = [s]" using path_prefix_node [OF assms d, of "[s]" q] by auto
  have "tn_parent (nd t r) = None"
  proof (cases "tn_parent (nd t r)")
    case (Some b)
    then have "b \<in> nodes t" "P b = []" using tree_okD(3,4) [OF assms r(1)] r(2) by simp_all
    then show ?thesis using path_ne [OF assms] by blast
  qed
  then have "r \<in> set (tt_roots t)" using tree_okD(9) [OF assms, of None] r(1) by simp
  moreover have "d \<in> below P t r" using d s r(2) by (simp add: below_def)
  ultimately show "d \<in> (\<Union>r\<in>set (tt_roots t). below P t r)" by blast
qed (auto simp: below_def)

text \<open>
  A fold over trees each of whose steps flags a set of nodes, when the steps do not look at the
  flags.
\<close>

definition flagged :: "(topic_node \<Rightarrow> topic_node) \<Rightarrow> addr set \<Rightarrow> topic_tree \<Rightarrow> topic_tree" where
  "flagged f S t = node_map (\<lambda>d. if d \<in> S then f else id) t"

lemma flagged_shape: "(\<And>n. links_same (f n) n) \<Longrightarrow> same_shape P t (flagged f S t)"
  unfolding same_shape_def flagged_def by (rule exI, rule conjI [OF refl]) (simp add: links_same_def)

lemma flagged_comp: "(\<And>n. f (f n) = f n) \<Longrightarrow> flagged f S (flagged f T t) = flagged f (S \<union> T) t"
  unfolding flagged_def node_map_comp by (rule node_map_cong) simp

lemma flagged_empty: "flagged f {} t = t"
  by (simp add: flagged_def node_map_id)

lemma flag_fold:
  assumes "same_shape P t t1" "\<And>n. links_same (f n) n" "\<And>n. f (f n) = f n"
    and "\<And>c t'. c \<in> set cs \<Longrightarrow> same_shape P t t' \<Longrightarrow> visit c t' = Some (flagged f (below P t c) t')"
  shows "option_fold visit cs t1 = Some (flagged f (\<Union>c\<in>set cs. below P t c) t1)"
  using assms(1,4)
proof (induction cs arbitrary: t1)
  case (Cons c cs)
  let ?t = "flagged f (below P t c) t1"
  have "same_shape P t ?t" by (rule shape_trans [OF Cons.prems(1) flagged_shape]) (rule assms(2))
  then have "option_fold visit cs ?t = Some (flagged f (\<Union>c\<in>set cs. below P t c) ?t)"
    by (rule Cons.IH) (use Cons.prems(2) in simp)
  then show ?case using Cons.prems by (simp add: flagged_comp [OF assms(3)] Un_commute)
qed (simp add: flagged_empty)

lemma set_expanded_run:
  assumes "tree_ok P t" "a \<in> nodes t" "deep P t a k"
  shows "set_expanded_recursive k e a t = Some (flagged (\<lambda>n. n\<lparr>tn_expanded := e\<rparr>) (below P t a) t)"
  using assms
proof (induction k arbitrary: a t)
  case 0
  then show ?case by (auto simp: deep_def)
next
  case (Suc k)
  note ok = Suc.prems(1) and a = Suc.prems(2)
  let ?f = "\<lambda>n. n\<lparr>tn_expanded := e\<rparr>" and ?cs = "tn_children (nd t a)"
  have f: "links_same (?f n) n" "?f (?f n) = ?f n" for n by (simp_all add: links_same_def)
  have "set_node a (?f (nd t a)) t = node_map (\<lambda>d. if d = a then ?f else id) t" by (rule set_node_map [OF ok a])
  then have step: "set_node a (?f (nd t a)) t = flagged ?f {a} t" by (simp add: flagged_def)
  have visit: "set_expanded_recursive k e c t' = Some (flagged ?f (below P t c) t')"
    if c: "c \<in> set ?cs" and s: "same_shape P t t'" for c t'
  proof -
    have "c \<in> nodes t" "deep P t c k"
      using child_path [OF ok a] deep_child [OF ok a Suc.prems(3), of c] c by simp_all
    then show ?thesis
      using Suc.IH [of t' c] same_shapeD(1,2,5) [OF s ok] below_shape [OF ok s] by simp
  qed
  have "option_fold (set_expanded_recursive k e) ?cs (flagged ?f {a} t)
      = Some (flagged ?f (\<Union>c\<in>set ?cs. below P t c) (flagged ?f {a} t))"
    by (rule flag_fold [OF flagged_shape f]) (rule f visit; assumption?)+
  moreover have "below P t a = (\<Union>c\<in>set ?cs. below P t c) \<union> {a}"
    using below_iff [OF ok a] a by (auto simp: below_def)
  ultimately show ?case using node_at_nd [OF ok a] by (simp add: step flagged_comp [OF f(2)])
qed

lemma refresh_run:
  assumes "tree_ok P t" "card (nodes t) < 2 ^ 32" "\<forall>d\<in>nodes t. length (join (CHR ''/'') (P d)) < 512"
    and "f \<noteq> []" "\<not> (f = last_filter \<and> tt_total_count t = last_count)" "length f < 256"
  shows "filter_refresh f ((last_filter, last_count), t) = Some ((f, tt_total_count t), marked P f (nodes t) t)"
proof -
  define visit where "visit = (\<lambda>r t. map_option snd (filter_mark (walk_fuel t) f 512 r [] t))"
  have step: "visit r t' = Some (marked P f (below P t r) t')"
    if r: "r \<in> set (tt_roots t)" and s: "same_shape P t t'" for r t'
  proof -
    have ok': "tree_ok P t'" "nodes t' = nodes t" "tt_roots t' = tt_roots t" using same_shapeD(1,2,6) [OF s assms(1)] by simp_all
    have rn: "r \<in> nodes t'" "tn_parent (nd t' r) = None" using tree_okD(9) [OF ok'(1), of None] r ok'(3) by auto
    have "deep P t' r (walk_fuel t')" by (rule deep_nodes [OF ok'(1)]) (use assms(2) ok'(2) in argo)
    from filter_mark_run [OF ok'(1) rn(1) this, of 512 f] show ?thesis
      using rn(2) assms(3) ok'(2) below_shape [OF assms(1) s] by (simp add: visit_def)
  qed
  have "option_fold visit cs t1 = Some (marked P f (\<Union>r\<in>set cs. below P t r) t1)" if "set cs \<subseteq> set (tt_roots t)" "same_shape P t t1" for cs t1
    using that
  proof (induction cs arbitrary: t1)
    case (Cons r cs)
    have s: "same_shape P t (marked P f (below P t r) t1)" by (rule shape_trans [OF Cons.prems(2) marked_shape])
    have "tree_ok P t1" by (rule same_shapeD(1) [OF Cons.prems(2) assms(1)])
    then show ?case using Cons.IH [OF _ s] Cons.prems step by (simp add: marked_comp Un_commute)
  qed (simp add: marked_empty)
  from this [OF subset_refl shape_refl] show ?thesis
    using assms(4-6) unfolding visit_def by (auto simp: filter_refresh_def roots_cover [OF assms(1)] util_str_copy_eq)
qed

subsection \<open>Properties\<close>

text \<open>
  C36. After the filter is refreshed, the row of every node is flagged exactly when its own path or
  the path of a node below it contains the filter, in any case of the letters; nothing else of any
  node changes, and the walk ends on every tree. Tested against the whole tree, not only against
  the first branch that matches.
\<close>
theorem filter_refresh_marks:
  assumes "tree_ok P t" "card (nodes t) < 2 ^ 32" "\<forall>d\<in>nodes t. length (join (CHR ''/'') (P d)) < 512"
    and "f \<noteq> []" "\<not> (f = last_filter \<and> tt_total_count t = last_count)" "length f < 256"
  shows "\<exists>t'. filter_refresh f ((last_filter, last_count), t) = Some ((f, tt_total_count t), t') \<and> tree_ok P t'
     \<and> nodes t' = nodes t
     \<and> (\<forall>a\<in>nodes t. nd t' a = (nd t a)\<lparr>tn_filter_match :=
            (\<exists>d\<in>nodes t. prefix (P a) (P d) \<and> sublist (map lower f) (map lower (join (CHR ''/'') (P d))))\<rparr>)"
proof -
  let ?t = "marked P f (nodes t) t"
  have "nd ?t a = (nd t a)\<lparr>tn_filter_match := shown_by P t f a\<rparr>" if "a \<in> nodes t" for a
    using nd_node_map [OF assms(1) that] that by (simp add: marked_def)
  then show ?thesis
    using refresh_run [OF assms] same_shapeD(1,2) [OF marked_shape assms(1)]
    unfolding shown_by_def below_def strcasestr_sublist by (intro exI [of _ ?t]) (auto simp: Bex_def)
qed

text \<open>The tree of \<open>home/temp\<close>, filtered by \<open>TEM\<close>.\<close>

lemma filter_refresh_marks_witness:
  "\<exists>t P a t'. P a = [''home'', ''temp''] \<and> filter_refresh ''TEM'' (([], 0), t) = Some ((''TEM'', tt_total_count t), t')
     \<and> tn_filter_match (nd t' a)"
proof -
  obtain t P a where s: "tree_ok P t" "a \<in> nodes t" "P a = [''home'', ''temp'']"
      "\<forall>d\<in>nodes t. length (join (CHR ''/'') (P d)) < 512" "card (nodes t) < 2 ^ 32"
  proof -
    obtain t P a where t: "tree_ok P t" "a \<in> nodes t" "P a = [''home'', ''temp'']"
        "P ` nodes t \<subseteq> {[''home''], [''home'', ''temp'']}" "card (nodes t) \<le> 2"
      using sample_tree by blast
    have "length (join (CHR ''/'') (P d)) < 512" if "d \<in> nodes t" for d
      using t(4) that by (cases "P d = [''home'']") auto
    then show ?thesis using that t(1-3,5) by auto
  qed
  obtain t' where t': "filter_refresh ''TEM'' (([], 0), t) = Some ((''TEM'', tt_total_count t), t')"
      "\<And>a. a \<in> nodes t \<Longrightarrow> nd t' a = (nd t a)\<lparr>tn_filter_match :=
            (\<exists>d\<in>nodes t. prefix (P a) (P d) \<and> sublist (map lower ''TEM'') (map lower (join (CHR ''/'') (P d))))\<rparr>"
    using filter_refresh_marks [OF s(1,5,4), of "''TEM''" "[]" 0] by auto
  have "strcasestr (join (CHR ''/'') (P a)) ''TEM''" unfolding s(3) by code_simp
  then have "tn_filter_match (nd t' a)" using t'(2) [OF s(2)] s(2) unfolding strcasestr_sublist by auto
  then show ?thesis using s(3) t'(1) by blast
qed

text \<open>
  Expand All and Collapse All of the context menu: the node and every node below it, however
  deep, gets the flag, no other node and no other field of any node changes, and the recursion ends.
\<close>
lemma set_expanded_below:
  assumes "tree_ok P t" "a \<in> nodes t" "card (nodes t) < 2 ^ 32"
  shows "\<exists>t'. set_expanded_recursive (walk_fuel t) e a t = Some t' \<and> tree_ok P t' \<and> nodes t' = nodes t
     \<and> (\<forall>d\<in>nodes t. nd t' d = (if prefix (P a) (P d) then (nd t d)\<lparr>tn_expanded := e\<rparr> else nd t d))"
proof -
  let ?f = "\<lambda>n. n\<lparr>tn_expanded := e\<rparr>"
  have "same_shape P t (flagged ?f (below P t a) t)" by (rule flagged_shape) (simp add: links_same_def)
  then show ?thesis
    using set_expanded_run [OF assms(1,2) deep_nodes [OF assms(1,3)]] same_shapeD(1,2) [OF _ assms(1)]
    by (auto simp: flagged_def nd_node_map [OF assms(1)] below_def)
qed

end
