(* ===== verification/Menus.thy ===== *)
theory Menus
  imports Main_Loop Tree_Filter
begin

text \<open>
  The menu bar (\<open>src/src/ui/menu_bar.c\<close>) and the context menu of a topic
  (\<open>src/src/ui/context_menu.c\<close>): what they show and what their clicks do to the application
  state. The layout itself is Clay's; its answer to \<open>Clay_PointerOver\<close> is a predicate on the ids
  of the elements.
\<close>

subsection \<open>Input of a frame\<close>

datatype element = El string | El_idx string nat | El_node addr | El_chevron addr

text \<open>
  \<open>ui_rel\<close> is the place of the mouse inside the box of an element, with the width of the box, if
  the element was laid out; \<open>ui_left\<close> says that the button went down in this frame,
  \<open>ui_left_down\<close> that it is held.
\<close>

record ui_input =
  ui_over :: "element \<Rightarrow> bool"
  ui_rel :: "element \<Rightarrow> (rat \<times> rat \<times> rat) option"
  ui_left :: bool
  ui_left_down :: bool
  ui_right :: bool
  ui_shift :: bool
  ui_mouse :: "dbl \<times> dbl"
  ui_dt :: dbl
  ui_now :: u64

definition clicked :: "ui_input \<Rightarrow> string \<Rightarrow> bool" where
  "clicked inp i \<longleftrightarrow> ui_over inp (El i) \<and> ui_left inp"

subsection \<open>The flash timer of a button\<close>

definition ui_utils_flash_start :: dbl where
  "ui_utils_flash_start = flt (3 / 2)"

definition ui_utils_flash_tick :: "dbl \<Rightarrow> dbl \<Rightarrow> bool \<times> dbl" where
  "ui_utils_flash_tick dt timer =
     (if dbl_le timer (Fin 0) then (False, timer)
      else let timer = flt_sub timer dt in (flt_less (Fin 0) timer, timer))"

subsection \<open>The menu bar\<close>

text \<open>The broker's address, refreshed twice a second and dropped at once when the connection is.\<close>

record menu_bar =
  mu_broker_buf :: string
  mu_upd_timer :: dbl

definition menu_bar_refresh :: "dbl \<Rightarrow> app_state \<Rightarrow> menu_bar \<Rightarrow> menu_bar" where
  "menu_bar_refresh dt st m =
     (let m = m\<lparr>mu_upd_timer := flt_sub (mu_upd_timer m) dt\<rparr>;
          m = (if dbl_le (mu_upd_timer m) (Fin 0)
               then m\<lparr>mu_upd_timer := flt (1 / 2),
                      mu_broker_buf := (if as_conn_state st = CONN_CONNECTED
                                        then snprintf 280 (as_broker_host st @ '':'' @ dec (unat (as_broker_port st))) else '''')\<rparr>
               else m)
      in if as_conn_state st \<noteq> CONN_CONNECTED then m\<lparr>mu_broker_buf := ''''\<rparr> else m)"

definition conn_label :: "app_state \<Rightarrow> string" where
  "conn_label st =
     [char_of (0xc2::nat), char_of (0xb7::nat), CHR '' ''] @
     (if as_conn_state st = CONN_CONNECTED then ''Connected''
      else if as_conn_state st = CONN_CONNECTING \<or> as_conn_state st = CONN_RECONNECTING then ''Connecting...''
      else ''Disconnected'')"

definition menu_bar_clicks :: "ui_input \<Rightarrow> app_state \<Rightarrow> app_state" where
  "menu_bar_clicks inp st =
     (let st = (if clicked inp ''MenuAboutBtn'' then st\<lparr>as_about_dialog_open := True\<rparr> else st);
          st = (if clicked inp ''MenuLogBtn'' then st\<lparr>as_log_panel_open := (\<not> as_log_panel_open st)\<rparr> else st);
          st = (if clicked inp ''MenuConnectionBtn'' then st\<lparr>as_profile_dialog_open := (\<not> as_profile_dialog_open st)\<rparr> else st)
      in if as_conn_state st \<noteq> CONN_DISCONNECTED \<and> clicked inp ''MenuDisconnectBtn''
         then st\<lparr>as_disconnect_requested := True\<rparr> else st)"

definition menu_bar_render :: "ui_input \<Rightarrow> menu_bar \<times> app_state \<Rightarrow> menu_bar \<times> app_state" where
  "menu_bar_render inp s = (let (m, st) = s in (menu_bar_refresh (ui_dt inp) st m, menu_bar_clicks inp st))"

subsection \<open>The context menu\<close>

text \<open>
  The clicks are collected, then the menu is dismissed by Escape or a click outside of it, then the
  actions run. The second component is the clipboard.
\<close>

definition dismiss_menu :: "ui_input \<Rightarrow> keyboard \<Rightarrow> app_state \<Rightarrow> app_state" where
  "dismiss_menu inp kb st =
     (let st = (if KEY_ESCAPE \<in> kb_pressed kb then st\<lparr>as_context_menu_open := False\<rparr> else st)
      in if ui_left inp \<and> \<not> ui_over inp (El ''ContextMenu'') then st\<lparr>as_context_menu_open := False\<rparr> else st)"

definition menu_expand :: "addr \<Rightarrow> bool \<Rightarrow> app_state \<Rightarrow> app_state option" where
  "menu_expand node expanded st =
     map_option (\<lambda>t. st\<lparr>as_topic_tree := t, as_context_menu_open := False\<rparr>)
       (set_expanded_recursive (walk_fuel (as_topic_tree st)) expanded node (as_topic_tree st))"

definition context_menu_render :: "ui_input \<Rightarrow> app_state \<times> keyboard \<Rightarrow> (app_state \<times> keyboard) option" where
  "context_menu_render inp s =
     (let (st, kb) = s in
      if \<not> as_context_menu_open st then Some s
      else
        case as_context_menu_target st of
          None \<Rightarrow> Some s
        | Some node \<Rightarrow> do {
            let st = dismiss_menu inp kb st;
            (st, kb) \<leftarrow>
              (if clicked inp ''CMCopy''
               then map_option (\<lambda>p. (st\<lparr>as_context_menu_open := False\<rparr>, kb\<lparr>kb_clipboard := Some p\<rparr>))
                      (topic_node_full_path node '''' 512 (as_topic_tree st))
               else Some (st, kb));
            st \<leftarrow>
              (if clicked inp ''CMPublish''
               then map_option (\<lambda>p. st\<lparr>as_publish_topic := p, as_publish_panel_open := True, as_context_menu_open := False\<rparr>)
                      (topic_node_full_path node (as_publish_topic st) 256 (as_topic_tree st))
               else Some st);
            st \<leftarrow> (if clicked inp ''CMExpand'' then menu_expand node True st else Some st);
            st \<leftarrow> (if clicked inp ''CMCollapse'' then menu_expand node False st else Some st);
            Some (if clicked inp ''CMClear''
                  then st\<lparr>as_clear_topic_requested := Some node, as_context_menu_open := False\<rparr> else st, kb)
          })"

end
