(* ===== verification/Tree_Widget.thy ===== *)
theory Tree_Widget
  imports Menus
begin

text \<open>
  \<open>src/src/ui/tree_widget.c\<close>: the filter field, the full-text search and its results, and the
  rows of the topic tree with their clicks. The static variables of the file are a state of their
  own. What is laid out is the list of rows in their order; how it looks is Clay's.
\<close>

abbreviation SEARCH_MAX_RESULTS :: nat where "SEARCH_MAX_RESULTS \<equiv> 50"
abbreviation TREE_ROW_PREVIEW_CAP :: nat where "TREE_ROW_PREVIEW_CAP \<equiv> 205"

record tree_widget =
  tw_search_results :: "slot list"
  tw_search_result_count :: int
  tw_search_expanded_idx :: int
  tw_last_search_query :: string
  tw_last_search_mode :: bool
  tw_filter_caret :: nat
  tw_filter_was_focused :: bool
  tw_filter_display :: string
  tw_filter_marker :: "nat option"
  tw_last_filter :: string
  tw_last_node_count :: u32
  tw_flash_last_selected :: "addr option"
  tw_flash_selection_changed_us :: u64

subsection \<open>The highlight of new messages\<close>

definition tree_flash_alpha :: "u64 \<Rightarrow> u64 \<Rightarrow> dbl" where
  "tree_flash_alpha now_us last_message_ts =
     (if last_message_ts = 0 then Fin 0
      else if last_message_ts \<ge> now_us then Fin 1
      else
        let age = now_us - last_message_ts in
        if age \<ge> 500000 then Fin 0
        else
          let t = flt_div (round_flt (of_nat (unat age))) (flt 500000) in
          if flt_less t (flt (1 / 4)) then flt_div t (flt (1 / 4))
          else if flt_less t (flt (1 / 2)) then Fin 1
          else flt_sub (Fin 1) (flt_div (flt_sub t (flt (1 / 2))) (flt (1 / 2))))"

definition tree_subtree_flash_alpha :: "u64 \<Rightarrow> u64 \<Rightarrow> dbl" where
  "tree_subtree_flash_alpha now_us last_subtree_ts =
     (if last_subtree_ts = 0 then Fin 0
      else if last_subtree_ts \<ge> now_us then Fin 1
      else
        let age = now_us - last_subtree_ts in
        if age \<ge> 900000 then Fin 0
        else
          let t = flt_sub (Fin 1) (flt_div (round_flt (of_nat (unat age))) (flt 900000))
          in flt_mul t t)"

datatype flash = No_Flash | Topic_Flash dbl | Subtree_Flash dbl

definition row_flash :: "u64 \<Rightarrow> bool \<Rightarrow> topic_node \<Rightarrow> flash" where
  "row_flash now is_selected n =
     (if is_selected \<or> now = 0 then No_Flash
      else
        let flash = tree_flash_alpha now (tn_last_message_ts n) in
        if flt_less (Fin 0) flash then Topic_Flash (flt_mul flash (Fin 255))
        else Subtree_Flash (flt_mul (tree_subtree_flash_alpha now (tn_last_subtree_message_ts n)) (Fin 255)))"

subsection \<open>The rows of the tree\<close>

record tree_row =
  tr_node :: addr
  tr_left_pad :: u16
  tr_selected :: bool
  tr_flash :: flash
  tr_chevron :: "bool option"
  tr_segment :: string
  tr_retained :: bool
  tr_count :: "string option"
  tr_sum :: "string option"
  tr_preview :: "(u16 \<times> string) option"

definition row_preview :: "topic_tree \<Rightarrow> topic_node \<Rightarrow> string option option" where
  "row_preview t n =
     (let (pl, pl_len) = topic_node_payload n in
      if pl_len > 0 then
        (case pl of
           None \<Rightarrow> None
         | Some p \<Rightarrow> map_option (\<lambda>bs. Some (util_preview_build_compact '''' TREE_ROW_PREVIEW_CAP (take (unat pl_len) bs)))
                      (block_at t p))
      else Some None)"

text \<open>The chevron and the badges show the node as it is before the clicks of this frame.\<close>

definition row_of_node :: "app_state \<Rightarrow> addr \<Rightarrow> topic_node \<Rightarrow> nat \<Rightarrow> u64 \<Rightarrow> tree_row option" where
  "row_of_node st node n depth now =
     (let is_selected = (as_selected_topic st = Some node);
          has_children = (tn_children n \<noteq> []);
          left_pad = (word_of_nat (16 + depth * 20) :: u16);
          preview_pad = (if has_children then left_pad + 24 else left_pad)
      in map_option (\<lambda>text.
           \<lparr>tr_node = node, tr_left_pad = left_pad, tr_selected = is_selected, tr_flash = row_flash now is_selected n,
            tr_chevron = (if has_children then Some (tn_expanded n) else None), tr_segment = tn_segment n,
            tr_retained = tn_has_retained n,
            tr_count = (if tn_message_count n > 0 then Some (tn_msg_count_str n) else None),
            tr_sum = (if has_children \<and> tn_subtree_message_count n > 0 then Some (tn_subtree_count_str n) else None),
            tr_preview = map_option (\<lambda>p. (preview_pad, p)) text\<rparr>) (row_preview (as_topic_tree st) n))"

definition select_node :: "addr \<Rightarrow> app_state \<Rightarrow> app_state" where
  "select_node node st = st\<lparr>as_selected_topic := Some node, as_inspector_frozen := False\<rparr>"

definition set_tree :: "app_state \<Rightarrow> topic_tree \<Rightarrow> app_state" where
  "set_tree st t = st\<lparr>as_topic_tree := t\<rparr>"

definition row_left_click :: "ui_input \<Rightarrow> addr \<Rightarrow> topic_node \<Rightarrow> app_state \<Rightarrow> app_state option" where
  "row_left_click inp node n st =
     (let has_children = (tn_children n \<noteq> []); t = as_topic_tree st in
      if has_children \<and> ui_over inp (El_chevron node)
      then map_option (set_tree st) (update_node node (\<lambda>n. n\<lparr>tn_expanded := (\<not> tn_expanded n)\<rparr>) t)
      else if tn_message_count n > 0 then Some (select_node node st)
      else if has_children
      then map_option (set_tree (select_node node st)) (update_node node (\<lambda>n. n\<lparr>tn_expanded := True\<rparr>) t)
      else Some st)"

definition row_click :: "ui_input \<Rightarrow> addr \<Rightarrow> topic_node \<Rightarrow> app_state \<Rightarrow> app_state option" where
  "row_click inp node n st =
     (if ui_over inp (El ''TreePanel'') \<and> ui_over inp (El_node node) then do {
        st \<leftarrow> (if ui_left inp then row_left_click inp node n st else Some st);
        Some (if ui_right inp
              then st\<lparr>as_context_menu_target := Some node, as_context_menu_x := fst (ui_mouse inp),
                      as_context_menu_y := snd (ui_mouse inp), as_context_menu_open := True\<rparr>
              else st)
      }
      else Some st)"

primrec render_node :: "nat \<Rightarrow> ui_input \<Rightarrow> u64 \<Rightarrow> nat \<Rightarrow> addr \<Rightarrow> app_state \<times> tree_row list
    \<Rightarrow> (app_state \<times> tree_row list) option" where
  "render_node 0 inp now depth node s = None"
| "render_node (Suc fuel) inp now depth node s = do {
     let (st, rows) = s;
     n \<leftarrow> node_at (as_topic_tree st) node;
     if as_topic_filter st \<noteq> [] \<and> \<not> tn_filter_match n then Some s
     else do {
       row \<leftarrow> row_of_node st node n depth now;
       st \<leftarrow> row_click inp node n st;
       n' \<leftarrow> node_at (as_topic_tree st) node;
       (if tn_children n \<noteq> [] \<and> tn_expanded n'
        then option_fold (render_node fuel inp now (depth + 1)) (tn_children n') (st, rows @ [row])
        else Some (st, rows @ [row]))
     }
   }"

subsection \<open>Search results\<close>

definition search_meta :: "slot \<Rightarrow> string" where
  "search_meta r = snprintf 32 (''Q'' @ dec (unat (mr_qos r)) @ (if mr_retained r then '' R'' else ''''))"

definition search_click :: "ui_input \<Rightarrow> nat \<Rightarrow> tree_widget \<times> app_state \<Rightarrow> (tree_widget \<times> app_state) option" where
  "search_click inp i s =
     (let (tw, st) = s; expanded = (int i = tw_search_expanded_idx tw); r = tw_search_results tw ! i in
      if length (tw_search_results tw) \<le> i then None
      else if ui_over inp (El_idx ''SROpen'' i) \<and> ui_left inp then do {
        node \<leftarrow> topic_tree_find (as_topic_tree st) (mr_topic r);
        Some (tw, case node of
                    None \<Rightarrow> st
                  | Some a \<Rightarrow> (select_node a st)\<lparr>as_inspector_view := VIEW_HISTORY\<rparr>)
      }
      else if ui_over inp (El_idx ''SR'' i) \<and> ui_left inp then
        (let now_expanding = (\<not> expanded);
             tw = tw\<lparr>tw_search_expanded_idx := (if now_expanding then int i else - 1)\<rparr>
         in Some (tw, if now_expanding
                      then st\<lparr>as_frozen_message := r, as_inspector_frozen := True, as_selected_topic := None\<rparr>
                      else st\<lparr>as_inspector_frozen := False\<rparr>))
      else Some s)"

definition render_search_results :: "ui_input \<Rightarrow> tree_widget \<times> app_state \<Rightarrow> (tree_widget \<times> app_state) option" where
  "render_search_results inp s =
     (if as_topic_filter (snd s) = [] then Some s
      else if tw_search_result_count (fst s) = 0 then Some s
      else option_fold (search_click inp) [0..<nat (tw_search_result_count (fst s))] s)"

subsection \<open>The filter field\<close>

text \<open>\<open>while (GetCharPressed() != 0) {}\<close>\<close>

definition drain_chars :: "keyboard \<Rightarrow> keyboard" where
  "drain_chars kb = kb\<lparr>kb_chars := drop 1 (dropWhile (\<lambda>ch. ch \<noteq> 0) (kb_chars kb))\<rparr>"

definition filter_edit :: "(int \<Rightarrow> string) \<Rightarrow> tree_widget \<times> app_state \<times> keyboard \<Rightarrow> (tree_widget \<times> app_state \<times> keyboard) option" where
  "filter_edit utf8 s = do {
     let (tw, st, kb) = s;
     let caret = (if tw_filter_was_focused tw then tw_filter_caret tw else length (as_topic_filter st));
     (_, e, kb) \<leftarrow> text_edit_update utf8 256 False True
        \<lparr>ed_buf = as_topic_filter st, ed_caret = caret, ed_all = as_topic_filter_all_selected st\<rparr> kb;
     let st = st\<lparr>as_topic_filter := ed_buf e, as_topic_filter_all_selected := ed_all e\<rparr>;
     let st = (if KEY_ESCAPE \<in> kb_pressed kb
               then st\<lparr>as_topic_filter := '''', as_topic_filter_focused := False, as_topic_filter_all_selected := False\<rparr>
               else st);
     Some (tw\<lparr>tw_filter_caret := ed_caret e\<rparr>, st, kb)
   }"

definition filter_keys :: "(int \<Rightarrow> string) \<Rightarrow> tree_widget \<times> app_state \<times> keyboard \<Rightarrow> (tree_widget \<times> app_state \<times> keyboard) option" where
  "filter_keys utf8 s = do {
     let (tw, st, kb) = s;
     (tw, st, kb) \<leftarrow>
       (if as_topic_filter_focused st \<and> \<not> as_publish_panel_open st \<and> \<not> as_context_menu_open st \<and> \<not> as_profile_dialog_open st
        then filter_edit utf8 s
        else Some (tw, st, if \<not> as_publish_panel_open st \<and> \<not> as_profile_dialog_open st then drain_chars kb else kb));
     let tw = tw\<lparr>tw_filter_was_focused := as_topic_filter_focused st\<rparr>;
     let st = (if as_publish_panel_open st \<or> as_context_menu_open st \<or> as_profile_dialog_open st \<or> as_about_dialog_open st
               then st\<lparr>as_topic_filter_focused := False, as_topic_filter_all_selected := False\<rparr> else st);
     Some (tw, st, kb)
   }"

definition run_search :: "(string \<Rightarrow> (int \<times> string \<times> bytes option) list \<Rightarrow> int list option) \<Rightarrow> app_state
    \<Rightarrow> tree_widget \<times> db option \<Rightarrow> tree_widget \<times> db option" where
  "run_search fts_match st s =
     (let (tw, handle) = s;
          search_mode = as_topic_filter_search_mode st;
          (tw, handle) =
            (if search_mode \<and> (\<not> tw_last_search_mode tw \<or> as_topic_filter st \<noteq> tw_last_search_query tw)
             then
               let (n, results, handle) =
                     db_search_messages fts_match handle (Some (as_topic_filter st)) (tw_search_results tw) (int SEARCH_MAX_RESULTS)
               in (tw\<lparr>tw_last_search_query := util_str_copy (tw_last_search_query tw) 256 (Some (as_topic_filter st)),
                      tw_search_results := results, tw_search_result_count := (if n > 0 then n else 0),
                      tw_search_expanded_idx := - 1\<rparr>, handle)
             else (tw, handle))
      in (tw\<lparr>tw_last_search_mode := search_mode\<rparr>, handle))"

definition format_filter :: "app_state \<Rightarrow> tree_widget \<Rightarrow> tree_widget" where
  "format_filter st tw =
     (let filter_selected = (as_topic_filter_focused st \<and> as_topic_filter_all_selected st) in
      if as_topic_filter st \<noteq> [] then
        (let (display, marker) = text_edit_format (tw_filter_display tw) 260 (Some (as_topic_filter st)) (tw_filter_caret tw)
                                   (as_topic_filter_focused st \<and> \<not> filter_selected)
         in tw\<lparr>tw_filter_display := display, tw_filter_marker := marker\<rparr>)
      else tw)"

definition click_caret :: "(string \<Rightarrow> rat) \<Rightarrow> ui_input \<Rightarrow> tree_widget \<Rightarrow> string \<Rightarrow> nat option" where
  "click_caret width inp tw raw =
     (case ui_rel inp (El ''FilterText'') of
        None \<Rightarrow> Some (length raw)
      | Some (x, y, w) \<Rightarrow>
          map_option (\<lambda>caret. if caret > length raw then length raw else caret)
            (text_edit_hit_test width (tw_filter_display tw) (tw_filter_marker tw) 13 0 x 0))"

definition filter_clicks :: "(string \<Rightarrow> rat) \<Rightarrow> ui_input \<Rightarrow> tree_widget \<times> app_state \<Rightarrow> (tree_widget \<times> app_state) option" where
  "filter_clicks width inp s =
     (let (tw, st) = s;
          raw = as_topic_filter st;
          filter_hovered = ui_over inp (El ''FilterInput'');
          clear_hovered = (raw \<noteq> [] \<and> ui_over inp (El ''FilterClearBtn''))
      in if ui_left inp then do {
           (tw, st) \<leftarrow>
             (if ui_over inp (El ''FilterModeBtn'')
              then Some (tw, st\<lparr>as_topic_filter_search_mode := (\<not> as_topic_filter_search_mode st)\<rparr>)
              else if clear_hovered then Some (tw, st\<lparr>as_topic_filter := '''', as_topic_filter_focused := False\<rparr>)
              else do {
                caret \<leftarrow> (if filter_hovered \<and> raw \<noteq> [] then click_caret width inp tw raw else Some (length raw));
                Some (tw\<lparr>tw_filter_caret := caret, tw_filter_was_focused := filter_hovered\<rparr>,
                      st\<lparr>as_topic_filter_focused := filter_hovered\<rparr>)
              });
           Some (tw, st\<lparr>as_topic_filter_all_selected := False\<rparr>)
         }
         else Some s)"

subsection \<open>The widget\<close>

text \<open>The tree itself, when the widget does not show search results.\<close>

definition render_tree :: "ui_input \<Rightarrow> tree_widget \<times> app_state \<Rightarrow> (tree_widget \<times> app_state \<times> tree_row list) option" where
  "render_tree inp s = do {
     let (tw, st) = s;
     let now = ui_now inp;
     let tw = (if as_selected_topic st \<noteq> tw_flash_last_selected tw
               then tw\<lparr>tw_flash_last_selected := as_selected_topic st, tw_flash_selection_changed_us := now\<rparr> else tw);
     let suppress_flash = (now - tw_flash_selection_changed_us tw < 500000);
     ((last_filter, last_node_count), t) \<leftarrow>
        filter_refresh (as_topic_filter st) ((tw_last_filter tw, tw_last_node_count tw), as_topic_tree st);
     let tw = tw\<lparr>tw_last_filter := last_filter, tw_last_node_count := last_node_count\<rparr>;
     (st, rows) \<leftarrow> option_fold (render_node (walk_fuel t) inp (if suppress_flash then 0 else now) 0) (tt_roots t)
        (st\<lparr>as_topic_tree := t\<rparr>, []);
     Some (tw, st, rows)
   }"

definition tree_widget_render :: "(int \<Rightarrow> string) \<Rightarrow> (string \<Rightarrow> rat)
    \<Rightarrow> (string \<Rightarrow> (int \<times> string \<times> bytes option) list \<Rightarrow> int list option) \<Rightarrow> ui_input
    \<Rightarrow> tree_widget \<times> app_state \<times> keyboard \<times> db option
    \<Rightarrow> ((tree_widget \<times> app_state \<times> keyboard \<times> db option) \<times> tree_row list) option" where
  "tree_widget_render utf8 width fts_match inp s = do {
     let (tw, st, kb, handle) = s;
     (tw, st, kb) \<leftarrow> filter_keys utf8 (tw, st, kb);
     let search_mode = as_topic_filter_search_mode st;
     let (tw, handle) = run_search fts_match st (tw, handle);
     (tw, st) \<leftarrow> filter_clicks width inp (format_filter st tw, st);
     (if search_mode
      then map_option (\<lambda>(tw, st). ((tw, st, kb, handle), [])) (render_search_results inp (tw, st))
      else map_option (\<lambda>(tw, st, rows). ((tw, st, kb, handle), rows)) (render_tree inp (tw, st)))
   }"

end
