(* ===== verification/Drawing.thy ===== *)
theory Drawing
  imports Main_Loop Cbor_PP
begin

text \<open>
  What reaches the screen. \<open>src/src/platform/ui.c\<close>: the window, the fonts and their change with the
  display; the render loop at the end of a frame of \<open>src/src/main.c\<close>, which turns Clay's render
  commands into calls of Raylib; the cards and the plots of \<open>src/src/ui/chart_panel.c\<close>. The calls of
  Raylib are values, in the order they are made. A conversion out of the range of its type is
  undefined behaviour: \<open>None\<close>.
\<close>

subsection \<open>Window and fonts\<close>

datatype display_call = Init_Window int int | Load_Font nat int "nat list" | Unload_Font nat | Close_Window

record ui_display =
  ud_font_scale :: dbl
  ud_last_screen :: "int \<times> int"
  ud_last_render :: "int \<times> int"
  ud_codepoints :: "nat list"
  ud_clay_mem :: "nat option"

definition extra_codepoints :: "nat list" where
  "extra_codepoints = [0x03A3, 0x2022, 0x25B2, 0x25B8, 0x25BE, 0x25CB, 0x25CF, 0x2713]"

definition build_codepoints :: "nat list" where
  "build_codepoints = [32..<256] @ extra_codepoints"

definition current_dpi_scale :: "dbl \<Rightarrow> dbl" where
  "current_dpi_scale dpi_x = (if flt_less (flt (1 / 2)) dpi_x then dpi_x else Fin 1)"

definition load_fonts :: "dbl \<Rightarrow> ui_display \<Rightarrow> (ui_display \<times> display_call list) option" where
  "load_fonts scale d =
     map_option (\<lambda>atlas_px. (d\<lparr>ud_font_scale := scale\<rparr>,
                             [Load_Font 0 atlas_px (ud_codepoints d), Load_Font 1 atlas_px (ud_codepoints d)]))
       (int_of_flt (flt_add (flt_mul (Fin 16) scale) (flt (1 / 2))))"

text \<open>\<open>mem\<close> is what \<open>malloc\<close> returns for Clay's arena.\<close>

definition ui_init :: "dbl \<Rightarrow> nat option \<Rightarrow> ui_display \<Rightarrow> (bool \<times> ui_display \<times> display_call list) option" where
  "ui_init dpi_x mem d = do {
     (d, calls) \<leftarrow> load_fonts (current_dpi_scale dpi_x) (d\<lparr>ud_codepoints := build_codepoints\<rparr>);
     Some (mem \<noteq> None, d\<lparr>ud_clay_mem := mem\<rparr>, Init_Window 1280 800 # calls)
   }"

definition ui_shutdown :: "ui_display \<Rightarrow> ui_display \<times> display_call list" where
  "ui_shutdown d = (d\<lparr>ud_clay_mem := None\<rparr>, [Unload_Font 0, Unload_Font 1, Close_Window])"

definition ui_check_display_change ::
    "int \<times> int \<Rightarrow> int \<times> int \<Rightarrow> dbl \<Rightarrow> ui_display \<Rightarrow> (ui_display \<times> display_call list) option" where
  "ui_check_display_change screen render dpi_x d =
     (let d = (if screen \<noteq> ud_last_screen d \<or> render \<noteq> ud_last_render d
               then d\<lparr>ud_last_screen := screen, ud_last_render := render\<rparr> else d);
          scale = current_dpi_scale dpi_x
      in if scale \<noteq> ud_font_scale d
         then map_option (\<lambda>(d, calls). (d, [Unload_Font 0, Unload_Font 1] @ calls)) (load_fonts scale d)
         else Some (d, []))"

text \<open>The text that is measured, and drawn: at most 4095 bytes of it.\<close>

definition text_slice :: "string \<Rightarrow> string" where
  "text_slice chars =
     (let len = length chars; len = (if len \<ge> 4096 then 4096 - 1 else len) in take len chars)"

definition measure_text :: "(nat \<Rightarrow> string \<Rightarrow> nat \<Rightarrow> dbl \<times> dbl) \<Rightarrow> string \<Rightarrow> nat \<Rightarrow> nat \<Rightarrow> dbl \<times> dbl" where
  "measure_text measure_ex chars font_id font_size = measure_ex font_id (text_slice chars) font_size"

lemma length_text_slice: "length (text_slice chars) < 4096"
  by (simp add: text_slice_def Let_def)

text \<open>The atlas has room for every code point, and no code point twice.\<close>

lemma codepoints_fit: "length build_codepoints \<le> 256 \<and> distinct build_codepoints"
  by (simp add: build_codepoints_def extra_codepoints_def)

text \<open>
  The snowflake of a frozen message (U+2744) and the dash of an empty chart (U+2014) are not among
  them, so both are drawn as the font's replacement glyph.
\<close>

lemma glyphs_missing: "0x2744 \<notin> set build_codepoints \<and> 0x2014 \<notin> set build_codepoints"
  by (simp add: build_codepoints_def extra_codepoints_def)

subsection \<open>Calls of Raylib\<close>

type_synonym color = "dbl \<times> dbl \<times> dbl \<times> dbl"
type_synonym pixel = "int \<times> int \<times> int \<times> int"
type_synonym point = "dbl \<times> dbl"

datatype draw_call =
    Draw_Rectangle int int int int pixel
  | Draw_Rectangle_Rounded box dbl pixel
  | Draw_Rectangle_Rec box pixel
  | Draw_Text nat string point dbl pixel
  | Draw_Line point point dbl pixel
  | Draw_Circle point dbl pixel
  | Draw_Circle_Lines int int dbl pixel
  | Begin_Scissor int int int int
  | End_Scissor

definition byte_of_flt :: "dbl \<Rightarrow> int option" where
  "byte_of_flt x = Option.bind (int_of_flt x) (\<lambda>i. if 0 \<le> i \<and> i < 256 then Some i else None)"

definition to_pixel :: "color \<Rightarrow> pixel option" where
  "to_pixel c = (case c of (r, g, b, a) \<Rightarrow> do {
     r \<leftarrow> byte_of_flt r; g \<leftarrow> byte_of_flt g; b \<leftarrow> byte_of_flt b; a \<leftarrow> byte_of_flt a;
     Some (r, g, b, a)
   })"

definition draw_rectangle :: "dbl \<Rightarrow> dbl \<Rightarrow> dbl \<Rightarrow> dbl \<Rightarrow> pixel \<Rightarrow> draw_call option" where
  "draw_rectangle x y w h col = do {
     x \<leftarrow> int_of_flt x; y \<leftarrow> int_of_flt y; w \<leftarrow> int_of_flt w; h \<leftarrow> int_of_flt h;
     Some (Draw_Rectangle x y w h col)
   }"

definition begin_scissor :: "box \<Rightarrow> draw_call option" where
  "begin_scissor b = do {
     x \<leftarrow> int_of_flt (bx_x b); y \<leftarrow> int_of_flt (bx_y b);
     w \<leftarrow> int_of_flt (bx_width b); h \<leftarrow> int_of_flt (bx_height b);
     Some (Begin_Scissor x y w h)
   }"

subsection \<open>The render loop\<close>

text \<open>The widths of a border: top, bottom, left, right.\<close>

datatype render_cmd =
    Cmd_Rectangle box color dbl
  | Cmd_Text box string nat nat color
  | Cmd_Scissor_Start box
  | Cmd_Scissor_End
  | Cmd_Border box "nat \<times> nat \<times> nat \<times> nat" color
  | Cmd_Other

definition render_rectangle :: "box \<Rightarrow> color \<Rightarrow> dbl \<Rightarrow> draw_call list option" where
  "render_rectangle bb c radius =
     (if flt_less (Fin 0) radius then do {
        let norm = flt_div radius (if flt_less (bx_width bb) (bx_height bb) then bx_width bb else bx_height bb);
        col \<leftarrow> to_pixel c;
        Some [Draw_Rectangle_Rounded bb norm col]
      } else do {
        col \<leftarrow> to_pixel c;
        call \<leftarrow> draw_rectangle (bx_x bb) (bx_y bb) (bx_width bb) (bx_height bb) col;
        Some [call]
      })"

text \<open>\<open>roundf\<close>: to the nearest whole number, halves away from zero.\<close>

definition roundf :: "dbl \<Rightarrow> dbl" where
  "roundf x = (case x of Fin r \<Rightarrow> Fin (if r < 0 then - of_int \<lfloor>1 / 2 - r\<rfloor> else of_int \<lfloor>r + 1 / 2\<rfloor>) | _ \<Rightarrow> x)"

definition render_text :: "dbl \<Rightarrow> box \<Rightarrow> string \<Rightarrow> nat \<Rightarrow> nat \<Rightarrow> color \<Rightarrow> draw_call list option" where
  "render_text dpi_x bb chars font_id font_size c = do {
     let px_scale = current_dpi_scale dpi_x;
     col \<leftarrow> to_pixel c;
     Some [Draw_Text font_id (text_slice chars)
             (flt_div (roundf (flt_mul (bx_x bb) px_scale)) px_scale, flt_div (roundf (flt_mul (bx_y bb) px_scale)) px_scale)
             (Fin (of_nat font_size)) col]
   }"

definition intersect_box :: "box \<Rightarrow> box \<Rightarrow> box" where
  "intersect_box outer bb =
     (let x1 = (if flt_less (bx_x bb) (bx_x outer) then bx_x outer else bx_x bb);
          y1 = (if flt_less (bx_y bb) (bx_y outer) then bx_y outer else bx_y bb);
          ox = flt_add (bx_x outer) (bx_width outer); bx = flt_add (bx_x bb) (bx_width bb);
          oy = flt_add (bx_y outer) (bx_height outer); b_y = flt_add (bx_y bb) (bx_height bb);
          x2 = (if flt_less ox bx then ox else bx);
          y2 = (if flt_less oy b_y then oy else b_y)
      in \<lparr>bx_x = x1, bx_y = y1, bx_width = (if flt_less x1 x2 then flt_sub x2 x1 else Fin 0),
          bx_height = (if flt_less y1 y2 then flt_sub y2 y1 else Fin 0)\<rparr>)"

definition render_border :: "box \<Rightarrow> nat \<times> nat \<times> nat \<times> nat \<Rightarrow> color \<Rightarrow> draw_call list option" where
  "render_border bb widths c = (case widths of (wt, wb, wl, wr) \<Rightarrow> do {
     col \<leftarrow> to_pixel c;
     top_call \<leftarrow> (if wt > 0 then map_option (\<lambda>d. [d]) (draw_rectangle (bx_x bb) (bx_y bb) (bx_width bb) (Fin (of_nat wt)) col)
             else Some []);
     bottom_call \<leftarrow> (if wb > 0 then map_option (\<lambda>d. [d])
               (draw_rectangle (bx_x bb) (flt_sub (flt_add (bx_y bb) (bx_height bb)) (Fin (of_nat wb))) (bx_width bb)
                  (Fin (of_nat wb)) col)
             else Some []);
     left_call \<leftarrow> (if wl > 0 then map_option (\<lambda>d. [d]) (draw_rectangle (bx_x bb) (bx_y bb) (Fin (of_nat wl)) (bx_height bb) col)
             else Some []);
     right_call \<leftarrow> (if wr > 0 then map_option (\<lambda>d. [d])
               (draw_rectangle (flt_sub (flt_add (bx_x bb) (bx_width bb)) (Fin (of_nat wr))) (bx_y bb) (Fin (of_nat wr))
                  (bx_height bb) col)
             else Some []);
     Some (top_call @ bottom_call @ left_call @ right_call)
   })"

text \<open>The stack holds the clip of each depth, the innermost first; it has room for eight.\<close>

definition render_step :: "dbl \<Rightarrow> box list \<Rightarrow> render_cmd \<Rightarrow> (box list \<times> draw_call list) option" where
  "render_step dpi_x stack cmd =
     (case cmd of
        Cmd_Rectangle bb c radius \<Rightarrow> map_option (Pair stack) (render_rectangle bb c radius)
      | Cmd_Text bb chars font_id font_size c \<Rightarrow> map_option (Pair stack) (render_text dpi_x bb chars font_id font_size c)
      | Cmd_Scissor_Start bb \<Rightarrow>
          (let clipped = (case stack of [] \<Rightarrow> bb | outer # _ \<Rightarrow> intersect_box outer bb);
               stack = (if length stack < 8 then clipped # stack else stack)
           in map_option (\<lambda>call. (stack, [call])) (begin_scissor clipped))
      | Cmd_Scissor_End \<Rightarrow>
          (let stack = tl stack in
           case stack of
             [] \<Rightarrow> Some (stack, [End_Scissor])
           | s # _ \<Rightarrow> map_option (\<lambda>call. (stack, [call])) (begin_scissor s))
      | Cmd_Border bb widths c \<Rightarrow> map_option (Pair stack) (render_border bb widths c)
      | Cmd_Other \<Rightarrow> Some (stack, []))"

fun render_loop :: "dbl \<Rightarrow> box list \<Rightarrow> render_cmd list \<Rightarrow> (box list \<times> draw_call list) option" where
  "render_loop dpi_x stack [] = Some (stack, [])"
| "render_loop dpi_x stack (cmd # cmds) = do {
     (stack, calls) \<leftarrow> render_step dpi_x stack cmd;
     (stack, more) \<leftarrow> render_loop dpi_x stack cmds;
     Some (stack, calls @ more)
   }"

text \<open>A ninth clip is not pushed, but its end pops the eighth.\<close>

lemma ninth_clip:
  assumes "length stack = 8" "render_loop dpi_x stack [Cmd_Scissor_Start b, Cmd_Scissor_End] = Some (stack', calls)"
  shows "stack' = tl stack"
proof -
  obtain s1 s2 rest where "stack = s1 # s2 # rest"
    using assms(1) by (auto simp: numeral_eq_Suc length_Suc_conv)
  then show ?thesis using assms by (auto simp: render_step_def Let_def bind_eq_Some_conv)
qed

subsection \<open>Nested clips\<close>

text \<open>
  Raylib keeps one clip: a new one replaces it, and the end of one removes it. \<open>painted\<close> gives every
  shape and text with the clip in force when it is drawn.
\<close>

type_synonym clip = "(int \<times> int \<times> int \<times> int) option"

fun painted :: "clip \<Rightarrow> draw_call list \<Rightarrow> (clip \<times> draw_call) list" where
  "painted c [] = []"
| "painted c (Begin_Scissor x y w h # ds) = painted (Some (x, y, w, h)) ds"
| "painted c (End_Scissor # ds) = painted None ds"
| "painted c (d # ds) = (c, d) # painted c ds"

text \<open>
  What nested clips mean: under the boxes that enclose it, the innermost first, a shape is cut to the
  intersection of all of them.
\<close>

fun clip_box :: "box list \<Rightarrow> box option" where
  "clip_box [] = None"
| "clip_box (b # bs) = Some (case clip_box bs of None \<Rightarrow> b | Some outer \<Rightarrow> intersect_box outer b)"

definition box_pixels :: "box \<Rightarrow> (int \<times> int \<times> int \<times> int) option" where
  "box_pixels b = do {
     x \<leftarrow> int_of_flt (bx_x b); y \<leftarrow> int_of_flt (bx_y b);
     w \<leftarrow> int_of_flt (bx_width b); h \<leftarrow> int_of_flt (bx_height b);
     Some (x, y, w, h)
   }"

definition clip_under :: "box list \<Rightarrow> clip option" where
  "clip_under bs = (case clip_box bs of None \<Rightarrow> Some None | Some b \<Rightarrow> map_option Some (box_pixels b))"

definition shapes :: "dbl \<Rightarrow> render_cmd \<Rightarrow> draw_call list option" where
  "shapes dpi_x cmd =
     (case cmd of
        Cmd_Rectangle bb c radius \<Rightarrow> render_rectangle bb c radius
      | Cmd_Text bb chars font_id font_size c \<Rightarrow> render_text dpi_x bb chars font_id font_size c
      | Cmd_Border bb widths c \<Rightarrow> render_border bb widths c
      | _ \<Rightarrow> Some [])"

fun nested_paint :: "dbl \<Rightarrow> box list \<Rightarrow> render_cmd list \<Rightarrow> (clip \<times> draw_call) list option" where
  "nested_paint dpi_x bs [] = Some []"
| "nested_paint dpi_x bs (Cmd_Scissor_Start b # cmds) = nested_paint dpi_x (b # bs) cmds"
| "nested_paint dpi_x bs (Cmd_Scissor_End # cmds) = nested_paint dpi_x (tl bs) cmds"
| "nested_paint dpi_x bs (cmd # cmds) = do {
     c \<leftarrow> clip_under bs;
     ds \<leftarrow> shapes dpi_x cmd;
     more \<leftarrow> nested_paint dpi_x bs cmds;
     Some (map (Pair c) ds @ more)
   }"

text \<open>Commands that, \<open>d\<close> deep, never open a ninth clip.\<close>

fun nesting_ok :: "nat \<Rightarrow> render_cmd list \<Rightarrow> bool" where
  "nesting_ok d [] \<longleftrightarrow> True"
| "nesting_ok d (Cmd_Scissor_Start b # cmds) \<longleftrightarrow> d < 8 \<and> nesting_ok (d + 1) cmds"
| "nesting_ok d (Cmd_Scissor_End # cmds) \<longleftrightarrow> nesting_ok (d - 1) cmds"
| "nesting_ok d (cmd # cmds) \<longleftrightarrow> nesting_ok d cmds"

text \<open>The stack that belongs to the enclosing boxes.\<close>

fun clip_stack :: "box list \<Rightarrow> box list" where
  "clip_stack [] = []"
| "clip_stack (b # bs) = (case clip_box bs of None \<Rightarrow> b | Some outer \<Rightarrow> intersect_box outer b) # clip_stack bs"

lemma length_clip_stack [simp]: "length (clip_stack bs) = length bs"
  by (induction bs) auto

lemma clip_stack_tl: "clip_stack (tl bs) = tl (clip_stack bs)"
  by (cases bs) auto

lemma clip_box_stack: "clip_box bs = (case clip_stack bs of [] \<Rightarrow> None | b # _ \<Rightarrow> Some b)"
  by (cases bs) auto

lemma begin_scissor_painted:
  "begin_scissor b = Some call \<Longrightarrow> \<exists>c. box_pixels b = Some c \<and> (\<forall>c' ds. painted c' (call # ds) = painted (Some c) ds)"
  by (auto simp: begin_scissor_def box_pixels_def bind_eq_Some_conv)

lemma draw_rectangle_shape:
  "draw_rectangle x y w h col = Some d \<Longrightarrow> painted c (d # ds) = (c, d) # painted c ds"
  by (auto simp: draw_rectangle_def bind_eq_Some_conv)

lemma render_rectangle_painted:
  "render_rectangle bb c radius = Some ds \<Longrightarrow> painted cl (ds @ rest) = map (Pair cl) ds @ painted cl rest"
  by (auto simp: render_rectangle_def bind_eq_Some_conv draw_rectangle_shape split: if_splits)

lemma render_border_painted:
  "render_border bb ws c = Some ds \<Longrightarrow> painted cl (ds @ rest) = map (Pair cl) ds @ painted cl rest"
  by (auto simp: render_border_def bind_eq_Some_conv draw_rectangle_shape split: if_splits prod.splits)

lemma shapes_painted:
  "shapes dpi_x cmd = Some ds \<Longrightarrow> painted c (ds @ rest) = map (Pair c) ds @ painted c rest"
  by (auto simp: shapes_def render_rectangle_painted render_border_painted render_text_def Let_def bind_eq_Some_conv
      split: render_cmd.splits)

lemma render_step_shapes:
  "(\<And>b. cmd \<noteq> Cmd_Scissor_Start b) \<Longrightarrow> cmd \<noteq> Cmd_Scissor_End \<Longrightarrow>
     render_step dpi_x stack cmd = map_option (Pair stack) (shapes dpi_x cmd)"
  by (auto simp: render_step_def shapes_def split: render_cmd.split)

lemma render_loop_nested:
  "render_loop dpi_x (clip_stack bs) cmds = Some (stack, calls) \<Longrightarrow> nesting_ok (length bs) cmds \<Longrightarrow>
     clip_under bs = Some c \<Longrightarrow> nested_paint dpi_x bs cmds = Some (painted c calls)"
proof (induction cmds arbitrary: bs c stack calls)
  case (Cons cmd cmds)
  obtain stack1 ds more where step: "render_step dpi_x (clip_stack bs) cmd = Some (stack1, ds)"
    and more: "render_loop dpi_x stack1 cmds = Some (stack, more)" "calls = ds @ more"
    using Cons.prems(1) by (auto simp: bind_eq_Some_conv)
  show ?case
  proof (cases "(\<exists>b. cmd = Cmd_Scissor_Start b) \<or> cmd = Cmd_Scissor_End")
    case False
    then have "shapes dpi_x cmd = Some ds" "stack1 = clip_stack bs"
      using step by (auto simp: render_step_shapes)
    with Cons more False show ?thesis
      by (cases cmd) (auto simp: shapes_painted)
  next
    case True
    then consider (start) b where "cmd = Cmd_Scissor_Start b" | (stop) "cmd = Cmd_Scissor_End" by auto
    then show ?thesis
    proof cases
      case start
      then obtain call where call: "begin_scissor (hd (clip_stack (b # bs))) = Some call" "ds = [call]"
          "stack1 = clip_stack (b # bs)"
        using step Cons.prems(2) by (auto simp: render_step_def clip_box_stack Let_def split: list.splits)
      then obtain c1 where c1: "box_pixels (hd (clip_stack (b # bs))) = Some c1"
          "\<And>c' ds. painted c' (call # ds) = painted (Some c1) ds" using begin_scissor_painted by blast
      have "clip_under (b # bs) = Some (Some c1)" using c1(1) by (simp add: clip_under_def clip_box_stack)
      with Cons.IH [of "b # bs"] call more start c1(2) Cons.prems(2) show ?thesis by simp
    next
      case stop
      have *: "clip_stack (tl bs) = tl (clip_stack bs)" by (rule clip_stack_tl)
      show ?thesis
      proof (cases "tl (clip_stack bs)")
        case Nil
        then have "ds = [End_Scissor]" "stack1 = clip_stack (tl bs)"
          using step stop * by (auto simp: render_step_def Let_def)
        moreover have "clip_under (tl bs) = Some None" using Nil * by (simp add: clip_under_def clip_box_stack)
        ultimately show ?thesis using Cons.IH [of "tl bs"] more stop Cons.prems(2) by simp
      next
        case (Cons s rest)
        then obtain call where call: "begin_scissor s = Some call" "ds = [call]" "stack1 = clip_stack (tl bs)"
          using step stop * by (auto simp: render_step_def Let_def)
        then obtain c1 where c1: "box_pixels s = Some c1"
            "\<And>c' ds. painted c' (call # ds) = painted (Some c1) ds" using begin_scissor_painted by blast
        have "clip_under (tl bs) = Some (Some c1)" using c1(1) * Cons by (simp add: clip_under_def clip_box_stack)
        with Cons.IH [of "tl bs"] call more stop c1(2) Cons.prems(2) show ?thesis by simp
      qed
    qed
  qed
qed simp


definition sample_box :: "rat \<Rightarrow> rat \<Rightarrow> box" where
  "sample_box p n = \<lparr>bx_x = Fin p, bx_y = Fin p, bx_width = Fin n, bx_height = Fin n\<rparr>"

definition sample_cmds :: "render_cmd list" where
  "sample_cmds =
     [Cmd_Scissor_Start (sample_box 0 8), Cmd_Scissor_Start (sample_box 4 8), Cmd_Scissor_End,
      Cmd_Rectangle (sample_box 1 2) (Fin 9, Fin 9, Fin 9, Fin 255) (Fin 0), Cmd_Scissor_End]"

lemma sample_run:
  "render_loop (Fin 1) [] sample_cmds =
     Some ([], [Begin_Scissor 0 0 8 8, Begin_Scissor 4 4 4 4, Begin_Scissor 0 0 8 8, Draw_Rectangle 1 1 2 2 (9, 9, 9, 255),
                End_Scissor])"
  by code_simp


subsection \<open>The cards of the charts\<close>

text \<open>
  \<open>%.4g\<close> of a stored value, and the dash of a series without one. A card shows its series, label
  and value; a cell of the grid without a series is empty. A stored value is a rational, so a
  negative zero is shown as zero.
\<close>

definition fmt_4g :: "nat \<Rightarrow> rat \<Rightarrow> string" where
  "fmt_4g cap v = snprintf cap (fmt_g 4 (v < 0) v)"

definition dash :: string where
  "dash = map char_of [0xE2, 0x80, 0x94 :: nat]"

datatype chart_cell = Chart_Card nat string string | Chart_Empty nat

definition chart_card :: "app_state \<Rightarrow> nat \<Rightarrow> chart_cell option" where
  "chart_card st slot =
     (case chart_panel_active_at st slot of
        None \<Rightarrow> Some (Chart_Empty slot)
      | Some si \<Rightarrow> do {
          let ser = as_chart_series st ! si;
          val_buf \<leftarrow> (if cs_count ser > 0 then do {
                      sm \<leftarrow> chart_series_get ser (cs_count ser - 1);
                      Some (fmt_4g 32 (sa_value sm))
                    } else Some (snprintf 32 dash));
          Some (Chart_Card si (chart_label ser) val_buf)
        })"

definition chart_panel_render :: "app_state \<Rightarrow> chart_cell list list option" where
  "chart_panel_render st =
     (let active_count = length (filter cs_active (as_chart_series st)) in
      if active_count = 0 then Some []
      else
        let (cols, rows) = chart_panel_grid active_count
        in those (map (\<lambda>r. those (map (\<lambda>c. chart_card st (r * cols + c)) [0..<cols])) [0..<rows]))"

subsection \<open>The plots\<close>

definition grid_col :: pixel where "grid_col = (80, 80, 100, 90)"
definition line_col :: pixel where "line_col = (102, 153, 255, 255)"
definition cursor_col :: pixel where "cursor_col = (200, 200, 220, 220)"
definition label_col :: pixel where "label_col = (136, 136, 136, 220)"
definition tooltip_bg :: pixel where "tooltip_bg = (25, 30, 45, 235)"
definition tooltip_fg :: pixel where "tooltip_fg = (230, 230, 240, 255)"

text \<open>
  Where a plot draws: its corner and size, the range of values (\<open>pl_y_min\<close> and the extent) and the
  range of time.
\<close>

record plot =
  pl_px0 :: dbl
  pl_py0 :: dbl
  pl_pw :: dbl
  pl_ph :: dbl
  pl_y_min :: dbl
  pl_y_range :: dbl
  pl_t_first :: u64
  pl_t_last :: u64
  pl_t_range_us :: dbl

definition plot_values :: "chart_series \<Rightarrow> dbl \<times> dbl" where
  "plot_values ser =
     (let y_min = round_flt (cs_y_min ser); y_max = round_flt (cs_y_max ser); y_range = flt_sub y_max y_min in
      if flt_less y_range (flt (1 / 10 ^ 9)) then (flt_sub y_min (flt (1 / 2)), Fin 1) else (y_min, y_range))"

definition plot_times :: "chart_series \<Rightarrow> (u64 \<times> u64 \<times> dbl) option" where
  "plot_times ser =
     (if cs_count ser \<ge> 1 then do {
        a \<leftarrow> chart_series_get ser 0;
        b \<leftarrow> chart_series_get ser (cs_count ser - 1);
        let range_us = round_dbl (of_nat (unat (sa_ts_us b - sa_ts_us a)));
        Some (sa_ts_us a, sa_ts_us b, if flt_less range_us (Fin 1) then Fin 1 else range_us)
      } else Some (0, 0, Fin 1))"

definition plot_x :: "plot \<Rightarrow> u64 \<Rightarrow> dbl" where
  "plot_x p ts_us =
     flt_add (pl_px0 p)
       (flt_mul (flt_of_dbl (dbl_div (round_dbl (of_nat (unat (ts_us - pl_t_first p)))) (pl_t_range_us p))) (pl_pw p))"

text \<open>\<open>sm->value - y_min\<close> is a difference of doubles: the \<open>float\<close> is widened first.\<close>

definition dbl_minus_flt :: "rat \<Rightarrow> dbl \<Rightarrow> dbl" where
  "dbl_minus_flt v y = (case y of Fin r \<Rightarrow> dbl_sub v r | Inf n \<Rightarrow> Inf (\<not> n) | Nan \<Rightarrow> Nan)"

definition plot_y :: "plot \<Rightarrow> rat \<Rightarrow> dbl" where
  "plot_y p v =
     flt_sub (flt_add (pl_py0 p) (pl_ph p))
       (flt_mul (flt_div (flt_of_dbl (dbl_minus_flt v (pl_y_min p))) (pl_y_range p)) (pl_ph p))"

definition draw_grid :: "plot \<Rightarrow> draw_call list" where
  "draw_grid p =
     map (\<lambda>g. let gy = flt_add (pl_py0 p) (flt_div (flt_mul (Fin (of_nat g)) (pl_ph p)) (Fin 4))
              in Draw_Line (pl_px0 p, gy) (flt_add (pl_px0 p) (pl_pw p), gy) (Fin 1) grid_col) [1..<4]"

text \<open>The strip of lines from sample to sample; \<open>prev_pt\<close> is the last point.\<close>

fun draw_strip :: "plot \<Rightarrow> chart_series \<Rightarrow> nat list \<Rightarrow> point \<Rightarrow> draw_call list option" where
  "draw_strip p ser [] prev_pt = Some []"
| "draw_strip p ser (i # is) prev_pt = do {
     sm \<leftarrow> chart_series_get ser (word_of_nat i);
     let cur_pt = (plot_x p (sa_ts_us sm), plot_y p (sa_value sm));
     more \<leftarrow> draw_strip p ser is cur_pt;
     Some (if i > 0 then Draw_Line prev_pt cur_pt (flt (3 / 2)) line_col # more else more)
   }"

text \<open>The loop for the sample nearest to the mouse: its index, its distance and its point.\<close>

fun hover_loop :: "plot \<Rightarrow> dbl \<Rightarrow> chart_series \<Rightarrow> nat list \<Rightarrow> nat \<times> dbl \<times> point \<Rightarrow> (nat \<times> dbl \<times> point) option" where
  "hover_loop p mouse_x ser [] best = Some best"
| "hover_loop p mouse_x ser (i # is) best = do {
     sm \<leftarrow> chart_series_get ser (word_of_nat i);
     let fx = plot_x p (sa_ts_us sm);
     let dx = flt_sub fx mouse_x;
     let dx = (if flt_less dx (Fin 0) then flt_neg dx else dx);
     hover_loop p mouse_x ser is (if flt_less dx (fst (snd best)) then (i, dx, (fx, plot_y p (sa_value sm))) else best)
   }"

text \<open>\<open>MeasureTextEx\<close> with the fixed font, a size and a spacing of 1; \<open>localtime_r\<close>.\<close>

type_synonym text_measure = "string \<Rightarrow> dbl \<Rightarrow> dbl \<times> dbl"
type_synonym local_time = "nat \<Rightarrow> (nat \<times> nat \<times> nat) option"

definition draw_hover :: "text_measure \<Rightarrow> local_time \<Rightarrow> dbl \<Rightarrow> box \<Rightarrow> plot \<Rightarrow> chart_series \<Rightarrow> draw_call list option" where
  "draw_hover width localtime mouse_x b p ser = do {
     (best, best_dx, fx_best, fy_best) \<leftarrow>
       hover_loop p mouse_x ser [0..<unat (cs_count ser)] (0, flt (10 ^ 30), (pl_px0 p, pl_py0 p));
     hit \<leftarrow> chart_series_get ser (word_of_nat best);
     cx \<leftarrow> int_of_flt fx_best;
     cy \<leftarrow> int_of_flt fy_best;
     let tip = snprintf 48 (util_fmt_hhmmss localtime (sa_ts_us hit) '''' 16 @ ''  '' @ fmt_4g 24 (sa_value hit));
     let (ts_x, ts_y) = width tip (Fin 11);
     let tx = flt_add fx_best (Fin 6);
     let ty = flt_sub (flt_sub fy_best ts_y) (Fin 6);
     let tx = (if flt_less (flt_add (bx_x b) (bx_width b)) (flt_add (flt_add tx ts_x) (Fin 6))
               then flt_sub (flt_sub fx_best ts_x) (Fin 10) else tx);
     let ty = (if flt_less ty (bx_y b) then flt_add fy_best (Fin 8) else ty);
     Some
       [Draw_Line (fx_best, pl_py0 p) (fx_best, flt_add (pl_py0 p) (pl_ph p)) (Fin 1) cursor_col,
        Draw_Circle (fx_best, fy_best) (Fin 3) line_col,
        Draw_Circle_Lines cx cy (Fin 4) cursor_col,
        Draw_Rectangle_Rec \<lparr>bx_x = flt_sub tx (Fin 4), bx_y = flt_sub ty (Fin 2), bx_width = flt_add ts_x (Fin 8),
                            bx_height = flt_add ts_y (Fin 4)\<rparr> tooltip_bg,
        Draw_Text 1 tip (tx, ty) (Fin 11) tooltip_fg]
   }"

definition draw_labels :: "text_measure \<Rightarrow> local_time \<Rightarrow> plot \<Rightarrow> chart_series \<Rightarrow> draw_call list" where
  "draw_labels width localtime p ser =
     (let y_low = flt_add (pl_py0 p) (pl_ph p);
          values =
            [Draw_Text 1 (fmt_4g 24 (cs_y_max ser)) (flt_add (pl_px0 p) (Fin 2), flt_add (pl_py0 p) (Fin 2)) (Fin 10) label_col,
             Draw_Text 1 (fmt_4g 24 (cs_y_min ser)) (flt_add (pl_px0 p) (Fin 2), flt_sub y_low (Fin 12)) (Fin 10) label_col];
          t_first = util_fmt_hhmmss localtime (pl_t_first p) '''' 16;
          t_last = util_fmt_hhmmss localtime (pl_t_last p) '''' 16
      in values @
         (if cs_count ser \<ge> 1
          then [Draw_Text 1 t_first (pl_px0 p, flt_add y_low (Fin 1)) (Fin 10) label_col,
                Draw_Text 1 t_last (flt_sub (flt_add (pl_px0 p) (pl_pw p)) (fst (width t_last (Fin 10))), flt_add y_low (Fin 1))
                  (Fin 10) label_col]
          else []))"

text \<open>One plot in its box: the series with its extremes brought up to date, and what is drawn.\<close>

definition draw_plot :: "text_measure \<Rightarrow> local_time \<Rightarrow> dbl \<times> dbl \<Rightarrow> box \<Rightarrow> chart_series
    \<Rightarrow> (chart_series \<times> draw_call list) option" where
  "draw_plot width localtime mouse b ser =
     (if flt_less (bx_width b) (Fin 4) \<or> flt_less (bx_height b) (Fin 4) then Some (ser, [])
      else
        let ser = (if cs_y_dirty ser then chart_series_recompute_minmax ser else ser);
            (y_min, y_range) = plot_values ser;
            pw = flt_sub (bx_width b) (Fin 8);
            ph = flt_sub (flt_sub (bx_height b) (Fin 4)) (Fin 14)
        in if flt_less pw (Fin 4) \<or> flt_less ph (Fin 4) then Some (ser, [])
           else do {
             (t_first, t_last, t_range_us) \<leftarrow> plot_times ser;
             let p = \<lparr>pl_px0 = flt_add (bx_x b) (Fin 4), pl_py0 = flt_add (bx_y b) (Fin 4), pl_pw = pw, pl_ph = ph,
                      pl_y_min = y_min, pl_y_range = y_range, pl_t_first = t_first, pl_t_last = t_last,
                      pl_t_range_us = t_range_us\<rparr>;
             strip \<leftarrow> (if cs_count ser \<ge> 2 then draw_strip p ser [0..<unat (cs_count ser)] (Fin 0, Fin 0) else Some []);
             hover \<leftarrow> (if ui_utils_bbox_contains b (fst mouse) (snd mouse) \<and> cs_count ser \<ge> 1
                      then draw_hover width localtime (fst mouse) b p ser else Some []);
             Some (ser, draw_grid p @ strip @ draw_labels width localtime p ser @ hover)
           })"

text \<open>The loop over the slots; \<open>boxes\<close> are the plots that were laid out.\<close>

fun draw_loop :: "text_measure \<Rightarrow> local_time \<Rightarrow> dbl \<times> dbl \<Rightarrow> (nat \<Rightarrow> box option) \<Rightarrow> nat \<Rightarrow> chart_series list
    \<Rightarrow> (chart_series list \<times> draw_call list) option" where
  "draw_loop width localtime mouse boxes csi [] = Some ([], [])"
| "draw_loop width localtime mouse boxes csi (ser # sers) = do {
     (ser, calls) \<leftarrow> (case boxes csi of
                       Some b \<Rightarrow> if cs_active ser then draw_plot width localtime mouse b ser else Some (ser, [])
                     | None \<Rightarrow> Some (ser, []));
     (sers, more) \<leftarrow> draw_loop width localtime mouse boxes (csi + 1) sers;
     Some (ser # sers, calls @ more)
   }"

definition chart_panel_draw :: "text_measure \<Rightarrow> local_time \<Rightarrow> dbl \<times> dbl \<Rightarrow> (nat \<Rightarrow> box option) \<Rightarrow> app_state
    \<Rightarrow> (app_state \<times> draw_call list) option" where
  "chart_panel_draw width localtime mouse boxes st =
     map_option (\<lambda>(ss, calls). (st\<lparr>as_chart_series := ss\<rparr>, calls))
       (draw_loop width localtime mouse boxes 0 (as_chart_series st))"

text \<open>Drawing brings extremes up to date and changes nothing else of a series.\<close>

lemma draw_plot_inv:
  assumes "draw_plot width lt mouse b ser = Some (ser', calls)" "series_inv ser"
  shows "series_inv ser' \<and> kept ser' = kept ser"
proof -
  have "ser' = ser \<or> ser' = chart_series_recompute_minmax ser"
    using assms(1) by (auto simp: draw_plot_def Let_def bind_eq_Some_conv split: if_splits prod.splits)
  then show ?thesis using recompute_exact [OF assms(2)] assms(2) by auto
qed

lemma draw_loop_inv:
  "draw_loop width lt mouse boxes csi ss = Some (ss', calls) \<Longrightarrow> \<forall>s\<in>set ss. series_inv s \<Longrightarrow>
     (\<forall>s\<in>set ss'. series_inv s) \<and> map kept ss' = map kept ss"
proof (induction ss arbitrary: csi ss' calls)
  case (Cons ser sers)
  obtain ser1 c1 sers1 c2 where d: "(case boxes csi of
        Some b \<Rightarrow> if cs_active ser then draw_plot width lt mouse b ser else Some (ser, [])
      | None \<Rightarrow> Some (ser, [])) = Some (ser1, c1)"
    and rest: "draw_loop width lt mouse boxes (csi + 1) sers = Some (sers1, c2)" "ss' = ser1 # sers1"
    using Cons.prems(1) by (auto simp: bind_eq_Some_conv)
  have "series_inv ser1 \<and> kept ser1 = kept ser"
    using d Cons.prems(2) draw_plot_inv [of width lt mouse _ ser ser1 c1] by (auto split: option.splits if_splits)
  with Cons.IH [OF rest(1)] Cons.prems(2) rest(2) show ?case by simp
qed simp

text \<open>The sample under the mouse is one of the series, so its tooltip can be written.\<close>

lemma hover_loop_valid:
  "hover_loop p mx ser is best = Some best' \<Longrightarrow> fst best < n \<Longrightarrow> \<forall>i\<in>set is. i < n \<Longrightarrow> fst best' < n"
proof (induction "is" arbitrary: best)
  case (Cons i "is")
  obtain sm where sm: "chart_series_get ser (word_of_nat i) = Some sm"
    using Cons.prems(1) by (auto simp: bind_eq_Some_conv)
  show ?case
    using Cons.IH [of "if _ then (i, _) else best"] Cons.prems sm
    by (auto simp: Let_def split: if_splits intro: Cons.IH)
qed auto

end
