(* ===== verification/Panels.thy ===== *)
theory Panels
  imports Menus
begin

text \<open>
  The publish panel (\<open>src/src/ui/publish_panel.c\<close>) and the log panel
  (\<open>src/src/ui/log_panel.c\<close>): their static variables, what they show, and what their keys and
  clicks do. The connection log is the client's. Undefined behaviour is \<open>None\<close>.
\<close>

subsection \<open>The publish panel\<close>

record publish_panel =
  pp_caret :: nat
  pp_prev_field :: int
  pp_topic_marker :: "nat option"
  pp_payload_marker :: "nat option"
  pp_was_open :: bool
  pp_topic_display :: string
  pp_payload_display :: string

definition pp_caret_from_click :: "(string \<Rightarrow> rat) \<Rightarrow> ui_input \<Rightarrow> string \<Rightarrow> string \<Rightarrow> nat option \<Rightarrow> nat option option" where
  "pp_caret_from_click width inp i display marker =
     (case ui_rel inp (El i) of
        None \<Rightarrow> Some None
      | Some (x, y, w) \<Rightarrow> map_option Some (text_edit_hit_test width display marker 13 (w - 16) (x - 8) (y - 4)))"

text \<open>The first frame after the panel was closed by itself: the topic field gets the focus.\<close>

definition publish_open :: "publish_panel \<times> app_state \<Rightarrow> publish_panel \<times> app_state" where
  "publish_open s =
     (let (p, st) = s;
          (p, st) = (if \<not> pp_was_open p
                     then (p\<lparr>pp_prev_field := - 1\<rparr>, st\<lparr>as_publish_active_field := 0, as_publish_field_all_selected := False\<rparr>)
                     else (p, st))
      in (p\<lparr>pp_was_open := True\<rparr>, st))"

definition publish_buf :: "app_state \<Rightarrow> string" where
  "publish_buf st = (if as_publish_active_field st = 0 then as_publish_topic st else as_publish_payload st)"

definition set_publish_buf :: "string \<Rightarrow> app_state \<Rightarrow> app_state" where
  "set_publish_buf buf st =
     (if as_publish_active_field st = 0 then st\<lparr>as_publish_topic := buf\<rparr> else st\<lparr>as_publish_payload := buf\<rparr>)"

definition publish_edit :: "(int \<Rightarrow> string) \<Rightarrow> publish_panel \<times> app_state \<times> keyboard
    \<Rightarrow> (publish_panel \<times> app_state \<times> keyboard) option" where
  "publish_edit utf8 s = do {
     let (p, st, kb) = s;
     let cap = (if as_publish_active_field st = 0 then 256 else 4096);
     let p = (if as_publish_active_field st \<noteq> pp_prev_field p
              then p\<lparr>pp_prev_field := as_publish_active_field st, pp_caret := length (publish_buf st)\<rparr> else p);
     (_, e, kb) \<leftarrow> text_edit_update utf8 cap (as_publish_active_field st = 1) False
        \<lparr>ed_buf = publish_buf st, ed_caret = pp_caret p, ed_all = as_publish_field_all_selected st\<rparr> kb;
     Some (p\<lparr>pp_caret := ed_caret e\<rparr>, (set_publish_buf (ed_buf e) st)\<lparr>as_publish_field_all_selected := ed_all e\<rparr>, kb)
   }"

definition publish_format :: "app_state \<Rightarrow> publish_panel \<Rightarrow> publish_panel" where
  "publish_format st p =
     (let topic_selected = (as_publish_active_field st = 0 \<and> as_publish_field_all_selected st);
          payload_selected = (as_publish_active_field st = 1 \<and> as_publish_field_all_selected st);
          (td, tm) = text_edit_format (pp_topic_display p) 260 (Some (as_publish_topic st)) (pp_caret p)
                       (as_publish_active_field st = 0 \<and> \<not> topic_selected);
          (pd, pm) = text_edit_format (pp_payload_display p) 512 (Some (as_publish_payload st)) (pp_caret p)
                       (as_publish_active_field st = 1 \<and> \<not> payload_selected)
      in p\<lparr>pp_topic_display := td, pp_topic_marker := tm, pp_payload_display := pd, pp_payload_marker := pm\<rparr>)"

definition publish_field_click :: "(string \<Rightarrow> rat) \<Rightarrow> ui_input \<Rightarrow> publish_panel \<times> app_state
    \<Rightarrow> (publish_panel \<times> app_state) option" where
  "publish_field_click width inp s =
     (let (p, st) = s; click_topic = clicked inp ''PPTopicInput''; click_payload = clicked inp ''PPPayloadInput'' in
      if click_topic \<or> click_payload then do {
        caret \<leftarrow> (if click_topic
                 then pp_caret_from_click width inp ''PPTopicInput'' (pp_topic_display p) (pp_topic_marker p)
                 else pp_caret_from_click width inp ''PPPayloadInput'' (pp_payload_display p) (pp_payload_marker p));
        let field = (if click_topic then 0 else 1);
        let raw_len = length (if click_topic then as_publish_topic st else as_publish_payload st);
        let caret = (case caret of None \<Rightarrow> raw_len | Some c \<Rightarrow> if c > raw_len then raw_len else c);
        Some (p\<lparr>pp_prev_field := field, pp_caret := caret\<rparr>,
              st\<lparr>as_publish_active_field := field, as_publish_field_all_selected := False\<rparr>)
      }
      else Some s)"

text \<open>The last of the three QoS buttons that was hit wins.\<close>

definition publish_options :: "ui_input \<Rightarrow> app_state \<Rightarrow> app_state" where
  "publish_options inp st =
     (let st = (if clicked inp ''PPRetainBtn'' then st\<lparr>as_publish_retain := (\<not> as_publish_retain st)\<rparr> else st);
          set_qos = fold (\<lambda>(q, i) acc. if clicked inp i then Some q else acc)
                      [(0, ''PPQos0''), (1, ''PPQos1''), (2, ''PPQos2'')] None
      in case set_qos of None \<Rightarrow> st | Some q \<Rightarrow> st\<lparr>as_publish_qos := q\<rparr>)"

definition do_publish :: "app_state \<times> cstate \<Rightarrow> (app_state \<times> cstate) option" where
  "do_publish s = do {
     let (st, mqtt) = s;
     let pay_len = length (as_publish_payload st);
     (ok, mqtt) \<leftarrow> mqtt_client_publish (as_publish_topic st) (Some (map byte_of_char (as_publish_payload st)))
        (word_of_nat pay_len) (as_publish_qos st) (as_publish_retain st) mqtt;
     mqtt \<leftarrow>
       (if ok then client_log CONN_LOG_INFO
          (snprintf 512 (''Published to '' @ [CHR 0x27] @ as_publish_topic st @ [CHR 0x27] @ '' (QoS '' @ dec (unat (as_publish_qos st))
             @ '', retain='' @ (if as_publish_retain st then ''1'' else ''0'') @ '', len='' @ dec pay_len @ '')'')) mqtt
        else client_log CONN_LOG_ERROR (snprintf 512 (''Publish failed for topic '' @ [CHR 0x27] @ as_publish_topic st @ [CHR 0x27])) mqtt);
     Some (st, mqtt)
   }"

definition publish_panel_render :: "(int \<Rightarrow> string) \<Rightarrow> (string \<Rightarrow> rat) \<Rightarrow> ui_input
    \<Rightarrow> publish_panel \<times> app_state \<times> keyboard \<times> cstate \<Rightarrow> (publish_panel \<times> app_state \<times> keyboard \<times> cstate) option" where
  "publish_panel_render utf8 width inp s =
     (let (p, st, kb, mqtt) = s in
      if \<not> as_publish_panel_open st then Some s
      else do {
        let (p, st) = publish_open (p, st);
        (p, st, kb') \<leftarrow> publish_edit utf8 (p, st, kb);
        (p, st) \<leftarrow> publish_field_click width inp (publish_format st p, st);
        let st = publish_options inp st;
        let (p, st) = (if KEY_ESCAPE \<in> kb_pressed kb \<or> clicked inp ''PPCloseBtn''
                       then (p\<lparr>pp_was_open := False\<rparr>, st\<lparr>as_publish_panel_open := False\<rparr>) else (p, st));
        if clicked inp ''PPPublishBtn'' then do {
          (st, mqtt) \<leftarrow> do_publish (st, mqtt);
          Some (p\<lparr>pp_was_open := False\<rparr>, st\<lparr>as_publish_panel_open := False\<rparr>, kb', mqtt)
        }
        else Some (p, st, kb', mqtt)
      })"

subsection \<open>The log panel\<close>

abbreviation LOG_VISIBLE_ROWS :: nat where "LOG_VISIBLE_ROWS \<equiv> 64"

record log_row =
  lr_entry_idx :: u32
  lr_level :: log_level
  lr_time :: string
  lr_label :: string
  lr_message :: string

text \<open>\<open>lp_last_generation\<close> starts as all ones; the used rows are \<open>lp_rows\<close>.\<close>

record log_panel =
  lp_rows :: "log_row list"
  lp_copied_timer :: dbl
  lp_dragging :: bool
  lp_last_generation :: u64

definition level_label_for :: "log_level \<Rightarrow> string" where
  "level_label_for lv =
     (case lv of CONN_LOG_WARN \<Rightarrow> ''WARN'' | CONN_LOG_ERROR \<Rightarrow> ''ERR'' | CONN_LOG_INFO \<Rightarrow> ''INFO'')"

definition log_row_of :: "(nat \<Rightarrow> (nat \<times> nat \<times> nat) option) \<Rightarrow> u32 \<Rightarrow> log_entry \<Rightarrow> log_row" where
  "log_row_of localtime idx entry =
     \<lparr>lr_entry_idx = idx, lr_level = le_level entry, lr_time = util_fmt_hhmmss localtime (le_timestamp_us entry) '''' 320,
      lr_label = (let s = level_label_for (le_level entry) in s @ replicate (4 - length s) (CHR '' '')),
      lr_message = util_str_copy '''' 260 (Some (le_message entry))\<rparr>"

text \<open>The newest entry first; a missing entry ends the rows.\<close>

fun log_rows_loop :: "(nat \<Rightarrow> (nat \<times> nat \<times> nat) option) \<Rightarrow> connection_log \<Rightarrow> u32 \<Rightarrow> nat list \<Rightarrow> log_row list" where
  "log_rows_loop localtime lg n [] = []"
| "log_rows_loop localtime lg n (di # ds) =
     (let idx = n - 1 - word_of_nat di in
      case connection_log_get lg idx of
        None \<Rightarrow> []
      | Some entry \<Rightarrow> log_row_of localtime idx entry # log_rows_loop localtime lg n ds)"

definition log_rows_refresh :: "(nat \<Rightarrow> (nat \<times> nat \<times> nat) option) \<Rightarrow> connection_log \<Rightarrow> log_panel \<Rightarrow> log_panel" where
  "log_rows_refresh localtime lg p =
     (let generation = connection_log_generation lg in
      if generation = lp_last_generation p then p
      else
        let n = connection_log_count lg;
            row_count = (if unat n < LOG_VISIBLE_ROWS then unat n else LOG_VISIBLE_ROWS)
        in p\<lparr>lp_last_generation := generation, lp_rows := log_rows_loop localtime lg n [0..<row_count]\<rparr>)"

definition log_row_under_pointer :: "ui_input \<Rightarrow> log_panel \<Rightarrow> int option" where
  "log_row_under_pointer inp p =
     map_option (\<lambda>di. uint (lr_entry_idx (lp_rows p ! di)))
       (find (\<lambda>di. ui_over inp (El_idx ''LogRow'' di)) [0..<length (lp_rows p)])"

text \<open>
  The copy buffer of 64 * 300 bytes: a line that does not fit is cut and ends the copy.
\<close>

fun log_copy_loop :: "(nat \<Rightarrow> (nat \<times> nat \<times> nat) option) \<Rightarrow> connection_log \<Rightarrow> string \<Rightarrow> int list \<Rightarrow> string" where
  "log_copy_loop localtime lg buf [] = buf"
| "log_copy_loop localtime lg buf (idx # is) =
     (case connection_log_get lg (word_of_int idx) of
        None \<Rightarrow> log_copy_loop localtime lg buf is
      | Some entry \<Rightarrow>
          (let line = util_fmt_hhmmss localtime (le_timestamp_us entry) '''' 16 @ '' '' @ level_label_for (le_level entry)
                        @ '' '' @ le_message entry @ [CHR 0x0A];
               room = LOG_VISIBLE_ROWS * 300 - length buf
           in if length line \<ge> room then buf @ take (room - 1) line
              else log_copy_loop localtime lg (buf @ line) is))"

definition log_copy_range :: "(nat \<Rightarrow> (nat \<times> nat \<times> nat) option) \<Rightarrow> connection_log \<Rightarrow> int \<Rightarrow> int
    \<Rightarrow> log_panel \<times> keyboard \<Rightarrow> log_panel \<times> keyboard" where
  "log_copy_range localtime lg lo hi s =
     (let (p, kb) = s in
      if lo < 0 \<or> hi < lo then s
      else
        let buf = log_copy_loop localtime lg '''' [lo..hi]
        in if buf = '''' then s
           else (p\<lparr>lp_copied_timer := ui_utils_flash_start\<rparr>, kb\<lparr>kb_clipboard := Some buf\<rparr>))"

definition log_row_clicks :: "ui_input \<Rightarrow> log_panel \<times> app_state \<Rightarrow> log_panel \<times> app_state" where
  "log_row_clicks inp s =
     (let (p, st) = s; over_panel = ui_over inp (El ''LogPanel'') in
      if ui_left inp \<and> over_panel then
        (case log_row_under_pointer inp p of
           Some idx \<Rightarrow>
             (p\<lparr>lp_dragging := True\<rparr>,
              if ui_shift inp \<and> as_log_sel_anchor st \<ge> 0 then st\<lparr>as_log_sel_cursor := idx\<rparr>
              else st\<lparr>as_log_sel_anchor := idx, as_log_sel_cursor := idx\<rparr>)
         | None \<Rightarrow>
             (p, if \<not> ui_over inp (El ''LogHeader'') then st\<lparr>as_log_sel_anchor := - 1, as_log_sel_cursor := - 1\<rparr> else st))
      else s)"

definition log_drag :: "ui_input \<Rightarrow> log_panel \<times> app_state \<Rightarrow> log_panel \<times> app_state" where
  "log_drag inp s =
     (let (p, st) = s in
      if \<not> ui_left_down inp then (p\<lparr>lp_dragging := False\<rparr>, st)
      else if lp_dragging p then
        (case log_row_under_pointer inp p of None \<Rightarrow> s | Some idx \<Rightarrow> (p, st\<lparr>as_log_sel_cursor := idx\<rparr>))
      else s)"

text \<open>The keys of the log, when it has the keyboard; the result says that Ctrl+C asks for a copy.\<close>

definition log_keys :: "log_panel \<Rightarrow> keyboard \<Rightarrow> app_state \<Rightarrow> bool \<times> app_state" where
  "log_keys p kb st =
     (if as_log_focused st \<and> \<not> as_profile_dialog_open st \<and> \<not> as_about_dialog_open st \<and> \<not> as_publish_panel_open st
         \<and> \<not> as_topic_filter_focused st \<and> lp_rows p \<noteq> [] then
        (if mod_down kb \<and> KEY_A \<in> kb_pressed kb then
           (False, st\<lparr>as_log_sel_anchor := uint (lr_entry_idx (last (lp_rows p))), as_log_sel_cursor := uint (lr_entry_idx (hd (lp_rows p)))\<rparr>)
         else if mod_down kb \<and> KEY_C \<in> kb_pressed kb then (True, st)
         else if KEY_ESCAPE \<in> kb_pressed kb then (False, st\<lparr>as_log_sel_anchor := - 1, as_log_sel_cursor := - 1\<rparr>)
         else (False, st))
      else (False, st))"

definition log_copy :: "(nat \<Rightarrow> (nat \<times> nat \<times> nat) option) \<Rightarrow> connection_log \<Rightarrow> app_state \<Rightarrow> log_panel \<times> keyboard \<Rightarrow> log_panel \<times> keyboard" where
  "log_copy localtime lg st s =
     (if as_log_sel_anchor st \<ge> 0 \<and> as_log_sel_cursor st \<ge> 0 then
        log_copy_range localtime lg (min (as_log_sel_anchor st) (as_log_sel_cursor st)) (max (as_log_sel_anchor st) (as_log_sel_cursor st)) s
      else if lp_rows (fst s) \<noteq> [] then
        log_copy_range localtime lg (uint (lr_entry_idx (last (lp_rows (fst s))))) (uint (lr_entry_idx (hd (lp_rows (fst s))))) s
      else s)"

definition log_panel_render :: "(nat \<Rightarrow> (nat \<times> nat \<times> nat) option) \<Rightarrow> ui_input
    \<Rightarrow> log_panel \<times> app_state \<times> keyboard \<times> cstate \<Rightarrow> log_panel \<times> app_state \<times> keyboard \<times> cstate" where
  "log_panel_render localtime inp s =
     (let (p, st, kb, mqtt) = s in
      if \<not> as_log_panel_open st then s
      else
        let (c, w) = mqtt;
            p = log_rows_refresh localtime (mc_log c) p;
            p = p\<lparr>lp_copied_timer := snd (ui_utils_flash_tick (ui_dt inp) (lp_copied_timer p))\<rparr>;
            st = (if ui_left inp then st\<lparr>as_log_focused := ui_over inp (El ''LogPanel'')\<rparr> else st);
            (p, st) = log_row_clicks inp (p, st);
            (p, st) = log_drag inp (p, st);
            (key_copy, st) = log_keys p kb st;
            (p, kb) = (if key_copy \<or> clicked inp ''LogCopyBtn'' then log_copy localtime (mc_log c) st (p, kb) else (p, kb));
            (c, st) = (if clicked inp ''LogClearBtn''
                       then (c\<lparr>mc_log := connection_log_clear (mc_log c)\<rparr>, st\<lparr>as_log_sel_anchor := - 1, as_log_sel_cursor := - 1\<rparr>)
                       else (c, st));
            st = (if clicked inp ''LogCloseBtn'' then st\<lparr>as_log_panel_open := False\<rparr> else st)
        in (p, st, kb, (c, w)))"

end
