(* ===== verification/Profile_Dialog.thy ===== *)
theory Profile_Dialog
  imports Menus Mqtt_Inv
begin

text \<open>
  \<open>src/src/ui/profile_dialog.c\<close>: the editor of the broker profiles. Its fields are numbered as in
  the source; the numeric ones are edited as text and parsed when the profile is saved or used.
  The layout is Clay's. Undefined behaviour is \<open>None\<close>.
\<close>

subsection \<open>Fields\<close>

abbreviation FIDX_NAME :: int where "FIDX_NAME \<equiv> 0"
abbreviation FIDX_HOST :: int where "FIDX_HOST \<equiv> 1"
abbreviation FIDX_PORT :: int where "FIDX_PORT \<equiv> 2"
abbreviation FIDX_CLIENTID :: int where "FIDX_CLIENTID \<equiv> 3"
abbreviation FIDX_KA :: int where "FIDX_KA \<equiv> 4"
abbreviation FIDX_USER :: int where "FIDX_USER \<equiv> 5"
abbreviation FIDX_PASS :: int where "FIDX_PASS \<equiv> 6"
abbreviation FIDX_WS_PATH :: int where "FIDX_WS_PATH \<equiv> 7"
abbreviation FIDX_CA :: int where "FIDX_CA \<equiv> 8"
abbreviation FIDX_CERT :: int where "FIDX_CERT \<equiv> 9"
abbreviation FIDX_KEY :: int where "FIDX_KEY \<equiv> 10"
abbreviation FIDX_SSH_HOST :: int where "FIDX_SSH_HOST \<equiv> 11"
abbreviation FIDX_SSH_PORT :: int where "FIDX_SSH_PORT \<equiv> 12"
abbreviation FIDX_SSH_USER :: int where "FIDX_SSH_USER \<equiv> 13"
abbreviation FIDX_SSH_PASS :: int where "FIDX_SSH_PASS \<equiv> 14"
abbreviation FIDX_SSH_KEY :: int where "FIDX_SSH_KEY \<equiv> 15"
abbreviation FIDX_SUB_BASE :: int where "FIDX_SUB_BASE \<equiv> 16"

record profile_dialog =
  pd_port_str :: string
  pd_ka_str :: string
  pd_ssh_port_str :: string
  pd_active_field_selected :: bool
  pd_ssh_section_expanded :: bool
  pd_caret :: nat
  pd_prev_active_field :: int

text \<open>The text of a field and its capacity; no field is \<open>None\<close>.\<close>

definition field_target :: "profile_dialog \<Rightarrow> broker_profile \<Rightarrow> int \<Rightarrow> (string \<times> nat) option" where
  "field_target d p idx =
     (if idx = FIDX_NAME then Some (bp_name p, 128)
      else if idx = FIDX_HOST then Some (bp_host p, 256)
      else if idx = FIDX_PORT then Some (pd_port_str d, 16)
      else if idx = FIDX_CLIENTID then Some (bp_client_id p, 128)
      else if idx = FIDX_KA then Some (pd_ka_str d, 16)
      else if idx = FIDX_USER then Some (bp_username p, 128)
      else if idx = FIDX_PASS then Some (bp_password p, 128)
      else if idx = FIDX_WS_PATH then Some (bp_ws_path p, 128)
      else if idx = FIDX_CA then Some (bp_tls_ca_cert p, 512)
      else if idx = FIDX_CERT then Some (bp_tls_client_cert p, 512)
      else if idx = FIDX_KEY then Some (bp_tls_client_key p, 512)
      else if idx = FIDX_SSH_HOST then Some (bp_ssh_jump_host p, 256)
      else if idx = FIDX_SSH_PORT then Some (pd_ssh_port_str d, 16)
      else if idx = FIDX_SSH_USER then Some (bp_ssh_jump_user p, 128)
      else if idx = FIDX_SSH_PASS then Some (bp_ssh_jump_password p, 128)
      else if idx = FIDX_SSH_KEY then Some (bp_ssh_jump_key_path p, 512)
      else if FIDX_SUB_BASE \<le> idx \<and> idx < FIDX_SUB_BASE + int MAX_PROFILE_SUBS
      then Some (ps_topic (bp_subscriptions p ! nat (idx - FIDX_SUB_BASE)), 256)
      else None)"

text \<open>The text written back through the pointer.\<close>

definition write_target :: "int \<Rightarrow> string \<Rightarrow> profile_dialog \<times> broker_profile \<Rightarrow> profile_dialog \<times> broker_profile" where
  "write_target idx s dp =
     (let (d, p) = dp in
      if idx = FIDX_NAME then (d, p\<lparr>bp_name := s\<rparr>)
      else if idx = FIDX_HOST then (d, p\<lparr>bp_host := s\<rparr>)
      else if idx = FIDX_PORT then (d\<lparr>pd_port_str := s\<rparr>, p)
      else if idx = FIDX_CLIENTID then (d, p\<lparr>bp_client_id := s\<rparr>)
      else if idx = FIDX_KA then (d\<lparr>pd_ka_str := s\<rparr>, p)
      else if idx = FIDX_USER then (d, p\<lparr>bp_username := s\<rparr>)
      else if idx = FIDX_PASS then (d, p\<lparr>bp_password := s\<rparr>)
      else if idx = FIDX_WS_PATH then (d, p\<lparr>bp_ws_path := s\<rparr>)
      else if idx = FIDX_CA then (d, p\<lparr>bp_tls_ca_cert := s\<rparr>)
      else if idx = FIDX_CERT then (d, p\<lparr>bp_tls_client_cert := s\<rparr>)
      else if idx = FIDX_KEY then (d, p\<lparr>bp_tls_client_key := s\<rparr>)
      else if idx = FIDX_SSH_HOST then (d, p\<lparr>bp_ssh_jump_host := s\<rparr>)
      else if idx = FIDX_SSH_PORT then (d\<lparr>pd_ssh_port_str := s\<rparr>, p)
      else if idx = FIDX_SSH_USER then (d, p\<lparr>bp_ssh_jump_user := s\<rparr>)
      else if idx = FIDX_SSH_PASS then (d, p\<lparr>bp_ssh_jump_password := s\<rparr>)
      else if idx = FIDX_SSH_KEY then (d, p\<lparr>bp_ssh_jump_key_path := s\<rparr>)
      else
        let si = nat (idx - FIDX_SUB_BASE)
        in (d, p\<lparr>bp_subscriptions := (bp_subscriptions p)[si := (bp_subscriptions p ! si)\<lparr>ps_topic := s\<rparr>]\<rparr>))"

definition sync_numeric_bufs :: "broker_profile \<Rightarrow> profile_dialog \<Rightarrow> profile_dialog" where
  "sync_numeric_bufs p d =
     d\<lparr>pd_port_str := snprintf 16 (dec (unat (bp_port p))), pd_ka_str := snprintf 16 (dec (unat (bp_keepalive_secs p))),
       pd_ssh_port_str := snprintf 16 (dec (unat (bp_ssh_jump_port p)))\<rparr>"

text \<open>\<open>(uint16_t)atoi(...)\<close> of the three numeric fields.\<close>

definition parse_numeric_bufs :: "profile_dialog \<Rightarrow> broker_profile \<Rightarrow> broker_profile option" where
  "parse_numeric_bufs d p = do {
     port \<leftarrow> atoi (pd_port_str d);
     keepalive \<leftarrow> atoi (pd_ka_str d);
     ssh_port \<leftarrow> atoi (pd_ssh_port_str d);
     Some (p\<lparr>bp_port := word_of_int port, bp_keepalive_secs := word_of_int keepalive, bp_ssh_jump_port := word_of_int ssh_port\<rparr>)
   }"

subsection \<open>The head of a frame: synchronisation and keys\<close>

text \<open>\<open>prof\<close>: a slot of the profile array, or NULL.\<close>

definition active_profile :: "app_state \<Rightarrow> nat option" where
  "active_profile st =
     (if as_active_profile_idx st \<ge> 0 \<and> as_active_profile_idx st < 32 then Some (nat (as_active_profile_idx st)) else None)"

definition profile_of :: "app_state \<Rightarrow> nat \<Rightarrow> broker_profile" where
  "profile_of st i = as_profiles st ! i"

definition set_profile :: "nat \<Rightarrow> broker_profile \<Rightarrow> app_state \<Rightarrow> app_state" where
  "set_profile i p st = st\<lparr>as_profiles := (as_profiles st)[i := p]\<rparr>"

definition dialog_sync :: "nat option \<Rightarrow> profile_dialog \<times> app_state \<Rightarrow> profile_dialog \<times> app_state" where
  "dialog_sync prof s =
     (let (d, st) = s;
          (d, st) =
            (if as_active_profile_idx st \<noteq> as_profile_last_idx st
             then (case prof of None \<Rightarrow> d | Some i \<Rightarrow> sync_numeric_bufs (profile_of st i) d,
                   st\<lparr>as_profile_last_idx := as_active_profile_idx st, as_profile_active_field := - 1\<rparr>)
             else (d, st))
      in if as_profile_active_field st \<noteq> pd_prev_active_field d
         then (d\<lparr>pd_prev_active_field := as_profile_active_field st,
                 pd_caret := (case prof of
                                None \<Rightarrow> 0
                              | Some i \<Rightarrow> (case field_target d (profile_of st i) (as_profile_active_field st) of
                                             None \<Rightarrow> 0 | Some (buf, _) \<Rightarrow> length buf))\<rparr>,
               st\<lparr>as_profile_field_all_selected := False\<rparr>)
         else (d, st))"

definition tab_field :: "bool \<Rightarrow> broker_profile \<Rightarrow> int \<Rightarrow> int" where
  "tab_field ssh_expanded p active =
     (let total_fields = FIDX_SUB_BASE + int (bp_subscription_count p);
          nxt = (active + 1) mod total_fields;
          nxt = (if bp_transport p = 0 \<and> nxt = FIDX_WS_PATH then nxt + 1 else nxt)
      in if \<not> ssh_expanded \<and> FIDX_SSH_HOST \<le> nxt \<and> nxt \<le> FIDX_SSH_PASS then FIDX_SUB_BASE mod total_fields else nxt)"

definition edit_field :: "(int \<Rightarrow> string) \<Rightarrow> nat \<Rightarrow> profile_dialog \<times> app_state \<times> keyboard
    \<Rightarrow> (profile_dialog \<times> app_state \<times> keyboard) option" where
  "edit_field utf8 i s =
     (let (d, st, kb) = s; p = profile_of st i; idx = as_profile_active_field st in
      case field_target d p idx of
        None \<Rightarrow> Some s
      | Some (buf, cap) \<Rightarrow> do {
          (_, e, kb) \<leftarrow> text_edit_update utf8 cap False False
             \<lparr>ed_buf = buf, ed_caret = pd_caret d, ed_all = as_profile_field_all_selected st\<rparr> kb;
          let (d, p) = write_target idx (ed_buf e) (d\<lparr>pd_caret := ed_caret e\<rparr>, p);
          Some (d, (set_profile i p st)\<lparr>as_profile_field_all_selected := ed_all e\<rparr>, kb)
        })"

definition dialog_keys :: "(int \<Rightarrow> string) \<Rightarrow> nat option \<Rightarrow> profile_dialog \<times> app_state \<times> keyboard
    \<Rightarrow> (profile_dialog \<times> app_state \<times> keyboard) option" where
  "dialog_keys utf8 prof s =
     (case prof of
        None \<Rightarrow> Some s
      | Some i \<Rightarrow>
          if as_profile_active_field (fst (snd s)) < 0 then Some s
          else do {
            (d, st, kb) \<leftarrow> edit_field utf8 i s;
            let st = (if KEY_TAB \<in> kb_pressed kb
                      then st\<lparr>as_profile_active_field :=
                                tab_field (pd_ssh_section_expanded d) (profile_of st i) (as_profile_active_field st),
                              as_profile_field_all_selected := False\<rparr> else st);
            let st = (if KEY_ESCAPE \<in> kb_pressed kb
                      then st\<lparr>as_profile_active_field := - 1, as_profile_field_all_selected := False\<rparr> else st);
            Some (d, st, kb)
          })"

subsection \<open>Clicks that act at once\<close>

definition toggle_ssh_section :: "profile_dialog \<times> app_state \<Rightarrow> profile_dialog \<times> app_state" where
  "toggle_ssh_section s =
     (let (d, st) = s; d = d\<lparr>pd_ssh_section_expanded := (\<not> pd_ssh_section_expanded d)\<rparr> in
      if \<not> pd_ssh_section_expanded d \<and> FIDX_SSH_HOST \<le> as_profile_active_field st \<and> as_profile_active_field st \<le> FIDX_SSH_PASS
      then (d, st\<lparr>as_profile_active_field := - 1, as_profile_field_all_selected := False\<rparr>) else (d, st))"

definition caret_from_click :: "(string \<Rightarrow> rat) \<Rightarrow> ui_input \<Rightarrow> string \<Rightarrow> element \<Rightarrow> rat \<Rightarrow> bool \<Rightarrow> nat \<Rightarrow> nat option" where
  "caret_from_click width inp raw i pad_left marker_shown caret =
     (case ui_rel inp i of
        None \<Rightarrow> Some (length raw)
      | Some (x, y, w) \<Rightarrow>
          (let (disp, marker) = text_edit_format '''' 512 (Some raw) caret marker_shown
           in text_edit_hit_test width disp marker 13 0 (x - pad_left) 0))"

definition focus_field_click :: "(string \<Rightarrow> rat) \<Rightarrow> ui_input \<Rightarrow> nat \<Rightarrow> int \<Rightarrow> element \<Rightarrow> profile_dialog \<times> app_state
    \<Rightarrow> (profile_dialog \<times> app_state) option" where
  "focus_field_click width inp i fidx e s = do {
     let (d, st) = s;
     let was_active = (as_profile_active_field st = fidx);
     let masked = ((fidx = FIDX_PASS \<or> fidx = FIDX_SSH_PASS) \<and> \<not> was_active);
     caret \<leftarrow>
       (case field_target d (profile_of st i) fidx of
          None \<Rightarrow> Some 0
        | Some (buf, _) \<Rightarrow>
            if masked then Some (length buf)
            else caret_from_click width inp buf e 8 (was_active \<and> \<not> as_profile_field_all_selected st) (pd_caret d));
     Some (d\<lparr>pd_prev_active_field := fidx, pd_caret := caret\<rparr>,
           st\<lparr>as_profile_active_field := fidx, as_profile_field_all_selected := False\<rparr>)
   }"

definition field_clicks :: "(element \<times> int) list" where
  "field_clicks =
     [(El ''FldName_Val'', FIDX_NAME), (El ''FldHost_Val'', FIDX_HOST), (El ''FldPort_Val'', FIDX_PORT),
      (El ''FldClientId_Val'', FIDX_CLIENTID), (El ''FldKeepalive_Val'', FIDX_KA), (El ''FldUser_Val'', FIDX_USER),
      (El ''FldPass_Val'', FIDX_PASS), (El ''FldWsPath_Val'', FIDX_WS_PATH), (El ''FldCA_Val'', FIDX_CA),
      (El ''FldCert_Val'', FIDX_CERT), (El ''FldKey_Val'', FIDX_KEY), (El ''FldSshHost_Val'', FIDX_SSH_HOST),
      (El ''FldSshPort_Val'', FIDX_SSH_PORT), (El ''FldSshUser_Val'', FIDX_SSH_USER), (El ''FldSshPass_Val'', FIDX_SSH_PASS),
      (El ''FldSshKey_Val'', FIDX_SSH_KEY)]"

text \<open>The section header, then the fields, then the topics of the subscriptions.\<close>

definition focus_clicks :: "(string \<Rightarrow> rat) \<Rightarrow> ui_input \<Rightarrow> nat \<Rightarrow> profile_dialog \<times> app_state \<Rightarrow> (profile_dialog \<times> app_state) option" where
  "focus_clicks width inp i s =
     (let s = (if clicked inp ''SshSection_Hdr'' then toggle_ssh_section s else s);
          subs = map (\<lambda>k. (El_idx ''SubInp'' k, FIDX_SUB_BASE + int k)) [0..<bp_subscription_count (profile_of (snd s) i)]
      in option_fold (\<lambda>(e, fidx) s. if ui_over inp e \<and> ui_left inp then focus_field_click width inp i fidx e s else Some s)
           (field_clicks @ subs) s)"

subsection \<open>Deferred actions\<close>

text \<open>The last entry that was hit, of a list of elements with values.\<close>

definition picked :: "ui_input \<Rightarrow> (element \<times> 'v) list \<Rightarrow> 'v option" where
  "picked inp es = fold (\<lambda>(e, v) acc. if ui_over inp e \<and> ui_left inp then Some v else acc) es None"

definition select_and_close :: "ui_input \<Rightarrow> app_state \<Rightarrow> app_state" where
  "select_and_close inp st =
     (let st = (case picked inp (map (\<lambda>i. (El_idx ''ProfItem'' i, int i)) [0..<nat (as_profile_count st)]) of
                  None \<Rightarrow> st | Some i \<Rightarrow> st\<lparr>as_active_profile_idx := i\<rparr>)
      in if (ui_over inp (El ''ProfileOverlay'') \<and> \<not> ui_over inp (El ''ProfileModal'') \<and> ui_left inp) \<or> clicked inp ''ProfileCloseBtn''
         then st\<lparr>as_profile_dialog_open := False, as_profile_active_field := - 1\<rparr> else st)"

definition new_profile :: "nat option \<times> profile_dialog \<times> app_state \<Rightarrow> nat option \<times> profile_dialog \<times> app_state" where
  "new_profile s =
     (let (prof, d, st) = s in
      if as_profile_count st < 32 then
        (let i = nat (as_profile_count st);
             p = broker_profile_init_default\<lparr>bp_name := util_str_copy [] 128 (Some ''New Profile'')\<rparr>;
             st = (set_profile i p st)\<lparr>as_active_profile_idx := as_profile_count st, as_profile_count := as_profile_count st + 1\<rparr>
         in (Some i, sync_numeric_bufs p d,
             st\<lparr>as_profile_last_idx := as_active_profile_idx st, as_profile_active_field := FIDX_NAME\<rparr>))
      else s)"

definition add_subscription :: "nat \<Rightarrow> app_state \<Rightarrow> app_state" where
  "add_subscription i st =
     (let p = profile_of st i; si = bp_subscription_count p in
      if si < MAX_PROFILE_SUBS
      then (set_profile i (p\<lparr>bp_subscriptions := (bp_subscriptions p)[si := \<lparr>ps_topic = ''#'', ps_qos = 1\<rparr>],
                             bp_subscription_count := si + 1\<rparr>) st)\<lparr>as_profile_active_field := FIDX_SUB_BASE + int si\<rparr>
      else st)"

definition remove_subscription :: "nat \<Rightarrow> int \<Rightarrow> app_state \<Rightarrow> app_state" where
  "remove_subscription i rem st =
     (let p = profile_of st i in
      if rem \<ge> 0 \<and> rem < int (bp_subscription_count p) then
        (let n = bp_subscription_count p - 1; st = set_profile i (p\<lparr>bp_subscription_count := n\<rparr>) st
         in if as_profile_active_field st \<ge> FIDX_SUB_BASE + int n then st\<lparr>as_profile_active_field := - 1\<rparr> else st)
      else st)"

definition change_profile :: "nat \<Rightarrow> (broker_profile \<Rightarrow> broker_profile) \<Rightarrow> app_state \<Rightarrow> app_state" where
  "change_profile i f st = set_profile i (f (profile_of st i)) st"

text \<open>The QoS of a subscription, the toggles and the selectors.\<close>

definition change_options :: "ui_input \<Rightarrow> nat \<Rightarrow> (nat \<times> u8) option \<Rightarrow> app_state \<Rightarrow> app_state" where
  "change_options inp i sub_qos st =
     (let st = (case sub_qos of
                  None \<Rightarrow> st
                | Some (k, q) \<Rightarrow>
                    if k < bp_subscription_count (profile_of st i)
                    then change_profile i (\<lambda>p. p\<lparr>bp_subscriptions := (bp_subscriptions p)[k := (bp_subscriptions p ! k)\<lparr>ps_qos := q\<rparr>]\<rparr>) st
                    else st);
          st = (if clicked inp ''ToggleCleanSession_Btn'' then change_profile i (\<lambda>p. p\<lparr>bp_clean_session := (\<not> bp_clean_session p)\<rparr>) st else st);
          st = (if clicked inp ''ToggleTlsVerify_Btn'' then change_profile i (\<lambda>p. p\<lparr>bp_tls_verify := (\<not> bp_tls_verify p)\<rparr>) st else st);
          st = (if clicked inp ''ToggleSshTunnel_Btn'' then change_profile i (\<lambda>p. p\<lparr>bp_ssh_tunnel_enabled := (\<not> bp_ssh_tunnel_enabled p)\<rparr>) st else st);
          st = (case picked inp [(El_idx ''SelProto'' 0, 31), (El_idx ''SelProto'' 1, 311), (El_idx ''SelProto'' 2, 5)] of
                  None \<Rightarrow> st | Some v \<Rightarrow> change_profile i (\<lambda>p. p\<lparr>bp_protocol_version := v\<rparr>) st);
          st = (case picked inp [(El_idx ''SelTlsVer'' 0, 0), (El_idx ''SelTlsVer'' 1, 12), (El_idx ''SelTlsVer'' 2, 13)] of
                  None \<Rightarrow> st | Some v \<Rightarrow> change_profile i (\<lambda>p. p\<lparr>bp_tls_version := v\<rparr>) st)
      in case picked inp [(El_idx ''SelTransport'' 0, 0), (El_idx ''SelTransport'' 1, 1), (El_idx ''SelTransport'' 2, 2)] of
           None \<Rightarrow> st
         | Some v \<Rightarrow>
             (let st = change_profile i (\<lambda>p. p\<lparr>bp_transport := v\<rparr>) st
              in if v = 0 \<and> as_profile_active_field st = FIDX_WS_PATH
                 then st\<lparr>as_profile_active_field := - 1, as_profile_field_all_selected := False\<rparr> else st))"

definition save_profile :: "nat \<Rightarrow> profile_dialog \<Rightarrow> app_state \<times> db option \<Rightarrow> (app_state \<times> db option) option" where
  "save_profile i d s = do {
     let (st, handle) = s;
     if handle = None then Some s
     else do {
       p \<leftarrow> parse_numeric_bufs d (profile_of st i);
       (ok, handle, p') \<leftarrow> db_save_profile handle (Some p);
       let st = set_profile i (case p' of Some p' \<Rightarrow> p' | None \<Rightarrow> p) st;
       Some (if ok then st\<lparr>as_profile_save_flash_timer := Fin 1\<rparr> else st, handle)
     }
   }"

text \<open>The slots behind the deleted one move up and the last used one is zeroed; -1 is no index.\<close>

definition delete_slot :: "nat \<Rightarrow> nat \<Rightarrow> broker_profile list \<Rightarrow> broker_profile list" where
  "delete_slot del_idx n ps = (fold (\<lambda>i ps. ps[i := ps ! (i + 1)]) [del_idx..<n - 1] ps)[n - 1 := zero_profile]"

definition delete_profile_click :: "nat \<Rightarrow> app_state \<times> db option \<Rightarrow> (app_state \<times> db option) option" where
  "delete_profile_click i s =
     (let (st, handle) = s in
      if handle = None then Some s
      else if as_profile_count st < 1 \<or> 32 < as_profile_count st then None
      else
        let (_, handle) = db_delete_profile handle (bp_id (profile_of st i));
            del_idx = as_active_profile_idx st;
            n = as_profile_count st - 1;
            active = (if n = 0 then - 1 else if del_idx \<ge> n then n - 1 else del_idx)
        in Some (st\<lparr>as_profiles := delete_slot (nat del_idx) (nat (as_profile_count st)) (as_profiles st),
                    as_profile_count := n, as_active_profile_idx := active,
                    as_profile_active_field := - 1, as_profile_last_idx := - 2\<rparr>, handle))"

definition connect_opts_of :: "broker_profile \<Rightarrow> connect_opts" where
  "connect_opts_of p =
     (let opt = (\<lambda>s. if s = [] then None else Some s) in
      \<lparr>co_host = bp_host p, co_port = bp_port p, co_client_id = opt (bp_client_id p),
       co_clean_session = bp_clean_session p, co_keepalive_secs = bp_keepalive_secs p,
       co_username = opt (bp_username p), co_password = opt (bp_password p),
       co_protocol_version = bp_protocol_version p, co_transport = bp_transport p, co_ws_path = opt (bp_ws_path p),
       co_tls_ca_cert = Some (bp_tls_ca_cert p), co_tls_client_cert = Some (bp_tls_client_cert p),
       co_tls_client_key = Some (bp_tls_client_key p), co_tls_version = bp_tls_version p, co_tls_verify = bp_tls_verify p,
       co_ssh_tunnel_enabled = bp_ssh_tunnel_enabled p, co_ssh_jump_host = bp_ssh_jump_host p,
       co_ssh_jump_port = bp_ssh_jump_port p, co_ssh_jump_user = opt (bp_ssh_jump_user p),
       co_ssh_jump_key_path = opt (bp_ssh_jump_key_path p), co_ssh_jump_password = opt (bp_ssh_jump_password p)\<rparr>)"

definition note_subscription :: "profile_subscription \<Rightarrow> app_state \<Rightarrow> app_state" where
  "note_subscription sub st =
     (let n = as_subscription_count st in
      if n < int MAX_SUBSCRIPTIONS
      then st\<lparr>as_subscription_count := n + 1,
              as_subscriptions := (as_subscriptions st)[nat n :=
                \<lparr>sb_topic_filter = util_str_copy [] 256 (Some (ps_topic sub)), sb_qos = ps_qos sub, sb_state = SUB_STATE_ACTIVE\<rparr>]\<rparr>
      else st)"

definition subscribe_one :: "lib_texts \<Rightarrow> profile_subscription \<Rightarrow> app_state \<times> cstate \<Rightarrow> (app_state \<times> cstate) option" where
  "subscribe_one ts sub s =
     map_option (\<lambda>(_, mqtt). (note_subscription sub (fst s), mqtt))
       (mqtt_client_subscribe (lt_strerror ts) (ps_topic sub) (ps_qos sub) (snd s))"

definition connect_profile :: "lib_texts \<Rightarrow> nat \<Rightarrow> profile_dialog \<Rightarrow> app_state \<times> db option \<times> cstate
    \<Rightarrow> (app_state \<times> db option \<times> cstate) option" where
  "connect_profile ts i d s = do {
     let (st, handle, mqtt) = s;
     p \<leftarrow> parse_numeric_bufs d (profile_of st i);
     (handle, p) \<leftarrow>
       (if handle = None then Some (handle, p)
        else map_option (\<lambda>(_, handle, p'). (handle, case p' of Some p' \<Rightarrow> p' | None \<Rightarrow> p)) (db_save_profile handle (Some p)));
     let st = set_profile i p st;
     mqtt \<leftarrow> mqtt_client_disconnect mqtt;
     (ok, mqtt) \<leftarrow> mqtt_client_connect (lt_strerror ts) (lt_sys_strerror ts) (lt_websockets ts) (connect_opts_of p) mqtt;
     (st, mqtt) \<leftarrow>
       (if ok
        then option_fold (subscribe_one ts) (used_subscriptions p)
               (st\<lparr>as_broker_host := util_str_copy (as_broker_host st) 256 (Some (bp_host p)), as_broker_port := bp_port p,
                   as_subscription_count := 0\<rparr>, mqtt)
        else Some (st, mqtt));
     Some (st\<lparr>as_profile_dialog_open := False, as_profile_active_field := - 1\<rparr>, handle, mqtt)
   }"

subsection \<open>The dialog\<close>

text \<open>
  What the clicks ask for is decided from the profile that is active before any of them acts;
  the index of a subscription button is of that time.
\<close>

definition sub_buttons :: "nat \<Rightarrow> (element \<times> nat \<times> u8) list" where
  "sub_buttons subs = concat (map (\<lambda>k. map (\<lambda>q. (El_idx ''SubQos'' (k * 3 + q), k, word_of_nat q)) [0..<3]) [0..<subs])"

definition edit_actions :: "ui_input \<Rightarrow> nat option \<Rightarrow> nat \<Rightarrow> nat \<Rightarrow> app_state \<Rightarrow> app_state" where
  "edit_actions inp prof subs i st =
     (let st = (if prof \<noteq> None \<and> clicked inp ''AddSubBtn'' then add_subscription i st else st);
          st = (if prof \<noteq> None \<and> clicked inp ''RemSubBtn'' then remove_subscription i (int subs - 1) st else st)
      in if prof \<noteq> None then change_options inp i (picked inp (sub_buttons subs)) st else st)"

definition profile_actions :: "lib_texts \<Rightarrow> ui_input \<Rightarrow> nat option \<Rightarrow> profile_dialog \<times> app_state \<times> db option \<times> cstate
    \<Rightarrow> (profile_dialog \<times> app_state \<times> db option \<times> cstate) option" where
  "profile_actions ts inp prof s = do {
     let (d, st, handle, mqtt) = s;
     let subs = (case prof of None \<Rightarrow> 0 | Some i \<Rightarrow> bp_subscription_count (profile_of st i));
     let on = (\<lambda>b. prof \<noteq> None \<and> clicked inp b);
     let st = select_and_close inp st;
     let (p, d, st) = (if clicked inp ''NewProfileBtn'' then new_profile (prof, d, st) else (prof, d, st));
     case p of
       None \<Rightarrow> Some (d, st, handle, mqtt)
     | Some i \<Rightarrow> do {
         let st = edit_actions inp prof subs i st;
         (st, handle) \<leftarrow> (if on ''BtnSave'' then save_profile i d (st, handle) else Some (st, handle));
         (st, handle) \<leftarrow> (if on ''BtnDelete'' then delete_profile_click i (st, handle) else Some (st, handle));
         (st, handle, mqtt) \<leftarrow> (if on ''BtnConnect'' then connect_profile ts i d (st, handle, mqtt) else Some (st, handle, mqtt));
         Some (d, st, handle, mqtt)
       }
   }"

definition profile_dialog_render :: "lib_texts \<Rightarrow> (int \<Rightarrow> string) \<Rightarrow> (string \<Rightarrow> rat) \<Rightarrow> ui_input
    \<Rightarrow> profile_dialog \<times> app_state \<times> keyboard \<times> db option \<times> cstate
    \<Rightarrow> (profile_dialog \<times> app_state \<times> keyboard \<times> db option \<times> cstate) option" where
  "profile_dialog_render ts utf8 width inp s =
     (let (d, st, kb, handle, mqtt) = s in
      if \<not> as_profile_dialog_open st then Some s
      else do {
        let d = d\<lparr>pd_active_field_selected := as_profile_field_all_selected st\<rparr>;
        let st = st\<lparr>as_profile_save_flash_timer := flt_sub (as_profile_save_flash_timer st) (ui_dt inp)\<rparr>;
        let prof = active_profile st;
        let (d, st) = dialog_sync prof (d, st);
        (d, st, kb) \<leftarrow> dialog_keys utf8 prof (d, st, kb);
        (d, st) \<leftarrow> (case prof of None \<Rightarrow> Some (d, st) | Some i \<Rightarrow> focus_clicks width inp i (d, st));
        (d, st, handle, mqtt) \<leftarrow> profile_actions ts inp prof (d, st, handle, mqtt);
        Some (d, st, kb, handle, mqtt)
      })"

end
