(* ===== verification/Hex_Dump.thy ===== *)
theory Hex_Dump
  imports Util Ring "HOL-Library.Monad_Syntax"
begin

text \<open>
  \<open>src/src/ui/inspector_widget.c\<close>: the texts of a payload for the views and for the clipboard, and
  the hex dump, with the proof that a reader of the dump gets the bytes back.
\<close>

abbreviation TEXT_VIEW_MAX :: nat where "TEXT_VIEW_MAX \<equiv> 4000"
abbreviation HEX_LINE_BUF :: nat where "HEX_LINE_BUF \<equiv> 80"
abbreviation INSPECTOR_PAYLOAD_CAP :: nat where "INSPECTOR_PAYLOAD_CAP \<equiv> 16384"

subsection \<open>Texts of a payload\<close>

definition payload_text_into :: "nat \<Rightarrow> bytes \<Rightarrow> nat \<Rightarrow> string" where
  "payload_text_into dst_cap src cap =
     (let cap = (if cap + 1 > dst_cap then dst_cap - 1 else cap);
          len = (if length src > cap then cap else length src)
      in fst (util_preview_sanitize '''' (cap + 1) (take len src)))"

definition payload_text :: "bytes \<Rightarrow> nat \<Rightarrow> string" where
  "payload_text src cap = payload_text_into (INSPECTOR_PAYLOAD_CAP + 1) src cap"

text \<open>
  One \<open>snprintf(buf + pos, buf_size - pos, ...)\<close>. A text that does not fit would move \<open>pos\<close> past
  what is written, so that is an error of the model.
\<close>

definition hex_put :: "nat \<Rightarrow> string \<Rightarrow> string \<Rightarrow> string option" where
  "hex_put buf_size text buf = (if length buf + length text < buf_size then Some (buf @ text) else None)"

definition hex_cell :: "nat \<Rightarrow> bytes \<Rightarrow> nat \<Rightarrow> string \<Rightarrow> string option" where
  "hex_cell buf_size row j buf = do {
     buf \<leftarrow> hex_put buf_size (if j < length row then hex2 (row ! j) @ '' '' else ''   '') buf;
     (if j = 7 then hex_put buf_size '' '' buf else Some buf)
   }"

definition ascii_char :: "u8 \<Rightarrow> char" where
  "ascii_char c = (if c \<ge> 0x20 \<and> c < 0x7f then char_of_byte c else CHR ''.'')"

text \<open>A row is the at most 16 bytes from an offset on.\<close>

definition format_hex_line :: "nat \<Rightarrow> bytes \<Rightarrow> nat \<Rightarrow> string option" where
  "format_hex_line buf_size src offset = do {
     let row = take 16 (drop offset src);
     buf \<leftarrow> hex_put buf_size (pad0 8 (hex offset) @ ''  '') '''';
     buf \<leftarrow> option_fold (hex_cell buf_size row) [0..<16] buf;
     buf \<leftarrow> hex_put buf_size '' |'' buf;
     let buf = buf @ map ascii_char (take (buf_size - 2 - length buf) row);
     (if length buf + 1 < buf_size then Some (buf @ ''|'') else None)
   }"

text \<open>The loop over the offsets; a line without room behind it ends it.\<close>

fun hex_dump_loop :: "bytes \<Rightarrow> nat \<Rightarrow> nat list \<Rightarrow> string \<Rightarrow> string option" where
  "hex_dump_loop src out_size [] out = Some out"
| "hex_dump_loop src out_size (offset # os) out = do {
     line \<leftarrow> format_hex_line HEX_LINE_BUF src offset;
     (if length out + length line + 1 \<ge> out_size then Some out
      else hex_dump_loop src out_size os (out @ line @ [CHR 0x0A]))
   }"

definition hex_offsets :: "bytes \<Rightarrow> nat list" where
  "hex_offsets src = map (\<lambda>k. 16 * k) [0..<(length src + 15) div 16]"

definition build_hex_dump_str :: "bytes \<Rightarrow> nat \<Rightarrow> string option" where
  "build_hex_dump_str src out_size = do {
     out \<leftarrow> hex_dump_loop src out_size (hex_offsets src) '''';
     Some (if out \<noteq> '''' \<and> last out = CHR 0x0A then butlast out else out)
   }"

subsection \<open>Digits\<close>

lemma digit_char_not: "d < 16 \<Longrightarrow> digit_char d \<noteq> CHR 0x0A \<and> digit_char d \<noteq> CHR '' ''"
proof -
  assume "d < 16"
  then have "(of_char (digit_char d) :: nat) > 40" by (auto simp: digit_char_def)
  then show ?thesis by (auto dest: arg_cong [of _ _ "of_char :: char \<Rightarrow> nat"])
qed

definition unhex :: "char \<Rightarrow> nat" where
  "unhex c = (let v = of_char c in if v < 58 then v - 48 else v - 87)"

lemma unhex_digit [simp]: "d < 16 \<Longrightarrow> unhex (digit_char d) = d"
  by (auto simp: unhex_def digit_char_def Let_def)

lemma hex_length: "n < 16 ^ k \<Longrightarrow> 0 < k \<Longrightarrow> length (hex n) \<le> k"
proof (induction k arbitrary: n)
  case (Suc k)
  show ?case
  proof (cases "n < 16")
    case True
    then show ?thesis by (subst hex.simps) simp
  next
    case False
    with Suc.prems have "0 < k" by (cases k) auto
    moreover have "n div 16 < 16 ^ k" using Suc.prems by (simp add: less_mult_imp_div_less mult.commute)
    ultimately show ?thesis using Suc.IH [of "n div 16"] False by (subst hex.simps) simp
  qed
qed simp

lemma hex_chars: "c \<in> set (hex n) \<Longrightarrow> c \<noteq> CHR 0x0A"
proof (induction n rule: hex.induct)
  case (1 n)
  then show ?case using digit_char_not [of "n mod 16"] digit_char_not [of n]
    by (subst (asm) (2) hex.simps) (auto split: if_splits)
qed

lemma unat_byte: "unat (b :: u8) < 256"
  using unsigned_less [of b] by simp

definition unhex2 :: "string \<Rightarrow> u8" where
  "unhex2 s = word_of_nat (16 * unhex (s ! 0) + unhex (s ! 1))"

lemma unhex2_hex2 [simp]: "unhex2 (hex2 b) = b"
proof -
  have "unat b div 16 < 16" using unat_byte [of b] by linarith
  then show ?thesis by (simp add: unhex2_def hex2_def)
qed

lemma hex2_chars: "c \<in> set (hex2 b) \<Longrightarrow> c \<noteq> CHR 0x0A \<and> c \<noteq> CHR '' ''"
proof -
  have "unat b div 16 < 16" using unat_byte [of b] by linarith
  then show "c \<in> set (hex2 b) \<Longrightarrow> c \<noteq> CHR 0x0A \<and> c \<noteq> CHR '' ''"
    using digit_char_not [of "unat b div 16"] digit_char_not [of "unat b mod 16"] by (auto simp: hex2_def)
qed

subsection \<open>A line\<close>

definition cell_text :: "bytes \<Rightarrow> nat \<Rightarrow> string" where
  "cell_text row j = (if j < length row then hex2 (row ! j) @ '' '' else ''   '') @ (if j = 7 then '' '' else '''')"

lemma length_hex2 [simp]: "length (hex2 b) = 2"
  by (simp add: hex2_def)

lemma hex_cell_eq: "length buf + 4 < 80 \<Longrightarrow> hex_cell 80 row j buf = Some (buf @ cell_text row j)"
  by (simp add: hex_cell_def hex_put_def cell_text_def)

lemma length_cells: "length (concat (map (cell_text row) [0..<16])) = 49"
  by (simp add: cell_text_def length_concat upt_rec comp_def)

lemma cells_fold:
  "length buf + 4 * length js < 80 \<Longrightarrow> option_fold (hex_cell 80 row) js buf = Some (buf @ concat (map (cell_text row) js))"
proof (induction js arbitrary: buf)
  case (Cons j js)
  have "length (cell_text row j) \<le> 4" by (simp add: cell_text_def)
  with Cons show ?case by (simp add: hex_cell_eq)
qed simp

definition hex_line :: "bytes \<Rightarrow> nat \<Rightarrow> string" where
  "hex_line src offset =
     (let row = take 16 (drop offset src)
      in pad0 8 (hex offset) @ ''  '' @ concat (map (cell_text row) [0..<16]) @ '' |'' @ map ascii_char row @ ''|'')"

lemma length_offset: "offset < 2 ^ 32 \<Longrightarrow> length (pad0 8 (hex offset)) = 8"
  using hex_length [of offset 8] by (simp add: pad0_def)

lemma length_hex_line: "offset < 2 ^ 32 \<Longrightarrow> length (hex_line src offset) = 62 + min 16 (length src - offset)"
  using length_cells by (simp add: hex_line_def Let_def length_offset min.commute)

lemma format_hex_line_eq:
  assumes "offset < 2 ^ 32"
  shows "format_hex_line 80 src offset = Some (hex_line src offset)"
proof -
  let ?row = "take 16 (drop offset src)"
  have "option_fold (hex_cell 80 ?row) [0..<16] (pad0 8 (hex offset) @ ''  '')
      = Some ((pad0 8 (hex offset) @ ''  '') @ concat (map (cell_text ?row) [0..<16]))"
    by (rule cells_fold) (simp add: length_offset [OF assms])
  then show ?thesis
    using length_cells [of ?row] length_offset [OF assms]
    by (simp add: format_hex_line_def hex_put_def hex_line_def Let_def del: upt_Suc upt_rec_numeral)
qed

definition decode_line :: "string \<Rightarrow> bytes" where
  "decode_line l = map unhex2 (tokens (CHR '' '') (take 49 (drop 10 l)))"

lemma tokens_word: "w \<noteq> [] \<Longrightarrow> c \<notin> set w \<Longrightarrow> tokens c (w @ c # s) = w # tokens c s"
  by (simp add: tokens_def split_on_append_sep)

lemma tokens_sep: "tokens c (c # s) = tokens c s"
  by (simp add: tokens_def)

lemma tokens_cells:
  "tokens (CHR '' '') (concat (map (cell_text row) js)) = map (\<lambda>j. hex2 (row ! j)) (filter (\<lambda>j. j < length row) js)"
proof (induction js)
  case (Cons j js)
  have "hex2 (row ! j) \<noteq> []" "CHR '' '' \<notin> set (hex2 (row ! j))" using hex2_chars [of _ "row ! j"] by (auto simp: hex2_def)
  with Cons show ?case by (simp add: cell_text_def tokens_word tokens_sep)
qed simp

lemma decode_hex_line:
  assumes "offset < 2 ^ 32"
  shows "decode_line (hex_line src offset) = take 16 (drop offset src)"
proof -
  let ?row = "take 16 (drop offset src)"
  have f: "filter (\<lambda>j. j < length ?row) [0..<16] = [0..<length ?row]"
  proof -
    have "[0..<16] = [0..<length ?row] @ [length ?row..<16]" by (metis length_take min.cobounded2 le_add_diff_inverse upt_add_eq_append zero_le)
    moreover have "filter (\<lambda>j. j < length ?row) [length ?row..<16] = []" by (simp only: filter_empty_conv set_upt) auto
    moreover have "filter (\<lambda>j. j < length ?row) [0..<length ?row] = [0..<length ?row]" by (simp only: filter_id_conv set_upt) simp
    ultimately show ?thesis by (metis filter_append append_Nil2)
  qed
  have "take 49 (drop 10 (hex_line src offset)) = concat (map (cell_text ?row) [0..<16])"
    using length_cells [of ?row] length_offset [OF assms] by (simp add: hex_line_def Let_def del: upt_Suc upt_rec_numeral)
  then have "decode_line (hex_line src offset) = map (\<lambda>j. ?row ! j) [0..<length ?row]"
    unfolding decode_line_def by (simp only: tokens_cells f map_map comp_def unhex2_hex2)
  then show ?thesis by (simp only: map_nth)
qed

lemma ascii_not_newline: "ascii_char b \<noteq> CHR 0x0A"
proof -
  have "(of_char (ascii_char b) :: nat) \<ge> 32"
    using unat_byte [of b] by (auto simp: ascii_char_def char_of_byte_def word_le_nat_alt)
  then show ?thesis by (auto dest: arg_cong [of _ _ "of_char :: char \<Rightarrow> nat"])
qed

lemma cell_chars: "CHR 0x0A \<notin> set (cell_text row j)"
  using hex2_chars [of "CHR 0x0A" "row ! j"] by (auto simp: cell_text_def)

lemma hex_line_no_newline: "CHR 0x0A \<notin> set (hex_line src offset)"
  using hex_chars [of "CHR 0x0A" offset] cell_chars ascii_not_newline
  by (auto simp: hex_line_def Let_def pad0_def simp del: upt_Suc upt_rec_numeral dest: sym)

subsection \<open>The dump\<close>

lemma rows_concat: "concat (map (\<lambda>k. take 16 (drop (16 * k) src)) [0..<m]) = take (16 * m) src"
proof (induction m)
  case (Suc m)
  have "take (16 * Suc m) src = take (16 * m) src @ take 16 (drop (16 * m) src)"
    by (metis add.commute mult_Suc_right take_add)
  with Suc show ?case by simp
qed simp

definition dump_lines :: "bytes \<Rightarrow> nat \<Rightarrow> nat \<Rightarrow> string list" where
  "dump_lines src k m = map (\<lambda>i. hex_line src (16 * i)) [k..<m]"

lemma dump_loop:
  assumes "k \<le> N" "N = (length src + 15) div 16" "length out = 79 * k" "k \<le> 66"
  shows "hex_dump_loop src 5248 (map (\<lambda>k. 16 * k) [k..<N]) out
     = Some (out @ concat (map (\<lambda>l. l @ [CHR 0x0A]) (dump_lines src k (min N 66))))"
  using assms
proof (induction "N - k" arbitrary: k out)
  case 0
  then show ?case by (simp add: dump_lines_def)
next
  case (Suc d)
  then have k: "k < N" by simp
  then have u: "[k..<N] = k # [Suc k..<N]" by (simp add: upt_rec)
  have src: "16 * k < length src" using k Suc.prems(2) by simp
  have o: "16 * k < 2 ^ 32" using Suc.prems(4) by simp
  note line = format_hex_line_eq [OF o, of src] length_hex_line [OF o, of src]
  show ?case
  proof (cases "k = 66")
    case True
    then have "5248 \<le> length out + length (hex_line src (16 * k)) + 1" using line src Suc.prems(3) by simp
    then have "hex_dump_loop src 5248 (map (\<lambda>k. 16 * k) [k..<N]) out = Some out" using line(1) by (simp add: u)
    moreover have "dump_lines src k (min N 66) = []" using True by (simp add: dump_lines_def)
    ultimately show ?thesis by simp
  next
    case False
    then have k66: "k < 66" using Suc.prems by simp
    have step: "hex_dump_loop src 5248 (map (\<lambda>k. 16 * k) [k..<N]) out
        = hex_dump_loop src 5248 (map (\<lambda>k. 16 * k) [Suc k..<N]) (out @ hex_line src (16 * k) @ [CHR 0x0A])"
    proof -
      have "\<not> 5248 \<le> length out + length (hex_line src (16 * k)) + 1" using line(2) Suc.prems(3) k66 by simp
      then show ?thesis using line(1) by (simp add: u)
    qed
    have d: "dump_lines src k (min N 66) = hex_line src (16 * k) # dump_lines src (Suc k) (min N 66)"
      using k k66 by (simp add: dump_lines_def upt_rec)
    show ?thesis
    proof (cases "Suc k = N")
      case True
      then show ?thesis using step d by (simp add: dump_lines_def)
    next
      case False
      then have "16 * k + 16 \<le> length src" using k Suc.prems(2) by linarith
      then have l: "length (out @ hex_line src (16 * k) @ [CHR 0x0A]) = 79 * Suc k" using line Suc.prems(3) by simp
      have "hex_dump_loop src 5248 (map (\<lambda>k. 16 * k) [Suc k..<N]) (out @ hex_line src (16 * k) @ [CHR 0x0A])
          = Some ((out @ hex_line src (16 * k) @ [CHR 0x0A]) @ concat (map (\<lambda>l. l @ [CHR 0x0A]) (dump_lines src (Suc k) (min N 66))))"
        by (rule Suc.hyps(1)) (use Suc k k66 l in auto)
      then show ?thesis using step d by simp
    qed
  qed
qed

lemma butlast_lines: "ls \<noteq> [] \<Longrightarrow> butlast (concat (map (\<lambda>l. l @ [c]) ls)) = join c ls"
  by (induction c ls rule: join.induct) (auto simp: butlast_append)

text \<open>
  C33. The hex dump that goes to the clipboard can be read back: \<open>build_hex_dump_str\<close> never
  overruns a buffer, and decoding the pairs of digits of its lines gives exactly the first 1056
  bytes of the payload, whatever they are; a longer payload is cut there, at a full line.
\<close>
theorem hex_dump_decodes:
  "\<exists>text. build_hex_dump_str src 5248 = Some text
     \<and> concat (map decode_line (split_on (CHR 0x0A) text)) = take 1056 src"
proof (cases "src = []")
  case True
  then show ?thesis by (simp add: build_hex_dump_str_def hex_offsets_def decode_line_def)
next
  case False
  define N where "N = (length src + 15) div 16"
  let ?ls = "dump_lines src 0 (min N 66)"
  have N: "0 < N" using False by (cases src) (auto simp: N_def)
  have ne: "?ls \<noteq> []" using N by (simp add: dump_lines_def)
  have "hex_dump_loop src 5248 (hex_offsets src) '''' = Some (concat (map (\<lambda>l. l @ [CHR 0x0A]) ?ls))"
    using dump_loop [of 0 N src "''''"] by (simp add: hex_offsets_def N_def)
  moreover have "concat (map (\<lambda>l. l @ [CHR 0x0A]) ?ls) \<noteq> ''''" using ne by (cases ?ls) auto
  moreover have "last (concat (map (\<lambda>l. l @ [CHR 0x0A]) ?ls)) = CHR 0x0A" using ne by (cases ?ls rule: rev_cases) auto
  ultimately have b: "build_hex_dump_str src 5248 = Some (join (CHR 0x0A) ?ls)"
    using ne by (simp add: build_hex_dump_str_def butlast_lines)
  have "split_on (CHR 0x0A) (join (CHR 0x0A) ?ls) = ?ls"
    by (rule split_on_join [OF ne]) (auto simp: dump_lines_def hex_line_no_newline)
  moreover have "map decode_line ?ls = map (\<lambda>k. take 16 (drop (16 * k) src)) [0..<min N 66]"
    by (simp add: dump_lines_def decode_hex_line)
  moreover have "take (16 * min N 66) src = take 1056 src"
  proof (cases "N \<le> 66")
    case True
    have "length src \<le> 16 * N" by (simp add: N_def)
    with True show ?thesis by simp
  qed simp
  ultimately show ?thesis using b rows_concat [of src "min N 66"] by auto
qed

end
