(* ===== verification/Update_Check.thy ===== *)
theory Update_Check
  imports Version
begin

text \<open>
  \<open>src/src/platform/update_check.c\<close>: the check for a newer release on a worker thread, as a step
  relation of the main thread and its workers. A section under \<open>s_lock\<close> is one step; the accesses
  to \<open>s_current\<close> and \<open>reply\<close>, which no lock guards, are steps of their own. What \<open>popen\<close>,
  \<open>fread\<close>, \<open>pclose\<close> and \<open>pthread_create\<close> answer is left open: \<open>replies\<close> are the texts curl may
  give. LOG_WARN is left out.
\<close>

datatype update_status = UPDATE_IDLE | UPDATE_CHECKING | UPDATE_UP_TO_DATE | UPDATE_AVAILABLE | UPDATE_FAILED

record update_result =
  ur_status :: update_status
  ur_latest :: string
  ur_error :: string

text \<open>What \<open>set_result\<close> stores.\<close>

definition mk_result :: "update_status \<Rightarrow> string option \<Rightarrow> string option \<Rightarrow> update_result" where
  "mk_result status latest err =
     \<lparr>ur_status = status, ur_latest = util_str_copy '''' 64 latest, ur_error = util_str_copy '''' 96 err\<rparr>"

definition failed :: "string \<Rightarrow> update_result" where
  "failed why = mk_result UPDATE_FAILED None (Some why)"

text \<open>
  The main thread is outside of \<open>update_check_start\<close>, before its copy of the version, or before it
  creates the thread. A worker is at its start, has read the reply, is past \<open>pclose\<close>, has the tag,
  or is about to store its result.
\<close>

datatype starter_pc = S_Idle | S_Copy string | S_Create

datatype worker_pc = W_Start | W_Close | W_Extract | W_Compare string | W_Set update_result

record update_check =
  uc_result :: update_result
  uc_current :: string
  uc_reply :: string
  uc_main :: starter_pc
  uc_workers :: "worker_pc list"

definition update_init :: update_check where
  "update_init = \<lparr>uc_result = \<lparr>ur_status = UPDATE_IDLE, ur_latest = '''', ur_error = ''''\<rparr>, uc_current = '''', uc_reply = '''',
                  uc_main = S_Idle, uc_workers = []\<rparr>"

definition update_check_poll :: "update_check \<Rightarrow> update_result" where
  "update_check_poll u = uc_result u"

text \<open>The first section of \<open>update_check_start\<close>.\<close>

definition start_section :: "string \<Rightarrow> update_check \<Rightarrow> update_check" where
  "start_section current_version u =
     (if ur_status (uc_result u) = UPDATE_CHECKING then u
      else u\<lparr>uc_result := mk_result UPDATE_CHECKING None None, uc_main := S_Copy current_version\<rparr>)"

text \<open>One step of a worker other than its last: where it goes, and the \<open>reply\<close> buffer.\<close>

inductive worker_step :: "string set \<Rightarrow> string \<Rightarrow> string \<times> worker_pc \<Rightarrow> string \<times> worker_pc \<Rightarrow> bool" for replies current where
  popen_fails: "worker_step replies current (reply, W_Start) (reply, W_Set (failed ''Could not run curl''))"
| read: "r \<in> replies \<Longrightarrow> length r < 65536 \<Longrightarrow> worker_step replies current (reply, W_Start) (r, W_Close)"
| pclose_fails: "worker_step replies current (reply, W_Close)
    (reply, W_Set (failed ''Could not reach GitHub (is curl installed and are you online?)''))"
| pclose: "worker_step replies current (reply, W_Close) (reply, W_Extract)"
| no_tag: "version_extract_tag (Some reply) '''' 64 = None \<Longrightarrow>
    worker_step replies current (reply, W_Extract) (reply, W_Set (failed ''Unexpected reply from GitHub''))"
| tag: "version_extract_tag (Some reply) '''' 64 = Some tag \<Longrightarrow> worker_step replies current (reply, W_Extract) (reply, W_Compare tag)"
| compare: "worker_step replies current (reply, W_Compare tag)
    (reply, W_Set (mk_result (if version_is_newer (Some tag) (Some current) then UPDATE_AVAILABLE else UPDATE_UP_TO_DATE) (Some tag) None))"

inductive_cases worker_stepE: "worker_step replies current (reply, pc) (reply', pc')"

text \<open>A step of the program; the main thread is one thread, so it is in one call at a time.\<close>

inductive update_step :: "string set \<Rightarrow> update_check \<Rightarrow> update_check \<Rightarrow> bool" for replies where
  start: "uc_main u = S_Idle \<Longrightarrow> update_step replies u (start_section v u)"
| copy: "uc_main u = S_Copy v \<Longrightarrow>
    update_step replies u (u\<lparr>uc_current := util_str_copy (uc_current u) 64 (Some v), uc_main := S_Create\<rparr>)"
| create: "uc_main u = S_Create \<Longrightarrow> update_step replies u (u\<lparr>uc_main := S_Idle, uc_workers := uc_workers u @ [W_Start]\<rparr>)"
| create_fails: "uc_main u = S_Create \<Longrightarrow>
    update_step replies u (u\<lparr>uc_main := S_Idle, uc_result := failed ''Could not start update check''\<rparr>)"
| work: "i < length (uc_workers u) \<Longrightarrow> worker_step replies (uc_current u) (uc_reply u, uc_workers u ! i) (reply, pc) \<Longrightarrow>
    update_step replies u (u\<lparr>uc_reply := reply, uc_workers := (uc_workers u)[i := pc]\<rparr>)"
| finish: "i < length (uc_workers u) \<Longrightarrow> uc_workers u ! i = W_Set res \<Longrightarrow>
    update_step replies u (u\<lparr>uc_result := res, uc_workers := take i (uc_workers u) @ drop (Suc i) (uc_workers u)\<rparr>)"

inductive_cases update_stepE: "update_step replies u u'"

inductive update_reach :: "string set \<Rightarrow> update_check \<Rightarrow> bool" for replies where
  init: "update_reach replies update_init"
| step: "update_reach replies u \<Longrightarrow> update_step replies u u' \<Longrightarrow> update_reach replies u'"

subsection \<open>The invariant\<close>

text \<open>A result that names a release comes from a reply and from the comparison with \<open>s_current\<close>.\<close>

definition result_ok :: "string set \<Rightarrow> string \<Rightarrow> update_result \<Rightarrow> bool" where
  "result_ok replies current r \<longleftrightarrow>
     ur_status r \<noteq> UPDATE_IDLE \<and> ur_status r \<noteq> UPDATE_CHECKING
   \<and> (ur_status r = UPDATE_AVAILABLE \<or> ur_status r = UPDATE_UP_TO_DATE \<longrightarrow>
       (\<exists>reply \<in> replies. version_extract_tag (Some reply) '''' 64 = Some (ur_latest r))
     \<and> (ur_status r = UPDATE_AVAILABLE \<longleftrightarrow> version_is_newer (Some (ur_latest r)) (Some current)))"

lemma failed_ok [simp]: "result_ok replies current (failed why)"
  by (simp add: result_ok_def failed_def mk_result_def)

definition worker_ok :: "string set \<Rightarrow> string \<Rightarrow> string \<times> worker_pc \<Rightarrow> bool" where
  "worker_ok replies current w \<longleftrightarrow>
     (case snd w of
        W_Start \<Rightarrow> True
      | W_Close \<Rightarrow> fst w \<in> replies
      | W_Extract \<Rightarrow> fst w \<in> replies
      | W_Compare tag \<Rightarrow> \<exists>reply \<in> replies. version_extract_tag (Some reply) '''' 64 = Some tag
      | W_Set res \<Rightarrow> result_ok replies current res)"

lemma extract_tag_length: "version_extract_tag json out cap = Some tag \<Longrightarrow> length tag < cap"
  by (auto simp: version_extract_tag_def split: option.splits if_splits intro!: length_util_str_copy)

lemma worker_step_ok:
  "worker_step replies current (reply, pc) (reply', pc') \<Longrightarrow> worker_ok replies current (reply, pc) \<Longrightarrow> worker_ok replies current (reply', pc')"
proof (erule worker_stepE, goal_cases)
  case (7 tag)
  then obtain r where "r \<in> replies" and t: "version_extract_tag (Some r) '''' 64 = Some tag" by (auto simp: worker_ok_def)
  then show ?case
    using 7 extract_tag_length [OF t]
    by (auto simp: worker_ok_def result_ok_def mk_result_def util_str_copy_fits)
qed (auto simp: worker_ok_def)

text \<open>At most one worker, and none while the main thread is inside \<open>update_check_start\<close>.\<close>

definition update_inv :: "string set \<Rightarrow> update_check \<Rightarrow> bool" where
  "update_inv replies u \<longleftrightarrow>
     (uc_workers u = [] \<or> uc_main u = S_Idle \<and> (\<exists>w. uc_workers u = [w] \<and> worker_ok replies (uc_current u) (uc_reply u, w)))
   \<and> (ur_status (uc_result u) = UPDATE_CHECKING \<longleftrightarrow> uc_workers u \<noteq> [] \<or> uc_main u \<noteq> S_Idle)
   \<and> (ur_status (uc_result u) \<noteq> UPDATE_CHECKING \<and> ur_status (uc_result u) \<noteq> UPDATE_IDLE \<longrightarrow>
        result_ok replies (uc_current u) (uc_result u))"

lemma update_inv_step: "update_step replies u u' \<Longrightarrow> update_inv replies u \<Longrightarrow> update_inv replies u'"
proof (erule update_stepE, goal_cases)
  case (5 i reply pc)
  then have i: "i = 0" and w: "uc_workers u = [uc_workers u ! 0]" by (auto simp: update_inv_def)
  then have "worker_ok replies (uc_current u) (reply, pc)"
    using 5 worker_step_ok [of replies "uc_current u" "uc_reply u" "uc_workers u ! 0" reply pc] by (auto simp: update_inv_def)
  then show ?case using 5 i by (auto simp: update_inv_def)
next
  case (6 i res)
  then show ?case by (auto simp: update_inv_def worker_ok_def result_ok_def)
qed (auto simp: update_inv_def start_section_def mk_result_def worker_ok_def result_ok_def failed_def)

lemma update_reach_inv: "update_reach replies u \<Longrightarrow> update_inv replies u"
proof (induction rule: update_reach.induct)
  case init
  show ?case by (simp add: update_inv_def update_init_def)
next
  case (step u u')
  then show ?case using update_inv_step by blast
qed

subsection \<open>Property\<close>

text \<open>
  C34. However often the check is started and however the threads interleave: at most one worker
  runs, and never while the main thread is between its first section and the creation of the
  thread, so the unguarded \<open>s_current\<close> and \<open>reply\<close> are never accessed by two threads at a time;
  the status says CHECKING exactly while a check is under way, so a new check can be started as
  soon as none is; and a release that is offered is the tag of a reply and newer than the running
  version.
\<close>
theorem update_check_exclusive:
  assumes "update_reach replies u"
  shows "length (uc_workers u) \<le> 1
     \<and> (uc_main u \<noteq> S_Idle \<longrightarrow> uc_workers u = [])
     \<and> (ur_status (update_check_poll u) = UPDATE_CHECKING \<longleftrightarrow> uc_workers u \<noteq> [] \<or> uc_main u \<noteq> S_Idle)
     \<and> (ur_status (update_check_poll u) = UPDATE_AVAILABLE \<longrightarrow>
          version_is_newer (Some (ur_latest (update_check_poll u))) (Some (uc_current u))
        \<and> (\<exists>reply \<in> replies. version_extract_tag (Some reply) '''' 64 = Some (ur_latest (update_check_poll u))))"
  using update_reach_inv [OF assms] by (auto simp: update_inv_def update_check_poll_def result_ok_def)

text \<open>A check that finds release 1.3.0 for version 1.2.0; a second start in between is a no-op.\<close>

definition sample_reply :: string where
  "sample_reply = tag_key @ '': '' @ [CHR 0x22] @ ''v1.3.0'' @ [CHR 0x22]"

lemma sample_tag: "version_extract_tag (Some sample_reply) '''' 64 = Some ''v1.3.0''"
  by (rule extract_rendered [where rest = "''''"]) (simp_all add: sample_reply_def tag_key_def after_first.simps)

lemma sample_versions: "render_version 1 3 0 '''' = ''v1.3.0''" "render_version 1 2 0 '''' = ''v1.2.0''"
  by (simp_all add: render_version_def dec.simps [of "Suc 0"] dec.simps [of 2] dec.simps [of 3] dec.simps [of 0] digit_char_def char_of_def bit_0)

lemma sample_newer: "version_is_newer (Some ''v1.3.0'') (Some ''v1.2.0'')"
  unfolding sample_versions [symmetric] version_is_newer_def by (simp add: parse_rendered suffix_ok_def)

lemma update_check_exclusive_witness:
  "\<exists>u. update_reach {sample_reply} u \<and> ur_status (update_check_poll u) = UPDATE_AVAILABLE
     \<and> version_is_newer (Some (ur_latest (update_check_poll u))) (Some (uc_current u)) \<and> uc_workers u = []"
proof -
  let ?R = "{sample_reply}" and ?v = "''v1.2.0''"
  let ?u1 = "start_section ?v update_init"
  let ?u2 = "?u1\<lparr>uc_current := ?v, uc_main := S_Create\<rparr>"
  let ?u3 = "?u2\<lparr>uc_main := S_Idle, uc_workers := [W_Start]\<rparr>"
  let ?u4 = "?u3\<lparr>uc_reply := sample_reply, uc_workers := [W_Close]\<rparr>"
  let ?u5 = "?u4\<lparr>uc_workers := [W_Extract]\<rparr>"
  let ?u6 = "?u5\<lparr>uc_workers := [W_Compare ''v1.3.0'']\<rparr>"
  let ?res = "mk_result UPDATE_AVAILABLE (Some ''v1.3.0'') None"
  let ?u7 = "?u6\<lparr>uc_workers := [W_Set ?res]\<rparr>"
  let ?u8 = "?u7\<lparr>uc_result := ?res, uc_workers := []\<rparr>"
  note d = start_section_def update_init_def mk_result_def
  have "update_reach ?R update_init" by (rule update_reach.init)
  moreover have "update_step ?R update_init ?u1" by (rule update_step.start) (simp add: d)
  moreover have "update_step ?R ?u1 ?u2" using update_step.copy [of ?u1 ?v ?R] by (simp add: d)
  moreover have "update_step ?R ?u2 ?u3" using update_step.create [of ?u2 ?R] by (simp add: d)
  moreover have "update_step ?R ?u3 ?u3" using update_step.start [of ?u3 ?R ?v] by (simp add: d)
  moreover have "update_step ?R ?u3 ?u4"
    using update_step.work [of 0 ?u3 ?R sample_reply W_Close] worker_step.read [of sample_reply ?R ?v "''''"]
    by (simp add: d sample_reply_def tag_key_def)
  moreover have "update_step ?R ?u4 ?u5"
    using update_step.work [of 0 ?u4 ?R sample_reply W_Extract] worker_step.pclose [of ?R ?v sample_reply] by (simp add: d)
  moreover have "update_step ?R ?u5 ?u6"
    using update_step.work [of 0 ?u5 ?R sample_reply "W_Compare ''v1.3.0''"] worker_step.tag [OF sample_tag, of ?R ?v] by (simp add: d)
  moreover have "update_step ?R ?u6 ?u7"
    using update_step.work [of 0 ?u6 ?R sample_reply "W_Set ?res"] worker_step.compare [of ?R ?v sample_reply "''v1.3.0''"] sample_newer
    by (simp add: d)
  moreover have "update_step ?R ?u7 ?u8" using update_step.finish [of 0 ?u7 ?res ?R] by (simp add: d)
  ultimately have r: "update_reach ?R ?u8" by (meson update_reach.step)
  have s: "ur_status (update_check_poll ?u8) = UPDATE_AVAILABLE" by (simp add: update_check_poll_def d)
  then show ?thesis using r update_check_exclusive [OF r] by (intro exI [of _ ?u8]) simp
qed

end
