(* ===== verification/Dialogs.thy ===== *)
theory Dialogs
  imports Menus Update_Check
begin

text \<open>
  The status bar (\<open>src/src/ui/status_bar.c\<close>) and the about dialog (\<open>src/src/ui/about_dialog.c\<close>):
  their texts and clicks. What the about dialog asks of the update check or of the browser is its
  result.
\<close>

subsection \<open>Texts\<close>

text \<open>\<open>%.1f\<close>\<close>

definition fixed1 :: "dbl \<Rightarrow> string" where
  "fixed1 x =
     (case x of
        Fin r \<Rightarrow> (let q = nat (round_even (\<bar>r\<bar> * 10))
                  in (if r < 0 then ''-'' else '''') @ dec (q div 10) @ ''.'' @ dec (q mod 10))
      | Inf n \<Rightarrow> (if n then ''-inf'' else ''inf'')
      | Nan \<Rightarrow> ''nan'')"

definition middle_dot :: string where
  "middle_dot = [CHR '' '', char_of (0xc2::nat), char_of (0xb7::nat), CHR '' '']"

subsection \<open>The status bar\<close>

record status_bar =
  sb_stats :: string
  sb_upd_timer :: dbl

definition status_refresh :: "dbl \<Rightarrow> app_state \<Rightarrow> status_bar \<Rightarrow> status_bar" where
  "status_refresh dt st b =
     (let b = b\<lparr>sb_upd_timer := flt_sub (sb_upd_timer b) dt\<rparr> in
      if dbl_le (sb_upd_timer b) (Fin 0)
      then b\<lparr>sb_upd_timer := Fin 1,
             sb_stats := snprintf 128 (dec (unat (as_total_topics st)) @ '' topics'' @ middle_dot @ dec (unat (as_total_messages st))
               @ '' msgs'' @ middle_dot @ fixed1 (as_msgs_per_sec st) @ '' msg/s'')\<rparr>
      else b)"

definition status_bar_render :: "ui_input \<Rightarrow> status_bar \<times> app_state \<Rightarrow> status_bar \<times> app_state" where
  "status_bar_render inp s =
     (let (b, st) = s
      in (status_refresh (ui_dt inp) st b, if clicked inp ''PublishBtn'' then st\<lparr>as_publish_panel_open := True\<rparr> else st))"

subsection \<open>The about dialog\<close>

datatype about_action = Start_Check | Open_URL string

definition APP_REPO_URL :: string where
  "APP_REPO_URL = ''https://github.com/gehirndienst/mqtt-viewer''"

definition APP_RELEASES_URL :: string where
  "APP_RELEASES_URL = APP_REPO_URL @ ''/releases/latest''"

definition about_status :: "update_result \<Rightarrow> string" where
  "about_status upd =
     snprintf 160 (case ur_status upd of
        UPDATE_CHECKING \<Rightarrow> ''Checking...''
      | UPDATE_UP_TO_DATE \<Rightarrow> ''You are up to date (latest release: '' @ ur_latest upd @ '')''
      | UPDATE_AVAILABLE \<Rightarrow> ''Update available: '' @ ur_latest upd
      | UPDATE_FAILED \<Rightarrow> ur_error upd
      | UPDATE_IDLE \<Rightarrow> '''')"

definition about_click :: "ui_input \<Rightarrow> update_result \<Rightarrow> app_state \<Rightarrow> about_action list \<times> app_state" where
  "about_click inp upd st =
     (if ui_over inp (El ''AboutCloseBtn'') \<or> \<not> ui_over inp (El ''AboutModal'') then ([], st\<lparr>as_about_dialog_open := False\<rparr>)
      else if ui_over inp (El ''AboutCheckBtn'') then ([Start_Check], st)
      else if ur_status upd = UPDATE_AVAILABLE \<and> ui_over inp (El ''AboutOpenReleaseBtn'') then ([Open_URL APP_RELEASES_URL], st)
      else if ui_over inp (El ''AboutRepoLink'') then ([Open_URL APP_REPO_URL], st)
      else ([], st))"

text \<open>
  The flag is the static \<open>s_was_open\<close>: the click that opened the dialog does not close it. The
  result is the status text, what is asked for, and the new state.
\<close>

definition about_dialog_render :: "ui_input \<Rightarrow> keyboard \<Rightarrow> update_result \<Rightarrow> bool \<times> app_state
    \<Rightarrow> (string \<times> about_action list) \<times> bool \<times> app_state" where
  "about_dialog_render inp kb upd s =
     (let (was_open, st) = s in
      if \<not> as_about_dialog_open st then (('''', []), False, st)
      else
        let (acts, st) = (if was_open \<and> ui_left inp then about_click inp upd st else ([], st));
            st = (if KEY_ESCAPE \<in> kb_pressed kb then st\<lparr>as_about_dialog_open := False\<rparr> else st)
        in ((about_status upd, acts), True, st))"

end
