(* ===== verification/Inspector_View.thy ===== *)
theory Inspector_View
  imports Hex_Dump Dialogs Menus Inspector_Diff Cbor_PP "HOL-Library.Countable"
begin

text \<open>
  \<open>src/src/ui/inspector_widget.c\<close> apart from its line diff and its hex dump: the views, the history of a topic, the frozen message of a search result, and the clicks. The
  static variables of the file are a state of their own. A view is described by what it lays out;
  fonts, colours and sizes are Clay's. Undefined behaviour is \<open>None\<close>.
\<close>

abbreviation HISTORY_MAX_ROWS :: nat where "HISTORY_MAX_ROWS \<equiv> 200"

subsection \<open>State\<close>

text \<open>
  Where a payload lies: in a block of the tree's pool, in the heap of the history, or in the
  preview of the frozen message. The caches of the pretty-printers compare addresses.
\<close>

datatype payload_src = Block addr | Heap_Ptr ptr | Frozen_Preview

definition node_id :: "addr \<Rightarrow> nat" where
  "node_id a = prod_encode (ad_slab a, ad_index a)"

primrec src_addr :: "payload_src \<Rightarrow> nat" where
  "src_addr (Block a) = prod_encode (0, node_id a)"
| "src_addr (Heap_Ptr p) = prod_encode (1, p)"
| "src_addr Frozen_Preview = prod_encode (2, 0)"

record inspector =
  in_pp :: json_pp
  in_pp_prev :: json_pp
  in_cbor :: json_pp
  in_diff :: diff_view
  in_copied_btn :: int
  in_copied_timer :: dbl
  in_hist_copied_ts :: u64
  in_hist_copied_timer :: dbl
  in_hist_expanded_ts :: u64
  in_last_hist_node :: "addr option"
  in_matches :: "u32 list"
  in_match_node :: "addr option"
  in_match_generation :: u64
  in_topic :: string

subsection \<open>Charts\<close>

definition chart_add_from_line :: "inspector \<Rightarrow> nat \<Rightarrow> app_state \<Rightarrow> app_state" where
  "chart_add_from_line I line_idx st =
     (if line_idx \<ge> length (jp_lines (in_pp I)) \<or> in_topic I = '''' then st
      else
        let line = jp_lines (in_pp I) ! line_idx; series = as_chart_series st in
        if \<not> jl_is_numeric line then st
        else if \<exists>s \<in> set series. cs_active s \<and> cs_topic s = in_topic I \<and> cs_dot_path s = jl_dot_path line then st
        else case find (\<lambda>i. \<not> cs_active (series ! i)) [0..<length series] of
               None \<Rightarrow> st
             | Some i \<Rightarrow> st\<lparr>as_chart_series := series[i := chart_series_init (Some (in_topic I)) (Some (jl_dot_path line))]\<rparr>)"

text \<open>The first numeric line whose button was hit; the search stops there.\<close>

definition chart_add_click :: "ui_input \<Rightarrow> inspector \<Rightarrow> app_state \<Rightarrow> app_state" where
  "chart_add_click inp I st =
     (if ui_left inp then
        (case find (\<lambda>li. jl_is_numeric (jp_lines (in_pp I) ! li) \<and> ui_over inp (El_idx ''ChartAdd'' li)) [0..<length (jp_lines (in_pp I))] of
           None \<Rightarrow> st | Some li \<Rightarrow> chart_add_from_line I li st)
      else st)"

subsection \<open>The views of a payload\<close>

record history_row =
  hr_time :: string
  hr_meta :: string
  hr_expanded :: bool
  hr_copying :: bool
  hr_text :: "string option"
  hr_lines :: "json_line list"

datatype payload_view =
    Empty_View
  | Text_View string bool
  | Hex_View "string list" bool
  | Lines_View "json_line list" "pp_row list"
  | No_History
  | No_Matches
  | History_View "history_row list"

definition render_text_view :: "bytes \<Rightarrow> payload_view" where
  "render_text_view src =
     (if src = [] then Empty_View else Text_View (payload_text src TEXT_VIEW_MAX) (length src > TEXT_VIEW_MAX))"

definition render_hex_view :: "bytes \<Rightarrow> payload_view option" where
  "render_hex_view src =
     (if src = [] then Some Empty_View
      else map_option (\<lambda>ls. Hex_View ls (length src > 1024))
             (those (map (format_hex_line HEX_LINE_BUF src) (take 64 (hex_offsets src)))))"

definition render_json_view :: "payload_src \<Rightarrow> bytes \<Rightarrow> u64 \<Rightarrow> inspector \<Rightarrow> (payload_view \<times> inspector) option" where
  "render_json_view a src key I =
     (let text = map char_of_byte src in
      if src = [] then Some (Empty_View, I)
      else if \<not> json_pp_looks_like_json (Some text) then Some (render_text_view src, I)
      else do {
        (_, pp) \<leftarrow> json_pp_run_cached (in_pp I) (Some (src_addr a), text) (length text) key;
        Some (if jp_lines pp = [] then render_text_view src else Lines_View (jp_lines pp) (plain_rows pp 0 @ truncation_row pp),
              I\<lparr>in_pp := pp\<rparr>)
      })"

definition render_cbor_view :: "payload_src \<Rightarrow> bytes \<Rightarrow> u64 \<Rightarrow> inspector \<Rightarrow> (payload_view \<times> inspector) option" where
  "render_cbor_view a src key I =
     (if src = [] then Some (Empty_View, I)
      else do {
        (ok, pp) \<leftarrow> cbor_pp_run_cached (in_cbor I) (Some (src_addr a), src) key;
        Some (if \<not> ok then render_text_view src else Lines_View (jp_lines pp) (plain_rows pp 0 @ truncation_row pp),
              I\<lparr>in_cbor := pp\<rparr>)
      })"

definition render_diff_view :: "addr \<Rightarrow> topic_node \<Rightarrow> payload_src \<Rightarrow> bytes \<Rightarrow> inspector \<Rightarrow> (payload_view \<times> inspector) option" where
  "render_diff_view node n a src I = do {
     (rows, pp, pp_prev, v) \<leftarrow> render_json_diff_view (node_id node) (Some (src_addr a), map char_of_byte src)
        (tn_last_display_update_us n) (tn_last_message_ts n) (in_pp I) (in_pp_prev I) (in_diff I);
     Some (if rows = [NoPayload] then Empty_View else if rows = [PlainText] then render_text_view src else Lines_View (jp_lines pp) rows,
           I\<lparr>in_pp := pp, in_pp_prev := pp_prev, in_diff := v\<rparr>)
   }"

subsection \<open>The history of a topic\<close>

text \<open>The newest 200 records of the topic, newest first, by their index in the ring.\<close>

fun history_matches :: "message_buf \<Rightarrow> string \<Rightarrow> nat \<Rightarrow> u32 list \<Rightarrow> u32 list" where
  "history_matches buf path 0 ms = ms"
| "history_matches buf path (Suc i) ms =
     (if length ms < HISTORY_MAX_ROWS
      then history_matches buf path i
             (case message_buf_get buf (word_of_nat i) of
                Some r \<Rightarrow> if mr_topic r = path then ms @ [word_of_nat i] else ms
              | None \<Rightarrow> ms)
      else ms)"

definition history_refresh :: "message_buf \<Rightarrow> addr \<Rightarrow> string \<Rightarrow> inspector \<Rightarrow> inspector" where
  "history_refresh buf node path I =
     (let generation = message_buf_generation buf in
      if Some node \<noteq> in_match_node I \<or> generation \<noteq> in_match_generation I
      then I\<lparr>in_match_node := Some node, in_match_generation := generation,
             in_matches := history_matches buf path (unat (message_buf_count buf)) []\<rparr>
      else I)"

text \<open>The bytes of a record; a payload without bytes is not read.\<close>

definition record_bytes :: "heap \<Rightarrow> slot \<Rightarrow> bytes option" where
  "record_bytes h r =
     (if mr_payload_len r = 0 then Some []
      else case mr_payload r of
             None \<Rightarrow> None
           | Some p \<Rightarrow> (case hp_blocks h p of
                          None \<Rightarrow> None
                        | Some bs \<Rightarrow> if length bs < unat (mr_payload_len r) then None else Some (take (unat (mr_payload_len r)) bs)))"

definition history_payload :: "heap \<Rightarrow> slot \<Rightarrow> inspector \<Rightarrow> (string option \<times> json_line list \<times> inspector) option" where
  "history_payload h r I = do {
     src \<leftarrow> record_bytes h r;
     let text = map char_of_byte src;
     let is_json = json_pp_looks_like_json (Some text);
     pp \<leftarrow> (if is_json
           then map_option snd (json_pp_run_cached (in_pp I) (map_option (\<lambda>p. src_addr (Heap_Ptr p)) (mr_payload r), text) (length text) (mr_timestamp_us r))
           else Some (in_pp I));
     Some (if \<not> is_json \<or> jp_lines pp = [] then (Some (payload_text src TEXT_VIEW_MAX), [], I\<lparr>in_pp := pp\<rparr>)
           else (None, jp_lines pp, I\<lparr>in_pp := pp\<rparr>))
   }"

definition history_row_of :: "(nat \<Rightarrow> (nat \<times> nat \<times> nat) option) \<Rightarrow> heap \<Rightarrow> message_buf \<Rightarrow> u32 \<Rightarrow> history_row list \<times> inspector
    \<Rightarrow> (history_row list \<times> inspector) option" where
  "history_row_of localtime h buf m s =
     (case message_buf_get buf m of
        None \<Rightarrow> Some s
      | Some r \<Rightarrow>
          (let (rows, I) = s;
               expanded = (in_hist_expanded_ts I \<noteq> 0 \<and> mr_timestamp_us r = in_hist_expanded_ts I);
               copying = (in_hist_copied_ts I \<noteq> 0 \<and> mr_timestamp_us r = in_hist_copied_ts I)
           in do {
             (text, ls, I) \<leftarrow> (if expanded \<and> mr_payload_len r > 0 then history_payload h r I else Some (None, [], I));
             Some (rows @ [\<lparr>hr_time = util_fmt_hhmmss localtime (mr_timestamp_us r) '''' 16,
                            hr_meta = snprintf 32 (''Q'' @ dec (unat (mr_qos r)) @ ''  '' @ dec (unat (mr_payload_len r)) @ '' B''
                                        @ (if mr_retained r then ''  R'' else '''')),
                            hr_expanded = expanded, hr_copying = copying, hr_text = text, hr_lines = ls\<rparr>], I)
           }))"

definition history_click :: "ui_input \<Rightarrow> heap \<Rightarrow> message_buf \<Rightarrow> nat \<Rightarrow> inspector \<times> keyboard \<Rightarrow> (inspector \<times> keyboard) option" where
  "history_click inp h buf ri s =
     (let (I, kb) = s in
      case message_buf_get buf (in_matches I ! ri) of
        None \<Rightarrow> Some s
      | Some r \<Rightarrow> do {
          (I, kb) \<leftarrow>
            (if ui_over inp (El_idx ''HC'' ri) \<and> ui_left inp \<and> mr_payload_len r > 0
             then map_option (\<lambda>src. (I\<lparr>in_hist_copied_ts := mr_timestamp_us r, in_hist_copied_timer := ui_utils_flash_start\<rparr>,
                                    kb\<lparr>kb_clipboard := Some (payload_text_into (INSPECTOR_PAYLOAD_CAP + 1) src INSPECTOR_PAYLOAD_CAP)\<rparr>))
                    (record_bytes h r)
             else Some (I, kb));
          Some (if ui_over inp (El_idx ''HH'' ri) \<and> \<not> ui_over inp (El_idx ''HC'' ri) \<and> ui_left inp
                then I\<lparr>in_hist_expanded_ts := (if in_hist_expanded_ts I = mr_timestamp_us r then 0 else mr_timestamp_us r)\<rparr>
                else I, kb)
        })"

definition render_history_view :: "(nat \<Rightarrow> (nat \<times> nat \<times> nat) option) \<Rightarrow> ui_input \<Rightarrow> heap \<Rightarrow> addr \<Rightarrow> app_state
    \<Rightarrow> inspector \<times> keyboard \<Rightarrow> (payload_view \<times> inspector \<times> keyboard) option" where
  "render_history_view localtime inp h node st s = do {
     let (I, kb) = s;
     let (on, timer) = ui_utils_flash_tick (ui_dt inp) (in_hist_copied_timer I);
     let I = I\<lparr>in_hist_copied_timer := timer, in_hist_copied_ts := (if on then in_hist_copied_ts I else 0)\<rparr>;
     let I = (if Some node \<noteq> in_last_hist_node I then I\<lparr>in_last_hist_node := Some node, in_hist_expanded_ts := 0\<rparr> else I);
     path \<leftarrow> topic_node_full_path node '''' 512 (as_topic_tree st);
     let buf = as_global_history st;
     (if message_buf_count buf = 0 then Some (No_History, I, kb)
      else do {
        let I = history_refresh buf node path I;
        if in_matches I = [] then Some (No_Matches, I, kb)
        else do {
          (rows, I) \<leftarrow> option_fold (history_row_of localtime h buf) (in_matches I) ([], I);
          (I, kb) \<leftarrow> option_fold (history_click inp h buf) [0..<length (in_matches I)] (I, kb);
          Some (History_View rows, I, kb)
        }
      })
   }"

subsection \<open>The frozen message of a search result\<close>

definition escape_closes :: "keyboard \<Rightarrow> app_state \<Rightarrow> bool" where
  "escape_closes kb st \<longleftrightarrow>
     KEY_ESCAPE \<in> kb_pressed kb \<and> \<not> as_profile_dialog_open st \<and> \<not> as_publish_panel_open st
   \<and> \<not> as_context_menu_open st \<and> \<not> as_about_dialog_open st"

definition copied_tick :: "ui_input \<Rightarrow> inspector \<Rightarrow> inspector" where
  "copied_tick inp I =
     (let (on, timer) = ui_utils_flash_tick (ui_dt inp) (in_copied_timer I)
      in I\<lparr>in_copied_timer := timer, in_copied_btn := (if on then in_copied_btn I else - 1)\<rparr>)"

definition view_tabs :: "ui_input \<Rightarrow> string \<Rightarrow> view_mode list \<Rightarrow> app_state \<Rightarrow> app_state" where
  "view_tabs inp tab modes st =
     fold (\<lambda>(t, m) st. if ui_over inp (El_idx tab t) \<and> ui_left inp then st\<lparr>as_inspector_view := m\<rparr> else st)
       (zip [0..<length modes] modes) st"

text \<open>The action buttons 0 to 2, of the frozen and of the live inspector.\<close>

definition inspector_action :: "bytes \<Rightarrow> string \<Rightarrow> nat \<Rightarrow> inspector \<times> app_state \<times> keyboard
    \<Rightarrow> (inspector \<times> app_state \<times> keyboard) option" where
  "inspector_action src topic a s = do {
     let (I, st, kb) = s;
     (st, kb) \<leftarrow>
       (if a = 0 then
          (if as_inspector_view st = VIEW_HEX
           then map_option (\<lambda>text. (st, kb\<lparr>kb_clipboard := Some text\<rparr>)) (build_hex_dump_str src 5248)
           else Some (st, kb\<lparr>kb_clipboard := Some (payload_text_into (INSPECTOR_PAYLOAD_CAP + 1) src INSPECTOR_PAYLOAD_CAP)\<rparr>))
        else if a = 1 then Some (st, kb\<lparr>kb_clipboard := Some topic\<rparr>)
        else if a = 2
        then Some (st\<lparr>as_publish_topic := util_str_copy (as_publish_topic st) 256 (Some topic), as_publish_panel_open := True\<rparr>, kb)
        else Some (st, kb));
     Some (I\<lparr>in_copied_btn := int a, in_copied_timer := ui_utils_flash_start\<rparr>, st, kb)
   }"

definition frozen_src :: "heap \<Rightarrow> slot \<Rightarrow> (payload_src \<times> bytes) option" where
  "frozen_src h r =
     (case mr_payload r of
        Some p \<Rightarrow> if mr_payload_len r > 0 then map_option (Pair (Heap_Ptr p)) (record_bytes h r)
                  else Some (Frozen_Preview, map byte_of_char (mr_preview r))
      | None \<Rightarrow> Some (Frozen_Preview, map byte_of_char (mr_preview r)))"

definition render_frozen_inspector :: "ui_input \<Rightarrow> heap \<Rightarrow> inspector \<times> app_state \<times> keyboard
    \<Rightarrow> (payload_view \<times> inspector \<times> app_state \<times> keyboard) option" where
  "render_frozen_inspector inp h s = do {
     let (I, st, kb) = s;
     let I = copied_tick inp I;
     let r = as_frozen_message st;
     (a, src) \<leftarrow> frozen_src h r;
     let st = view_tabs inp ''FTab'' [VIEW_JSON, VIEW_CBOR, VIEW_HEX] st;
     let st = (if as_inspector_view st = VIEW_HISTORY then st\<lparr>as_inspector_view := VIEW_JSON\<rparr> else st);
     (view, I) \<leftarrow>
       (case as_inspector_view st of
          VIEW_JSON \<Rightarrow> render_json_view a src (mr_timestamp_us r) I
        | VIEW_CBOR \<Rightarrow> render_cbor_view a src (mr_timestamp_us r) I
        | VIEW_HEX \<Rightarrow> map_option (\<lambda>v. (v, I)) (render_hex_view src)
        | VIEW_HISTORY \<Rightarrow> Some (Empty_View, I));
     let st = (if escape_closes kb st \<or> clicked inp ''InspectorCloseBtn'' then st\<lparr>as_inspector_frozen := False\<rparr> else st);
     (I, st, kb) \<leftarrow> option_fold (\<lambda>a s. if ui_over inp (El_idx ''FAction'' a) \<and> ui_left inp then inspector_action src (mr_topic r) a s else Some s)
        [0..<3] (I, st, kb);
     Some (view, I, st, kb)
   }"

subsection \<open>The inspector of the selected topic\<close>

definition inspector_meta :: "topic_node \<Rightarrow> string" where
  "inspector_meta n =
     snprintf 256 (dec (unat (tn_message_count n)) @ '' messages''
       @ (if flt_less (tn_throughput n) (flt (1 / 20)) \<or> tn_throughput n = Nan then ''''
          else middle_dot @ fixed1 (tn_throughput n) @ ''/s'')
       @ (if tn_has_retained n then middle_dot @ ''Retained'' else ''''))"

definition age_text :: "u64 \<Rightarrow> u64 \<Rightarrow> string" where
  "age_text now ts =
     (if ts > 0 then
        let age_s = (if now \<ge> ts then (ucast ((now - ts) div 1000000) :: u32) else 0)
        in snprintf 20 (if age_s < 60 then dec (unat age_s) @ ''s ago''
             else if age_s < 3600 then dec (unat (age_s div 60)) @ ''m ago''
             else dec (unat (age_s div 3600)) @ ''h ago'')
      else ''--'')"

definition last_meta :: "u64 \<Rightarrow> topic_node \<Rightarrow> string" where
  "last_meta now n =
     snprintf 80 (age_text now (tn_last_message_ts n) @ middle_dot @ dec (unat (tn_last_payload_len n)) @ '' B''
       @ middle_dot @ ''QoS '' @ dec (unat (tn_last_qos n)))"

text \<open>The stored payload of a node, with its block.\<close>

definition node_bytes :: "topic_tree \<Rightarrow> topic_node \<Rightarrow> (addr option \<times> bytes) option" where
  "node_bytes t n =
     (case topic_node_payload n of
        (None, _) \<Rightarrow> Some (None, [])
      | (Some p, len) \<Rightarrow> map_option (\<lambda>bs. (Some p, take (unat len) bs)) (block_at t p))"

definition payload_src_of :: "addr option \<Rightarrow> payload_src" where
  "payload_src_of p = (case p of None \<Rightarrow> Frozen_Preview | Some a \<Rightarrow> Block a)"

definition payload_view_of :: "(nat \<Rightarrow> (nat \<times> nat \<times> nat) option) \<Rightarrow> ui_input \<Rightarrow> heap \<Rightarrow> addr \<Rightarrow> topic_node \<Rightarrow> addr option \<times> bytes
    \<Rightarrow> inspector \<times> app_state \<times> keyboard \<Rightarrow> (payload_view \<times> inspector \<times> keyboard) option" where
  "payload_view_of localtime inp h node n pl s =
     (let (I, st, kb) = s; a = payload_src_of (fst pl); src = snd pl;
          keep = map_option (\<lambda>(v, I). (v, I, kb)) in
      case as_inspector_view st of
        VIEW_JSON \<Rightarrow> keep (if as_diff_enabled st then render_diff_view node n a src I
                          else render_json_view a src (tn_last_display_update_us n) I)
      | VIEW_CBOR \<Rightarrow> keep (render_cbor_view a src (tn_last_display_update_us n) I)
      | VIEW_HEX \<Rightarrow> keep (map_option (\<lambda>v. (v, I)) (render_hex_view src))
      | VIEW_HISTORY \<Rightarrow> render_history_view localtime inp h node st (I, kb))"

definition live_action :: "ui_input \<Rightarrow> addr \<Rightarrow> bytes \<Rightarrow> string \<Rightarrow> nat \<Rightarrow> inspector \<times> app_state \<times> keyboard
    \<Rightarrow> (inspector \<times> app_state \<times> keyboard) option" where
  "live_action inp node src path a s =
     (if ui_over inp (El_idx ''Action'' a) \<and> ui_left inp then
        (if a = 3
         then (let (I, st, kb) = s
               in Some (I\<lparr>in_copied_btn := 3, in_copied_timer := ui_utils_flash_start\<rparr>, st\<lparr>as_clear_topic_requested := Some node\<rparr>, kb))
         else inspector_action src path a s)
      else Some s)"

definition inspector_widget_render :: "(nat \<Rightarrow> (nat \<times> nat \<times> nat) option) \<Rightarrow> ui_input \<Rightarrow> heap
    \<Rightarrow> inspector \<times> app_state \<times> keyboard \<Rightarrow> (payload_view option \<times> inspector \<times> app_state \<times> keyboard) option" where
  "inspector_widget_render localtime inp h s =
     (let (I, st, kb) = s in
      if as_inspector_frozen st then map_option (\<lambda>(v, s). (Some v, s)) (render_frozen_inspector inp h s)
      else
        case as_selected_topic st of
          None \<Rightarrow> Some (None, s)
        | Some node \<Rightarrow> do {
            n \<leftarrow> node_at (as_topic_tree st) node;
            pl \<leftarrow> node_bytes (as_topic_tree st) n;
            path \<leftarrow> topic_node_full_path node '''' 512 (as_topic_tree st);
            let I = copied_tick inp (I\<lparr>in_topic := take 255 path\<rparr>);
            let st = view_tabs inp ''Tab'' [VIEW_JSON, VIEW_CBOR, VIEW_HEX, VIEW_HISTORY] st;
            (view, I, kb) \<leftarrow> payload_view_of localtime inp h node n pl (I, st, kb);
            let st = (if escape_closes kb st then st\<lparr>as_selected_topic := None\<rparr> else st);
            let st = chart_add_click inp I st;
            (I, st, kb) \<leftarrow> option_fold (live_action inp node (snd pl) path) [0..<4] (I, st, kb);
            Some (Some view, I, st, kb)
          })"

end
