(* ===== verification/Export_Path.thy ===== *)
theory Export_Path
  imports Util
begin

text \<open>
  \<open>src/src/platform/export_path.c\<close>: where a CSV export goes. The environment and the answers of
  \<open>stat\<close> are parameters; \<open>tm\<close> is the local time that \<open>localtime_r\<close> gives.
\<close>

definition dir_exists :: "(string \<Rightarrow> bool) \<Rightarrow> string option \<Rightarrow> bool" where
  "dir_exists is_dir path = (case path of None \<Rightarrow> False | Some p \<Rightarrow> p \<noteq> [] \<and> is_dir p)"

text \<open>The directory, in a buffer of 1024 bytes; without a home there is none.\<close>

definition export_dir :: "(string \<Rightarrow> string option) \<Rightarrow> (string \<Rightarrow> bool) \<Rightarrow> string option" where
  "export_dir getenv is_dir =
     (let nonempty = (\<lambda>v. case v of None \<Rightarrow> None | Some s \<Rightarrow> if s = [] then None else Some s) in
      case nonempty (getenv ''MQTT_VIEWER_CSV_EXPORT_PATH'') of
        Some override \<Rightarrow> Some (snprintf 1024 override)
      | None \<Rightarrow>
          (case nonempty (getenv ''HOME'') of
             None \<Rightarrow> None
           | Some home \<Rightarrow>
               (let dir = snprintf 1024 (home @ ''/Downloads'') in
                if dir_exists is_dir (Some dir) then Some dir
                else if dir_exists is_dir (getenv ''XDG_DOWNLOAD_DIR'')
                then map_option (snprintf 1024) (getenv ''XDG_DOWNLOAD_DIR'')
                else Some (snprintf 1024 home))))"

text \<open>At most 127 characters of the topic, without its slashes.\<close>

definition export_slug :: "string option \<Rightarrow> string" where
  "export_slug topic =
     (case topic of
        None \<Rightarrow> ''all''
      | Some t \<Rightarrow> if t = [] then ''all'' else map (\<lambda>c. if c = CHR ''/'' then CHR ''-'' else c) (take 127 t))"

text \<open>
  \<open>strftime\<close> into 20 bytes: a stamp that does not fit (a year of nine digits) leaves the buffer
  indeterminate, which is \<open>None\<close>.
\<close>

definition export_stamp :: "nat \<times> nat \<times> nat \<times> nat \<times> nat \<times> nat \<Rightarrow> string option" where
  "export_stamp tm =
     (let (y, mo, d, h, mi, s) = tm;
          text = dec y @ pad0 2 (dec mo) @ pad0 2 (dec d) @ ''-'' @ pad0 2 (dec h) @ pad0 2 (dec mi) @ pad0 2 (dec s)
      in if length text < 20 then Some text else None)"

definition export_name :: "string option \<Rightarrow> string \<Rightarrow> string" where
  "export_name topic stamp = ''mqtt-export-'' @ export_slug topic @ ''-'' @ stamp @ ''.csv''"

text \<open>The answer, with the buffer \<open>out\<close> of \<open>out_size > 0\<close> bytes.\<close>

definition export_path_resolve :: "(string \<Rightarrow> string option) \<Rightarrow> (string \<Rightarrow> bool) \<Rightarrow> nat \<times> nat \<times> nat \<times> nat \<times> nat \<times> nat
    \<Rightarrow> string option \<Rightarrow> string \<Rightarrow> nat \<Rightarrow> (bool \<times> string) option" where
  "export_path_resolve getenv is_dir tm topic out out_size =
     (case export_dir getenv is_dir of
        None \<Rightarrow> Some (False, out)
      | Some dir \<Rightarrow>
          map_option (\<lambda>stamp.
            let text = dir @ ''/'' @ export_name topic stamp
            in (length text > 0 \<and> length text < out_size, snprintf out_size text))
          (export_stamp tm))"

subsection \<open>Property\<close>

lemma dec_no_slash: "CHR ''/'' \<notin> set (dec n)"
proof (induction n rule: dec.induct)
  case (1 n)
  have d: "CHR ''/'' \<noteq> digit_char d" if "d < 10" for d
  proof
    assume e: "CHR ''/'' = digit_char d"
    then have "of_char (digit_char d) = (47::nat)" by (simp flip: e)
    then show False using that by (simp add: digit_char_def)
  qed
  with 1 show ?case by (subst dec.simps) (auto dest: d)
qed

lemma pad0_no_slash: "CHR ''/'' \<notin> set (pad0 w (dec n))"
  using dec_no_slash [of n] by (simp add: pad0_def)

lemma stamp_no_slash: "export_stamp tm = Some stamp \<Longrightarrow> CHR ''/'' \<notin> set stamp"
  using dec_no_slash pad0_no_slash by (auto simp: export_stamp_def Let_def split: prod.splits if_splits)

lemma slug_no_slash: "CHR ''/'' \<notin> set (export_slug topic)"
  by (auto simp: export_slug_def split: option.splits)

lemma export_name_no_slash: "export_stamp tm = Some stamp \<Longrightarrow> CHR ''/'' \<notin> set (export_name topic stamp)"
  using stamp_no_slash slug_no_slash [of topic] by (simp add: export_name_def)

lemma export_name_length: "export_stamp tm = Some stamp \<Longrightarrow> length (export_name topic stamp) < 12 + 127 + 1 + 20 + 4"
  by (auto simp: export_name_def export_slug_def export_stamp_def Let_def split: prod.splits if_splits option.splits)



end
