(* ===== verification/Main_Inv.thy ===== *)
theory Main_Inv
  imports Main_Loop Mqtt_Inv Topic_Payload Db_Flush
begin

text \<open>
  The invariant of the main loop: what holds between the frames of the state that its handlers
  share, that every handler keeps it, and that none of them meets undefined behaviour.
\<close>

subsection \<open>The invariant\<close>

definition history_ok :: "heap \<Rightarrow> message_buf \<Rightarrow> u64 \<Rightarrow> bool" where
  "history_ok h buf saved \<longleftrightarrow> mb_wf (h, buf) \<and> (\<forall>r\<in>set (mb_items (h, buf)). unat (mr_payload_len r) < 2 ^ 31)
     \<and> unat (mb_count buf) \<le> unat (mb_generation buf) \<and> unat saved \<le> unat (mb_generation buf)"

text \<open>
  The pointers into the tree that live across frames point to nodes; the context menu is closed
  while a disconnect, which frees the tree, is pending; the texts that can be edited fit their
  buffers; and the frozen message owns no payload.
\<close>

definition pointers_ok :: "topic_tree \<Rightarrow> main_state \<Rightarrow> bool" where
  "pointers_ok t s \<longleftrightarrow> level_ok t (as_selected_topic (mn_app s)) \<and> level_ok t (as_clear_topic_requested (mn_app s))
     \<and> level_ok t (mn_tpt_node s)
     \<and> (as_context_menu_open (mn_app s) \<longrightarrow> as_context_menu_target (mn_app s) \<noteq> None \<and> level_ok t (as_context_menu_target (mn_app s)))
     \<and> (as_disconnect_requested (mn_app s) \<longrightarrow> \<not> as_context_menu_open (mn_app s))
     \<and> length (as_topic_filter (mn_app s)) < 256 \<and> length (as_publish_topic (mn_app s)) < 256
     \<and> length (as_publish_payload (mn_app s)) < 4096 \<and> mr_payload (as_frozen_message (mn_app s)) = None"

definition main_ok :: "(addr \<Rightarrow> string list) \<Rightarrow> main_state \<Rightarrow> bool" where
  "main_ok P s \<longleftrightarrow> tree_ok P (as_topic_tree (mn_app s)) \<and> payloads_ok (as_topic_tree (mn_app s))
     \<and> pointers_ok (as_topic_tree (mn_app s)) s
     \<and> history_ok (mn_heap s) (as_global_history (mn_app s)) (mn_saved s) \<and> length (mn_batch s) = 256
     \<and> (\<forall>c\<in>set (as_chart_series (mn_app s)). series_inv c) \<and> client_inv (mn_mqtt s)"

definition main_inv :: "main_state \<Rightarrow> bool" where
  "main_inv s \<longleftrightarrow> (\<exists>P. main_ok P s)"

lemma main_okD:
  assumes "main_ok P s"
  shows "tree_ok P (as_topic_tree (mn_app s))" "payloads_ok (as_topic_tree (mn_app s))"
    and "history_ok (mn_heap s) (as_global_history (mn_app s)) (mn_saved s)" "length (mn_batch s) = 256"
    and "\<forall>c\<in>set (as_chart_series (mn_app s)). series_inv c" "client_inv (mn_mqtt s)"
    and "level_ok (as_topic_tree (mn_app s)) (as_selected_topic (mn_app s))"
    and "level_ok (as_topic_tree (mn_app s)) (as_clear_topic_requested (mn_app s))"
    and "level_ok (as_topic_tree (mn_app s)) (mn_tpt_node s)"
  using assms by (simp_all add: main_ok_def pointers_ok_def)

text \<open>A change of the tree that keeps its nodes.\<close>

lemma kept_ok:
  assumes "main_ok P s" "nodes_kept P (as_topic_tree (mn_app s)) t"
  shows "main_ok P (s\<lparr>mn_app := (mn_app s)\<lparr>as_topic_tree := t\<rparr>\<rparr>)"
proof -
  have "level_ok t o' = level_ok (as_topic_tree (mn_app s)) o'" for o'
    using assms(2) by (cases o') (simp_all add: nodes_kept_def)
  then show ?thesis using assms by (simp add: main_ok_def pointers_ok_def nodes_kept_def)
qed

lemma path_write_length: "length buf < n \<Longrightarrow> length (path_write n first buf ns) < n"
  by (induction n first buf ns rule: path_write.induct) (auto simp: Let_def)

lemma full_path_length: "topic_node_full_path a buf n t = Some path \<Longrightarrow> 0 < n \<Longrightarrow> length path < n"
  by (auto simp: topic_node_full_path_def intro!: path_write_length)

lemma node_at_kept:
  assumes "tree_ok P t" "a \<in> nodes t" "\<And>n. links_same (f n) n" "\<And>n. tn_last_payload (f n) = tn_last_payload n"
  shows "succeeds (update_node a f t) (nodes_kept P t)"
  using set_node_kept [OF assms] node_at_nd [OF assms(1,2)] by (simp add: update_node_def)

subsection \<open>The history\<close>

lemma mb_items_length: "length (mb_items (h, buf)) = unat (mb_count buf)"
  by (rule length_mb_items)

lemma history_live: "history_ok h buf saved \<Longrightarrow> \<forall>r\<in>set (live buf). unat (mr_payload_len r) < 2 ^ 31"
  by (auto simp: history_ok_def mb_items_def deref_def)

lemma push_history:
  assumes "history_ok h buf saved" "record_ok x" "unat (mr_payload_len x) < 2 ^ 31" "unat (mb_generation buf) + 1 < 2 ^ 64"
  shows "succeeds (message_buf_push x (h, buf)) (\<lambda>(h', buf'). history_ok h' buf' saved
     \<and> mb_generation buf' = mb_generation buf + 1 \<and> mb_frame (h', buf') = mb_frame (h, buf))"
proof -
  have wf: "mb_wf (h, buf)" using assms(1) by (simp add: history_ok_def)
  obtain h' buf' where p: "message_buf_push x (h, buf) = Some (h', buf')" "mb_wf (h', buf')"
      "mb_items (h', buf') = lastn (mb_cap (h, buf)) (mb_items (h, buf) @ [stored x])"
      "mb_generation buf' = mb_generation buf + 1" "mb_frame (h', buf') = mb_frame (h, buf)"
    using push_contract [OF wf assms(2)] by force
  have g: "unat (mb_generation buf') = unat (mb_generation buf) + 1"
    unfolding p(4) using assms(4) by (intro unat_inc_small) simp
  have "unat (mb_count buf') \<le> unat (mb_count buf) + 1"
    using arg_cong [OF p(3), of length] by (simp add: length_mb_items)
  moreover have "\<forall>r\<in>set (mb_items (h', buf')). unat (mr_payload_len r) < 2 ^ 31"
  proof
    fix r assume "r \<in> set (mb_items (h', buf'))"
    then have "r \<in> set (mb_items (h, buf) @ [stored x])" unfolding p(3) lastn_def by (rule in_set_dropD)
    moreover have "unat (mr_payload_len (stored x)) < 2 ^ 31" using assms(3) by (simp add: stored_def split: option.split)
    ultimately show "unat (mr_payload_len r) < 2 ^ 31" using assms(1) by (auto simp: history_ok_def)
  qed
  ultimately show ?thesis using assms(1) p g by (simp add: history_ok_def)
qed

lemma clear_history:
  assumes "history_ok h buf saved" "unat (mb_generation buf) + 1 < 2 ^ 64"
  shows "succeeds (message_buf_clear (h, buf)) (\<lambda>(h', buf'). history_ok h' buf' (message_buf_generation buf')
     \<and> mb_items (h', buf') = [] \<and> mb_generation buf' = mb_generation buf + 1)"
proof -
  have wf: "mb_wf (h, buf)" using assms(1) by (simp add: history_ok_def)
  obtain h' buf' where p: "message_buf_clear (h, buf) = Some (h', buf')" "mb_wf (h', buf')" "mb_items (h', buf') = []"
      "mb_generation buf' = mb_generation buf + 1"
    using clear_contract [OF wf] by force
  have "mb_count buf' = 0" using arg_cong [OF p(3), of length] by (simp add: length_mb_items unat_eq_zero)
  then show ?thesis using p by (simp add: history_ok_def message_buf_generation_def)
qed

lemma remove_history:
  assumes "history_ok h buf saved" "unat (mb_generation buf) + 1 < 2 ^ 64"
  shows "succeeds (message_buf_remove_topic path (h, buf)) (\<lambda>(n, h', buf'). history_ok h' buf' (message_buf_generation buf')
     \<and> mb_items (h', buf') = filter (\<lambda>r. mr_topic r \<noteq> path) (mb_items (h, buf))
     \<and> unat n = length (filter (\<lambda>r. mr_topic r = path) (mb_items (h, buf)))
     \<and> unat (mb_generation buf') \<le> unat (mb_generation buf) + 1)"
proof -
  have wf: "mb_wf (h, buf)" using assms(1) by (simp add: history_ok_def)
  obtain n h' buf' where p: "message_buf_remove_topic path (h, buf) = Some (n, h', buf')" "mb_wf (h', buf')"
      "mb_items (h', buf') = filter (\<lambda>r. mr_topic r \<noteq> path) (mb_items (h, buf))"
      "unat n = length (filter (\<lambda>r. mr_topic r = path) (mb_items (h, buf)))"
      "mb_generation buf' = mb_generation buf + (if n = 0 then 0 else 1)"
    using remove_contract [OF wf, of path] by force
  have g: "unat (mb_generation buf') = unat (mb_generation buf) + (if n = 0 then 0 else 1)"
    unfolding p(5) using assms(2) by (cases "n = 0") (simp_all add: unat_inc_small)
  have "unat (mb_count buf') \<le> unat (mb_count buf)"
    using arg_cong [OF p(3), of length] length_filter_le [of "\<lambda>r. mr_topic r \<noteq> path" "mb_items (h, buf)"]
    by (simp add: length_mb_items)
  then show ?thesis
    using assms(1) p(1-4) g by (auto simp: history_ok_def message_buf_generation_def)
qed

lemma flush_history_ok:
  assumes "history_ok h buf saved" "length batch = 256"
  shows "succeeds (db_flush_history by_time handle h buf (saved, batch))
     (\<lambda>(handle', saved', batch'). history_ok h buf saved' \<and> length batch' = 256 \<and> saved' = message_buf_generation buf)"
proof -
  have h: "mb_wf (h, buf)" "unat (message_buf_count buf) \<le> unat (message_buf_generation buf)"
      "unat saved \<le> unat (message_buf_generation buf)"
    using assms(1) by (simp_all add: history_ok_def message_buf_count_def message_buf_generation_def)
  obtain handle' batch' where f: "db_flush_history by_time handle h buf (saved, batch) = Some (handle', message_buf_generation buf, batch')"
      "length batch' = 256"
    using flush_history_run [OF h(1) history_live [OF assms(1)] h(2,3) assms(2)] by blast
  then show ?thesis using assms(1) by (simp add: history_ok_def message_buf_generation_def)
qed

subsection \<open>Capturing samples\<close>

lemma length_if_le: "length x \<le> n \<Longrightarrow> length y \<le> n \<Longrightarrow> length (if b then x else y) \<le> n"
  by simp

lemma unescape_le: "length (unescape_loop cap p out) \<le> length out + length p"
proof (induction "length p" arbitrary: p out rule: less_induct)
  case less
  show ?case
  proof (cases p)
    case (Cons c q)
    show ?thesis
    proof (cases q)
      case q: (Cons e p')
      have a: "length (unescape_loop cap p' o') \<le> n" if "length o' + length p' \<le> n" for o' n
        using less [of p' o'] that by (simp add: Cons q)
      have b: "length (unescape_loop cap q o') \<le> n" if "length o' + length q \<le> n" for o' n
        using less [of q o'] that by (simp add: Cons)
      show ?thesis
        unfolding Cons q
        by (subst unescape_loop.simps(2), unfold list.case Let_def, intro length_if_le a b [unfolded q]) simp_all
    qed (simp add: Cons unescape_loop.simps(2))
  qed (simp add: unescape_loop.simps(1))
qed

lemma number_at_total:
  assumes "lines_ok (jp_lines pp)"
  shows "\<exists>v. json_pp_number_at pp path = Some v"
proof -
  have "\<exists>v. json_pp_line_number (Some l) = Some v" if "l \<in> set (jp_lines pp)" for l
  proof -
    have l: "length (jl_val l) < JSON_PP_VAL_LEN" using assms that by (auto simp: lines_ok_def line_ok_def)
    have "length (string_body (jl_val l)) \<le> length (jl_val l)" by (simp add: string_body_def)
    then have "length (unescape_loop JSON_PP_VAL_LEN (string_body (jl_val l)) []) < JSON_PP_VAL_LEN"
      using unescape_le [of JSON_PP_VAL_LEN "string_body (jl_val l)" "[]"] l by simp
    then show ?thesis by (auto simp: json_pp_line_number_def json_pp_line_string_def Let_def split: option.split prod.split)
  qed
  then show ?thesis
    by (auto simp: json_pp_number_at_def json_pp_find_def find_Some_iff split: option.split)
qed

lemma capture_loop_total:
  assumes "formatted \<Longrightarrow> lines_ok (jp_lines pp)"
  shows "\<exists>pp' ss'. capture_loop topic p ts formatted pp ss = Some (pp', ss')"
  using assms
proof (induction ss arbitrary: formatted pp)
  case (Cons s ss)
  show ?case
  proof (cases "\<not> cs_active s \<or> cs_topic s \<noteq> topic")
    case True
    then show ?thesis using Cons.IH [of formatted pp] Cons.prems by auto
  next
    case False
    obtain pp1 where pp1: "(if formatted then Some pp else json_pp_run_len pp (map char_of_byte p) (length p)) = Some pp1" "lines_ok (jp_lines pp1)"
      using Cons.prems run_len_total [of pp "map char_of_byte p" "length p"] by (cases formatted) auto
    obtain v where v: "json_pp_number_at pp1 (cs_dot_path s) = Some v" using number_at_total [OF pp1(2)] by blast
    show ?thesis using Cons.IH [of True pp1] pp1 v False by (auto simp: Let_def)
  qed
qed simp

lemma capture_ok:
  assumes "\<forall>c\<in>set (as_chart_series st). series_inv c"
  shows "succeeds (chart_panel_capture_sample topic payload ts (pp, st))
    (\<lambda>(pp', st'). \<exists>ss. st' = st\<lparr>as_chart_series := ss\<rparr> \<and> (\<forall>c\<in>set ss. series_inv c))"
proof (cases "payload = None \<or> payload = Some []")
  case True
  then show ?thesis using assms by (auto simp: chart_panel_capture_sample_def intro!: exI [of _ "as_chart_series st"])
next
  case False
  then obtain p where p: "payload = Some p" "p \<noteq> []" by auto
  obtain pp' ss where c: "capture_loop topic p ts False pp (as_chart_series st) = Some (pp', ss)"
    using capture_loop_total [of False] by blast
  then have "\<forall>c\<in>set ss. series_inv c" using capture_loop_inv [OF assms c] by simp
  then show ?thesis using p c by (auto simp: chart_panel_capture_sample_def)
qed

subsection \<open>Incoming messages\<close>

text \<open>A message as the client queues it, every level of its topic short enough for a node.\<close>

definition message_ok :: "mqtt_message \<Rightarrow> bool" where
  "message_ok m \<longleftrightarrow> topic_ok (mm_topic m) \<and> unat (mm_payload_len m) < 2 ^ 31
     \<and> (case mm_payload m of None \<Rightarrow> True | Some p \<Rightarrow> unat (mm_payload_len m) \<le> length p)"

text \<open>Room for \<open>n\<close> more messages in the 32-bit node count and the 64-bit generation.\<close>

definition room :: "nat \<Rightarrow> main_state \<Rightarrow> bool" where
  "room n s \<longleftrightarrow> card (nodes (as_topic_tree (mn_app s))) + n * 512 + 1 < 2 ^ 32
     \<and> unat (mb_generation (as_global_history (mn_app s))) + n + 2 < 2 ^ 64"

lemma room_le: "j \<le> k \<Longrightarrow> room k s \<Longrightarrow> room j s"
proof -
  assume "j \<le> k" "room k s"
  moreover have "j * 512 \<le> k * 512" using \<open>j \<le> k\<close> by simp
  ultimately show ?thesis unfolding room_def by linarith
qed

lemma bind_kept:
  assumes "nodes_kept P t1 t" "a \<in> nodes t1"
    and "tree_ok P t \<Longrightarrow> a \<in> nodes t \<Longrightarrow> succeeds (m t) (nodes_kept P t)"
  shows "succeeds (m t) (nodes_kept P t1)"
proof -
  have "tree_ok P t" "a \<in> nodes t" using assms(1,2) by (simp_all add: nodes_kept_def)
  from assms(3) [OF this] show ?thesis by (rule succeeds_mono) (rule kept_trans [OF assms(1)])
qed

lemma refresh_display_kept:
  assumes "tree_ok P t" "payloads_ok t" "a \<in> nodes t" "card (nodes t) + 1 < 2 ^ 32"
  shows "succeeds (refresh_display tick m a t) (nodes_kept P t)"
proof (cases "tn_message_count (nd t a) = 1 \<or> mm_timestamp_us m - tn_last_display_update_us (nd t a) \<ge> tick")
  case True
  let ?f = "\<lambda>n. n\<lparr>tn_last_display_update_us := mm_timestamp_us m, tn_msg_count_str := snprintf 16 (dec (unat (tn_message_count n)))\<rparr>"
  have "succeeds (update_node a ?f t \<bind> topic_node_payload_set a (payload_of m)) (nodes_kept P t)"
  proof (rule succeeds_bind [OF node_at_kept [OF assms(1,3)]])
    fix t' assume k: "nodes_kept P t t'"
    then obtain t2 where "topic_node_payload_set a (payload_of m) t' = Some t2" "stores P a (payload_of m) t' t2"
      using payload_set_contract [of P t' a "payload_of m"] assms(2-4) by (auto simp: nodes_kept_def)
    then show "succeeds (topic_node_payload_set a (payload_of m) t') (nodes_kept P t)"
      using kept_trans [OF k] by (simp add: stores_def)
  qed (simp_all add: links_same_def)
  then show ?thesis using True node_at_nd [OF assms(1,3)] by (simp add: refresh_display_def)
next
  case False
  then show ?thesis using node_at_nd [OF assms(1,3)] kept_refl [OF assms(1)] by (simp add: refresh_display_def)
qed

text \<open>The tree after an insertion, with the rest of the state.\<close>

lemma grown_ok:
  assumes "main_ok P s" "grown P (as_topic_tree (mn_app s)) P' t"
  shows "main_ok P' (s\<lparr>mn_app := (mn_app s)\<lparr>as_topic_tree := t\<rparr>\<rparr>)"
proof -
  have "level_ok (as_topic_tree (mn_app s)) o' \<Longrightarrow> level_ok t o'" for o'
    using assms(2) by (cases o') (auto simp: grown_def)
  then show ?thesis using assms by (auto simp: main_ok_def pointers_ok_def grown_def)
qed

lemma record_of_message: "message_ok m \<Longrightarrow> record_ok (history_record st m path) \<and> unat (mr_payload_len (history_record st m path)) < 2 ^ 31"
  by (auto simp: message_ok_def record_ok_def history_record_def split: option.split)

text \<open>From the record on: the push, the chart samples, the counters.\<close>

lemma record_message_ok:
  assumes "main_ok P (s\<lparr>mn_app := (mn_app s)\<lparr>as_topic_tree := t\<rparr>\<rparr>)" "message_ok m"
    and "unat (mb_generation (as_global_history (mn_app s))) + 1 < 2 ^ 64"
  shows "succeeds (do {
         (h, buf) \<leftarrow> message_buf_push (history_record (mn_app s) m path) (mn_heap s, as_global_history (mn_app s));
         (pp, st) \<leftarrow> chart_panel_capture_sample path (payload_of m) (mm_timestamp_us m)
            (mn_pp s, (mn_app s)\<lparr>as_topic_tree := t, as_global_history := buf\<rparr>);
         Some (s\<lparr>mn_app := st\<lparr>as_total_messages := as_total_messages st + 1\<rparr>, mn_heap := h, mn_pp := pp,
                mn_tpt_acc := (if as_selected_topic st = Some node then flt_add (mn_tpt_acc s) (Fin 1) else mn_tpt_acc s)\<rparr>)
       })
    (\<lambda>s'. main_ok P s' \<and> as_topic_tree (mn_app s') = t \<and> mn_mqtt s' = mn_mqtt s
       \<and> mb_generation (as_global_history (mn_app s')) = mb_generation (as_global_history (mn_app s)) + 1)"
proof (rule succeeds_bind, rule push_history)
  show "history_ok (mn_heap s) (as_global_history (mn_app s)) (mn_saved s)" using main_okD(3) [OF assms(1)] by simp
  show "unat (mb_generation (as_global_history (mn_app s))) + 1 < 2 ^ 64" by (rule assms(3))
  fix x :: "heap \<times> message_buf"
  obtain h buf where x: "x = (h, buf)" by force
  assume p: "case x of (h', buf') \<Rightarrow> history_ok h' buf' (mn_saved s)
     \<and> mb_generation buf' = mb_generation (as_global_history (mn_app s)) + 1
     \<and> mb_frame (h', buf') = mb_frame (mn_heap s, as_global_history (mn_app s))"
  let ?st = "(mn_app s)\<lparr>as_topic_tree := t, as_global_history := buf\<rparr>"
  have "\<forall>c\<in>set (as_chart_series ?st). series_inv c" using main_okD(5) [OF assms(1)] by simp
  from capture_ok [OF this, of path "payload_of m" "mm_timestamp_us m" "mn_pp s"]
  obtain pp ss where c: "chart_panel_capture_sample path (payload_of m) (mm_timestamp_us m) (mn_pp s, ?st) = Some (pp, ?st\<lparr>as_chart_series := ss\<rparr>)"
      "\<forall>c\<in>set ss. series_inv c"
    by (auto simp: succeeds_ex)
  show "succeeds (case x of (h, buf) \<Rightarrow> chart_panel_capture_sample path (payload_of m) (mm_timestamp_us m)
            (mn_pp s, (mn_app s)\<lparr>as_topic_tree := t, as_global_history := buf\<rparr>) \<bind>
         (\<lambda>(pp, st). Some (s\<lparr>mn_app := st\<lparr>as_total_messages := as_total_messages st + 1\<rparr>, mn_heap := h, mn_pp := pp,
                mn_tpt_acc := (if as_selected_topic st = Some node then flt_add (mn_tpt_acc s) (Fin 1) else mn_tpt_acc s)\<rparr>)))
    (\<lambda>s'. main_ok P s' \<and> as_topic_tree (mn_app s') = t \<and> mn_mqtt s' = mn_mqtt s
       \<and> mb_generation (as_global_history (mn_app s')) = mb_generation (as_global_history (mn_app s)) + 1)"
    using assms(1) c p by (simp add: x main_ok_def pointers_ok_def)
qed (use record_of_message [OF assms(2)] in simp_all)

lemma process_message_ok:
  assumes "main_ok P s" "message_ok m" "room (Suc n) s"
  shows "succeeds (process_message tick m s) (\<lambda>s'. main_inv s' \<and> room n s' \<and> mn_mqtt s' = mn_mqtt s)"
proof -
  let ?t = "as_topic_tree (mn_app s)" and ?buf = "as_global_history (mn_app s)"
  have rm: "card (nodes ?t) + 512 + 1 + n * 512 < 2 ^ 32" "unat (mb_generation ?buf) + Suc n + 2 < 2 ^ 64"
    using assms(3) by (simp_all add: room_def)
  obtain r t1 P1 where ins: "topic_tree_insert ?t (mm_topic m) = Some (r, t1)" "grown P ?t P1 t1"
      "card (nodes t1) \<le> card (nodes ?t) + 512" "insert_done P1 t1 (topic_path (mm_topic m)) r"
    using insert_contract [OF main_okD(1) [OF assms(1)], of "mm_topic m"] assms(2) rm(1) by (auto simp: message_ok_def)
  have ok1: "main_ok P1 (s\<lparr>mn_app := (mn_app s)\<lparr>as_topic_tree := t1\<rparr>\<rparr>)" by (rule grown_ok [OF assms(1) ins(2)])
  note t1 = main_okD(1,2) [OF ok1, simplified]
  have c1: "card (nodes t1) + n * 512 + 1 < 2 ^ 32" using ins(3) rm(1) by simp
  show ?thesis
  proof (cases r)
    case None
    have "room n (s\<lparr>mn_app := (mn_app s)\<lparr>as_topic_tree := t1\<rparr>\<rparr>)" using c1 rm(2) by (simp add: room_def)
    then show ?thesis using ins(1) ok1 None by (auto simp: process_message_def main_inv_def Let_def)
  next
    case (Some a)
    have a: "a \<in> nodes t1" using ins(4) Some by (simp add: insert_done_def)
    let ?rest = "\<lambda>t. topic_node_full_path a '''' 256 t \<bind> (\<lambda>path.
         message_buf_push (history_record (mn_app s) m path) (mn_heap s, ?buf) \<bind> (\<lambda>(h, buf).
         chart_panel_capture_sample path (payload_of m) (mm_timestamp_us m)
            (mn_pp s, (mn_app s)\<lparr>as_topic_tree := t, as_global_history := buf\<rparr>) \<bind> (\<lambda>(pp, st).
         Some (s\<lparr>mn_app := st\<lparr>as_total_messages := as_total_messages st + 1\<rparr>, mn_heap := h, mn_pp := pp,
                mn_tpt_acc := (if as_selected_topic st = Some a then flt_add (mn_tpt_acc s) (Fin 1) else mn_tpt_acc s)\<rparr>))))"
    have run: "process_message tick m s = (((((topic_node_count_message a t1
         \<bind> update_node a (\<lambda>n. n\<lparr>tn_last_message_ts := mm_timestamp_us m\<rparr>))
         \<bind> walk_up (refresh_ancestor tick (mm_timestamp_us m)) (Some a))
         \<bind> update_node a (arrival m)) \<bind> refresh_display tick m a) \<bind> ?rest)"
      using ins(1) Some by (simp add: process_message_def Option.bind_assoc Let_def)
    have k1: "succeeds (topic_node_count_message a t1) (nodes_kept P1 t1)"
      using count_message_kept [OF t1(1) a] by (auto simp: succeeds_ex)
    have k2: "succeeds (update_node a f t) (nodes_kept P1 t1)" if "nodes_kept P1 t1 t" "\<And>n. links_same (f n) n" "\<And>n. tn_last_payload (f n) = tn_last_payload n" for f t
      by (rule bind_kept [OF that(1) a]) (rule node_at_kept, assumption+, (rule that)+)
    have k3: "succeeds (walk_up (refresh_ancestor tick (mm_timestamp_us m)) (Some a) t) (nodes_kept P1 t1)" if "nodes_kept P1 t1 t" for t
    proof (rule bind_kept [OF that a])
      assume "tree_ok P1 t" "a \<in> nodes t"
      from walk_up_kept [OF this, of "refresh_ancestor tick (mm_timestamp_us m)"]
      show "succeeds (walk_up (refresh_ancestor tick (mm_timestamp_us m)) (Some a) t) (nodes_kept P1 t)"
        by (auto simp: succeeds_ex refresh_ancestor_def links_same_def Let_def)
    qed
    have k4: "succeeds (refresh_display tick m a t) (nodes_kept P1 t1)" if "nodes_kept P1 t1 t" for t
      by (rule bind_kept [OF that a], rule refresh_display_kept) (use that t1(2) c1 in \<open>simp_all add: nodes_kept_def\<close>)
    have k5: "succeeds (?rest t) (\<lambda>s'. main_inv s' \<and> room n s' \<and> mn_mqtt s' = mn_mqtt s)" if k: "nodes_kept P1 t1 t" for t
    proof -
      have "main_ok P1 (s\<lparr>mn_app := (mn_app s)\<lparr>as_topic_tree := t\<rparr>\<rparr>)"
        using kept_ok [OF ok1, of t] k by simp
      moreover have "tree_ok P1 t" "a \<in> nodes t" using k a by (simp_all add: nodes_kept_def)
      then obtain path where path: "topic_node_full_path a '''' 256 t = Some path" using full_path_total by blast
      ultimately have rest: "succeeds (?rest t) (\<lambda>s'. main_ok P1 s' \<and> as_topic_tree (mn_app s') = t \<and> mn_mqtt s' = mn_mqtt s
         \<and> mb_generation (as_global_history (mn_app s')) = mb_generation ?buf + 1)"
        unfolding path bind.bind_lunit using rm(2) by (intro record_message_ok [OF _ assms(2)]) simp_all
      have g: "unat (mb_generation ?buf + 1) = unat (mb_generation ?buf) + 1"
        using rm(2) by (intro unat_inc_small) simp
      show ?thesis
      proof (rule succeeds_mono [OF rest])
        fix s' assume "main_ok P1 s' \<and> as_topic_tree (mn_app s') = t \<and> mn_mqtt s' = mn_mqtt s
          \<and> mb_generation (as_global_history (mn_app s')) = mb_generation ?buf + 1"
        then show "main_inv s' \<and> room n s' \<and> mn_mqtt s' = mn_mqtt s"
          using c1 rm(2) k g by (auto simp: main_inv_def room_def nodes_kept_def)
      qed
    qed
    show ?thesis
      unfolding run
      by (rule succeeds_bind [OF succeeds_bind [OF succeeds_bind [OF succeeds_bind [OF succeeds_bind [OF k1]]]]])
        (rule k2 k3 k4 k5; simp add: links_same_def arrival_def)+
  qed
qed

lemma process_messages_ok:
  assumes "main_inv s" "\<forall>m\<in>set ms. message_ok m" "room (length ms + n) s"
  shows "succeeds (process_messages tick ms s) (\<lambda>s'. main_inv s' \<and> room n s' \<and> mn_mqtt s' = mn_mqtt s)"
  using assms
proof (induction ms arbitrary: s)
  case (Cons m ms)
  obtain P where P: "main_ok P s" using Cons.prems(1) by (auto simp: main_inv_def)
  have "room (Suc (length ms + n)) s" using Cons.prems(3) by simp
  from process_message_ok [OF P _ this, of m tick]
  have "succeeds (process_message tick m s) (\<lambda>s'. main_inv s' \<and> room (length ms + n) s' \<and> mn_mqtt s' = mn_mqtt s)"
    using Cons.prems(2) by simp
  then show ?case
    unfolding process_messages.simps
  proof (rule succeeds_bind)
    fix s1 assume s1: "main_inv s1 \<and> room (length ms + n) s1 \<and> mn_mqtt s1 = mn_mqtt s"
    then show "succeeds (process_messages tick ms s1) (\<lambda>s'. main_inv s' \<and> room n s' \<and> mn_mqtt s' = mn_mqtt s)"
      using Cons.IH [of s1] Cons.prems(2) by (auto intro: succeeds_mono)
  qed
qed (simp add: room_def)

text \<open>The messages that a frame will take from the queue.\<close>

definition incoming :: "main_state \<Rightarrow> mqtt_message list" where
  "incoming s = take 256 (sq_items (mc_msg_queue (fst (mn_mqtt s))))"

lemma drain_run:
  assumes "sq_wf q"
  shows "\<exists>q'. spsc_queue_drain 256 q = Some (take 256 (sq_items q), q') \<and> sq_wf q' \<and> sq_items q' = drop 256 (sq_items q)"
  using drain_loop_run [OF assms, of 256 "[]"] by (auto simp: spsc_queue_drain_def)

lemma drain_queue_ok:
  assumes "main_inv s" "\<forall>m\<in>set (incoming s). message_ok m" "room (256 + n) s"
  shows "succeeds (drain_queue tick s) (\<lambda>(k, s'). main_inv s' \<and> room n s')"
proof -
  obtain c w where cw: "mn_mqtt s = (c, w)" by force
  obtain P where P: "main_ok P s" using assms(1) by (auto simp: main_inv_def)
  have "sq_wf (mc_msg_queue c)" using main_okD(6) [OF P] by (simp add: cw client_inv_def tables_ok_def)
  then obtain q where q: "spsc_queue_drain 256 (mc_msg_queue c) = Some (incoming s, q)" "sq_wf q"
    using drain_run by (auto simp: incoming_def cw)
  let ?s = "s\<lparr>mn_mqtt := (c\<lparr>mc_msg_queue := q\<rparr>, w)\<rparr>"
  have "client_inv (c\<lparr>mc_msg_queue := q\<rparr>, w)" using main_okD(6) [OF P] q(2) by (simp add: cw client_inv_def tables_ok_def)
  then have inv: "main_inv ?s" using P by (auto simp: main_inv_def main_ok_def pointers_ok_def)
  have "length (incoming s) + n \<le> 256 + n" by (simp add: incoming_def)
  then have "room (length (incoming s) + n) s" using assms(3) by (rule room_le)
  then have "room (length (incoming s) + n) ?s" by (simp add: room_def)
  from process_messages_ok [OF inv assms(2) this, of tick]
  have "succeeds (process_messages tick (incoming s) ?s \<bind> (\<lambda>s. Some (length (incoming s0),
        s\<lparr>mn_app := (mn_app s)\<lparr>as_total_topics := topic_tree_count (as_topic_tree (mn_app s))\<rparr>\<rparr>)))
      (\<lambda>(k, s'). main_inv s' \<and> room n s')" for s0
    by (rule succeeds_bind) (auto simp: main_inv_def main_ok_def pointers_ok_def room_def)
  then show ?thesis by (simp add: drain_queue_def cw q(1) Let_def)
qed

subsection \<open>Rates\<close>

lemma update_rates_ok: "main_ok P (update_rates dt n s) = main_ok P s" "room k (update_rates dt n s) = room k s"
  by (simp_all add: update_rates_def main_ok_def pointers_ok_def room_def Let_def)

lemma set_throughput_ok:
  assumes "main_ok P s"
  shows "succeeds (set_throughput v s) (\<lambda>s'. main_ok P s' \<and> (\<forall>k. room k s' = room k s))"
proof (cases "mn_tpt_node s")
  case (Some a)
  have a: "a \<in> nodes (as_topic_tree (mn_app s))" using main_okD(9) [OF assms] by (simp add: Some)
  have "succeeds (update_node a (\<lambda>n. n\<lparr>tn_throughput := v\<rparr>) (as_topic_tree (mn_app s))) (nodes_kept P (as_topic_tree (mn_app s)))"
    by (rule node_at_kept [OF main_okD(1) [OF assms] a]) (simp_all add: links_same_def)
  then show ?thesis
    using kept_ok [OF assms] by (auto simp: set_throughput_def Some succeeds_ex room_def nodes_kept_def)
qed (use assms in \<open>simp add: set_throughput_def\<close>)

lemma timers_ok [simp]:
  "main_ok P (s\<lparr>mn_tpt_acc := x\<rparr>) = main_ok P s" "main_ok P (s\<lparr>mn_tpt_timer := x\<rparr>) = main_ok P s"
  "main_ok P (s\<lparr>mn_save_timer := x\<rparr>) = main_ok P s" "main_ok P (s\<lparr>mn_frame_avg := x\<rparr>) = main_ok P s"
  "room k (s\<lparr>mn_tpt_acc := x\<rparr>) = room k s" "room k (s\<lparr>mn_tpt_timer := x\<rparr>) = room k s"
  "room k (s\<lparr>mn_tpt_node := a\<rparr>) = room k s" "room k (s\<lparr>mn_save_timer := x\<rparr>) = room k s" "room k (s\<lparr>mn_frame_avg := x\<rparr>) = room k s"
  by (simp_all add: main_ok_def pointers_ok_def room_def)

lemma update_throughput_ok:
  assumes "main_ok P s"
  shows "succeeds (update_throughput dt s) (\<lambda>s'. main_ok P s' \<and> (\<forall>k. room k s' = room k s))"
  unfolding update_throughput_def
proof (rule succeeds_bind)
  let ?s = "s\<lparr>mn_tpt_node := as_selected_topic (mn_app s), mn_tpt_acc := Fin 0, mn_tpt_timer := Fin 0\<rparr>"
  have "main_ok P (s\<lparr>mn_tpt_node := as_selected_topic (mn_app s)\<rparr>)"
    using assms by (simp add: main_ok_def pointers_ok_def)
  then have "main_ok P ?s" by simp
  from set_throughput_ok [OF this, of "Fin 0"]
  show "succeeds (if as_selected_topic (mn_app s) \<noteq> mn_tpt_node s then set_throughput (Fin 0) ?s else Some s)
      (\<lambda>s'. main_ok P s' \<and> (\<forall>k. room k s' = room k s))"
    using assms by auto
  fix s1 assume s1: "main_ok P s1 \<and> (\<forall>k. room k s1 = room k s)"
  let ?s1 = "s1\<lparr>mn_tpt_timer := flt_add (mn_tpt_timer s1) dt\<rparr>"
  have "main_ok P ?s1" using s1 by simp
  from set_throughput_ok [OF this, of "flt_div (mn_tpt_acc ?s1) (mn_tpt_timer ?s1)"]
  show "succeeds (let s = ?s1 in if dbl_le (Fin 1) (mn_tpt_timer s)
       then map_option (\<lambda>s. s\<lparr>mn_tpt_acc := Fin 0, mn_tpt_timer := Fin 0\<rparr>) (set_throughput (flt_div (mn_tpt_acc s) (mn_tpt_timer s)) s)
       else Some s) (\<lambda>s'. main_ok P s' \<and> (\<forall>k. room k s' = room k s))"
    using s1 by (auto simp: Let_def succeeds_ex)
qed

subsection \<open>Requests\<close>

lemma handle_clear_topic_ok:
  assumes "main_ok P s" "room (Suc n) s"
  shows "succeeds (handle_clear_topic by_time s) (\<lambda>s'. main_ok P s' \<and> room n s' \<and> as_clear_topic_requested (mn_app s') = None)"
proof (cases "as_clear_topic_requested (mn_app s)")
  case None
  then show ?thesis using assms room_le [of n "Suc n" s] by (simp add: handle_clear_topic_def)
next
  case (Some a)
  let ?t = "as_topic_tree (mn_app s)" and ?buf = "as_global_history (mn_app s)"
  have a: "a \<in> nodes ?t" using main_okD(8) [OF assms(1)] by (simp add: Some)
  obtain path where path: "topic_node_full_path a '''' 512 ?t = Some path" using full_path_total [OF main_okD(1) [OF assms(1)] a] by blast
  obtain handle saved batch where fl: "clear_rows by_time path ?buf s = Some (handle, saved, batch)" "length batch = 256"
    using flush_history_ok [OF main_okD(3,4) [OF assms(1)], of by_time "mn_db s"] main_okD(4) [OF assms(1)]
    by (cases "mn_db s") (auto simp: succeeds_ex clear_rows_def)
  have "unat (mb_generation ?buf) + 1 < 2 ^ 64" using assms(2) by (simp add: room_def)
  from remove_history [OF main_okD(3) [OF assms(1)] this, of path]
  obtain k h buf where rm: "message_buf_remove_topic path (mn_heap s, ?buf) = Some (k, h, buf)"
      "history_ok h buf (message_buf_generation buf)" "unat (mb_generation buf) \<le> unat (mb_generation ?buf) + 1"
    by (auto simp: succeeds_ex)
  obtain c t where cl: "topic_node_clear_messages a ?t = Some (c, t)" "nodes_kept P ?t t"
    using clear_messages_kept [OF main_okD(1) [OF assms(1)] a] by blast
  have "level_ok t o' = level_ok ?t o'" for o' using cl(2) by (cases o') (simp_all add: nodes_kept_def)
  then show ?thesis
    using assms fl rm cl path
    by (simp add: handle_clear_topic_def Some Let_def main_ok_def pointers_ok_def nodes_kept_def room_def)
qed

lemma handle_disconnect_ok:
  assumes "main_ok P s" "room (Suc n) s" "as_clear_topic_requested (mn_app s) = None"
  shows "succeeds (handle_disconnect s) (\<lambda>s'. main_ok P s' \<and> room n s')"
proof (cases "as_disconnect_requested (mn_app s)")
  case True
  let ?buf = "as_global_history (mn_app s)"
  obtain c w where cw: "mn_mqtt s = (c, w)" by force
  obtain mqtt where d: "mqtt_client_disconnect (mn_mqtt s) = Some mqtt" "client_inv mqtt"
    using disconnect_inv [of c w] main_okD(6) [OF assms(1)] by (auto simp: cw succeeds_ex)
  have "unat (mb_generation ?buf) + 1 < 2 ^ 64" using assms(2) by (simp add: room_def)
  from clear_history [OF main_okD(3) [OF assms(1)] this]
  obtain h buf where cl: "message_buf_clear (mn_heap s, ?buf) = Some (h, buf)" "history_ok h buf (message_buf_generation buf)"
      "mb_generation buf = mb_generation ?buf + 1"
    by (auto simp: succeeds_ex)
  have "unat (mb_generation ?buf + 1) = unat (mb_generation ?buf) + 1"
    using assms(2) by (intro unat_inc_small) (simp add: room_def)
  moreover have "tree_ok P (topic_tree_init TOPIC_TREE_CAPACITY)" "payloads_ok (topic_tree_init TOPIC_TREE_CAPACITY)"
      "nodes (topic_tree_init TOPIC_TREE_CAPACITY) = {}"
    by (rule init_tree; simp)+
  ultimately show ?thesis
    using assms d cl by (simp add: handle_disconnect_def True Let_def main_ok_def pointers_ok_def room_def)
next
  case False
  then show ?thesis using assms room_le [of n "Suc n" s] by (simp add: handle_disconnect_def)
qed

lemma client_log_inv: "client_inv (c, w) \<Longrightarrow> succeeds (client_log lv message (c, w)) client_inv"
proof -
  assume inv: "client_inv (c, w)"
  show ?thesis
    by (rule succeeds_mono [OF client_log_ok [OF client_inv_mid [OF inv]]])
      (rule mid_client, assumption, use inv in \<open>simp add: client_inv_def\<close>)
qed

lemma mqtt_ok:
  assumes "main_ok P s" "succeeds (f (mn_mqtt s)) client_inv"
  shows "succeeds (map_option (\<lambda>m. s\<lparr>mn_mqtt := m\<rparr>) (f (mn_mqtt s))) (\<lambda>s'. main_ok P s' \<and> (\<forall>k. room k s' = room k s))"
  using assms by (auto simp: succeeds_ex main_ok_def pointers_ok_def room_def)

lemma handle_export_ok:
  assumes "main_ok P s"
  shows "succeeds (handle_export gm file err s) (\<lambda>(s', _). main_ok P s' \<and> (\<forall>k. room k s' = room k s))"
proof (cases "as_export_requested (mn_app s)")
  case True
  obtain c w where cw: "mn_mqtt s = (c, w)" by force
  have log: "succeeds (client_log lv message (mn_mqtt s)) client_inv" for lv message
    using client_log_inv main_okD(6) [OF assms] by (simp add: cw)
  let ?st = "(mn_app s)\<lparr>as_export_requested := False\<rparr>"
  have logged: "succeeds (client_log lv message (mn_mqtt s) \<bind> (\<lambda>mqtt. Some (s\<lparr>mn_app := ?st, mn_mqtt := mqtt\<rparr>, out)))
      (\<lambda>(s', _). main_ok P s' \<and> (\<forall>k. room k s' = room k s))" for lv message out
    by (rule succeeds_bind [OF log]) (use assms in \<open>simp add: main_ok_def pointers_ok_def room_def\<close>)
  show ?thesis
  proof (cases "file")
    case None
    then show ?thesis using logged True by (simp add: handle_export_def Let_def)
  next
    case (Some x)
    have wf: "mb_wf (mn_heap s, as_global_history (mn_app s))"
      using main_okD(3) [OF assms] by (simp add: history_ok_def)
    show ?thesis
      using logged True Some by (cases x) (auto simp: handle_export_def Let_def export_run [OF wf] split: prod.splits)
  qed
qed (use assms in \<open>simp add: handle_export_def\<close>)

lemma poll_connection_ok:
  assumes "main_ok P s"
  shows "succeeds (poll_connection s) (\<lambda>s'. main_ok P s' \<and> (\<forall>k. room k s' = room k s))"
proof -
  obtain c w where cw: "mn_mqtt s = (c, w)" by force
  have "succeeds (mqtt_client_poll_ssh_tunnel (mn_mqtt s)) client_inv" using poll_inv main_okD(6) [OF assms] by (simp add: cw)
  then show ?thesis
    unfolding poll_connection_def
    by (rule succeeds_bind) (use assms in \<open>simp add: main_ok_def pointers_ok_def room_def\<close>)
qed

lemma periodic_flush_ok:
  assumes "main_ok P s"
  shows "succeeds (periodic_flush by_time dt s) (\<lambda>s'. main_ok P s' \<and> (\<forall>k. room k s' = room k s))"
proof -
  let ?s = "s\<lparr>mn_save_timer := flt_add (mn_save_timer s) dt\<rparr>"
  have "succeeds (flush_history by_time (?s\<lparr>mn_save_timer := Fin 0\<rparr>)) (\<lambda>s'. main_ok P s' \<and> (\<forall>k. room k s' = room k s))"
    unfolding flush_history_def
    using assms flush_history_ok [OF main_okD(3,4) [OF assms], of by_time "mn_db s"]
    by (auto simp: succeeds_ex main_ok_def pointers_ok_def room_def)
  then show ?thesis using assms by (simp add: periodic_flush_def Let_def)
qed

lemma shortcuts_ok:
  assumes "main_ok P s"
  shows "succeeds (shortcuts kb (mn_app s)) (\<lambda>st. main_ok P (s\<lparr>mn_app := st\<rparr>) \<and> (\<forall>k. room k (s\<lparr>mn_app := st\<rparr>) = room k s)
     \<and> as_topic_tree st = as_topic_tree (mn_app s) \<and> as_global_history st = as_global_history (mn_app s))"
proof -
  have p: "\<exists>path. topic_node_full_path a buf 256 (as_topic_tree (mn_app s)) = Some path" if "as_selected_topic (mn_app s) = Some a" for a buf
    using full_path_total main_okD(1,7) [OF assms] that by auto
  define Q where "Q = (\<lambda>st. main_ok P (s\<lparr>mn_app := st\<rparr>) \<and> (\<forall>k. room k (s\<lparr>mn_app := st\<rparr>) = room k s)
     \<and> as_topic_tree st = as_topic_tree (mn_app s) \<and> as_global_history st = as_global_history (mn_app s))"
  have same: "Q (mn_app s)" "Q ((mn_app s)\<lparr>as_publish_panel_open := b\<rparr>)" "Q ((mn_app s)\<lparr>as_log_panel_open := b\<rparr>)"
      "Q ((mn_app s)\<lparr>as_profile_dialog_open := b\<rparr>)" for b
    using assms by (simp_all add: Q_def main_ok_def pointers_ok_def room_def)
  have topic: "Q ((mn_app s)\<lparr>as_publish_topic := path, as_publish_panel_open := b\<rparr>)" if "length path < 256" for b path
    using assms that by (simp add: Q_def main_ok_def pointers_ok_def room_def)
  have "succeeds (case as_selected_topic (mn_app s) of None \<Rightarrow> Some ((mn_app s)\<lparr>as_publish_panel_open := True\<rparr>)
      | Some node \<Rightarrow> map_option (\<lambda>path. (mn_app s)\<lparr>as_publish_topic := path, as_publish_panel_open := True\<rparr>)
           (topic_node_full_path node (as_publish_topic (mn_app s)) 256 (as_topic_tree (mn_app s)))) Q"
  proof (cases "as_selected_topic (mn_app s)")
    case None
    then show ?thesis using same(2) by simp
  next
    case (Some a)
    then obtain path where "topic_node_full_path a (as_publish_topic (mn_app s)) 256 (as_topic_tree (mn_app s)) = Some path" using p by blast
    then show ?thesis using topic [OF full_path_length] by (simp add: Some)
  qed
  then have "succeeds (shortcuts kb (mn_app s)) Q"
    unfolding shortcuts_def Let_def by (intro succeeds_if) (simp_all only: succeeds_Some same)
  then show ?thesis by (simp add: Q_def)
qed

subsection \<open>A frame\<close>

lemma succeeds_inv: "succeeds m (\<lambda>s'. main_ok P s' \<and> Q s') \<Longrightarrow> succeeds m (\<lambda>s'. main_inv s' \<and> Q s')"
  by (erule succeeds_mono) (auto simp: main_inv_def)

text \<open>
  What a frame needs of its inputs: a frame time for which the refresh interval is a \<open>uint64_t\<close>,
  messages with short levels, and room in the counters for the at most 256 messages and two
  requests it handles.
\<close>

definition frame_ok :: "frame_input \<Rightarrow> main_state \<Rightarrow> bool" where
  "frame_ok fi s \<longleftrightarrow> snd (ui_tick (fi_dt fi) (mn_frame_avg s)) \<noteq> None \<and> (\<forall>m\<in>set (incoming s). message_ok m) \<and> room 258 s"

lemma incoming_app [simp]: "incoming (s\<lparr>mn_app := st\<rparr>) = incoming s" "incoming (s\<lparr>mn_frame_avg := x\<rparr>) = incoming s"
  by (simp_all add: incoming_def)

lemma frame_run:
  assumes "main_inv s" "frame_ok fi s" "\<And>s. main_inv s \<Longrightarrow> succeeds (ui s) main_inv"
  shows "succeeds (main_frame by_time gm ui fi s) main_inv"
proof -
  obtain P where P: "main_ok P s" using assms(1) by (auto simp: main_inv_def)
  obtain avg tick where t: "ui_tick (fi_dt fi) (mn_frame_avg s) = (avg, Some tick)"
    using assms(2) by (cases "ui_tick (fi_dt fi) (mn_frame_avg s)") (auto simp: frame_ok_def)
  have in_ok: "\<forall>m\<in>set (incoming s). message_ok m" and rm: "room 258 s" using assms(2) by (simp_all add: frame_ok_def)
  have run: "main_frame by_time gm ui fi s = (shortcuts (fi_keyboard fi) (mn_app s)
      \<bind> (\<lambda>st. drain_queue tick (s\<lparr>mn_app := st, mn_frame_avg := avg\<rparr>)
      \<bind> (\<lambda>(k, s). update_throughput (fi_dt fi) (update_rates (fi_dt fi) k s)
      \<bind> handle_clear_topic by_time \<bind> handle_disconnect \<bind> handle_export gm (fi_file fi) (fi_errno fi)
      \<bind> (\<lambda>(s, _). poll_connection s \<bind> periodic_flush by_time (fi_dt fi) \<bind> ui))))"
    by (simp add: main_frame_def t Option.bind_assoc case_prod_beta')
  show ?thesis
    unfolding run
  proof (rule succeeds_bind [OF shortcuts_ok [OF P]])
    fix st assume st: "main_ok P (s\<lparr>mn_app := st\<rparr>) \<and> (\<forall>k. room k (s\<lparr>mn_app := st\<rparr>) = room k s)
      \<and> as_topic_tree st = as_topic_tree (mn_app s) \<and> as_global_history st = as_global_history (mn_app s)"
    let ?s = "s\<lparr>mn_app := st, mn_frame_avg := avg\<rparr>"
    have "main_inv ?s" "room (256 + 2) ?s" using st rm by (auto simp: main_inv_def)
    then have dr: "succeeds (drain_queue tick ?s) (\<lambda>(k, s'). main_inv s' \<and> room 2 s')"
      using drain_queue_ok [of ?s 2 tick] in_ok by simp
    show "succeeds (drain_queue tick ?s
      \<bind> (\<lambda>(k, s). update_throughput (fi_dt fi) (update_rates (fi_dt fi) k s)
      \<bind> handle_clear_topic by_time \<bind> handle_disconnect \<bind> handle_export gm (fi_file fi) (fi_errno fi)
      \<bind> (\<lambda>(s, _). poll_connection s \<bind> periodic_flush by_time (fi_dt fi) \<bind> ui))) main_inv"
    proof (rule succeeds_bind [OF dr], clarify)
      fix k s1 assume s1: "main_inv s1" "room 2 s1"
      then obtain Q where Q: "main_ok Q s1" by (auto simp: main_inv_def)
      have "succeeds (update_throughput (fi_dt fi) (update_rates (fi_dt fi) k s1)) (\<lambda>s. main_ok Q s \<and> room 2 s)"
        by (rule succeeds_mono [OF update_throughput_ok]) (use Q s1(2) in \<open>auto simp: update_rates_ok\<close>)
      then have "succeeds (update_throughput (fi_dt fi) (update_rates (fi_dt fi) k s1) \<bind> handle_clear_topic by_time)
          (\<lambda>s. main_ok Q s \<and> room 1 s \<and> as_clear_topic_requested (mn_app s) = None)"
        by (rule succeeds_bind) (rule handle_clear_topic_ok, simp_all add: numeral_2_eq_2)
      then have "succeeds (update_throughput (fi_dt fi) (update_rates (fi_dt fi) k s1) \<bind> handle_clear_topic by_time \<bind> handle_disconnect)
          (\<lambda>s. main_ok Q s \<and> room 0 s)"
        by (rule succeeds_bind) (rule handle_disconnect_ok, simp_all)
      then have "succeeds (update_throughput (fi_dt fi) (update_rates (fi_dt fi) k s1) \<bind> handle_clear_topic by_time \<bind> handle_disconnect
          \<bind> handle_export gm (fi_file fi) (fi_errno fi)) (\<lambda>(s, _). main_ok Q s)"
        by (rule succeeds_bind) (rule succeeds_mono [OF handle_export_ok], auto)
      then show "succeeds (update_throughput (fi_dt fi) (update_rates (fi_dt fi) k s1) \<bind> handle_clear_topic by_time \<bind> handle_disconnect
          \<bind> handle_export gm (fi_file fi) (fi_errno fi)
          \<bind> (\<lambda>(s, _). poll_connection s \<bind> periodic_flush by_time (fi_dt fi) \<bind> ui)) main_inv"
      proof (rule succeeds_bind, clarify)
        fix s2 :: main_state and out :: "string option" assume s2: "main_ok Q s2"
        have "succeeds (poll_connection s2) (main_ok Q)" by (rule succeeds_mono [OF poll_connection_ok [OF s2]]) simp
        then have "succeeds (poll_connection s2 \<bind> periodic_flush by_time (fi_dt fi)) (main_ok Q)"
          by (rule succeeds_bind) (rule succeeds_mono [OF periodic_flush_ok], auto)
        then show "succeeds (poll_connection s2 \<bind> periodic_flush by_time (fi_dt fi) \<bind> ui) main_inv"
          by (rule succeeds_bind) (rule assms(3), auto simp: main_inv_def)
      qed
    qed
  qed
qed

subsection \<open>The buttons after layout\<close>

lemma inspector_buttons_ok:
  assumes "main_inv s"
  shows "succeeds (inspector_buttons resolve pressed mouse close_btn diff_btn export_btn s) main_inv"
proof -
  obtain P where P: "main_ok P s" using assms by (auto simp: main_inv_def)
  obtain c w where cw: "mn_mqtt s = (c, w)" by force
  have log: "succeeds (client_log lv msg (mn_mqtt s)) client_inv" for lv msg
    using client_log_inv main_okD(6) [OF P] by (simp add: cw)
  define st1 where "st1 = (if hit close_btn mouse then (mn_app s)\<lparr>as_selected_topic := None\<rparr> else mn_app s)"
  define st2 where "st2 = (if hit diff_btn mouse then st1\<lparr>as_diff_enabled := (\<not> as_diff_enabled st1)\<rparr> else st1)"
  have ok2: "main_ok P (s\<lparr>mn_app := st2\<rparr>)"
    using P by (simp add: st2_def st1_def main_ok_def pointers_ok_def)
  have ex: "main_ok P (s\<lparr>mn_app := st2\<lparr>as_export_topic := a, as_export_path := b\<rparr>, mn_mqtt := m\<rparr>)"
      "main_ok P (s\<lparr>mn_app := st2\<lparr>as_export_topic := a, as_export_path := b, as_export_requested := e\<rparr>\<rparr>)"
    if "client_inv m" for a b e m
    using ok2 that by (simp_all add: main_ok_def pointers_ok_def)
  have "succeeds (case as_selected_topic st2 of None \<Rightarrow> Some (s\<lparr>mn_app := st2\<rparr>)
      | Some node \<Rightarrow>
          if hit export_btn mouse then do {
            topic \<leftarrow> topic_node_full_path node (as_export_topic st2) 256 (as_topic_tree st2);
            let (ok, path) = resolve topic;
            let st = st2\<lparr>as_export_topic := topic, as_export_path := path\<rparr>;
            if ok then Some (s\<lparr>mn_app := st\<lparr>as_export_requested := True\<rparr>\<rparr>)
            else do {
              mqtt \<leftarrow> client_log CONN_LOG_ERROR ''CSV export failed: no writable destination directory'' (mn_mqtt s);
              Some (s\<lparr>mn_app := st, mn_mqtt := mqtt\<rparr>)
            }
          }
          else Some (s\<lparr>mn_app := st2\<rparr>)) main_inv"
  proof (cases "as_selected_topic st2")
    case None
    then show ?thesis using ok2 by (auto simp: main_inv_def)
  next
    case (Some a)
    have "tree_ok P (as_topic_tree st2)" "a \<in> nodes (as_topic_tree st2)"
      using main_okD(1,7) [OF ok2] Some by simp_all
    then obtain path where path: "topic_node_full_path a (as_export_topic st2) 256 (as_topic_tree st2) = Some path"
      using full_path_total by blast
    obtain m where m: "client_log CONN_LOG_ERROR ''CSV export failed: no writable destination directory'' (mn_mqtt s) = Some m" "client_inv m"
      using log unfolding succeeds_ex by blast
    show ?thesis
      unfolding main_inv_def
      using ok2 ex [OF m(2)] by (cases "resolve path") (auto simp: Some path m(1) Let_def intro!: exI [of _ P])
  qed
  then show ?thesis
    using assms unfolding inspector_buttons_def Let_def st1_def [symmetric] st2_def [symmetric] by simp
qed

lemma reset_inv: "series_inv chart_series_reset"
  by (simp add: series_inv_def chart_series_reset_def ring_ok_def kept_def extrema_ok_def vals_def)

lemma chart_remove_buttons_ok:
  assumes "main_inv s"
  shows "main_inv (s\<lparr>mn_app := chart_remove_buttons pressed mouse button (mn_app s)\<rparr>)"
proof -
  obtain P where P: "main_ok P s" using assms by (auto simp: main_inv_def)
  have "\<forall>c\<in>set (map (\<lambda>(si, s). if cs_active s \<and> hit (button si) mouse then chart_series_reset else s)
       (zip [0..<length (as_chart_series (mn_app s))] (as_chart_series (mn_app s)))). series_inv c"
    using main_okD(5) [OF P] reset_inv by (auto dest: set_zip_rightD)
  then show ?thesis using P by (auto simp: chart_remove_buttons_def main_inv_def main_ok_def pointers_ok_def)
qed

end
