(* ===== verification/Main_Start.thy ===== *)
theory Main_Start
  imports Main_Inv
begin

text \<open>
  Start-up and shutdown: the settings that a session leaves to the next one, the history that is
  written at the end and read back at the start, and the state in which the loop begins.
\<close>

subsection \<open>The window size\<close>

lemma digits_takeWhile: "takeWhile is_digit (dec n) = dec n"
  by (rule takeWhile_eq_all_conv [THEN iffD2]) (use dec_digits in blast)

lemma atoi_dec:
  assumes "0 \<le> i" "i < 2 ^ 31"
  shows "atoi (dec_int i) = Some i"
proof -
  obtain c s where d: "dec (nat i) = c # s" "is_digit c" by (rule dec_Cons)
  note f = digit_facts [OF d(2)]
  have "dec_int i = dec (nat i)" using assms(1) by (simp add: dec_int_def)
  moreover have "dropWhile c_space (dec (nat i)) = dec (nat i)" using f(1) by (simp add: d(1))
  moreover have "dec (nat i) \<noteq> []" "hd (dec (nat i)) \<noteq> CHR ''-''" "hd (dec (nat i)) \<noteq> CHR ''+''" using d(1) f(2,3) by simp_all
  ultimately show ?thesis using assms by (simp add: atoi_def Let_def digits_takeWhile)
qed

lemma get_setting_ok:
  assumes "db_outcomes d = []" "tb_settings (db_tables d) k = Some v" "length v < 1024"
  shows "db_get_setting (Some d) (Some k) fb = (Some v, Some (d\<lparr>db_setting_value := v\<rparr>))"
  using assms by (simp add: db_get_setting_def sqlite_call_def util_str_copy_eq)

lemma set_setting_ok:
  assumes "db_outcomes d = []"
  shows "db_set_setting (Some d) (Some k) (Some v) = (True, Some (update_tables (upsert_setting k v) d))"
  using assms by (simp add: db_set_setting_def sqlite_call_def)

text \<open>Both strings that \<open>main\<close> holds are the last one read.\<close>

lemma restore_window_run:
  assumes "db_outcomes d = []" "tb_settings (db_tables d) ''window_width'' = Some w" "tb_settings (db_tables d) ''window_height'' = Some h"
    and "length w < 1024" "length h < 1024"
  shows "restore_window monitor dpi (Some d)
    = do { i \<leftarrow> atoi h; size \<leftarrow> fit_window monitor dpi i i; Some (size, Some (d\<lparr>db_setting_value := h\<rparr>)) }"
proof -
  have 1: "db_get_setting (Some d) (Some ''window_width'') None = (Some w, Some (d\<lparr>db_setting_value := w\<rparr>))"
    by (rule get_setting_ok [OF assms(1,2,4)])
  have 2: "db_get_setting (Some (d\<lparr>db_setting_value := w\<rparr>)) (Some ''window_height'') None
      = (Some h, Some (d\<lparr>db_setting_value := h\<rparr>))"
    using get_setting_ok [of "d\<lparr>db_setting_value := w\<rparr>" "''window_height''" h None] assms by simp
  show ?thesis by (cases "atoi h") (simp_all add: restore_window_def 1 2)
qed

lemma fit_window_wide: "fit_window monitor dpi w h = Some (Some (a, b)) \<Longrightarrow> 900 \<le> w \<and> a \<le> w \<and> b \<le> h"
  by (auto simp: fit_window_def Let_def bind_eq_Some_conv split: if_splits)

lemma update_tables_simps [simp]:
  "db_tables (update_tables f d) = f (db_tables d)" "db_outcomes (update_tables f d) = db_outcomes d"
  "db_snapshot (update_tables f d) = db_snapshot d"
  by (simp_all add: update_tables_def)

lemma length_dec_less: "n < 10 ^ k \<Longrightarrow> 0 < k \<Longrightarrow> length (dec n) \<le> k"
proof (induction k arbitrary: n)
  case (Suc k)
  show ?case
  proof (cases "n < 10")
    case False
    then have "0 < k" using Suc.prems(1) by (cases k) auto
    moreover have "n div 10 < 10 ^ k" using Suc.prems(1) by (simp add: less_mult_imp_div_less mult.commute)
    ultimately have "length (dec (n div 10)) \<le> k" using Suc.IH by blast
    then show ?thesis using False by (subst dec.simps) simp
  qed (subst dec.simps, simp)
qed simp

lemma window_restored:
  assumes "db_outcomes d = []" "0 \<le> w" "w < 2 ^ 31" "0 \<le> h" "h < 2 ^ 31"
  shows "map_option fst (restore_window monitor dpi (save_window (w, h) (Some d))) = fit_window monitor dpi h h"
proof -
  have len: "length (dec_int i) \<le> 10" if "0 \<le> i" "i < 2 ^ 31" for i
    using length_dec_less [of "nat i" 10] that by (simp add: dec_int_def)
  have l: "length (dec_int w) < 32" "length (dec_int h) < 32"
    using len [OF assms(2,3)] len [OF assms(4,5)] by simp_all
  have pr: "snprintf 32 (dec_int w) = dec_int w" "snprintf 32 (dec_int h) = dec_int h"
    by (rule snprintf_fits, rule l)+
  let ?d = "update_tables (upsert_setting ''window_height'' (dec_int h)) (update_tables (upsert_setting ''window_width'' (dec_int w)) d)"
  have s: "save_window (w, h) (Some d) = Some ?d"
    using assms(1) by (simp add: save_window_def pr set_setting_ok)
  have "restore_window monitor dpi (Some ?d) = do { i \<leftarrow> atoi (dec_int h); size \<leftarrow> fit_window monitor dpi i i; Some (size, Some (?d\<lparr>db_setting_value := dec_int h\<rparr>)) }"
    using len [OF assms(2,3)] len [OF assms(4,5)] assms(1) by (intro restore_window_run [where w = "dec_int w"]) (simp_all add: upsert_setting_def)
  then show ?thesis unfolding s using atoi_dec [OF assms(4,5)] by (cases "fit_window monitor dpi h h") simp_all
qed

subsection \<open>Reading the history back\<close>

text \<open>The record that a row becomes: the fields that the table does not have are zero.\<close>

definition row_record :: "message_row \<Rightarrow> bytes message_record" where
  "row_record m =
     \<lparr>mr_timestamp_us = word_of_int (ms_timestamp_us m), mr_topic = util_str_copy [] 256 (Some (ms_topic m)),
      mr_payload = (case ms_payload m of None \<Rightarrow> [] | Some blob \<Rightarrow> blob),
      mr_payload_len = word_of_nat (case ms_payload m of None \<Rightarrow> 0 | Some blob \<Rightarrow> length blob),
      mr_qos = word_of_int (column_int (ms_qos m)), mr_retained = (column_int (ms_retained m) \<noteq> 0), mr_dup = False,
      mr_broker_id = word_of_int (ms_broker_id m),
      mr_preview = (case ms_payload m of None \<Rightarrow> '''' | Some blob \<Rightarrow> if blob = [] then '''' else fst (util_preview_sanitize [] 512 blob))\<rparr>"

definition row_ok :: "message_row \<Rightarrow> bool" where
  "row_ok m \<longleftrightarrow> (case ms_payload m of None \<Rightarrow> True | Some blob \<Rightarrow> length blob < 2 ^ 31)"

lemma owns_append_fresh:
  assumes "heap_wf h" "owns h rs" "bs \<noteq> []" "length bs < 2 ^ 32" "heap_malloc bs h = (a, h')"
    and "mr_payload r = Some a" "mr_payload_len r = word_of_nat (length bs)"
  shows "heap_wf h'" "owns h' (r # rs)" "map (deref h') rs = map (deref h) rs" "frame_of h' (r # rs) = frame_of h rs"
    "deref h' r = map_payload (\<lambda>_. bs) r"
proof -
  have h': "a = hp_next h" "h' = h\<lparr>hp_blocks := (hp_blocks h)(hp_next h \<mapsto> bs), hp_next := Suc (hp_next h)\<rparr>"
    using assms(5) by (auto simp: heap_malloc_def)
  have ne: "hp_blocks h a = None" using assms(1) by (auto simp: heap_wf_def h'(1))
  have fresh: "a \<notin> set (owned rs)" using assms(2) ne by (auto simp: owns_def mem_owned slot_ok_Some)
  show "heap_wf h'" using assms(1) by (auto simp: heap_wf_def h'(2))
  have old: "owns h' rs" "map (deref h') rs = map (deref h) rs"
    by (rule owns_transfer [OF _ assms(2)]; use fresh in \<open>auto simp: h'\<close>)+
  then show "map (deref h') rs = map (deref h) rs" by simp
  have "unat (word_of_nat (length bs) :: u32) = length bs" using assms(4) by (simp add: unat_of_nat)
  then have "slot_ok h' r" using assms(3,6,7) h' by (auto simp: slot_ok_Some unat_eq_zero)
  then show "owns h' (r # rs)" using old(1) fresh assms(6) by (simp add: owns_def owned_Cons)
  show "frame_of h' (r # rs) = frame_of h rs" using ne fresh assms(6) by (auto simp: frame_of_def owned_Cons h' fun_eq_iff)
  show "deref h' r = map_payload (\<lambda>_. bs) r" using assms(6) h' by (simp add: deref_def map_payload_def)
qed

lemma load_row_run:
  assumes "heap_wf h" "owns h rs" "row_ok m" "load_message_row m h = (r, h')"
  shows "heap_wf h'" "owns h' (r # rs)" "map (deref h') rs = map (deref h) rs" "frame_of h' (r # rs) = frame_of h rs"
    "deref h' r = row_record m" "unat (mr_payload_len r) < 2 ^ 31"
proof -
  let ?r = "zero_record\<lparr>mr_topic := util_str_copy [] 256 (Some (ms_topic m)), mr_qos := word_of_int (column_int (ms_qos m)),
      mr_retained := (column_int (ms_retained m) \<noteq> 0), mr_timestamp_us := word_of_int (ms_timestamp_us m),
      mr_broker_id := word_of_int (ms_broker_id m)\<rparr>"
  have "heap_wf h' \<and> owns h' (r # rs) \<and> map (deref h') rs = map (deref h) rs \<and> frame_of h' (r # rs) = frame_of h rs
     \<and> deref h' r = row_record m \<and> unat (mr_payload_len r) < 2 ^ 31"
  proof (cases "ms_payload m = None \<or> ms_payload m = Some []")
    case True
    then have "r = ?r" "h' = h" using assms(4) by (auto simp: load_message_row_def Let_def)
    moreover have "deref h ?r = row_record m"
      using True by (auto simp: deref_def map_payload_def zero_record_def row_record_def)
    ultimately show ?thesis
      using assms(1,2) by (auto simp: owns_def owned_Cons slot_ok_def zero_record_def frame_of_def)
  next
    case False
    then obtain bs where bs: "ms_payload m = Some bs" "bs \<noteq> []" by auto
    have len: "length bs < 2 ^ 31" using assms(3) bs by (simp add: row_ok_def)
    obtain a h1 where m: "heap_malloc bs h = (a, h1)" by force
    let ?q = "?r\<lparr>mr_payload := Some a, mr_payload_len := word_of_nat (length bs), mr_preview := fst (util_preview_sanitize [] 512 bs)\<rparr>"
    have r: "r = ?q" "h' = h1" using assms(4) bs m by (simp_all add: load_message_row_def Let_def)
    have len': "length bs < 2 ^ 32" using len by simp
    note f = owns_append_fresh [OF assms(1,2) bs(2) len' m, of ?q]
    have "deref h1 ?q = row_record m"
      using f(5) bs by (simp add: map_payload_def zero_record_def row_record_def)
    moreover have "unat (mr_payload_len ?q) < 2 ^ 31" using len by (simp add: unat_of_nat)
    ultimately show ?thesis using f(1-4) unfolding r by simp
  qed
  then show "heap_wf h'" "owns h' (r # rs)" "map (deref h') rs = map (deref h) rs" "frame_of h' (r # rs) = frame_of h rs"
    "deref h' r = row_record m" "unat (mr_payload_len r) < 2 ^ 31"
    by blast+
qed

lemma load_rows_run:
  assumes "heap_wf h" "owns h rs" "\<forall>m\<in>set ms. row_ok m" "load_message_rows ms h = (qs, h')"
  shows "heap_wf h' \<and> owns h' (rev qs @ rs) \<and> map (deref h') rs = map (deref h) rs \<and> frame_of h' (rev qs @ rs) = frame_of h rs
    \<and> map (deref h') qs = map row_record ms \<and> (\<forall>q\<in>set qs. unat (mr_payload_len q) < 2 ^ 31)"
  using assms
proof (induction ms arbitrary: h rs qs h')
  case (Cons m ms)
  obtain r h1 where r: "load_message_row m h = (r, h1)" by force
  obtain ps h2 where ps: "load_message_rows ms h1 = (ps, h2)" by force
  have q: "qs = r # ps" "h' = h2" using Cons.prems(4) r ps by simp_all
  have "row_ok m" using Cons.prems(3) by simp
  note l = load_row_run [OF Cons.prems(1,2) this r]
  have i: "heap_wf h2 \<and> owns h2 (rev ps @ r # rs) \<and> map (deref h2) (r # rs) = map (deref h1) (r # rs)
      \<and> frame_of h2 (rev ps @ r # rs) = frame_of h1 (r # rs) \<and> map (deref h2) ps = map row_record ms
      \<and> (\<forall>q\<in>set ps. unat (mr_payload_len q) < 2 ^ 31)"
    by (rule Cons.IH [OF l(1,2) _ ps]) (use Cons.prems(3) in simp)
  then show ?case using l(3-6) by (simp add: q)
qed auto

text \<open>
  The loop that moves the loaded records into the ring: at every step the ring and the records
  that are left own different blocks, and the blocks of everybody else stay.
\<close>

lemma load_loop_run:
  assumes "heap_wf h" "mb_ring_ok buf" "owns h (live buf @ rs)" "\<forall>r\<in>set rs. unat (mr_payload_len r) < 2 ^ 31"
    and "unat (mb_count buf) \<le> unat (mb_generation buf)" "unat (mb_generation buf) + length rs < 2 ^ 64"
    and "\<forall>r\<in>set (mb_items (h, buf)). unat (mr_payload_len r) < 2 ^ 31"
  shows "\<exists>h' buf'. load_history_loop rs (h, buf) = Some (h', buf') \<and> history_ok h' buf' 0 \<and> mb_capacity buf' = mb_capacity buf
     \<and> mb_items (h', buf') = lastn (unat (mb_capacity buf)) (mb_items (h, buf) @ map (deref h) rs)
     \<and> unat (mb_generation buf') = unat (mb_generation buf) + length rs
     \<and> mb_frame (h', buf') = frame_of h (live buf @ rs)"
  using assms
proof (induction rs arbitrary: h buf)
  case Nil
  have "length (mb_items (h, buf)) \<le> unat (mb_capacity buf)"
    using Nil.prems(2) by (simp add: length_mb_items mb_ring_ok_def)
  then show ?case using Nil.prems by (simp add: history_ok_def mb_wf_def mb_frame_def)
next
  case (Cons r rs)
  have own: "owns h (live buf)" using Cons.prems(3) by (auto simp: owns_def)
  have wf: "mb_wf (h, buf)" using Cons.prems(1,2) own by (simp add: mb_wf_def)
  have disj: "set (owned (live buf)) \<inter> set (owned (r # rs)) = {}" using Cons.prems(3) by (simp add: owns_def)
  have r_ok: "slot_ok h r" using Cons.prems(3) by (simp add: owns_def)
  let ?x = "export_view h r"
  have x: "load_record h r = Some ?x" by (rule load_view [OF r_ok])
  have st: "record_ok ?x" "stored ?x = deref h r"
    using r_ok by (cases "mr_payload r"; auto simp: export_view_def record_ok_def slot_ok_def stored_def deref_def map_payload_def split: option.splits)+
  obtain h1 buf1 where p: "message_buf_push ?x (h, buf) = Some (h1, buf1)" "mb_wf (h1, buf1)" "mb_cap (h1, buf1) = mb_cap (h, buf)"
      "mb_items (h1, buf1) = lastn (mb_cap (h, buf)) (mb_items (h, buf) @ [deref h r])"
      "mb_generation buf1 = mb_generation buf + 1" "mb_frame (h1, buf1) = mb_frame (h, buf)"
    using push_contract [OF wf st(1)] st(2) by force
  have wf1: "heap_wf h1" "mb_ring_ok buf1" "owns h1 (live buf1)" using p(2) by (simp_all add: mb_wf_def)
  have held: "a \<notin> set (owned (live buf1)) \<and> hp_blocks h1 a = hp_blocks h a" if a: "a \<in> set (owned (r # rs))" for a
  proof -
    obtain q where q: "q \<in> set (r # rs)" "mr_payload q = Some a" using a unfolding mem_owned by blast
    then have "slot_ok h q" using Cons.prems(3) by (auto simp: owns_def)
    then have "hp_blocks h a \<noteq> None" using slot_ok_Some [OF q(2)] by (auto split: option.splits)
    moreover have "a \<notin> set (owned (live buf))" using disj a by blast
    ultimately have "mb_frame (h, buf) a = hp_blocks h a" "hp_blocks h a \<noteq> None" by (simp_all add: mb_frame_def frame_of_def)
    then show ?thesis using fun_cong [OF p(6), of a] by (auto simp: mb_frame_def frame_of_def split: if_splits)
  qed
  have own_r: "owns h (r # rs)" using Cons.prems(3) by (auto simp: owns_def)
  note tr = owns_transfer [of "r # rs" h1 h, OF _ own_r]
  have own1: "owns h1 (r # rs)" "map (deref h1) (r # rs) = map (deref h) (r # rs)" by (rule tr; use held in blast)+
  have own2: "owns h1 (live buf1 @ r # rs)" using own1(1) wf1(3) held by (auto simp: owns_def)
  obtain h2 where f: "heap_free (mr_payload r) h1 = Some h2" "heap_wf h2" "owns h2 (live buf1 @ rs)"
      "map (deref h2) (live buf1 @ rs) = map (deref h1) (live buf1 @ rs)" "frame_of h2 (live buf1 @ rs) = frame_of h1 (live buf1 @ r # rs)"
    using free_owned [OF wf1(1) own2] by blast
  have items2: "mb_items (h2, buf1) = lastn (mb_cap (h, buf)) (mb_items (h, buf) @ [deref h r])"
  proof -
    have "map (deref h2) (live buf1) = map (deref h1) (live buf1)" using f(4) by simp
    then show ?thesis using p(4) unfolding mb_items_def prod.case by (rule trans)
  qed
  have gen: "unat (mb_generation buf1) = unat (mb_generation buf) + 1"
    unfolding p(5) using Cons.prems(6) by (intro unat_inc_small) simp
  have cap: "mb_capacity buf1 = mb_capacity buf" using p(3) by (simp add: mb_cap_def word_eq_unat)
  have cnt: "unat (mb_count buf1) \<le> unat (mb_generation buf1)"
    using arg_cong [OF p(4), of length] Cons.prems(5) gen by (simp add: length_mb_items)
  have lens: "\<forall>q\<in>set (mb_items (h2, buf1)). unat (mr_payload_len q) < 2 ^ 31"
    unfolding items2 lastn_def using Cons.prems(4,7) by (auto dest!: in_set_dropD simp: deref_def)
  obtain h' buf' where ih: "load_history_loop rs (h2, buf1) = Some (h', buf')" "history_ok h' buf' 0" "mb_capacity buf' = mb_capacity buf1"
      "mb_items (h', buf') = lastn (unat (mb_capacity buf1)) (mb_items (h2, buf1) @ map (deref h2) rs)"
      "unat (mb_generation buf') = unat (mb_generation buf1) + length rs" "mb_frame (h', buf') = frame_of h2 (live buf1 @ rs)"
    using Cons.IH [OF f(2) wf1(2) f(3) _ cnt _ lens] Cons.prems(4,6) gen by auto
  have "frame_of h1 (live buf1 @ r # rs) = frame_of h (live buf @ r # rs)"
  proof
    fix a show "frame_of h1 (live buf1 @ r # rs) a = frame_of h (live buf @ r # rs) a"
      using fun_cong [OF p(6), of a] by (simp add: frame_of_def mb_frame_def split: if_splits)
  qed
  moreover have same: "map (deref h2) rs = map (deref h) rs" using f(4) own1(2) by simp
  have "lastn (unat (mb_capacity buf)) (mb_items (h2, buf1) @ map (deref h) rs)
      = lastn (unat (mb_capacity buf)) (mb_items (h, buf) @ map (deref h) (r # rs))"
    unfolding items2 mb_cap_def snd_conv lastn_snoc_lastn by simp
  with calculation show ?case
    using ih [unfolded same] x p(1) f(1,5) gen cap by simp
qed

text \<open>The whole of it, into an empty ring: the newest rows, oldest first, and no block is left over.\<close>

lemma load_history_run:
  assumes "heap_wf h" "ring_cap_ok cap" "200 \<le> unat cap" "newest_first by_time" "\<forall>m\<in>set (tb_messages (db_tables d)). row_ok m"
  shows "\<exists>h' buf' n d'. load_history by_time (Some d) (h, message_buf_init cap) = Some (h', buf', message_buf_generation buf', Some d')
     \<and> history_ok h' buf' (message_buf_generation buf') \<and> mb_capacity buf' = cap \<and> n \<le> 200 \<and> unat (message_buf_generation buf') = n
     \<and> mb_items (h', buf') = map row_record (rev (take n (by_time (tb_messages (db_tables d)))))
     \<and> mb_frame (h', buf') = hp_blocks h \<and> (db_outcomes d = [] \<longrightarrow> n = min 200 (length (tb_messages (db_tables d))))
     \<and> db_tables d' = db_tables d \<and> db_snapshot d' = db_snapshot d"
proof -
  let ?rows = "by_time (tb_messages (db_tables d))" and ?buf = "message_buf_init cap"
  have set_rows: "set ?rows = set (tb_messages (db_tables d))" and len_rows: "length ?rows = length (tb_messages (db_tables d))"
    using assms(4) unfolding newest_first_def by (metis set_mset_mset, metis size_mset)
  have ring: "mb_ring_ok ?buf" "live ?buf = []" and items: "mb_items (h, ?buf) = []"
    using init_wf [OF assms(1,2)] by (simp_all add: mb_wf_def) (simp add: mb_items_def)
  obtain ok d1 where c: "sqlite_call d = (ok, d1)" by force
  note k1 = sqlite_call_keeps [OF c]
  obtain rows rs h1 handle' where l: "db_load_messages by_time (Some d) h (replicate 200 zero_record) 200
      = (length rs, rs @ drop (length rs) (replicate 200 zero_record), h1, Some handle')" "load_message_rows rows h = (rs, h1)"
      "rows = take (length rows) ?rows" "length rows \<le> 200" "db_outcomes d = [] \<longrightarrow> length rows = min 200 (length ?rows)"
      "db_tables handle' = db_tables d" "db_snapshot handle' = db_snapshot d"
  proof (cases ok)
    case False
    then show ?thesis using that [of "[]" h d1 "[]"] c k1 by (auto simp: db_load_messages_def sqlite_call_def split: list.splits)
  next
    case True
    obtain fs b d2 where f: "fetch_rows 200 (take 200 ?rows) d1 = (fs, b, d2)" by (metis prod_cases3)
    obtain rs h1 where lr: "load_message_rows fs h = (rs, h1)" by force
    have dl: "db_load_messages by_time (Some d) h (replicate 200 zero_record) 200
        = (length rs, rs @ drop (length rs) (replicate 200 zero_record), h1, Some d2)"
      using True c f lr k1 by (simp add: db_load_messages_def)
    have fk: "fs = take (length fs) ?rows" "length fs \<le> 200" using fetch_rows_keeps [OF f] by (auto simp: min_def)
    have "db_outcomes d = [] \<longrightarrow> fs = take 200 ?rows"
      using f c fetch_rows_ok [of d1 200 "take 200 ?rows"] by (auto simp: sqlite_call_def split: list.splits)
    then have "db_outcomes d = [] \<longrightarrow> length fs = min 200 (length ?rows)" by (simp add: min_def)
    then show ?thesis using that [OF dl lr fk(1,2)] fetch_rows_keeps [OF f] k1 by simp
  qed
  have lrs: "length rs = length rows"
    using l(2) by (induction rows arbitrary: h rs h1) (auto split: prod.splits)
  have rows_ok: "\<forall>m\<in>set rows. row_ok m"
  proof
    fix m assume "m \<in> set rows"
    then have "m \<in> set (take (length rows) ?rows)" by (rule back_subst [OF _ arg_cong [OF l(3), of "\<lambda>xs. m \<in> set xs"]])
    then have "m \<in> set ?rows" by (rule in_set_takeD)
    then show "row_ok m" using assms(5) set_rows by simp
  qed
  have "owns h []" by (simp add: owns_def)
  from load_rows_run [OF assms(1) this rows_ok l(2)]
  have rr: "heap_wf h1" "owns h1 (rev rs)" "frame_of h1 (rev rs) = hp_blocks h" "map (deref h1) rs = map row_record rows"
      "\<forall>q\<in>set rs. unat (mr_payload_len q) < 2 ^ 31"
    by (simp_all add: frame_of_def)
  have z: "mb_count ?buf = 0" "mb_generation ?buf = 0" "mb_capacity ?buf = cap" by (simp_all add: message_buf_init_def)
  have "mb_items (h1, ?buf) = []" by (simp add: mb_items_def ring(2))
  then obtain h' buf' where run: "load_history_loop (rev rs) (h1, ?buf) = Some (h', buf')" "history_ok h' buf' 0" "mb_capacity buf' = cap"
      "mb_items (h', buf') = lastn (unat cap) (map (deref h1) (rev rs))" "unat (mb_generation buf') = length rs"
      "mb_frame (h', buf') = frame_of h1 (rev rs)"
    using load_loop_run [OF rr(1) ring(1), of "rev rs"] rr(2,5) l(4) lrs by (auto simp: ring(2) z)
  have "map (deref h1) (rev rs) = map row_record (rev rows)" using rr(4) by (simp add: rev_map [symmetric])
  moreover have "length rs \<le> unat cap" using lrs l(4) assms(3) by simp
  ultimately have items': "mb_items (h', buf') = map row_record (rev rows)" using run(4) lrs by simp
  have "load_history by_time (Some d) (h, ?buf) = Some (h', buf', message_buf_generation buf', Some handle')"
    using l(1) run(1) by (simp add: load_history_def)
  moreover have "history_ok h' buf' (message_buf_generation buf')"
    using run(2) by (simp add: history_ok_def message_buf_generation_def)
  ultimately show ?thesis
    using items' run(3,5,6) rr(3) l(3) [symmetric] l(4-7) lrs len_rows
    by (intro exI [of _ h'] exI [of _ buf'] exI [of _ "length rows"] exI [of _ handle']) (simp add: message_buf_generation_def)
qed


subsection \<open>From the end of one session to the start of the next\<close>

text \<open>A record that the table can hold: nothing of it is outside the columns, and its preview is that of its payload.\<close>

definition storable :: "bytes message_record \<Rightarrow> bool" where
  "storable r \<longleftrightarrow> \<not> mr_dup r \<and> length (mr_topic r) < 256 \<and> length (mr_payload r) < 2 ^ 31
     \<and> mr_payload_len r = word_of_nat (length (mr_payload r))
     \<and> mr_preview r = (if mr_payload r = [] then '''' else fst (util_preview_sanitize [] 512 (mr_payload r)))"

lemma column_byte: "column_int (uint (q :: u8)) = uint q"
proof -
  have q: "0 \<le> uint q" "uint q < 2 ^ 8" using unsigned_greater_eq [of q] unsigned_less [of q] by simp_all
  have "uint (word_of_int (uint q) :: u32) = uint q mod 2 ^ 32" by (simp add: uint_word_of_int del: of_int_uint)
  then have "uint (word_of_int (uint q) :: u32) = uint q" using q by simp
  moreover have s: "signed_take_bit 31 (uint q) = uint q"
    by (rule signed_take_bit_int_eq_self, rule order_trans [OF _ q(1)], simp, rule less_trans [OF q(2)], simp)
  ultimately show ?thesis
    unfolding column_int_def sint_uint using s by (simp del: of_int_uint)
qed

lemma column_bool [simp]: "column_int 0 = 0" "column_int 1 = 1"
  by (simp_all add: column_int_def)

lemma row_of_entry: "storable r \<Longrightarrow> row_record ((message_entry r)\<lparr>ms_id := i\<rparr>) = r"
  by (cases r) (auto simp: row_record_def message_entry_def storable_def column_byte util_str_copy_eq)

lemma entry_ok: "storable r \<Longrightarrow> row_ok ((message_entry r)\<lparr>ms_id := i\<rparr>)"
  by (auto simp: row_ok_def message_entry_def storable_def)

lemma by_time_rev:
  assumes "newest_first by_time" "sorted_wrt (<) (map ms_timestamp_us rows)"
  shows "by_time rows = rev rows"
proof -
  have m: "mset (by_time rows) = mset rows"
    and s: "sorted_wrt (\<lambda>a b. ms_timestamp_us b \<le> ms_timestamp_us a) (by_time rows)"
    using assms(1) by (simp_all add: newest_first_def)
  have inj: "inj_on ms_timestamp_us (set rows)"
    using assms(2) by (simp add: strict_sorted_iff distinct_map)
  have "sorted (map ms_timestamp_us (rev (by_time rows)))"
    using s by (simp add: sorted_map sorted_wrt_rev)
  moreover have "mset (map ms_timestamp_us (rev (by_time rows))) = mset (map ms_timestamp_us rows)"
    using m by simp
  moreover have "sorted (map ms_timestamp_us rows)" using assms(2) by (rule strict_sorted_imp_sorted)
  ultimately have "map ms_timestamp_us (rev (by_time rows)) = map ms_timestamp_us rows"
    by (metis properties_for_sort)
  moreover have "set (rev (by_time rows)) = set rows" using m by (metis mset_eq_setD set_rev)
  ultimately have "rev (by_time rows) = rows" using inj by (simp add: inj_on_map_eq_map)
  then show ?thesis by (metis rev_rev_ident)
qed

lemma insert_records_rows:
  "\<exists>is. length is = length rs \<and> tb_messages (insert_records rs t) = tb_messages t @ map2 (\<lambda>i r. (message_entry r)\<lparr>ms_id := i\<rparr>) is rs
     \<and> sorted_wrt (<) is \<and> (\<forall>i\<in>set is. tb_messages_seq t < i \<and> i \<le> tb_messages_seq (insert_records rs t))
     \<and> tb_messages_seq t \<le> tb_messages_seq (insert_records rs t)"
proof (induction rs arbitrary: t)
  case (Cons r rs)
  let ?t = "insert_message (message_entry r) t"
  obtain "is" where i: "length is = length rs" "tb_messages (insert_records rs ?t) = tb_messages ?t @ map2 (\<lambda>i r. (message_entry r)\<lparr>ms_id := i\<rparr>) is rs"
      "sorted_wrt (<) is" "\<forall>i\<in>set is. tb_messages_seq ?t < i \<and> i \<le> tb_messages_seq (insert_records rs ?t)"
      "tb_messages_seq ?t \<le> tb_messages_seq (insert_records rs ?t)"
    using Cons.IH by blast
  have r: "insert_records (r # rs) t = insert_records rs ?t" by (simp add: insert_records_def)
  have "tb_messages_seq ?t = tb_messages_seq t + 1" "tb_messages ?t = tb_messages t @ [(message_entry r)\<lparr>ms_id := tb_messages_seq t + 1\<rparr>]"
    by (simp_all add: insert_message_def Let_def)
  then show ?case unfolding r using i by (intro exI [of _ "(tb_messages_seq t + 1) # is"]) auto
qed (simp add: insert_records_def)

lemma trim_rows:
  assumes "distinct (map ms_id (tb_messages t))" "by_time (tb_messages t) = rev (tb_messages t)"
  shows "tb_messages (trim_messages by_time n t) = drop (length (tb_messages t) - n) (tb_messages t)"
proof -
  let ?rows = "tb_messages t" and ?k = "length (tb_messages t) - n"
  have "take n (rev ?rows) = rev (drop ?k ?rows)" by (simp add: take_rev)
  then have keep: "set (map ms_id (take n (by_time ?rows))) = ms_id ` set (drop ?k ?rows)" using assms(2) by simp
  have d: "distinct (map ms_id (take ?k ?rows @ drop ?k ?rows))" using assms(1) by simp
  let ?Q = "\<lambda>r. \<not> ms_id r \<notin> ms_id ` set (drop ?k ?rows)"
  have "filter ?Q (take ?k ?rows) = []" using d unfolding map_append distinct_append by (auto simp: filter_empty_conv)
  moreover have "filter ?Q (drop ?k ?rows) = drop ?k ?rows" by (auto simp: filter_id_conv)
  ultimately have "filter ?Q (take ?k ?rows @ drop ?k ?rows) = drop ?k ?rows" unfolding filter_append by simp
  then have "filter ?Q ?rows = drop ?k ?rows" unfolding append_take_drop_id .
  then show ?thesis unfolding trim_messages_def Let_def keep by (simp add: delete_messages_def Let_def)
qed

text \<open>The records of the ring that are not in the database yet.\<close>

definition unsaved_items :: "heap \<Rightarrow> message_buf \<Rightarrow> u64 \<Rightarrow> bytes message_record list" where
  "unsaved_items h buf saved =
     drop (unat saved - (unat (mb_generation buf) - unat (mb_count buf))) (mb_items (h, buf))"

text \<open>
  A table with rows in the order of their times, as it is when the clock does not go back, and
  the records that will follow them.
\<close>

definition table_before :: "bytes message_record list \<Rightarrow> tables \<Rightarrow> bool" where
  "table_before rs t \<longleftrightarrow> sorted_wrt (<) (map ms_id (tb_messages t)) \<and> (\<forall>m\<in>set (tb_messages t). ms_id m \<le> tb_messages_seq t \<and> row_ok m)
     \<and> sorted_wrt (<) (map ms_timestamp_us (tb_messages t) @ map (\<lambda>r. sint (mr_timestamp_us r)) rs) \<and> (\<forall>r\<in>set rs. storable r)"

lemma insert_records_table:
  assumes "table_before rs t"
  shows "map row_record (tb_messages (insert_records rs t)) = map row_record (tb_messages t) @ rs"
    and "table_before [] (insert_records rs t)"
proof -
  let ?rows = "tb_messages (insert_records rs t)"
  obtain "is" where i: "length is = length rs" "?rows = tb_messages t @ map2 (\<lambda>i r. (message_entry r)\<lparr>ms_id := i\<rparr>) is rs"
      "sorted_wrt (<) is" "\<forall>i\<in>set is. tb_messages_seq t < i \<and> i \<le> tb_messages_seq (insert_records rs t)"
      "tb_messages_seq t \<le> tb_messages_seq (insert_records rs t)"
    using insert_records_rows [of rs t] by auto
  let ?new = "map2 (\<lambda>i r. (message_entry r)\<lparr>ms_id := i\<rparr>) is rs"
  have st: "\<forall>r\<in>set rs. storable r" using assms by (simp add: table_before_def)
  have nth: "?new ! k = (message_entry (rs ! k))\<lparr>ms_id := is ! k\<rparr>" "k < length ?new" if "k < length rs" for k
    using that i(1) by simp_all
  have n: "map row_record ?new = rs"
    by (rule nth_equalityI) (use i(1) nth st row_of_entry in auto)
  have ids: "map ms_id ?new = is" by (rule nth_equalityI) (use i(1) nth in auto)
  have ts: "map ms_timestamp_us ?new = map (\<lambda>r. sint (mr_timestamp_us r)) rs"
    by (rule nth_equalityI) (use i(1) nth in \<open>auto simp: message_entry_def\<close>)
  have ok: "row_ok m \<and> ms_id m \<in> set is" if m: "m \<in> set ?new" for m
  proof -
    obtain k where k0: "k < length ?new" "?new ! k = m" using m unfolding in_set_conv_nth by blast
    have k: "k < length rs" "m = ?new ! k" using k0(1) by simp (rule k0(2) [symmetric])
    have "storable (rs ! k)" using st nth_mem [OF k(1)] by blast
    then show ?thesis unfolding k(2) nth(1) [OF k(1)] using k(1) i(1) by (simp add: entry_ok)
  qed
  show "map row_record ?rows = map row_record (tb_messages t) @ rs" by (simp only: i(2) map_append n)
  have old: "sorted_wrt (<) (map ms_id (tb_messages t))" "\<And>m. m \<in> set (tb_messages t) \<Longrightarrow> ms_id m \<le> tb_messages_seq t \<and> row_ok m"
      "sorted_wrt (<) (map ms_timestamp_us (tb_messages t) @ map (\<lambda>r. sint (mr_timestamp_us r)) rs)"
    using assms by (simp_all add: table_before_def)
  have "sorted_wrt (<) (map ms_id ?rows)"
    unfolding i(2) map_append ids sorted_wrt_append using old(1) i(3,4) old(2) by (force intro: le_less_trans)
  moreover have "sorted_wrt (<) (map ms_timestamp_us ?rows)" unfolding i(2) map_append ts by (rule old(3))
  moreover have "ms_id m \<le> tb_messages_seq (insert_records rs t) \<and> row_ok m" if m: "m \<in> set ?rows" for m
  proof (cases "m \<in> set (tb_messages t)")
    case True
    then show ?thesis using old(2) i(5) by (meson order_trans)
  next
    case False
    then have "m \<in> set ?new" using m unfolding i(2) by simp
    then show ?thesis using ok i(4) by blast
  qed
  ultimately show "table_before [] (insert_records rs t)" by (simp add: table_before_def)
qed

lemma trim_table:
  assumes "newest_first by_time" "table_before [] t"
  shows "tb_messages (trim_messages by_time n t) = drop (length (tb_messages t) - n) (tb_messages t)"
  by (rule trim_rows, use assms(2) in \<open>simp add: table_before_def strict_sorted_iff\<close>)
    (rule by_time_rev [OF assms(1)], use assms(2) in \<open>simp add: table_before_def\<close>)

lemma session_history:
  assumes "history_ok h buf saved" "length batch = 256" "table_before (unsaved_items h buf saved) (db_tables d)"
    and "newest_first by_time" "db_outcomes d = []" "db_snapshot d = None" "heap_wf h0"
  shows "\<exists>d1 batch1. db_flush_history by_time (Some d) h buf (saved, batch) = Some (Some d1, message_buf_generation buf, batch1)
     \<and> (\<forall>d2. db_tables d2 = db_tables d1 \<longrightarrow> db_outcomes d2 = [] \<longrightarrow>
          (\<exists>h' buf' d3. load_history by_time (Some d2) (h0, message_buf_init HISTORY_CAPACITY)
               = Some (h', buf', message_buf_generation buf', Some d3)
             \<and> mb_items (h', buf') = lastn 200 (map row_record (tb_messages (db_tables d)) @ unsaved_items h buf saved)
             \<and> mb_frame (h', buf') = hp_blocks h0))"
proof -
  let ?new = "unsaved_items h buf saved"
  let ?t = "insert_records ?new (db_tables d)"
  have wf: "mb_wf (h, buf)" "unat (mb_count buf) \<le> unat (mb_generation buf)" "unat saved \<le> unat (mb_generation buf)"
    using assms(1) by (simp_all add: history_ok_def)
  obtain handle batch1 where f: "db_flush_history by_time (Some d) h buf (saved, batch) = Some (handle, message_buf_generation buf, batch1)"
      "handle = Some (if ?new = [] then d else update_tables (\<lambda>t. trim_messages by_time 10000 (insert_records ?new t)) d)"
    using flush_history_run [OF wf(1) history_live [OF assms(1)] _ _ assms(2), of saved by_time "Some d"] wf assms(5,6)
    by (auto simp: message_buf_count_def message_buf_generation_def unsaved_items_def Let_def)
  have t: "map row_record (tb_messages ?t) = map row_record (tb_messages (db_tables d)) @ ?new" "table_before [] ?t"
    by (rule insert_records_table [OF assms(3)])+
  let ?rows = "tb_messages ?t" and ?n = "length (tb_messages ?t)"
  obtain d1 k where d1: "handle = Some d1" "tb_messages (db_tables d1) = drop k ?rows" "k \<le> ?n - 200"
  proof (cases "?new = []")
    case True
    then show ?thesis using that [of d 0] f(2) by (simp add: insert_records_def)
  next
    case False
    then show ?thesis using that [of _ "?n - 10000"] f(2) trim_table [OF assms(4) t(2)] by simp
  qed
  let ?kept = "drop k ?rows"
  have bt: "by_time ?kept = rev ?kept"
    by (rule by_time_rev [OF assms(4)]) (use t(2) in \<open>simp add: table_before_def drop_map [symmetric] sorted_wrt_drop\<close>)
  have cap: "ring_cap_ok HISTORY_CAPACITY" "200 \<le> unat HISTORY_CAPACITY" by (simp_all add: ring_cap_ok_def)
  have "\<exists>h' buf' d3. load_history by_time (Some d2) (h0, message_buf_init HISTORY_CAPACITY)
               = Some (h', buf', message_buf_generation buf', Some d3)
             \<and> mb_items (h', buf') = lastn 200 (map row_record (tb_messages (db_tables d)) @ ?new) \<and> mb_frame (h', buf') = hp_blocks h0"
    if d2: "db_tables d2 = db_tables d1" "db_outcomes d2 = []" for d2
  proof -
    have tm: "tb_messages (db_tables d2) = ?kept" using d1(2) d2(1) by simp
    have ok: "\<forall>m\<in>set (tb_messages (db_tables d2)). row_ok m"
      unfolding tm using t(2) by (auto simp: table_before_def dest: in_set_dropD)
    let ?m = "min 200 (length ?kept)"
    obtain h' buf' m d3 where l: "load_history by_time (Some d2) (h0, message_buf_init HISTORY_CAPACITY) = Some (h', buf', message_buf_generation buf', Some d3)"
        "mb_items (h', buf') = map row_record (rev (take m (by_time ?kept)))" "mb_frame (h', buf') = hp_blocks h0" "m = ?m"
      using load_history_run [OF assms(7) cap assms(4) ok] unfolding tm using d2(2) by blast
    have "rev (take ?m (by_time ?kept)) = drop (?n - 200) ?rows"
      unfolding bt using d1(3) by (simp add: take_rev) (simp add: min_def)
    then have "mb_items (h', buf') = lastn 200 (map row_record ?rows)" unfolding l(2,4) lastn_def by (simp add: drop_map)
    then show ?thesis using l(1,3) unfolding t(1) by blast
  qed
  then show ?thesis using f(1) d1(1) by blast
qed

subsection \<open>Start-up\<close>

definition same_tables :: "db option \<Rightarrow> db option \<Rightarrow> bool" where
  "same_tables handle handle' \<longleftrightarrow> map_option db_tables handle' = map_option db_tables handle"

lemma call_tables [simp]: "db_tables (snd (sqlite_call d)) = db_tables d"
  using sqlite_call_keeps [of d "fst (sqlite_call d)" "snd (sqlite_call d)"] by simp

lemma get_setting_same: "db_get_setting handle k fb = (r, handle') \<Longrightarrow> same_tables handle handle'"
  by (cases handle)
    (auto simp: db_get_setting_def same_tables_def Let_def case_prod_beta split: option.splits if_splits)

lemma load_profiles_same:
  assumes "db_load_profiles handle ps n = Some (k, ps', handle')"
  shows "same_tables handle handle'"
proof (cases handle)
  case (Some d)
  obtain ok d1 where c: "sqlite_call d = (ok, d1)" by force
  obtain rows failed d2 where f: "fetch_rows (nat n) (select_profiles (db_tables d1)) d1 = (rows, failed, d2)" by (metis prod_cases3)
  show ?thesis
    using assms sqlite_call_keeps [OF c] fetch_rows_keeps [OF f] c f
    by (auto simp: Some db_load_profiles_def same_tables_def Let_def split: if_splits option.splits)
qed (use assms in \<open>simp add: db_load_profiles_def same_tables_def\<close>)

lemma same_tables_trans: "same_tables a b \<Longrightarrow> same_tables b c \<Longrightarrow> same_tables a c"
  by (simp add: same_tables_def)

lemma restore_window_same: "restore_window monitor dpi handle = Some (sz, handle') \<Longrightarrow> same_tables handle handle'"
proof -
  assume r: "restore_window monitor dpi handle = Some (sz, handle')"
  obtain a h1 where 1: "db_get_setting handle (Some ''window_width'') None = (a, h1)" by force
  obtain b h2 where 2: "db_get_setting h1 (Some ''window_height'') None = (b, h2)" by force
  have "handle' = h2" using r by (auto simp: restore_window_def 1 2 bind_eq_Some_conv split: option.splits)
  then show ?thesis using get_setting_same [OF 1] get_setting_same [OF 2] same_tables_trans by blast
qed

lemma restore_ratio_same: "restore_ratio handle x = (r, handle') \<Longrightarrow> same_tables handle handle'"
  using get_setting_same [of handle "Some ''tree_width_ratio''" None]
  by (auto simp: restore_ratio_def Let_def split: prod.splits option.splits)

definition fresh_world :: "net \<Rightarrow> bool" where
  "fresh_world w \<longleftrightarrow> nt_live w = [] \<and> nt_threads w = [] \<and> os_children w = [] \<and> 0 < os_next_pid w"

lemma init_queue: "sq_wf (as_msg_queue app_state_init)" "cl_wf (as_conn_log app_state_init)"
  using init_fifo [of MSG_QUEUE_CAPACITY]
  by (simp_all add: app_state_init_def zeroed_app_def spsc_cap_ok_def cl_wf_def connection_log_init_def ring_cap_ok_def)

text \<open>What the user interface starts with.\<close>

definition idle_ui :: "app_state \<Rightarrow> bool" where
  "idle_ui st \<longleftrightarrow> \<not> as_context_menu_open st \<and> \<not> as_disconnect_requested st \<and> as_topic_filter st = ''''
     \<and> as_publish_topic st = '''' \<and> as_publish_payload st = '''' \<and> mr_payload (as_frozen_message st) = None"

lemma idle_init [simp]: "idle_ui app_state_init"
  by (simp add: idle_ui_def app_state_init_def zeroed_app_def zero_record_def)

lemma idle_loaded [simp]:
  "idle_ui (st\<lparr>as_profiles := ps, as_profile_count := n, as_tree_width_ratio := ratio, as_global_history := buf\<rparr>) = idle_ui st"
  by (simp add: idle_ui_def)

lemma init_app:
  "as_topic_tree app_state_init = topic_tree_init TOPIC_TREE_CAPACITY" "as_global_history app_state_init = message_buf_init HISTORY_CAPACITY"
  "as_selected_topic app_state_init = None" "as_clear_topic_requested app_state_init = None"
  "as_chart_series app_state_init = replicate CHART_MAX_SERIES chart_series_reset"
  by (simp_all add: app_state_init_def zeroed_app_def)

lemma bindD2: "m \<bind> f = Some y \<Longrightarrow> \<exists>x. m = Some x \<and> f x = Some y"
  by (simp add: bind_eq_Some_conv)

lemma start_inv:
  assumes "main_init by_time monitor dpi handle h w pp batch = Some (s, win)"
    and "heap_wf h" "newest_first by_time" "length batch = 256" "fresh_world w"
    and "\<And>d. handle = Some d \<Longrightarrow> \<forall>m\<in>set (tb_messages (db_tables d)). row_ok m"
  shows "main_inv s"
proof -
  have cap: "ring_cap_ok HISTORY_CAPACITY" "200 \<le> unat HISTORY_CAPACITY" by (simp_all add: ring_cap_ok_def)
  obtain st h' saved handle' sz where L: "(if handle = None then Some (app_state_init, h, 0, handle, None)
           else do {
             (n, profiles, handle) \<leftarrow> db_load_profiles handle (as_profiles app_state_init) 32;
             (size, handle) \<leftarrow> restore_window monitor dpi handle;
             let (ratio, handle) = restore_ratio handle (as_tree_width_ratio app_state_init);
             (h, buf, saved, handle) \<leftarrow> load_history by_time handle (h, as_global_history app_state_init);
             Some (app_state_init\<lparr>as_profiles := profiles, as_profile_count := int n, as_tree_width_ratio := ratio,
                     as_global_history := buf\<rparr>, h, saved, handle, size)
           }) = Some (st, h', saved, handle', sz)"
      and N: "(case mqtt_client_new (as_msg_queue st) (as_conn_log st) w of (None, w) \<Rightarrow> None | (Some c, w) \<Rightarrow> Some (c, w)) \<bind>
         (\<lambda>(c, w). Some (\<lparr>mn_app = st, mn_mqtt = (c, w), mn_heap = h', mn_db = handle', mn_saved = saved, mn_batch = batch,
               mn_pp = pp, mn_save_timer = Fin 0, mn_frame_avg = flt (1 / 60), mn_rate_acc = Fin 0,
               mn_rate_timer = Fin 0, mn_tpt_acc = Fin 0, mn_tpt_timer = Fin 0, mn_tpt_node = None\<rparr>, sz)) = Some (s, win)"
    using bindD2 [OF assms(1) [unfolded main_init_def, unfolded Let_def [of app_state_init]]] by (force split: prod.splits)
  have st: "as_topic_tree st = as_topic_tree app_state_init" "as_selected_topic st = None" "as_clear_topic_requested st = None"
      "as_chart_series st = as_chart_series app_state_init" "as_msg_queue st = as_msg_queue app_state_init"
      "as_conn_log st = as_conn_log app_state_init" "history_ok h' (as_global_history st) saved" "idle_ui st"
  proof -
    have empty: "history_ok h (message_buf_init HISTORY_CAPACITY) 0"
      using init_wf [OF assms(2) cap(1)] by (simp add: history_ok_def) (simp add: message_buf_init_def)
    have "as_topic_tree st = as_topic_tree app_state_init \<and> as_selected_topic st = None \<and> as_clear_topic_requested st = None
      \<and> as_chart_series st = as_chart_series app_state_init \<and> as_msg_queue st = as_msg_queue app_state_init
      \<and> as_conn_log st = as_conn_log app_state_init \<and> history_ok h' (as_global_history st) saved \<and> idle_ui st"
    proof (cases handle)
      case None
      then show ?thesis using L empty by (auto simp: init_app)
    next
      case (Some d)
      let ?load = "\<lambda>handle. do {
             (n, profiles, handle) \<leftarrow> db_load_profiles handle (as_profiles app_state_init) 32;
             (size, handle) \<leftarrow> restore_window monitor dpi handle;
             let (ratio, handle) = restore_ratio handle (as_tree_width_ratio app_state_init);
             (h, buf, saved, handle) \<leftarrow> load_history by_time handle (h, as_global_history app_state_init);
             Some (app_state_init\<lparr>as_profiles := profiles, as_profile_count := int n, as_tree_width_ratio := ratio,
                     as_global_history := buf\<rparr>, h, saved, handle, size)
           }"
      have L': "?load handle = Some (st, h', saved, handle', sz)" using L Some by simp
      obtain n ps h1 where l1: "db_load_profiles handle (as_profiles app_state_init) 32 = Some (n, ps, h1)"
        using L' by (cases "db_load_profiles handle (as_profiles app_state_init) 32") auto
      obtain size1 h2 where l2: "restore_window monitor dpi h1 = Some (size1, h2)"
        using L' l1 by (cases "restore_window monitor dpi h1") auto
      obtain ratio h3 where l3: "restore_ratio h2 (as_tree_width_ratio app_state_init) = (ratio, h3)" by force
      obtain hh buf sv h4 where l4: "load_history by_time h3 (h, as_global_history app_state_init) = Some (hh, buf, sv, h4)"
        using L' l1 l2 l3 by (cases "load_history by_time h3 (h, as_global_history app_state_init)") auto
      have l: "st = app_state_init\<lparr>as_profiles := ps, as_profile_count := int n, as_tree_width_ratio := ratio, as_global_history := buf\<rparr>"
          "h' = hh" "saved = sv"
        using L' l1 l2 l3 l4 by simp_all
      have "same_tables handle h3"
        using load_profiles_same [OF l1] restore_window_same [OF l2] restore_ratio_same [OF l3] same_tables_trans by blast
      then obtain d3 where d3: "h3 = Some d3" "db_tables d3 = db_tables d" by (auto simp: same_tables_def Some)
      have "\<forall>m\<in>set (tb_messages (db_tables d3)). row_ok m" using assms(6) [OF Some] d3(2) by simp
      from load_history_run [OF assms(2) cap assms(3) this]
      have "history_ok hh buf sv" using l4 unfolding d3(1) init_app by auto
      then show ?thesis by (simp add: l init_app)
    qed
    then show "as_topic_tree st = as_topic_tree app_state_init" "as_selected_topic st = None" "as_clear_topic_requested st = None"
      "as_chart_series st = as_chart_series app_state_init" "as_msg_queue st = as_msg_queue app_state_init"
      "as_conn_log st = as_conn_log app_state_init" "history_ok h' (as_global_history st) saved" "idle_ui st"
      by blast+
  qed
  obtain c w' where c: "mqtt_client_new (as_msg_queue st) (as_conn_log st) w = (Some c, w')"
      "s = \<lparr>mn_app = st, mn_mqtt = (c, w'), mn_heap = h', mn_db = handle', mn_saved = saved, mn_batch = batch,
               mn_pp = pp, mn_save_timer = Fin 0, mn_frame_avg = flt (1 / 60), mn_rate_acc = Fin 0,
               mn_rate_timer = Fin 0, mn_tpt_acc = Fin 0, mn_tpt_timer = Fin 0, mn_tpt_node = None\<rparr>"
    using N by (auto simp: bind_eq_Some_conv split: prod.splits option.splits)
  have "client_inv (c, w')"
    by (rule new_inv [OF c(1)]) (use assms(5) init_queue st(5,6) in \<open>simp_all add: fresh_world_def\<close>)
  moreover have "tree_ok (\<lambda>_. []) (topic_tree_init TOPIC_TREE_CAPACITY)" "payloads_ok (topic_tree_init TOPIC_TREE_CAPACITY)"
    by (rule init_tree; simp)+
  ultimately show ?thesis
    using st assms(4) reset_inv unfolding main_inv_def
    by (intro exI [of _ "\<lambda>_. []"]) (auto simp: c(2) main_ok_def pointers_ok_def init_app idle_ui_def)
qed


subsection \<open>Properties\<close>

text \<open>
  C39. The window size does not survive a restart. Both strings that \<open>main\<close> reads are the one
  buffer of the handle, so what it restores is the height, for both sides: a window that was wider
  than high loses its width, and one of less than 900 rows is not restored at all, however wide it
  was.
\<close>
theorem window_width_lost:
  assumes "db_outcomes d = []" "0 \<le> w" "w < 2 ^ 31" "0 \<le> h" "h < 2 ^ 31"
  shows "map_option fst (restore_window monitor dpi (save_window (w, h) (Some d))) = fit_window monitor dpi h h
    \<and> (\<forall>a b. map_option fst (restore_window monitor dpi (save_window (w, h) (Some d))) = Some (Some (a, b)) \<longrightarrow> 900 \<le> h \<and> a \<le> h)"
  using window_restored [OF assms] fit_window_wide by simp

lemma window_width_lost_witness:
  "map_option fst (restore_window (2560, 1440) (Fin 1, Fin 1) (save_window (1280, 800) (Some empty_db))) \<noteq> Some (Some (1280, 800))"
  using window_width_lost [of empty_db 1280 800 "(2560, 1440)" "(Fin 1, Fin 1)"] by (auto simp: empty_db_def)

text \<open>
  C38. What the sessions so far leave, the next one finds. When the database answers and the times
  of the records grow, the flush at the end of a session and the loading at the start of the next
  one put the newest 200 of all records, those that were in the table and those that were only in
  the ring, into the new ring, in their order, equal in every field, with the bytes of their
  payloads; and the ring owns them, while nobody else's block is touched.
\<close>
theorem restart_restores_history:
  assumes "history_ok h buf saved" "length batch = 256" "table_before (unsaved_items h buf saved) (db_tables d)"
    and "newest_first by_time" "db_outcomes d = []" "db_snapshot d = None" "heap_wf h0"
  shows "\<exists>d1 batch1. db_flush_history by_time (Some d) h buf (saved, batch) = Some (Some d1, message_buf_generation buf, batch1)
     \<and> (\<forall>d2. db_tables d2 = db_tables d1 \<longrightarrow> db_outcomes d2 = [] \<longrightarrow>
          (\<exists>h' buf' d3. load_history by_time (Some d2) (h0, message_buf_init HISTORY_CAPACITY)
               = Some (h', buf', message_buf_generation buf', Some d3)
             \<and> mb_items (h', buf') = lastn 200 (map row_record (tb_messages (db_tables d)) @ unsaved_items h buf saved)
             \<and> mb_frame (h', buf') = hp_blocks h0))"
  by (rule session_history [OF assms])

definition sort_by_time :: "message_row list \<Rightarrow> message_row list" where
  "sort_by_time rows = rev (sort_key ms_timestamp_us rows)"

lemma sort_by_time_newest: "newest_first sort_by_time"
  using sorted_sort_key by (auto simp: newest_first_def sort_by_time_def sorted_map sorted_wrt_rev)

definition sample_stored :: "bytes option message_record" where
  "sample_stored = (sample_record ''a'' (Some [1]) 1)\<lparr>mr_preview := fst (util_preview_sanitize [] 512 [1])\<rparr>"

lemma restart_restores_history_witness:
  "\<exists>h buf d1 batch1 h' buf' d3. message_buf_push sample_stored (empty_heap, message_buf_init HISTORY_CAPACITY) = Some (h, buf)
     \<and> db_flush_history sort_by_time (Some empty_db) h buf (0, replicate 256 zero_record) = Some (Some d1, 1, batch1)
     \<and> load_history sort_by_time (Some (d1\<lparr>db_outcomes := []\<rparr>)) (empty_heap, message_buf_init HISTORY_CAPACITY)
         = Some (h', buf', message_buf_generation buf', Some d3)
     \<and> mb_items (h', buf') = [stored sample_stored]"
proof -
  have cap: "ring_cap_ok HISTORY_CAPACITY" by (simp add: ring_cap_ok_def)
  have wf0: "mb_wf (empty_heap, message_buf_init HISTORY_CAPACITY)" "mb_items (empty_heap, message_buf_init HISTORY_CAPACITY) = []"
    by (rule init_wf; simp add: ring_cap_ok_def)+
  have hp: "heap_wf empty_heap" by (simp add: heap_wf_def empty_heap_def)
  have ok: "record_ok sample_stored" by (simp add: sample_stored_def record_ok_def sample_record_def)
  have z: "mb_generation (message_buf_init HISTORY_CAPACITY) = 0" "mb_count (message_buf_init HISTORY_CAPACITY) = 0"
      "mb_cap (empty_heap, message_buf_init HISTORY_CAPACITY) = 32768"
    by (simp_all add: message_buf_init_def mb_cap_def)
  obtain h buf where p: "message_buf_push sample_stored (empty_heap, message_buf_init HISTORY_CAPACITY) = Some (h, buf)" "mb_wf (h, buf)"
      "mb_items (h, buf) = lastn 32768 [stored sample_stored]" "mb_generation buf = 1"
    using push_contract [OF wf0(1) ok] z wf0(2) by force
  have items: "mb_items (h, buf) = [stored sample_stored]" using p(3) by (simp add: lastn_def)
  have cnt: "unat (mb_count buf) = 1" using arg_cong [OF items, of length] by (simp add: length_mb_items)
  have hist: "history_ok h buf 0" using p(2,4) cnt items by (simp add: history_ok_def stored_def sample_stored_def sample_record_def)
  have new: "unsaved_items h buf 0 = [stored sample_stored]" using cnt p(4) by (simp add: unsaved_items_def items)
  have tb: "table_before (unsaved_items h buf 0) (db_tables empty_db)"
    unfolding new by (simp add: table_before_def empty_db_def empty_tables_def storable_def stored_def sample_stored_def sample_record_def)
  have emp: "db_outcomes empty_db = []" "db_snapshot empty_db = None" "tb_messages (db_tables empty_db) = []"
    by (simp_all add: empty_db_def empty_tables_def)
  have gen: "message_buf_generation buf = 1" using p(4) by (simp add: message_buf_generation_def)
  note r = restart_restores_history [OF hist _ tb sort_by_time_newest emp(1,2) hp, of "replicate 256 zero_record"]
  obtain d1 batch1 where f: "db_flush_history sort_by_time (Some empty_db) h buf (0, replicate 256 zero_record) = Some (Some d1, 1, batch1)"
      "\<forall>d2. db_tables d2 = db_tables d1 \<longrightarrow> db_outcomes d2 = [] \<longrightarrow>
         (\<exists>h' buf' d3. load_history sort_by_time (Some d2) (empty_heap, message_buf_init HISTORY_CAPACITY)
              = Some (h', buf', message_buf_generation buf', Some d3)
            \<and> mb_items (h', buf') = lastn 200 (map row_record [] @ [stored sample_stored]) \<and> mb_frame (h', buf') = hp_blocks empty_heap)"
    using r unfolding emp new gen length_replicate by blast
  obtain h' buf' d3 where "load_history sort_by_time (Some (d1\<lparr>db_outcomes := []\<rparr>)) (empty_heap, message_buf_init HISTORY_CAPACITY)
              = Some (h', buf', message_buf_generation buf', Some d3)" "mb_items (h', buf') = [stored sample_stored]"
    using f(2) [rule_format, of "d1\<lparr>db_outcomes := []\<rparr>"] by (auto simp: lastn_def)
  then show ?thesis using p(1) f(1) by blast
qed

end
