(* ===== verification/Spec2Isabelle.thy ===== *)
theory Spec2Isabelle
  imports Util Message_Buf Connection_Log Spsc_Queue Topic_Payload Subscription Version Csv_Export Chart_Series Arena_Alloc Json_PP Cbor_PP Db_Profiles Db_Index Db_Query Ssh_Tunnel Mqtt_Inv Mqtt_Race Text_Edit Inspector_Diff Chart_Panel Tree_Widget Drawing Panels Profile_Dialog Inspector_View Export_Path Main_Start
begin

text \<open>
  A verification library for the MQTT viewer, a desktop client that subscribes to the topics of an
  MQTT broker and shows them as a tree. The program is C; the theories translate its sources and
  prove what makes them correct. Paths below are relative to \<open>src/src/\<close>.

  \<^bold>\<open>The program.\<close> Two threads share a queue and a log. libmosquitto's network thread runs the
  callbacks of \<open>core/mqtt_client.c\<close>: each message is copied and pushed on the single-producer
  single-consumer queue (\<open>model/spsc_queue.c\<close>), each event is written to the log ring
  (\<open>model/connection_log.c\<close>, under a mutex). The main thread runs the loop of \<open>main.c\<close>: every frame it
  drains the queue into the topic tree (\<open>model/topic_tree.c\<close>, whose nodes and payload blocks come from
  the slab pools of \<open>model/pool_alloc.c\<close>), into the ring of recent messages
  (\<open>model/message_buf.c\<close>) and into the charted series (\<open>model/chart_series.c\<close>), carries out the
  requests that the widgets left in the application state (\<open>model/app_state.c\<close>), writes the ring to
  SQLite every five seconds (\<open>platform/db.c\<close>), lays out the widgets (\<open>ui/\<close>) and draws Clay's render
  commands. A connection may go through an ssh process (\<open>core/ssh_tunnel.c\<close>). Payloads are shown
  through two formatters (\<open>model/json_pp.c\<close>, \<open>model/cbor_pp.c\<close>); one worker thread asks for a newer
  release (\<open>platform/update_check.c\<close>).

  \<^bold>\<open>Conventions.\<close> A struct is a record with the fields of the source, an enum a datatype, an integer
  a word of its width (\<open>size_t\<close> offsets and counters that cannot wrap are \<open>nat\<close>, and each theory says
  where), a C string a list of characters without NUL and a payload a list of bytes. \<open>float\<close> and
  \<open>double\<close> are rationals with infinities and NaN, rounded to nearest after every operation
  (\<open>Float32.thy\<close>, \<open>Float64.thy\<close>). State is passed explicitly, errors are values, and undefined
  behaviour (a double free, a read through a dead pointer, a conversion out of range) is \<open>None\<close>, so
  that a theorem that concludes \<open>Some\<close> excludes it. Operations of libraries are parameters: clocks
  and time zones, files and processes, the results of system calls, SQLite's failures, the width of a
  text, Clay's answers on the pointer and on the boxes of its elements.

  \<^bold>\<open>Foundations.\<close> \<open>Prelude.thy\<close>: machine integers, C strings and number printing. \<open>Ring.thy\<close>: the
  window of a circular array, its index arithmetic, and the locale \<open>evicting_log\<close> that
  \<open>Message_Buf.thy\<close> and \<open>Connection_Log.thy\<close> interpret; the locales \<open>bounded_fifo\<close> of
  \<open>Spsc_Queue.thy\<close> and \<open>slot_allocator\<close> of \<open>Pool_Alloc.thy\<close> are the interfaces of the queue and of
  the pool. \<open>Float64.thy\<close>, \<open>Float32.thy\<close> and \<open>Decimal.thy\<close>: floating point and its numerals.

  \<^bold>\<open>Data structures\<close> (\<open>model/\<close>).
    \<^item> \<open>Message_Buf.thy\<close> (\<open>message_buf.c\<close>): the ring over an explicit heap refines a bounded log of
      messages; no payload leaks or is freed twice; the generation counts every push.
    \<^item> \<open>Spsc_Queue.thy\<close> (\<open>spsc_queue.c\<close>): first in first out, also when the two threads interleave
      at single loads, stores and copies; they never touch one slot at a time.
    \<^item> \<open>Connection_Log.thy\<close>, \<open>Pool_Alloc.thy\<close>, \<open>Arena_Alloc.thy\<close>: the log, the pool and the arena; live
      objects are never handed out again and never overlap.
    \<^item> \<open>Topic_Tree.thy\<close>, \<open>Topic_Payload.thy\<close> (\<open>topic_tree.c\<close>): the tree linked by addresses; insertion and
      search, the counters of messages, the full path of a node, the payload snapshots.
    \<^item> \<open>Subscription.thy\<close>: the filter matcher against the wildcard rules of the standard, and where it
      departs from them. \<open>Version.thy\<close>, \<open>Util.thy\<close>: versions, bounded copies, previews, times.
    \<^item> \<open>Chart_Series.thy\<close>: the sample ring keeps two minutes of samples and exact extremes.
    \<^item> \<open>Csv_Export.thy\<close>: what is written reads back as RFC 4180 text.
    \<^item> \<open>Json_PP.thy\<close>, \<open>Cbor_PP.thy\<close>: the formatters. Their recursion carries fuel, \<open>2 * (length + 1)\<close> and
      \<open>2 * length + 1\<close>: every second call at the latest consumes a byte, and the totality theorems
      show that this is enough, so the model always returns. Their lines on well-formed input are
      those of a reference printer.
    \<^item> \<open>Broker_Profile.thy\<close>, \<open>App_State.thy\<close>: the profile and the whole application state.

  \<^bold>\<open>Storage and network\<close> (\<open>platform/\<close>, \<open>core/\<close>).
    \<^item> \<open>Sql_Store.thy\<close> has the tables and statements, \<open>Db_Subscriptions.thy\<close> the JSON text of a
      profile's subscriptions, \<open>Db.thy\<close> every operation; \<open>Db_Profiles.thy\<close>, \<open>Db_Flush.thy\<close>,
      \<open>Db_Index.thy\<close> and \<open>Db_Query.thy\<close> prove that profiles come back as they were saved, that a flush
      appends exactly the unsaved messages, that the full-text index follows the table, and that the
      query text is quoted.
    \<^item> \<open>Ssh_Tunnel.thy\<close>: the command line does not contain the password, and no path leaves a process
      or a socket behind. The wait for the tunnel is bounded by its number of attempts.
    \<^item> \<open>Mqtt_Client.thy\<close>, \<open>Mqtt_Inv.thy\<close>, \<open>Mqtt_Race.thy\<close>: the client over every sequence of operations
      and callbacks: no instance is used after it was destroyed; subscriptions are requested again
      after a reconnect; no subscription is lost between the two threads.
    \<^item> \<open>Update_Check.thy\<close>, \<open>Export_Path.thy\<close>: one worker at a time owns the buffers; an export stays
      inside its folder.

  \<^bold>\<open>Widgets\<close> (\<open>ui/\<close>). A widget's \<open>render\<close> is the function from its own static variables, the
  application state and the input of the frame to what it shows and to the new state.
    \<^item> \<open>Text_Edit.thy\<close>: the line editor behind every field.
    \<^item> \<open>Inspector_Diff.thy\<close>, \<open>Hex_Dump.thy\<close>, \<open>Inspector_View.thy\<close>: the inspector: the line diff is a
      longest common subsequence, the hex dump decodes to the bytes it shows.
    \<^item> \<open>Tree_Filter.thy\<close>, \<open>Tree_Widget.thy\<close>: the marks of the filter are those of its definition on
      paths; the search, the rows and their clicks.
    \<^item> \<open>Menus.thy\<close>, \<open>Dialogs.thy\<close>, \<open>Panels.thy\<close>, \<open>Profile_Dialog.thy\<close>: the menu bar and the context menu,
      the status bar and the about dialog, the publish and the log panel, the profile dialog.
    \<^item> \<open>Chart_Panel.thy\<close>, \<open>Drawing.thy\<close>: the charts, the window and its fonts, and the render loop of
      \<open>main.c\<close>, whose stack of clips gives every shape the intersection of the clips around it.

  \<^bold>\<open>The main loop\<close> (\<open>main.c\<close>). \<open>Main_Loop.thy\<close> has start-up, the handlers of a frame and shutdown.
  \<open>Main_Inv.thy\<close> states what holds between frames (every pointer kept outside the tree points to a
  live node, the payload blocks belong to their nodes, heap and ring agree, the client is sound) and
  proves that every handler keeps it and returns. \<open>Main_Start.thy\<close> proves that start-up establishes it
  and that a session finds the history the previous ones stored.

  \<^bold>\<open>Not modelled.\<close> The layout itself (sizes, colours and fonts given to Clay) and the code of Clay,
  Raylib, SQLite, libmosquitto and libcurl, which are not in the repository; \<open>model/alloc.h\<close>, whose one
  function aborts when memory is exhausted, so that a model of an allocation is total;
  \<open>platform/log.h\<close> (diagnostics on stderr), \<open>ui/theme.h\<close> (constants of the layout),
  \<open>platform/clay_impl.c\<close> and \<open>compat/cjson\<close>, which hold no code of the program. Atomic operations of
  the queue are modelled as sequentially consistent: the acquire and release pairs of the source order
  exactly the accesses that the proofs rely on.
\<close>

end
